(* ===== verification/Prelude.thy ===== *)
theory Prelude
  imports Main "HOL-Library.Word"
begin

text \<open>
  What every component of the model shares.

  Results: a Rust \<open>Result<T, E>\<close> is a sum, \<open>Inl (Err e)\<close> for an error the
  code returns and \<open>Inl Panic\<close> for a panic (an index or slice out of range, an integer overflow
  under the overflow checks of the debug profile, an explicit \<open>panic!\<close>). The \<open>?\<close> operator
  is \<open>and_then\<close>, \<open>map_err\<close> is itself. Stateful code is a function from the state
  to a result and the next state; the state is returned on the error paths too, since a
  file that was written before the error stays written.

  Integers: \<open>u8\<close> and \<open>u16\<close> are words, \<open>usize\<close> is \<open>nat\<close> (its subtractions
  are checked, its sums stay far below \<open>2 ^ 64\<close>), and \<open>i32\<close> is a datatype over
  \<open>32 word\<close> ordered as two's complement. The big-endian byte encodings are written out.
\<close>

section \<open>Lemma collections\<close>

named_theorems result_simps \<open>computation rules of the result combinators\<close>
named_theorems codec_simps \<open>byte encodings and their inverses\<close>
named_theorems list_simps \<open>facts on slices and in-place writes of byte buffers\<close>

section \<open>Results\<close>

datatype 'e fault = Err 'e | Panic

type_synonym ('a, 'e) result = "'e fault + 'a"

definition and_then :: "('a, 'e) result \<Rightarrow> ('a \<Rightarrow> ('b, 'e) result) \<Rightarrow> ('b, 'e) result" where
  "and_then r f = (case r of Inl e \<Rightarrow> Inl e | Inr x \<Rightarrow> f x)"

definition map_err :: "('e \<Rightarrow> 'f) \<Rightarrow> ('a, 'e) result \<Rightarrow> ('a, 'f) result" where
  "map_err g r = (case r of Inl (Err e) \<Rightarrow> Inl (Err (g e)) | Inl Panic \<Rightarrow> Inl Panic | Inr x \<Rightarrow> Inr x)"

definition ok_or :: "'e \<Rightarrow> 'a option \<Rightarrow> ('a, 'e) result" where
  "ok_or e x = (case x of None \<Rightarrow> Inl (Err e) | Some v \<Rightarrow> Inr v)"

lemma and_then_simps [simp, result_simps]:
  "and_then (Inr x) f = f x"
  "and_then (Inl e) f = Inl e"
  by (simp_all add: and_then_def)

lemma and_then_Inr_iff [result_simps]:
  "and_then r f = Inr y \<longleftrightarrow> (\<exists>x. r = Inr x \<and> f x = Inr y)"
  by (cases r) (auto simp: and_then_def)

lemma map_err_simps [simp, result_simps]:
  "map_err g (Inr x) = Inr x"
  "map_err g (Inl (Err e)) = Inl (Err (g e))"
  "map_err g (Inl Panic) = Inl Panic"
  by (simp_all add: map_err_def)

lemma map_err_Inr_iff [simp, result_simps]: "map_err g r = Inr y \<longleftrightarrow> r = Inr y"
  by (auto simp: map_err_def split: sum.splits fault.splits)

lemma ok_or_simps [simp, result_simps]:
  "ok_or e (Some v) = Inr v"
  "ok_or e None = Inl (Err e)"
  by (simp_all add: ok_or_def)

text \<open>Collecting an iterator of results stops at the first error, as \<open>collect\<close> does.\<close>

fun collect_results :: "('a, 'e) result list \<Rightarrow> ('a list, 'e) result" where
  "collect_results [] = Inr []"
| "collect_results (r # rs) =
     and_then r (\<lambda>x. and_then (collect_results rs) (\<lambda>xs. Inr (x # xs)))"

lemma collect_results_Inr [result_simps]:
  "collect_results (map (\<lambda>x. Inr (f x)) xs) = Inr (map f xs)"
  by (induction xs) auto

lemma collect_results_Inr_iff [result_simps]: "collect_results rs = Inr xs \<longleftrightarrow> rs = map Inr xs"
proof (induction rs arbitrary: xs)
  case (Cons r rs)
  then show ?case by (cases r) (auto simp: and_then_Inr_iff)
qed auto

section \<open>Stateful computations\<close>

type_synonym ('s, 'a, 'e) io = "'s \<Rightarrow> ('a, 'e) result \<times> 's"

definition io_ret :: "'a \<Rightarrow> ('s, 'a, 'e) io" where
  "io_ret x s = (Inr x, s)"

definition io_lift :: "('a, 'e) result \<Rightarrow> ('s, 'a, 'e) io" where
  "io_lift r s = (r, s)"

definition io_fail :: "'e \<Rightarrow> ('s, 'a, 'e) io" where
  "io_fail e s = (Inl (Err e), s)"

definition io_panic :: "('s, 'a, 'e) io" where
  "io_panic s = (Inl Panic, s)"

definition io_bind :: "('s, 'a, 'e) io \<Rightarrow> ('a \<Rightarrow> ('s, 'b, 'e) io) \<Rightarrow> ('s, 'b, 'e) io" where
  "io_bind m f s = (case m s of (Inl e, t) \<Rightarrow> (Inl e, t) | (Inr x, t) \<Rightarrow> f x t)"

text \<open>An operation that only reads the state.\<close>

definition io_read :: "('s \<Rightarrow> ('a, 'e) result) \<Rightarrow> ('s, 'a, 'e) io" where
  "io_read f s = (f s, s)"

definition io_map_err :: "('e \<Rightarrow> 'f) \<Rightarrow> ('s, 'a, 'e) io \<Rightarrow> ('s, 'a, 'f) io" where
  "io_map_err g m s = (case m s of (r, t) \<Rightarrow> (map_err g r, t))"

lemma io_basic_simps [simp, result_simps]:
  "io_ret x s = (Inr x, s)"
  "io_lift r s = (r, s)"
  "io_fail e s = (Inl (Err e), s)"
  "io_panic s = (Inl Panic, s)"
  "io_read f s = (f s, s)"
  by (simp_all add: io_ret_def io_lift_def io_fail_def io_panic_def io_read_def)

lemma io_bind_Inr: "m s = (Inr x, t) \<Longrightarrow> io_bind m f s = f x t"
  by (simp add: io_bind_def)

lemma io_bind_Inl: "m s = (Inl e, t) \<Longrightarrow> io_bind m f s = (Inl e, t)"
  by (simp add: io_bind_def)

lemma io_bind_basic [simp, result_simps]:
  "io_bind (io_ret x) f s = f x s"
  "io_bind (io_lift (Inr x)) f s = f x s"
  "io_bind (io_lift (Inl e)) f s = (Inl e, s)"
  "io_bind (io_fail e') f s = (Inl (Err e'), s)"
  "io_bind io_panic f s = (Inl Panic, s)"
  by (simp_all add: io_bind_def)

lemma io_bind_ok_iff [result_simps]:
  "io_bind m f s = (Inr y, u) \<longleftrightarrow> (\<exists>x t. m s = (Inr x, t) \<and> f x t = (Inr y, u))"
  by (auto simp: io_bind_def split: prod.splits sum.splits)

lemma io_map_err_ok [result_simps]: "m s = (Inr x, t) \<Longrightarrow> io_map_err g m s = (Inr x, t)"
  by (simp add: io_map_err_def)

lemma io_map_err_ok_iff [result_simps]:
  "io_map_err g m s = (Inr x, t) \<longleftrightarrow> m s = (Inr x, t)"
  by (cases "m s") (simp add: io_map_err_def)

section \<open>Slices and writes into buffers\<close>

text \<open>\<open>&xs[a..b]\<close>: panics unless \<open>a \<le> b \<le> len\<close>.\<close>

definition slice :: "'a list \<Rightarrow> nat \<Rightarrow> nat \<Rightarrow> ('a list, 'e) result" where
  "slice xs a b = (if a \<le> b \<and> b \<le> length xs then Inr (take (b - a) (drop a xs)) else Inl Panic)"

text \<open>\<open>xs[a..b].copy_from_slice(ys)\<close>: also panics when the lengths differ.\<close>

definition copy_into :: "'a list \<Rightarrow> nat \<Rightarrow> nat \<Rightarrow> 'a list \<Rightarrow> ('a list, 'e) result" where
  "copy_into xs a b ys =
     (if a \<le> b \<and> b \<le> length xs \<and> length ys = b - a
      then Inr (take a xs @ ys @ drop b xs) else Inl Panic)"

text \<open>\<open>xs[i]\<close> and \<open>xs[i] = v\<close>.\<close>

definition index_get :: "'a list \<Rightarrow> nat \<Rightarrow> ('a, 'e) result" where
  "index_get xs i = (if i < length xs then Inr (xs ! i) else Inl Panic)"

definition index_set :: "'a list \<Rightarrow> nat \<Rightarrow> 'a \<Rightarrow> ('a list, 'e) result" where
  "index_set xs i v = (if i < length xs then Inr (xs[i := v]) else Inl Panic)"

text \<open>\<open>Vec::get\<close>.\<close>

definition vec_get :: "'a list \<Rightarrow> nat \<Rightarrow> 'a option" where
  "vec_get xs i = (if i < length xs then Some (xs ! i) else None)"

text \<open>Checked subtraction on \<open>usize\<close>.\<close>

definition usize_sub :: "nat \<Rightarrow> nat \<Rightarrow> (nat, 'e) result" where
  "usize_sub a b = (if b \<le> a then Inr (a - b) else Inl Panic)"

lemma slice_ok [simp, list_simps]:
  "a \<le> b \<Longrightarrow> b \<le> length xs \<Longrightarrow> slice xs a b = Inr (take (b - a) (drop a xs))"
  by (simp add: slice_def)

lemma copy_into_ok [simp, list_simps]:
  "a \<le> b \<Longrightarrow> b \<le> length xs \<Longrightarrow> length ys = b - a \<Longrightarrow>
   copy_into xs a b ys = Inr (take a xs @ ys @ drop b xs)"
  by (simp add: copy_into_def)

lemma index_get_ok [simp, list_simps]: "i < length xs \<Longrightarrow> index_get xs i = Inr (xs ! i)"
  by (simp add: index_get_def)

lemma index_set_ok [simp, list_simps]: "i < length xs \<Longrightarrow> index_set xs i v = Inr (xs[i := v])"
  by (simp add: index_set_def)

lemma vec_get_simps [simp, list_simps]:
  "i < length xs \<Longrightarrow> vec_get xs i = Some (xs ! i)"
  "length xs \<le> i \<Longrightarrow> vec_get xs i = None"
  by (simp_all add: vec_get_def)

lemma usize_sub_ok [simp]: "b \<le> a \<Longrightarrow> usize_sub a b = Inr (a - b)"
  by (simp add: usize_sub_def)

lemma usize_sub_panic [simp]: "a < b \<Longrightarrow> usize_sub a b = Inl Panic"
  by (simp add: usize_sub_def)

lemma usize_sub_Inr_iff: "usize_sub a b = Inr c \<longleftrightarrow> b \<le> a \<and> c = a - b"
  by (auto simp: usize_sub_def)

text \<open>Reading back a region of a buffer after one write into it.\<close>

lemma take_drop_write_same [list_simps]:
  assumes "a + length ys \<le> length xs"
  shows "take (length ys) (drop a (take a xs @ ys @ drop (a + length ys) xs)) = ys"
  using assms by (simp add: min_def)

lemma take_drop_write_other [list_simps]:
  assumes "a + length ys \<le> length xs" and "b + n \<le> a \<or> a + length ys \<le> b"
  shows "take n (drop b (take a xs @ ys @ drop (a + length ys) xs)) = take n (drop b xs)"
proof (cases "b + n \<le> a")
  case True
  then show ?thesis using assms(1)
    by (intro nth_equalityI) (auto simp: nth_append)
next
  case False
  with assms show ?thesis
    by (simp add: drop_take min_def)
qed

text \<open>\<open>Iterator::position\<close>.\<close>

fun position :: "('a \<Rightarrow> bool) \<Rightarrow> 'a list \<Rightarrow> nat option" where
  "position P [] = None"
| "position P (x # xs) = (if P x then Some 0 else map_option Suc (position P xs))"

lemma position_Some:
  "position P xs = Some i \<longleftrightarrow> i < length xs \<and> P (xs ! i) \<and> (\<forall>j < i. \<not> P (xs ! j))"
proof (induction xs arbitrary: i)
  case (Cons x xs)
  then show ?case
    by (cases i) (auto simp: All_less_Suc2)
qed simp

lemma position_None: "position P xs = None \<longleftrightarrow> (\<forall>x \<in> set xs. \<not> P x)"
  by (induction xs) auto

lemma position_upt_iff:
  "position P xs = Some i \<longleftrightarrow> i < length xs \<and> P (xs ! i) \<and> list_all (\<lambda>x. \<not> P x) (take i xs)"
  by (auto simp: position_Some list_all_length)

text \<open>
  Hash maps are association lists in insertion order. The order in which the code iterates over
  one is not specified by the standard library: it is a parameter, a reordering of the positions.
\<close>

type_synonym hash_order = "nat \<Rightarrow> nat list"

definition hash_iter :: "hash_order \<Rightarrow> 'a list \<Rightarrow> 'a list" where
  "hash_iter ho xs = map (nth xs) (filter (\<lambda>i. i < length xs) (ho (length xs)))"

definition hash_order_ok :: "hash_order \<Rightarrow> bool" where
  "hash_order_ok ho \<longleftrightarrow> (\<forall>n. distinct (ho n) \<and> set (ho n) = {0..<n})"

lemma set_hash_iter:
  assumes "hash_order_ok ho"
  shows "set (hash_iter ho xs) = set xs" and "length (hash_iter ho xs) = length xs"
proof -
  have ho: "distinct (ho (length xs))" "set (ho (length xs)) = {0..<length xs}"
    using assms by (simp_all add: hash_order_ok_def)
  then have "filter (\<lambda>i. i < length xs) (ho (length xs)) = ho (length xs)"
    by (simp add: filter_id_conv)
  moreover have "length (ho (length xs)) = length xs"
    using ho distinct_card [of "ho (length xs)"] by simp
  ultimately show "set (hash_iter ho xs) = set xs" and "length (hash_iter ho xs) = length xs"
    using ho(2) nth_image [of "length xs" xs] by (simp_all add: hash_iter_def)
qed

text \<open>\<open>entry(k).or_default().push(v)\<close> on a map from keys to vectors.\<close>

fun entry_push :: "'k \<Rightarrow> 'v \<Rightarrow> ('k \<times> 'v list) list \<Rightarrow> ('k \<times> 'v list) list" where
  "entry_push k v [] = [(k, [v])]"
| "entry_push k v ((k', vs) # m) =
     (if k' = k then (k', vs @ [v]) # m else (k', vs) # entry_push k v m)"

text \<open>What a map of vectors has for a key.\<close>

definition bucket :: "('k \<times> 'v list) list \<Rightarrow> 'k \<Rightarrow> 'v list" where
  "bucket m k = (case map_of m k of None \<Rightarrow> [] | Some vs \<Rightarrow> vs)"

lemma bucket_entry_push: "bucket (entry_push k v m) k' = bucket m k' @ (if k' = k then [v] else [])"
  by (induction k v m rule: entry_push.induct) (auto simp: bucket_def)

text \<open>\<open>insert(k, v)\<close>.\<close>

fun hash_insert :: "'k \<Rightarrow> 'v \<Rightarrow> ('k \<times> 'v) list \<Rightarrow> ('k \<times> 'v) list" where
  "hash_insert k v [] = [(k, v)]"
| "hash_insert k v ((k', v') # m) = (if k' = k then (k', v) # m else (k', v') # hash_insert k v m)"

section \<open>Integers\<close>

lemma unat_lt_2p: "unat (w :: 'a::len word) < 2 ^ LENGTH('a)"
  by (rule unsigned_less)

type_synonym byte = "8 word"
type_synonym u8 = "8 word"
type_synonym u16 = "16 word"
type_synonym u32 = "32 word"

datatype i32 = I32 (i32_word: "32 word")

instantiation i32 :: linorder
begin

definition less_eq_i32 :: "i32 \<Rightarrow> i32 \<Rightarrow> bool" where
  "less_eq_i32 a b \<longleftrightarrow> sint (i32_word a) \<le> sint (i32_word b)"

definition less_i32 :: "i32 \<Rightarrow> i32 \<Rightarrow> bool" where
  "less_i32 a b \<longleftrightarrow> sint (i32_word a) < sint (i32_word b)"

instance
proof
  fix x y :: i32
  assume "x \<le> y" and "y \<le> x"
  then have "sint (i32_word x) = sint (i32_word y)"
    by (simp add: less_eq_i32_def)
  then have "i32_word x = i32_word y"
    by (rule signed_word_eqI)
  then show "x = y"
    by (rule i32.expand)
qed (auto simp: less_eq_i32_def less_i32_def)

end

definition i32_val :: "i32 \<Rightarrow> int" where
  "i32_val a = sint (i32_word a)"

definition i32_of_int :: "int \<Rightarrow> i32" where
  "i32_of_int i = I32 (word_of_int i)"

text \<open>\<open>i32::MIN\<close>, and arithmetic that panics on overflow.\<close>

definition i32_min :: i32 where
  "i32_min = i32_of_int (- (2 ^ 31))"

definition i32_max :: i32 where
  "i32_max = i32_of_int (2 ^ 31 - 1)"

definition i32_checked :: "int \<Rightarrow> (i32, 'e) result" where
  "i32_checked i = (if - (2 ^ 31) \<le> i \<and> i < 2 ^ 31 then Inr (i32_of_int i) else Inl Panic)"

definition u16_checked_add :: "u16 \<Rightarrow> u16 \<Rightarrow> (u16, 'e) result" where
  "u16_checked_add a b = (if unat a + unat b < 2 ^ 16 then Inr (a + b) else Inl Panic)"

definition u16_checked_sub :: "u16 \<Rightarrow> u16 \<Rightarrow> (u16, 'e) result" where
  "u16_checked_sub a b = (if b \<le> a then Inr (a - b) else Inl Panic)"

definition u16_checked_mul :: "u16 \<Rightarrow> u16 \<Rightarrow> (u16, 'e) result" where
  "u16_checked_mul a b = (if unat a * unat b < 2 ^ 16 then Inr (a * b) else Inl Panic)"

definition u32_checked_add :: "u32 \<Rightarrow> u32 \<Rightarrow> (u32, 'e) result" where
  "u32_checked_add a b = (if unat a + unat b < 2 ^ 32 then Inr (a + b) else Inl Panic)"

text \<open>The casts \<open>as usize\<close> (sign extension to 64 bits) and \<open>as i32\<close> (truncation).\<close>

definition i32_as_usize :: "i32 \<Rightarrow> nat" where
  "i32_as_usize a = nat (i32_val a mod 2 ^ 64)"

definition usize_as_i32 :: "nat \<Rightarrow> i32" where
  "usize_as_i32 n = i32_of_int (int n)"

definition usize_as_u16 :: "nat \<Rightarrow> u16" where
  "usize_as_u16 n = word_of_nat n"

lemma i32_val_range: "- (2 ^ 31) \<le> i32_val a" "i32_val a < 2 ^ 31"
  using sint_range_size [of "i32_word a"] by (simp_all add: i32_val_def word_size)

lemma i32_val_of_int [simp]:
  assumes "- (2 ^ 31) \<le> i" and "i < 2 ^ 31"
  shows "i32_val (i32_of_int i) = i"
  using assms by (simp add: i32_val_def i32_of_int_def signed_of_int signed_take_bit_int_eq_self)

lemma i32_of_int_val [simp]: "i32_of_int (i32_val a) = a"
  by (simp add: i32_of_int_def i32_val_def)

lemma i32_eq_iff: "a = b \<longleftrightarrow> i32_val a = i32_val b"
  by (metis i32_of_int_val)

lemma i32_le_iff: "a \<le> b \<longleftrightarrow> i32_val a \<le> i32_val b"
  by (simp add: less_eq_i32_def i32_val_def)

lemma i32_less_iff: "a < b \<longleftrightarrow> i32_val a < i32_val b"
  by (simp add: less_i32_def i32_val_def)

lemma i32_as_usize_nonneg: "0 \<le> i32_val a \<Longrightarrow> i32_as_usize a = nat (i32_val a)"
  using i32_val_range(2) [of a] by (simp add: i32_as_usize_def)

lemma i32_val_usize_as_i32 [simp]: "n < 2 ^ 31 \<Longrightarrow> i32_val (usize_as_i32 n) = int n"
  by (simp add: usize_as_i32_def)

lemma i32_as_usize_as_i32 [simp]: "n < 2 ^ 31 \<Longrightarrow> i32_as_usize (usize_as_i32 n) = n"
  by (simp add: i32_as_usize_nonneg)

lemma unat_usize_as_u16 [simp]: "n < 2 ^ 16 \<Longrightarrow> unat (usize_as_u16 n) = n"
  by (simp add: usize_as_u16_def unat_of_nat take_bit_nat_eq_self)

section \<open>Big-endian byte encodings\<close>

fun be_bytes :: "nat \<Rightarrow> nat \<Rightarrow> byte list" where
  "be_bytes 0 n = []"
| "be_bytes (Suc k) n = be_bytes k (n div 256) @ [word_of_nat n]"

definition be_nat :: "byte list \<Rightarrow> nat" where
  "be_nat bs = foldl (\<lambda>a b. a * 256 + unat b) 0 bs"

lemma length_be_bytes [simp, codec_simps]: "length (be_bytes k n) = k"
  by (induction k n rule: be_bytes.induct) auto

lemma be_nat_snoc: "be_nat (bs @ [b]) = be_nat bs * 256 + unat b"
  by (simp add: be_nat_def)

lemma be_nat_be_bytes: "be_nat (be_bytes k n) = n mod 256 ^ k"
proof (induction k n rule: be_bytes.induct)
  case (1 n)
  then show ?case by (simp add: be_nat_def)
next
  case (2 k n)
  have "unat (word_of_nat n :: byte) = n mod 256"
    by (simp add: unat_of_nat take_bit_eq_mod)
  with 2 show ?case
    by (simp add: be_nat_snoc mod_mult2_eq)
qed

lemma be_nat_inverse [codec_simps]: "n < 256 ^ k \<Longrightarrow> be_nat (be_bytes k n) = n"
  by (simp add: be_nat_be_bytes)

lemma be_nat_bound: "be_nat bs < 256 ^ length bs"
proof (induction bs rule: rev_induct)
  case Nil
  then show ?case by (simp add: be_nat_def)
next
  case (snoc b bs)
  have "unat b < 256"
    using unat_lt_2p [of b] by simp
  with snoc show ?case
    by (simp add: be_nat_snoc)
qed

lemma be_bytes_be_nat [codec_simps]: "be_bytes (length bs) (be_nat bs) = bs"
proof (induction bs rule: rev_induct)
  case Nil
  then show ?case by simp
next
  case (snoc b bs)
  have b: "unat b < 256"
    using unat_lt_2p [of b] by simp
  then have "(be_nat bs * 256 + unat b) div 256 = be_nat bs"
    by simp
  moreover have "word_of_nat (be_nat bs * 256 + unat b) = b"
  proof -
    have zero: "(256 :: byte) = 0" by simp
    have "word_of_nat (be_nat bs * 256 + unat b) = word_of_nat (be_nat bs) * (256 :: byte) + b"
      by simp
    then show ?thesis unfolding zero by simp
  qed
  ultimately show ?case
    using snoc by (simp add: be_nat_snoc)
qed

text \<open>\<open>to_be_bytes\<close> and \<open>from_be_bytes\<close> of the widths the code uses.\<close>

definition u16_to_be :: "u16 \<Rightarrow> byte list" where
  "u16_to_be w = be_bytes 2 (unat w)"

definition u16_from_be :: "byte list \<Rightarrow> u16" where
  "u16_from_be bs = word_of_nat (be_nat bs)"

definition u32_to_be :: "u32 \<Rightarrow> byte list" where
  "u32_to_be w = be_bytes 4 (unat w)"

definition u32_from_be :: "byte list \<Rightarrow> u32" where
  "u32_from_be bs = word_of_nat (be_nat bs)"

definition i32_to_be :: "i32 \<Rightarrow> byte list" where
  "i32_to_be a = be_bytes 4 (unat (i32_word a))"

definition i32_from_be :: "byte list \<Rightarrow> i32" where
  "i32_from_be bs = I32 (word_of_nat (be_nat bs))"

lemma length_to_be [simp, codec_simps]:
  "length (u16_to_be w) = 2" "length (u32_to_be v) = 4" "length (i32_to_be a) = 4"
  by (simp_all add: u16_to_be_def u32_to_be_def i32_to_be_def)

lemma u16_from_to_be [simp, codec_simps]: "u16_from_be (u16_to_be w) = w"
  using unat_lt_2p [of w] by (simp add: u16_from_be_def u16_to_be_def be_nat_inverse)

lemma u32_from_to_be [simp, codec_simps]: "u32_from_be (u32_to_be w) = w"
  using unat_lt_2p [of w] by (simp add: u32_from_be_def u32_to_be_def be_nat_inverse)

lemma i32_from_to_be [simp, codec_simps]: "i32_from_be (i32_to_be a) = a"
  using unat_lt_2p [of "i32_word a"] by (simp add: i32_from_be_def i32_to_be_def be_nat_inverse)

lemma u16_to_from_be [codec_simps]: "length bs = 2 \<Longrightarrow> u16_to_be (u16_from_be bs) = bs"
  using be_nat_bound [of bs] be_bytes_be_nat [of bs]
  by (simp add: u16_to_be_def u16_from_be_def unat_of_nat take_bit_nat_eq_self)

lemma i32_to_from_be [codec_simps]: "length bs = 4 \<Longrightarrow> i32_to_be (i32_from_be bs) = bs"
  using be_nat_bound [of bs] be_bytes_be_nat [of bs]
  by (simp add: i32_to_be_def i32_from_be_def unat_of_nat take_bit_nat_eq_self)

text \<open>String literals of the source as UTF-8 bytes (all of them are ASCII).\<close>

definition str_bytes :: "string \<Rightarrow> byte list" where
  "str_bytes s = map of_char s"

end
