(* ===== verification/Page.thy ===== *)
theory Page
  imports Prelude
begin

text \<open>
  \<open>src/src/data/page.rs\<close>: the page layout, the metadata record of a page file, the slotted page
  and its operations on memory (the byte format is in \<open>Page_Codec\<close>, the record iterators in
  \<open>Page_Iter\<close>). A page holds its rows from the end of the data area downwards
  (\<open>data_offset\<close> is the lowest byte in use) and a directory of 7-byte slots that grows from
  its start. The directory is kept as a list in memory and is laid over the data area only when
  the page is serialized, so the two must not meet: \<open>directory_fits\<close>.
  \<open>page_rows\<close> is the abstract view of a page, a partial map from slot ids to rows.
\<close>

section \<open>The layout\<close>

record page_data_layout =
  layout_page_size :: u16

datatype page_data_layout_error = InvalidPageSize

definition META_DATA_SIZE :: nat where "META_DATA_SIZE = 8"
definition PAGE_HEADER_SIZE :: nat where "PAGE_HEADER_SIZE = 14"
definition MIN_PAGE_SIZE :: nat where "MIN_PAGE_SIZE = 32"
definition SLOT_SIZE :: nat where "SLOT_SIZE = 7"

lemmas layout_consts = META_DATA_SIZE_def PAGE_HEADER_SIZE_def MIN_PAGE_SIZE_def SLOT_SIZE_def

definition is_power_of_two :: "u16 \<Rightarrow> bool" where
  "is_power_of_two w = list_ex (\<lambda>k. unat w = 2 ^ k) [0..<16]"

definition layout_new :: "u16 \<Rightarrow> (page_data_layout, page_data_layout_error) result" where
  "layout_new n =
     (if unat n < MIN_PAGE_SIZE then Inl (Err InvalidPageSize)
      else if \<not> is_power_of_two n then Inl (Err InvalidPageSize)
      else Inr \<lparr>layout_page_size = n\<rparr>)"

definition page_size :: "page_data_layout \<Rightarrow> nat" where
  "page_size l = unat (layout_page_size l)"

text \<open>
  The field of the layout is private and \<open>new\<close> its only constructor, so the subtractions
  below do not underflow on any layout of the program: \<open>layout_ok\<close>.
\<close>

definition page_data_size :: "page_data_layout \<Rightarrow> nat" where
  "page_data_size l = page_size l - PAGE_HEADER_SIZE"

definition max_tupel_size :: "page_data_layout \<Rightarrow> nat" where
  "max_tupel_size l = page_data_size l - SLOT_SIZE"

definition metadata_size :: "page_data_layout \<Rightarrow> nat" where
  "metadata_size l = META_DATA_SIZE"

definition layout_ok :: "page_data_layout \<Rightarrow> bool" where
  "layout_ok l \<longleftrightarrow> layout_new (layout_page_size l) = Inr l"

lemma layout_new_ok: "layout_new n = Inr l \<Longrightarrow> layout_ok l"
  by (auto simp: layout_new_def layout_ok_def split: if_splits)

lemma layout_ok_iff:
  "layout_ok l \<longleftrightarrow> (\<exists>k. 5 \<le> k \<and> k \<le> 15 \<and> page_size l = 2 ^ k)"
proof
  assume "layout_ok l"
  then obtain k where k: "k < 16" "page_size l = 2 ^ k" and "32 \<le> page_size l"
    by (auto simp: layout_ok_def layout_new_def is_power_of_two_def page_size_def
        list_ex_iff layout_consts split: if_splits)
  then have "(2 :: nat) ^ 5 \<le> 2 ^ k" by simp
  then have "5 \<le> k" by (rule power_le_imp_le_exp [rotated]) simp
  with k show "\<exists>k. 5 \<le> k \<and> k \<le> 15 \<and> page_size l = 2 ^ k" by auto
next
  assume "\<exists>k. 5 \<le> k \<and> k \<le> 15 \<and> page_size l = 2 ^ k"
  then obtain k where k: "5 \<le> k" "k \<le> 15" "page_size l = 2 ^ k" by blast
  from k(1) have "(2 :: nat) ^ 5 \<le> 2 ^ k" by (rule power_increasing) simp
  with k show "layout_ok l"
    by (auto simp: layout_ok_def layout_new_def is_power_of_two_def page_size_def
        list_ex_iff layout_consts intro!: bexI [of _ k])
qed

lemma layout_ok_bounds:
  assumes "layout_ok l"
  shows "32 \<le> page_size l" "page_size l \<le> 2 ^ 15"
proof -
  from assms obtain k where k: "5 \<le> k" "k \<le> 15" "page_size l = 2 ^ k"
    by (auto simp: layout_ok_iff)
  have "(2 :: nat) ^ 5 \<le> 2 ^ k" "(2 :: nat) ^ k \<le> 2 ^ 15"
    using k power_increasing [of 5 k "2 :: nat"] power_increasing [of k 15 "2 :: nat"] by simp_all
  then show "32 \<le> page_size l" "page_size l \<le> 2 ^ 15"
    using k(3) by simp_all
qed

text \<open>A small layout for the examples.\<close>

definition layout_64 :: page_data_layout where
  "layout_64 = \<lparr>layout_page_size = 64\<rparr>"

lemma layout_64_ok: "layout_ok layout_64"
  by code_simp

section \<open>The metadata of a page file\<close>

datatype read_metadata_error = DeserializationError

record page_file_metadata =
  next_id :: i32
  number_of_pages :: i32

definition metadata_new :: page_file_metadata where
  "metadata_new = \<lparr>next_id = i32_of_int 1, number_of_pages = i32_of_int 0\<rparr>"

definition metadata_deserialize :: "byte list \<Rightarrow> (page_file_metadata, read_metadata_error) result" where
  "metadata_deserialize buf =
     and_then (slice buf 0 4) (\<lambda>a.
     and_then (slice buf 4 8) (\<lambda>b.
     Inr \<lparr>next_id = i32_from_be a, number_of_pages = i32_from_be b\<rparr>))"

definition metadata_serialize ::
  "page_file_metadata \<Rightarrow> page_data_layout \<Rightarrow> (byte list, read_metadata_error) result" where
  "metadata_serialize m l =
     and_then (copy_into (replicate (metadata_size l) 0) 0 4 (i32_to_be (next_id m))) (\<lambda>buf.
     copy_into buf 4 8 (i32_to_be (number_of_pages m)))"

definition allocate_next_page_id ::
  "page_file_metadata \<Rightarrow> (i32 \<times> page_file_metadata, read_metadata_error) result" where
  "allocate_next_page_id m =
     (let id = next_id m in
      and_then (i32_checked (i32_val (next_id m) + 1)) (\<lambda>n.
      and_then (i32_checked (i32_val (number_of_pages m) + 1)) (\<lambda>c.
      Inr (id, \<lparr>next_id = n, number_of_pages = c\<rparr>))))"

lemma metadata_serialize_eq [codec_simps]:
  "metadata_serialize m l = Inr (i32_to_be (next_id m) @ i32_to_be (number_of_pages m))"
  by (simp add: metadata_serialize_def metadata_size_def layout_consts)

lemma metadata_roundtrip [codec_simps]:
  "metadata_deserialize (i32_to_be (next_id m) @ i32_to_be (number_of_pages m) @ rest) = Inr m"
  by (simp add: metadata_deserialize_def)

section \<open>Slots and pages\<close>

datatype page_error = InsertRecord | UpdateRecord | Deserialization

record slot =
  record_length :: u16
  page_offset :: nat
  slot_deleted :: bool

record page =
  page_bytes :: "byte list"
  slots :: "slot list"
  layout :: page_data_layout
  number_of_records :: u16
  data_offset :: nat
  slots_offset :: nat
  page_id :: i32

definition page_new :: "page_data_layout \<Rightarrow> page" where
  "page_new l =
     \<lparr>page_bytes = replicate (page_data_size l) 0, slots = [], layout = l,
      number_of_records = 0, data_offset = page_data_size l, slots_offset = 0,
      page_id = i32_of_int 0\<rparr>"

definition set_page_id :: "i32 \<Rightarrow> page \<Rightarrow> page" where
  "set_page_id i p = p\<lparr>page_id := i\<rparr>"

definition row_data :: "page \<Rightarrow> (byte list, page_error) result" where
  "row_data p = slice (page_bytes p) (data_offset p) (page_data_size (layout p))"

definition row_data_size :: "page \<Rightarrow> (nat, page_error) result" where
  "row_data_size p = usize_sub (page_data_size (layout p)) (data_offset p)"

definition slot_size :: "page \<Rightarrow> nat" where
  "slot_size p = length (slots p) * SLOT_SIZE"

definition read_data :: "page \<Rightarrow> slot \<Rightarrow> (byte list, page_error) result" where
  "read_data p s = slice (page_bytes p) (page_offset s) (page_offset s + unat (record_length s))"

definition read_slot :: "page \<Rightarrow> nat \<Rightarrow> (byte list option, page_error) result" where
  "read_slot p slot_id =
     (case vec_get (slots p) slot_id of
        None \<Rightarrow> Inr None
      | Some s \<Rightarrow> if slot_deleted s then Inr None
                  else and_then (read_data p s) (\<lambda>bs. Inr (Some bs)))"

definition max_fragmented_free_space :: "page \<Rightarrow> nat" where
  "max_fragmented_free_space p =
     foldr (\<lambda>s m. max (unat (record_length s)) m) (filter slot_deleted (slots p)) 0"

definition max_available_space :: "page \<Rightarrow> (nat, page_error) result" where
  "max_available_space p =
     and_then (row_data_size p) (\<lambda>rows.
     and_then (usize_sub (page_data_size (layout p)) rows) (\<lambda>free.
     and_then (usize_sub free (slot_size p)) (\<lambda>allocated_space.
     Inr (max allocated_space (max_fragmented_free_space p)))))"

text \<open>
  The loop of \<open>find_free_slot_index\<close>: the first deleted slot of exactly the needed length, and
  otherwise the first deleted slot that is long enough.
\<close>

fun find_free_slot_from :: "slot list \<Rightarrow> nat \<Rightarrow> u16 \<Rightarrow> nat option \<Rightarrow> nat option" where
  "find_free_slot_from [] index len fallback = fallback"
| "find_free_slot_from (s # ss) index len fallback =
     (if \<not> slot_deleted s then find_free_slot_from ss (Suc index) len fallback
      else if record_length s = len then Some index
      else if len \<le> record_length s \<and> fallback = None
           then find_free_slot_from ss (Suc index) len (Some index)
      else find_free_slot_from ss (Suc index) len fallback)"

definition find_free_slot_index :: "page \<Rightarrow> byte list \<Rightarrow> nat option" where
  "find_free_slot_index p row_bytes =
     find_free_slot_from (slots p) 0 (usize_as_u16 (length row_bytes)) None"

definition can_insert :: "page \<Rightarrow> byte list \<Rightarrow> (bool, page_error) result" where
  "can_insert p row_bytes =
     (let perfect_fit =
        (case find_free_slot_index p row_bytes of
           None \<Rightarrow> False
         | Some i \<Rightarrow> (case vec_get (slots p) i of
                        None \<Rightarrow> False
                      | Some s \<Rightarrow> unat (record_length s) = length row_bytes))
      in if perfect_fit then Inr True
         else and_then (max_available_space p) (\<lambda>space.
              Inr (length row_bytes + SLOT_SIZE \<le> space)))"

definition write_record :: "page \<Rightarrow> nat \<Rightarrow> byte list \<Rightarrow> (page, page_error) result" where
  "write_record p record_index row_bytes =
     (case vec_get (slots p) record_index of
        Some s \<Rightarrow>
          if record_length s \<noteq> usize_as_u16 (length row_bytes) then Inl (Err UpdateRecord)
          else and_then (copy_into (page_bytes p) (page_offset s)
                           (page_offset s + length row_bytes) row_bytes) (\<lambda>bs.
               Inr (p\<lparr>page_bytes := bs\<rparr>))
      | None \<Rightarrow> Inl (Err UpdateRecord))"

definition allocate_slot :: "nat \<Rightarrow> u16 \<Rightarrow> bool \<Rightarrow> page \<Rightarrow> page" where
  "allocate_slot off len del p =
     p\<lparr>slots := slots p @ [\<lparr>record_length = len, page_offset = off, slot_deleted = del\<rparr>]\<rparr>"

text \<open>
  The two branches of \<open>insert_record\<close>. Each returns the page, the slot index of the new record
  and what the code keeps for the slot it may have to allocate: whether it is deleted, its
  length and its offset.
\<close>

definition insert_into_deleted ::
  "page \<Rightarrow> byte list \<Rightarrow> nat \<Rightarrow> slot \<Rightarrow> (page \<times> nat \<times> bool \<times> u16 \<times> nat, page_error) result" where
  "insert_into_deleted p row_bytes index s =
     (let new_record_len = usize_as_u16 (length row_bytes);
          end_of_data = page_offset s + length row_bytes
      in and_then (copy_into (page_bytes p) (page_offset s) end_of_data row_bytes) (\<lambda>bs.
         and_then (u16_checked_sub (record_length s) new_record_len) (\<lambda>remaining.
         let s1 = (if 0 < remaining then s\<lparr>record_length := new_record_len\<rparr> else s);
             s2 = s1\<lparr>slot_deleted := False\<rparr>
         in Inr (p\<lparr>page_bytes := bs, slots := (slots p)[index := s2]\<rparr>, index,
                 True, remaining, end_of_data))))"

definition insert_into_free ::
  "page \<Rightarrow> byte list \<Rightarrow> (page \<times> nat \<times> bool \<times> u16 \<times> nat, page_error) result" where
  "insert_into_free p row_bytes =
     and_then (usize_sub (data_offset p) (length row_bytes)) (\<lambda>start_of_data.
     and_then (copy_into (page_bytes p) start_of_data (data_offset p) row_bytes) (\<lambda>bs.
     Inr (p\<lparr>page_bytes := bs, data_offset := data_offset p - length row_bytes\<rparr>,
          length (slots p), False, usize_as_u16 (length row_bytes), start_of_data)))"

definition insert_record :: "page \<Rightarrow> byte list \<Rightarrow> (nat \<times> page, page_error) result" where
  "insert_record p row_bytes =
     and_then (can_insert p row_bytes) (\<lambda>ok.
     if \<not> ok then Inl (Err InsertRecord)
     else
       and_then
         (case Option.bind (find_free_slot_index p row_bytes)
                 (\<lambda>i. map_option (Pair i) (vec_get (slots p) i)) of
            Some (index, s) \<Rightarrow> insert_into_deleted p row_bytes index s
          | None \<Rightarrow> insert_into_free p row_bytes)
         (\<lambda>(p1, slot_index, del, new_slot_len, off).
         let p2 = (if 0 < new_slot_len then allocate_slot off new_slot_len del p1 else p1)
         in and_then (u16_checked_add (number_of_records p2) 1) (\<lambda>n.
            Inr (slot_index, p2\<lparr>number_of_records := n\<rparr>))))"

definition delete_record :: "page \<Rightarrow> nat \<Rightarrow> bool \<times> page" where
  "delete_record p record_index =
     (case vec_get (slots p) record_index of
        Some s \<Rightarrow> (True, p\<lparr>slots := (slots p)[record_index := s\<lparr>slot_deleted := True\<rparr>]\<rparr>)
      | None \<Rightarrow> (False, p))"

section \<open>The invariant and the abstract view of a page\<close>

abbreviation slot_end :: "slot \<Rightarrow> nat" where
  "slot_end s \<equiv> page_offset s + unat (record_length s)"

definition slot_disjoint :: "slot \<Rightarrow> slot \<Rightarrow> bool" where
  "slot_disjoint s t \<longleftrightarrow> slot_end s \<le> page_offset t \<or> slot_end t \<le> page_offset s"

text \<open>
  The regions of the slots, live and deleted, lie in the used part of the data area and do
  not overlap.
\<close>

definition regions_ok :: "page \<Rightarrow> bool" where
  "regions_ok p \<longleftrightarrow>
     length (page_bytes p) = page_data_size (layout p) \<and>
     data_offset p \<le> page_data_size (layout p) \<and>
     (\<forall>s \<in> set (slots p). data_offset p \<le> page_offset s \<and> slot_end s \<le> page_data_size (layout p)) \<and>
     sorted_wrt slot_disjoint (slots p)"

lemma slot_disjoint_sym: "slot_disjoint s t \<longleftrightarrow> slot_disjoint t s"
  by (auto simp: slot_disjoint_def)

lemma pairwise_slot_disjoint:
  "sorted_wrt slot_disjoint ss \<longleftrightarrow>
     (\<forall>i < length ss. \<forall>j < length ss. i \<noteq> j \<longrightarrow> slot_disjoint (ss ! i) (ss ! j))"
proof
  assume "sorted_wrt slot_disjoint ss"
  then have "slot_disjoint (ss ! i) (ss ! j)" if "i < j" "j < length ss" for i j
    using that by (simp add: sorted_wrt_iff_nth_less)
  then show "\<forall>i < length ss. \<forall>j < length ss. i \<noteq> j \<longrightarrow> slot_disjoint (ss ! i) (ss ! j)"
    using slot_disjoint_sym by (metis nat_neq_iff)
qed (auto simp: sorted_wrt_iff_nth_less)

lemma regions_ok_iff:
  "regions_ok p \<longleftrightarrow>
     length (page_bytes p) = page_data_size (layout p) \<and>
     data_offset p \<le> page_data_size (layout p) \<and>
     (\<forall>s \<in> set (slots p). data_offset p \<le> page_offset s \<and> slot_end s \<le> page_data_size (layout p)) \<and>
     (\<forall>i < length (slots p). \<forall>j < length (slots p).
        i \<noteq> j \<longrightarrow> slot_disjoint (slots p ! i) (slots p ! j))"
  by (simp add: regions_ok_def pairwise_slot_disjoint)

text \<open>The slot directory, laid over the data area, ends before the first used byte.\<close>

definition directory_fits :: "page \<Rightarrow> bool" where
  "directory_fits p \<longleftrightarrow> slot_size p \<le> data_offset p"

definition page_wf :: "page \<Rightarrow> bool" where
  "page_wf p \<longleftrightarrow> layout_ok (layout p) \<and> regions_ok p \<and> directory_fits p"

definition free_gap :: "page \<Rightarrow> nat" where
  "free_gap p = data_offset p - slot_size p"

definition perfect_fit :: "page \<Rightarrow> byte list \<Rightarrow> bool" where
  "perfect_fit p row \<longleftrightarrow> (\<exists>s \<in> set (slots p). slot_deleted s \<and> unat (record_length s) = length row)"

definition page_rows :: "page \<Rightarrow> nat \<Rightarrow> byte list option" where
  "page_rows p i = (case read_slot p i of Inr r \<Rightarrow> r | Inl _ \<Rightarrow> None)"

lemma page_wfD:
  assumes "page_wf p"
  shows "layout_ok (layout p)" "regions_ok p" "directory_fits p"
  using assms by (simp_all add: page_wf_def)

lemma regions_okD:
  assumes "regions_ok p"
  shows "length (page_bytes p) = page_data_size (layout p)"
    and "data_offset p \<le> page_data_size (layout p)"
    and "\<And>i. i < length (slots p) \<Longrightarrow> data_offset p \<le> page_offset (slots p ! i)"
    and "\<And>i. i < length (slots p) \<Longrightarrow> slot_end (slots p ! i) \<le> page_data_size (layout p)"
    and "\<And>i j. i < length (slots p) \<Longrightarrow> j < length (slots p) \<Longrightarrow> i \<noteq> j \<Longrightarrow>
           slot_disjoint (slots p ! i) (slots p ! j)"
  using assms by (auto simp: regions_ok_iff)

lemma read_slot_eq:
  assumes "regions_ok p"
  shows "read_slot p i =
    (if i < length (slots p) \<and> \<not> slot_deleted (slots p ! i)
     then Inr (Some (take (unat (record_length (slots p ! i))) (drop (page_offset (slots p ! i)) (page_bytes p))))
     else Inr None)"
  using regions_okD(1,4) [OF assms]
  by (auto simp: read_slot_def read_data_def vec_get_def)

lemma page_rows_eq:
  assumes "regions_ok p"
  shows "page_rows p i =
    (if i < length (slots p) \<and> \<not> slot_deleted (slots p ! i)
     then Some (take (unat (record_length (slots p ! i))) (drop (page_offset (slots p ! i)) (page_bytes p)))
     else None)"
  by (simp add: page_rows_def read_slot_eq [OF assms])

lemma page_rows_cong:
  assumes "page_bytes p = page_bytes q" and "slots p = slots q"
  shows "page_rows p = page_rows q"
proof
  have "read_data p s = read_data q s" for s
    using assms(1) by (simp add: read_data_def)
  then show "page_rows p i = page_rows q i" for i
    using assms(2) by (simp add: page_rows_def read_slot_def split: option.split)
qed

lemma page_new_wf: "layout_ok l \<Longrightarrow> page_wf (page_new l)"
  by (auto simp: page_wf_def regions_ok_iff directory_fits_def page_new_def slot_size_def)

lemma page_rows_new [simp]: "page_rows (page_new l) = Map.empty"
  by (auto simp: page_rows_def read_slot_def vec_get_def page_new_def)

section \<open>Free space\<close>

lemma find_free_slot_from_Some:
  assumes "find_free_slot_from ss k len fb = Some i"
  shows "fb = Some i \<or>
    (k \<le> i \<and> i < k + length ss \<and> slot_deleted (ss ! (i - k)) \<and> len \<le> record_length (ss ! (i - k)))"
  using assms
proof (induction ss k len fb rule: find_free_slot_from.induct)
  case (1 index len fallback)
  then show ?case by simp
next
  case (2 s ss index len fallback)
  have shift: "(s # ss) ! (i - index) = ss ! (i - Suc index)" if "Suc index \<le> i"
    using that by (simp add: nth_Cons' Suc_diff_Suc)
  show ?case
    using "2.prems" "2.IH" by (auto simp: shift Suc_diff_le split: if_splits)
qed

lemma find_free_slot_from_perfect:
  assumes "s \<in> set ss" and "slot_deleted s" and "record_length s = len"
  shows "\<exists>i. find_free_slot_from ss k len fb = Some (k + i) \<and> i < length ss \<and>
           slot_deleted (ss ! i) \<and> record_length (ss ! i) = len"
  using assms
proof (induction ss arbitrary: k fb)
  case Nil
  then show ?case by simp
next
  case (Cons t ss)
  show ?case
  proof (cases "slot_deleted t \<and> record_length t = len")
    case True
    then show ?thesis by (intro exI [of _ 0]) simp
  next
    case False
    with Cons.prems have "s \<in> set ss" by auto
    note IH = Cons.IH [OF this Cons.prems(2,3), of "Suc k"]
    obtain fb' where step: "find_free_slot_from (t # ss) k len fb = find_free_slot_from ss (Suc k) len fb'"
      using False by (cases "slot_deleted t"; cases "len \<le> record_length t \<and> fb = None") auto
    from IH [of fb'] obtain i where "find_free_slot_from ss (Suc k) len fb' = Some (Suc k + i)"
      and "i < length ss" "slot_deleted (ss ! i)" "record_length (ss ! i) = len"
      by blast
    with step show ?thesis
      by (intro exI [of _ "Suc i"]) simp
  qed
qed

lemma find_free_slot_from_None:
  "find_free_slot_from ss k len fb = None \<Longrightarrow>
     fb = None \<and> (\<forall>s \<in> set ss. slot_deleted s \<longrightarrow> record_length s < len)"
  by (induction ss k len fb rule: find_free_slot_from.induct) (auto split: if_splits)

lemma max_fragmented_ge:
  assumes "s \<in> set (slots p)" and "slot_deleted s"
  shows "unat (record_length s) \<le> max_fragmented_free_space p"
proof -
  have "t \<in> set ss \<Longrightarrow> unat (record_length t) \<le> foldr (\<lambda>s m. max (unat (record_length s)) m) ss 0"
    for t :: slot and ss by (induction ss) auto
  from this [of s "filter slot_deleted (slots p)"] assms show ?thesis
    by (simp add: max_fragmented_free_space_def)
qed

lemma max_fragmented_attained:
  assumes "0 < max_fragmented_free_space p"
  shows "\<exists>s \<in> set (slots p). slot_deleted s \<and> unat (record_length s) = max_fragmented_free_space p"
proof -
  have "0 < foldr (\<lambda>s m. max (unat (record_length s)) m) ss 0 \<Longrightarrow>
    \<exists>s \<in> set ss. unat (record_length s) = foldr (\<lambda>s m. max (unat (record_length s)) m) ss 0"
    for ss :: "slot list"
    by (induction ss) (auto simp: max_def)
  from this [of "filter slot_deleted (slots p)"] assms show ?thesis
    by (auto simp: max_fragmented_free_space_def)
qed

lemma max_available_space_eq:
  assumes "page_wf p"
  shows "max_available_space p = Inr (max (free_gap p) (max_fragmented_free_space p))"
  using assms
  by (auto simp: max_available_space_def row_data_size_def page_wf_def regions_ok_iff
      directory_fits_def free_gap_def)

text \<open>The definitions that evaluate the page operations on concrete pages.\<close>

lemmas page_eval =
  insert_record_def can_insert_def find_free_slot_index_def max_available_space_def row_data_size_def
  slot_size_def page_data_size_def page_size_def layout_consts insert_into_deleted_def
  insert_into_free_def allocate_slot_def delete_record_def write_record_def
  max_fragmented_free_space_def page_new_def page_rows_def read_slot_def read_data_def
  vec_get_def Let_def usize_as_u16_def usize_sub_def copy_into_def slice_def
  u16_checked_sub_def u16_checked_add_def i32_of_int_def

end
