(* ===== verification/Page_Ops.thy ===== *)
theory Page_Ops
  imports Page
begin

text \<open>
  What the operations of a page do to its abstract view and to its invariant. Inserting writes
  the row into a deleted slot or at the free end; either way the view gains exactly one row
  under a slot id that was free. The slot directory is not accounted for when a deleted slot
  is split, which \<open>insert_record_wf_iff\<close> states exactly.
\<close>

section \<open>Frame lemmas\<close>

lemma number_of_records_frame [simp]:
  "regions_ok (p\<lparr>number_of_records := n\<rparr>) = regions_ok p"
  "directory_fits (p\<lparr>number_of_records := n\<rparr>) = directory_fits p"
  "page_rows (p\<lparr>number_of_records := n\<rparr>) = page_rows p"
  "slot_size (p\<lparr>number_of_records := n\<rparr>) = slot_size p"
  by (simp_all add: regions_ok_iff directory_fits_def slot_size_def
      page_rows_cong [of "p\<lparr>number_of_records := n\<rparr>" p])

lemma page_id_frame [simp]:
  "regions_ok (p\<lparr>page_id := n\<rparr>) = regions_ok p"
  "directory_fits (p\<lparr>page_id := n\<rparr>) = directory_fits p"
  "page_wf (p\<lparr>page_id := n\<rparr>) = page_wf p"
  "page_rows (p\<lparr>page_id := n\<rparr>) = page_rows p"
  by (simp_all add: page_wf_def regions_ok_iff directory_fits_def slot_size_def
      page_rows_cong [of "p\<lparr>page_id := n\<rparr>" p])

section \<open>Inserting\<close>

text \<open>The page after a row went into the deleted slot \<open>i\<close>, and after it went into the free end.\<close>

definition reuse_slot :: "page \<Rightarrow> nat \<Rightarrow> byte list \<Rightarrow> page" where
  "reuse_slot p i row =
     (let s = slots p ! i; len = usize_as_u16 (length row);
          live = \<lparr>record_length = len, page_offset = page_offset s, slot_deleted = False\<rparr>;
          rest = \<lparr>record_length = record_length s - len, page_offset = page_offset s + length row,
                  slot_deleted = True\<rparr>
      in p\<lparr>page_bytes := take (page_offset s) (page_bytes p) @ row @
                          drop (page_offset s + length row) (page_bytes p),
           slots := (slots p)[i := live] @ (if record_length s = len then [] else [rest])\<rparr>)"

definition append_row :: "page \<Rightarrow> byte list \<Rightarrow> page" where
  "append_row p row =
     p\<lparr>page_bytes := take (data_offset p - length row) (page_bytes p) @ row @
                      drop (data_offset p) (page_bytes p),
        data_offset := data_offset p - length row,
        slots := slots p @ [\<lparr>record_length = usize_as_u16 (length row),
                             page_offset = data_offset p - length row, slot_deleted = False\<rparr>]\<rparr>"

lemma page_data_size_bound: "layout_ok l \<Longrightarrow> page_data_size l < 2 ^ 15"
  using layout_ok_bounds [of l] by (simp add: page_data_size_def layout_consts)

lemma len_le_u16:
  assumes "usize_as_u16 n \<le> w" and "n < 2 ^ 16"
  shows "n \<le> unat w"
  using assms by (simp add: word_le_nat_alt)

lemma u16_pos_iff: "0 < usize_as_u16 n \<longleftrightarrow> 0 < n" if "n < 2 ^ 16"
  using that by (simp add: word_less_nat_alt)

lemma can_insert_eq:
  assumes "page_wf p"
  shows "can_insert p row = Inr (
    (\<exists>i. find_free_slot_index p row = Some i \<and> i < length (slots p) \<and>
         unat (record_length (slots p ! i)) = length row) \<or>
    length row + SLOT_SIZE \<le> max (free_gap p) (max_fragmented_free_space p))"
  by (auto simp: can_insert_def max_available_space_eq [OF assms] Let_def vec_get_def
      split: option.splits)

lemma find_free_slot_index_Some:
  assumes "find_free_slot_index p row = Some i"
  shows "i < length (slots p)" "slot_deleted (slots p ! i)"
    and "usize_as_u16 (length row) \<le> record_length (slots p ! i)"
  using find_free_slot_from_Some [of "slots p" 0 _ None i] assms
  by (auto simp: find_free_slot_index_def)

lemma find_perfect:
  assumes "perfect_fit p row" and "length row < 2 ^ 16"
  shows "\<exists>i. find_free_slot_index p row = Some i \<and> i < length (slots p) \<and>
           unat (record_length (slots p ! i)) = length row"
proof -
  from assms obtain s where s: "s \<in> set (slots p)" "slot_deleted s" "unat (record_length s) = length row"
    by (auto simp: perfect_fit_def)
  then have "record_length s = usize_as_u16 (length row)"
    using assms(2) by (simp add: word_unat_eq_iff)
  from find_free_slot_from_perfect [OF s(1,2) this, of 0 None] s(3) show ?thesis
    using assms(2) by (auto simp: find_free_slot_index_def)
qed

text \<open>A page with a fit accepts a row no longer than a page, so the truncation to \<open>u16\<close> is exact.\<close>

lemma can_insert_length:
  assumes "page_wf p" and "can_insert p row = Inr True"
  shows "length row < 2 ^ 16"
proof -
  have frag: "max_fragmented_free_space p \<le> page_data_size (layout p)"
  proof (cases "max_fragmented_free_space p")
    case (Suc n)
    then obtain s where "s \<in> set (slots p)" "unat (record_length s) = max_fragmented_free_space p"
      using max_fragmented_attained [of p] by auto
    moreover have "regions_ok p" using assms(1) by (rule page_wfD)
    ultimately show ?thesis by (auto simp: regions_ok_iff)
  qed simp
  have gap: "free_gap p \<le> page_data_size (layout p)"
    using assms(1) by (auto simp: page_wf_def regions_ok_iff free_gap_def)
  have bound: "page_data_size (layout p) < 2 ^ 15"
    using assms(1) by (intro page_data_size_bound page_wfD)
  have "unat (record_length (slots p ! i)) \<le> page_data_size (layout p)" if "i < length (slots p)" for i
    using regions_okD(4) [OF page_wfD(2) [OF assms(1)] that] by simp
  then show ?thesis
    using assms(2) frag gap bound by (fastforce simp: can_insert_eq [OF assms(1)])
qed

lemma insert_into_deleted_eq:
  assumes "regions_ok p" and "i < length (slots p)"
    and fits: "length row \<le> unat (record_length (slots p ! i))"
  shows "insert_into_deleted p row i (slots p ! i) =
    Inr (let s = slots p ! i; len = usize_as_u16 (length row) in
      (p\<lparr>page_bytes := take (page_offset s) (page_bytes p) @ row @
                        drop (page_offset s + length row) (page_bytes p),
         slots := (slots p)[i := \<lparr>record_length = len, page_offset = page_offset s,
                                  slot_deleted = False\<rparr>]\<rparr>,
       i, True, record_length s - len, page_offset s + length row))"
proof -
  let ?s = "slots p ! i" and ?len = "usize_as_u16 (length row)"
  have "length row < 2 ^ 16"
    using fits unat_lt_2p [of "record_length ?s"] by simp
  then have len: "unat ?len = length row" by simp
  have sub: "u16_checked_sub (record_length ?s) ?len = Inr (record_length ?s - ?len)"
    using fits len by (simp add: u16_checked_sub_def word_le_nat_alt)
  have "(0 < record_length ?s - ?len) = (record_length ?s \<noteq> ?len)"
    by (simp add: word_gt_0)
  then have live: "(if 0 < record_length ?s - ?len then ?s\<lparr>record_length := ?len\<rparr> else ?s)\<lparr>slot_deleted := False\<rparr> =
      \<lparr>record_length = ?len, page_offset = page_offset ?s, slot_deleted = False\<rparr>"
    by (cases ?s) auto
  have "page_offset ?s + length row \<le> length (page_bytes p)"
    using regions_okD(1,4) [OF assms(1)] assms(2) fits by fastforce
  then show ?thesis
    using live by (simp add: insert_into_deleted_def sub Let_def)
qed

lemma insert_into_free_eq:
  assumes "regions_ok p" and "length row \<le> data_offset p"
  shows "insert_into_free p row =
    Inr (p\<lparr>page_bytes := take (data_offset p - length row) (page_bytes p) @ row @
                         drop (data_offset p) (page_bytes p),
           data_offset := data_offset p - length row\<rparr>,
         length (slots p), False, usize_as_u16 (length row), data_offset p - length row)"
  using assms regions_okD(1,2) [OF assms(1)] by (simp add: insert_into_free_def)

lemma insert_record_perfect:
  assumes "page_wf p" and "insert_record p row = Inr (i, q)" and "perfect_fit p row"
  shows "unat (record_length (slots p ! i)) = length row"
proof -
  have reg: "regions_ok p" using assms(1) by (rule page_wfD)
  have can: "can_insert p row = Inr True"
    using assms(2) by (auto simp: insert_record_def and_then_Inr_iff split: if_splits)
  obtain j where j: "find_free_slot_index p row = Some j" "j < length (slots p)"
      "unat (record_length (slots p ! j)) = length row"
    using find_perfect [OF assms(3) can_insert_length [OF assms(1) can]] by blast
  then have "insert_into_deleted p row j (slots p ! j) = Inr x \<Longrightarrow> fst (snd x) = j" for x
    using insert_into_deleted_eq [OF reg j(2), of row] by (auto simp: Let_def)
  with assms(2) j have "i = j"
    by (auto simp: insert_record_def can and_then_Inr_iff Let_def split: if_splits)
  with j show ?thesis by simp
qed

lemma no_slot_found:
  assumes "find_free_slot_index p row = None" and "row \<noteq> []" and "length row < 2 ^ 16"
  shows "\<not> perfect_fit p row" "max_fragmented_free_space p < length row + SLOT_SIZE"
proof -
  have "\<forall>s \<in> set (slots p). slot_deleted s \<longrightarrow> record_length s < usize_as_u16 (length row)"
    using find_free_slot_from_None assms(1) by (auto simp: find_free_slot_index_def)
  then have small: "unat (record_length s) < length row" if "s \<in> set (slots p)" "slot_deleted s" for s
    using that assms(3) by (simp add: word_less_nat_alt)
  then show "\<not> perfect_fit p row"
    by (fastforce simp: perfect_fit_def)
  show "max_fragmented_free_space p < length row + SLOT_SIZE"
    using max_fragmented_attained [of p] small assms(2)
    by (cases "max_fragmented_free_space p") fastforce+
qed

text \<open>The two ways an insertion can succeed.\<close>

lemma insert_record_cases:
  assumes wf: "page_wf p" and ins: "insert_record p row = Inr (k, p')" and ne: "row \<noteq> []"
  obtains
    (reuse) "k < length (slots p)" "slot_deleted (slots p ! k)"
      "length row \<le> unat (record_length (slots p ! k))"
      "p' = (reuse_slot p k row)\<lparr>number_of_records := number_of_records p + 1\<rparr>"
  | (fresh) "k = length (slots p)" "\<not> perfect_fit p row" "length row + SLOT_SIZE \<le> free_gap p"
      "p' = (append_row p row)\<lparr>number_of_records := number_of_records p + 1\<rparr>"
proof -
  have reg: "regions_ok p" using wf by (rule page_wfD)
  from ins have can: "can_insert p row = Inr True"
    by (auto simp: insert_record_def and_then_Inr_iff split: if_splits)
  with wf have len: "length row < 2 ^ 16" by (rule can_insert_length)
  then have ulen: "unat (usize_as_u16 (length row)) = length row" by simp
  show ?thesis
  proof (cases "find_free_slot_index p row")
    case (Some i)
    note i = find_free_slot_index_Some [OF Some]
    have fits: "length row \<le> unat (record_length (slots p ! i))"
      using len_le_u16 [OF i(3) len] .
    have "record_length (slots p ! i) - usize_as_u16 (length row) = 0 \<longleftrightarrow>
        record_length (slots p ! i) = usize_as_u16 (length row)"
      by simp
    then show ?thesis
      using ins i fits
      by (intro reuse)
        (auto simp: insert_record_def can Some insert_into_deleted_eq [OF reg i(1) fits] Let_def
          u16_checked_add_def reuse_slot_def allocate_slot_def word_gt_0 split: if_splits)
  next
    case None
    note none = no_slot_found [OF None ne len]
    then have room: "length row + SLOT_SIZE \<le> free_gap p"
      using can None none by (auto simp: can_insert_eq [OF wf])
    then have "length row \<le> data_offset p"
      by (simp add: free_gap_def)
    moreover have "0 < usize_as_u16 (length row)"
      using ne u16_pos_iff [OF len] by simp
    ultimately show ?thesis
      using ins none(1) room
      by (intro fresh)
        (auto simp: insert_record_def can None insert_into_free_eq [OF reg] Let_def
          u16_checked_add_def append_row_def allocate_slot_def split: if_splits)
  qed
qed

text \<open>Both ways keep the regions in order and add one row to the view.\<close>

lemma bytes_carved:
  assumes "regions_ok p" and "i < length (slots p)" and "length row \<le> unat (record_length (slots p ! i))"
    and "j < length (slots p)" and "j \<noteq> i"
  shows "take (unat (record_length (slots p ! j))) (drop (page_offset (slots p ! j))
      (take (page_offset (slots p ! i)) (page_bytes p) @ row @
       drop (page_offset (slots p ! i) + length row) (page_bytes p))) =
    take (unat (record_length (slots p ! j))) (drop (page_offset (slots p ! j)) (page_bytes p))"
  using regions_okD(1) [OF assms(1)] regions_okD(4) [OF assms(1,2)]
    regions_okD(5) [OF assms(1,2,4)] assms(3,5)
  by (intro take_drop_write_other) (auto simp: slot_disjoint_def)

text \<open>
  Regions stay in order when a slot shrinks within its own region, and when a slot is pushed
  whose region is clear of all others.
\<close>

lemma regions_ok_shrink:
  assumes "regions_ok p" and "i < length (slots p)"
    and "page_offset (slots p ! i) \<le> page_offset s" and "slot_end s \<le> slot_end (slots p ! i)"
    and "length bs = length (page_bytes p)"
  shows "regions_ok (p\<lparr>page_bytes := bs, slots := (slots p)[i := s]\<rparr>)"
proof -
  note old = regions_okD [OF assms(1)]
  have bounds: "data_offset p \<le> page_offset t \<and> slot_end t \<le> page_data_size (layout p)"
    if "t \<in> set ((slots p)[i := s])" for t
    using set_update_subset_insert [of "slots p" i s] that old(3,4) [OF assms(2)] assms(1,3,4)
    by (fastforce simp: regions_ok_iff)
  have disj: "slot_disjoint ((slots p)[i := s] ! j) ((slots p)[i := s] ! k)"
    if "j < length (slots p)" "k < length (slots p)" "j \<noteq> k" for j k
    using old(5) [OF that] assms(2-4) by (cases "j = i"; cases "k = i") (auto simp: slot_disjoint_def)
  show ?thesis
    unfolding regions_ok_iff using old(1,2) assms(5) bounds disj by simp
qed

lemma regions_ok_push:
  assumes "regions_ok p" and "data_offset p \<le> page_offset s"
    and "slot_end s \<le> page_data_size (layout p)" and "\<forall>t \<in> set (slots p). slot_disjoint t s"
  shows "regions_ok (p\<lparr>slots := slots p @ [s]\<rparr>)"
proof -
  have "\<forall>t \<in> set (slots p). slot_disjoint s t"
    using assms(4) slot_disjoint_sym by blast
  then show ?thesis
    using assms by (simp add: regions_ok_iff nth_append less_Suc_eq all_conj_distrib)
qed

lemma reuse_slot_regions:
  assumes reg: "regions_ok p" and i: "i < length (slots p)"
    and fits: "length row \<le> unat (record_length (slots p ! i))"
  shows "regions_ok (reuse_slot p i row)"
proof -
  let ?s = "slots p ! i" and ?len = "usize_as_u16 (length row)"
  let ?live = "\<lparr>record_length = ?len, page_offset = page_offset ?s, slot_deleted = False\<rparr>"
  let ?rest = "\<lparr>record_length = record_length ?s - ?len, page_offset = page_offset ?s + length row,
                 slot_deleted = True\<rparr>"
  let ?bs = "take (page_offset ?s) (page_bytes p) @ row @ drop (page_offset ?s + length row) (page_bytes p)"
  let ?p1 = "p\<lparr>page_bytes := ?bs, slots := (slots p)[i := ?live]\<rparr>"
  note old = regions_okD [OF reg]
  have "length row < 2 ^ 16"
    using fits unat_lt_2p [of "record_length ?s"] by simp
  then have len: "unat ?len = length row" by simp
  then have rest: "unat (record_length ?s - ?len) = unat (record_length ?s) - length row"
    using fits by (simp add: unat_sub word_le_nat_alt)
  have end_le: "page_offset ?s + length row \<le> length (page_bytes p)"
    using old(1) old(4) [OF i] fits by simp
  have one: "regions_ok ?p1"
    using end_le fits len by (intro regions_ok_shrink reg i) auto
  have clear: "slot_disjoint t ?rest" if t: "t \<in> set (slots ?p1)" for t
  proof -
    from t obtain j where j: "j < length (slots p)" "t = (slots p)[i := ?live] ! j"
      by (auto simp: in_set_conv_nth)
    then show ?thesis
      using old(5) [OF j(1) i] len fits rest by (cases "j = i") (auto simp: slot_disjoint_def)
  qed
  have "regions_ok (?p1\<lparr>slots := slots ?p1 @ [?rest]\<rparr>)"
    using old(3,4) [OF i] fits rest clear by (intro regions_ok_push one) auto
  with one show ?thesis
    by (simp add: reuse_slot_def Let_def)
qed

lemma append_row_regions:
  assumes reg: "regions_ok p" and room: "length row \<le> data_offset p" and len: "length row < 2 ^ 16"
  shows "regions_ok (append_row p row)"
proof -
  let ?p1 = "p\<lparr>page_bytes := take (data_offset p - length row) (page_bytes p) @ row @
                      drop (data_offset p) (page_bytes p), data_offset := data_offset p - length row\<rparr>"
  have one: "regions_ok ?p1"
    using reg room by (fastforce simp: regions_ok_iff)
  have "regions_ok (?p1\<lparr>slots := slots ?p1 @ [\<lparr>record_length = usize_as_u16 (length row),
      page_offset = data_offset p - length row, slot_deleted = False\<rparr>]\<rparr>)"
    using reg room len by (intro regions_ok_push one) (auto simp: regions_ok_iff slot_disjoint_def)
  then show ?thesis
    by (simp add: append_row_def)
qed

lemma reuse_slot_rows:
  assumes reg: "regions_ok p" and i: "i < length (slots p)"
    and fits: "length row \<le> unat (record_length (slots p ! i))"
  shows "page_rows (reuse_slot p i row) = (page_rows p)(i \<mapsto> row)"
proof
  fix j
  have "length row < 2 ^ 16"
    using fits unat_lt_2p [of "record_length (slots p ! i)"] by simp
  then have len: "unat (usize_as_u16 (length row)) = length row" by simp
  have "page_offset (slots p ! i) + length row \<le> length (page_bytes p)"
    using regions_okD(1) [OF reg] regions_okD(4) [OF reg i] fits by simp
  then show "page_rows (reuse_slot p i row) j = ((page_rows p)(i \<mapsto> row)) j"
    unfolding page_rows_eq [OF reuse_slot_regions [OF reg i fits]] fun_upd_apply page_rows_eq [OF reg]
    using i len bytes_carved [OF reg i fits, of j]
    by (simp add: reuse_slot_def Let_def nth_append nth_list_update less_Suc_eq)
qed

lemma append_row_rows:
  assumes reg: "regions_ok p" and room: "length row \<le> data_offset p" and len: "length row < 2 ^ 16"
  shows "page_rows (append_row p row) = (page_rows p)(length (slots p) \<mapsto> row)"
proof
  fix j
  have off: "data_offset p \<le> length (page_bytes p)"
    using regions_okD(1,2) [OF reg] by simp
  have other: "take n (drop b (take (data_offset p - length row) (page_bytes p) @ row @
      drop (data_offset p) (page_bytes p))) = take n (drop b (page_bytes p))"
    if "data_offset p \<le> b" for b n
    using take_drop_write_other [of "data_offset p - length row" row "page_bytes p" b n] off room that
    by simp
  have same: "take (length row) (drop (data_offset p - length row)
      (take (data_offset p - length row) (page_bytes p) @ row @ drop (data_offset p) (page_bytes p))) = row"
    using off room by (simp add: min_def)
  show "page_rows (append_row p row) j = ((page_rows p)(length (slots p) \<mapsto> row)) j"
    unfolding page_rows_eq [OF append_row_regions [OF assms]] fun_upd_apply page_rows_eq [OF reg]
    using off room len regions_okD(3) [OF reg, of j]
    by (cases "j < length (slots p)") (simp_all add: append_row_def nth_append other same del: drop_append take_append)
qed

lemma insert_record_append:
  assumes "page_wf p" and "find_free_slot_index p row = None" and "row \<noteq> []"
    and "length row + SLOT_SIZE \<le> free_gap p" and "unat (number_of_records p) < 2 ^ 16 - 1"
  shows "insert_record p row =
    Inr (length (slots p), (append_row p row)\<lparr>number_of_records := number_of_records p + 1\<rparr>)"
proof -
  have reg: "regions_ok p" and lay: "layout_ok (layout p)" using assms(1) by (auto dest: page_wfD)
  have room: "length row \<le> data_offset p" using assms(4) by (simp add: free_gap_def)
  then have len: "length row < 2 ^ 16"
    using regions_okD(2) [OF reg] page_data_size_bound [OF lay] by simp
  have "u16_checked_add (number_of_records p) 1 = (Inr (number_of_records p + 1) :: (u16, page_error) result)"
    using assms(5) by (simp add: u16_checked_add_def)
  then show ?thesis
    using assms(2-4) insert_into_free_eq [OF reg room] can_insert_eq [OF assms(1)] u16_pos_iff [OF len]
    by (simp add: insert_record_def Let_def allocate_slot_def append_row_def)
qed

section \<open>Updating in place and deleting\<close>

lemma write_record_eq:
  assumes wf: "regions_ok p" and i: "i < length (slots p)"
    and len: "unat (record_length (slots p ! i)) = length row"
  shows "write_record p i row =
    Inr (p\<lparr>page_bytes := take (page_offset (slots p ! i)) (page_bytes p) @ row @
                          drop (page_offset (slots p ! i) + length row) (page_bytes p)\<rparr>)"
proof -
  have "record_length (slots p ! i) = usize_as_u16 (length row)"
    using len by (simp add: word_unat_eq_iff usize_as_u16_def flip: len)
  moreover have "page_offset (slots p ! i) + length row \<le> length (page_bytes p)"
    using regions_okD(1) [OF wf] regions_okD(4) [OF wf i] len by simp
  ultimately show ?thesis
    using i by (simp add: write_record_def)
qed

lemma write_record_regions:
  assumes "regions_ok p" and "i < length (slots p)"
    and "unat (record_length (slots p ! i)) = length row" and "write_record p i row = Inr q"
  shows "regions_ok q" "slots q = slots p" "data_offset q = data_offset p" "layout q = layout p"
    "page_id q = page_id p" "number_of_records q = number_of_records p"
  using assms regions_okD(4) [OF assms(1,2)] by (auto simp: write_record_eq regions_ok_iff)

lemma delete_wf_rows:
  assumes "page_wf p"
  shows "page_wf (snd (delete_record p i)) \<and> page_rows (snd (delete_record p i)) = (page_rows p)(i := None)"
proof (cases "i < length (slots p)")
  case True
  let ?q = "p\<lparr>slots := (slots p)[i := (slots p ! i)\<lparr>slot_deleted := True\<rparr>]\<rparr>"
  have reg: "regions_ok p" using assms by (rule page_wfD)
  have regq: "regions_ok ?q"
    using regions_ok_shrink [OF reg True, of "(slots p ! i)\<lparr>slot_deleted := True\<rparr>" "page_bytes p"] by simp
  then have "page_wf ?q"
    using assms by (simp add: page_wf_def directory_fits_def slot_size_def)
  moreover have "page_rows ?q = (page_rows p)(i := None)"
  proof
    fix j
    show "page_rows ?q j = ((page_rows p)(i := None)) j"
      unfolding page_rows_eq [OF regq] fun_upd_apply page_rows_eq [OF reg]
      using True by (simp add: nth_list_update)
  qed
  ultimately show ?thesis
    using True by (simp add: delete_record_def)
next
  case False
  then show ?thesis
    using assms by (auto simp: delete_record_def page_rows_eq [OF page_wfD(2) [OF assms]])
qed

lemmas delete_rows = delete_wf_rows [THEN conjunct2]

lemma write_record_ok:
  assumes "page_wf p" and True: "i < length (slots p) \<and> unat (record_length (slots p ! i)) = length row"
  shows "\<exists>q. write_record p i row = Inr q \<and> page_wf q \<and> layout q = layout p \<and> page_id q = page_id p \<and>
    slots q = slots p \<and> data_offset q = data_offset p \<and> number_of_records q = number_of_records p \<and>
    page_rows q = (if slot_deleted (slots p ! i) then page_rows p else (page_rows p)(i \<mapsto> row))"
proof -
  have reg: "regions_ok p" using assms(1) by (rule page_wfD)
  obtain q where q: "write_record p i row = Inr q"
    using write_record_eq [OF reg] True by blast
  note frame = write_record_regions [OF reg conjunct1 [OF True] conjunct2 [OF True] q]
  have room: "page_offset (slots p ! i) + length row \<le> length (page_bytes p)"
    using True regions_okD(1) [OF reg] regions_okD(4) [OF reg, of i] by simp
  have bytes: "page_bytes q = take (page_offset (slots p ! i)) (page_bytes p) @ row @
      drop (page_offset (slots p ! i) + length row) (page_bytes p)"
    using q True by (auto simp: write_record_eq [OF reg])
  have "page_rows q j = (if slot_deleted (slots p ! i) then page_rows p else (page_rows p)(i \<mapsto> row)) j" for j
    using bytes_carved [OF reg conjunct1 [OF True], of row j] True room
    by (cases "j = i") (simp_all add: page_rows_eq [OF reg] page_rows_eq [OF frame(1)] frame bytes)
  moreover have "page_wf q"
    using assms(1) frame by (simp add: page_wf_def directory_fits_def slot_size_def)
  ultimately show ?thesis
    using q frame by (intro exI [of _ q]) (simp add: fun_eq_iff)
qed

section \<open>A crowded page\<close>

text \<open>
  A page of 64 bytes that three insertions fill to the last byte, after its first row was deleted,
  and the page after a row of three bytes went into the deleted slot.
\<close>

definition crowded_page :: "(page, page_error) result" where
  "crowded_page =
     and_then (insert_record (page_new \<lparr>layout_page_size = 64\<rparr>) (replicate 10 1)) (\<lambda>(_, p1).
     and_then (insert_record p1 (replicate 10 2)) (\<lambda>(_, p2).
     and_then (insert_record p2 (replicate 9 3)) (\<lambda>(_, p3).
     Inr (snd (delete_record p3 0)))))"

definition crowded :: page where
  "crowded =
     \<lparr>page_bytes = replicate 21 0 @ replicate 9 3 @ replicate 10 2 @ replicate 10 1,
      slots = [\<lparr>record_length = 10, page_offset = 40, slot_deleted = True\<rparr>,
               \<lparr>record_length = 10, page_offset = 30, slot_deleted = False\<rparr>,
               \<lparr>record_length = 9, page_offset = 21, slot_deleted = False\<rparr>],
      layout = \<lparr>layout_page_size = 64\<rparr>, number_of_records = 3, data_offset = 21,
      slots_offset = 0, page_id = I32 0\<rparr>"

definition overflowed :: page where
  "overflowed =
     \<lparr>page_bytes = replicate 21 0 @ replicate 9 3 @ replicate 10 2 @ [9, 9, 9] @ replicate 7 1,
      slots = [\<lparr>record_length = 3, page_offset = 40, slot_deleted = False\<rparr>,
               \<lparr>record_length = 10, page_offset = 30, slot_deleted = False\<rparr>,
               \<lparr>record_length = 9, page_offset = 21, slot_deleted = False\<rparr>,
               \<lparr>record_length = 7, page_offset = 43, slot_deleted = True\<rparr>],
      layout = \<lparr>layout_page_size = 64\<rparr>, number_of_records = 4, data_offset = 21,
      slots_offset = 0, page_id = I32 0\<rparr>"

lemma crowded_page_eq: "crowded_page = Inr crowded"
  by (simp add: crowded_page_def crowded_def page_eval)

lemma crowded_wf: "page_wf crowded"
  unfolding crowded_def by code_simp

lemma crowded_insert: "insert_record crowded [9, 9, 9] = Inr (0, overflowed)"
  by (simp add: crowded_def overflowed_def page_eval)

lemma insert_record_effect:
  assumes "page_wf p" and "insert_record p row = Inr (i, q)" and "row \<noteq> []"
  shows "page_rows p i = None \<and> page_rows q = (page_rows p)(i \<mapsto> row) \<and> regions_ok q \<and>
    page_id q = page_id p \<and> layout q = layout p"
proof -
  have reg: "regions_ok p" using assms(1) by (rule page_wfD)
  show ?thesis
  proof (cases rule: insert_record_cases [OF assms])
    case 1
    then show ?thesis
      using reuse_slot_rows [OF reg 1(1,3)] reuse_slot_regions [OF reg 1(1,3)]
      by (simp add: page_rows_eq [OF reg] reuse_slot_def Let_def)
  next
    case 2
    then have room: "length row \<le> data_offset p"
      by (simp add: free_gap_def)
    have "length row < 2 ^ 16"
      using room regions_okD(2) [OF reg] page_data_size_bound [OF page_wfD(1) [OF assms(1)]] by simp
    with 2 show ?thesis
      using append_row_rows [OF reg room] append_row_regions [OF reg room]
      by (simp add: page_rows_eq [OF reg] append_row_def)
  qed
qed

text \<open>Whether an insertion that is accepted succeeds is a matter of the record counter.\<close>

lemma insert_record_counter:
  assumes "page_wf p" and "row \<noteq> []" and "can_insert p row = Inr True"
  shows "if unat (number_of_records p) < 2 ^ 16 - 1 then \<exists>i q. insert_record p row = Inr (i, q)
    else insert_record p row = Inl Panic"
proof -
  have reg: "regions_ok p" using assms(1) by (rule page_wfD)
  have len: "length row < 2 ^ 16" by (rule can_insert_length [OF assms(1,3)])
  have count: "u16_checked_add (number_of_records p) 1 = ((if unat (number_of_records p) < 2 ^ 16 - 1
      then Inr (number_of_records p + 1) else Inl Panic) :: (u16, page_error) result)"
    by (simp add: u16_checked_add_def)
  show ?thesis
  proof (cases "find_free_slot_index p row")
    case (Some i)
    note i = find_free_slot_index_Some [OF Some]
    show ?thesis
      using i assms(3) count insert_into_deleted_eq [OF reg i(1) len_le_u16 [OF i(3) len]]
      by (auto simp: insert_record_def Some Let_def allocate_slot_def)
  next
    case None
    then have "length row \<le> data_offset p"
      using no_slot_found [OF None assms(2) len] assms(3) by (auto simp: can_insert_eq [OF assms(1)] free_gap_def)
    then show ?thesis
      using assms(3) count insert_into_free_eq [OF reg, of row]
      by (auto simp: insert_record_def None Let_def allocate_slot_def)
  qed
qed

section \<open>Properties\<close>

text \<open>
  C18. Inserting a row into a page succeeds with a slot id that had no row, and the rows the page
  shows afterwards are the rows before with the new row under that id: no other record of the
  page changes, wherever the row went.
\<close>

theorem insert_record_rows:
  assumes "page_wf p" and "insert_record p row = Inr (i, q)" and "row \<noteq> []"
  shows "page_rows p i = None \<and> page_rows q = (page_rows p)(i \<mapsto> row) \<and> regions_ok q \<and>
    page_id q = page_id p \<and> layout q = layout p"
  by (rule insert_record_effect [OF assms])

theorem insert_record_rows_witness:
  "page_rows crowded 0 = None \<and> page_rows overflowed = (page_rows crowded)(0 \<mapsto> [9, 9, 9])"
  using insert_record_rows [OF crowded_wf crowded_insert] by simp

text \<open>
  C19. An insertion keeps the page well-formed exactly when the row found a deleted slot of its own
  length or the gap between directory and data still holds one more directory entry. Otherwise
  \<open>can_insert\<close> let a row into a deleted slot whose remainder needs a new slot for which there is
  no room: the directory then overlaps the data.
\<close>

theorem insert_record_wf_iff:
  assumes "page_wf p" and "insert_record p row = Inr (i, q)" and "row \<noteq> []"
  shows "page_wf q \<longleftrightarrow> perfect_fit p row \<or> SLOT_SIZE \<le> free_gap p"
proof -
  have reg: "regions_ok p" and lay: "layout_ok (layout p)" and fits: "directory_fits p"
    using assms(1) by (auto dest: page_wfD)
  have "regions_ok q" and lq: "layout q = layout p"
    using insert_record_effect [OF assms] by blast+
  then have wf: "page_wf q \<longleftrightarrow> slot_size q \<le> data_offset q"
    using lay by (simp add: page_wf_def directory_fits_def)
  show ?thesis
  proof (cases rule: insert_record_cases [OF assms])
    case 1
    have "length row < 2 ^ 16"
      using 1(3) unat_lt_2p [of "record_length (slots p ! i)"] by simp
    then have same: "record_length (slots p ! i) = usize_as_u16 (length row) \<longleftrightarrow>
        unat (record_length (slots p ! i)) = length row"
      by (simp add: word_unat_eq_iff)
    have "perfect_fit p row \<Longrightarrow> unat (record_length (slots p ! i)) = length row"
      using insert_record_perfect [OF assms(1,2)] by blast
    moreover have "unat (record_length (slots p ! i)) = length row \<Longrightarrow> perfect_fit p row"
      using 1(1,2) by (auto simp: perfect_fit_def)
    ultimately show ?thesis
      using wf 1(4) same fits
      by (auto simp: reuse_slot_def Let_def slot_size_def directory_fits_def free_gap_def layout_consts)
  next
    case 2
    then show ?thesis
      using wf by (auto simp: append_row_def slot_size_def free_gap_def layout_consts)
  qed
qed

theorem insert_record_wf_iff_witness:
  "page_wf overflowed \<longleftrightarrow> perfect_fit crowded [9, 9, 9] \<or> SLOT_SIZE \<le> free_gap crowded"
  using insert_record_wf_iff [OF crowded_wf crowded_insert] by simp

text \<open>
  C24. Insertion never panics on a well-formed page whose record counter is not exhausted: it is
  refused with \<open>InsertRecord\<close>, leaving nothing changed, exactly when no deleted slot has the
  row's length and neither the gap nor the largest deleted slot holds the row and a slot entry.
\<close>

theorem insert_record_accepts:
  assumes "page_wf p" and "row \<noteq> []" and "unat (number_of_records p) < 2 ^ 16 - 1"
    and "length row < 2 ^ 16"
  shows "if perfect_fit p row \<or> length row + SLOT_SIZE \<le> max (free_gap p) (max_fragmented_free_space p)
    then \<exists>i q. insert_record p row = Inr (i, q)
    else insert_record p row = Inl (Err InsertRecord)"
proof -
  have reg: "regions_ok p" using assms(1) by (rule page_wfD)
  have ok: "can_insert p row = (Inr (perfect_fit p row \<or>
      length row + SLOT_SIZE \<le> max (free_gap p) (max_fragmented_free_space p)))"
    using find_perfect [OF _ assms(4)] find_free_slot_index_Some [of p row]
    by (fastforce simp: can_insert_eq [OF assms(1)] perfect_fit_def)
  have count: "u16_checked_add (number_of_records p) 1 = (Inr (number_of_records p + 1) :: (u16, page_error) result)"
    using assms(3) by (simp add: u16_checked_add_def)
  show ?thesis
  proof (cases "find_free_slot_index p row")
    case (Some i)
    note i = find_free_slot_index_Some [OF Some]
    show ?thesis
      using i ok count insert_into_deleted_eq [OF reg i(1) len_le_u16 [OF i(3) assms(4)]]
      by (auto simp: insert_record_def Some Let_def allocate_slot_def)
  next
    case None
    then have "\<not> perfect_fit p row" "max_fragmented_free_space p < length row + SLOT_SIZE"
      using no_slot_found [OF None assms(2,4)] by auto
    then show ?thesis
      using ok count insert_into_free_eq [OF reg, of row]
      by (auto simp: insert_record_def None Let_def allocate_slot_def free_gap_def)
  qed
qed

theorem insert_record_accepts_witness:
  "\<exists>i q. insert_record crowded [9, 9, 9] = Inr (i, q)"
proof -
  have "length [9, 9, 9 :: byte] + SLOT_SIZE \<le> max (free_gap crowded) (max_fragmented_free_space crowded)"
    by (simp add: crowded_def free_gap_def page_eval)
  moreover have "unat (number_of_records crowded) < 2 ^ 16 - 1"
    by (simp add: crowded_def)
  ultimately show ?thesis
    using insert_record_accepts [OF crowded_wf, of "[9, 9, 9]"] by simp
qed

text \<open>
  C25. Deleting marks exactly the named slot: the call reports whether the slot exists, the page
  stays well-formed, its rows are the rows before without that one, and deleting twice changes
  nothing more.
\<close>

theorem delete_record_rows:
  assumes "page_wf p"
  shows "fst (delete_record p i) = (i < length (slots p)) \<and> page_wf (snd (delete_record p i)) \<and>
    page_rows (snd (delete_record p i)) = (page_rows p)(i := None) \<and>
    snd (delete_record (snd (delete_record p i)) i) = snd (delete_record p i)"
  using delete_wf_rows [OF assms, of i] by (cases "i < length (slots p)") (simp_all add: delete_record_def)

theorem delete_record_rows_witness:
  "fst (delete_record crowded 1) \<and> page_wf (snd (delete_record crowded 1)) \<and>
   page_rows (snd (delete_record crowded 1)) = (page_rows crowded)(1 := None)"
  using delete_record_rows [OF crowded_wf, of 1] by (simp add: crowded_def)

text \<open>
  C26. Updating in place succeeds exactly when the slot exists and has the length of the new row,
  and is refused with \<open>UpdateRecord\<close> otherwise; on success a live slot holds the new row, every
  other row is as before and the page stays well-formed.
\<close>

theorem write_record_rows:
  assumes "page_wf p" and "length row < 2 ^ 16"
  shows "if i < length (slots p) \<and> unat (record_length (slots p ! i)) = length row
    then \<exists>q. write_record p i row = Inr q \<and> page_wf q \<and>
           page_rows q = (if slot_deleted (slots p ! i) then page_rows p else (page_rows p)(i \<mapsto> row))
    else write_record p i row = Inl (Err UpdateRecord)"
proof (cases "i < length (slots p) \<and> unat (record_length (slots p ! i)) = length row")
  case True
  then show ?thesis
    using write_record_ok [OF assms(1) True] by auto
next
  case False
  then show ?thesis
    using assms(2) by (auto simp: write_record_def vec_get_def)
qed

theorem write_record_rows_witness:
  "\<exists>q. write_record crowded 1 (replicate 10 7) = Inr q \<and> page_wf q \<and>
     page_rows q = (page_rows crowded)(1 \<mapsto> replicate 10 7)"
  using write_record_rows [OF crowded_wf, of "replicate 10 7" 1] by (simp add: crowded_def)

end
