(* ===== verification/Page_Codec.thy ===== *)
theory Page_Codec
  imports Page_Ops
begin

text \<open>
  \<open>Page::serialize\<close> and \<open>Page::deserialize\<close> of \<open>src/src/data/page.rs\<close>, byte by byte: a 14-byte
  header, then the data area with the slot directory laid over its start. The round trip gives
  back a page with the same slots and the same rows as long as directory and data do not
  meet; a page that \<open>insert_record\<close> let overflow loses a record on the way to the file.
\<close>

section \<open>Writing\<close>

definition write_slot :: "byte list \<Rightarrow> nat \<Rightarrow> slot \<Rightarrow> (byte list, page_error) result" where
  "write_slot buf i s =
     (let deleted_flag = PAGE_HEADER_SIZE + i * SLOT_SIZE;
          offset_of_data_index = deleted_flag + 1;
          length_index = deleted_flag + 5;
          length_end = length_index + 2
      in and_then (index_set buf deleted_flag (if slot_deleted s then 1 else 0)) (\<lambda>b1.
         and_then (copy_into b1 offset_of_data_index length_index
                     (u32_to_be (word_of_nat (page_offset s)))) (\<lambda>b2.
         copy_into b2 length_index length_end (u16_to_be (record_length s)))))"

fun write_slots :: "byte list \<Rightarrow> nat \<Rightarrow> slot list \<Rightarrow> (byte list, page_error) result" where
  "write_slots buf i [] = Inr buf"
| "write_slots buf i (s # ss) = and_then (write_slot buf i s) (\<lambda>b. write_slots b (Suc i) ss)"

definition serialize :: "page \<Rightarrow> (byte list, page_error) result" where
  "serialize p =
     (let size = page_size (layout p) in
      and_then (copy_into (replicate size 0) 0 2 (u16_to_be (number_of_records p))) (\<lambda>b1.
      and_then (copy_into b1 2 6 (u32_to_be (word_of_nat (data_offset p)))) (\<lambda>b2.
      and_then (copy_into b2 6 10 (i32_to_be (page_id p))) (\<lambda>b3.
      and_then (copy_into b3 10 14 (i32_to_be (usize_as_i32 (length (slots p) * SLOT_SIZE)))) (\<lambda>b4.
      and_then (copy_into b4 14 size (page_bytes p)) (\<lambda>b5.
      write_slots b5 0 (slots p)))))))"

section \<open>Reading\<close>

function chunks_exact :: "nat \<Rightarrow> 'a list \<Rightarrow> 'a list list" where
  "chunks_exact k xs =
     (if k = 0 \<or> length xs < k then [] else take k xs # chunks_exact k (drop k xs))"
  by pat_completeness auto
termination
  by (relation "measure (\<lambda>(k, xs). length xs)") auto

declare chunks_exact.simps [simp del]

definition decode_slot :: "byte list \<Rightarrow> slot" where
  "decode_slot chunk =
     \<lparr>record_length = u16_from_be (take 2 (drop 5 chunk)),
      page_offset = unat (u32_from_be (take 4 (drop 1 chunk))),
      slot_deleted = (chunk ! 0 = 1)\<rparr>"

definition deserialize :: "byte list \<Rightarrow> page_data_layout \<Rightarrow> (page, page_error) result" where
  "deserialize buf l =
     and_then (slice buf 0 2) (\<lambda>num_rows.
     and_then (slice buf 2 6) (\<lambda>offset.
     and_then (slice buf 6 10) (\<lambda>pid.
     and_then (slice buf 10 14) (\<lambda>slots_end.
     let free_slots_offset = i32_as_usize (i32_from_be slots_end) in
     and_then (slice buf 14 (page_size l)) (\<lambda>dat.
     and_then (slice dat 0 free_slots_offset) (\<lambda>region.
     Inr \<lparr>page_bytes = dat, slots = map decode_slot (chunks_exact 7 region), layout = l,
          number_of_records = u16_from_be num_rows,
          data_offset = i32_as_usize (i32_from_be offset),
          slots_offset = free_slots_offset, page_id = i32_from_be pid\<rparr>))))))"

section \<open>The image of a page\<close>

definition slot_bytes :: "slot \<Rightarrow> byte list" where
  "slot_bytes s =
     (if slot_deleted s then 1 else 0) # u32_to_be (word_of_nat (page_offset s)) @ u16_to_be (record_length s)"

definition slot_directory :: "page \<Rightarrow> byte list" where
  "slot_directory p = concat (map slot_bytes (slots p))"

definition page_header :: "page \<Rightarrow> byte list" where
  "page_header p =
     u16_to_be (number_of_records p) @ u32_to_be (word_of_nat (data_offset p)) @
     i32_to_be (page_id p) @ i32_to_be (usize_as_i32 (length (slots p) * SLOT_SIZE))"

lemma length_slot_bytes [simp]: "length (slot_bytes s) = 7"
  by (simp add: slot_bytes_def)

lemma length_slot_directory [simp]: "length (slot_directory p) = length (slots p) * 7"
proof -
  have "length (concat (map slot_bytes ss)) = length ss * 7" for ss
    by (induction ss) auto
  then show ?thesis by (simp add: slot_directory_def)
qed

lemma length_page_header [simp]: "length (page_header p) = 14"
  by (simp add: page_header_def)

lemma write_slot_eq:
  assumes "length pre = 14 + i * 7" and "7 \<le> length rest"
  shows "write_slot (pre @ rest) i s = Inr (pre @ slot_bytes s @ drop 7 rest)"
proof -
  obtain a xs where rest: "rest = a # xs" using assms(2) by (cases rest) auto
  then show ?thesis
    using assms by (simp add: write_slot_def layout_consts Let_def list_update_append slot_bytes_def)
qed

lemma write_slots_eq:
  assumes "length pre = 14 + i * 7" and "length ss * 7 \<le> length rest"
  shows "write_slots (pre @ rest) i ss = Inr (pre @ concat (map slot_bytes ss) @ drop (length ss * 7) rest)"
  using assms
proof (induction ss arbitrary: pre i rest)
  case Nil
  then show ?case by simp
next
  case (Cons s ss)
  from Cons.prems have "write_slot (pre @ rest) i s = Inr ((pre @ slot_bytes s) @ drop 7 rest)"
    using write_slot_eq [of pre i rest s] by simp
  moreover note Cons.IH [of "pre @ slot_bytes s" "Suc i" "drop 7 rest"]
  ultimately show ?case
    using Cons.prems by (simp add: add.commute)
qed

text \<open>Serializing lays the directory over the data, whether or not it reaches the rows.\<close>

lemma serialize_eq:
  assumes "layout_ok (layout p)" and "length (page_bytes p) = page_data_size (layout p)"
    and "slot_size p \<le> page_data_size (layout p)"
  shows "serialize p = Inr (page_header p @ slot_directory p @ drop (length (slots p) * 7) (page_bytes p))"
proof -
  have size: "32 \<le> page_size (layout p)" using assms(1) by (rule layout_ok_bounds)
  have "write_slots (page_header p @ page_bytes p) 0 (slots p) =
      Inr (page_header p @ slot_directory p @ drop (length (slots p) * 7) (page_bytes p))"
    using assms(2,3) by (simp add: write_slots_eq slot_directory_def slot_size_def layout_consts)
  then show ?thesis
    using size assms(2)
    by (simp add: serialize_def Let_def page_data_size_def layout_consts page_header_def)
qed

lemma chunks_exact_directory:
  "chunks_exact 7 (concat (map slot_bytes ss)) = map slot_bytes ss"
  by (induction ss) (simp_all add: chunks_exact.simps)

lemma decode_slot_bytes: "page_offset s < 2 ^ 32 \<Longrightarrow> decode_slot (slot_bytes s) = s"
  by (cases s) (simp add: decode_slot_def slot_bytes_def unat_of_nat take_bit_nat_eq_self)

text \<open>The page that is read back.\<close>

definition page_image :: "page \<Rightarrow> page" where
  "page_image p =
     p\<lparr>page_bytes := slot_directory p @ drop (length (slots p) * 7) (page_bytes p),
       slots_offset := length (slots p) * 7\<rparr>"

lemma deserialize_serialize:
  assumes "layout_ok (layout p)" and "regions_ok p" and "slot_size p \<le> page_data_size (layout p)"
  shows "deserialize (page_header p @ slot_directory p @ drop (length (slots p) * 7) (page_bytes p)) (layout p) =
    Inr (page_image p)"
proof -
  have size: "32 \<le> page_size (layout p)" and bound: "page_data_size (layout p) < 2 ^ 15"
    using layout_ok_bounds(1) [OF assms(1)] page_data_size_bound [OF assms(1)] by simp_all
  note reg = regions_okD [OF assms(2)]
  let ?n = "length (slots p) * 7"
  have n: "?n < 2 ^ 31" and off: "data_offset p < 2 ^ 31"
    using assms(3) bound reg(2) by (simp_all add: slot_size_def layout_consts)
  have off': "unat (word_of_nat (data_offset p) :: u32) = data_offset p"
    using off by (simp add: unat_of_nat take_bit_nat_eq_self)
  have u32: "i32_from_be (u32_to_be (word_of_nat (data_offset p))) = usize_as_i32 (data_offset p)"
    using off off' by (simp add: i32_from_be_def u32_to_be_def be_nat_inverse usize_as_i32_def i32_of_int_def)
  have "page_offset s < 2 ^ 32" if "s \<in> set (slots p)" for s
    using that assms(2) bound by (fastforce simp: regions_ok_iff)
  then have dec: "map decode_slot (chunks_exact 7 (slot_directory p)) = slots p"
    by (simp add: slot_directory_def chunks_exact_directory map_idI decode_slot_bytes)
  have len: "length (page_bytes p) = page_size (layout p) - 14" "14 \<le> page_size (layout p)"
    using reg(1) size by (simp_all add: page_data_size_def layout_consts)
  have fit: "?n \<le> length (page_bytes p)"
    using assms(3) reg(1) by (simp add: slot_size_def layout_consts)
  show ?thesis
    using len fit n off dec
    by (simp add: deserialize_def page_header_def page_image_def u32 layout_consts Let_def)
qed

lemma page_image_rows:
  assumes "page_wf p"
  shows "page_wf (page_image p)" "page_rows (page_image p) = page_rows p"
proof -
  have reg: "regions_ok p" and fits: "slot_size p \<le> data_offset p"
    using assms by (simp_all add: page_wf_def directory_fits_def)
  have n: "length (slots p) * 7 \<le> length (page_bytes p)"
    using fits regions_okD(1,2) [OF reg] by (simp add: slot_size_def layout_consts)
  have regi: "regions_ok (page_image p)"
    using reg n by (simp add: regions_ok_iff page_image_def)
  then show "page_wf (page_image p)"
    using assms by (simp add: page_wf_def directory_fits_def page_image_def slot_size_def)
  show "page_rows (page_image p) = page_rows p"
  proof
    fix i
    have "length (slots p) * 7 \<le> page_offset (slots p ! i)" if "i < length (slots p)"
      using regions_okD(3) [OF reg that] fits by (simp add: slot_size_def layout_consts)
    then show "page_rows (page_image p) i = page_rows p i"
      using n by (simp add: page_rows_eq [OF regi] page_rows_eq [OF reg]) (simp add: page_image_def)
  qed
qed

section \<open>Properties\<close>

text \<open>
  C23. Writing a well-formed page out and reading it back succeeds, without a panic, on exactly
  one page size of bytes, and gives a well-formed page with the same id, slots, record counter,
  free-space pointer and rows; writing that page out again gives the same bytes.
\<close>

theorem page_roundtrip:
  assumes "page_wf p"
  shows "\<exists>bs q. serialize p = Inr bs \<and>
    length bs = page_size (layout p) \<and> deserialize bs (layout p) = Inr q \<and>
    page_wf q \<and> page_rows q = page_rows p \<and> slots q = slots p \<and> page_id q = page_id p \<and>
    data_offset q = data_offset p \<and> number_of_records q = number_of_records p \<and>
    serialize q = Inr bs"
proof -
  have lay: "layout_ok (layout p)" and reg: "regions_ok p" and fits: "slot_size p \<le> data_offset p"
    using assms by (simp_all add: page_wf_def directory_fits_def)
  have le: "slot_size p \<le> page_data_size (layout p)"
    using fits regions_okD(2) [OF reg] by simp
  note img = page_image_rows [OF assms]
  have n: "length (slots p) * 7 \<le> length (page_bytes p)"
    using le regions_okD(1) [OF reg] by (simp add: slot_size_def layout_consts)
  have same: "page_header (page_image p) = page_header p" "slot_directory (page_image p) = slot_directory p"
    "slots (page_image p) = slots p" "layout (page_image p) = layout p"
    by (simp_all add: page_image_def page_header_def slot_directory_def)
  have rest: "drop (length (slots p) * 7) (page_bytes (page_image p)) = drop (length (slots p) * 7) (page_bytes p)"
    by (simp add: page_image_def)
  have "serialize (page_image p) =
      (Inr (page_header p @ slot_directory p @ drop (length (slots p) * 7) (page_bytes p)))"
    using serialize_eq [of "page_image p"] lay le same rest regions_okD(1) [OF page_wfD(2) [OF img(1)]]
    by (simp add: slot_size_def)
  moreover have "14 + (length (slots p) * 7 + (length (page_bytes p) - length (slots p) * 7)) = page_size (layout p)"
    using n regions_okD(1) [OF reg] layout_ok_bounds(1) [OF lay] by (simp add: page_data_size_def layout_consts)
  ultimately show ?thesis
    using serialize_eq [OF lay regions_okD(1) [OF reg] le] deserialize_serialize [OF lay reg le] img
    by (intro exI conjI) (assumption | simp add: page_image_def)+
qed

theorem page_roundtrip_witness:
  "\<exists>bs q. serialize crowded = Inr bs \<and> length bs = 64 \<and> deserialize bs (layout crowded) = Inr q \<and>
     page_rows q = page_rows crowded"
proof -
  have "page_size (layout crowded) = 64" by (simp add: crowded_def page_size_def)
  then show ?thesis
    using page_roundtrip [OF crowded_wf] by auto
qed

lemma overflowed_layout: "layout overflowed = \<lparr>layout_page_size = 64\<rparr>" "layout_ok (layout overflowed)"
  by (simp add: overflowed_def) (unfold overflowed_def, code_simp)

lemma overflowed_roundtrip:
  "deserialize (page_header overflowed @ slot_directory overflowed @
     drop (length (slots overflowed) * 7) (page_bytes overflowed)) (layout overflowed) =
   Inr (page_image overflowed)"
proof (rule deserialize_serialize [OF overflowed_layout(2)])
  show "regions_ok overflowed"
    unfolding overflowed_def by code_simp
  show "slot_size overflowed \<le> page_data_size (layout overflowed)"
    by (simp add: overflowed_def page_eval)
qed

lemma overflowed_directory:
  "slot_directory overflowed =
     [0, 0, 0, 0, 40, 0, 3, 0, 0, 0, 0, 30, 0, 10, 0, 0, 0, 0, 21, 0, 9, 1, 0, 0, 0, 43, 0, 7]"
  unfolding overflowed_def by code_simp

lemma replicate_eq_two: "replicate 2 x = [x, x]"
  by (simp add: numeral_2_eq_2)

lemma overflowed_rows:
  "page_rows overflowed 2 = Some (replicate 9 3)"
  "page_rows (page_image overflowed) 2 = Some [1, 0, 0, 0, 43, 0, 7, 3, 3]"
  "can_insert overflowed [7] = Inl Panic"
  unfolding page_image_def overflowed_directory
  by (simp_all add: overflowed_def page_eval replicate_eq_two)

text \<open>
  The case that \<open>insert_record_wf_iff\<close> excludes does occur and destroys data: on the crowded page an accepted
  insertion leaves a third record that reads correctly in memory, but after the page went to the
  file and back its first seven bytes are those of the new slot's directory entry. The
  next request for space on the page panics with an underflow.
\<close>

theorem insert_record_corrupts:
  "\<exists>p i q bs r. crowded_page = Inr p \<and> page_wf p \<and> insert_record p [9, 9, 9] = Inr (i, q) \<and>
     page_rows q 2 = Some (replicate 9 3) \<and> can_insert q [7] = Inl Panic \<and>
     serialize q = Inr bs \<and> deserialize bs (layout q) = Inr r \<and>
     page_rows r 2 = Some [1, 0, 0, 0, 43, 0, 7, 3, 3]"
proof -
  have "serialize overflowed = Inr (page_header overflowed @ slot_directory overflowed @
      drop (length (slots overflowed) * 7) (page_bytes overflowed))"
    by (rule serialize_eq [OF overflowed_layout(2)]) (simp_all add: overflowed_def page_eval)
  then show ?thesis
    using crowded_page_eq crowded_wf crowded_insert overflowed_rows overflowed_roundtrip by blast
qed

end
