(* ===== verification/Page_Iter.thy ===== *)
theory Page_Iter
  imports Page_Codec
begin

text \<open>
  The record iterators of \<open>src/src/data/page.rs\<close>: \<open>RecordIterator\<close> over all slots of a page and over
  a chosen set of slots. A record holds the page's bytes and the region of its slot, and the
  index by which callers address the slot again.
\<close>

record record_data =
  rd_bytes :: "byte list"
  slice_from :: nat
  slice_to :: nat

record record_ref =
  record_page_id :: i32
  record_index :: nat
  rec_data :: record_data

definition record_bytes :: "record_ref \<Rightarrow> (byte list, page_error) result" where
  "record_bytes r = slice (rd_bytes (rec_data r)) (slice_from (rec_data r)) (slice_to (rec_data r))"

record record_iterator =
  it_page_id :: i32
  it_data :: "byte list"
  it_slots :: "slot list"
  next_slot :: nat

definition record_from_slot :: "i32 \<Rightarrow> byte list \<Rightarrow> nat \<Rightarrow> slot \<Rightarrow> record_ref" where
  "record_from_slot pid dat slot_index s =
     \<lparr>record_page_id = pid, record_index = slot_index,
      rec_data = \<lparr>rd_bytes = dat, slice_from = page_offset s,
                  slice_to = page_offset s + unat (record_length s)\<rparr>\<rparr>"

definition record_iterator_new :: "page \<Rightarrow> record_iterator" where
  "record_iterator_new p =
     \<lparr>it_page_id = page_id p, it_data = page_bytes p, it_slots = slots p, next_slot = 0\<rparr>"

definition record_iterator_from_slots :: "page \<Rightarrow> nat list \<Rightarrow> record_iterator" where
  "record_iterator_from_slots p slot_ids =
     \<lparr>it_page_id = page_id p, it_data = page_bytes p,
      it_slots = map snd (filter (\<lambda>(index, _). index \<in> set slot_ids) (enumerate 0 (slots p))),
      next_slot = 0\<rparr>"

text \<open>The loop of \<open>next\<close>.\<close>

function record_next :: "record_iterator \<Rightarrow> record_ref option \<times> record_iterator" where
  "record_next it =
     (if next_slot it < length (it_slots it) then
        let s = it_slots it ! next_slot it;
            it' = it\<lparr>next_slot := Suc (next_slot it)\<rparr>
        in if \<not> slot_deleted s
           then (Some (record_from_slot (it_page_id it) (it_data it) (next_slot it) s), it')
           else record_next it'
      else (None, it))"
  by pat_completeness auto
termination
  by (relation "measure (\<lambda>it. length (it_slots it) - next_slot it)") auto

declare record_next.simps [simp del]

lemma record_next_progress:
  "record_next it = (Some r, it') \<Longrightarrow>
     it_slots it' = it_slots it \<and> it_data it' = it_data it \<and> it_page_id it' = it_page_id it \<and>
     next_slot it < next_slot it' \<and> next_slot it' \<le> length (it_slots it)"
proof (induction it rule: record_next.induct)
  case (1 it)
  note eq = record_next.simps [of it]
  show ?case
  proof (cases "next_slot it < length (it_slots it) \<and> slot_deleted (it_slots it ! next_slot it)")
    case True
    then have "record_next (it\<lparr>next_slot := Suc (next_slot it)\<rparr>) = (Some r, it')"
      using "1.prems" eq by (simp add: Let_def)
    from "1.IH" [OF conjunct1 [OF True] refl refl _ this] True show ?thesis
      by auto
  next
    case False
    then show ?thesis
      using "1.prems" eq by (auto simp: Let_def split: if_splits)
  qed
qed

text \<open>Running an iterator to its end.\<close>

function collect_records :: "record_iterator \<Rightarrow> record_ref list" where
  "collect_records it =
     (case record_next it of (None, _) \<Rightarrow> [] | (Some r, it') \<Rightarrow> r # collect_records it')"
  by pat_completeness auto
termination
  by (relation "measure (\<lambda>it. length (it_slots it) - next_slot it)")
    (auto dest!: record_next_progress [OF sym])

declare collect_records.simps [simp del]

lemma collect_records_eq:
  "collect_records it =
     map (\<lambda>i. record_from_slot (it_page_id it) (it_data it) i (it_slots it ! i))
       (filter (\<lambda>i. \<not> slot_deleted (it_slots it ! i)) [next_slot it..<length (it_slots it)])"
proof (induction "length (it_slots it) - next_slot it" arbitrary: it)
  case 0
  then show ?case
    by (simp add: collect_records.simps [of it] record_next.simps [of it])
next
  case (Suc n)
  let ?it = "it\<lparr>next_slot := Suc (next_slot it)\<rparr>"
  have IH: "collect_records ?it =
     map (\<lambda>i. record_from_slot (it_page_id it) (it_data it) i (it_slots it ! i))
       (filter (\<lambda>i. \<not> slot_deleted (it_slots it ! i)) [Suc (next_slot it)..<length (it_slots it)])"
    using Suc.hyps(1) [of ?it] Suc.hyps(2) by simp
  have lt: "next_slot it < length (it_slots it)"
    using Suc.hyps(2) by simp
  show ?case
  proof (cases "slot_deleted (it_slots it ! next_slot it)")
    case True
    then have "record_next it = record_next ?it"
      using lt by (subst record_next.simps) (simp add: Let_def)
    then have "collect_records it = collect_records ?it"
      by (simp add: collect_records.simps [of it] collect_records.simps [of ?it])
    then show ?thesis
      using True lt IH by (simp add: upt_conv_Cons)
  next
    case False
    then have "record_next it =
        (Some (record_from_slot (it_page_id it) (it_data it) (next_slot it) (it_slots it ! next_slot it)), ?it)"
      using lt by (subst record_next.simps) (simp add: Let_def)
    then show ?thesis
      using False lt IH by (simp add: collect_records.simps [of it] upt_conv_Cons)
  qed
qed

lemma iterator_rows:
  assumes "page_wf p"
  shows "map (\<lambda>r. (record_page_id r, record_index r, record_bytes r)) (collect_records (record_iterator_new p)) =
    map (\<lambda>i. (page_id p, i, Inr (the (page_rows p i))))
      (filter (\<lambda>i. page_rows p i \<noteq> None) [0..<length (slots p)])"
proof -
  have reg: "regions_ok p" using assms by (rule page_wfD)
  have live: "filter (\<lambda>i. \<not> slot_deleted (slots p ! i)) [0..<length (slots p)] =
      filter (\<lambda>i. page_rows p i \<noteq> None) [0..<length (slots p)]"
    by (rule filter_cong) (simp_all add: page_rows_eq [OF reg])
  have "record_bytes (record_from_slot (page_id p) (page_bytes p) i (slots p ! i)) = Inr (the (page_rows p i))"
    if "i < length (slots p)" "page_rows p i \<noteq> None" for i
    using that regions_okD(1,4) [OF reg]
    by (auto simp: page_rows_eq [OF reg] record_bytes_def record_from_slot_def split: if_splits)
  then show ?thesis
    unfolding live [symmetric]
    by (auto simp: collect_records_eq record_iterator_new_def live record_from_slot_def)
qed

section \<open>Properties\<close>

text \<open>
  Iterating over a well-formed page yields its live rows, each once, in slot order, with the
  page's id, the slot id as record index and exactly the bytes the page shows for that slot.
\<close>

theorem record_iterator_rows:
  assumes "page_wf p"
  shows "map (\<lambda>r. (record_page_id r, record_index r, record_bytes r)) (collect_records (record_iterator_new p)) =
    map (\<lambda>i. (page_id p, i, Inr (the (page_rows p i))))
      (filter (\<lambda>i. page_rows p i \<noteq> None) [0..<length (slots p)])"
  by (rule iterator_rows [OF assms])

theorem record_iterator_rows_witness:
  "map (\<lambda>r. (record_page_id r, record_index r, record_bytes r)) (collect_records (record_iterator_new crowded)) =
     [(I32 0, 1, Inr (replicate 10 2)), (I32 0, 2, Inr (replicate 9 3))]"
proof -
  have "page_rows crowded 0 = None" "page_rows crowded 1 = Some (replicate 10 2)"
    "page_rows crowded 2 = Some (replicate 9 3)" "length (slots crowded) = 3" "page_id crowded = I32 0"
    by (simp_all add: crowded_def page_eval)
  moreover have "[0..<3] = [0, 1, 2]"
    by code_simp
  ultimately show ?thesis
    using record_iterator_rows [OF crowded_wf] by simp
qed

lemma from_single_slot:
  assumes "i < length (slots p)"
  shows "it_slots (record_iterator_from_slots p [i]) = [slots p ! i]"
proof -
  have "filter (\<lambda>(j, _). j = i) (enumerate k ss) = (if k \<le> i \<and> i < k + length ss then [(i, ss ! (i - k))] else [])"
    for k and ss :: "slot list"
    by (induction ss arbitrary: k) (auto simp: Suc_diff_le nth_Cons' le_Suc_eq)
  from this [of 0 "slots p"] assms show ?thesis
    by (simp add: record_iterator_from_slots_def)
qed

text \<open>
  A record looked up by its slot id (the path of every indexed query) carries the right bytes
  but the record index 0, its position among the chosen slots, whatever slot it came from.
  Deleting by that index therefore leaves the row itself in place unless it is in slot 0.
\<close>

theorem from_slots_loses_slot_id:
  assumes "page_wf p" and "page_rows p i = Some row"
  shows "\<exists>r. collect_records (record_iterator_from_slots p [i]) = [r] \<and>
    record_bytes r = Inr row \<and> record_page_id r = page_id p \<and> record_index r = 0 \<and>
    page_rows (snd (delete_record p (record_index r))) i = (if i = 0 then None else Some row)"
proof -
  have reg: "regions_ok p" using assms(1) by (rule page_wfD)
  have i: "i < length (slots p)" "\<not> slot_deleted (slots p ! i)"
    and row: "row = take (unat (record_length (slots p ! i))) (drop (page_offset (slots p ! i)) (page_bytes p))"
    using assms(2) by (auto simp: page_rows_eq [OF reg] split: if_splits)
  have frame: "it_page_id (record_iterator_from_slots p [i]) = page_id p"
      "it_data (record_iterator_from_slots p [i]) = page_bytes p"
      "next_slot (record_iterator_from_slots p [i]) = 0"
    by (simp_all add: record_iterator_from_slots_def)
  have "collect_records (record_iterator_from_slots p [i]) =
      [record_from_slot (page_id p) (page_bytes p) 0 (slots p ! i)]"
    using i by (simp add: collect_records_eq from_single_slot frame)
  moreover have "record_bytes (record_from_slot (page_id p) (page_bytes p) 0 (slots p ! i)) = Inr row"
    using row regions_okD(1) [OF reg] regions_okD(4) [OF reg i(1)]
    by (simp add: record_bytes_def record_from_slot_def)
  moreover have "page_rows (snd (delete_record p 0)) = (page_rows p)(0 := None)"
    using delete_rows [OF assms(1)] .
  ultimately show ?thesis
    using assms(2) by (auto simp: record_from_slot_def)
qed

theorem from_slots_loses_slot_id_witness:
  "\<exists>r. collect_records (record_iterator_from_slots crowded [2]) = [r] \<and>
     record_bytes r = Inr (replicate 9 3) \<and> record_index r = 0 \<and>
     page_rows (snd (delete_record crowded (record_index r))) 2 = Some (replicate 9 3)"
proof -
  have "page_rows crowded 2 = Some (replicate 9 3)"
    by (simp add: crowded_def page_eval)
  from from_slots_loses_slot_id [OF crowded_wf this] show ?thesis by auto
qed

end
