(* ===== verification/Schema.thy ===== *)
theory Schema
  imports Prelude
begin

text \<open>
  \<open>src/src/schema\<close>: column types, columns, table schemas, cells, rows and tables, validation of a
  row against a schema and the byte format of rows. A Rust \<open>String\<close> is its list of UTF-8 bytes
  (\<open>len\<close> counts bytes); that the bytes are valid UTF-8 is \<open>utf8_valid\<close>, which is what
  \<open>String::from_utf8\<close> of the standard library checks.
\<close>

section \<open>Strings\<close>

type_synonym rstring = "byte list"

definition utf8_tail :: "byte \<Rightarrow> bool" where
  "utf8_tail b \<longleftrightarrow> 0x80 \<le> b \<and> b \<le> 0xBF"

text \<open>The well-formed UTF-8 byte sequences: no overlong forms, surrogates or values past U+10FFFF.\<close>

fun utf8_valid :: "byte list \<Rightarrow> bool" where
  "utf8_valid [] = True"
| "utf8_valid (b # bs) =
     (if b < 0x80 then utf8_valid bs
      else case bs of [] \<Rightarrow> False | c # cs \<Rightarrow>
        if 0xC2 \<le> b \<and> b \<le> 0xDF then utf8_tail c \<and> utf8_valid cs
        else case cs of [] \<Rightarrow> False | d # ds \<Rightarrow>
          if 0xE0 \<le> b \<and> b \<le> 0xEF then
            utf8_tail c \<and> utf8_tail d \<and> (b = 0xE0 \<longrightarrow> 0xA0 \<le> c) \<and> (b = 0xED \<longrightarrow> c \<le> 0x9F) \<and> utf8_valid ds
          else case ds of [] \<Rightarrow> False | e # es \<Rightarrow>
            0xF0 \<le> b \<and> b \<le> 0xF4 \<and> utf8_tail c \<and> utf8_tail d \<and> utf8_tail e \<and>
            (b = 0xF0 \<longrightarrow> 0x90 \<le> c) \<and> (b = 0xF4 \<longrightarrow> c \<le> 0x8F) \<and> utf8_valid es)"

section \<open>Types, columns and schemas\<close>

datatype column_type = TInt | TVarchar u16 | TByte

record column =
  col_id :: i32
  col_name :: rstring
  col_type :: column_type

record table_schema =
  columns :: "column list"

definition schema_new :: "column list \<Rightarrow> (table_schema, 'e) result" where
  "schema_new cols = (if cols = [] then Inl Panic else Inr \<lparr>columns = cols\<rparr>)"

definition find_index_by_id :: "table_schema \<Rightarrow> i32 \<Rightarrow> nat option" where
  "find_index_by_id schema column_id = position (\<lambda>c. col_id c = column_id) (columns schema)"

definition find_index_by_name :: "table_schema \<Rightarrow> rstring \<Rightarrow> nat option" where
  "find_index_by_name schema column_name = position (\<lambda>c. col_name c = column_name) (columns schema)"

fun type_to_string :: "column_type \<Rightarrow> rstring" where
  "type_to_string TInt = str_bytes ''Int''"
| "type_to_string (TVarchar _) = str_bytes ''Varchar''"
| "type_to_string TByte = str_bytes ''Byte''"

fun is_var_size :: "column_type \<Rightarrow> bool" where
  "is_var_size TInt = False"
| "is_var_size (TVarchar _) = True"
| "is_var_size TByte = False"

fun raw_type :: "column_type \<Rightarrow> column_type" where
  "raw_type TInt = TInt"
| "raw_type (TVarchar _) = TVarchar 0"
| "raw_type TByte = TByte"

section \<open>Cells and rows\<close>

datatype cell = CellInt i32 | CellVarchar rstring | CellByte u8

datatype row = Row (cells: "cell list")

record table =
  table_id :: i32
  table_name :: rstring
  schema :: table_schema

datatype row_validation_error =
    LengthMismatch
  | TypeMismatch rstring rstring rstring
  | VarcharTooLong u16 rstring

datatype cell_deserialization_error = InvalidData

datatype row_deserialization_error = RowCell rstring cell_deserialization_error

datatype cell_error = ExpectedInt

fun expect_int :: "cell \<Rightarrow> (i32, cell_error) result" where
  "expect_int (CellInt v) = Inr v"
| "expect_int _ = Inl (Err ExpectedInt)"

fun column_type_of :: "cell \<Rightarrow> column_type" where
  "column_type_of (CellInt _) = TInt"
| "column_type_of (CellVarchar _) = TVarchar 0"
| "column_type_of (CellByte _) = TByte"

definition is_of_type :: "cell \<Rightarrow> column_type \<Rightarrow> bool" where
  "is_of_type c t \<longleftrightarrow>
     (case c of CellInt _ \<Rightarrow> TInt | CellVarchar _ \<Rightarrow> TVarchar 0 | CellByte _ \<Rightarrow> TByte) = raw_type t"

fun cell_serialize :: "cell \<Rightarrow> byte list" where
  "cell_serialize (CellInt i) = i32_to_be i"
| "cell_serialize (CellVarchar s) = u16_to_be (usize_as_u16 (length s)) @ s"
| "cell_serialize (CellByte b) = [b]"

definition cell_deserialize ::
  "byte list \<Rightarrow> column \<Rightarrow> (cell \<times> nat, cell_deserialization_error) result" where
  "cell_deserialize dat col =
     (case col_type col of
        TInt \<Rightarrow>
          if length dat < 4 then Inl (Err InvalidData)
          else and_then (slice dat 0 4) (\<lambda>int_bytes. Inr (CellInt (i32_from_be int_bytes), 4))
      | TVarchar len \<Rightarrow>
          if length dat < 2 then Inl (Err InvalidData)
          else and_then (slice dat 0 2) (\<lambda>len_bytes.
            let str_len = unat (u16_from_be len_bytes) in
            if length dat < 2 + str_len then Inl (Err InvalidData)
            else if unat len < str_len then Inl (Err InvalidData)
            else and_then (slice dat 2 (2 + str_len)) (\<lambda>str_bytes.
              if utf8_valid str_bytes then Inr (CellVarchar str_bytes, 2 + str_len)
              else Inl (Err InvalidData)))
      | TByte \<Rightarrow>
          (case dat of [] \<Rightarrow> Inl (Err InvalidData) | b # _ \<Rightarrow> Inr (CellByte b, 1)))"

fun cells_serialize :: "cell list \<Rightarrow> byte list" where
  "cells_serialize [] = []"
| "cells_serialize (c # cs) = cell_serialize c @ cells_serialize cs"

definition row_serialize :: "row \<Rightarrow> byte list" where
  "row_serialize r = cells_serialize (cells r)"

fun cells_deserialize ::
  "byte list \<Rightarrow> column list \<Rightarrow> nat \<Rightarrow> (cell list, row_deserialization_error) result" where
  "cells_deserialize row_data [] offset = Inr []"
| "cells_deserialize row_data (col # cols) offset =
     and_then (slice row_data offset (length row_data)) (\<lambda>rest.
     and_then (map_err (RowCell (col_name col)) (cell_deserialize rest col)) (\<lambda>(cell, bytes_read).
     and_then (cells_deserialize row_data cols (offset + bytes_read)) (\<lambda>cs.
     Inr (cell # cs))))"

definition row_deserialize ::
  "byte list \<Rightarrow> table_schema \<Rightarrow> (row, row_deserialization_error) result" where
  "row_deserialize row_data s = map_err id (and_then (cells_deserialize row_data (columns s) 0) (\<lambda>cs. Inr (Row cs)))"

text \<open>The loop of \<open>validate\<close> over the zipped cells and columns.\<close>

fun validate_cells :: "(cell \<times> column) list \<Rightarrow> (unit, row_validation_error) result" where
  "validate_cells [] = Inr ()"
| "validate_cells ((c, col) # rest) =
     (case (c, col_type col) of
        (CellInt _, TInt) \<Rightarrow> validate_cells rest
      | (CellVarchar input, TVarchar max_len) \<Rightarrow>
          if unat max_len < length input then Inl (Err (VarcharTooLong max_len (col_name col)))
          else validate_cells rest
      | (CellByte _, TByte) \<Rightarrow> validate_cells rest
      | _ \<Rightarrow> Inl (Err (TypeMismatch (col_name col) (type_to_string (col_type col))
                        (type_to_string (column_type_of c)))))"

definition row_validate :: "row \<Rightarrow> table_schema \<Rightarrow> (unit, row_validation_error) result" where
  "row_validate r s =
     (if length (cells r) \<noteq> length (columns s) then Inl (Err LengthMismatch)
      else validate_cells (zip (cells r) (columns s)))"

definition validate_row :: "table \<Rightarrow> row \<Rightarrow> (unit, row_validation_error) result" where
  "validate_row t r = row_validate r (schema t)"

section \<open>What validation accepts\<close>

text \<open>A cell fits a column: the specification of \<open>validate\<close>, one cell at a time.\<close>

fun cell_fits :: "cell \<Rightarrow> column_type \<Rightarrow> bool" where
  "cell_fits (CellInt _) TInt = True"
| "cell_fits (CellVarchar s) (TVarchar n) = (length s \<le> unat n)"
| "cell_fits (CellByte _) TByte = True"
| "cell_fits _ _ = False"

text \<open>The invariant of Rust's \<open>String\<close>.\<close>

fun cell_strings_ok :: "cell \<Rightarrow> bool" where
  "cell_strings_ok (CellVarchar s) = utf8_valid s"
| "cell_strings_ok _ = True"

definition row_strings_ok :: "row \<Rightarrow> bool" where
  "row_strings_ok r \<longleftrightarrow> list_all cell_strings_ok (cells r)"

definition row_fits :: "row \<Rightarrow> table_schema \<Rightarrow> bool" where
  "row_fits r s \<longleftrightarrow> list_all2 (\<lambda>c col. cell_fits c (col_type col)) (cells r) (columns s)"

lemma validate_cells_iff:
  "validate_cells xs = Inr () \<longleftrightarrow> (\<forall>(c, col) \<in> set xs. cell_fits c (col_type col))"
  by (induction xs rule: validate_cells.induct)
    (auto split: cell.splits column_type.splits prod.splits)

lemma row_validate_iff: "row_validate r s = Inr () \<longleftrightarrow> row_fits r s"
  by (auto simp: row_validate_def row_fits_def validate_cells_iff list_all2_iff)

lemma cell_serialize_nonempty: "cell_serialize c \<noteq> []"
proof -
  have "0 < length (cell_serialize c)"
    by (cases c) simp_all
  then show ?thesis by auto
qed

lemma cell_deserialize_serialize:
  assumes "cell_fits c (col_type col)" and "cell_strings_ok c"
  shows "cell_deserialize (cell_serialize c @ rest) col = Inr (c, length (cell_serialize c))"
proof (cases c)
  case (CellVarchar s)
  with assms obtain n where n: "col_type col = TVarchar n" "length s \<le> unat n"
    by (cases "col_type col") auto
  moreover have "unat n < 2 ^ 16"
    using unat_lt_2p [of n] by simp
  ultimately have "unat (usize_as_u16 (length s)) = length s"
    by simp
  then show ?thesis
    using assms CellVarchar n by (simp add: cell_deserialize_def)
qed (use assms in \<open>cases "col_type col"; simp add: cell_deserialize_def\<close>)+

lemma cells_deserialize_serialize:
  assumes "list_all2 (\<lambda>c col. cell_fits c (col_type col)) cs cols" and "list_all cell_strings_ok cs"
  shows "cells_deserialize (pre @ cells_serialize cs @ rest) cols (length pre) = Inr cs"
  using assms
proof (induction cs cols arbitrary: pre rule: list_all2_induct)
  case Nil
  then show ?case by simp
next
  case (Cons c cs col cols)
  have "cell_deserialize (cell_serialize c @ cells_serialize cs @ rest) col =
      Inr (c, length (cell_serialize c))"
    using Cons by (intro cell_deserialize_serialize) auto
  moreover have "cells_deserialize ((pre @ cell_serialize c) @ cells_serialize cs @ rest) cols
      (length (pre @ cell_serialize c)) = Inr cs"
    using Cons.prems by (intro Cons.IH) simp
  ultimately show ?case
    by simp
qed

lemma cell_deserialize_sound:
  assumes "cell_deserialize dat col = Inr (c, n)"
  shows "cell_fits c (col_type col) \<and> cell_strings_ok c \<and> n \<le> length dat \<and>
    cell_serialize c = take n dat"
proof (cases "col_type col")
  case TInt
  then show ?thesis
    using assms i32_to_from_be [of "take 4 dat"] by (auto simp: cell_deserialize_def split: if_splits)
next
  case (TVarchar len)
  let ?n = "unat (u16_from_be (take 2 dat))"
  have *: "2 + ?n \<le> length dat" "?n \<le> unat len" "utf8_valid (take ?n (drop 2 dat))"
      "c = CellVarchar (take ?n (drop 2 dat))" "n = 2 + ?n"
    using assms TVarchar by (auto simp: cell_deserialize_def Let_def split: if_splits)
  have "usize_as_u16 ?n = u16_from_be (take 2 dat)"
    by (simp add: usize_as_u16_def)
  moreover have "u16_to_be (u16_from_be (take 2 dat)) = take 2 dat"
    using *(1) by (intro u16_to_from_be) simp
  moreover have "take (2 + ?n) dat = take 2 dat @ take ?n (drop 2 dat)"
    by (rule take_add)
  moreover have "length (take ?n (drop 2 dat)) = ?n"
    using *(1) by simp
  ultimately show ?thesis
    using * TVarchar by (metis cell_fits.simps(2) cell_serialize.simps(2) cell_strings_ok.simps(1))
next
  case TByte
  then show ?thesis
    using assms by (auto simp: cell_deserialize_def split: list.splits)
qed

lemma cells_deserialize_sound:
  assumes "cells_deserialize dat cols off = Inr cs" and "off \<le> length dat"
  shows "list_all2 (\<lambda>c col. cell_fits c (col_type col)) cs cols \<and> list_all cell_strings_ok cs \<and>
    (\<exists>rest. drop off dat = cells_serialize cs @ rest)"
  using assms
proof (induction cols arbitrary: off cs)
  case Nil
  then show ?case by simp
next
  case (Cons col cols)
  from Cons.prems obtain c n cs' where
    c: "cell_deserialize (drop off dat) col = Inr (c, n)" and
    cs': "cells_deserialize dat cols (off + n) = Inr cs'" and cs: "cs = c # cs'"
    by (auto simp: and_then_Inr_iff)
  note sound = cell_deserialize_sound [OF c]
  then have "n \<le> length dat - off"
    by simp
  then have "off + n \<le> length dat"
    using Cons.prems(2) by arith
  from Cons.IH [OF cs' this] obtain rest where
    IH: "list_all2 (\<lambda>c col. cell_fits c (col_type col)) cs' cols" "list_all cell_strings_ok cs'"
      "drop (off + n) dat = cells_serialize cs' @ rest"
    by blast
  have "drop off dat = take n (drop off dat) @ drop (off + n) dat"
    by (metis append_take_drop_id drop_drop add.commute)
  then show ?case
    using IH sound cs by auto
qed

lemma row_deserialize_serialize:
  assumes "row_fits r s" and "row_strings_ok r"
  shows "row_deserialize (row_serialize r) s = Inr r"
  using cells_deserialize_serialize [of "cells r" "columns s" "[]" "[]"] assms
  by (simp add: row_fits_def row_strings_ok_def row_deserialize_def row_serialize_def)

lemma row_deserialize_fits:
  assumes "row_deserialize dat s = Inr r"
  shows "row_fits r s" and "row_strings_ok r"
proof -
  have "cells_deserialize dat (columns s) 0 = Inr (cells r)"
    using assms by (auto simp: row_deserialize_def and_then_Inr_iff)
  from cells_deserialize_sound [OF this] show "row_fits r s" and "row_strings_ok r"
    by (simp_all add: row_fits_def row_strings_ok_def)
qed

text \<open>The error reported for a cell that does not fit its column.\<close>

definition unfit_error :: "cell \<Rightarrow> column \<Rightarrow> row_validation_error" where
  "unfit_error c col =
     (case col_type col of
        TVarchar n \<Rightarrow>
          if column_type_of c = TVarchar 0 then VarcharTooLong n (col_name col)
          else TypeMismatch (col_name col) (str_bytes ''Varchar'') (type_to_string (column_type_of c))
      | t \<Rightarrow> TypeMismatch (col_name col) (type_to_string t) (type_to_string (column_type_of c)))"

lemma validate_cells_Cons:
  "validate_cells ((c, col) # xs) =
     (if cell_fits c (col_type col) then validate_cells xs else Inl (Err (unfit_error c col)))"
  by (cases c; cases "col_type col") (simp_all add: unfit_error_def)

lemma validate_cells_first:
  "validate_cells xs =
    (case position (\<lambda>(c, col). \<not> cell_fits c (col_type col)) xs of
       None \<Rightarrow> Inr ()
     | Some i \<Rightarrow> Inl (Err (unfit_error (fst (xs ! i)) (snd (xs ! i)))))"
proof (induction xs)
  case (Cons x xs)
  obtain c col where x: "x = (c, col)" by (cases x)
  show ?case
    unfolding x validate_cells_Cons using Cons by (auto split: option.split)
qed simp

section \<open>Properties\<close>

text \<open>
  C35. Serializing a row that validates against its schema and reading the bytes back, whatever
  follows them, gives the same row.
\<close>

theorem row_roundtrip:
  assumes "row_validate r s = Inr ()" and "row_strings_ok r"
  shows "row_deserialize (row_serialize r @ rest) s = Inr r"
  using cells_deserialize_serialize [of "cells r" "columns s" "[]" rest] assms
  by (simp add: row_validate_iff row_fits_def row_strings_ok_def row_deserialize_def row_serialize_def)

definition users_schema :: table_schema where
  "users_schema = \<lparr>columns =
     [\<lparr>col_id = i32_of_int 5, col_name = str_bytes ''id'', col_type = TInt\<rparr>,
      \<lparr>col_id = i32_of_int 6, col_name = str_bytes ''name'', col_type = TVarchar 8\<rparr>]\<rparr>"

definition user_row :: row where
  "user_row = Row [CellInt (i32_of_int 7), CellVarchar (str_bytes ''Ada'')]"

lemma user_row_ok: "row_validate user_row users_schema = Inr ()" "row_strings_ok user_row"
  by code_simp+

theorem row_roundtrip_witness:
  "row_deserialize (row_serialize user_row @ [1, 2]) users_schema = Inr user_row"
  using row_roundtrip [OF user_row_ok] .

text \<open>
  C36. Reading a row never panics, and a row that is read has as many cells as the schema has
  columns, validates against it, holds valid strings only, and its serialization is the prefix
  of the bytes it was read from.
\<close>

theorem row_deserialize_sound:
  "case row_deserialize dat s of
     Inr r \<Rightarrow> row_validate r s = Inr () \<and> row_strings_ok r \<and> (\<exists>rest. dat = row_serialize r @ rest)
   | Inl e \<Rightarrow> e \<noteq> Panic"
proof (cases "row_deserialize dat s")
  case (Inr r)
  then have "cells_deserialize dat (columns s) 0 = Inr (cells r)"
    by (auto simp: row_deserialize_def and_then_Inr_iff)
  from cells_deserialize_sound [OF this] Inr show ?thesis
    by (auto simp: row_validate_iff row_fits_def row_strings_ok_def row_serialize_def)
next
  case (Inl e)
  have "cells_deserialize dat cols off \<noteq> Inl Panic" if "off \<le> length dat" for cols off
    using that
  proof (induction cols arbitrary: off)
    case (Cons col cols)
    show ?case
    proof (cases "cell_deserialize (drop off dat) col")
      case (Inl f)
      then have "f = Err InvalidData"
        by (auto simp: cell_deserialize_def Let_def split: column_type.splits if_splits list.splits)
      then show ?thesis using Inl Cons.prems by simp
    next
      case (Inr x)
      obtain c n where x: "x = (c, n)" by (cases x)
      have "n \<le> length dat - off"
        using cell_deserialize_sound [of "drop off dat" col c n] Inr x by simp
      then have "off + n \<le> length dat"
        using Cons.prems by arith
      then show ?thesis
        using Cons.IH [of "off + n"] Inr x Cons.prems
        by (cases "cells_deserialize dat cols (off + n)") auto
    qed
  qed simp
  from this [of 0] Inl show ?thesis
    by (auto simp: row_deserialize_def map_err_def and_then_def split: sum.splits fault.splits)
qed

text \<open>
  A row is accepted exactly when it has one cell per column and every cell has its column's
  type, a string being at most as long as its column allows; the error of a row of the right
  length is that of its first unfit cell.
\<close>

theorem row_validate_spec:
  "row_validate r s =
     (if length (cells r) \<noteq> length (columns s) then Inl (Err LengthMismatch)
      else case position (\<lambda>(c, col). \<not> cell_fits c (col_type col)) (zip (cells r) (columns s)) of
        None \<Rightarrow> Inr ()
      | Some i \<Rightarrow> Inl (Err (unfit_error (cells r ! i) (columns s ! i))))"
proof (cases "length (cells r) = length (columns s)")
  case True
  then show ?thesis
    by (auto simp: row_validate_def validate_cells_first split: option.split
        dest: position_Some [THEN iffD1])
qed (simp add: row_validate_def)

end
