(* ===== verification/Freespace_Tree.thy ===== *)
theory Freespace_Tree
  imports Page
begin

text \<open>
  \<open>src/src/freespace/binary_tree.rs\<close>: the max-heap of one free space page. The array is the
  payload of the page's single row; its first \<open>non_leaf_nodes\<close> bytes are internal nodes, the
  rest are the leaves, the categories of the slots. The tree is cut off at the end of the page,
  so the last internal nodes have one child or none. \<open>tree_wf\<close> is the heap invariant;
  \<open>leaves\<close> is the abstract view, the categories by slot, over which the search is
  \<open>position\<close> and the update is \<open>list_update\<close>.
\<close>

section \<open>The tree and its operations\<close>

record binary_tree =
  arr :: "u8 list"
  non_leaf_nodes :: nat
  leaf_nodes :: nat

record node_structure =
  ns_leaf_nodes :: nat
  ns_non_leaf_nodes :: nat
  ns_nodes :: nat

record fsm_slot =
  slot_index :: nat
  available_space :: u8

definition left_child :: "nat \<Rightarrow> nat" where
  "left_child x = 2 * x + 1"

definition right_child :: "nat \<Rightarrow> nat" where
  "right_child x = 2 * x + 2"

text \<open>\<open>parent\<close> of the root underflows; \<open>bubble_up\<close> has that branch.\<close>

definition parent_node :: "nat \<Rightarrow> nat" where
  "parent_node x = (x - 1) div 2"

definition node_structure :: "page_data_layout \<Rightarrow> (node_structure, 'e) result" where
  "node_structure l =
     (if page_size l < 64 then Inl Panic
      else and_then (usize_sub (page_data_size l) SLOT_SIZE) (\<lambda>nodes.
           and_then (usize_sub (page_size l div 2) 1) (\<lambda>non_leaf.
           and_then (usize_sub nodes non_leaf) (\<lambda>leaf.
           Inr \<lparr>ns_leaf_nodes = leaf, ns_non_leaf_nodes = non_leaf, ns_nodes = nodes\<rparr>))))"

definition tree_new :: "page_data_layout \<Rightarrow> (binary_tree, 'e) result" where
  "tree_new l = and_then (node_structure l) (\<lambda>ns.
     Inr \<lparr>arr = replicate (ns_nodes ns) 0, non_leaf_nodes = ns_non_leaf_nodes ns,
          leaf_nodes = ns_leaf_nodes ns\<rparr>)"

definition tree_deserialize :: "byte list \<Rightarrow> page_data_layout \<Rightarrow> (binary_tree, 'e) result" where
  "tree_deserialize bytes l = and_then (tree_new l) (\<lambda>tree.
     if length (arr tree) \<noteq> length bytes then Inl Panic else Inr (tree\<lparr>arr := bytes\<rparr>))"

definition tree_serialize :: "binary_tree \<Rightarrow> byte list" where
  "tree_serialize t = arr t"

definition is_leaf_node :: "binary_tree \<Rightarrow> nat \<Rightarrow> bool" where
  "is_leaf_node t index = (non_leaf_nodes t \<le> index)"

text \<open>The descent of \<open>find_available\<close>: the index of the leaf it ends in.\<close>

function descend :: "binary_tree \<Rightarrow> u8 \<Rightarrow> nat \<Rightarrow> (nat option, 'e) result" where
  "descend t min_space current =
     (if is_leaf_node t current then Inr (Some current)
      else
        let left_index = left_child current;
            right_index = left_index + 1 in
        and_then (index_get (arr t) left_index) (\<lambda>left_value.
        let right_value = if right_index < length (arr t) then arr t ! right_index else 0 in
        if min_space \<le> left_value then descend t min_space left_index
        else if min_space \<le> right_value then descend t min_space right_index
        else Inr None))"
  by auto
termination
  by (relation "measure (\<lambda>(t, _, c). non_leaf_nodes t - c)") (auto simp: is_leaf_node_def left_child_def)

declare descend.simps [simp del]

definition find_available :: "binary_tree \<Rightarrow> u8 \<Rightarrow> (fsm_slot option, 'e) result" where
  "find_available t min_space =
     and_then (index_get (arr t) 0) (\<lambda>root.
     if root < min_space then Inr None
     else and_then (descend t min_space 0) (\<lambda>r.
       case r of None \<Rightarrow> Inr None
       | Some current \<Rightarrow>
           and_then (usize_sub current (non_leaf_nodes t)) (\<lambda>slot.
           and_then (index_get (arr t) slot) (\<lambda>space.
           Inr (Some \<lparr>slot_index = slot, available_space = space\<rparr>)))))"

text \<open>The loop of \<open>set_available_space\<close>: from a changed node up to the root.\<close>

function bubble_up :: "byte list \<Rightarrow> nat \<Rightarrow> (byte list, 'e) result" where
  "bubble_up a n =
     (if n = 0 then Inl Panic
      else
        let node = parent_node n;
            left_index = left_child node;
            right_index = left_index + 1 in
        and_then (index_get a left_index) (\<lambda>left_value.
        let new_value = (if right_index < length a then max left_value (a ! right_index)
                         else left_value) in
        and_then (index_get a node) (\<lambda>old_value.
        if old_value = new_value then Inr a
        else if node = 0 then Inr (a[node := new_value])
        else bubble_up (a[node := new_value]) node)))"
  by auto
termination
  by (relation "measure snd") (auto simp: parent_node_def)

declare bubble_up.simps [simp del]

definition set_available_space ::
  "binary_tree \<Rightarrow> nat \<Rightarrow> u8 \<Rightarrow> (binary_tree, 'e) result" where
  "set_available_space t slot space =
     (if leaf_nodes t \<le> slot then Inl Panic
      else
        let node_number = non_leaf_nodes t + slot in
        if length (arr t) \<le> node_number then Inr t
        else and_then (index_get (arr t) 0) (\<lambda>root.
        if arr t ! node_number = space \<and> space \<le> root then Inr t
        else and_then (bubble_up ((arr t)[node_number := space]) node_number) (\<lambda>a.
          Inr (t\<lparr>arr := a\<rparr>))))"

section \<open>The heap invariant\<close>

definition node_value :: "byte list \<Rightarrow> nat \<Rightarrow> u8" where
  "node_value a i = (if i < length a then a ! i else 0)"

definition heap_at :: "byte list \<Rightarrow> nat \<Rightarrow> bool" where
  "heap_at a i \<longleftrightarrow> node_value a i = max (node_value a (left_child i)) (node_value a (right_child i))"

definition tree_shape :: "page_data_layout \<Rightarrow> binary_tree \<Rightarrow> bool" where
  "tree_shape l t \<longleftrightarrow> length (arr t) = page_size l - 21 \<and> non_leaf_nodes t = page_size l div 2 - 1 \<and>
     leaf_nodes t = page_size l - 21 - (page_size l div 2 - 1)"

definition tree_wf :: "page_data_layout \<Rightarrow> binary_tree \<Rightarrow> bool" where
  "tree_wf l t \<longleftrightarrow> layout_ok l \<and> 64 \<le> page_size l \<and> tree_shape l t \<and>
     list_all (heap_at (arr t)) [0..<non_leaf_nodes t]"

definition leaves :: "binary_tree \<Rightarrow> u8 list" where
  "leaves t = drop (non_leaf_nodes t) (arr t)"

lemma word_max_le_iff: "max a b \<le> (c :: u8) \<longleftrightarrow> a \<le> c \<and> b \<le> c"
  by (rule max.bounded_iff)

lemma layout_64_cases:
  assumes "layout_ok l" and "64 \<le> page_size l"
  obtains k where "6 \<le> k" "k \<le> 15" "page_size l = 2 ^ k"
proof -
  from assms(1) obtain k where k: "5 \<le> k" "k \<le> 15" "page_size l = 2 ^ k"
    by (auto simp: layout_ok_iff)
  have "(2 :: nat) ^ 6 \<le> 2 ^ k"
    using assms(2) k(3) by simp
  then have "6 \<le> k"
    by (rule power_le_imp_le_exp [rotated]) simp
  with k show thesis by (auto intro: that)
qed

lemma node_structure_ok [simp]:
  assumes "64 \<le> page_size l"
  shows "node_structure l =
    Inr \<lparr>ns_leaf_nodes = page_size l - 21 - (page_size l div 2 - 1),
         ns_non_leaf_nodes = page_size l div 2 - 1, ns_nodes = page_size l - 21\<rparr>"
proof -
  have "page_size l div 2 - 1 \<le> page_size l - 21" using assms by arith
  then show ?thesis
    using assms by (simp add: node_structure_def page_data_size_def layout_consts)
qed

lemma heap_at_list_update_other:
  assumes "j \<noteq> i" and "j \<noteq> left_child i" and "j \<noteq> right_child i"
  shows "heap_at (a[j := v]) i = heap_at a i"
  using assms by (simp add: heap_at_def node_value_def)

lemma heap_at_iff:
  "heap_at a i \<longleftrightarrow> (i < length a \<longrightarrow> a ! i = max (node_value a (left_child i)) (node_value a (right_child i)))"
  by (auto simp: heap_at_def node_value_def left_child_def right_child_def)

lemma child_iff: "0 < n \<Longrightarrow> n = left_child i \<or> n = right_child i \<longleftrightarrow> i = parent_node n"
  unfolding left_child_def right_child_def parent_node_def by arith

lemma bubble_up_spec:
  assumes "n < length a" and "0 < n" and "length a \<le> 2 * m + 1"
    and "\<And>i. i < m \<Longrightarrow> i \<noteq> parent_node n \<Longrightarrow> heap_at a i"
  shows "\<exists>b. bubble_up a n = (Inr b :: (byte list, 'e) result) \<and> length b = length a \<and> (\<forall>i < m. heap_at b i) \<and> drop m b = drop m a"
  using assms
proof (induction n arbitrary: a rule: less_induct)
  case (less n)
  define p where "p = parent_node n"
  define v where "v = max (node_value a (left_child p)) (node_value a (right_child p))"
  have p: "p < n" "p < m" "left_child p \<le> n"
    using less.prems(1-3) unfolding p_def parent_node_def left_child_def by arith+
  have len: "left_child p < length a" "p < length a"
    using p less.prems(1) by simp_all
  have new: "(if left_child p + 1 < length a then max (a ! left_child p) (a ! (left_child p + 1))
      else a ! left_child p) = v"
    using len by (simp add: v_def node_value_def left_child_def right_child_def)
  have step: "(bubble_up a n :: (byte list, 'e) result) = (if a ! p = v then Inr a else if p = 0 then Inr (a[p := v])
      else bubble_up (a[p := v]) p)"
    unfolding bubble_up.simps [of a n] p_def [symmetric] Let_def index_get_ok [OF len(1)]
      index_get_ok [OF len(2)] and_then_simps new
    using less.prems(2) by (auto simp del: max_less_iff_conj)
  show ?case
  proof (cases "a ! p = v")
    case True
    then have "heap_at a p"
      using len by (simp add: heap_at_iff v_def)
    then show ?thesis
      using step True less.prems(4) p_def by auto
  next
    case False
    let ?a = "a[p := v]"
    have at_p: "heap_at ?a p"
      using len by (simp add: heap_at_iff v_def node_value_def left_child_def right_child_def)
    have other: "heap_at ?a i" if "i < m" "p = 0 \<or> i \<noteq> parent_node p" for i
    proof (cases "i = p")
      case False
      have "p \<noteq> left_child i \<and> p \<noteq> right_child i"
      proof (cases "p = 0")
        case True
        then show ?thesis by (simp add: left_child_def right_child_def)
      next
        case False
        then show ?thesis using that(2) child_iff [of p i] by auto
      qed
      then show ?thesis
        using less.prems(4) [of i] that False by (simp add: heap_at_list_update_other p_def)
    qed (use at_p in simp)
    show ?thesis
    proof (cases "p = 0")
      case True
      then show ?thesis
        using step False other p(2) by auto
    next
      case nonzero: False
      have "\<exists>b. bubble_up ?a p = (Inr b :: (byte list, 'e) result) \<and> length b = length ?a \<and> (\<forall>i < m. heap_at b i) \<and>
          drop m b = drop m ?a"
        using len less.prems(3) nonzero by (intro less.IH [OF p(1)] other) simp_all
      then show ?thesis
        using step False nonzero p(2) by simp
    qed
  qed
qed

text \<open>
  A node at depth \<open>d\<close> and position \<open>p\<close> of its level has index
  \<open>2 ^ d + p - 1\<close>; with \<open>e\<close> levels below it, its slots are those from
  \<open>p * 2 ^ e\<close> to \<open>(p + 1) * 2 ^ e - 1\<close>.
\<close>

lemma subtree_bound:
  assumes "\<And>i. i < m \<Longrightarrow> heap_at a i" and "m + 1 = 2 ^ (d + e)" and "i + 1 = 2 ^ d + p" and "p < 2 ^ d"
    and "p * 2 ^ e \<le> s" and "s < (p + 1) * 2 ^ e"
  shows "node_value a (m + s) \<le> node_value a i"
  using assms(2-)
proof (induction e arbitrary: d p i)
  case 0
  then have "m + s = i" by simp
  then show ?case by simp
next
  case (Suc e)
  have "(2 :: nat) ^ d \<le> 2 ^ (d + e)"
    by (rule power_increasing) simp_all
  moreover have "m + 1 = 2 * 2 ^ (d + e)"
    using Suc.prems(1) by simp
  ultimately have "i < m"
    using Suc.prems(2,3) by linarith
  then have heap: "node_value a i = max (node_value a (left_child i)) (node_value a (right_child i))"
    using assms(1) by (simp add: heap_at_def)
  show ?case
  proof (cases "s < (2 * p + 1) * 2 ^ e")
    case True
    have "node_value a (m + s) \<le> node_value a (left_child i)"
      using Suc.prems True by (intro Suc.IH [where d = "Suc d" and p = "2 * p"]) (simp_all add: left_child_def algebra_simps)
    then show ?thesis using heap by (simp add: le_max_iff_disj)
  next
    case False
    have "node_value a (m + s) \<le> node_value a (right_child i)"
      using Suc.prems False by (intro Suc.IH [where d = "Suc d" and p = "2 * p + 1"]) (simp_all add: right_child_def algebra_simps)
    then show ?thesis using heap by (simp add: le_max_iff_disj)
  qed
qed

lemma descend_spec:
  assumes "\<And>i. i < m \<Longrightarrow> heap_at (arr t) i" and "non_leaf_nodes t = m" and "m < length (arr t)"
    and "m + 1 = 2 ^ (d + e)" and "i + 1 = 2 ^ d + p" and "p < 2 ^ d"
    and "x \<le> node_value (arr t) i" and "x = 0 \<Longrightarrow> p = 0"
  shows "\<exists>s. descend t x i = (Inr (Some (m + s)) :: (nat option, 'e) result) \<and> m + s < length (arr t) \<and>
    x \<le> arr t ! (m + s) \<and> p * 2 ^ e \<le> s \<and> s < (p + 1) * 2 ^ e \<and>
    (\<forall>j. p * 2 ^ e \<le> j \<and> j < s \<longrightarrow> node_value (arr t) (m + j) < x)"
  using assms(4-)
proof (induction e arbitrary: d p i)
  case 0
  then have i: "i = m + p" by simp
  have "m + p < length (arr t)"
  proof (cases "x = 0")
    case True
    then show ?thesis using 0 assms(3) by simp
  next
    case False
    then show ?thesis using 0 i by (simp add: node_value_def split: if_splits)
  qed
  then show ?case
    using 0 i assms(2)
    by (intro exI [of _ p]) (auto simp: descend.simps is_leaf_node_def node_value_def)
next
  case (Suc e)
  let ?l = "left_child i" and ?r = "right_child i" and ?a = "arr t"
  have le: "(2 :: nat) ^ d \<le> 2 ^ (d + e)"
    by (rule power_increasing) simp_all
  moreover have m: "m + 1 = 2 * 2 ^ (d + e)"
    using Suc.prems(1) by simp
  ultimately have im: "i < m"
    using Suc.prems(2,3) by linarith
  then have heap: "node_value ?a i = max (node_value ?a ?l) (node_value ?a ?r)"
    using assms(1) by (simp add: heap_at_def)
  have l: "?l < length ?a"
  proof (cases "x = 0")
    case True
    then have "p = 0" by (rule Suc.prems(5))
    then have "?l \<le> m"
      using Suc.prems(2) m le unfolding left_child_def by linarith
    then show ?thesis using assms(3) by simp
  next
    case False
    then have "node_value ?a ?l \<noteq> 0 \<or> node_value ?a ?r \<noteq> 0"
      using heap Suc.prems(4) by (auto simp: max_def split: if_splits)
    then show ?thesis
      by (auto simp: node_value_def left_child_def right_child_def split: if_splits)
  qed
  have step: "(descend t x i :: (nat option, 'e) result) = (if x \<le> node_value ?a ?l then descend t x ?l
     else if x \<le> node_value ?a ?r then descend t x ?r else Inr None)"
    using im l assms(2)
    by (subst descend.simps) (simp add: is_leaf_node_def Let_def node_value_def left_child_def right_child_def)
  show ?case
  proof (cases "x \<le> node_value ?a ?l")
    case True
    have "\<exists>s. descend t x ?l = (Inr (Some (m + s)) :: (nat option, 'e) result) \<and> m + s < length ?a \<and>
      x \<le> ?a ! (m + s) \<and> 2 * p * 2 ^ e \<le> s \<and> s < (2 * p + 1) * 2 ^ e \<and>
      (\<forall>j. 2 * p * 2 ^ e \<le> j \<and> j < s \<longrightarrow> node_value ?a (m + j) < x)"
      using Suc.prems True by (intro Suc.IH [where d = "Suc d"]) (simp_all add: left_child_def)
    then obtain s where s: "descend t x ?l = (Inr (Some (m + s)) :: (nat option, 'e) result)"
      "m + s < length ?a" "x \<le> ?a ! (m + s)" "2 * p * 2 ^ e \<le> s" "s < (2 * p + 1) * 2 ^ e"
      "\<forall>j. 2 * p * 2 ^ e \<le> j \<and> j < s \<longrightarrow> node_value ?a (m + j) < x"
      by blast
    show ?thesis
      using s step True by (intro exI [of _ s]) (simp add: algebra_simps)
  next
    case False
    then have x: "x \<noteq> 0" by auto
    have r: "x \<le> node_value ?a ?r"
      using heap Suc.prems(4) False by (auto simp: max_def split: if_splits)
    have "\<exists>s. descend t x ?r = (Inr (Some (m + s)) :: (nat option, 'e) result) \<and> m + s < length ?a \<and>
      x \<le> ?a ! (m + s) \<and> (2 * p + 1) * 2 ^ e \<le> s \<and> s < (2 * p + 1 + 1) * 2 ^ e \<and>
      (\<forall>j. (2 * p + 1) * 2 ^ e \<le> j \<and> j < s \<longrightarrow> node_value ?a (m + j) < x)"
      using Suc.prems r x by (intro Suc.IH [where d = "Suc d"]) (simp_all add: right_child_def)
    then obtain s where s: "descend t x ?r = (Inr (Some (m + s)) :: (nat option, 'e) result)"
      "m + s < length ?a" "x \<le> ?a ! (m + s)" "(2 * p + 1) * 2 ^ e \<le> s" "s < (2 * p + 1 + 1) * 2 ^ e"
      "\<forall>j. (2 * p + 1) * 2 ^ e \<le> j \<and> j < s \<longrightarrow> node_value ?a (m + j) < x"
      by blast
    have left: "node_value ?a (m + j) < x" if "2 * p * 2 ^ e \<le> j" "j < (2 * p + 1) * 2 ^ e" for j
    proof -
      have "node_value ?a (m + j) \<le> node_value ?a ?l"
        using Suc.prems that assms(1)
        by (intro subtree_bound [where d = "Suc d" and p = "2 * p" and e = e]) (simp_all add: left_child_def)
      then show ?thesis using False by simp
    qed
    have "node_value ?a (m + j) < x" if "p * 2 ^ Suc e \<le> j" "j < s" for j
      using left [of j] s(6) that by (cases "j < (2 * p + 1) * 2 ^ e") (simp_all add: algebra_simps)
    then show ?thesis
      using s(1-5) step False r by (intro exI [of _ s]) (simp add: algebra_simps)
  qed
qed

lemma tree_wf_root:
  assumes "tree_wf l t"
  obtains k where "non_leaf_nodes t + 1 = 2 ^ (0 + k)" and "non_leaf_nodes t < length (arr t)"
    and "length (leaves t) \<le> 2 ^ k" and "length (arr t) \<le> 2 * non_leaf_nodes t + 1"
    and "length (leaves t) = leaf_nodes t" and "0 < leaf_nodes t" and "0 < non_leaf_nodes t"
proof -
  from assms obtain k where k: "6 \<le> k" "page_size l = 2 ^ k"
    by (auto simp: tree_wf_def elim: layout_64_cases)
  then obtain j where j: "k = Suc j" by (cases k) auto
  have "(2 :: nat) ^ 5 \<le> 2 ^ j"
    using k(1) j by (intro power_increasing) simp_all
  then have n: "page_size l = 2 * 2 ^ j" "32 \<le> (2 :: nat) ^ j"
    using k j by simp_all
  show thesis
    using assms n by (intro that [of j]) (auto simp: tree_wf_def tree_shape_def leaves_def)
qed

lemma heap_list_all: "list_all (heap_at a) [0..<m] \<longleftrightarrow> (\<forall>i < m. heap_at a i)"
  by (auto simp: list_all_iff)

section \<open>What the tree promises its client\<close>

text \<open>
  The free space map sees a page of it as a list of categories, one per slot: \<open>set\<close>
  updates one of them, \<open>find\<close> returns the first slot of at least the wanted category.
\<close>

locale category_index =
  fixes wf :: "'t \<Rightarrow> bool"
    and view :: "'t \<Rightarrow> u8 list"
    and set_cat :: "'t \<Rightarrow> nat \<Rightarrow> u8 \<Rightarrow> 't option"
    and find_cat :: "'t \<Rightarrow> u8 \<Rightarrow> nat option"
  assumes set_ok: "wf t \<Longrightarrow> i < length (view t) \<Longrightarrow>
      \<exists>u. set_cat t i c = Some u \<and> wf u \<and> view u = (view t)[i := c]"
    and find_first: "wf t \<Longrightarrow> find_cat t c = position (\<lambda>v. c \<le> v) (view t)"
begin

lemma find_after_set:
  assumes "wf t" and "set_cat t i c = Some u" and "i < length (view t)" and "d \<le> c"
  obtains j where "find_cat u d = Some j" and "j \<le> i"
proof -
  from set_ok [OF assms(1,3), of c] assms(2) have u: "wf u" "view u = (view t)[i := c]"
    by auto
  then have i: "d \<le> view u ! i" "i < length (view u)" using assms by simp_all
  then obtain j where j: "position (\<lambda>v. d \<le> v) (view u) = Some j"
    by (metis nth_mem option.exhaust position_None)
  then have "j \<le> i"
    using i by (auto simp: position_Some not_less [symmetric])
  with j u show thesis by (auto simp: find_first intro: that)
qed

lemma find_sound:
  "wf t \<Longrightarrow> find_cat t c = Some i \<Longrightarrow> i < length (view t) \<and> c \<le> view t ! i"
  by (simp add: find_first position_Some)

lemma find_complete:
  "wf t \<Longrightarrow> find_cat t c = None \<longleftrightarrow> (\<forall>v \<in> set (view t). v < c)"
  by (simp add: find_first position_None not_le)

end

text \<open>The tree's operations in the shape of the interface.\<close>

definition tree_set_opt :: "binary_tree \<Rightarrow> nat \<Rightarrow> u8 \<Rightarrow> binary_tree option" where
  "tree_set_opt t i c =
     (case (set_available_space t i c :: (binary_tree, unit) result) of Inr u \<Rightarrow> Some u | Inl _ \<Rightarrow> None)"

definition tree_find_opt :: "binary_tree \<Rightarrow> u8 \<Rightarrow> nat option" where
  "tree_find_opt t c =
     (case (find_available t c :: (fsm_slot option, unit) result) of
        Inr (Some s) \<Rightarrow> Some (slot_index s) | _ \<Rightarrow> None)"

lemma leaf_le_root:
  assumes "tree_wf l t" and "i < length (leaves t)"
  shows "leaves t ! i \<le> arr t ! 0"
proof -
  from assms(1) obtain k where k: "non_leaf_nodes t + 1 = 2 ^ (0 + k)" "non_leaf_nodes t < length (arr t)"
    "length (leaves t) \<le> 2 ^ k"
    by (rule tree_wf_root)
  have "node_value (arr t) (non_leaf_nodes t + i) \<le> node_value (arr t) 0"
    using assms k by (intro subtree_bound [where d = 0 and e = k and p = 0])
      (auto simp: tree_wf_def heap_list_all)
  moreover have "arr t \<noteq> []" and "non_leaf_nodes t + i < length (arr t)"
    using assms(2) k(2) by (auto simp: leaves_def)
  ultimately show ?thesis
    by (simp add: leaves_def node_value_def)
qed

lemma set_available_space_ok:
  assumes "tree_wf l t" and "slot < leaf_nodes t"
  shows "\<exists>u. set_available_space t slot v = (Inr u :: (binary_tree, 'e) result) \<and> tree_wf l u \<and>
    leaves u = (leaves t)[slot := v] \<and> leaf_nodes u = leaf_nodes t"
proof -
  from assms(1) obtain k where k: "non_leaf_nodes t + 1 = 2 ^ (0 + k)" "non_leaf_nodes t < length (arr t)"
    "length (arr t) \<le> 2 * non_leaf_nodes t + 1" "length (leaves t) = leaf_nodes t" "0 < non_leaf_nodes t"
    by (rule tree_wf_root)
  let ?n = "non_leaf_nodes t + slot" and ?m = "non_leaf_nodes t"
  have n: "?n < length (arr t)"
    using k(4) assms(2) by (simp add: leaves_def)
  then have ne: "arr t \<noteq> []" by auto
  have heap: "heap_at (arr t) i" if "i < ?m" for i
    using assms(1) that by (simp add: tree_wf_def heap_list_all)
  show ?thesis
  proof (cases "arr t ! ?n = v \<and> v \<le> arr t ! 0")
    case True
    then have "(leaves t)[slot := v] = leaves t"
      using n by (intro nth_equalityI) (auto simp: leaves_def nth_list_update)
    then show ?thesis
      using True n ne assms by (intro exI [of _ t]) (simp add: set_available_space_def Let_def)
  next
    case False
    let ?a = "(arr t)[?n := v]"
    have "heap_at ?a i" if "i < ?m" "i \<noteq> parent_node ?n" for i
    proof -
      have "?n \<noteq> left_child i \<and> ?n \<noteq> right_child i"
        using child_iff [of ?n i] k(5) that by auto
      then show ?thesis
        using heap [OF that(1)] that by (simp add: heap_at_list_update_other)
    qed
    then obtain b where b: "bubble_up ?a ?n = (Inr b :: (byte list, 'e) result)" "length b = length ?a"
      "\<forall>i < ?m. heap_at b i" "drop ?m b = drop ?m ?a"
      using bubble_up_spec [of ?n ?a ?m, where 'e = 'e] n k(3,5) by auto
    then show ?thesis
      using False n assms ne
      by (intro exI [of _ "t\<lparr>arr := b\<rparr>"])
        (auto simp: set_available_space_def Let_def tree_wf_def tree_shape_def heap_list_all leaves_def
          drop_update_swap)
  qed
qed

lemma find_available_position:
  assumes "tree_wf l t"
  shows "find_available t x = (Inr (map_option (\<lambda>s. \<lparr>slot_index = s, available_space = arr t ! s\<rparr>)
     (position (\<lambda>v. x \<le> v) (leaves t))) :: (fsm_slot option, 'e) result)"
proof -
  from assms obtain k where k: "non_leaf_nodes t + 1 = 2 ^ (0 + k)" "non_leaf_nodes t < length (arr t)"
    "length (leaves t) \<le> 2 ^ k"
    by (rule tree_wf_root)
  have len: "arr t \<noteq> []" using k(2) by auto
  show ?thesis
  proof (cases "arr t ! 0 < x")
    case True
    then have "position (\<lambda>v. x \<le> v) (leaves t) = None"
      using leaf_le_root [OF assms] by (fastforce simp: position_None in_set_conv_nth)
    then show ?thesis
      using True len by (simp add: find_available_def)
  next
    case False
    have heap: "heap_at (arr t) i" if "i < non_leaf_nodes t" for i
      using assms that by (simp add: tree_wf_def heap_list_all)
    have root: "x \<le> node_value (arr t) 0"
      using False len by (simp add: node_value_def)
    obtain s where s: "descend t x 0 = (Inr (Some (non_leaf_nodes t + s)) :: (nat option, 'e) result)"
      "non_leaf_nodes t + s < length (arr t)" "x \<le> arr t ! (non_leaf_nodes t + s)"
      "\<forall>j. j < s \<longrightarrow> node_value (arr t) (non_leaf_nodes t + j) < x"
      using descend_spec [OF heap refl k(2,1), of 0 0 x, where 'e = 'e] root
      by auto
    have "position (\<lambda>v. x \<le> v) (leaves t) = Some s"
      using s(2-4) by (auto simp: position_Some leaves_def node_value_def not_le)
    then show ?thesis
      using s(1,2) False len by (simp add: find_available_def)
  qed
qed

interpretation tix: category_index "tree_wf l" leaves tree_set_opt tree_find_opt for l
proof
  fix t :: binary_tree and i :: nat and c :: u8
  assume "tree_wf l t" and "i < length (leaves t)"
  then have "tree_wf l t" and "i < leaf_nodes t"
    by (auto elim: tree_wf_root)
  from set_available_space_ok [OF this, of c, where 'e = unit]
  show "\<exists>u. tree_set_opt t i c = Some u \<and> tree_wf l u \<and> leaves u = (leaves t)[i := c]"
    by (auto simp: tree_set_opt_def)
next
  fix t :: binary_tree and c :: u8
  assume "tree_wf l t"
  then show "tree_find_opt t c = position (\<lambda>v. c \<le> v) (leaves t)"
    using find_available_position [of l t c, where 'e = unit]
    by (auto simp: tree_find_opt_def split: option.split)
qed

section \<open>A small tree\<close>

text \<open>The tree of a 64-byte page, after a list of updates.\<close>

definition tree_64 :: "(nat \<times> u8) list \<Rightarrow> binary_tree" where
  "tree_64 sets = fold (\<lambda>(i, c) t. case tree_set_opt t i c of None \<Rightarrow> t | Some u \<Rightarrow> u) sets
     \<lparr>arr = replicate 43 0, non_leaf_nodes = 31, leaf_nodes = 12\<rparr>"

lemma tree_64_new: "tree_new layout_64 = Inr (tree_64 [])"
  by (simp add: tree_new_def tree_64_def layout_64_def page_size_def)

lemma tree_64_wf: "tree_wf layout_64 (tree_64 [(5, 10)])"
  by code_simp

lemma tree_64_leaves: "leaves (tree_64 [(5, 10)]) = [0, 0, 0, 0, 0, 10, 0, 0, 0, 0, 0, 0]"
  by code_simp

lemma tree_64_arr: "arr (tree_64 [(5, 10)]) ! 0 = 10" "arr (tree_64 [(5, 10)]) ! 5 = 0"
  by code_simp+

section \<open>Properties\<close>

text \<open>
  C33. Setting the category of a slot keeps the heap invariant and changes that slot's category
  only; it panics exactly when the slot is not one of the tree's leaves.
\<close>

theorem set_available_space_spec:
  assumes "tree_wf l t"
  shows "case (set_available_space t slot v :: (binary_tree, 'e) result) of
     Inr u \<Rightarrow> slot < leaf_nodes t \<and> tree_wf l u \<and> leaves u = (leaves t)[slot := v]
   | Inl e \<Rightarrow> e = Panic \<and> leaf_nodes t \<le> slot"
proof (cases "slot < leaf_nodes t")
  case True
  from set_available_space_ok [OF assms this, of v, where 'e = 'e] True show ?thesis
    by auto
qed (simp add: set_available_space_def)

theorem set_available_space_spec_witness:
  "\<exists>u. set_available_space (tree_64 [(5, 10)]) 7 9 = (Inr u :: (binary_tree, unit) result) \<and>
     leaves u = [0, 0, 0, 0, 0, 10, 0, 9, 0, 0, 0, 0]"
proof -
  have "leaf_nodes (tree_64 [(5, 10)]) = 12" by code_simp
  then show ?thesis
    using set_available_space_spec [OF tree_64_wf, of 7 9, where 'e = unit]
    by (simp add: tree_64_leaves split: sum.splits)
qed

text \<open>
  C34. Under the heap invariant the search finds the first slot whose category is at least the
  wanted one, and none exactly when there is no such slot. The space it reports is the byte of
  the array at the slot's index, which is an internal node or a leaf of another slot.
\<close>

theorem find_available_first:
  assumes "tree_wf l t"
  shows "(find_available t x :: (fsm_slot option, 'e) result) =
    Inr (map_option (\<lambda>s. \<lparr>slot_index = s, available_space = arr t ! s\<rparr>)
      (position (\<lambda>v. x \<le> v) (leaves t)))"
  by (rule find_available_position [OF assms])

theorem find_available_first_witness:
  "find_available (tree_64 [(5, 10)]) 8 =
     (Inr (Some \<lparr>slot_index = 5, available_space = 0\<rparr>) :: (fsm_slot option, unit) result)"
proof -
  have "position (\<lambda>v. 8 \<le> v) (leaves (tree_64 [(5, 10)])) = Some 5"
    by (simp add: tree_64_leaves)
  then show ?thesis
    using find_available_first [OF tree_64_wf, of 8, where 'e = unit] by (simp add: tree_64_arr)
qed

text \<open>
  The root is the largest category of the page, so one comparison with it decides whether a
  slot is available.
\<close>

theorem tree_root_is_max:
  assumes "tree_wf l t"
  shows "arr t ! 0 = Max (set (leaves t))"
proof (rule antisym)
  from assms have ne: "leaves t \<noteq> []"
    by (auto elim: tree_wf_root)
  obtain k where k: "non_leaf_nodes t + 1 = 2 ^ (0 + k)" "non_leaf_nodes t < length (arr t)"
    using assms by (rule tree_wf_root)
  then have len: "arr t \<noteq> []" by auto
  have heap: "heap_at (arr t) i" if "i < non_leaf_nodes t" for i
    using assms that by (simp add: tree_wf_def heap_list_all)
  obtain s where s: "non_leaf_nodes t + s < length (arr t)" "arr t ! 0 \<le> arr t ! (non_leaf_nodes t + s)"
    using descend_spec [OF heap refl k(2,1), of 0 0 "arr t ! 0", where 'e = unit] len
    by (auto simp: node_value_def)
  then have "arr t ! 0 \<le> leaves t ! s" and "s < length (leaves t)"
    by (simp_all add: leaves_def)
  then show "arr t ! 0 \<le> Max (set (leaves t))"
    by (auto intro: order_trans)
  show "Max (set (leaves t)) \<le> arr t ! 0"
    using ne leaf_le_root [OF assms] by (auto simp: in_set_conv_nth)
qed

theorem tree_root_is_max_witness: "10 = Max (set [0, 0, 0, 0, 0, 10, 0, 0, 0, 0, 0, 0 :: u8])"
  using tree_root_is_max [OF tree_64_wf] by (simp only: tree_64_leaves tree_64_arr)

text \<open>
  The space that the search reports can be smaller than the space that was asked for: it is
  read at the index of the slot among the leaves, not at the leaf.
\<close>

theorem find_available_misreports_space:
  "\<exists>l t x s. tree_wf l t \<and> find_available t x = (Inr (Some s) :: (fsm_slot option, unit) result) \<and>
     x \<le> leaves t ! slot_index s \<and> available_space s < x"
proof -
  have "find_available (tree_64 [(5, 10)]) 8 =
     (Inr (Some \<lparr>slot_index = 5, available_space = 0\<rparr>) :: (fsm_slot option, unit) result)"
    by code_simp
  then show ?thesis
    using tree_64_wf
    by (intro exI [of _ layout_64] exI [of _ "tree_64 [(5, 10)]"] exI [of _ 8]
        exI [of _ "\<lparr>slot_index = 5, available_space = 0\<rparr>"])
      (simp add: tree_64_leaves)
qed

end
