(* ===== verification/Files.thy ===== *)
theory Files
  imports Prelude
begin

text \<open>
  The files the stores work on, as far as the program uses \<open>std::fs\<close>: the base directory
  is a map from file names to contents, a file that is opened must exist, \<open>read_exact\<close>
  fails when the file is too short, a write at an offset overwrites in place, extends the file
  and fills a gap with zero bytes. Other errors of the operating system (permissions, a full
  disk) are not modelled, and the state after a failed operation is what was written before it.
\<close>

datatype io_error = NotFound | UnexpectedEof

type_synonym files = "string \<Rightarrow> byte list option"

definition open_file :: "files \<Rightarrow> string \<Rightarrow> (byte list, io_error) result" where
  "open_file fs name = ok_or NotFound (fs name)"

definition read_exact_at :: "byte list \<Rightarrow> nat \<Rightarrow> nat \<Rightarrow> (byte list, io_error) result" where
  "read_exact_at c off n =
     (let got = take n (drop off c) in if length got = n then Inr got else Inl (Err UnexpectedEof))"

definition write_at :: "byte list \<Rightarrow> nat \<Rightarrow> byte list \<Rightarrow> byte list" where
  "write_at c off dat =
     (if dat = [] then c
      else take off (c @ replicate (off - length c) 0) @ dat @ drop (off + length dat) c)"

definition remove_file :: "files \<Rightarrow> string \<Rightarrow> (files, io_error) result" where
  "remove_file fs name = (case fs name of None \<Rightarrow> Inl (Err NotFound) | Some _ \<Rightarrow> Inr (fs(name := None)))"

lemma read_exact_at_Inr_iff:
  "read_exact_at c off n = Inr x \<longleftrightarrow> x = take n (drop off c) \<and> (n = 0 \<or> off + n \<le> length c)"
  by (auto simp: read_exact_at_def Let_def min_def)

lemma read_exact_at_no_panic: "read_exact_at c off n \<noteq> Inl Panic"
  by (simp add: read_exact_at_def Let_def)

lemma length_write_at:
  "length (write_at c off d) = (if d = [] then length c else max (length c) (off + length d))"
  by (auto simp: write_at_def max_def)

lemma nth_write_at:
  assumes "i < length (write_at c off d)"
  shows "write_at c off d ! i =
    (if off \<le> i \<and> i < off + length d then d ! (i - off) else if i < length c then c ! i else 0)"
proof -
  have "min (length c) off + (off - length c) = off" by simp
  then show ?thesis
    using assms by (auto simp: write_at_def nth_append split: if_splits)
qed

lemma read_write_same [list_simps]:
  assumes "n = length d"
  shows "read_exact_at (write_at c off d) off n = Inr d"
  using assms by (auto simp: read_exact_at_Inr_iff write_at_def min_def)

lemma read_write_other:
  assumes "read_exact_at c o' n = Inr x" and "o' + n \<le> off \<or> off + length d \<le> o'"
  shows "read_exact_at (write_at c off d) o' n = Inr x"
proof -
  from assms(1) have x: "x = take n (drop o' c)" "n = 0 \<or> o' + n \<le> length c"
    by (simp_all add: read_exact_at_Inr_iff)
  have "take n (drop o' (write_at c off d)) = x"
    unfolding x(1)
    using x(2) assms(2)
    by (intro nth_equalityI) (auto simp: length_write_at nth_write_at split: if_splits)
  moreover have "length c \<le> length (write_at c off d)"
    by (simp add: length_write_at)
  ultimately show ?thesis
    using x(2) by (auto simp: read_exact_at_Inr_iff)
qed

lemma write_at_over: "write_at (write_at c off d) off e = write_at c off e" if "length d = length e"
  using that by (intro nth_equalityI) (auto simp: length_write_at nth_write_at split: if_splits)

section \<open>Decimal numbers in file names\<close>

function dec_nat :: "nat \<Rightarrow> string" where
  "dec_nat n = (if n < 10 then [char_of (48 + n)] else dec_nat (n div 10) @ [char_of (48 + n mod 10)])"
  by auto
termination
  by (relation "measure id") auto

declare dec_nat.simps [simp del]

definition dec_int :: "int \<Rightarrow> string" where
  "dec_int i = (if i < 0 then ''-'' @ dec_nat (nat (- i)) else dec_nat (nat i))"

fun undec :: "string \<Rightarrow> nat" where
  "undec s = foldl (\<lambda>a c. a * 10 + (of_char c - 48)) 0 s"

lemma undec_dec_nat: "undec (dec_nat n) = n"
proof (induction n rule: dec_nat.induct)
  case (1 n)
  then show ?case
    by (subst dec_nat.simps) (simp add: of_char_of)
qed

lemma dec_nat_digits: "c \<in> set (dec_nat n) \<Longrightarrow> 48 \<le> (of_char c :: nat) \<and> (of_char c :: nat) \<le> 57"
proof (induction n rule: dec_nat.induct)
  case (1 n)
  have "n mod 10 < 10" by simp
  with 1 show ?case
    by (subst (asm) (2) dec_nat.simps) (auto split: if_splits)
qed

lemma dec_int_inj: "dec_int i = dec_int j \<longleftrightarrow> i = j"
proof -
  have minus: "dec_nat n \<noteq> CHR ''-'' # s" for n s
    using dec_nat_digits [of "CHR ''-''" n] by (auto simp: of_char_def)
  have inj: "dec_nat n = dec_nat m \<longleftrightarrow> n = m" for n m
    by (metis undec_dec_nat)
  show ?thesis
    using minus minus [symmetric] by (auto simp: dec_int_def inj)
qed

end
