(* ===== verification/BTree_Pager.thy ===== *)
theory BTree_Pager
  imports Files
begin

text \<open>
  \<open>src/src/tree/mod.rs\<close>, the pager of \<open>src/src/tree/store.rs\<close> and the page type of
  \<open>src/src/tree/node.rs\<close>: the byte format of a B+ tree page (a 9-byte header and an array of
  4-byte cells, where \<open>i32::MIN\<close> stands for an absent value), the metadata of the index
  file, and the pager with its file, its cache and its list of deleted pages.

  The cache is the crate \<open>ttl_cache\<close>: an entry is what was inserted last for its page and may
  be gone at any access, because it expired or was evicted. The parameter
  \<open>keeps n pid\<close> says whether the entry of page \<open>pid\<close> is still there at access \<open>n\<close>;
  no theorem assumes anything about it. The flag \<open>changed\<close> belongs to a page value here; the
  code shares it between a cached page and its clones, which can only cause a page to be written
  again with the bytes it already has.
\<close>

section \<open>Errors and constants\<close>

datatype node_pager_error = PagerIo io_error | InvalidNodePage | CorruptedPage | InvalidPageId

datatype node_operation_error =
    TryInsertDuplicate
  | PageIOError
  | TryUpdateNonExistingKey
  | CorruptedNode

datatype btree_store_error =
    InvalidConfiguration
  | CorruptedMetadata
  | BTreeNodePager node_pager_error
  | BTreeNodeOperation node_operation_error

definition node_error_from :: "node_pager_error \<Rightarrow> node_operation_error" where
  "node_error_from e = PageIOError"

definition read_i32_with_null :: "i32 \<Rightarrow> i32 option" where
  "read_i32_with_null v = (if v = i32_min then None else Some v)"

definition get_i32_be_bytes_from_option :: "i32 option \<Rightarrow> byte list" where
  "get_i32_be_bytes_from_option v = i32_to_be (case v of None \<Rightarrow> i32_min | Some x \<Rightarrow> x)"

definition POS_PAGE_ID :: nat where "POS_PAGE_ID = 0"
definition POS_DELETED :: nat where "POS_DELETED = 4"
definition POS_NEXT_DELETED_PAGE :: nat where "POS_NEXT_DELETED_PAGE = 5"
definition NEXT_LEAF_SIZE :: nat where "NEXT_LEAF_SIZE = 4"
definition PAGE_DATA_START :: nat where "PAGE_DATA_START = 9"
definition NODE_HEADER_SIZE :: nat where "NODE_HEADER_SIZE = 9"
definition META_DATA_HEADER_SIZE :: nat where "META_DATA_HEADER_SIZE = 14"

lemmas node_consts = POS_PAGE_ID_def POS_DELETED_def POS_NEXT_DELETED_PAGE_def NEXT_LEAF_SIZE_def
  PAGE_DATA_START_def NODE_HEADER_SIZE_def META_DATA_HEADER_SIZE_def

section \<open>Offsets\<close>

text \<open>The products are computed in \<open>u16\<close> and overflow for a degree above 8192.\<close>

definition key_array_size :: "u16 \<Rightarrow> (nat, node_pager_error) result" where
  "key_array_size d = and_then (u16_checked_sub d 1) (\<lambda>k. and_then (u16_checked_mul k 4) (\<lambda>n. Inr (unat n)))"

definition children_offset :: "u16 \<Rightarrow> (nat, node_pager_error) result" where
  "children_offset d = and_then (key_array_size d) (\<lambda>n. Inr (PAGE_DATA_START + n))"

definition children_array_size :: "u16 \<Rightarrow> nat" where
  "children_array_size d = unat d * 4"

definition values_offset :: "u16 \<Rightarrow> (nat, node_pager_error) result" where
  "values_offset d = and_then (children_offset d) (\<lambda>n. Inr (n + children_array_size d))"

definition values_array_size :: "u16 \<Rightarrow> (nat, node_pager_error) result" where
  "values_array_size d = and_then (u16_checked_sub d 1) (\<lambda>k. and_then (u16_checked_mul k 8) (\<lambda>n. Inr (unat n)))"

definition next_leaf_offset :: "u16 \<Rightarrow> (nat, node_pager_error) result" where
  "next_leaf_offset d = and_then (values_offset d) (\<lambda>n. and_then (values_array_size d) (\<lambda>m. Inr (n + m)))"

section \<open>The metadata of an index file\<close>

record store_meta_data =
  meta_max_degree :: u16
  meta_number_of_pages :: u32
  first_deleted_page :: "i32 option"
  meta_root :: "i32 option"
  meta_changed :: bool
  unique_index :: bool

definition inc_number_of_pages :: "store_meta_data \<Rightarrow> (store_meta_data, node_pager_error) result" where
  "inc_number_of_pages m = and_then (u32_checked_add (meta_number_of_pages m) 1) (\<lambda>n.
     Inr (m\<lparr>meta_number_of_pages := n, meta_changed := True\<rparr>))"

definition set_first_deleted_page :: "i32 option \<Rightarrow> store_meta_data \<Rightarrow> store_meta_data" where
  "set_first_deleted_page p m = m\<lparr>first_deleted_page := p, meta_changed := True\<rparr>"

definition set_root :: "i32 \<Rightarrow> store_meta_data \<Rightarrow> store_meta_data" where
  "set_root p m = m\<lparr>meta_root := Some p, meta_changed := True\<rparr>"

definition meta_data_to_bytes :: "store_meta_data \<Rightarrow> (byte list, btree_store_error) result" where
  "meta_data_to_bytes m =
     and_then (copy_into (replicate META_DATA_HEADER_SIZE 0) 0 2 (u16_to_be (meta_max_degree m))) (\<lambda>b1.
     and_then (copy_into b1 2 6 (u32_to_be (meta_number_of_pages m))) (\<lambda>b2.
     and_then (copy_into b2 6 10 (get_i32_be_bytes_from_option (first_deleted_page m))) (\<lambda>b3.
     copy_into b3 10 14 (get_i32_be_bytes_from_option (meta_root m)))))"

definition get_range :: "byte list \<Rightarrow> nat \<Rightarrow> nat \<Rightarrow> byte list option" where
  "get_range bs a n = (if a + n \<le> length bs then Some (take n (drop a bs)) else None)"

definition read_node_i32 :: "byte list \<Rightarrow> nat \<Rightarrow> (i32, node_pager_error) result" where
  "read_node_i32 bs start =
     and_then (ok_or CorruptedPage (get_range bs start 4)) (\<lambda>b. Inr (i32_from_be b))"

definition read_meta_i32 :: "byte list \<Rightarrow> nat \<Rightarrow> (i32, btree_store_error) result" where
  "read_meta_i32 bs start =
     and_then (ok_or CorruptedMetadata (get_range bs start 4)) (\<lambda>b. Inr (i32_from_be b))"

definition read_meta_u32 :: "byte list \<Rightarrow> nat \<Rightarrow> (u32, btree_store_error) result" where
  "read_meta_u32 bs start =
     and_then (ok_or CorruptedMetadata (get_range bs start 4)) (\<lambda>b. Inr (u32_from_be b))"

definition read_meta_u16 :: "byte list \<Rightarrow> nat \<Rightarrow> (u16, btree_store_error) result" where
  "read_meta_u16 bs start =
     and_then (ok_or CorruptedMetadata (get_range bs start 2)) (\<lambda>b. Inr (u16_from_be b))"

section \<open>Pages\<close>

record node_page =
  node_id :: i32
  deleted :: bool
  next_deleted_page :: "i32 option"
  keys :: "i32 list"
  children :: "i32 list"
  node_values :: "(i32 \<times> i32) list"
  next_leaf :: "i32 option"
  max_degree :: nat
  changed :: bool

definition node_new :: "nat \<Rightarrow> i32 \<Rightarrow> (node_page, node_pager_error) result" where
  "node_new d pid =
     (if pid = i32_min then Inl Panic
      else Inr \<lparr>node_id = pid, deleted = False, next_deleted_page = None, keys = [], children = [],
             node_values = [], next_leaf = None, max_degree = d, changed = True\<rparr>)"

definition node_delete_page :: "i32 option \<Rightarrow> node_page \<Rightarrow> node_page" where
  "node_delete_page next n =
     n\<lparr>deleted := True, changed := True, keys := [], children := [], node_values := [],
       next_deleted_page := next\<rparr>"

definition node_reallocate :: "node_page \<Rightarrow> node_page" where
  "node_reallocate n =
     n\<lparr>deleted := False, changed := True, keys := [], children := [], node_values := [],
       next_deleted_page := None\<rparr>"

definition new_from_store ::
  "i32 \<Rightarrow> bool \<Rightarrow> i32 option \<Rightarrow> i32 list \<Rightarrow> i32 list \<Rightarrow> (i32 \<times> i32) list \<Rightarrow> i32 option \<Rightarrow> nat \<Rightarrow> node_page"
where
  "new_from_store pid del next_del ks cs vs leaf d =
     \<lparr>node_id = pid, deleted = del, next_deleted_page = next_del, keys = ks, children = cs,
      node_values = vs, next_leaf = leaf, max_degree = d, changed = False\<rparr>"

text \<open>The three reading loops of \<open>try_from\<close>: they stop at the first NULL.\<close>

fun read_i32s :: "byte list \<Rightarrow> nat \<Rightarrow> nat \<Rightarrow> (i32 list, node_pager_error) result" where
  "read_i32s bs off 0 = Inr []"
| "read_i32s bs off (Suc n) =
     and_then (read_node_i32 bs off) (\<lambda>v.
     case read_i32_with_null v of
       None \<Rightarrow> Inr []
     | Some x \<Rightarrow> and_then (read_i32s bs (off + 4) n) (\<lambda>xs. Inr (x # xs)))"

fun read_values :: "byte list \<Rightarrow> nat \<Rightarrow> nat \<Rightarrow> ((i32 \<times> i32) list, node_pager_error) result" where
  "read_values bs off 0 = Inr []"
| "read_values bs off (Suc n) =
     and_then (read_node_i32 bs off) (\<lambda>val1.
     and_then (read_node_i32 bs (off + 4)) (\<lambda>val2.
     if val1 \<noteq> i32_min \<and> val2 \<noteq> i32_min
     then and_then (read_values bs (off + 8) n) (\<lambda>xs. Inr ((val1, val2) # xs))
     else Inr []))"

definition node_try_from :: "byte list \<Rightarrow> u16 \<Rightarrow> (node_page, node_pager_error) result" where
  "node_try_from bs d =
     and_then (read_node_i32 bs POS_PAGE_ID) (\<lambda>pid.
     if pid = i32_min then Inl (Err InvalidNodePage)
     else and_then (index_get bs POS_DELETED) (\<lambda>del.
     and_then (read_node_i32 bs POS_NEXT_DELETED_PAGE) (\<lambda>next_del.
     and_then (u16_checked_sub d 1) (\<lambda>d1.
     and_then (read_i32s bs PAGE_DATA_START (unat d1)) (\<lambda>ks.
     and_then (children_offset d) (\<lambda>c_off.
     and_then (read_i32s bs c_off (unat d)) (\<lambda>cs.
     and_then (values_offset d) (\<lambda>v_off.
     and_then (read_values bs v_off (unat d1)) (\<lambda>vs.
     and_then (next_leaf_offset d) (\<lambda>l_off.
     and_then (read_node_i32 bs l_off) (\<lambda>leaf.
     Inr (new_from_store pid (del \<noteq> 0) (read_i32_with_null next_del) ks cs vs
            (read_i32_with_null leaf) (unat d)))))))))))))"

text \<open>The writing loops of \<open>write_page\<close>.\<close>

fun fill_null :: "byte list \<Rightarrow> nat \<Rightarrow> nat \<Rightarrow> (byte list, node_pager_error) result" where
  "fill_null bs off 0 = Inr bs"
| "fill_null bs off (Suc n) =
     and_then (copy_into bs off (off + 4) (i32_to_be i32_min)) (\<lambda>bs'. fill_null bs' (off + 4) n)"

fun write_i32s :: "byte list \<Rightarrow> nat \<Rightarrow> i32 list \<Rightarrow> (byte list, node_pager_error) result" where
  "write_i32s bs off [] = Inr bs"
| "write_i32s bs off (x # xs) =
     and_then (copy_into bs off (off + 4) (i32_to_be x)) (\<lambda>bs'. write_i32s bs' (off + 4) xs)"

fun write_values :: "byte list \<Rightarrow> nat \<Rightarrow> (i32 \<times> i32) list \<Rightarrow> (byte list, node_pager_error) result" where
  "write_values bs off [] = Inr bs"
| "write_values bs off (v # vs) =
     and_then (copy_into bs off (off + 4) (i32_to_be (fst v))) (\<lambda>b1.
     and_then (copy_into b1 (off + 4) (off + 8) (i32_to_be (snd v))) (\<lambda>b2.
     write_values b2 (off + 8) vs))"

definition node_page_size :: "u16 \<Rightarrow> (nat, node_pager_error) result" where
  "node_page_size d =
     and_then (u16_checked_mul d 4) (\<lambda>c.
     and_then (u16_checked_sub d 1) (\<lambda>d1.
     and_then (u16_checked_mul d1 4) (\<lambda>k.
     and_then (u16_checked_mul d1 8) (\<lambda>v.
     Inr (unat c + unat k + unat v + NEXT_LEAF_SIZE + NODE_HEADER_SIZE)))))"

text \<open>The bytes that \<open>write_page\<close> builds.\<close>

definition node_to_bytes :: "node_page \<Rightarrow> u16 \<Rightarrow> (byte list, node_pager_error) result" where
  "node_to_bytes n d =
     and_then (node_page_size d) (\<lambda>size.
     and_then (fill_null (replicate size 0) PAGE_DATA_START ((size - PAGE_DATA_START + 3) div 4)) (\<lambda>b0.
     and_then (copy_into b0 POS_PAGE_ID (POS_PAGE_ID + 4) (i32_to_be (node_id n))) (\<lambda>b1.
     and_then (index_set b1 POS_DELETED (if deleted n then 1 else 0)) (\<lambda>b2.
     and_then (copy_into b2 POS_NEXT_DELETED_PAGE (POS_NEXT_DELETED_PAGE + 4)
                 (get_i32_be_bytes_from_option (next_deleted_page n))) (\<lambda>b3.
     and_then (write_i32s b3 PAGE_DATA_START (keys n)) (\<lambda>b4.
     and_then (children_offset d) (\<lambda>c_off.
     and_then (write_i32s b4 c_off (children n)) (\<lambda>b5.
     and_then (values_offset d) (\<lambda>v_off.
     and_then (write_values b5 v_off (node_values n)) (\<lambda>b6.
     and_then (next_leaf_offset d) (\<lambda>l_off.
     copy_into b6 l_off (l_off + 4) (get_i32_be_bytes_from_option (next_leaf n)))))))))))))"

section \<open>The pager\<close>

record node_pager =
  pager_file :: "byte list"
  pager_cache :: "i32 \<Rightarrow> node_page option"
  pager_clock :: nat
  pager_meta :: store_meta_data

type_synonym keeping = "nat \<Rightarrow> i32 \<Rightarrow> bool"

definition node_page_offset :: "node_pager \<Rightarrow> i32 \<Rightarrow> (nat, node_pager_error) result" where
  "node_page_offset p pid =
     (if i32_val pid < 0 then Inl (Err InvalidPageId)
      else and_then (node_page_size (meta_max_degree (pager_meta p))) (\<lambda>size.
        Inr (META_DATA_HEADER_SIZE + size * i32_as_usize pid)))"

text \<open>\<open>write_page\<close> clears the flag of the page, which is returned.\<close>

definition pager_write_page :: "node_page \<Rightarrow> (node_pager, node_page, node_pager_error) io" where
  "pager_write_page n p =
     (if \<not> changed n then (Inr n, p)
      else if node_id n = i32_min then (Inl (Err InvalidNodePage), p)
      else if deleted n then (Inl (Err InvalidNodePage), p)
      else case and_then (node_to_bytes n (meta_max_degree (pager_meta p))) (\<lambda>dat.
                and_then (node_page_offset p (node_id n)) (\<lambda>off. Inr (dat, off))) of
          Inl e \<Rightarrow> (Inl e, p)
        | Inr (dat, off) \<Rightarrow>
            let n' = n\<lparr>changed := False\<rparr> in
            (Inr n', p\<lparr>pager_file := write_at (pager_file p) off dat,
                       pager_cache := (pager_cache p)(node_id n := Some n')\<rparr>))"

definition pager_read_file :: "node_pager \<Rightarrow> i32 \<Rightarrow> (node_page, node_pager_error) result" where
  "pager_read_file p pid =
     and_then (node_page_size (meta_max_degree (pager_meta p))) (\<lambda>size.
     and_then (node_page_offset p pid) (\<lambda>off.
     and_then (map_err PagerIo (read_exact_at (pager_file p) off size)) (\<lambda>dat.
     node_try_from dat (meta_max_degree (pager_meta p)))))"

definition pager_read_page :: "keeping \<Rightarrow> i32 \<Rightarrow> (node_pager, node_page, node_pager_error) io" where
  "pager_read_page keeps pid p =
     (let p' = p\<lparr>pager_clock := pager_clock p + 1\<rparr> in
      case (if keeps (pager_clock p) pid then pager_cache p pid else None) of
        Some n \<Rightarrow> (Inr n, p')
      | None \<Rightarrow> (pager_read_file p pid, p'))"

definition pager_update_meta :: "(store_meta_data \<Rightarrow> store_meta_data) \<Rightarrow> node_pager \<Rightarrow> node_pager" where
  "pager_update_meta f p = p\<lparr>pager_meta := f (pager_meta p)\<rparr>"

text \<open>
  The page that \<open>delete_page\<close> marks as deleted is a local copy: only the head of the list of
  deleted pages is changed.
\<close>

definition pager_delete_page :: "keeping \<Rightarrow> i32 \<Rightarrow> (node_pager, unit, node_pager_error) io" where
  "pager_delete_page keeps pid =
     (if pid = i32_min then io_fail InvalidPageId
      else (\<lambda>p. let first_deleted = first_deleted_page (pager_meta p) in
        io_bind (pager_read_page keeps pid) (\<lambda>node.
          let node = node_delete_page first_deleted node in
          (\<lambda>p. (Inr (), pager_update_meta (set_first_deleted_page (Some (node_id node))) p))) p))"

definition pager_allocate_new_page :: "keeping \<Rightarrow> (node_pager, node_page, node_pager_error) io" where
  "pager_allocate_new_page keeps p =
     (case first_deleted_page (pager_meta p) of
        Some first_deleted \<Rightarrow>
          (case pager_read_page keeps first_deleted p of
             (Inr allocated, p1) \<Rightarrow>
               pager_write_page (node_reallocate allocated)
                 (pager_update_meta (set_first_deleted_page (next_deleted_page allocated)) p1)
           | (Inl (Err e), p1) \<Rightarrow> (Inl (Err CorruptedPage), p1)
           | (Inl Panic, p1) \<Rightarrow> (Inl Panic, p1))
      | None \<Rightarrow>
          (case inc_number_of_pages (pager_meta p) of
             Inl e \<Rightarrow> (Inl e, p)
           | Inr m \<Rightarrow>
               let p1 = p\<lparr>pager_meta := m\<rparr>;
                   next_id = unat (meta_number_of_pages m) - 1 in
               if 2 ^ 31 \<le> next_id then (Inl (Err InvalidPageId), p1)
               else io_bind (io_lift (node_new (unat (meta_max_degree m)) (usize_as_i32 next_id)))
                 (\<lambda>node. io_bind (pager_write_page node) (\<lambda>node.
                    io_ret (node\<lparr>changed := True\<rparr>))) p1))"

end
