(* ===== verification/BTree_Node.thy ===== *)
theory BTree_Node
  imports BTree_Pager
begin

text \<open>
  The operations of \<open>src/src/tree/node.rs\<close> on one page and its subtree: the search in a
  page, splitting, insertion with preemptive splits, the lookups, and deletion with preemptive
  borrowing and merging.

  The state of an operation is the page it runs on, which the code has as \<open>&mut self\<close>, and
  the pager. The recursion follows child pointers read from a file, so it is bounded by
  \<open>fuel\<close>; a run that exhausts its fuel is reported as \<open>Panic\<close>, since the code would not
  return a value either.
\<close>

section \<open>Searching a page\<close>

datatype find_key_response = GreaterThanTheLast nat | EqualAt nat | LessThan nat

fun scan_keys :: "i32 \<Rightarrow> (nat \<times> i32) list \<Rightarrow> nat \<Rightarrow> find_key_response" where
  "scan_keys key [] last_element = GreaterThanTheLast last_element"
| "scan_keys key ((i, k) # ks) last_element =
     (if key < k then LessThan i else if key = k then EqualAt i else scan_keys key ks last_element)"

text \<open>The loop keeps \<open>low \<le> high < len\<close>, so its subtraction and its index are in range.\<close>

function search_window :: "i32 \<Rightarrow> i32 list \<Rightarrow> nat \<Rightarrow> nat \<Rightarrow> find_key_response" where
  "search_window key ks low high =
     (if 8 < high - low then
        let mid = (low + high) div 2 in
        if key = ks ! mid then EqualAt mid
        else if key < ks ! mid then search_window key ks low mid
        else search_window key ks (mid + 1) high
      else scan_keys key (drop low (take (high + 1) (enumerate 0 ks))) (length ks - 1))"
  by auto
termination
  by (relation "measure (\<lambda>(_, _, low, high). high - low)") auto

declare search_window.simps [simp del]

definition binary_search :: "i32 \<Rightarrow> i32 list \<Rightarrow> find_key_response" where
  "binary_search key ks =
     (if ks = [] \<or> ks ! (length ks - 1) < key then GreaterThanTheLast (length ks - 1)
      else search_window key ks 0 (length ks - 1))"

definition min_keys :: "node_page \<Rightarrow> (nat, 'e) result" where
  "min_keys n = usize_sub (max_degree n div 2) 1"

definition max_keys :: "node_page \<Rightarrow> (nat, 'e) result" where
  "max_keys n = usize_sub (max_degree n) 1"

definition is_leaf :: "node_page \<Rightarrow> bool" where
  "is_leaf n = (children n = [])"

definition is_full :: "node_page \<Rightarrow> (bool, 'e) result" where
  "is_full n = and_then (max_keys n) (\<lambda>m. Inr (m \<le> length (keys n)))"

definition can_lend_keys :: "node_page \<Rightarrow> (bool, 'e) result" where
  "can_lend_keys n = and_then (min_keys n) (\<lambda>m. Inr (m < length (keys n)))"

definition is_less_than_minimal :: "node_page \<Rightarrow> (bool, 'e) result" where
  "is_less_than_minimal n = and_then (min_keys n) (\<lambda>m. Inr (length (keys n) < m))"

text \<open>The child to descend into on insertion and deletion.\<close>

definition child_index :: "node_page \<Rightarrow> i32 \<Rightarrow> nat" where
  "child_index n key =
     (case position (\<lambda>k. key < k) (keys n) of Some i \<Rightarrow> i | None \<Rightarrow> length (children n) - 1)"

section \<open>Vectors\<close>

definition vec_insert :: "nat \<Rightarrow> 'a \<Rightarrow> 'a list \<Rightarrow> ('a list, 'e) result" where
  "vec_insert i x xs = (if i \<le> length xs then Inr (take i xs @ x # drop i xs) else Inl Panic)"

definition vec_remove :: "nat \<Rightarrow> 'a list \<Rightarrow> ('a \<times> 'a list, 'e) result" where
  "vec_remove i xs = (if i < length xs then Inr (xs ! i, take i xs @ drop (i + 1) xs) else Inl Panic)"

definition vec_pop :: "'a list \<Rightarrow> ('a \<times> 'a list) option" where
  "vec_pop xs = (if xs = [] then None else Some (last xs, butlast xs))"

definition vec_split_off :: "nat \<Rightarrow> 'a list \<Rightarrow> ('a list \<times> 'a list, 'e) result" where
  "vec_split_off i xs = (if i \<le> length xs then Inr (take i xs, drop i xs) else Inl Panic)"

section \<open>Operations on a page and the pager\<close>

type_synonym 'a node_io = "(node_page \<times> node_pager, 'a, node_operation_error) io"

definition on_pager :: "(node_pager, 'a, node_pager_error) io \<Rightarrow> 'a node_io" where
  "on_pager m = (\<lambda>(self, p). case m p of (r, p') \<Rightarrow> (map_err node_error_from r, (self, p')))"

definition get_self :: "node_page node_io" where
  "get_self s = (Inr (fst s), s)"

definition set_self :: "node_page \<Rightarrow> unit node_io" where
  "set_self n s = (Inr (), (n, snd s))"

text \<open>Calling an operation on another page: its result is kept, this page stays.\<close>

definition on_node :: "node_page \<Rightarrow> 'a node_io \<Rightarrow>
    (('a, node_operation_error) result \<times> node_page) node_io" where
  "on_node n m = (\<lambda>(self, p). case m (n, p) of
     (Inl Panic, (n', p')) \<Rightarrow> (Inl Panic, (self, p'))
   | (r, (n', p')) \<Rightarrow> (Inr (r, n'), (self, p')))"

definition node_split :: "keeping \<Rightarrow> (node_page \<times> i32) node_io" where
  "node_split keeps =
     io_bind get_self (\<lambda>self.
     let middle = length (keys self) div 2 in
     io_bind (io_lift (vec_split_off middle (keys self))) (\<lambda>(left_keys, right_keys).
     io_bind (io_lift
       (if \<not> is_leaf self
        then and_then (vec_split_off (middle + 1) (children self)) (\<lambda>(left_children, right_children).
             and_then (vec_remove 0 right_keys) (\<lambda>(promoted, right_keys').
             Inr (self\<lparr>keys := left_keys, children := left_children\<rparr>, right_keys', right_children, [], promoted)))
        else and_then (vec_split_off middle (node_values self)) (\<lambda>(left_values, right_values).
             and_then (index_get right_keys 0) (\<lambda>promoted.
             Inr (self\<lparr>keys := left_keys, node_values := left_values\<rparr>, right_keys, [], right_values, promoted)))))
       (\<lambda>(self, right_keys, right_children, right_values, promoted_key).
     io_bind (set_self self) (\<lambda>_.
     io_bind (on_pager (pager_allocate_new_page keeps)) (\<lambda>right_node.
     let right_node = right_node\<lparr>node_values := right_values, keys := right_keys,
           children := right_children, max_degree := max_degree self\<rparr>;
         right_node = (if is_leaf self then right_node\<lparr>next_leaf := next_leaf self\<rparr> else right_node);
         self = (if is_leaf self then self\<lparr>next_leaf := Some (node_id right_node)\<rparr> else self) in
     io_bind (set_self self) (\<lambda>_.
     io_bind (on_pager (pager_write_page right_node)) (\<lambda>right_node.
     io_bind (set_self (self\<lparr>changed := True\<rparr>)) (\<lambda>_.
     io_bind (on_pager (pager_write_page (self\<lparr>changed := True\<rparr>))) (\<lambda>self.
     io_bind (set_self self) (\<lambda>_.
     io_ret (right_node, promoted_key)))))))))))"

definition insert_key_value :: "i32 \<Rightarrow> i32 \<times> i32 \<Rightarrow> unit node_io" where
  "insert_key_value key v =
     io_bind get_self (\<lambda>self.
     case binary_search key (keys self) of
       LessThan i \<Rightarrow>
         io_bind (io_lift (vec_insert i key (keys self))) (\<lambda>ks.
         io_bind (io_lift (vec_insert i v (node_values self))) (\<lambda>vs.
         set_self (self\<lparr>keys := ks, node_values := vs, changed := True\<rparr>)))
     | GreaterThanTheLast _ \<Rightarrow>
         set_self (self\<lparr>keys := keys self @ [key], node_values := node_values self @ [v], changed := True\<rparr>)
     | EqualAt _ \<Rightarrow> io_fail TryInsertDuplicate)"

text \<open>The branch of \<open>insert\<close> for a full child: it returns the child to insert into.\<close>

definition insert_split :: "keeping \<Rightarrow> i32 \<Rightarrow> nat \<Rightarrow> node_page \<Rightarrow> node_page node_io" where
  "insert_split keeps key i child =
     io_bind (on_node child (node_split keeps)) (\<lambda>(r, child).
     io_bind (io_lift r) (\<lambda>(rnode, promoted_key).
     io_bind get_self (\<lambda>self.
     io_bind
       (if length (keys self) = i then
          io_bind (set_self (self\<lparr>keys := keys self @ [promoted_key],
              children := children self @ [node_id rnode], changed := True\<rparr>)) (\<lambda>_.
          io_ret (if promoted_key < key then i + 1 else i))
        else
          io_bind (io_lift (vec_insert i promoted_key (keys self))) (\<lambda>ks.
          io_bind (io_lift (vec_insert (i + 1) (node_id rnode) (children self))) (\<lambda>cs.
          io_bind (set_self (self\<lparr>keys := ks, children := cs, changed := True\<rparr>)) (\<lambda>_.
          io_ret (if promoted_key \<le> key then i + 1 else i))))) (\<lambda>i.
     io_bind get_self (\<lambda>self.
     io_bind (io_lift (index_get (children self) i)) (\<lambda>c.
     on_pager (pager_read_page keeps c)))))))"

text \<open>The result of the insertion into the child is dropped by the code, except for a panic.\<close>

fun node_insert :: "keeping \<Rightarrow> nat \<Rightarrow> i32 \<Rightarrow> i32 \<times> i32 \<Rightarrow> bool \<Rightarrow> unit node_io" where
  "node_insert keeps 0 key v unique = io_panic"
| "node_insert keeps (Suc fuel) key v unique =
     (if \<not> unique then io_panic
      else io_bind get_self (\<lambda>self.
        if is_leaf self then insert_key_value key v
        else
          let i = child_index self key in
          io_bind (io_lift (index_get (children self) i)) (\<lambda>c.
          io_bind (on_pager (pager_read_page keeps c)) (\<lambda>child.
          io_bind (io_lift (is_full child)) (\<lambda>full.
          io_bind (if full then insert_split keeps key i child else io_ret child) (\<lambda>child.
          io_bind (on_node child (node_insert keeps fuel key v unique)) (\<lambda>(ignored, child).
          io_bind (on_pager (pager_write_page child)) (\<lambda>_. io_ret ()))))))))"

section \<open>Lookups\<close>

type_synonym 'a pager_io = "(node_pager, 'a, node_operation_error) io"

definition read_node :: "keeping \<Rightarrow> i32 \<Rightarrow> node_page pager_io" where
  "read_node keeps pid = io_map_err node_error_from (pager_read_page keeps pid)"

fun node_find_left_most :: "keeping \<Rightarrow> nat \<Rightarrow> node_page \<Rightarrow> i32 option pager_io" where
  "node_find_left_most keeps 0 self = io_panic"
| "node_find_left_most keeps (Suc fuel) self =
     (if is_leaf self then io_ret (Some (node_id self))
      else io_bind (io_lift (index_get (children self) 0)) (\<lambda>c.
           io_bind (read_node keeps c) (node_find_left_most keeps fuel)))"

fun node_find_node :: "keeping \<Rightarrow> nat \<Rightarrow> i32 \<Rightarrow> node_page \<Rightarrow> i32 option pager_io" where
  "node_find_node keeps 0 key self = io_panic"
| "node_find_node keeps (Suc fuel) key self =
     (let descend = (\<lambda>i. io_bind (io_lift (index_get (children self) i)) (\<lambda>c.
                      io_bind (read_node keeps c) (node_find_node keeps fuel key))) in
      case binary_search key (keys self) of
        GreaterThanTheLast i \<Rightarrow> if is_leaf self then io_ret None else descend (i + 1)
      | LessThan i \<Rightarrow> if is_leaf self then io_ret None else descend i
      | EqualAt i \<Rightarrow> if is_leaf self then io_ret (Some (node_id self)) else descend (i + 1))"

definition node_find_value :: "keeping \<Rightarrow> nat \<Rightarrow> i32 \<Rightarrow> node_page \<Rightarrow> (i32 \<times> i32) option pager_io" where
  "node_find_value keeps fuel key self =
     io_bind (node_find_node keeps fuel key self) (\<lambda>r.
     case r of
       None \<Rightarrow> io_ret None
     | Some node \<Rightarrow>
         io_bind (read_node keeps node) (\<lambda>page.
         case position (\<lambda>k. k = key) (keys page) of
           None \<Rightarrow> io_fail CorruptedNode
         | Some i \<Rightarrow> io_bind (io_lift (index_get (node_values page) i)) (\<lambda>v. io_ret (Some v))))"

section \<open>Deletion\<close>

definition delete_from_leaf :: "i32 \<Rightarrow> (i32 \<times> i32) option node_io" where
  "delete_from_leaf key =
     io_bind get_self (\<lambda>self.
     case binary_search key (keys self) of
       EqualAt pos \<Rightarrow>
         io_bind (io_lift (vec_remove pos (keys self))) (\<lambda>(_, ks).
         io_bind (io_lift (vec_remove pos (node_values self))) (\<lambda>(v, vs).
         io_bind (set_self (self\<lparr>keys := ks, node_values := vs, changed := True\<rparr>)) (\<lambda>_.
         io_ret (Some v))))
     | _ \<Rightarrow> io_ret None)"

text \<open>A sibling of the child at \<open>i\<close>, and whether it can lend a key.\<close>

definition read_sibling :: "keeping \<Rightarrow> bool \<Rightarrow> nat \<Rightarrow> (node_page \<times> bool) option node_io" where
  "read_sibling keeps exists i =
     (if exists then
        io_bind get_self (\<lambda>self.
        io_bind (io_lift (index_get (children self) i)) (\<lambda>c.
        io_bind (on_pager (pager_read_page keeps c)) (\<lambda>sibling.
        io_bind (io_lift (can_lend_keys sibling)) (\<lambda>can_lend.
        io_ret (Some (sibling, can_lend))))))
      else io_ret None)"

definition write_two :: "node_page \<Rightarrow> node_page \<Rightarrow> node_page node_io" where
  "write_two target sibling =
     io_bind (on_pager (pager_write_page target)) (\<lambda>target.
     io_bind (on_pager (pager_write_page sibling)) (\<lambda>_.
     io_ret target))"

definition borrow_left :: "nat \<Rightarrow> node_page \<Rightarrow> node_page \<Rightarrow> node_page node_io" where
  "borrow_left i target left =
     io_bind get_self (\<lambda>self.
     if is_leaf target then
       io_bind (io_lift (ok_or CorruptedNode (vec_pop (keys left)))) (\<lambda>(k, left_keys).
       io_bind (io_lift (ok_or CorruptedNode (vec_pop (node_values left)))) (\<lambda>(v, left_values).
       let target = target\<lparr>keys := k # keys target, node_values := v # node_values target, changed := True\<rparr>;
           left = left\<lparr>keys := left_keys, node_values := left_values, changed := True\<rparr> in
       io_bind (io_lift (index_set (keys self) (i - 1) (hd (keys target)))) (\<lambda>ks.
       io_bind (set_self (self\<lparr>keys := ks, changed := True\<rparr>)) (\<lambda>_.
       write_two target left))))
     else
       io_bind (io_lift (ok_or CorruptedNode (vec_pop (keys left)))) (\<lambda>(left_key, left_keys).
       io_bind (io_lift (ok_or CorruptedNode (vec_pop (children left)))) (\<lambda>(left_child, left_children).
       io_bind (io_lift (index_get (keys self) (i - 1))) (\<lambda>parent_key.
       let target = target\<lparr>keys := parent_key # keys target, children := left_child # children target,
             changed := True\<rparr>;
           left = left\<lparr>keys := left_keys, children := left_children, changed := True\<rparr> in
       io_bind (set_self (self\<lparr>keys := (keys self)[i - 1 := left_key], changed := True\<rparr>)) (\<lambda>_.
       write_two target left)))))"

definition borrow_right :: "nat \<Rightarrow> node_page \<Rightarrow> node_page \<Rightarrow> node_page node_io" where
  "borrow_right i target right =
     io_bind get_self (\<lambda>self.
     if is_leaf target then
       io_bind (io_lift (vec_remove 0 (keys right))) (\<lambda>(k, right_keys).
       io_bind (io_lift (vec_remove 0 (node_values right))) (\<lambda>(v, right_values).
       let target = target\<lparr>keys := keys target @ [k], node_values := node_values target @ [v], changed := True\<rparr>;
           right = right\<lparr>keys := right_keys, node_values := right_values, changed := True\<rparr> in
       io_bind (io_lift (index_get right_keys 0)) (\<lambda>first.
       io_bind (io_lift (index_set (keys self) i first)) (\<lambda>ks.
       io_bind (set_self (self\<lparr>keys := ks, changed := True\<rparr>)) (\<lambda>_.
       write_two target right)))))
     else
       io_bind (io_lift (vec_remove 0 (keys right))) (\<lambda>(right_key, right_keys).
       io_bind (io_lift (vec_remove 0 (children right))) (\<lambda>(right_child, right_children).
       io_bind (io_lift (index_get (keys self) i)) (\<lambda>parent_key.
       let target = target\<lparr>keys := keys target @ [parent_key], children := children target @ [right_child],
             changed := True\<rparr>;
           right = right\<lparr>keys := right_keys, children := right_children, changed := True\<rparr> in
       io_bind (set_self (self\<lparr>keys := (keys self)[i := right_key], changed := True\<rparr>)) (\<lambda>_.
       write_two target right)))))"

text \<open>What a merge moves from the right one of two siblings to the left one.\<close>

definition merge_nodes :: "i32 \<Rightarrow> node_page \<Rightarrow> node_page \<Rightarrow> node_page" where
  "merge_nodes separator left right =
     (if is_leaf left
      then left\<lparr>keys := keys left @ keys right, node_values := node_values left @ node_values right,
                next_leaf := next_leaf right, changed := True\<rparr>
      else left\<lparr>keys := keys left @ [separator] @ keys right,
                children := children left @ children right, changed := True\<rparr>)"

definition merge_left :: "keeping \<Rightarrow> nat \<Rightarrow> node_page \<Rightarrow> node_page \<Rightarrow> node_page node_io" where
  "merge_left keeps i target left =
     io_bind get_self (\<lambda>self.
     io_bind (io_lift (vec_remove i (children self))) (\<lambda>(_, cs).
     io_bind (io_lift (vec_remove (i - 1) (keys self))) (\<lambda>(separator, ks).
     io_bind (set_self (self\<lparr>children := cs, keys := ks, changed := True\<rparr>)) (\<lambda>_.
     io_bind (on_pager (pager_write_page (merge_nodes separator left target))) (\<lambda>left.
     io_bind (on_pager (pager_delete_page keeps (node_id target))) (\<lambda>_.
     io_ret left))))))"

definition merge_right :: "keeping \<Rightarrow> nat \<Rightarrow> node_page \<Rightarrow> node_page \<Rightarrow> node_page node_io" where
  "merge_right keeps i target right =
     io_bind get_self (\<lambda>self.
     io_bind (io_lift (vec_remove (i + 1) (children self))) (\<lambda>(_, cs).
     io_bind (io_lift (vec_remove i (keys self))) (\<lambda>(separator, ks).
     io_bind (set_self (self\<lparr>children := cs, keys := ks, changed := True\<rparr>)) (\<lambda>_.
     io_bind (on_pager (pager_write_page (merge_nodes separator target right))) (\<lambda>target.
     io_bind (on_pager (pager_delete_page keeps (node_id right))) (\<lambda>_.
     io_ret target))))))"

text \<open>The branch of \<open>delete\<close> for an underfull child: it returns the child to delete from.\<close>

definition rebalance :: "keeping \<Rightarrow> nat \<Rightarrow> node_page \<Rightarrow> node_page node_io" where
  "rebalance keeps i target =
     io_bind get_self (\<lambda>self.
     io_bind (read_sibling keeps (0 < i) (i - 1)) (\<lambda>left_neighbor.
     io_bind (read_sibling keeps (i + 1 < length (children self)) (i + 1)) (\<lambda>right_neighbor.
     case (left_neighbor, right_neighbor) of
       (Some (left, True), _) \<Rightarrow> borrow_left i target left
     | (_, Some (right, True)) \<Rightarrow> borrow_right i target right
     | (Some (left, False), _) \<Rightarrow> merge_left keeps i target left
     | (None, Some (right, False)) \<Rightarrow> merge_right keeps i target right
     | (None, None) \<Rightarrow> io_ret target)))"

fun node_delete :: "keeping \<Rightarrow> nat \<Rightarrow> i32 \<Rightarrow> (i32 \<times> i32) option node_io" where
  "node_delete keeps 0 key = io_panic"
| "node_delete keeps (Suc fuel) key =
     io_bind get_self (\<lambda>self.
     if is_leaf self then delete_from_leaf key
     else
       let i = child_index self key in
       io_bind (io_lift (index_get (children self) i)) (\<lambda>c.
       io_bind (on_pager (pager_read_page keeps c)) (\<lambda>target.
       io_bind (io_lift (is_less_than_minimal target)) (\<lambda>underfull.
       io_bind (if underfull then rebalance keeps i target else io_ret target) (\<lambda>target.
       io_bind (on_node target (node_delete keeps fuel key)) (\<lambda>(res, target).
       io_bind (on_pager (pager_write_page target)) (\<lambda>_.
       io_lift res)))))))"

end
