(* ===== verification/BTree_Store.thy ===== *)
theory BTree_Store
  imports BTree_Node
begin

text \<open>
  \<open>BTreeStore\<close> of \<open>src/src/tree/store.rs\<close>: opening an index file, the root page, the
  lookups, insertion and deletion, and the writing of the metadata. The metadata that the code
  shares between the store and its pager is the pager's. The walks along the linked list of
  leaves are loops over pointers of a file and are bounded by \<open>fuel\<close> as the recursions are.
\<close>

type_synonym 'a btree_io = "(node_pager, 'a, btree_store_error) io"

definition from_pager :: "(node_pager, 'a, node_pager_error) io \<Rightarrow> 'a btree_io" where
  "from_pager m = io_map_err BTreeNodePager m"

definition from_node :: "'a pager_io \<Rightarrow> 'a btree_io" where
  "from_node m = io_map_err BTreeNodeOperation m"

text \<open>Running an operation with a page as its \<open>self\<close>; the page is returned.\<close>

definition with_node :: "node_page \<Rightarrow> 'a node_io \<Rightarrow> ('a \<times> node_page) btree_io" where
  "with_node n m = (\<lambda>p. case m (n, p) of
     (Inr x, (n', p')) \<Rightarrow> (Inr (x, n'), p')
   | (Inl e, (n', p')) \<Rightarrow> (map_err BTreeNodeOperation (Inl e), p'))"

section \<open>Opening\<close>

definition pager_new :: "byte list \<Rightarrow> store_meta_data \<Rightarrow> node_pager" where
  "pager_new c m = \<lparr>pager_file = c, pager_cache = (\<lambda>_. None), pager_clock = 0, pager_meta = m\<rparr>"

definition btree_create ::
  "files \<Rightarrow> string \<Rightarrow> u16 \<Rightarrow> (node_pager, btree_store_error) result \<times> files" where
  "btree_create fs path degree =
     (let m = \<lparr>meta_max_degree = degree, meta_number_of_pages = 0, first_deleted_page = None,
                meta_root = None, meta_changed = False, unique_index = True\<rparr> in
      case meta_data_to_bytes m of
        Inl e \<Rightarrow> (Inl e, fs(path := Some []))
      | Inr bs \<Rightarrow> let c = write_at [] 0 bs in (Inr (pager_new c m), fs(path := Some c)))"

definition btree_new ::
  "files \<Rightarrow> string \<Rightarrow> u16 \<Rightarrow> (node_pager, btree_store_error) result \<times> files" where
  "btree_new fs path degree =
     (if unat degree < 4 then (Inl (Err InvalidConfiguration), fs)
      else if unat degree mod 2 \<noteq> 0 then (Inl (Err InvalidConfiguration), fs)
      else
        let file_size = (case fs path of None \<Rightarrow> 0 | Some c \<Rightarrow> length c) in
        case open_file fs path of
          Inr c \<Rightarrow>
            if META_DATA_HEADER_SIZE \<le> file_size then
              (and_then (map_err (BTreeNodePager \<circ> PagerIo) (read_exact_at c 0 META_DATA_HEADER_SIZE)) (\<lambda>bs.
               and_then (read_meta_u16 bs 0) (\<lambda>d.
               and_then (read_meta_u32 bs 2) (\<lambda>n.
               and_then (read_meta_i32 bs 6) (\<lambda>first_deleted.
               and_then (read_meta_i32 bs 10) (\<lambda>r.
               Inr (pager_new c \<lparr>meta_max_degree = d, meta_number_of_pages = n,
                      first_deleted_page = read_i32_with_null first_deleted,
                      meta_root = read_i32_with_null r, meta_changed = False, unique_index = True\<rparr>)))))), fs)
            else btree_create fs path degree
        | Inl _ \<Rightarrow> btree_create fs path degree)"

section \<open>Operations\<close>

definition save_metadata :: "unit btree_io" where
  "save_metadata p =
     (if meta_changed (pager_meta p) then
        (case meta_data_to_bytes (pager_meta p) of
           Inl e \<Rightarrow> (Inl e, p)
         | Inr bs \<Rightarrow> (Inr (), p\<lparr>pager_file := write_at (pager_file p) 0 bs\<rparr>))
      else (Inr (), p))"

definition set_meta_root :: "i32 \<Rightarrow> unit btree_io" where
  "set_meta_root r p = (Inr (), pager_update_meta (\<lambda>m. m\<lparr>meta_root := Some r\<rparr>) p)"

definition btree_root :: "keeping \<Rightarrow> node_page btree_io" where
  "btree_root keeps p =
     (case meta_root (pager_meta p) of
        Some root_id \<Rightarrow> from_pager (pager_read_page keeps root_id) p
      | None \<Rightarrow>
          io_bind (from_pager (pager_allocate_new_page keeps)) (\<lambda>new_root.
          io_bind (set_meta_root (node_id new_root)) (\<lambda>_.
          io_bind save_metadata (\<lambda>_.
          io_ret new_root))) p)"

definition next_node :: "keeping \<Rightarrow> node_page \<Rightarrow> node_page option btree_io" where
  "next_node keeps n =
     (case next_leaf n of
        Some pid \<Rightarrow> io_bind (from_pager (pager_read_page keeps pid)) (\<lambda>m. io_ret (Some m))
      | None \<Rightarrow> io_ret None)"

definition read_found :: "keeping \<Rightarrow> i32 option \<Rightarrow> node_page option btree_io" where
  "read_found keeps r =
     (case r of
        Some pid \<Rightarrow> io_bind (from_pager (pager_read_page keeps pid)) (\<lambda>n. io_ret (Some n))
      | None \<Rightarrow> io_ret None)"

definition find_left_most_node :: "keeping \<Rightarrow> nat \<Rightarrow> node_page option btree_io" where
  "find_left_most_node keeps fuel =
     io_bind (btree_root keeps) (\<lambda>r.
     io_bind (from_node (node_find_left_most keeps fuel r)) (read_found keeps))"

definition find_node :: "keeping \<Rightarrow> nat \<Rightarrow> i32 \<Rightarrow> node_page option btree_io" where
  "find_node keeps fuel key =
     io_bind (btree_root keeps) (\<lambda>r.
     io_bind (from_node (node_find_node keeps fuel key r)) (read_found keeps))"

definition btree_find :: "keeping \<Rightarrow> nat \<Rightarrow> i32 \<Rightarrow> (i32 \<times> i32) option btree_io" where
  "btree_find keeps fuel key =
     io_bind (btree_root keeps) (\<lambda>r. from_node (node_find_value keeps fuel key r))"

text \<open>The values of a page whose keys satisfy a bound; \<open>values()[i]\<close> panics when there is none.\<close>

fun select_values :: "(i32 \<Rightarrow> bool) \<Rightarrow> i32 list \<Rightarrow> (i32 \<times> i32) list \<Rightarrow> ((i32 \<times> i32) list, 'e) result" where
  "select_values P [] vs = Inr []"
| "select_values P (k # ks) vs =
     (case vs of
        [] \<Rightarrow> if P k then Inl Panic else select_values P ks []
      | v # vs' \<Rightarrow> and_then (select_values P ks vs') (\<lambda>r. Inr (if P k then v # r else r)))"

fun walk_until :: "keeping \<Rightarrow> nat \<Rightarrow> (i32 \<Rightarrow> bool) \<Rightarrow> i32 \<Rightarrow> node_page option \<Rightarrow>
    (i32 \<times> i32) list \<Rightarrow> (i32 \<times> i32) list btree_io" where
  "walk_until keeps 0 P target node acc = io_panic"
| "walk_until keeps (Suc fuel) P target node acc =
     (case node of
        None \<Rightarrow> io_ret acc
      | Some next \<Rightarrow>
          if node_id next = target then
            io_bind (io_lift (select_values P (keys next) (node_values next))) (\<lambda>vs. io_ret (acc @ vs))
          else
            io_bind (next_node keeps next) (\<lambda>node.
            walk_until keeps fuel P target node (acc @ node_values next)))"

definition find_smaller_than :: "keeping \<Rightarrow> nat \<Rightarrow> i32 \<Rightarrow> bool \<Rightarrow> (i32 \<times> i32) list btree_io" where
  "find_smaller_than keeps fuel key with_equal =
     io_bind (find_left_most_node keeps fuel) (\<lambda>node.
     io_bind (find_node keeps fuel key) (\<lambda>target_node.
     case target_node of
       Some target \<Rightarrow>
         walk_until keeps fuel (\<lambda>k. k < key \<or> (with_equal \<and> k = key)) (node_id target) node []
     | None \<Rightarrow> io_ret []))"

fun walk_from :: "keeping \<Rightarrow> nat \<Rightarrow> (i32 \<Rightarrow> bool) \<Rightarrow> bool \<Rightarrow> node_page option \<Rightarrow>
    (i32 \<times> i32) list \<Rightarrow> (i32 \<times> i32) list btree_io" where
  "walk_from keeps 0 P start_node node acc = io_panic"
| "walk_from keeps (Suc fuel) P start_node node acc =
     (case node of
        None \<Rightarrow> io_ret acc
      | Some next \<Rightarrow>
          io_bind (if start_node then io_lift (select_values P (keys next) (node_values next))
                   else io_ret (node_values next)) (\<lambda>vs.
          io_bind (next_node keeps next) (\<lambda>node.
          walk_from keeps fuel P False node (acc @ vs))))"

definition find_greater_than :: "keeping \<Rightarrow> nat \<Rightarrow> i32 \<Rightarrow> bool \<Rightarrow> (i32 \<times> i32) list btree_io" where
  "find_greater_than keeps fuel key with_equal =
     io_bind (find_node keeps fuel key) (\<lambda>node.
     walk_from keeps fuel (\<lambda>k. key < k \<or> (with_equal \<and> k = key)) True node [])"

text \<open>A full root is split and becomes the left child of a new root.\<close>

definition split_root :: "keeping \<Rightarrow> node_page \<Rightarrow> node_page btree_io" where
  "split_root keeps r =
     io_bind (with_node r (node_split keeps)) (\<lambda>((rnode, root_key), r).
     io_bind (from_pager (pager_allocate_new_page keeps)) (\<lambda>new_root.
     let new_root = new_root\<lparr>keys := keys new_root @ [root_key],
           children := children new_root @ [node_id r, node_id rnode], changed := True\<rparr> in
     io_bind (set_meta_root (node_id new_root)) (\<lambda>_.
     io_ret new_root)))"

definition btree_insert :: "keeping \<Rightarrow> nat \<Rightarrow> i32 \<Rightarrow> i32 \<times> i32 \<Rightarrow> unit btree_io" where
  "btree_insert keeps fuel key v =
     io_bind (btree_root keeps) (\<lambda>r.
     io_bind (io_lift (is_full r)) (\<lambda>full.
     io_bind (if full then split_root keeps r else io_ret r) (\<lambda>r.
     (\<lambda>p. io_bind (with_node r (node_insert keeps fuel key v (unique_index (pager_meta p)))) (\<lambda>(_, r).
     io_bind (from_pager (pager_write_page r)) (\<lambda>_.
     save_metadata)) p))))"

text \<open>A root that a merge left without keys is replaced by its only child.\<close>

definition shrink_root :: "keeping \<Rightarrow> node_page \<Rightarrow> node_page btree_io" where
  "shrink_root keeps r =
     (if length (children r) \<noteq> 1 then io_panic
      else io_bind (io_lift (vec_remove 0 (children r))) (\<lambda>(new_root, _).
        io_bind (from_pager (pager_delete_page keeps (node_id r))) (\<lambda>_.
        io_bind (from_pager (pager_read_page keeps new_root)) (\<lambda>r.
        io_bind (set_meta_root new_root) (\<lambda>_.
        io_ret r)))))"

definition btree_delete :: "keeping \<Rightarrow> nat \<Rightarrow> i32 \<Rightarrow> (i32 \<times> i32) option btree_io" where
  "btree_delete keeps fuel key =
     io_bind (btree_root keeps) (\<lambda>r.
     io_bind (with_node r (node_delete keeps fuel key)) (\<lambda>(res, r).
     io_bind (if keys r = [] \<and> \<not> is_leaf r then shrink_root keeps r else io_ret r) (\<lambda>r.
     io_bind (from_pager (pager_write_page r)) (\<lambda>_.
     io_bind save_metadata (\<lambda>_.
     io_ret res)))))"

end
