(* ===== verification/Store.thy ===== *)
theory Store
  imports Page_Iter Schema BTree_Store
begin

text \<open>
  \<open>src/src/store/mod.rs\<close>: the trait \<open>Store\<close>, the names of the files behind a table and its
  free space map, and the two row iterators. The trait is a record of operations on a state
  \<open>'s\<close>, so that the free space map and the tables are generic in it as they are in the
  code; operations that only read are functions of the state. An iterator is modelled by what it
  yields when it is run to its end, a function of the state it is run in.

  An index file is opened as a handle with its own cache and metadata (\<open>node_pager\<close>);
  \<open>st_btree_file\<close> and \<open>st_set_btree_file\<close> stand for the file that the handle reads and
  writes. The laws of the trait are the locale \<open>page_store\<close>.
\<close>

section \<open>Names and errors\<close>

datatype page_storage = TableStorage i32 | FsmStorage i32

fun storage_file_path :: "page_storage \<Rightarrow> string" where
  "storage_file_path (TableStorage tid) = ''table_'' @ dec_int (i32_val tid) @ ''.dat''"
| "storage_file_path (FsmStorage tid) = ''fsm_'' @ dec_int (i32_val tid) @ ''.dat''"

lemma storage_file_path_inj: "storage_file_path a = storage_file_path b \<longleftrightarrow> a = b"
  by (cases a; cases b) (auto simp: dec_int_inj i32_eq_iff)

datatype store_error =
    StoreIo io_error
  | StorePage page_error
  | StoreMetadata read_metadata_error
  | StoreRowDeserialization row_deserialization_error
  | StoreBTree btree_store_error
  | InvalidBasePath
  | InvalidState

section \<open>The trait\<close>

record 's store_ops =
  st_delete_all :: "('s, unit, store_error) io"
  st_create :: "page_data_layout \<Rightarrow> page_storage \<Rightarrow> ('s, unit, store_error) io"
  st_delete :: "page_storage \<Rightarrow> ('s, unit, store_error) io"
  st_read_metadata :: "page_data_layout \<Rightarrow> page_storage \<Rightarrow> 's \<Rightarrow> (page_file_metadata, store_error) result"
  st_read_page :: "page_data_layout \<Rightarrow> i32 \<Rightarrow> page_storage \<Rightarrow> 's \<Rightarrow> (page, store_error) result"
  st_write_page :: "page_data_layout \<Rightarrow> page \<Rightarrow> page_storage \<Rightarrow> ('s, unit, store_error) io"
  st_allocate_page :: "page_data_layout \<Rightarrow> page_storage \<Rightarrow> ('s, page, store_error) io"
  st_seq_pages :: "page_data_layout \<Rightarrow> page_storage \<Rightarrow> 's \<Rightarrow>
      ('s \<Rightarrow> (page, store_error) result list, store_error) result"
  st_read_btree :: "i32 \<Rightarrow> ('s, node_pager, store_error) io"
  st_btree_file :: "i32 \<Rightarrow> 's \<Rightarrow> byte list"
  st_set_btree_file :: "i32 \<Rightarrow> byte list \<Rightarrow> 's \<Rightarrow> 's"

section \<open>Row iterators\<close>

type_synonym row_item = "(record_ref \<times> row, store_error) result"

text \<open>What both iterators make of a record: \<open>Row::deserialize(r.data(), schema)\<close>.\<close>

definition row_of_record :: "table_schema \<Rightarrow> record_ref \<Rightarrow> row_item" where
  "row_of_record s r =
     and_then (map_err StorePage (record_bytes r)) (\<lambda>bs.
     and_then (map_err StoreRowDeserialization (row_deserialize bs s)) (\<lambda>row.
     Inr (r, row)))"

record page_row_iterator =
  pr_records :: record_iterator
  pr_schema :: table_schema

definition page_row_iterator_new :: "page \<Rightarrow> table_schema \<Rightarrow> page_row_iterator" where
  "page_row_iterator_new p s = \<lparr>pr_records = record_iterator_new p, pr_schema = s\<rparr>"

definition page_row_next :: "page_row_iterator \<Rightarrow> row_item option \<times> page_row_iterator" where
  "page_row_next it =
     (case record_next (pr_records it) of
        (Some r, rit) \<Rightarrow> (Some (row_of_record (pr_schema it) r), it\<lparr>pr_records := rit\<rparr>)
      | (None, rit) \<Rightarrow> (None, it\<lparr>pr_records := rit\<rparr>))"

definition page_row_items :: "page_row_iterator \<Rightarrow> row_item list" where
  "page_row_items it = map (row_of_record (pr_schema it)) (collect_records (pr_records it))"

record indexed_row_iterator =
  ix_layout :: page_data_layout
  ix_table :: table
  ix_indexes :: "(i32 \<times> nat list) list"
  ix_record_iter :: "record_iterator option"

definition indexed_row_iterator_new ::
  "hash_order \<Rightarrow> table \<Rightarrow> page_data_layout \<Rightarrow> (i32 \<times> i32) list \<Rightarrow> indexed_row_iterator" where
  "indexed_row_iterator_new ho t l indexes =
     (let m = fold (\<lambda>(pid, slot_id). entry_push pid (i32_as_usize slot_id)) indexes [] in
      \<lparr>ix_layout = l, ix_table = t, ix_indexes = hash_iter ho m, ix_record_iter = None\<rparr>)"

text \<open>One turn of the loop of \<open>next\<close> that takes the next page from the vector.\<close>

function indexed_pop :: "'s store_ops \<Rightarrow> 's \<Rightarrow> indexed_row_iterator \<Rightarrow> row_item option \<times> indexed_row_iterator" where
  "indexed_pop S st it =
     (if ix_indexes it = [] then (None, it\<lparr>ix_record_iter := None\<rparr>)
      else
        let (pid, slot_ids) = last (ix_indexes it);
            it' = it\<lparr>ix_indexes := butlast (ix_indexes it), ix_record_iter := None\<rparr> in
        case st_read_page S (ix_layout it) pid (TableStorage (table_id (ix_table it))) st of
          Inl e \<Rightarrow> (Some (Inl e), it')
        | Inr p \<Rightarrow>
            (case record_next (record_iterator_from_slots p slot_ids) of
               (Some r, rit) \<Rightarrow> (Some (row_of_record (schema (ix_table it)) r), it'\<lparr>ix_record_iter := Some rit\<rparr>)
             | (None, _) \<Rightarrow> indexed_pop S st it'))"
  by auto
termination
  by (relation "measure (\<lambda>(_, _, it). length (ix_indexes it))") auto

declare indexed_pop.simps [simp del]

definition indexed_next :: "'s store_ops \<Rightarrow> 's \<Rightarrow> indexed_row_iterator \<Rightarrow> row_item option \<times> indexed_row_iterator" where
  "indexed_next S st it =
     (case ix_record_iter it of
        None \<Rightarrow> indexed_pop S st it
      | Some rit \<Rightarrow>
          (case record_next rit of
             (Some r, rit') \<Rightarrow> (Some (row_of_record (schema (ix_table it)) r), it\<lparr>ix_record_iter := Some rit'\<rparr>)
           | (None, _) \<Rightarrow> indexed_pop S st (it\<lparr>ix_record_iter := None\<rparr>)))"

text \<open>Running an indexed iterator to its end.\<close>

definition ix_left :: "indexed_row_iterator \<Rightarrow> nat" where
  "ix_left it = (case ix_record_iter it of None \<Rightarrow> 0 | Some r \<Rightarrow> length (it_slots r) - next_slot r)"

lemma indexed_pop_progress:
  "indexed_pop S st it = (Some x, it') \<Longrightarrow> length (ix_indexes it') < length (ix_indexes it)"
proof (induction S st it rule: indexed_pop.induct)
  case (1 S st it)
  note eq = indexed_pop.simps [of S st it]
  show ?case
  proof (cases "ix_indexes it = []")
    case True
    then show ?thesis using "1.prems" eq by simp
  next
    case False
    obtain pid slot_ids where l: "last (ix_indexes it) = (pid, slot_ids)" by force
    let ?it = "it\<lparr>ix_indexes := butlast (ix_indexes it), ix_record_iter := None\<rparr>"
    have less: "length (ix_indexes ?it) < length (ix_indexes it)"
      using False by simp
    have rec: "length (ix_indexes it') < length (ix_indexes it)"
      if "st_read_page S (ix_layout it) pid (TableStorage (table_id (ix_table it))) st = Inr p"
        "record_next (record_iterator_from_slots p slot_ids) = (None, rit)"
        "indexed_pop S st ?it = (Some x, it')" for p rit
      using "1.IH" [OF False l [symmetric] refl refl that(1) that(2) [symmetric] refl that(3)] less
      by (rule less_trans)
    show ?thesis
      using "1.prems" eq False less rec
      by (auto simp: Let_def l split: sum.splits prod.splits option.splits)
  qed
qed

lemma indexed_next_progress:
  assumes "indexed_next S st it = (Some x, it')"
  shows "(it', it) \<in> measures [\<lambda>it. length (ix_indexes it), ix_left]"
proof (cases "ix_record_iter it")
  case None
  then show ?thesis
    using assms indexed_pop_progress [of S st it x it'] by (simp add: indexed_next_def)
next
  case (Some rit)
  then show ?thesis
    using assms indexed_pop_progress [of S st "it\<lparr>ix_record_iter := None\<rparr>" x it']
    by (auto simp: indexed_next_def ix_left_def split: prod.splits option.splits
        dest!: record_next_progress)
qed

function indexed_collect :: "'s store_ops \<Rightarrow> 's \<Rightarrow> indexed_row_iterator \<Rightarrow> row_item list" where
  "indexed_collect S st it =
     (case indexed_next S st it of (None, _) \<Rightarrow> [] | (Some x, it') \<Rightarrow> x # indexed_collect S st it')"
  by auto
termination
  by (relation "inv_image (measures [\<lambda>it. length (ix_indexes it), ix_left]) (\<lambda>(_, _, it). it)")
    (auto dest!: indexed_next_progress [OF sym] simp del: in_measures)

declare indexed_collect.simps [simp del]

lemma indexed_collect_records:
  "indexed_collect S st (it\<lparr>ix_record_iter := Some rit\<rparr>) =
     map (row_of_record (schema (ix_table it))) (collect_records rit) @
     indexed_collect S st (it\<lparr>ix_record_iter := None\<rparr>)"
proof (induction "collect_records rit" arbitrary: rit)
  case Nil
  then obtain rit' where "record_next rit = (None, rit')"
    by (subst (asm) collect_records.simps) (auto split: prod.splits option.splits)
  then have "indexed_next S st (it\<lparr>ix_record_iter := Some rit\<rparr>) = indexed_pop S st (it\<lparr>ix_record_iter := None\<rparr>)"
    by (simp add: indexed_next_def)
  then show ?case
    using Nil by (simp add: indexed_collect.simps [of S st "it\<lparr>ix_record_iter := _\<rparr>"]
        indexed_next_def [of S st "it\<lparr>ix_record_iter := None\<rparr>"])
next
  case (Cons r rs)
  then obtain rit' where nx: "record_next rit = (Some r, rit')" "collect_records rit' = rs"
    by (subst (asm) (2) collect_records.simps) (auto split: prod.splits option.splits)
  then have "indexed_next S st (it\<lparr>ix_record_iter := Some rit\<rparr>) =
      (Some (row_of_record (schema (ix_table it)) r), it\<lparr>ix_record_iter := Some rit'\<rparr>)"
    by (simp add: indexed_next_def)
  then show ?case
    using Cons(1) [OF nx(2) [symmetric]] Cons(2) [symmetric] nx(2)
    by (subst indexed_collect.simps) simp
qed

definition indexed_page_items :: "'s store_ops \<Rightarrow> 's \<Rightarrow> indexed_row_iterator \<Rightarrow> i32 \<times> nat list \<Rightarrow> row_item list" where
  "indexed_page_items S st it = (\<lambda>(pid, slot_ids).
     case st_read_page S (ix_layout it) pid (TableStorage (table_id (ix_table it))) st of
       Inl e \<Rightarrow> [Inl e]
     | Inr p \<Rightarrow> map (row_of_record (schema (ix_table it)))
                  (collect_records (record_iterator_from_slots p slot_ids)))"

lemma indexed_collect_eq:
  assumes "ix_record_iter it = None"
  shows "indexed_collect S st it = concat (map (indexed_page_items S st it) (rev (ix_indexes it)))"
  using assms
proof (induction "length (ix_indexes it)" arbitrary: it)
  case 0
  then show ?case
    by (simp add: indexed_collect.simps [of S st it] indexed_next_def indexed_pop.simps [of S st it])
next
  case (Suc n)
  then have ne: "ix_indexes it \<noteq> []" by auto
  obtain pid ids where l: "last (ix_indexes it) = (pid, ids)" by force
  let ?it = "it\<lparr>ix_indexes := butlast (ix_indexes it), ix_record_iter := None\<rparr>"
  have IH: "indexed_collect S st ?it = concat (map (indexed_page_items S st ?it) (rev (butlast (ix_indexes it))))"
    using Suc(1) [of ?it] Suc(2) by simp
  have items: "indexed_page_items S st ?it = indexed_page_items S st it"
    by (simp add: indexed_page_items_def fun_eq_iff split: sum.split)
  have "indexed_collect S st it = indexed_page_items S st it (pid, ids) @ indexed_collect S st ?it"
  proof (cases "st_read_page S (ix_layout it) pid (TableStorage (table_id (ix_table it))) st")
    case (Inl e)
    then show ?thesis
      using ne l Suc(3)
      by (subst indexed_collect.simps) (simp add: indexed_next_def indexed_pop.simps [of S st it]
          indexed_page_items_def)
  next
    case (Inr p)
    let ?rit = "record_iterator_from_slots p ids"
    have "indexed_next S st it = indexed_next S st (?it\<lparr>ix_record_iter := Some ?rit\<rparr>)"
      using Inr ne l Suc(3)
      by (simp add: indexed_next_def indexed_pop.simps [of S st it] split: prod.split option.split)
    then have "indexed_collect S st it = indexed_collect S st (?it\<lparr>ix_record_iter := Some ?rit\<rparr>)"
      by (subst (1 2) indexed_collect.simps) simp
    then show ?thesis
      using Inr by (simp add: indexed_collect_records indexed_page_items_def)
  qed
  moreover have "rev (ix_indexes it) = (pid, ids) # rev (butlast (ix_indexes it))"
    using ne l by (metis append_butlast_last_id rev.simps(2) rev_rev_ident)
  ultimately show ?case
    unfolding IH items by (simp only: list.map concat.simps)
qed

section \<open>What a store promises\<close>

text \<open>Nothing but the data structure \<open>st\<close> differs between two states.\<close>

definition others_same ::
  "('s \<Rightarrow> page_storage \<Rightarrow> bool) \<Rightarrow> ('s \<Rightarrow> page_storage \<Rightarrow> nat) \<Rightarrow>
   ('s \<Rightarrow> page_storage \<Rightarrow> i32 \<Rightarrow> page option) \<Rightarrow> page_storage \<Rightarrow> 's \<Rightarrow> 's \<Rightarrow> bool" where
  "others_same ok count pages st s t \<longleftrightarrow>
     (\<forall>u. u \<noteq> st \<longrightarrow> ok s u \<longrightarrow> ok t u \<and> count t u = count s u \<and> pages t u = pages s u)"

lemma others_same_refl [simp]: "others_same ok count pages st s s"
  by (simp add: others_same_def)

lemma others_same_trans [trans]:
  "others_same ok count pages st s t \<Longrightarrow> others_same ok count pages st t u \<Longrightarrow> others_same ok count pages st s u"
  by (simp add: others_same_def)

text \<open>
  The pages of a data structure \<open>st\<close> are numbered from 1 to \<open>count\<close>. Reading gives the
  page that was written last (as its serialized image) and fails where there is none, allocation appends one empty page, and no
  operation on a data structure touches another one.
\<close>

locale page_store =
  fixes S :: "'s store_ops"
    and l :: page_data_layout
    and ok :: "'s \<Rightarrow> page_storage \<Rightarrow> bool"
    and count :: "'s \<Rightarrow> page_storage \<Rightarrow> nat"
    and pages :: "'s \<Rightarrow> page_storage \<Rightarrow> i32 \<Rightarrow> page option"
  assumes metadata_law: "ok s st \<Longrightarrow> st_read_metadata S l st s =
      Inr \<lparr>next_id = usize_as_i32 (count s st + 1), number_of_pages = usize_as_i32 (count s st)\<rparr>"
    and count_bound: "ok s st \<Longrightarrow> count s st + 1 < 2 ^ 31"
    and pages_dom: "ok s st \<Longrightarrow> pages s st i = Some p \<Longrightarrow> 1 \<le> i32_val i \<and> i32_val i \<le> int (count s st)"
    and read_law: "ok s st \<Longrightarrow> pages s st i = Some p \<Longrightarrow> st_read_page S l i st s = Inr p"
    and missing_law: "ok s st \<Longrightarrow> pages s st i = None \<Longrightarrow> \<exists>e. st_read_page S l i st s = Inl e"
    and write_law: "ok s st \<Longrightarrow> page_wf p \<Longrightarrow> layout p = l \<Longrightarrow> 1 \<le> i32_val (page_id p) \<Longrightarrow>
      i32_val (page_id p) \<le> int (count s st) \<Longrightarrow>
      \<exists>t. st_write_page S l p st s = (Inr (), t) \<and> ok t st \<and> count t st = count s st \<and>
        pages t st = (pages s st)(page_id p \<mapsto> page_image p) \<and>
        others_same ok count pages st s t"
    and allocate_law: "ok s st \<Longrightarrow> count s st + 2 < 2 ^ 31 \<Longrightarrow>
      \<exists>t. st_allocate_page S l st s =
          (Inr (set_page_id (usize_as_i32 (count s st + 1)) (page_new l)), t) \<and>
        ok t st \<and> count t st = count s st + 1 \<and>
        pages t st = (pages s st)(usize_as_i32 (count s st + 1) \<mapsto>
          set_page_id (usize_as_i32 (count s st + 1)) (page_new l)) \<and>
        others_same ok count pages st s t"
begin

lemma read_after_write:
  assumes "ok s st" and "page_wf p" and "layout p = l" and "pages s st (page_id p) = Some q"
    and "st_write_page S l p st s = (r, t)"
  shows "st_read_page S l (page_id p) st t = Inr (page_image p)"
    and "i \<noteq> page_id p \<Longrightarrow> pages s st i = Some q' \<Longrightarrow> st_read_page S l i st t = Inr q'"
proof -
  have "1 \<le> i32_val (page_id p) \<and> i32_val (page_id p) \<le> int (count s st)"
    using pages_dom [OF assms(1,4)] .
  with write_law [OF assms(1,2,3)] assms(5) have t: "ok t st" "pages t st = (pages s st)(page_id p \<mapsto> page_image p)"
    by auto
  show "st_read_page S l (page_id p) st t = Inr (page_image p)"
    by (rule read_law [OF t(1)]) (simp add: t(2))
  show "i \<noteq> page_id p \<Longrightarrow> pages s st i = Some q' \<Longrightarrow> st_read_page S l i st t = Inr q'"
    by (rule read_law [OF t(1)]) (simp add: t(2))
qed

lemma allocate_fresh:
  assumes "ok s st" and "count s st + 2 < 2 ^ 31" and "st_allocate_page S l st s = (Inr p, t)"
  shows "pages s st (page_id p) = None" and "st_read_page S l (page_id p) st t = Inr p"
    and "pages s st i = Some q \<Longrightarrow> st_read_page S l i st t = Inr q"
proof -
  let ?n = "usize_as_i32 (count s st + 1)"
  have t: "p = set_page_id ?n (page_new l)" "ok t st" "pages t st = (pages s st)(?n \<mapsto> p)"
    using allocate_law [OF assms(1,2)] assms(3) by auto
  have id: "page_id p = ?n" "i32_val ?n = int (count s st + 1)"
    using assms(2) by (simp_all add: t(1) set_page_id_def)
  show none: "pages s st (page_id p) = None"
    using pages_dom [OF assms(1), of ?n] id by (cases "pages s st ?n") auto
  show "st_read_page S l (page_id p) st t = Inr p"
    by (rule read_law [OF t(2)]) (simp add: t(3) id)
  show "pages s st i = Some q \<Longrightarrow> st_read_page S l i st t = Inr q"
    using none id by (intro read_law [OF t(2)]) (auto simp: t(3))
qed

end

end
