(* ===== verification/File_Store.thy ===== *)
theory File_Store
  imports Store
begin

text \<open>
  \<open>src/src/store/file_store.rs\<close>: the store on files. A data structure is one file, 8 bytes of
  metadata followed by its pages in the order of their ids. The state is the directory of the
  store (\<open>files\<close>); the theory ends with the store's invariant and the interpretation of the
  contract \<open>page_store\<close>.
\<close>

definition BTREE_MAX_DEGREE :: u16 where "BTREE_MAX_DEGREE = 500"

definition file_store_new :: "(string \<Rightarrow> bool) \<Rightarrow> string \<Rightarrow> (string, store_error) result" where
  "file_store_new is_dir base_path = (if \<not> is_dir base_path then Inl (Err InvalidBasePath) else Inr base_path)"

definition file_delete :: "page_storage \<Rightarrow> (files, unit, store_error) io" where
  "file_delete st fs =
     (case remove_file fs (storage_file_path st) of
        Inl e \<Rightarrow> (map_err StoreIo (Inl e), fs)
      | Inr fs' \<Rightarrow> (Inr (), fs'))"

definition file_write_metadata ::
  "page_data_layout \<Rightarrow> page_file_metadata \<Rightarrow> page_storage \<Rightarrow> (files, unit, store_error) io" where
  "file_write_metadata l m st fs =
     (case and_then (map_err StoreIo (open_file fs (storage_file_path st))) (\<lambda>c.
           and_then (map_err StoreMetadata (metadata_serialize m l)) (\<lambda>bs. Inr (write_at c 0 bs))) of
        Inl e \<Rightarrow> (Inl e, fs)
      | Inr c \<Rightarrow> (Inr (), fs(storage_file_path st := Some c)))"

definition file_init :: "page_data_layout \<Rightarrow> page_storage \<Rightarrow> (files, unit, store_error) io" where
  "file_init l st = file_write_metadata l metadata_new st"

text \<open>\<open>delete_all\<close> lists the directory and prints; the removal is commented out.\<close>

definition file_delete_all :: "(files, unit, store_error) io" where
  "file_delete_all fs = (Inr (), fs)"

definition file_read_metadata ::
  "page_data_layout \<Rightarrow> page_storage \<Rightarrow> files \<Rightarrow> (page_file_metadata, store_error) result" where
  "file_read_metadata l st fs =
     (case fs (storage_file_path st) of
        None \<Rightarrow> Inl (Err InvalidState)
      | Some c \<Rightarrow>
          if length c < metadata_size l then Inl (Err InvalidBasePath)
          else and_then (map_err StoreIo (read_exact_at c 0 (metadata_size l))) (\<lambda>buf.
               map_err StoreMetadata (metadata_deserialize buf)))"

text \<open>
  The offset of a page: the subtraction in \<open>i32\<close>, the sign extension to 64 bits, and the
  product and the sum in \<open>usize\<close>.
\<close>

definition page_position :: "page_data_layout \<Rightarrow> i32 \<Rightarrow> (nat, store_error) result" where
  "page_position l pid =
     and_then (i32_checked (i32_val pid - 1)) (\<lambda>page_pos.
     let off = metadata_size l + i32_as_usize page_pos * page_size l in
     if off < 2 ^ 64 then Inr off else Inl Panic)"

definition file_read_page ::
  "page_data_layout \<Rightarrow> i32 \<Rightarrow> page_storage \<Rightarrow> files \<Rightarrow> (page, store_error) result" where
  "file_read_page l pid st fs =
     (if i32_val pid < 1 then Inl (Err InvalidState)
      else and_then (map_err StoreIo (open_file fs (storage_file_path st))) (\<lambda>c.
           and_then (page_position l pid) (\<lambda>off.
           and_then (map_err StoreIo (read_exact_at c off (page_size l))) (\<lambda>page_data.
           map_err StorePage (deserialize page_data l)))))"

definition file_write_page ::
  "page_data_layout \<Rightarrow> page \<Rightarrow> page_storage \<Rightarrow> (files, unit, store_error) io" where
  "file_write_page l p st fs =
     (case and_then (map_err StorePage (serialize p)) (\<lambda>dat.
           and_then (map_err StoreIo (open_file fs (storage_file_path st))) (\<lambda>c.
           and_then (page_position l (page_id p)) (\<lambda>off. Inr (write_at c off dat)))) of
        Inl e \<Rightarrow> (Inl e, fs)
      | Inr c \<Rightarrow> (Inr (), fs(storage_file_path st := Some c)))"

definition file_allocate_page :: "page_data_layout \<Rightarrow> page_storage \<Rightarrow> (files, page, store_error) io" where
  "file_allocate_page l st =
     io_bind (io_read (file_read_metadata l st)) (\<lambda>m.
     io_bind (io_lift (map_err StoreMetadata (allocate_next_page_id m))) (\<lambda>(pid, m).
     let new_page = set_page_id pid (page_new l) in
     io_bind (file_write_metadata l m st) (\<lambda>_.
     io_bind (file_write_page l new_page st) (\<lambda>_.
     io_ret new_page))))"

definition file_create :: "page_data_layout \<Rightarrow> page_storage \<Rightarrow> (files, unit, store_error) io" where
  "file_create l st fs =
     (if fs (storage_file_path st) \<noteq> None then (Inl (Err InvalidState), fs)
      else file_init l st (fs(storage_file_path st := Some [])))"

section \<open>Reading all pages\<close>

text \<open>\<open>fi_reader\<close> is the position of the buffered reader on the page file.\<close>

record file_page_iterator =
  fi_layout :: page_data_layout
  fi_storage :: page_storage
  fi_reader :: "nat option"
  fi_current_page_id :: i32
  fi_total_pages :: i32

definition file_page_iterator_new ::
  "page_data_layout \<Rightarrow> page_storage \<Rightarrow> files \<Rightarrow> (file_page_iterator, store_error) result" where
  "file_page_iterator_new l st fs =
     and_then (file_read_metadata l st fs) (\<lambda>m.
     Inr \<lparr>fi_layout = l, fi_storage = st, fi_reader = None, fi_current_page_id = i32_of_int 1,
          fi_total_pages = number_of_pages m\<rparr>)"

definition file_page_next :: "files \<Rightarrow> file_page_iterator \<Rightarrow> (page, store_error) result option \<times> file_page_iterator" where
  "file_page_next fs it =
     (if fi_total_pages it < fi_current_page_id it then (None, it)
      else
        let page =
          (case fi_reader it of
             Some pos \<Rightarrow>
               and_then (map_err StoreIo (open_file fs (storage_file_path (fi_storage it)))) (\<lambda>c.
               and_then (map_err StoreIo (read_exact_at c pos (page_size (fi_layout it)))) (\<lambda>buf.
               map_err StorePage (deserialize buf (fi_layout it))))
           | None \<Rightarrow> file_read_page (fi_layout it) (fi_current_page_id it) (fi_storage it) fs)
        in case i32_checked (i32_val (fi_current_page_id it) + 1) of
             Inl e \<Rightarrow> (Some (Inl e), it)
           | Inr n \<Rightarrow> (Some page, it\<lparr>fi_current_page_id := n,
                 fi_reader := map_option (\<lambda>pos. pos + page_size (fi_layout it)) (fi_reader it)\<rparr>))"

function file_pages_run :: "files \<Rightarrow> file_page_iterator \<Rightarrow> (page, store_error) result list" where
  "file_pages_run fs it =
     (case file_page_next fs it of
        (None, _) \<Rightarrow> []
      | (Some r, it') \<Rightarrow> if r = Inl Panic then [r] else r # file_pages_run fs it')"
  by auto
termination
proof (relation "measure (\<lambda>(_, it). nat (i32_val (fi_total_pages it) - i32_val (fi_current_page_id it) + 1))")
  fix fs it a r and it' :: file_page_iterator
  assume nx: "(a, it') = file_page_next fs it" "a = Some r" "r \<noteq> Inl Panic"
  then have "fi_total_pages it' = fi_total_pages it" "fi_current_page_id it \<le> fi_total_pages it"
    "i32_val (fi_current_page_id it') = i32_val (fi_current_page_id it) + 1"
    by (auto simp: file_page_next_def Let_def i32_checked_def not_less split: if_splits sum.splits)
  then show "((fs, it'), fs, it) \<in> measure (\<lambda>(_, it). nat (i32_val (fi_total_pages it) - i32_val (fi_current_page_id it) + 1))"
    by (simp add: i32_le_iff)
qed simp

declare file_pages_run.simps [simp del]

definition file_seq_pages ::
  "page_data_layout \<Rightarrow> page_storage \<Rightarrow> files \<Rightarrow> (files \<Rightarrow> (page, store_error) result list, store_error) result" where
  "file_seq_pages l st fs =
     and_then (map_err StoreIo (open_file fs (storage_file_path st))) (\<lambda>_.
     and_then (file_page_iterator_new l st fs) (\<lambda>it.
     Inr (\<lambda>fs'. file_pages_run fs' (it\<lparr>fi_reader := Some (metadata_size l)\<rparr>))))"

section \<open>Index files\<close>

definition btree_file_path :: "i32 \<Rightarrow> string" where
  "btree_file_path bid = ''btreeindex_'' @ dec_int (i32_val bid) @ ''.dat''"

definition file_read_btree :: "i32 \<Rightarrow> (files, node_pager, store_error) io" where
  "file_read_btree bid fs =
     (case btree_new fs (btree_file_path bid) BTREE_MAX_DEGREE of (r, fs') \<Rightarrow> (map_err StoreBTree r, fs'))"

definition file_btree_file :: "i32 \<Rightarrow> files \<Rightarrow> byte list" where
  "file_btree_file bid fs = (case fs (btree_file_path bid) of None \<Rightarrow> [] | Some c \<Rightarrow> c)"

definition file_set_btree_file :: "i32 \<Rightarrow> byte list \<Rightarrow> files \<Rightarrow> files" where
  "file_set_btree_file bid c fs = fs(btree_file_path bid := Some c)"

definition file_store :: "files store_ops" where
  "file_store =
     \<lparr>st_delete_all = file_delete_all, st_create = file_create, st_delete = file_delete,
      st_read_metadata = file_read_metadata, st_read_page = file_read_page,
      st_write_page = file_write_page, st_allocate_page = file_allocate_page,
      st_seq_pages = file_seq_pages, st_read_btree = file_read_btree,
      st_btree_file = file_btree_file, st_set_btree_file = file_set_btree_file\<rparr>"

section \<open>The invariant of a page file\<close>

definition file_count :: "page_data_layout \<Rightarrow> files \<Rightarrow> page_storage \<Rightarrow> nat" where
  "file_count l fs st =
     (case fs (storage_file_path st) of None \<Rightarrow> 0 | Some c \<Rightarrow> (length c - 8) div page_size l)"

text \<open>The file holds exactly the pages that its metadata counts.\<close>

definition page_file_ok :: "page_data_layout \<Rightarrow> byte list \<Rightarrow> nat \<Rightarrow> bool" where
  "page_file_ok l c n \<longleftrightarrow> length c = 8 + n * page_size l \<and> n + 1 < 2 ^ 31 \<and>
     take 8 c = i32_to_be (usize_as_i32 (n + 1)) @ i32_to_be (usize_as_i32 n)"

definition file_ok :: "page_data_layout \<Rightarrow> files \<Rightarrow> page_storage \<Rightarrow> bool" where
  "file_ok l fs st \<longleftrightarrow> layout_ok l \<and>
     (case fs (storage_file_path st) of None \<Rightarrow> False | Some c \<Rightarrow> page_file_ok l c (file_count l fs st))"

definition file_pages :: "page_data_layout \<Rightarrow> files \<Rightarrow> page_storage \<Rightarrow> i32 \<Rightarrow> page option" where
  "file_pages l fs st i =
     (if 1 \<le> i32_val i \<and> i32_val i \<le> int (file_count l fs st)
      then (case file_read_page l i st fs of Inr p \<Rightarrow> Some p | Inl _ \<Rightarrow> None) else None)"

definition page_off :: "page_data_layout \<Rightarrow> i32 \<Rightarrow> nat" where
  "page_off l i = 8 + (nat (i32_val i) - 1) * page_size l"

lemma file_okD:
  assumes "file_ok l fs st"
  obtains c where "fs (storage_file_path st) = Some c" and "page_file_ok l c (file_count l fs st)" and "layout_ok l"
  using assms by (auto simp: file_ok_def split: option.splits)

lemma page_position_ok:
  assumes "layout_ok l" and "1 \<le> i32_val i"
  shows "page_position l i = Inr (page_off l i)"
proof -
  have i: "i32_val i < 2 ^ 31" by (rule i32_val_range)
  have pos: "i32_val (i32_of_int (i32_val i - 1)) = i32_val i - 1"
    using assms(2) i by (intro i32_val_of_int) simp_all
  have "nat (i32_val i) - 1 < 2 ^ 31"
    using i assms(2) by simp
  then have "(nat (i32_val i) - 1) * page_size l \<le> 2 ^ 31 * 2 ^ 15"
    using layout_ok_bounds(2) [OF assms(1)] by (intro mult_le_mono) simp_all
  then show ?thesis
    using assms(2) i pos
    by (simp add: page_position_def i32_checked_def i32_as_usize_nonneg metadata_size_def layout_consts
        page_off_def nat_diff_distrib)
qed

lemma page_off_inside:
  assumes "page_file_ok l c n" and "1 \<le> i32_val i" and "i32_val i \<le> int n"
  shows "page_off l i + page_size l \<le> length c"
proof -
  have "Suc (nat (i32_val i) - 1) \<le> n"
    using assms(2,3) by simp
  then have "Suc (nat (i32_val i) - 1) * page_size l \<le> n * page_size l"
    by (rule mult_le_mono1)
  then show ?thesis
    using assms(1) by (simp add: page_off_def page_file_ok_def)
qed

lemma page_off_disjoint:
  assumes "i \<noteq> j" and "1 \<le> i32_val i" and "1 \<le> i32_val j"
  shows "page_off l i + page_size l \<le> page_off l j \<or> page_off l j + page_size l \<le> page_off l i"
proof -
  have step: "a * page_size l + page_size l \<le> b * page_size l" if "a < b" for a b
    using mult_le_mono1 [of "Suc a" b "page_size l"] that by simp
  have "nat (i32_val i) - 1 \<noteq> nat (i32_val j) - 1"
    using assms by (simp add: i32_eq_iff)
  then show ?thesis
    using step by (auto simp: page_off_def neq_iff)
qed

lemma file_count_eq:
  assumes "fs (storage_file_path st) = Some c" and "page_file_ok l c n" and "layout_ok l"
  shows "file_count l fs st = n"
proof -
  have "0 < page_size l" using layout_ok_bounds(1) [OF assms(3)] by simp
  then show ?thesis
    using assms by (simp add: file_count_def page_file_ok_def)
qed

lemma file_okI:
  assumes "fs (storage_file_path st) = Some c" and "page_file_ok l c n" and "layout_ok l"
  shows "file_ok l fs st"
  using assms file_count_eq [of fs st c l n] by (simp add: file_ok_def)

lemma file_read_page_eq:
  assumes "layout_ok l" and "fs (storage_file_path st) = Some c" and "1 \<le> i32_val i"
  shows "file_read_page l i st fs =
    and_then (map_err StoreIo (read_exact_at c (page_off l i) (page_size l))) (\<lambda>dat.
      map_err StorePage (deserialize dat l))"
  using assms by (simp add: file_read_page_def open_file_def page_position_ok)

lemma page_bytes_written:
  assumes "page_wf p" and "layout p = l"
  obtains bs where "serialize p = Inr bs" and "length bs = page_size l" and "deserialize bs l = Inr (page_image p)"
proof -
  have lay: "layout_ok (layout p)" and reg: "regions_ok p" and fits: "slot_size p \<le> data_offset p"
    using assms by (simp_all add: page_wf_def directory_fits_def)
  have le: "slot_size p \<le> page_data_size (layout p)"
    using fits regions_okD(2) [OF reg] by simp
  have "length (slots p) * 7 \<le> length (page_bytes p)"
    using le regions_okD(1) [OF reg] by (simp add: slot_size_def layout_consts)
  moreover have "14 + length (page_bytes p) = page_size (layout p)"
    using regions_okD(1) [OF reg] layout_ok_bounds(1) [OF lay] by (simp add: page_data_size_def layout_consts)
  ultimately show thesis
    using serialize_eq [OF lay regions_okD(1) [OF reg] le] deserialize_serialize [OF lay reg le] assms(2)
    by (intro that) auto
qed

lemma empty_page:
  assumes "layout_ok l"
  shows "page_wf (set_page_id i (page_new l))" and "page_image (set_page_id i (page_new l)) = set_page_id i (page_new l)"
    and "layout (set_page_id i (page_new l)) = l" and "page_id (set_page_id i (page_new l)) = i"
  using assms
  by (simp_all add: page_wf_def regions_ok_def directory_fits_def set_page_id_def page_new_def slot_size_def
      page_image_def slot_directory_def)

text \<open>Replacing one page file leaves the others alone.\<close>

lemma file_frame:
  assumes "u \<noteq> st"
  shows "file_ok l (fs(storage_file_path st := x)) u = file_ok l fs u"
    and "file_count l (fs(storage_file_path st := x)) u = file_count l fs u"
    and "file_pages l (fs(storage_file_path st := x)) u = file_pages l fs u"
proof -
  have ne: "storage_file_path u \<noteq> storage_file_path st"
    using assms by (simp add: storage_file_path_inj)
  then show count: "file_count l (fs(storage_file_path st := x)) u = file_count l fs u"
    by (simp add: file_count_def)
  show "file_ok l (fs(storage_file_path st := x)) u = file_ok l fs u"
    using ne count by (simp add: file_ok_def split: option.split)
  have "file_read_page l i u (fs(storage_file_path st := x)) = file_read_page l i u fs" for i
    using ne by (simp add: file_read_page_def open_file_def)
  then show "file_pages l (fs(storage_file_path st := x)) u = file_pages l fs u"
    using count by (simp add: file_pages_def fun_eq_iff)
qed

text \<open>One page of a file is written.\<close>

lemma write_page_image:
  assumes "layout_ok l" and "fs (storage_file_path st) = Some c" and "page_wf p" and "layout p = l"
    and "1 \<le> i32_val (page_id p)"
  obtains bs where "length bs = page_size l"
    and "file_write_page l p st fs =
      (Inr (), fs(storage_file_path st := Some (write_at c (page_off l (page_id p)) bs)))"
    and "deserialize bs l = Inr (page_image p)"
proof -
  obtain bs where "serialize p = Inr bs" "length bs = page_size l" "deserialize bs l = Inr (page_image p)"
    using assms(3,4) by (rule page_bytes_written)
  then show thesis
    using assms by (intro that [of bs]) (simp_all add: file_write_page_def open_file_def page_position_ok)
qed

lemma file_ok_write_page:
  assumes "file_ok l fs st" and "page_wf p" and "layout p = l"
    and "1 \<le> i32_val (page_id p)" and "i32_val (page_id p) \<le> int (file_count l fs st)"
  shows "\<exists>t. file_write_page l p st fs = (Inr (), t) \<and> file_ok l t st \<and>
    file_count l t st = file_count l fs st \<and>
    file_pages l t st = (file_pages l fs st)(page_id p \<mapsto> page_image p) \<and>
    (\<forall>u. u \<noteq> st \<longrightarrow> file_ok l fs u \<longrightarrow>
       file_ok l t u \<and> file_count l t u = file_count l fs u \<and> file_pages l t u = file_pages l fs u)"
proof -
  let ?n = "file_count l fs st" and ?off = "page_off l (page_id p)"
  obtain c where c: "fs (storage_file_path st) = Some c" "page_file_ok l c ?n" "layout_ok l"
    using assms(1) by (rule file_okD)
  obtain bs where bs: "length bs = page_size l" "deserialize bs l = Inr (page_image p)"
    "file_write_page l p st fs = (Inr (), fs(storage_file_path st := Some (write_at c ?off bs)))"
    using write_page_image [of l fs st c p] c assms(2-4) by metis
  define t where "t = fs(storage_file_path st := Some (write_at c ?off bs))"
  have tc: "t (storage_file_path st) = Some (write_at c ?off bs)"
    by (simp add: t_def)
  have inside: "?off + page_size l \<le> length c" and off8: "8 \<le> ?off"
    using page_off_inside [OF c(2) assms(4,5)] by (simp_all add: page_off_def)
  have ne: "bs \<noteq> []"
    using bs(1) layout_ok_bounds(1) [OF c(3)] by auto
  have len: "length (write_at c ?off bs) = length c"
    using inside bs(1) by (simp add: length_write_at)
  have "read_exact_at c 0 8 = Inr (take 8 c)"
    using c(2) by (simp add: read_exact_at_Inr_iff page_file_ok_def)
  then have "read_exact_at (write_at c ?off bs) 0 8 = Inr (take 8 c)"
    using off8 by (intro read_write_other) simp_all
  then have pf: "page_file_ok l (write_at c ?off bs) ?n"
    using c(2) len by (simp add: page_file_ok_def read_exact_at_Inr_iff)
  have ok: "file_ok l t st" and count: "file_count l t st = ?n"
    using file_okI [of t st, OF tc pf c(3)] file_count_eq [of t st, OF tc pf c(3)] by simp_all
  have same: "file_read_page l (page_id p) st t = Inr (page_image p)"
    using assms(4) by (simp add: file_read_page_eq [of l t st, OF c(3) tc] read_write_same bs)
  have other: "file_read_page l i st t = file_read_page l i st fs"
    if "i \<noteq> page_id p" "1 \<le> i32_val i" "i32_val i \<le> int ?n" for i
  proof -
    have "page_off l i + page_size l \<le> length c"
      using c(2) that(2,3) by (rule page_off_inside)
    then have r: "read_exact_at c (page_off l i) (page_size l) = Inr (take (page_size l) (drop (page_off l i) c))"
      by (simp add: read_exact_at_Inr_iff)
    have "read_exact_at (write_at c ?off bs) (page_off l i) (page_size l) =
        read_exact_at c (page_off l i) (page_size l)"
      unfolding r using page_off_disjoint [OF that(1,2) assms(4), of l] bs(1)
      by (intro read_write_other [OF r]) simp
    then show ?thesis
      using that(2) by (simp add: file_read_page_eq [of l t st, OF c(3) tc] file_read_page_eq [of l fs st, OF c(3) c(1)])
  qed
  have "file_pages l t st = (file_pages l fs st)(page_id p \<mapsto> page_image p)"
    using same other assms(4,5) by (auto simp: file_pages_def count fun_eq_iff)
  then show ?thesis
    using bs(3) ok count file_frame [of _ st l fs "Some (write_at c ?off bs)"]
    by (intro exI [of _ t]) (simp add: t_def)
qed

lemma metadata_bytes:
  "metadata_serialize m l = Inr (i32_to_be (next_id m) @ i32_to_be (number_of_pages m))"
  by (simp add: metadata_serialize_def metadata_size_def layout_consts)

lemma file_ok_metadata:
  assumes "file_ok l fs st"
  shows "file_read_metadata l st fs = Inr \<lparr>next_id = usize_as_i32 (file_count l fs st + 1),
    number_of_pages = usize_as_i32 (file_count l fs st)\<rparr>"
proof -
  obtain c where c: "fs (storage_file_path st) = Some c" "page_file_ok l c (file_count l fs st)"
    using assms by (rule file_okD)
  have len: "8 \<le> length c" and t: "take 8 c = i32_to_be (usize_as_i32 (file_count l fs st + 1)) @
      i32_to_be (usize_as_i32 (file_count l fs st))"
    using c(2) by (simp_all add: page_file_ok_def)
  have "read_exact_at c 0 8 = Inr (take 8 c)"
    using len by (simp add: read_exact_at_Inr_iff)
  then show ?thesis
    using c(1) len by (simp add: file_read_metadata_def metadata_size_def layout_consts t metadata_deserialize_def)
qed

lemma file_ok_allocate:
  assumes "file_ok l fs st" and "file_count l fs st + 2 < 2 ^ 31"
  shows "\<exists>t. file_allocate_page l st fs =
      (Inr (set_page_id (usize_as_i32 (file_count l fs st + 1)) (page_new l)), t) \<and>
    file_ok l t st \<and> file_count l t st = file_count l fs st + 1 \<and>
    file_pages l t st = (file_pages l fs st)(usize_as_i32 (file_count l fs st + 1) \<mapsto>
      set_page_id (usize_as_i32 (file_count l fs st + 1)) (page_new l)) \<and>
    (\<forall>u. u \<noteq> st \<longrightarrow> file_ok l fs u \<longrightarrow>
       file_ok l t u \<and> file_count l t u = file_count l fs u \<and> file_pages l t u = file_pages l fs u)"
proof -
  let ?n = "file_count l fs st"
  let ?i = "usize_as_i32 (?n + 1)"
  let ?p = "set_page_id ?i (page_new l)"
  obtain c where c: "fs (storage_file_path st) = Some c" "page_file_ok l c ?n" "layout_ok l"
    using assms(1) by (rule file_okD)
  have iv: "i32_val ?i = int (?n + 1)"
    using assms(2) by simp
  have alloc: "allocate_next_page_id \<lparr>next_id = ?i, number_of_pages = usize_as_i32 ?n\<rparr> =
      Inr (?i, \<lparr>next_id = usize_as_i32 (?n + 2), number_of_pages = ?i\<rparr>)"
    using assms(2) by (simp add: allocate_next_page_id_def i32_checked_def usize_as_i32_def add.commute)
  define c1 where "c1 = write_at c 0 (i32_to_be (usize_as_i32 (?n + 2)) @ i32_to_be ?i)"
  define fs1 where "fs1 = fs(storage_file_path st := Some c1)"
  have w1: "file_write_metadata l \<lparr>next_id = usize_as_i32 (?n + 2), number_of_pages = ?i\<rparr> st fs = (Inr (), fs1)"
    using c(1) by (simp add: file_write_metadata_def open_file_def metadata_bytes fs1_def c1_def)
  have len1: "length c1 = 8 + ?n * page_size l"
    using c(2) by (simp add: c1_def length_write_at page_file_ok_def)
  have fs1: "fs1 (storage_file_path st) = Some c1" by (simp add: fs1_def)
  have i1: "1 \<le> i32_val (page_id ?p)"
    using iv empty_page(4) [OF c(3)] by simp
  obtain bs where bs: "length bs = page_size l" "deserialize bs l = Inr (page_image ?p)"
    "file_write_page l ?p st fs1 = (Inr (), fs1(storage_file_path st := Some (write_at c1 (page_off l (page_id ?p)) bs)))"
    using write_page_image [of l fs1 st c1 ?p] c(3) fs1 empty_page(1) [OF c(3)] empty_page(3) [OF c(3)] i1 by metis
  have off: "page_off l (page_id ?p) = length c1"
    using iv by (simp add: page_off_def empty_page(4) [OF c(3)] len1 nat_add_distrib)
  define c2 where "c2 = write_at c1 (length c1) bs"
  have c2: "c2 = c1 @ bs"
    by (auto simp: c2_def write_at_def)
  define t where "t = fs(storage_file_path st := Some c2)"
  have tc: "t (storage_file_path st) = Some c2" by (simp add: t_def)
  have run: "file_allocate_page l st fs = (Inr ?p, t)"
    by (simp only: file_allocate_page_def io_bind_def io_basic_simps file_ok_metadata [OF assms(1)] sum.case
        prod.case alloc map_err_simps Let_def w1 bs(3) off flip: c2_def) (simp add: fs1_def t_def)
  have "read_exact_at c1 0 8 = Inr (i32_to_be (usize_as_i32 (?n + 2)) @ i32_to_be ?i)"
    unfolding c1_def by (rule read_write_same) simp
  then have "take 8 c1 = i32_to_be (usize_as_i32 (?n + 2)) @ i32_to_be ?i"
    by (simp add: read_exact_at_Inr_iff)
  then have pf: "page_file_ok l c2 (?n + 1)"
    using assms(2) bs(1) len1 by (simp add: page_file_ok_def c2)
  have ok: "file_ok l t st" and count: "file_count l t st = ?n + 1"
    using file_okI [of t st, OF tc pf c(3)] file_count_eq [of t st, OF tc pf c(3)] by simp_all
  have same: "file_read_page l ?i st t = Inr ?p"
    using i1 bs off iv by (simp add: file_read_page_eq [of l t st, OF c(3) tc] c2_def read_write_same empty_page [OF c(3)])
  have other: "file_read_page l i st t = file_read_page l i st fs"
    if "1 \<le> i32_val i" "i32_val i \<le> int ?n" for i
  proof -
    have in_c: "page_off l i + page_size l \<le> length c" and in1: "page_off l i + page_size l \<le> length c1"
      using page_off_inside [OF c(2) that] c(2) len1 by (simp_all add: page_file_ok_def)
    then have r: "read_exact_at c (page_off l i) (page_size l) = Inr (take (page_size l) (drop (page_off l i) c))"
      by (simp add: read_exact_at_Inr_iff)
    have "read_exact_at c1 (page_off l i) (page_size l) = read_exact_at c (page_off l i) (page_size l)"
      unfolding r c1_def by (intro read_write_other [OF r]) (simp add: page_off_def)
    moreover have "read_exact_at c2 (page_off l i) (page_size l) = read_exact_at c1 (page_off l i) (page_size l)"
      using in1 by (simp add: c2 read_exact_at_def)
    ultimately show ?thesis
      using that(1) by (simp add: file_read_page_eq [of l t st, OF c(3) tc] file_read_page_eq [of l fs st, OF c(3) c(1)])
  qed
  have "file_pages l t st = (file_pages l fs st)(?i \<mapsto> ?p)"
  proof
    fix i
    show "file_pages l t st i = ((file_pages l fs st)(?i \<mapsto> ?p)) i"
    proof (cases "i = ?i")
      case True
      then show ?thesis using same iv by (simp add: file_pages_def count)
    next
      case False
      then have "i32_val i \<noteq> int (?n + 1)"
        using iv by (simp add: i32_eq_iff)
      then show ?thesis
        using False other by (auto simp: file_pages_def count)
    qed
  qed
  then show ?thesis
    using run ok count file_frame [of _ st l fs "Some c2"]
    by (intro exI [of _ t]) (simp add: t_def)
qed

lemma file_read_missing:
  assumes "file_ok l fs st" and "file_pages l fs st i = None"
  shows "\<exists>e. file_read_page l i st fs = Inl e"
proof (cases "1 \<le> i32_val i \<and> i32_val i \<le> int (file_count l fs st)")
  case True
  then show ?thesis
    using assms(2) by (auto simp: file_pages_def split: sum.splits)
next
  case False
  show ?thesis
  proof (cases "i32_val i < 1")
    case True
    then show ?thesis by (simp add: file_read_page_def)
  next
    case low: False
    obtain c where c: "fs (storage_file_path st) = Some c" "page_file_ok l c (file_count l fs st)" "layout_ok l"
      using assms(1) by (rule file_okD)
    have "file_count l fs st \<le> nat (i32_val i) - 1"
      using False low by simp
    then have "file_count l fs st * page_size l \<le> (nat (i32_val i) - 1) * page_size l"
      by (rule mult_le_mono1)
    then have "length c \<le> page_off l i"
      using c(2) by (simp add: page_off_def page_file_ok_def)
    moreover have "0 < page_size l"
      using layout_ok_bounds(1) [OF c(3)] by simp
    ultimately have "read_exact_at c (page_off l i) (page_size l) = Inl (Err UnexpectedEof)"
      by (simp add: read_exact_at_def)
    then show ?thesis
      using file_read_page_eq [of l fs st c i] c(1,3) low by simp
  qed
qed

interpretation fstore: page_store file_store l "file_ok l" "file_count l" "file_pages l" for l
proof
  fix s :: files and st
  assume ok: "file_ok l s st"
  show "st_read_metadata file_store l st s =
      Inr \<lparr>next_id = usize_as_i32 (file_count l s st + 1), number_of_pages = usize_as_i32 (file_count l s st)\<rparr>"
    using file_ok_metadata [OF ok] by (simp add: file_store_def)
  show "file_count l s st + 1 < 2 ^ 31"
    using ok by (rule file_okD) (simp add: page_file_ok_def)
  {
    fix i p
    assume p: "file_pages l s st i = Some p"
    then show "1 \<le> i32_val i \<and> i32_val i \<le> int (file_count l s st)"
      by (simp add: file_pages_def split: if_splits)
    show "st_read_page file_store l i st s = Inr p"
      using p by (simp add: file_store_def file_pages_def split: if_splits sum.splits)
  }
qed (use file_read_missing file_ok_write_page file_ok_allocate in \<open>simp_all add: file_store_def others_same_def\<close>)

section \<open>Creating and scanning\<close>

lemma file_create_ok:
  assumes "layout_ok l" and "fs (storage_file_path st) = None"
  shows "\<exists>t. file_create l st fs = (Inr (), t) \<and> file_ok l t st \<and> file_count l t st = 0 \<and>
    (\<forall>u. u \<noteq> st \<longrightarrow> t (storage_file_path u) = fs (storage_file_path u))"
proof -
  let ?c = "write_at [] 0 (i32_to_be (i32_of_int 1) @ i32_to_be (i32_of_int 0))"
  let ?t = "fs(storage_file_path st := Some ?c)"
  have run: "file_create l st fs = (Inr (), ?t)"
    using assms(2)
    by (simp add: file_create_def file_init_def file_write_metadata_def open_file_def metadata_bytes metadata_new_def)
  have "i32_to_be x \<noteq> []" for x
    using length_to_be(3) [of x] by force
  then have "page_file_ok l ?c 0"
    by (simp add: page_file_ok_def write_at_def usize_as_i32_def)
  then have "file_ok l ?t st" "file_count l ?t st = 0"
    using file_okI [of ?t st ?c l 0] file_count_eq [of ?t st ?c l 0] assms(1) by simp_all
  then show ?thesis
    using run by (intro exI [of _ ?t]) (simp add: storage_file_path_inj)
qed

text \<open>The pages of a file in the order of their ids.\<close>

definition page_list :: "page_data_layout \<Rightarrow> files \<Rightarrow> page_storage \<Rightarrow> nat \<Rightarrow> nat \<Rightarrow> (page, store_error) result list" where
  "page_list l fs st a n = map (\<lambda>i. file_read_page l (usize_as_i32 i) st fs) [a..<n]"

lemma file_pages_run_eq:
  assumes "file_ok l fs st" and "1 \<le> a" and "a \<le> file_count l fs st + 1"
    and "\<And>i. a \<le> i \<Longrightarrow> i \<le> file_count l fs st \<Longrightarrow> file_read_page l (usize_as_i32 i) st fs \<noteq> Inl Panic"
  shows "file_pages_run fs \<lparr>fi_layout = l, fi_storage = st, fi_reader = Some (8 + (a - 1) * page_size l),
      fi_current_page_id = usize_as_i32 a, fi_total_pages = usize_as_i32 (file_count l fs st)\<rparr> =
    page_list l fs st a (file_count l fs st + 1)"
  using assms(2-)
proof (induction "file_count l fs st + 1 - a" arbitrary: a)
  case 0
  obtain c where "page_file_ok l c (file_count l fs st)" using assms(1) by (rule file_okD)
  then have "file_count l fs st + 1 < 2 ^ 31" by (simp add: page_file_ok_def)
  then show ?case
    using 0 by (subst file_pages_run.simps) (simp add: file_page_next_def i32_less_iff page_list_def)
next
  case (Suc k)
  let ?n = "file_count l fs st"
  let ?it = "\<lambda>a. \<lparr>fi_layout = l, fi_storage = st, fi_reader = Some (8 + (a - 1) * page_size l),
      fi_current_page_id = usize_as_i32 a, fi_total_pages = usize_as_i32 ?n\<rparr>"
  obtain c where c: "fs (storage_file_path st) = Some c" "page_file_ok l c ?n" "layout_ok l"
    using assms(1) by (rule file_okD)
  have n: "?n + 1 < 2 ^ 31" using c(2) by (simp add: page_file_ok_def)
  have a: "a \<le> ?n" using Suc(2) by simp
  have av: "i32_val (usize_as_i32 a) = int a" "i32_val (usize_as_i32 ?n) = int ?n"
    using a n by simp_all
  have off: "page_off l (usize_as_i32 a) = 8 + (a - 1) * page_size l"
    by (simp add: page_off_def av)
  have page: "and_then (map_err StoreIo (read_exact_at c (8 + (a - 1) * page_size l) (page_size l)))
      (\<lambda>buf. map_err StorePage (deserialize buf l)) = file_read_page l (usize_as_i32 a) st fs"
    using file_read_page_eq [of l fs st c "usize_as_i32 a"] c Suc(3) av(1) off by simp
  have step: "i32_checked (i32_val (usize_as_i32 a) + 1) = (Inr (usize_as_i32 (Suc a)) :: (i32, store_error) result)"
    using a n by (simp add: av i32_checked_def usize_as_i32_def add.commute)
  have advance: "8 + (a - 1) * page_size l + page_size l = 8 + (Suc a - 1) * page_size l"
    using Suc(3) by (cases a) simp_all
  have nx: "file_page_next fs (?it a) = (Some (file_read_page l (usize_as_i32 a) st fs), ?it (Suc a))"
    using a av page advance c(1) step
    by (simp add: file_page_next_def i32_less_iff open_file_def)
  have "file_pages_run fs (?it a) = file_read_page l (usize_as_i32 a) st fs # file_pages_run fs (?it (Suc a))"
    using nx Suc(5) [of a] a by (subst file_pages_run.simps) simp
  also have "file_pages_run fs (?it (Suc a)) = page_list l fs st (Suc a) (?n + 1)"
    using Suc(2,3,5) a by (intro Suc(1)) auto
  finally show ?case
    using a by (simp add: page_list_def upt_conv_Cons del: upt_Suc)
qed

lemma file_scan:
  assumes "file_ok l fs st"
    and "\<And>i. 1 \<le> i \<Longrightarrow> i \<le> file_count l fs st \<Longrightarrow> file_pages l fs st (usize_as_i32 i) = Some (f i)"
  shows "\<exists>run. file_seq_pages l st fs = Inr run \<and>
    run fs = map (\<lambda>i. Inr (f i)) [1..<file_count l fs st + 1]"
proof -
  let ?n = "file_count l fs st"
  obtain c where c: "fs (storage_file_path st) = Some c"
    using assms(1) by (rule file_okD)
  have reads: "file_read_page l (usize_as_i32 i) st fs = Inr (f i)" if "1 \<le> i" "i \<le> ?n" for i
    using fstore.read_law [OF assms(1) assms(2) [OF that]] by (simp add: file_store_def)
  have "file_pages_run fs \<lparr>fi_layout = l, fi_storage = st, fi_reader = Some (8 + (1 - 1) * page_size l),
      fi_current_page_id = usize_as_i32 1, fi_total_pages = usize_as_i32 ?n\<rparr> = page_list l fs st 1 (?n + 1)"
    using assms(1) reads by (intro file_pages_run_eq) auto
  also have "\<dots> = map (\<lambda>i. Inr (f i)) [1..<?n + 1]"
    unfolding page_list_def using reads by (intro map_cong) auto
  finally show ?thesis
    using c file_ok_metadata [OF assms(1)]
    by (simp add: file_seq_pages_def open_file_def file_page_iterator_new_def metadata_size_def layout_consts
        usize_as_i32_def del: upt_Suc)
qed

section \<open>A small store\<close>

text \<open>A store with one table of one empty page.\<close>

definition table_1 :: page_storage where
  "table_1 = TableStorage (i32_of_int 1)"

definition created_store :: files where
  "created_store = snd (file_create layout_64 table_1 (\<lambda>_. None))"

definition small_store :: files where
  "small_store = snd (file_allocate_page layout_64 table_1 created_store)"

definition page_1 :: page where
  "page_1 = set_page_id (usize_as_i32 1) (page_new layout_64)"

lemma created_store_ok: "file_ok layout_64 created_store table_1" "file_count layout_64 created_store table_1 = 0"
  using file_create_ok [OF layout_64_ok, of "\<lambda>_. None" table_1] by (auto simp: created_store_def)

lemma small_store_ok: "file_ok layout_64 small_store table_1" "file_count layout_64 small_store table_1 = 1"
  "file_pages layout_64 small_store table_1 (usize_as_i32 1) = Some page_1"
  using file_ok_allocate [OF created_store_ok(1)] created_store_ok(2)
  by (auto simp: small_store_def page_1_def)

lemma page_1_ok: "page_wf page_1" "layout page_1 = layout_64" "page_id page_1 = usize_as_i32 1"
  using empty_page [OF layout_64_ok] by (simp_all add: page_1_def)

section \<open>Properties\<close>

text \<open>
  C31. Writing a well-formed page over an allocated one succeeds and keeps the file's invariant;
  the page is read back as its serialized image and every other page of the file as before.
\<close>

theorem file_write_then_read:
  assumes "file_ok l fs st" and "page_wf p" and "layout p = l" and "file_pages l fs st (page_id p) = Some q"
  shows "\<exists>t. file_write_page l p st fs = (Inr (), t) \<and> file_ok l t st \<and>
    file_read_page l (page_id p) st t = Inr (page_image p) \<and>
    (\<forall>i r. i \<noteq> page_id p \<longrightarrow> file_pages l fs st i = Some r \<longrightarrow> file_read_page l i st t = Inr r)"
proof -
  have "1 \<le> i32_val (page_id p) \<and> i32_val (page_id p) \<le> int (file_count l fs st)"
    using fstore.pages_dom [OF assms(1,4)] .
  then obtain t where t: "file_write_page l p st fs = (Inr (), t)" "file_ok l t st"
    using fstore.write_law [OF assms(1-3)] by (auto simp: file_store_def)
  then show ?thesis
    using fstore.read_after_write [OF assms, of "Inr ()" t] by (simp add: file_store_def)
qed

theorem file_write_then_read_witness:
  "\<exists>t. file_write_page layout_64 page_1 table_1 small_store = (Inr (), t) \<and>
     file_read_page layout_64 (usize_as_i32 1) table_1 t = Inr (page_image page_1)"
  using file_write_then_read [OF small_store_ok(1) page_1_ok(1,2)] small_store_ok(3) page_1_ok(3) by auto

text \<open>
  C32. Allocation gives the page after the last one, empty and under its own id; it was not there
  before, it is read back as it was returned, and no page of this or another file changes.
\<close>

theorem file_allocate_fresh:
  assumes "file_ok l fs st" and "file_count l fs st + 2 < 2 ^ 31"
  shows "\<exists>p t. file_allocate_page l st fs = (Inr p, t) \<and> page_id p = usize_as_i32 (file_count l fs st + 1) \<and>
    page_rows p = Map.empty \<and> file_ok l t st \<and> file_count l t st = file_count l fs st + 1 \<and>
    file_pages l fs st (page_id p) = None \<and> file_read_page l (page_id p) st t = Inr p \<and>
    (\<forall>u i r. file_ok l fs u \<longrightarrow> file_pages l fs u i = Some r \<longrightarrow> file_read_page l i u t = Inr r)"
proof -
  let ?i = "usize_as_i32 (file_count l fs st + 1)"
  let ?p = "set_page_id ?i (page_new l)"
  obtain t where t: "file_allocate_page l st fs = (Inr ?p, t)" "file_ok l t st"
    "file_count l t st = file_count l fs st + 1"
    "\<And>u. u \<noteq> st \<Longrightarrow> file_ok l fs u \<Longrightarrow> file_ok l t u \<and> file_pages l t u = file_pages l fs u"
    using file_ok_allocate [OF assms] by auto
  have "st_allocate_page file_store l st fs = (Inr ?p, t)"
    using t(1) by (simp add: file_store_def)
  note fresh = fstore.allocate_fresh [OF assms this]
  have lay: "layout_ok l" using assms(1) by (rule file_okD)
  have "file_read_page l i u t = Inr r" if u: "file_ok l fs u" "file_pages l fs u i = Some r" for u i r
  proof (cases "u = st")
    case True
    then show ?thesis using fresh(3) [of i r] u by (simp add: file_store_def)
  next
    case False
    then show ?thesis
      using t(4) [OF False u(1)] u(2) fstore.read_law [of l t u i r] by (simp add: file_store_def)
  qed
  moreover have "page_rows ?p = Map.empty"
    by (simp add: page_rows_def read_slot_def vec_get_def page_new_def set_page_id_def fun_eq_iff)
  ultimately show ?thesis
    using t fresh empty_page(4) [OF lay] by (intro exI [of _ ?p] exI [of _ t]) (simp add: file_store_def)
qed

theorem file_allocate_fresh_witness:
  "\<exists>p t. file_allocate_page layout_64 table_1 small_store = (Inr p, t) \<and> page_id p = usize_as_i32 2 \<and>
     file_read_page layout_64 (usize_as_i32 2) table_1 t = Inr p"
proof -
  have "file_count layout_64 small_store table_1 + 2 < 2 ^ 31"
    by (simp add: small_store_ok(2))
  moreover have "usize_as_i32 (1 + 1) = usize_as_i32 2"
    by (simp only: one_add_one)
  ultimately show ?thesis
    using file_allocate_fresh [OF small_store_ok(1)] unfolding small_store_ok(2) by metis
qed

text \<open>
  Creating a data structure that does not exist gives an empty page file that satisfies the
  invariant and leaves every other file alone; creating one that exists fails and changes nothing.
\<close>

theorem file_create_spec:
  assumes "layout_ok l"
  shows "if fs (storage_file_path st) = None
    then \<exists>t. file_create l st fs = (Inr (), t) \<and> file_ok l t st \<and> file_count l t st = 0 \<and>
      (\<forall>u. u \<noteq> st \<longrightarrow> t (storage_file_path u) = fs (storage_file_path u))
    else file_create l st fs = (Inl (Err InvalidState), fs)"
  using file_create_ok [OF assms] by (simp add: file_create_def)

theorem file_create_spec_witness:
  "file_create layout_64 table_1 small_store = (Inl (Err InvalidState), small_store)"
proof -
  have "small_store (storage_file_path table_1) \<noteq> None"
    using small_store_ok(1) by (auto elim: file_okD)
  then show ?thesis
    using file_create_spec [OF layout_64_ok, of small_store table_1] by simp
qed

text \<open>
  A sequential scan of a file all of whose pages can be read yields them in the order of
  their ids, each once.
\<close>

theorem file_scan_all_pages:
  assumes "file_ok l fs st"
    and "\<And>i. 1 \<le> i \<Longrightarrow> i \<le> file_count l fs st \<Longrightarrow> file_pages l fs st (usize_as_i32 i) = Some (f i)"
  shows "\<exists>run. file_seq_pages l st fs = Inr run \<and>
    run fs = map (\<lambda>i. Inr (f i)) [1..<file_count l fs st + 1]"
  by (rule file_scan [OF assms])

theorem file_scan_all_pages_witness:
  "\<exists>run. file_seq_pages layout_64 table_1 small_store = Inr run \<and> run small_store = [Inr page_1]"
proof -
  have "file_pages layout_64 small_store table_1 (usize_as_i32 i) = Some page_1"
    if "1 \<le> i" "i \<le> file_count layout_64 small_store table_1" for i
  proof -
    have "i = 1" using that small_store_ok(2) by simp
    then show ?thesis using small_store_ok(3) by simp
  qed
  from file_scan_all_pages [OF small_store_ok(1) this] show ?thesis
    by (simp add: small_store_ok(2))
qed

end
