(* ===== verification/Fsm.thy ===== *)
theory Fsm
  imports File_Store Freespace_Tree
begin

text \<open>
  \<open>src/src/freespace/fsm.rs\<close>: the free space map of a table, a tree of three or four levels
  whose nodes are pages of the file \<open>fsm_<id>.dat\<close>, each holding one \<open>binary_tree\<close> in slot 0.
  A slot of a page on level 0 stands for a page of the table, a slot of a page on a higher level
  for a page one level below. The pages are numbered in preorder. The map is generic in the
  store, as in the code. The division of \<open>space_needed_to_category\<close> is in \<open>f32\<close>: the divisor
  is a power of two, so the quotient is exact below \<open>2 ^ 24\<close>, and above that the category is
  255 in any case.
\<close>

record fsm_address =
  node_number :: nat
  level :: nat

datatype fsm_error =
    InvalidPageLayout
  | MissingRootSlotData
  | CorruptRootSlotData
  | InvalidParentTraversal
  | InvalidChildTraversal
  | CorruptedState
  | FsmStore store_error
  | FsmPage page_error

record fsm =
  fsm_table :: table
  fsm_layout :: page_data_layout
  root_level :: nat
  fsm_category_step :: nat
  fsm_depth :: nat
  fsm_slots :: nat

definition fsm_access :: "table \<Rightarrow> page_storage" where
  "fsm_access t = FsmStorage (table_id t)"

definition fsm_new :: "page_data_layout \<Rightarrow> table \<Rightarrow> (fsm, fsm_error) result" where
  "fsm_new l t =
     (if page_size l < 256 then Inl (Err InvalidPageLayout)
      else
        let step_size = page_size l div 256;
            depth = (if 4096 \<le> page_size l then 3 else 4) in
        and_then (node_structure l) (\<lambda>structure.
        Inr \<lparr>fsm_table = t, fsm_layout = l, root_level = depth - 1, fsm_category_step = step_size,
             fsm_depth = depth, fsm_slots = ns_leaf_nodes structure\<rparr>))"

definition fsm_root :: "fsm \<Rightarrow> fsm_address" where
  "fsm_root f = \<lparr>node_number = 0, level = fsm_depth f - 1\<rparr>"

section \<open>Categories\<close>

definition page_space_to_category :: "fsm \<Rightarrow> nat \<Rightarrow> u8" where
  "page_space_to_category f available =
     (if max_tupel_size (fsm_layout f) \<le> available then 255
      else
        let cat = available div fsm_category_step f in
        if 254 < cat then 254 else word_of_nat cat)"

definition space_needed_to_category :: "fsm \<Rightarrow> nat \<Rightarrow> u8" where
  "space_needed_to_category f needed =
     (if needed = 0 then 1
      else
        let cat = (needed + fsm_category_step f - 1) div fsm_category_step f in
        if 255 < cat then 255 else word_of_nat cat)"

section \<open>Addresses\<close>

definition fsm_parent :: "fsm \<Rightarrow> fsm_address \<Rightarrow> (fsm_address \<times> nat, fsm_error) result" where
  "fsm_parent f child_addr =
     (if level child_addr = root_level f then Inl (Err InvalidParentTraversal)
      else Inr (\<lparr>node_number = node_number child_addr div fsm_slots f, level = level child_addr + 1\<rparr>,
                node_number child_addr mod fsm_slots f))"

definition fsm_child :: "fsm \<Rightarrow> fsm_address \<Rightarrow> nat \<Rightarrow> (fsm_address, fsm_error) result" where
  "fsm_child f parent_addr slot =
     (if level parent_addr = 0 then Inl (Err InvalidChildTraversal)
      else Inr \<lparr>node_number = node_number parent_addr * fsm_slots f + slot, level = level parent_addr - 1\<rparr>)"

definition heap_page_id_to_addr :: "fsm \<Rightarrow> i32 \<Rightarrow> (fsm_address \<times> nat, fsm_error) result" where
  "heap_page_id_to_addr f pid =
     and_then (i32_checked (i32_val pid - 1)) (\<lambda>slot_index_globally.
     if i32_val slot_index_globally < 0 then Inl (Err CorruptedState)
     else
       let g = i32_as_usize slot_index_globally;
           logical_fsm_page = g div fsm_slots f in
       and_then (usize_sub g (logical_fsm_page * fsm_slots f)) (\<lambda>slot_on_fsm_page.
       Inr (\<lparr>node_number = logical_fsm_page, level = 0\<rparr>, slot_on_fsm_page)))"

definition addr_slot_to_heap_page_id :: "fsm \<Rightarrow> fsm_address \<Rightarrow> nat \<Rightarrow> (i32, fsm_error) result" where
  "addr_slot_to_heap_page_id f addr slot =
     (if 0 < level addr then Inl (Err CorruptedState)
      else
        let slot_index_globally = node_number addr * fsm_slots f + slot in
        i32_checked (i32_val (usize_as_i32 slot_index_globally) + 1))"

text \<open>The two loops of \<open>logical_addr_to_fms_page_id\<close>.\<close>

fun first_leaf :: "nat \<Rightarrow> nat \<Rightarrow> nat \<Rightarrow> nat" where
  "first_leaf n_slots leaf_number 0 = leaf_number"
| "first_leaf n_slots leaf_number (Suc l) = first_leaf n_slots (leaf_number * n_slots) l"

fun count_pages :: "nat \<Rightarrow> nat \<Rightarrow> nat \<Rightarrow> nat \<Rightarrow> nat" where
  "count_pages n_slots leaf_number 0 n_pages = n_pages"
| "count_pages n_slots leaf_number (Suc l) n_pages =
     count_pages n_slots (leaf_number div n_slots) l (n_pages + leaf_number + 1)"

definition fsm_page_number :: "fsm \<Rightarrow> fsm_address \<Rightarrow> (nat, fsm_error) result" where
  "fsm_page_number f addr =
     (let leaf_number = first_leaf (fsm_slots f) (node_number addr) (level addr) in
      usize_sub (count_pages (fsm_slots f) leaf_number (fsm_depth f) 0) (level addr))"

definition logical_addr_to_fms_page_id :: "fsm \<Rightarrow> fsm_address \<Rightarrow> (i32, fsm_error) result" where
  "logical_addr_to_fms_page_id f addr =
     and_then (fsm_page_number f addr) (\<lambda>pages. Inr (usize_as_i32 pages))"

section \<open>Pages of the map\<close>

definition read_tree :: "fsm \<Rightarrow> page \<Rightarrow> (binary_tree, fsm_error) result" where
  "read_tree f p =
     and_then (map_err FsmPage (read_slot p 0)) (\<lambda>bytes.
     and_then (ok_or MissingRootSlotData bytes) (\<lambda>bytes.
     and_then (node_structure (fsm_layout f)) (\<lambda>structure.
     if length bytes \<noteq> ns_nodes structure then Inl (Err CorruptRootSlotData)
     else tree_deserialize bytes (fsm_layout f))))"

definition allocate_new_fsm_and_init :: "'s store_ops \<Rightarrow> fsm \<Rightarrow> ('s, unit, fsm_error) io" where
  "allocate_new_fsm_and_init S f =
     (let access = fsm_access (fsm_table f); l = fsm_layout f in
      io_bind (io_map_err FsmStore (st_allocate_page S l access)) (\<lambda>p.
      io_bind (io_lift (tree_new l)) (\<lambda>tree.
      io_bind (io_lift (map_err FsmPage (insert_record p (tree_serialize tree)))) (\<lambda>(_, p).
      io_map_err FsmStore (st_write_page S l p access)))))"

fun repeat_io :: "nat \<Rightarrow> ('s, unit, 'e) io \<Rightarrow> ('s, unit, 'e) io" where
  "repeat_io 0 m = io_ret ()"
| "repeat_io (Suc n) m = io_bind m (\<lambda>_. repeat_io n m)"

text \<open>
  One turn of the loop of \<open>update\<close> over the levels, the loop, the pages that are added before
  it, and \<open>update\<close>.
\<close>

definition update_tree_page :: "'s store_ops \<Rightarrow> fsm \<Rightarrow> i32 \<Rightarrow> nat \<Rightarrow> u8 \<Rightarrow> ('s, unit, fsm_error) io" where
  "update_tree_page S f fsm_page_id slot cat =
     (let access = fsm_access (fsm_table f); l = fsm_layout f in
      io_bind (io_map_err FsmStore (io_read (st_read_page S l fsm_page_id access))) (\<lambda>fsm_page.
      io_bind (io_lift (read_tree f fsm_page)) (\<lambda>tree.
      io_bind (io_lift (set_available_space tree slot cat)) (\<lambda>tree.
      io_bind (io_lift (map_err FsmPage (write_record fsm_page 0 (tree_serialize tree)))) (\<lambda>fsm_page.
      io_map_err FsmStore (st_write_page S l fsm_page access))))))"

fun update_levels :: "'s store_ops \<Rightarrow> fsm \<Rightarrow> u8 \<Rightarrow> nat \<Rightarrow> nat \<Rightarrow> fsm_address \<Rightarrow> nat \<Rightarrow> i32 \<Rightarrow>
    ('s, unit, fsm_error) io" where
  "update_levels S f cat lev 0 addr slot fsm_page_id = io_ret ()"
| "update_levels S f cat lev (Suc n) addr slot fsm_page_id =
     io_bind (update_tree_page S f fsm_page_id slot cat) (\<lambda>_.
     if lev < level (fsm_root f) then
       io_bind (io_lift (fsm_parent f addr)) (\<lambda>(addr, slot).
       io_bind (io_lift (logical_addr_to_fms_page_id f addr)) (\<lambda>fsm_page_id.
       update_levels S f cat (lev + 1) n addr slot fsm_page_id))
     else update_levels S f cat (lev + 1) n addr slot fsm_page_id)"

definition add_map_pages :: "'s store_ops \<Rightarrow> fsm \<Rightarrow> page_file_metadata \<Rightarrow> i32 \<Rightarrow> ('s, unit, fsm_error) io" where
  "add_map_pages S f m fsm_page_id =
     (if next_id m \<le> fsm_page_id then
        io_bind (io_lift (i32_checked (i32_val fsm_page_id + 1))) (\<lambda>upto.
        repeat_io (nat (i32_val upto - i32_val (next_id m))) (allocate_new_fsm_and_init S f))
      else io_ret ())"

definition fsm_update :: "'s store_ops \<Rightarrow> fsm \<Rightarrow> page \<Rightarrow> ('s, unit, fsm_error) io" where
  "fsm_update S f p =
     io_bind (io_lift (map_err FsmPage (max_available_space p))) (\<lambda>free_space.
     let cat = page_space_to_category f free_space in
     io_bind (io_lift (heap_page_id_to_addr f (page_id p))) (\<lambda>(addr, slot).
     io_bind (io_lift (logical_addr_to_fms_page_id f addr)) (\<lambda>fsm_page_id.
     io_bind (io_map_err FsmStore (io_read (st_read_metadata S (fsm_layout f) (fsm_access (fsm_table f))))) (\<lambda>m.
     io_bind (add_map_pages S f m fsm_page_id) (\<lambda>_.
     update_levels S f cat 0 (fsm_depth f) addr slot fsm_page_id)))))"

text \<open>The descent of \<open>find_available_page\<close>: the page id it ends with, or none.\<close>

fun find_descend :: "'s store_ops \<Rightarrow> fsm \<Rightarrow> u8 \<Rightarrow> nat \<Rightarrow> fsm_address \<Rightarrow> bool \<Rightarrow> i32 \<Rightarrow>
    ('s, i32 option, fsm_error) io" where
  "find_descend S f cat 0 addr should_never_fail heap_page_id = io_ret (Some heap_page_id)"
| "find_descend S f cat (Suc n) addr should_never_fail heap_page_id =
     io_bind (io_lift (logical_addr_to_fms_page_id f addr)) (\<lambda>pid.
     io_bind (io_map_err FsmStore (io_read (st_read_page S (fsm_layout f) pid (fsm_access (fsm_table f))))) (\<lambda>fsm_page.
     io_bind (io_lift (read_tree f fsm_page)) (\<lambda>tree.
     io_bind (io_lift (find_available tree cat)) (\<lambda>r.
     case r of
       Some slot \<Rightarrow>
         if level addr = 0 then
           io_bind (io_lift (addr_slot_to_heap_page_id f addr (slot_index slot))) (\<lambda>heap_page_id.
           find_descend S f cat n addr should_never_fail heap_page_id)
         else
           io_bind (io_lift (fsm_child f addr (slot_index slot))) (\<lambda>addr.
           find_descend S f cat n addr True heap_page_id)
     | None \<Rightarrow> if should_never_fail then io_fail CorruptedState else io_ret None))))"

definition find_available_page :: "'s store_ops \<Rightarrow> fsm \<Rightarrow> nat \<Rightarrow> ('s, page, fsm_error) io" where
  "find_available_page S f bytes =
     (let l = fsm_layout f; cat = space_needed_to_category f bytes in
      io_bind (io_map_err FsmStore (io_read (st_read_metadata S l (fsm_access (fsm_table f))))) (\<lambda>m.
      let num_pages = i32_as_usize (number_of_pages m) in
      io_bind (repeat_io (root_level f + 1 - num_pages) (allocate_new_fsm_and_init S f)) (\<lambda>_.
      io_bind (find_descend S f cat (fsm_depth f) (fsm_root f) False (i32_of_int 0)) (\<lambda>r.
      case r of
        None \<Rightarrow> io_map_err FsmStore (st_allocate_page S l (TableStorage (table_id (fsm_table f))))
      | Some heap_page_id \<Rightarrow>
          if i32_val heap_page_id < 1 then io_fail CorruptedState
          else io_map_err FsmStore
            (io_read (st_read_page S l heap_page_id (TableStorage (table_id (fsm_table f)))))))))"

end
