(* ===== verification/Query.thy ===== *)
theory Query
  imports Fsm
begin

text \<open>
  The queries of \<open>src/src/database/table_access.rs\<close>: \<open>QueryResult\<close>, its constructors, \<open>rows\<close>,
  \<open>filter\<close> and \<open>hash_join\<close>, and the lookup of columns by name. A query is lazy in the
  code: its iterator reads the store when it is run. It is modelled by what it yields, a function of
  the store it is run on. The texts of the errors are left out, their reasons are kept.
\<close>

section \<open>Errors\<close>

datatype load_reason =
    ColumnNotFound
  | ColumnOfOtherType
  | JoinTypesDiffer
  | LoadNotAnInt
  | IndexLookup btree_store_error

datatype insert_reason =
    RowInvalid row_validation_error
  | InsertNotAnInt
  | FsmPageTooSmall
  | InsertCannotWrite store_error

datatype update_reason =
    SchemaMismatch
  | NoSuchColumnId
  | UpdateNotAnInt
  | IndexUpdate btree_store_error
  | UpdateCannotRead store_error
  | UpdateCannotWrite

datatype delete_reason = DeleteNotAnInt | DeleteCannotRead store_error | DeleteCannotWrite store_error

datatype table_access_error =
    InsertRowError insert_reason
  | LoadRowsError load_reason
  | UpdateRowsError update_reason
  | DeleteRowsError delete_reason
  | TaStore store_error
  | TaFsm fsm_error
  | TaRowDeserialization row_deserialization_error
  | TaBTree btree_store_error
  | TaPage page_error

section \<open>Columns\<close>

text \<open>\<open>str::trim\<close>: the UTF-8 encodings of the characters with the property White_Space.\<close>

definition white_space :: "byte list list" where
  "white_space =
     [[0x09], [0x0A], [0x0B], [0x0C], [0x0D], [0x20], [0xC2, 0x85], [0xC2, 0xA0], [0xE1, 0x9A, 0x80],
      [0xE2, 0x80, 0x80], [0xE2, 0x80, 0x81], [0xE2, 0x80, 0x82], [0xE2, 0x80, 0x83], [0xE2, 0x80, 0x84],
      [0xE2, 0x80, 0x85], [0xE2, 0x80, 0x86], [0xE2, 0x80, 0x87], [0xE2, 0x80, 0x88], [0xE2, 0x80, 0x89],
      [0xE2, 0x80, 0x8A], [0xE2, 0x80, 0xA8], [0xE2, 0x80, 0xA9], [0xE2, 0x80, 0xAF], [0xE2, 0x81, 0x9F],
      [0xE3, 0x80, 0x80]]"

function strip_prefixes :: "byte list list \<Rightarrow> byte list \<Rightarrow> byte list" where
  "strip_prefixes ws s =
     (case find (\<lambda>w. w \<noteq> [] \<and> take (length w) s = w) ws of
        None \<Rightarrow> s
      | Some w \<Rightarrow> strip_prefixes ws (drop (length w) s))"
  by auto
termination
proof (relation "measure (\<lambda>(_, s). length s)")
  fix ws s w
  assume "find (\<lambda>w. w \<noteq> [] \<and> take (length w) s = w) ws = Some w"
  then have "w \<noteq> []" "take (length w) s = w"
    by (auto simp: find_Some_iff)
  then have "s \<noteq> []" "0 < length w" by auto
  then show "((ws, drop (length w) s), ws, s) \<in> measure (\<lambda>(_, s). length s)" by simp
qed simp

declare strip_prefixes.simps [simp del]

definition trim :: "rstring \<Rightarrow> rstring" where
  "trim s = rev (strip_prefixes (map rev white_space) (rev (strip_prefixes white_space s)))"

definition find_column_for_query :: "table_schema \<Rightarrow> rstring \<Rightarrow> (nat, table_access_error) result" where
  "find_column_for_query s name =
     ok_or (LoadRowsError ColumnNotFound) (position (\<lambda>col. col_name col = trim name) (columns s))"

definition find_column_for_query_by_cell ::
  "table_schema \<Rightarrow> rstring \<Rightarrow> cell \<Rightarrow> (nat, table_access_error) result" where
  "find_column_for_query_by_cell s name c =
     and_then (find_column_for_query s name) (\<lambda>col_index.
     and_then (index_get (columns s) col_index) (\<lambda>ref_column.
     if \<not> is_of_type c (col_type ref_column) then Inl (Err (LoadRowsError ColumnOfOtherType))
     else Inr col_index))"

section \<open>Results\<close>

type_synonym 'r items = "('r, table_access_error) result list"

record ('s, 'r) query_result =
  row_iter :: "'s \<Rightarrow> 'r items"
  qr_schema :: table_schema

definition query_rows :: "('s, 'r) query_result \<Rightarrow> 's \<Rightarrow> ('r list, table_access_error) result" where
  "query_rows q st = collect_results (row_iter q st)"

text \<open>The predicate of a filter is a closure, which may panic.\<close>

fun filter_items :: "('r \<Rightarrow> (bool, table_access_error) result) \<Rightarrow> 'r items \<Rightarrow> 'r items" where
  "filter_items f [] = []"
| "filter_items f (Inl e # items) = Inl e # filter_items f items"
| "filter_items f (Inr r # items) =
     (case f r of
        Inl e \<Rightarrow> Inl e # filter_items f items
      | Inr keep \<Rightarrow> if keep then Inr r # filter_items f items else filter_items f items)"

definition query_filter ::
  "('r \<Rightarrow> (bool, table_access_error) result) \<Rightarrow> ('s, 'r) query_result \<Rightarrow> ('s, 'r) query_result" where
  "query_filter f q = \<lparr>row_iter = (\<lambda>st. filter_items f (row_iter q st)), qr_schema = qr_schema q\<rparr>"

definition query_from_indexes ::
  "'s store_ops \<Rightarrow> indexed_row_iterator \<Rightarrow> table_schema \<Rightarrow> ('s, record_ref \<times> row) query_result" where
  "query_from_indexes S it s =
     \<lparr>row_iter = (\<lambda>st. map (map_err TaStore) (indexed_collect S st it)), qr_schema = s\<rparr>"

text \<open>What \<open>PageResultIterator\<close> yields for a page or an error.\<close>

fun page_result_items :: "table_schema \<Rightarrow> (page, store_error) result \<Rightarrow> row_item list" where
  "page_result_items s (Inr p) = page_row_items (page_row_iterator_new p s)"
| "page_result_items s (Inl e) = [Inl e]"

definition query_new ::
  "('s \<Rightarrow> (page, store_error) result list) \<Rightarrow> table_schema \<Rightarrow> ('s, record_ref \<times> row) query_result" where
  "query_new page_iter s =
     \<lparr>row_iter = (\<lambda>st. map (map_err TaStore) (concat (map (page_result_items s) (page_iter st)))),
      qr_schema = s\<rparr>"

section \<open>Joins\<close>

text \<open>The table of the inner rows by their join keys, and the rows joined with one outer item.\<close>

fun join_table :: "nat \<Rightarrow> (record_ref \<times> row) list \<Rightarrow> (cell \<times> row list) list \<Rightarrow>
    ((cell \<times> row list) list, table_access_error) result" where
  "join_table i [] m = Inr m"
| "join_table i ((_, row) # rows) m =
     and_then (index_get (cells row) i) (\<lambda>key. join_table i rows (entry_push key row m))"

definition join_item ::
  "nat \<Rightarrow> (cell \<times> row list) list \<Rightarrow> (record_ref \<times> row, table_access_error) result \<Rightarrow> row items" where
  "join_item i m item =
     (case and_then item (\<lambda>(_, row). and_then (index_get (cells row) i) (\<lambda>key. Inr (row, key))) of
        Inl e \<Rightarrow> [Inl e]
      | Inr (row, key) \<Rightarrow>
          (case map_of m key of
             None \<Rightarrow> []
           | Some inner_rows \<Rightarrow> map (\<lambda>inner_row. Inr (Row (cells row @ cells inner_row))) inner_rows))"

definition hash_join ::
  "('s, record_ref \<times> row) query_result \<Rightarrow> ('s, record_ref \<times> row) query_result \<Rightarrow> rstring \<Rightarrow> rstring \<Rightarrow> 's \<Rightarrow>
   (('s, row) query_result, table_access_error) result" where
  "hash_join self inner_query this_join_column that_join_column st =
     and_then (find_column_for_query (qr_schema inner_query) that_join_column) (\<lambda>that_col_index.
     and_then (find_column_for_query (qr_schema self) this_join_column) (\<lambda>this_col_index.
     and_then (index_get (columns (qr_schema self)) this_col_index) (\<lambda>this_col.
     and_then (index_get (columns (qr_schema inner_query)) that_col_index) (\<lambda>that_col.
     if raw_type (col_type this_col) \<noteq> raw_type (col_type that_col)
     then Inl (Err (LoadRowsError JoinTypesDiffer))
     else
       and_then (query_rows inner_query st) (\<lambda>rows.
       and_then (join_table that_col_index rows []) (\<lambda>m.
       and_then (schema_new (columns (qr_schema self) @ columns (qr_schema inner_query))) (\<lambda>joined_schema.
       Inr \<lparr>row_iter = (\<lambda>st'. concat (map (join_item this_col_index m) (row_iter self st'))),
            qr_schema = joined_schema\<rparr>)))))))"

end
