(* ===== verification/Table_Access.thy ===== *)
theory Table_Access
  imports Query
begin

text \<open>
  \<open>TableAccess\<close> of \<open>src/src/database/table_access.rs\<close>: the queries and changes of one table
  over a store, its free space map and its indexes.

  The state of an operation is a \<open>world\<close>: the store, the index files that were opened
  (\<open>BTreeStore\<close> values, each with a pager and a cache; an index is addressed by its position in
  this list) and a counter of the hash maps that were iterated. The environment has what the
  program does not determine: which cache entries are still there, in which order a hash map is
  iterated, and the fuel of the recursions over index pages.
\<close>

record index_handle =
  ih_btree :: i32
  ih_pager :: node_pager

record 's world =
  w_store :: 's
  w_handles :: "index_handle list"
  w_ticks :: nat

record env =
  env_keeps :: "nat \<Rightarrow> keeping"
  env_order :: "nat \<Rightarrow> hash_order"
  env_fuel :: nat

record table_access =
  ta_table :: table
  ta_layout :: page_data_layout
  ta_indexes :: "(i32 \<times> nat) list"

section \<open>Effects\<close>

definition at_store :: "('e \<Rightarrow> 'f) \<Rightarrow> ('s, 'a, 'e) io \<Rightarrow> ('s world, 'a, 'f) io" where
  "at_store g m w = (case m (w_store w) of (r, s) \<Rightarrow> (map_err g r, w\<lparr>w_store := s\<rparr>))"

text \<open>An operation on an open index works on the file of the index and on the handle's pager.\<close>

definition at_index ::
  "'s store_ops \<Rightarrow> env \<Rightarrow> (btree_store_error \<Rightarrow> 'f) \<Rightarrow> nat \<Rightarrow> (keeping \<Rightarrow> 'a btree_io) \<Rightarrow> ('s world, 'a, 'f) io" where
  "at_index S E g i m w =
     (case vec_get (w_handles w) i of
        None \<Rightarrow> (Inl Panic, w)
      | Some h \<Rightarrow>
          (case m (env_keeps E i) ((ih_pager h)\<lparr>pager_file := st_btree_file S (ih_btree h) (w_store w)\<rparr>) of
             (r, p) \<Rightarrow>
               (map_err g r,
                w\<lparr>w_store := st_set_btree_file S (ih_btree h) (pager_file p) (w_store w),
                  w_handles := (w_handles w)[i := h\<lparr>ih_pager := p\<rparr>]\<rparr>)))"

text \<open>The order of the next hash map that is iterated.\<close>

definition next_order :: "env \<Rightarrow> ('s world, hash_order, 'e) io" where
  "next_order E w = (Inr (env_order E (w_ticks w)), w\<lparr>w_ticks := w_ticks w + 1\<rparr>)"

fun for_each :: "('a \<Rightarrow> ('s, unit, 'e) io) \<Rightarrow> 'a list \<Rightarrow> ('s, unit, 'e) io" where
  "for_each f [] = io_ret ()"
| "for_each f (x # xs) = io_bind (f x) (\<lambda>_. for_each f xs)"

section \<open>Construction\<close>

definition ta_new :: "table \<Rightarrow> page_data_layout \<Rightarrow> table_access" where
  "ta_new t l = \<lparr>ta_table = t, ta_layout = l, ta_indexes = []\<rparr>"

definition with_indexes :: "(i32 \<times> nat) list \<Rightarrow> table_access \<Rightarrow> table_access" where
  "with_indexes indexed_columns ta = ta\<lparr>ta_indexes := indexed_columns\<rparr>"

definition ta_storage :: "table_access \<Rightarrow> page_storage" where
  "ta_storage ta = TableStorage (table_id (ta_table ta))"

definition ta_fsm :: "table_access \<Rightarrow> (fsm, table_access_error) result" where
  "ta_fsm ta = map_err TaFsm (fsm_new (ta_layout ta) (ta_table ta))"

text \<open>
  The commands for the indexes: the position of the index among \<open>indexed_columns\<close>, the old
  value and the new value.
\<close>

type_synonym update_index_command = "(nat \<times> i32 option \<times> i32 option) list"

definition push_update :: "nat \<times> i32 \<times> i32 \<Rightarrow> update_index_command \<Rightarrow> update_index_command" where
  "push_update u cmd = (case u of (i, old, new) \<Rightarrow> cmd @ [(i, Some old, Some new)])"

definition push_insert :: "nat \<times> i32 \<Rightarrow> update_index_command \<Rightarrow> update_index_command" where
  "push_insert u cmd = (case u of (i, new) \<Rightarrow> cmd @ [(i, None, Some new)])"

definition push_delete :: "nat \<times> i32 \<Rightarrow> update_index_command \<Rightarrow> update_index_command" where
  "push_delete u cmd = (case u of (i, old) \<Rightarrow> cmd @ [(i, Some old, None)])"

text \<open>The map from column indexes of the schema to positions of indexes.\<close>

fun pointer_map :: "table_schema \<Rightarrow> nat \<Rightarrow> (i32 \<times> nat) list \<Rightarrow> (nat \<times> nat) list \<Rightarrow>
    ((nat \<times> nat) list, table_access_error) result" where
  "pointer_map s btree_pointer [] m = Inr m"
| "pointer_map s btree_pointer ((cid, _) # cols) m =
     and_then (ok_or (UpdateRowsError NoSuchColumnId) (find_index_by_id s cid)) (\<lambda>col_idx.
     pointer_map s (btree_pointer + 1) cols (hash_insert col_idx btree_pointer m))"

definition column_index_to_btree_pointer_map :: "table_access \<Rightarrow> ((nat \<times> nat) list, table_access_error) result" where
  "column_index_to_btree_pointer_map ta = pointer_map (schema (ta_table ta)) 0 (ta_indexes ta) []"

section \<open>Queries\<close>

definition find_all ::
  "'s store_ops \<Rightarrow> table_access \<Rightarrow> ('s world, ('s, record_ref \<times> row) query_result, table_access_error) io" where
  "find_all S ta =
     io_bind (at_store TaStore (io_read (st_seq_pages S (ta_layout ta) (ta_storage ta)))) (\<lambda>page_iter.
     io_ret (query_new page_iter (schema (ta_table ta))))"

definition cell_filter :: "nat \<Rightarrow> cell \<Rightarrow> record_ref \<times> row \<Rightarrow> (bool, table_access_error) result" where
  "cell_filter col_index c = (\<lambda>(_, row). and_then (index_get (cells row) col_index) (\<lambda>x. Inr (x = c)))"

definition ta_find ::
  "'s store_ops \<Rightarrow> env \<Rightarrow> table_access \<Rightarrow> rstring \<Rightarrow> cell \<Rightarrow>
   ('s world, ('s, record_ref \<times> row) query_result, table_access_error) io" where
  "ta_find S E ta name c =
     io_bind (io_lift (find_column_for_query_by_cell (schema (ta_table ta)) name c)) (\<lambda>col_index.
     io_bind (io_lift (column_index_to_btree_pointer_map ta)) (\<lambda>col_index_map.
     case map_of col_index_map col_index of
       Some btree_pointer \<Rightarrow>
         io_bind (io_lift (map_err (\<lambda>_. LoadRowsError LoadNotAnInt) (expect_int c))) (\<lambda>val.
         io_bind (io_lift (index_get (ta_indexes ta) btree_pointer)) (\<lambda>(_, h).
         io_bind (at_index S E (LoadRowsError \<circ> IndexLookup) h (\<lambda>keeps. btree_find keeps (env_fuel E) val)) (\<lambda>found.
         let res = (case found of None \<Rightarrow> [] | Some v \<Rightarrow> [v]) in
         io_bind (next_order E) (\<lambda>ho.
         io_ret (query_from_indexes S (indexed_row_iterator_new ho (ta_table ta) (ta_layout ta) res)
                   (schema (ta_table ta)))))))
     | None \<Rightarrow>
         io_bind (at_store TaStore (io_read (st_seq_pages S (ta_layout ta) (ta_storage ta)))) (\<lambda>page_iter.
         io_ret (query_filter (cell_filter col_index c) (query_new page_iter (schema (ta_table ta)))))))"

section \<open>Indexes\<close>

definition update_one_index ::
  "'s store_ops \<Rightarrow> env \<Rightarrow> table_access \<Rightarrow> i32 \<Rightarrow> nat \<Rightarrow> nat \<times> i32 option \<times> i32 option \<Rightarrow>
   ('s world, unit, table_access_error) io" where
  "update_one_index S E ta pid slot_id = (\<lambda>(idx, old_val, new_val).
     io_bind
       (case old_val of
          None \<Rightarrow> io_ret ()
        | Some v \<Rightarrow>
            io_bind (io_lift (index_get (ta_indexes ta) idx)) (\<lambda>(_, h).
            io_bind (at_index S E (UpdateRowsError \<circ> IndexUpdate) h (\<lambda>keeps. btree_delete keeps (env_fuel E) v)) (\<lambda>_.
            io_ret ()))) (\<lambda>_.
     case new_val of
       None \<Rightarrow> io_ret ()
     | Some v \<Rightarrow>
         io_bind (io_lift (index_get (ta_indexes ta) idx)) (\<lambda>(_, h).
         at_index S E (UpdateRowsError \<circ> IndexUpdate) h
           (\<lambda>keeps. btree_insert keeps (env_fuel E) v (pid, usize_as_i32 slot_id)))))"

definition update_index ::
  "'s store_ops \<Rightarrow> env \<Rightarrow> table_access \<Rightarrow> i32 \<Rightarrow> nat \<Rightarrow> update_index_command \<Rightarrow>
   ('s world, unit, table_access_error) io" where
  "update_index S E ta pid slot_id cmd = for_each (update_one_index S E ta pid slot_id) cmd"

section \<open>Insertion\<close>

text \<open>\<open>before_saving_hook\<close> gets the page id and the slot id of the new record.\<close>

definition raw_insert ::
  "'s store_ops \<Rightarrow> table_access \<Rightarrow> byte list \<Rightarrow> (i32 \<times> nat \<Rightarrow> ('s world, unit, table_access_error) io) \<Rightarrow>
   ('s world, i32 \<times> nat, table_access_error) io" where
  "raw_insert S ta dat before_saving_hook =
     io_bind (io_lift (ta_fsm ta)) (\<lambda>f.
     io_bind (at_store TaFsm (find_available_page S f (length dat))) (\<lambda>p.
     io_bind (io_lift (map_err TaPage (can_insert p dat))) (\<lambda>fits.
     if \<not> fits then io_fail (InsertRowError FsmPageTooSmall)
     else
       io_bind (io_lift (map_err TaPage (insert_record p dat))) (\<lambda>(slot_id, p).
       io_bind (before_saving_hook (page_id p, slot_id)) (\<lambda>_.
       io_bind (at_store (InsertRowError \<circ> InsertCannotWrite) (st_write_page S (ta_layout ta) p (ta_storage ta))) (\<lambda>_.
       io_bind (at_store TaFsm (fsm_update S f p)) (\<lambda>_.
       io_ret (page_id p, slot_id))))))))"

fun insert_command :: "row \<Rightarrow> (nat \<times> nat) list \<Rightarrow> update_index_command \<Rightarrow>
    (update_index_command, table_access_error) result" where
  "insert_command row [] uic = Inr uic"
| "insert_command row ((col_idx, btree_idx) # m) uic =
     and_then (index_get (cells row) col_idx) (\<lambda>c.
     and_then (map_err (\<lambda>_. InsertRowError InsertNotAnInt) (expect_int c)) (\<lambda>val.
     insert_command row m (push_insert (btree_idx, val) uic)))"

definition ta_insert ::
  "'s store_ops \<Rightarrow> env \<Rightarrow> table_access \<Rightarrow> row \<Rightarrow> ('s world, unit, table_access_error) io" where
  "ta_insert S E ta row =
     io_bind (io_lift (map_err (InsertRowError \<circ> RowInvalid) (row_validate row (schema (ta_table ta))))) (\<lambda>_.
     io_bind (io_lift (column_index_to_btree_pointer_map ta)) (\<lambda>m.
     io_bind (next_order E) (\<lambda>ho.
     io_bind (io_lift (insert_command row (hash_iter ho m) [])) (\<lambda>uic.
     io_bind (raw_insert S ta (row_serialize row) (\<lambda>(pid, slot_id). update_index S E ta pid slot_id uic)) (\<lambda>_.
     io_ret ())))))"

section \<open>Deletion\<close>

fun delete_command :: "row \<Rightarrow> (nat \<times> nat) list \<Rightarrow> update_index_command \<Rightarrow>
    (update_index_command, table_access_error) result" where
  "delete_command row [] uic = Inr uic"
| "delete_command row ((col_idx, btree_idx) # m) uic =
     and_then (index_get (cells row) col_idx) (\<lambda>c.
     and_then (map_err (\<lambda>_. DeleteRowsError DeleteNotAnInt) (expect_int c)) (\<lambda>val.
     delete_command row m (push_delete (btree_idx, val) uic)))"

text \<open>The rows to delete, by the id of their page.\<close>

fun rows_to_delete :: "(nat \<times> nat) list \<Rightarrow> (record_ref \<times> row) list \<Rightarrow>
    (i32 \<times> (record_ref \<times> update_index_command) list) list \<Rightarrow>
    ((i32 \<times> (record_ref \<times> update_index_command) list) list, table_access_error) result" where
  "rows_to_delete m [] pages = Inr pages"
| "rows_to_delete m ((r, row) # rows) pages =
     and_then (delete_command row m []) (\<lambda>uic.
     rows_to_delete m rows (entry_push (record_page_id r) (r, uic) pages))"

definition delete_one ::
  "'s store_ops \<Rightarrow> env \<Rightarrow> table_access \<Rightarrow> fsm \<Rightarrow> i32 \<Rightarrow> record_ref \<times> update_index_command \<Rightarrow>
   ('s world, unit, table_access_error) io" where
  "delete_one S E ta f pid = (\<lambda>(r, uic).
     io_bind (at_store (DeleteRowsError \<circ> DeleteCannotRead) (io_read (st_read_page S (ta_layout ta) pid (ta_storage ta)))) (\<lambda>p.
     let p = snd (delete_record p (record_index r)) in
     io_bind (update_index S E ta pid (record_index r) uic) (\<lambda>_.
     io_bind (at_store (DeleteRowsError \<circ> DeleteCannotWrite) (st_write_page S (ta_layout ta) p (ta_storage ta))) (\<lambda>_.
     at_store TaFsm (fsm_update S f p)))))"

definition ta_delete ::
  "'s store_ops \<Rightarrow> env \<Rightarrow> table_access \<Rightarrow> ('s, record_ref \<times> row) query_result \<Rightarrow>
   ('s world, unit, table_access_error) io" where
  "ta_delete S E ta q =
     io_bind (io_lift (ta_fsm ta)) (\<lambda>f.
     io_bind (io_lift (column_index_to_btree_pointer_map ta)) (\<lambda>m.
     io_bind (next_order E) (\<lambda>ho.
     io_bind (\<lambda>w. (query_rows q (w_store w), w)) (\<lambda>rows.
     io_bind (io_lift (rows_to_delete (hash_iter ho m) rows [])) (\<lambda>pages.
     io_bind (next_order E) (\<lambda>ho_pages.
     for_each (\<lambda>(pid, records). for_each (delete_one S E ta f pid) records) (hash_iter ho_pages pages)))))))"

section \<open>Update\<close>

text \<open>The new values by column index, and the updated row with its index commands.\<close>

fun collect_new_values :: "table_schema \<Rightarrow> (rstring \<times> cell) list \<Rightarrow> (nat \<times> cell) list \<Rightarrow>
    ((nat \<times> cell) list, table_access_error) result" where
  "collect_new_values s [] m = Inr m"
| "collect_new_values s ((name, c) # updates) m =
     and_then (find_column_for_query_by_cell s name c) (\<lambda>i.
     collect_new_values s updates (hash_insert i c m))"

fun updated_cells :: "(nat \<times> cell) list \<Rightarrow> (nat \<times> nat) list \<Rightarrow> nat \<Rightarrow> cell list \<Rightarrow> update_index_command \<Rightarrow>
    (cell list \<times> update_index_command, table_access_error) result" where
  "updated_cells new_values pointers i [] cmd = Inr ([], cmd)"
| "updated_cells new_values pointers i (old_cell # cs) cmd =
     (case map_of new_values i of
        None \<Rightarrow>
          and_then (updated_cells new_values pointers (i + 1) cs cmd) (\<lambda>(cs', cmd). Inr (old_cell # cs', cmd))
      | Some updated_cell \<Rightarrow>
          and_then
            (case map_of pointers i of
               None \<Rightarrow> Inr cmd
             | Some btree_pointer \<Rightarrow>
                 and_then (map_err (\<lambda>_. UpdateRowsError UpdateNotAnInt) (expect_int old_cell)) (\<lambda>old_value.
                 and_then (map_err (\<lambda>_. UpdateRowsError UpdateNotAnInt) (expect_int updated_cell)) (\<lambda>new_value.
                 Inr (push_update (btree_pointer, old_value, new_value) cmd)))) (\<lambda>cmd.
          and_then (updated_cells new_values pointers (i + 1) cs cmd) (\<lambda>(cs', cmd). Inr (updated_cell # cs', cmd))))"

fun rows_to_update :: "(nat \<times> cell) list \<Rightarrow> (nat \<times> nat) list \<Rightarrow> (record_ref \<times> row) list \<Rightarrow>
    (i32 \<times> (record_ref \<times> row \<times> update_index_command) list) list \<Rightarrow>
    ((i32 \<times> (record_ref \<times> row \<times> update_index_command) list) list, table_access_error) result" where
  "rows_to_update new_values pointers [] pages = Inr pages"
| "rows_to_update new_values pointers ((r, row) # rows) pages =
     and_then (updated_cells new_values pointers 0 (cells row) []) (\<lambda>(cs, cmd).
     rows_to_update new_values pointers rows (entry_push (record_page_id r) (r, Row cs, cmd) pages))"

text \<open>The rows of one page, deleted and inserted again: the rows that need another page are returned.\<close>

fun reinsert_rows ::
  "'s store_ops \<Rightarrow> env \<Rightarrow> table_access \<Rightarrow> fsm \<Rightarrow> page \<Rightarrow> (record_ref \<times> row \<times> update_index_command) list \<Rightarrow>
   (byte list \<times> update_index_command) list \<Rightarrow>
   ('s world, (byte list \<times> update_index_command) list, table_access_error) io" where
  "reinsert_rows S E ta f p [] left = io_ret left"
| "reinsert_rows S E ta f p ((r, row, cmd) # rows) left =
     (let p = snd (delete_record p (record_index r)); dat = row_serialize row in
      io_bind (io_lift (map_err TaPage (can_insert p dat))) (\<lambda>fits.
      io_bind
        (if fits then
           io_bind (io_lift (map_err TaPage (insert_record p dat))) (\<lambda>(slot_id, p).
           io_bind (update_index S E ta (page_id p) slot_id cmd) (\<lambda>_.
           io_ret (p, left)))
         else io_ret (p, left @ [(dat, cmd)])) (\<lambda>(p, left).
      io_bind (at_store (\<lambda>_. UpdateRowsError UpdateCannotWrite) (st_write_page S (ta_layout ta) p (ta_storage ta))) (\<lambda>_.
      io_bind (at_store TaFsm (fsm_update S f p)) (\<lambda>_.
      reinsert_rows S E ta f p rows left)))))"

fun write_rows_in_place ::
  "'s store_ops \<Rightarrow> env \<Rightarrow> table_access \<Rightarrow> page \<Rightarrow> (record_ref \<times> row \<times> update_index_command) list \<Rightarrow>
   ('s world, unit, table_access_error) io" where
  "write_rows_in_place S E ta p [] = io_ret ()"
| "write_rows_in_place S E ta p ((r, row, cmd) # rows) =
     io_bind (io_lift (map_err TaPage (write_record p (record_index r) (row_serialize row)))) (\<lambda>p.
     io_bind (update_index S E ta (page_id p) (record_index r) cmd) (\<lambda>_.
     io_bind (at_store (\<lambda>_. UpdateRowsError UpdateCannotWrite) (st_write_page S (ta_layout ta) p (ta_storage ta))) (\<lambda>_.
     write_rows_in_place S E ta p rows)))"

fun update_pages ::
  "'s store_ops \<Rightarrow> env \<Rightarrow> table_access \<Rightarrow> fsm \<Rightarrow> bool \<Rightarrow>
   (i32 \<times> (record_ref \<times> row \<times> update_index_command) list) list \<Rightarrow> (byte list \<times> update_index_command) list \<Rightarrow>
   ('s world, (byte list \<times> update_index_command) list, table_access_error) io" where
  "update_pages S E ta f not_in_place [] left = io_ret left"
| "update_pages S E ta f not_in_place ((pid, rows) # pages) left =
     io_bind (at_store (UpdateRowsError \<circ> UpdateCannotRead) (io_read (st_read_page S (ta_layout ta) pid (ta_storage ta)))) (\<lambda>p.
     io_bind
       (if not_in_place then reinsert_rows S E ta f p rows left
        else io_bind (write_rows_in_place S E ta p rows) (\<lambda>_. io_ret left)) (\<lambda>left.
     update_pages S E ta f not_in_place pages left))"

definition ta_update ::
  "'s store_ops \<Rightarrow> env \<Rightarrow> table_access \<Rightarrow> ('s, record_ref \<times> row) query_result \<Rightarrow> (rstring \<times> cell) list \<Rightarrow>
   ('s world, unit, table_access_error) io" where
  "ta_update S E ta q updates =
     (if qr_schema q \<noteq> schema (ta_table ta) then io_fail (UpdateRowsError SchemaMismatch)
      else
        io_bind (io_lift (ta_fsm ta)) (\<lambda>f.
        io_bind (io_lift (column_index_to_btree_pointer_map ta)) (\<lambda>pointers.
        io_bind (io_lift (collect_new_values (schema (ta_table ta)) updates [])) (\<lambda>new_values.
        let not_in_place = list_ex (\<lambda>(_, c). is_var_size (column_type_of c)) updates in
        io_bind (\<lambda>w. (query_rows q (w_store w), w)) (\<lambda>rows.
        io_bind (io_lift (rows_to_update new_values pointers rows [])) (\<lambda>pages.
        io_bind (next_order E) (\<lambda>ho.
        io_bind (update_pages S E ta f not_in_place (hash_iter ho pages) []) (\<lambda>left.
        for_each (\<lambda>(dat, cmd).
          io_bind (raw_insert S ta dat (\<lambda>(pid, slot_id). update_index S E ta pid slot_id cmd)) (\<lambda>_. io_ret ())) left))))))))"

end
