(* ===== verification/Query_Props.thy ===== *)
theory Query_Props
  imports Table_Access
begin

text \<open>
  Properties of queries that hold for every store: every row a query of a table yields is a row of
  the table's schema, and the hash join of two queries is the nested loop join of their rows.
\<close>

section \<open>What the iterators yield\<close>

definition typed_items :: "table_schema \<Rightarrow> (record_ref \<times> row) items \<Rightarrow> bool" where
  "typed_items s items \<longleftrightarrow> (\<forall>r row. Inr (r, row) \<in> set items \<longrightarrow> row_fits row s \<and> row_strings_ok row)"

lemma row_of_record_typed:
  assumes "row_of_record s r = Inr (r', row)"
  shows "row_fits row s \<and> row_strings_ok row"
  using assms by (auto simp: row_of_record_def and_then_Inr_iff intro: row_deserialize_fits)

lemma page_items_typed: "Inr (r, row) \<in> set (page_result_items s res) \<Longrightarrow> row_fits row s \<and> row_strings_ok row"
  by (cases res) (auto simp: page_row_items_def page_row_iterator_new_def dest!: sym [of "Inr _"] row_of_record_typed)

lemma query_new_typed: "typed_items s (row_iter (query_new pages s) st)"
proof -
  have "row_fits row s \<and> row_strings_ok row"
    if "Inr (r, row) \<in> set (row_iter (query_new pages s) st)" for r row
  proof -
    from that obtain x y where "x \<in> set (pages st)" "y \<in> set (page_result_items s x)"
      "Inr (r, row) = map_err TaStore y"
      by (auto simp: query_new_def)
    then show ?thesis by (metis map_err_Inr_iff page_items_typed)
  qed
  then show ?thesis by (simp add: typed_items_def)
qed

lemma indexed_items_typed:
  assumes "Inr (r, row) \<in> set (indexed_page_items S st it x)"
  shows "row_fits row (schema (ix_table it)) \<and> row_strings_ok row"
proof (cases x)
  case (Pair pid ids)
  show ?thesis
  proof (cases "st_read_page S (ix_layout it) pid (TableStorage (table_id (ix_table it))) st")
    case (Inr p)
    then show ?thesis
      using assms Pair by (auto simp: indexed_page_items_def dest!: sym [of "Inr _"] row_of_record_typed)
  qed (use assms Pair in \<open>simp add: indexed_page_items_def\<close>)
qed

lemma query_from_indexes_typed:
  assumes "ix_record_iter it = None" and "schema (ix_table it) = s"
  shows "typed_items s (row_iter (query_from_indexes S it s) st)"
proof -
  have "row_fits row s \<and> row_strings_ok row"
    if "Inr (r, row) \<in> set (row_iter (query_from_indexes S it s) st)" for r row
  proof -
    from that obtain y where "y \<in> set (indexed_collect S st it)" "Inr (r, row) = map_err TaStore y"
      by (auto simp: query_from_indexes_def)
    then have "Inr (r, row) \<in> set (indexed_collect S st it)" by (metis map_err_Inr_iff)
    then show ?thesis
      using assms(2) unfolding indexed_collect_eq [OF assms(1)]
      by (auto dest!: indexed_items_typed)
  qed
  then show ?thesis by (simp add: typed_items_def)
qed

lemma filter_items_subset: "Inr x \<in> set (filter_items f items) \<Longrightarrow> Inr x \<in> set items \<and> f x = Inr True"
  by (induction f items rule: filter_items.induct) (auto split: sum.splits if_splits)

lemma query_filter_typed: "typed_items s (row_iter q st) \<Longrightarrow> typed_items s (row_iter (query_filter f q) st)"
  by (auto simp: typed_items_def query_filter_def dest!: filter_items_subset)

lemma typed_rows:
  "typed_items s (row_iter q st) \<Longrightarrow> query_rows q st = Inr rows \<Longrightarrow> (r, row) \<in> set rows \<Longrightarrow>
   row_fits row s \<and> row_strings_ok row"
  by (auto simp: typed_items_def query_rows_def collect_results_Inr_iff)

lemma ta_find_typed:
  assumes "ta_find S E ta name c w = (Inr q, w')"
  shows "qr_schema q = schema (ta_table ta) \<and> typed_items (schema (ta_table ta)) (row_iter q st)"
  using assms
  by (auto simp: ta_find_def io_bind_ok_iff query_filter_typed query_new_typed Let_def split: option.splits
      intro!: query_from_indexes_typed)
     (auto simp: query_filter_def query_new_def query_from_indexes_def indexed_row_iterator_new_def Let_def)

lemma find_all_typed:
  assumes "find_all S ta w = (Inr q, w')"
  shows "qr_schema q = schema (ta_table ta) \<and> typed_items (schema (ta_table ta)) (row_iter q st)"
  using assms by (auto simp: find_all_def io_bind_ok_iff query_new_typed) (simp add: query_new_def)

section \<open>Hash joins\<close>

lemma join_table_ok:
  assumes "\<And>r row. (r, row) \<in> set rows \<Longrightarrow> i < length (cells row)"
  shows "\<exists>m'. join_table i rows m = Inr m' \<and>
    (\<forall>k. bucket m' k = bucket m k @ map snd (filter (\<lambda>(_, row). cells row ! i = k) rows))"
  using assms
proof (induction i rows m rule: join_table.induct)
  case (2 i r row rows m)
  have i: "i < length (cells row)" using "2.prems" [of r row] by simp
  then obtain m' where "join_table i rows (entry_push (cells row ! i) row m) = Inr m'"
    "\<forall>k. bucket m' k = bucket (entry_push (cells row ! i) row m) k @
       map snd (filter (\<lambda>(_, row). cells row ! i = k) rows)"
    using "2.IH" [of "cells row ! i"] "2.prems" by auto
  with i show ?case by (intro exI [of _ m']) (simp add: bucket_entry_push)
qed simp

lemma join_item_ok:
  assumes "i < length (cells row)"
  shows "join_item i m (Inr (r, row)) = map (\<lambda>inner. Inr (Row (cells row @ cells inner))) (bucket m (cells row ! i))"
  using assms by (simp add: join_item_def bucket_def split: option.split)

text \<open>The specification of a join: for every outer row, the inner rows with the same cell.\<close>

definition nested_loop_join :: "nat \<Rightarrow> nat \<Rightarrow> (record_ref \<times> row) list \<Rightarrow> (record_ref \<times> row) list \<Rightarrow> row list" where
  "nested_loop_join i j outer inner =
     concat (map (\<lambda>(_, row).
       map (\<lambda>(_, inner_row). Row (cells row @ cells inner_row))
         (filter (\<lambda>(_, inner_row). cells inner_row ! j = cells row ! i) inner)) outer)"

lemma find_column_bound:
  "find_column_for_query s name = Inr i \<Longrightarrow> i < length (columns s)"
  by (auto simp: find_column_for_query_def ok_or_def position_Some split: option.splits)

lemma find_column_by_cell:
  assumes "find_column_for_query s name = Inr i" and "is_of_type c (col_type (columns s ! i))"
  shows "find_column_for_query_by_cell s name c = Inr i"
  using assms find_column_bound [OF assms(1)] by (simp add: find_column_for_query_by_cell_def)

lemma join_items_ok:
  assumes "\<And>r row. (r, row) \<in> set outer \<Longrightarrow> i < length (cells row)"
    and "\<And>k. bucket m k = map snd (filter (\<lambda>(_, row). cells row ! j = k) inner)"
  shows "concat (map (join_item i m) (map Inr outer)) = map Inr (nested_loop_join i j outer inner)"
  using assms(1)
proof (induction outer)
  case (Cons x outer)
  obtain r row where x: "x = (r, row)" by (cases x)
  have "join_item i m (Inr x) =
      map Inr (map (\<lambda>(_, inner_row). Row (cells row @ cells inner_row))
         (filter (\<lambda>(_, inner_row). cells inner_row ! j = cells row ! i) inner))"
    using Cons.prems [of r row] by (simp add: x join_item_ok assms(2) comp_def case_prod_beta)
  then show ?case using Cons x by (auto simp: nested_loop_join_def)
qed (simp add: nested_loop_join_def)

section \<open>Properties\<close>

text \<open>
  C30. Every row that a query of a table yields, over whatever the store returns and with or
  without an index, validates against the table's schema and holds valid strings only; so a
  query never yields a row that does not have the type of its table.
\<close>

theorem find_rows_typed:
  assumes "ta_find S E ta name c w = (Inr q, w') \<or> find_all S ta w = (Inr q, w')"
    and "query_rows q st = Inr rows" and "(r, row) \<in> set rows"
  shows "qr_schema q = schema (ta_table ta) \<and> row_validate row (schema (ta_table ta)) = Inr () \<and> row_strings_ok row"
proof -
  have "qr_schema q = schema (ta_table ta) \<and> typed_items (schema (ta_table ta)) (row_iter q st)"
    using assms(1) ta_find_typed [of S E ta name c w q w' st] find_all_typed [of S ta w q w' st] by blast
  then show ?thesis
    using typed_rows [OF _ assms(2,3)] by (auto simp: row_validate_iff)
qed

text \<open>
  C29. The hash join of two queries yields what the nested loop join of their rows yields, in the
  same order: for every row of the outer query, the rows of the inner query that have the same
  cell in the join columns, each appended to the outer row. Its schema is the two schemas one after
  the other.
\<close>

theorem hash_join_nested_loop:
  assumes "query_rows outer_query st = Inr outer" and "query_rows inner_query st = Inr inner"
    and "find_column_for_query (qr_schema outer_query) a = Inr i"
    and "find_column_for_query (qr_schema inner_query) b = Inr j"
    and "raw_type (col_type (columns (qr_schema outer_query) ! i)) = raw_type (col_type (columns (qr_schema inner_query) ! j))"
    and "\<forall>(_, row) \<in> set outer. row_fits row (qr_schema outer_query)"
    and "\<forall>(_, row) \<in> set inner. row_fits row (qr_schema inner_query)"
  shows "\<exists>q. hash_join outer_query inner_query a b st = Inr q \<and>
    query_rows q st = Inr (nested_loop_join i j outer inner) \<and>
    columns (qr_schema q) = columns (qr_schema outer_query) @ columns (qr_schema inner_query) \<and>
    (\<forall>row \<in> set (nested_loop_join i j outer inner). row_fits row (qr_schema q))"
proof -
  let ?s = "qr_schema outer_query" and ?u = "qr_schema inner_query"
  have i: "i < length (columns ?s)" and j: "j < length (columns ?u)"
    using assms(3,4) by (simp_all add: find_column_bound)
  have len: "length (cells row) = length (columns s)" if "row_fits row s" for row s
    using that by (simp add: row_fits_def list_all2_lengthD)
  have bo: "i < length (cells row)" if "(r, row) \<in> set outer" for r row
    using that assms(6) i len [of row ?s] by fastforce
  have bi: "j < length (cells row)" if "(r, row) \<in> set inner" for r row
    using that assms(7) j len [of row ?u] by fastforce
  obtain m where m: "join_table j inner [] = Inr m"
    "\<And>k. bucket m k = map snd (filter (\<lambda>(_, row). cells row ! j = k) inner)"
    using join_table_ok [of inner j "[]"] bi by (auto simp: bucket_def [of "[]"])
  have items: "row_iter outer_query st = map Inr outer"
    using assms(1) by (simp add: query_rows_def collect_results_Inr_iff)
  have "columns ?s @ columns ?u \<noteq> []" using i by auto
  then have run: "hash_join outer_query inner_query a b st =
      Inr \<lparr>row_iter = (\<lambda>st'. concat (map (join_item i m) (row_iter outer_query st'))),
           qr_schema = \<lparr>columns = columns ?s @ columns ?u\<rparr>\<rparr>"
    using assms(2-5) i j m(1) by (simp add: hash_join_def schema_new_def)
  have "row_fits row \<lparr>columns = columns ?s @ columns ?u\<rparr>" if "row \<in> set (nested_loop_join i j outer inner)" for row
  proof -
    from that obtain r x r' y where "(r, x) \<in> set outer" "(r', y) \<in> set inner" "row = Row (cells x @ cells y)"
      by (auto simp: nested_loop_join_def)
    moreover from this have "row_fits x ?s" "row_fits y ?u"
      using assms(6,7) by auto
    ultimately show ?thesis by (simp add: row_fits_def list_all2_appendI)
  qed
  with run show ?thesis
    using join_items_ok [OF bo m(2), of outer]
    by (simp add: items query_rows_def collect_results_Inr_iff)
qed

text \<open>A page with the row of Ada, and a query that reads it.\<close>

definition plain_env :: env where
  "plain_env = \<lparr>env_keeps = (\<lambda>_ _ _. False), env_order = (\<lambda>_ n. [0..<n]), env_fuel = 8\<rparr>"

definition user_page :: page where
  "user_page = (append_row page_1 (row_serialize user_row))\<lparr>number_of_records := 1\<rparr>"

definition one_page_store :: "files store_ops" where
  "one_page_store = file_store\<lparr>st_seq_pages := (\<lambda>_ _ _. Inr (\<lambda>_. [Inr user_page]))\<rparr>"

definition users_table :: table where
  "users_table = \<lparr>table_id = i32_of_int 5, table_name = str_bytes ''users'', schema = users_schema\<rparr>"

definition empty_world :: "files world" where
  "empty_world = \<lparr>w_store = (\<lambda>_. None), w_handles = [], w_ticks = 0\<rparr>"

definition user_query :: "(files, record_ref \<times> row) query_result" where
  "user_query = query_filter (cell_filter 0 (CellInt (i32_of_int 7))) (query_new (\<lambda>_. [Inr user_page]) users_schema)"

lemma find_id_column:
  "find_column_for_query_by_cell users_schema (str_bytes '' id '') (CellInt (i32_of_int 7)) = Inr 0"
  "find_column_for_query users_schema (str_bytes '' id '') = Inr 0"
  by code_simp+

lemma user_query_find:
  "ta_find one_page_store plain_env (ta_new users_table layout_64) (str_bytes '' id '') (CellInt (i32_of_int 7)) empty_world =
     (Inr user_query, empty_world)"
  by (simp add: ta_find_def ta_new_def users_table_def find_id_column column_index_to_btree_pointer_map_def
      io_bind_def at_store_def one_page_store_def empty_world_def user_query_def)

definition user_ref :: record_ref where
  "user_ref = record_from_slot (i32_of_int 1) (page_bytes user_page) 0 (slots user_page ! 0)"

lemma user_query_rows: "query_rows user_query st = Inr [(user_ref, user_row)]"
proof -
  have "row_iter user_query st = [Inr (user_ref, user_row)]"
    unfolding user_query_def query_filter_def query_new_def query_result.simps by code_simp
  then show ?thesis by (simp add: query_rows_def)
qed

theorem find_rows_typed_witness:
  "qr_schema user_query = users_schema \<and> row_validate user_row users_schema = Inr () \<and> row_strings_ok user_row"
  using find_rows_typed [OF disjI1 [OF user_query_find] user_query_rows [of "\<lambda>_. None"], of user_ref user_row]
  by (simp add: ta_new_def users_table_def)

theorem hash_join_nested_loop_witness:
  "\<exists>q. hash_join user_query user_query (str_bytes '' id '') (str_bytes '' id '') (\<lambda>_. None) = Inr q \<and>
     query_rows q (\<lambda>_. None) = Inr [Row (cells user_row @ cells user_row)]"
proof -
  have fits: "row_fits user_row users_schema" using user_row_ok(1) by (simp add: row_validate_iff)
  have s: "qr_schema user_query = users_schema" by (simp add: user_query_def query_filter_def query_new_def)
  have "nested_loop_join 0 0 [(user_ref, user_row)] [(user_ref, user_row)] = [Row (cells user_row @ cells user_row)]"
    by (simp add: nested_loop_join_def)
  then show ?thesis
    using hash_join_nested_loop [OF user_query_rows user_query_rows, of "str_bytes '' id ''" 0 "str_bytes '' id ''" 0 "\<lambda>_. None"]
      s find_id_column(2) fits by auto
qed

end
