(* ===== verification/Table_Rows.thy ===== *)
theory Table_Rows
  imports Query_Props "HOL-Library.Multiset"
begin

text \<open>
  What a table holds: the entries of its pages, each a row with the page and the slot where it lies,
  in the order of a scan. Queries without an index are a scan of the entries; writing a page of
  the table replaces the entries of that page.
\<close>

section \<open>Entries\<close>

type_synonym entry = "(i32 \<times> nat) \<times> byte list"

definition page_entries :: "page \<Rightarrow> entry list" where
  "page_entries p =
     map (\<lambda>i. ((page_id p, i), the (page_rows p i))) (filter (\<lambda>i. page_rows p i \<noteq> None) [0..<length (slots p)])"

definition page_at :: "page_data_layout \<Rightarrow> files \<Rightarrow> i32 \<Rightarrow> nat \<Rightarrow> page" where
  "page_at l fs tid i = the (file_pages l fs (TableStorage tid) (usize_as_i32 i))"

definition table_pages :: "page_data_layout \<Rightarrow> files \<Rightarrow> i32 \<Rightarrow> page list" where
  "table_pages l fs tid = map (page_at l fs tid) [1..<file_count l fs (TableStorage tid) + 1]"

definition table_entries :: "page_data_layout \<Rightarrow> files \<Rightarrow> i32 \<Rightarrow> entry list" where
  "table_entries l fs tid = concat (map page_entries (table_pages l fs tid))"

text \<open>Every page of the table is there, well-formed and under its own id.\<close>

definition table_ok :: "page_data_layout \<Rightarrow> files \<Rightarrow> i32 \<Rightarrow> bool" where
  "table_ok l fs tid \<longleftrightarrow> file_ok l fs (TableStorage tid) \<and>
     (\<forall>i. 1 \<le> i \<longrightarrow> i \<le> file_count l fs (TableStorage tid) \<longrightarrow>
        file_pages l fs (TableStorage tid) (usize_as_i32 i) = Some (page_at l fs tid i) \<and>
        page_wf (page_at l fs tid i) \<and> page_id (page_at l fs tid i) = usize_as_i32 i \<and>
        layout (page_at l fs tid i) = l)"

definition readable :: "table_schema \<Rightarrow> entry list \<Rightarrow> bool" where
  "readable s es \<longleftrightarrow> (\<forall>(k, bs) \<in> set es. \<exists>row. row_deserialize bs s = Inr row)"

definition decode :: "table_schema \<Rightarrow> byte list \<Rightarrow> row" where
  "decode s bs = (case row_deserialize bs s of Inr row \<Rightarrow> row | Inl _ \<Rightarrow> Row [])"

text \<open>A row of a query and the entry it comes from.\<close>

definition row_key :: "record_ref \<times> row \<Rightarrow> (i32 \<times> nat) \<times> row" where
  "row_key x = ((record_page_id (fst x), record_index (fst x)), snd x)"

lemma row_key_pair: "row_key (r, row) = ((record_page_id r, record_index r), row)"
  by (simp add: row_key_def)

lemma page_entries_keys: "map fst (page_entries p) =
    map (Pair (page_id p)) (filter (\<lambda>i. page_rows p i \<noteq> None) [0..<length (slots p)])"
  by (simp add: page_entries_def comp_def)

lemma row_of_record_decode:
  assumes "record_bytes r = Inr bs" and "row_deserialize bs s = Inr row"
  shows "row_of_record s r = Inr (r, decode s bs)"
  using assms by (simp add: row_of_record_def decode_def)

lemma page_scan:
  assumes "page_wf p" and "readable s (page_entries p)"
  shows "\<exists>rs. page_result_items s (Inr p) = map Inr rs \<and>
    map row_key rs = map (\<lambda>(k, bs). (k, decode s bs)) (page_entries p)"
proof -
  let ?R = "collect_records (record_iterator_new p)"
  have it: "map (\<lambda>r. (record_page_id r, record_index r, record_bytes r)) ?R =
      map (\<lambda>((pid, i), bs). (pid, i, Inr bs)) (page_entries p)"
    unfolding iterator_rows [OF assms(1)] by (simp add: page_entries_def)
  have "\<exists>rs. map (row_of_record s) R = map Inr rs \<and> map row_key rs = map (\<lambda>(k, bs). (k, decode s bs)) es"
    if "map (\<lambda>r. (record_page_id r, record_index r, record_bytes r)) R = map (\<lambda>((pid, i), bs). (pid, i, Inr bs)) es"
      "readable s es" for R and es :: "entry list"
    using that
  proof (induction es arbitrary: R)
    case (Cons e es)
    obtain pid i bs where e: "e = ((pid, i), bs)" by (cases e) auto
    from Cons.prems(1) obtain r R' where R: "R = r # R'" "record_page_id r = pid" "record_index r = i"
      "record_bytes r = Inr bs"
      "map (\<lambda>r. (record_page_id r, record_index r, record_bytes r)) R' = map (\<lambda>((pid, i), bs). (pid, i, Inr bs)) es"
      unfolding e by (cases R) auto
    from Cons.prems(2) e obtain row where "row_deserialize bs s = Inr row" "readable s es"
      by (auto simp: readable_def)
    moreover obtain rs where "map (row_of_record s) R' = map Inr rs"
      "map row_key rs = map (\<lambda>(k, bs). (k, decode s bs)) es"
      using Cons.IH [OF R(5) \<open>readable s es\<close>] by blast
    ultimately show ?case
      using R e row_of_record_decode [of r bs s row]
      by (intro exI [of _ "(r, decode s bs) # rs"]) (simp add: row_key_pair)
  qed simp
  from this [OF it assms(2)] show ?thesis
    by (simp add: page_row_items_def page_row_iterator_new_def)
qed

lemma pages_scan:
  assumes "\<And>p. p \<in> set ps \<Longrightarrow> page_wf p" and "readable s (concat (map page_entries ps))"
  shows "\<exists>rs. map (map_err TaStore) (concat (map (page_result_items s) (map Inr ps))) = map Inr rs \<and>
    map row_key rs = map (\<lambda>(k, bs). (k, decode s bs)) (concat (map page_entries ps))"
  using assms
proof (induction ps)
  case (Cons p ps)
  have "readable s (page_entries p)" "readable s (concat (map page_entries ps))"
    using Cons.prems(2) by (auto simp: readable_def)
  with Cons page_scan [of p s] obtain rs rs' where
    "page_result_items s (Inr p) = map Inr rs" "map row_key rs = map (\<lambda>(k, bs). (k, decode s bs)) (page_entries p)"
    "map (map_err TaStore) (concat (map (page_result_items s) (map Inr ps))) = map Inr rs'"
    "map row_key rs' = map (\<lambda>(k, bs). (k, decode s bs)) (concat (map page_entries ps))"
    by auto
  then show ?case by (intro exI [of _ "rs @ rs'"]) simp
qed simp

section \<open>Scans\<close>

lemma seq_pages_query:
  assumes "table_ok l fs tid" and "readable s (table_entries l fs tid)"
  shows "\<exists>run rs. file_seq_pages l (TableStorage tid) fs = Inr run \<and>
    row_iter (query_new run s) fs = map Inr rs \<and>
    map row_key rs = map (\<lambda>(k, bs). (k, decode s bs)) (table_entries l fs tid)"
proof -
  let ?n = "file_count l fs (TableStorage tid)"
  obtain run where run: "file_seq_pages l (TableStorage tid) fs = Inr run"
    "run fs = map (\<lambda>i. Inr (page_at l fs tid i)) [1..<?n + 1]"
    using file_scan [of l fs "TableStorage tid" "page_at l fs tid"] assms(1) by (auto simp: table_ok_def)
  have "run fs = map Inr (table_pages l fs tid)"
    by (simp add: run(2) table_pages_def comp_def del: upt_Suc)
  moreover have "page_wf p" if "p \<in> set (table_pages l fs tid)" for p
    using that assms(1) by (auto simp: table_pages_def table_ok_def)
  ultimately show ?thesis
    using run(1) pages_scan [of "table_pages l fs tid" s] assms(2)
    by (simp add: query_new_def table_entries_def)
qed

lemma find_all_entries:
  assumes "table_ok l (w_store w) (table_id t)" and "readable (schema t) (table_entries l (w_store w) (table_id t))"
  shows "\<exists>q rs. find_all file_store (ta_new t l) w = (Inr q, w) \<and> query_rows q (w_store w) = Inr rs \<and>
    map row_key rs = map (\<lambda>(k, bs). (k, decode (schema t) bs)) (table_entries l (w_store w) (table_id t))"
proof -
  obtain run rs where run: "file_seq_pages l (TableStorage (table_id t)) (w_store w) = Inr run"
    "row_iter (query_new run (schema t)) (w_store w) = map Inr rs"
    "map row_key rs = map (\<lambda>(k, bs). (k, decode (schema t) bs)) (table_entries l (w_store w) (table_id t))"
    using seq_pages_query [OF assms] by blast
  then show ?thesis
    by (intro exI [of _ "query_new run (schema t)"] exI [of _ rs])
      (simp add: find_all_def ta_new_def ta_storage_def file_store_def at_store_def io_bind_def
        query_rows_def collect_results_Inr_iff)
qed

lemma filter_items_cells:
  assumes "\<And>r row. (r, row) \<in> set rs \<Longrightarrow> i < length (cells row)"
  shows "filter_items (cell_filter i c) (map Inr rs) = map Inr (filter (\<lambda>(_, row). cells row ! i = c) rs)"
  using assms
proof (induction rs)
  case (Cons x rs)
  obtain r row where x: "x = (r, row)" by (cases x)
  then have "i < length (cells row)" using Cons.prems [of r row] by simp
  then have "cell_filter i c x = Inr (cells row ! i = c)" by (simp add: cell_filter_def x)
  moreover have "filter_items (cell_filter i c) (map Inr rs) = map Inr (filter (\<lambda>(_, row). cells row ! i = c) rs)"
    using Cons by fastforce
  ultimately show ?case by (simp add: x)
qed simp

lemma find_entries:
  assumes "table_ok l (w_store w) (table_id t)" and "readable (schema t) (table_entries l (w_store w) (table_id t))"
    and "find_column_for_query_by_cell (schema t) name c = Inr i"
  shows "\<exists>q rs. ta_find file_store E (ta_new t l) name c w = (Inr q, w) \<and> qr_schema q = schema t \<and>
    query_rows q (w_store w) = Inr rs \<and>
    map row_key rs = filter (\<lambda>(_, row). cells row ! i = c)
      (map (\<lambda>(k, bs). (k, decode (schema t) bs)) (table_entries l (w_store w) (table_id t)))"
proof -
  obtain run rs where run: "file_seq_pages l (TableStorage (table_id t)) (w_store w) = Inr run"
    "row_iter (query_new run (schema t)) (w_store w) = map Inr rs"
    "map row_key rs = map (\<lambda>(k, bs). (k, decode (schema t) bs)) (table_entries l (w_store w) (table_id t))"
    using seq_pages_query [OF assms(1,2)] by blast
  have col: "i < length (columns (schema t))"
    using assms(3) by (auto simp: find_column_for_query_by_cell_def and_then_Inr_iff dest!: find_column_bound split: if_splits)
  have "i < length (cells row)" if "(r, row) \<in> set rs" for r row
  proof -
    have "Inr (r, row) \<in> set (row_iter (query_new run (schema t)) (w_store w))"
      using that by (simp add: run(2))
    then have "row_fits row (schema t)"
      using query_new_typed [of "schema t" run "w_store w"] by (simp add: typed_items_def)
    then show ?thesis using col by (simp add: row_fits_def list_all2_lengthD)
  qed
  note fil = filter_items_cells [of rs i c, OF this]
  have "map row_key (filter (\<lambda>(_, row). cells row ! i = c) rs) = filter (\<lambda>(_, row). cells row ! i = c) (map row_key rs)"
    by (induction rs) (auto simp: row_key_pair)
  then show ?thesis
    using run fil assms(3)
    by (intro exI [of _ "query_filter (cell_filter i c) (query_new run (schema t))"]
        exI [of _ "filter (\<lambda>(_, row). cells row ! i = c) rs"])
      (simp add: ta_find_def ta_new_def ta_storage_def file_store_def at_store_def io_bind_def
        column_index_to_btree_pointer_map_def query_filter_def query_rows_def collect_results_Inr_iff
        query_new_def [of run "schema t"])
qed

section \<open>The table as a map\<close>

text \<open>Where the rows of a table lie.\<close>

definition table_map :: "page_data_layout \<Rightarrow> files \<Rightarrow> i32 \<Rightarrow> i32 \<times> nat \<Rightarrow> byte list option" where
  "table_map l fs tid k =
     (case file_pages l fs (TableStorage tid) (fst k) of None \<Rightarrow> None | Some p \<Rightarrow> page_rows p (snd k))"

lemma page_rows_range: "page_rows p i = Some bs \<Longrightarrow> i < length (slots p)"
  by (auto simp: page_rows_def read_slot_def vec_get_def split: if_splits sum.splits option.splits)

lemma page_entries_iff: "((pid, i), bs) \<in> set (page_entries p) \<longleftrightarrow> pid = page_id p \<and> page_rows p i = Some bs"
  using page_rows_range [of p i bs] by (auto simp: page_entries_def)

lemma page_entries_distinct: "distinct (map fst (page_entries p))"
  by (simp add: page_entries_keys distinct_map inj_on_def)

lemma table_pageD:
  assumes "table_ok l fs tid" and "file_pages l fs (TableStorage tid) pid = Some p"
  shows "page_wf p" "page_id p = pid" "layout p = l" "1 \<le> i32_val pid"
    "i32_val pid \<le> int (file_count l fs (TableStorage tid))" "p = page_at l fs tid (nat (i32_val pid))"
proof -
  have ok: "file_ok l fs (TableStorage tid)" using assms(1) by (simp add: table_ok_def)
  show r: "1 \<le> i32_val pid" "i32_val pid \<le> int (file_count l fs (TableStorage tid))"
    using fstore.pages_dom [OF ok assms(2)] by simp_all
  then have n: "usize_as_i32 (nat (i32_val pid)) = pid" "1 \<le> nat (i32_val pid)"
    "nat (i32_val pid) \<le> file_count l fs (TableStorage tid)"
    by (simp_all add: usize_as_i32_def)
  with assms show "page_wf p" "page_id p = pid" "layout p = l" "p = page_at l fs tid (nat (i32_val pid))"
    unfolding table_ok_def by (metis option.inject)+
qed

lemma table_entries_set:
  assumes "table_ok l fs tid"
  shows "(k, bs) \<in> set (table_entries l fs tid) \<longleftrightarrow> table_map l fs tid k = Some bs"
proof -
  let ?n = "file_count l fs (TableStorage tid)"
  obtain pid i where k: "k = (pid, i)" by (cases k)
  have page: "file_pages l fs (TableStorage tid) (usize_as_i32 j) = Some (page_at l fs tid j) \<and>
      page_id (page_at l fs tid j) = usize_as_i32 j" if "1 \<le> j" "j \<le> ?n" for j
    using assms that by (simp add: table_ok_def)
  have "(k, bs) \<in> set (table_entries l fs tid) \<longleftrightarrow>
      (\<exists>j. 1 \<le> j \<and> j \<le> ?n \<and> pid = usize_as_i32 j \<and> page_rows (page_at l fs tid j) i = Some bs)"
    using page by (auto simp: table_entries_def table_pages_def k page_entries_iff)
  also have "\<dots> \<longleftrightarrow> table_map l fs tid k = Some bs"
  proof
    assume "\<exists>j. 1 \<le> j \<and> j \<le> ?n \<and> pid = usize_as_i32 j \<and> page_rows (page_at l fs tid j) i = Some bs"
    then show "table_map l fs tid k = Some bs" using page by (auto simp: table_map_def k)
  next
    assume "table_map l fs tid k = Some bs"
    then obtain p where p: "file_pages l fs (TableStorage tid) pid = Some p" "page_rows p i = Some bs"
      by (auto simp: table_map_def k split: option.splits)
    from table_pageD [OF assms p(1)] p(2) show "\<exists>j. 1 \<le> j \<and> j \<le> ?n \<and> pid = usize_as_i32 j \<and>
        page_rows (page_at l fs tid j) i = Some bs"
      by (intro exI [of _ "nat (i32_val pid)"]) (auto simp: usize_as_i32_def)
  qed
  finally show ?thesis .
qed

lemma table_entries_distinct:
  assumes "table_ok l fs tid"
  shows "distinct (map fst (table_entries l fs tid))"
proof -
  let ?n = "file_count l fs (TableStorage tid)"
  have bound: "?n + 1 < 2 ^ 31"
    using assms fstore.count_bound by (simp add: table_ok_def)
  have ids: "page_id (page_at l fs tid j) = usize_as_i32 j" if "1 \<le> j" "j \<le> ?n" for j
    using assms that by (simp add: table_ok_def)
  have "distinct (map fst (concat (map (\<lambda>j. page_entries (page_at l fs tid j)) [1..<m + 1])))" if "m \<le> ?n" for m
    using that
  proof (induction m)
    case (Suc m)
    have "k \<noteq> k'" if k: "(k, bs) \<in> set (page_entries (page_at l fs tid j))" "1 \<le> j" "j \<le> m"
        "(k', bs') \<in> set (page_entries (page_at l fs tid (Suc m)))" for k bs j k' bs'
    proof -
      have "fst k = usize_as_i32 j" "fst k' = usize_as_i32 (Suc m)"
        using k Suc.prems ids [of j] ids [of "Suc m"] by (auto simp: page_entries_iff [of "fst k" "snd k" bs, simplified]
            page_entries_iff [of "fst k'" "snd k'" bs', simplified])
      moreover have "usize_as_i32 j \<noteq> usize_as_i32 (Suc m)"
        using k(3) Suc.prems bound by (simp add: i32_eq_iff)
      ultimately show ?thesis by auto
    qed
    then show ?case
      using Suc page_entries_distinct [of "page_at l fs tid (Suc m)"] by fastforce
  qed simp
  from this [of ?n] show ?thesis
    by (simp add: table_entries_def table_pages_def comp_def del: upt_Suc)
qed

text \<open>The rows in a map, as a multiset.\<close>

definition rows_of :: "table_schema \<Rightarrow> ('k \<Rightarrow> byte list option) \<Rightarrow> row multiset" where
  "rows_of s m = image_mset (\<lambda>k. decode s (the (m k))) (mset_set (dom m))"

lemma table_map_finite: "table_ok l fs tid \<Longrightarrow> finite (dom (table_map l fs tid))"
proof -
  assume ok: "table_ok l fs tid"
  have "dom (table_map l fs tid) = fst ` set (table_entries l fs tid)"
    using table_entries_set [OF ok] by force
  then show ?thesis by simp
qed

lemma rows_of_entries:
  assumes "table_ok l fs tid"
  shows "mset (map (\<lambda>(k, bs). decode s bs) (table_entries l fs tid)) = rows_of s (table_map l fs tid)"
proof -
  let ?es = "table_entries l fs tid"
  have dist: "distinct ?es" and keys: "distinct (map fst ?es)"
    using table_entries_distinct [OF assms] by (simp_all add: distinct_map)
  have "mset (map fst ?es) = mset_set (dom (table_map l fs tid))"
  proof -
    have "set (map fst ?es) = dom (table_map l fs tid)"
      using table_entries_set [OF assms] by force
    then show ?thesis by (metis keys mset_set_set)
  qed
  moreover have "map (\<lambda>(k, bs). decode s bs) ?es = map (\<lambda>k. decode s (the (table_map l fs tid k))) (map fst ?es)"
    using table_entries_set [OF assms] by auto
  then have "mset (map (\<lambda>(k, bs). decode s bs) ?es) =
      image_mset (\<lambda>k. decode s (the (table_map l fs tid k))) (mset (map fst ?es))"
    by (simp only: mset_map)
  ultimately show ?thesis by (simp add: rows_of_def)
qed

lemma rows_of_insert:
  assumes "finite (dom m)" and "m k = None"
  shows "rows_of s (m(k \<mapsto> bs)) = add_mset (decode s bs) (rows_of s m)"
proof -
  have "image_mset (\<lambda>j. decode s (the ((m(k \<mapsto> bs)) j))) (mset_set (dom m)) = rows_of s m"
    unfolding rows_of_def using assms by (intro image_mset_cong) auto
  then show ?thesis
    using assms by (simp add: rows_of_def domIff)
qed

lemma rows_of_restrict:
  assumes "finite (dom m)"
  shows "rows_of s (m |` {k. P (decode s (the (m k)))}) = filter_mset P (rows_of s m)"
proof -
  let ?K = "{k. P (decode s (the (m k)))}"
  have "mset_set (dom (m |` ?K)) = filter_mset (\<lambda>k. k \<in> ?K) (mset_set (dom m))"
    using assms by (simp add: filter_mset_mset_set Int_def)
  then show ?thesis
    by (simp add: rows_of_def filter_mset_image_mset comp_def) (intro image_mset_cong, simp)
qed

lemma rows_of_update:
  assumes "finite (dom m)" and "dom m' = dom m"
    and "\<And>k. k \<in> dom m \<Longrightarrow> decode s (the (m' k)) = g (decode s (the (m k)))"
  shows "rows_of s m' = image_mset g (rows_of s m)"
  unfolding rows_of_def assms(2) multiset.map_comp using assms by (intro image_mset_cong) simp

end
