(* ===== verification/Fsm_Address.thy ===== *)
theory Fsm_Address
  imports Fsm
begin

text \<open>
  The arithmetic of the free space map: the categories round in the safe direction, parent and
  child are inverse, a page of the table and its address determine each other, and the numbering
  of the pages of the map is injective, a parent before its descendants.
\<close>

definition fsm_of :: "page_data_layout \<Rightarrow> table \<Rightarrow> fsm \<Rightarrow> bool" where
  "fsm_of l t f \<longleftrightarrow> layout_ok l \<and> fsm_new l t = Inr f"

lemma fsm_ofD:
  assumes "fsm_of l t f"
  shows "layout_ok l" "256 \<le> page_size l" "fsm_layout f = l" "fsm_table f = t"
    "fsm_category_step f = page_size l div 256" "1 \<le> fsm_category_step f"
    "root_level f = fsm_depth f - 1" "fsm_depth f = (if 4096 \<le> page_size l then 3 else 4)"
    "fsm_slots f = page_size l - 21 - (page_size l div 2 - 1)" "108 \<le> fsm_slots f"
  using assms by (auto simp: fsm_of_def fsm_new_def Let_def split: if_splits)

section \<open>Categories\<close>

lemma unat_word8: "n \<le> 255 \<Longrightarrow> unat (word_of_nat n :: u8) = n"
  by (simp add: unat_of_nat take_bit_nat_eq_self)

lemma needed_category:
  assumes "fsm_of l t f"
  shows "unat (space_needed_to_category f n) =
    (if n = 0 then 1 else min 255 ((n + fsm_category_step f - 1) div fsm_category_step f))"
  by (simp add: space_needed_to_category_def Let_def unat_word8 min_def)

lemma available_category:
  assumes "fsm_of l t f"
  shows "unat (page_space_to_category f n) =
    (if max_tupel_size l \<le> n then 255 else min 254 (n div fsm_category_step f))"
  using fsm_ofD(3) [OF assms] by (simp add: page_space_to_category_def Let_def unat_word8 min_def)

lemma category_enough:
  assumes "fsm_of l t f" and "n \<le> max_tupel_size l"
    and "space_needed_to_category f n \<le> page_space_to_category f a"
  shows "n \<le> a"
proof (cases "max_tupel_size l \<le> a")
  case False
  let ?k = "fsm_category_step f"
  have k: "1 \<le> ?k" using fsm_ofD(6) [OF assms(1)] .
  have le: "(if n = 0 then 1 else min 255 ((n + ?k - 1) div ?k)) \<le> min 254 (a div ?k)"
    using assms(3) False by (simp add: word_le_nat_alt needed_category [OF assms(1)] available_category [OF assms(1)])
  show ?thesis
  proof (cases "n = 0")
    case False
    with le have "(n + ?k - 1) div ?k \<le> a div ?k"
      by (auto simp: min_def split: if_splits)
    then have "(n + ?k - 1) div ?k * ?k \<le> a"
      using k by (metis div_times_less_eq_dividend le_trans mult_le_mono1)
    moreover have "n \<le> (n + ?k - 1) div ?k * ?k"
    proof -
      have "n + ?k - 1 < ((n + ?k - 1) div ?k + 1) * ?k"
        using k by (metis Suc_eq_plus1 dividend_less_div_times mult.commute mult_Suc add.commute not_one_le_zero
            gr0I)
      then show ?thesis using k by simp
    qed
    ultimately show ?thesis by (rule le_trans [rotated])
  qed simp
qed (use assms(2) in simp)

section \<open>Addresses\<close>

lemma first_leaf_eq: "first_leaf s n k = n * s ^ k"
  by (induction k arbitrary: n) (simp_all add: algebra_simps)

lemma count_pages_eq: "count_pages s n d acc = acc + (\<Sum>l<d. n div s ^ l + 1)"
proof (induction d arbitrary: n acc)
  case (Suc d)
  have "(\<Sum>l<Suc d. n div s ^ l + 1) = n + 1 + (\<Sum>l<d. n div s ^ Suc l + 1)"
    by (subst sum.lessThan_Suc_shift) simp
  then show ?case
    using Suc by (simp add: div_mult2_eq)
qed simp

definition addr_ok :: "fsm \<Rightarrow> fsm_address \<Rightarrow> bool" where
  "addr_ok f a \<longleftrightarrow> level a < fsm_depth f"

definition first_leaf_of :: "fsm \<Rightarrow> fsm_address \<Rightarrow> nat" where
  "first_leaf_of f a = node_number a * fsm_slots f ^ level a"

definition page_num :: "fsm \<Rightarrow> fsm_address \<Rightarrow> nat" where
  "page_num f a = (\<Sum>l<fsm_depth f. first_leaf_of f a div fsm_slots f ^ l) + (fsm_depth f - level a)"

lemma fsm_page_number_eq:
  assumes "addr_ok f a"
  shows "fsm_page_number f a = Inr (page_num f a)"
proof -
  have "(\<Sum>l<fsm_depth f. first_leaf_of f a div fsm_slots f ^ l + 1) =
      (\<Sum>l<fsm_depth f. first_leaf_of f a div fsm_slots f ^ l) + fsm_depth f"
    by (simp only: sum.distrib) simp
  then show ?thesis
    using assms
    by (simp add: fsm_page_number_def first_leaf_eq count_pages_eq addr_ok_def page_num_def
        first_leaf_of_def usize_sub_def del: sum.lessThan_Suc)
qed

text \<open>A page that starts at a later leaf comes later; one on a higher level with the same first leaf earlier.\<close>

lemma page_num_less:
  assumes "addr_ok f a" and "addr_ok f b" and "0 < fsm_slots f"
    and "first_leaf_of f a < first_leaf_of f b \<or> first_leaf_of f a = first_leaf_of f b \<and> level b < level a"
  shows "page_num f a < page_num f b"
proof (cases "first_leaf_of f a = first_leaf_of f b")
  case True
  with assms show ?thesis by (simp add: page_num_def addr_ok_def)
next
  case False
  let ?A = "first_leaf_of f a" and ?B = "first_leaf_of f b" and ?s = "fsm_slots f" and ?d = "fsm_depth f"
  have less: "?A < ?B" using assms(4) False by simp
  have step: "?A div ?s ^ k + (if k \<le> level b then 1 else 0) \<le> ?B div ?s ^ k" for k
  proof (cases "k \<le> level b")
    case True
    have pos: "0 < ?s ^ k" using assms(3) by simp
    have "?s ^ level b = ?s ^ k * ?s ^ (level b - k)"
      using True by (simp flip: power_add)
    then obtain q where q: "?B = q * ?s ^ k"
      by (simp add: first_leaf_of_def) (metis mult.assoc mult.commute)
    then have "?B div ?s ^ k = q" using pos by simp
    moreover have "?A div ?s ^ k < q"
      using less q pos by (simp add: less_mult_imp_div_less)
    ultimately show ?thesis using True by simp
  next
    case False
    then show ?thesis using less by (simp add: div_le_mono)
  qed
  have "(\<Sum>k<?d. ?A div ?s ^ k) + (\<Sum>k<?d. if k \<le> level b then 1 else 0) \<le> (\<Sum>k<?d. ?B div ?s ^ k)"
    unfolding sum.distrib [symmetric] by (rule sum_mono) (rule step)
  moreover have "(\<Sum>k<?d. if k \<le> level b then 1 else (0 :: nat)) = level b + 1"
  proof -
    have "(\<Sum>k<?d. if k \<le> level b then 1 else (0 :: nat)) = card {k \<in> {..<?d}. k \<le> level b}"
      by (simp add: sum.If_cases Int_def)
    also have "{k \<in> {..<?d}. k \<le> level b} = {..level b}"
      using assms(2) by (auto simp: addr_ok_def)
    finally show ?thesis by simp
  qed
  ultimately show ?thesis
    using assms(1,2) by (simp add: page_num_def addr_ok_def)
qed

lemma page_num_inj:
  assumes "addr_ok f a" and "addr_ok f b" and "0 < fsm_slots f" and "page_num f a = page_num f b"
  shows "a = b"
proof -
  have "\<not> page_num f a < page_num f b" "\<not> page_num f b < page_num f a"
    using assms(4) by simp_all
  with page_num_less [OF assms(1,2,3)] page_num_less [OF assms(2,1,3)]
  have same: "first_leaf_of f a = first_leaf_of f b" "level a = level b"
    by (metis linorder_neqE_nat)+
  then have "node_number a = node_number b"
    using assms(3) by (simp add: first_leaf_of_def)
  with same show ?thesis by simp
qed

lemma page_num_pos: "addr_ok f a \<Longrightarrow> 1 \<le> page_num f a"
  by (simp add: page_num_def addr_ok_def)

lemma heap_addr_eq:
  assumes "1 \<le> i32_val pid"
  shows "heap_page_id_to_addr f pid =
    Inr (\<lparr>node_number = (nat (i32_val pid) - 1) div fsm_slots f, level = 0\<rparr>, (nat (i32_val pid) - 1) mod fsm_slots f)"
proof -
  have val: "i32_val (i32_of_int (i32_val pid - 1)) = i32_val pid - 1"
    using i32_val_range(2) [of pid] assms by (intro i32_val_of_int) simp_all
  then show ?thesis
    using assms i32_val_range(2) [of pid]
    by (simp add: heap_page_id_to_addr_def i32_checked_def Let_def i32_as_usize_nonneg minus_div_mult_eq_mod
        nat_diff_distrib)
qed

lemma addr_heap_back:
  assumes "fsm_of l t f" and "1 \<le> i32_val pid" and "heap_page_id_to_addr f pid = Inr (a, i)"
  shows "addr_slot_to_heap_page_id f a i = Inr pid"
proof -
  let ?g = "nat (i32_val pid) - 1"
  have g: "?g < 2 ^ 31" "int ?g = i32_val pid - 1"
    using i32_val_range(2) [of pid] assms(2) by simp_all
  have "a = \<lparr>node_number = ?g div fsm_slots f, level = 0\<rparr>" "i = ?g mod fsm_slots f"
    using assms(3) heap_addr_eq [OF assms(2), of f] by simp_all
  then show ?thesis
    using g i32_val_range(2) [of pid] assms(2)
    by (simp add: addr_slot_to_heap_page_id_def Let_def i32_checked_def)
qed

lemma heap_addr_bound:
  assumes "fsm_of l t f" and "1 \<le> i32_val pid" and "heap_page_id_to_addr f pid = Inr (a, i)"
  shows "page_num f a + 1 < 2 ^ 31" and "level a = 0" and "addr_ok f a" and "i < fsm_slots f"
proof -
  let ?g = "nat (i32_val pid) - 1"
  have s: "108 \<le> fsm_slots f" and d: "0 < fsm_depth f" "fsm_depth f \<le> 4"
    using fsm_ofD(8,10) [OF assms(1)] by simp_all
  have a: "a = \<lparr>node_number = ?g div fsm_slots f, level = 0\<rparr>" "i = ?g mod fsm_slots f"
    using assms(3) heap_addr_eq [OF assms(2), of f] by simp_all
  then show "level a = 0" "addr_ok f a" "i < fsm_slots f"
    using s d by (simp_all add: addr_ok_def)
  have "?g div fsm_slots f \<le> ?g div 108"
    using s by (intro div_le_mono2) simp_all
  then have leaf: "first_leaf_of f a \<le> 2 ^ 31 div 108"
    using i32_val_range(2) [of pid] assms(2) div_le_mono [of ?g "2 ^ 31" 108]
    by (simp add: a first_leaf_of_def)
  have "(\<Sum>k<fsm_depth f. first_leaf_of f a div fsm_slots f ^ k) \<le> (\<Sum>k<fsm_depth f. first_leaf_of f a)"
    by (intro sum_mono) simp
  also have "\<dots> \<le> 4 * first_leaf_of f a"
    using d(2) by simp
  finally show "page_num f a + 1 < 2 ^ 31"
    using leaf d(2) by (simp add: page_num_def)
qed

section \<open>Properties\<close>

text \<open>
  C39. When the category of a page is at least the category of a row that a page can hold, the
  page has that many bytes: the space needed is rounded up and the space available down.
\<close>

theorem category_sound:
  assumes "fsm_of l t f" and "n \<le> max_tupel_size l"
    and "space_needed_to_category f n \<le> page_space_to_category f a"
  shows "n \<le> a"
  by (rule category_enough [OF assms])


text \<open>A map over pages of 512 bytes for the witnesses.\<close>

definition fsm_512 :: fsm where
  "fsm_512 = \<lparr>fsm_table = \<lparr>table_id = i32_of_int 1, table_name = [], schema = \<lparr>columns = []\<rparr>\<rparr>,
     fsm_layout = \<lparr>layout_page_size = 512\<rparr>, root_level = 3, fsm_category_step = 2, fsm_depth = 4,
     fsm_slots = 236\<rparr>"

lemma fsm_512_of: "fsm_of \<lparr>layout_page_size = 512\<rparr> (fsm_table fsm_512) fsm_512"
proof -
  have "layout_ok \<lparr>layout_page_size = 512\<rparr>"
    by (auto simp: layout_ok_iff page_size_def intro!: exI [of _ 9])
  then show ?thesis
    by (simp add: fsm_of_def fsm_new_def page_size_def fsm_512_def)
qed

theorem category_sound_witness:
  "space_needed_to_category fsm_512 7 \<le> page_space_to_category fsm_512 9 \<and> (7 :: nat) \<le> 9"
proof -
  have "space_needed_to_category fsm_512 7 \<le> page_space_to_category fsm_512 9"
    by code_simp
  moreover have "7 \<le> max_tupel_size \<lparr>layout_page_size = 512\<rparr>"
    by (simp add: max_tupel_size_def page_data_size_def page_size_def layout_consts)
  ultimately show ?thesis
    using category_sound [OF fsm_512_of] by simp
qed

text \<open>
  The category leaves the slot of the row out of account: a page can have the category that
  a row needs and still be too small for the row and its slot.
\<close>

theorem category_ignores_slot:
  "\<exists>l t f n a. fsm_of l t f \<and> n \<le> max_tupel_size l \<and>
     space_needed_to_category f n \<le> page_space_to_category f a \<and> a < n + SLOT_SIZE"
proof -
  have "space_needed_to_category fsm_512 7 \<le> page_space_to_category fsm_512 9"
    by code_simp
  moreover have "7 \<le> max_tupel_size \<lparr>layout_page_size = 512\<rparr>" "9 < 7 + SLOT_SIZE"
    by (simp_all add: max_tupel_size_def page_data_size_def page_size_def layout_consts)
  ultimately show ?thesis
    using fsm_512_of by blast
qed

text \<open>
  The pages of the map are numbered from 1 without a clash: two addresses with the same
  number are the same, and a page comes before every page below it.
\<close>

theorem fsm_numbering:
  assumes "fsm_of l t f" and "addr_ok f a" and "addr_ok f b"
  shows "\<exists>m n. fsm_page_number f a = Inr m \<and> fsm_page_number f b = Inr n \<and> 1 \<le> m \<and>
    (m = n \<longleftrightarrow> a = b) \<and> (\<forall>i. fsm_child f a i = Inr b \<longrightarrow> m < n)"
proof -
  have s: "0 < fsm_slots f"
    using fsm_ofD(10) [OF assms(1)] by simp
  have "page_num f a < page_num f b" if c: "fsm_child f a i = Inr b" for i
  proof -
    from c have b: "level a = Suc (level b)" "node_number b = node_number a * fsm_slots f + i"
      by (auto simp: fsm_child_def split: if_splits)
    have "first_leaf_of f a \<le> first_leaf_of f b"
      by (simp add: first_leaf_of_def b algebra_simps)
    then show ?thesis
      using assms(2,3) s b(1) by (intro page_num_less) auto
  qed
  then show ?thesis
    using fsm_page_number_eq [OF assms(2)] fsm_page_number_eq [OF assms(3)] page_num_pos [OF assms(2)]
      page_num_inj [OF assms(2,3) s] by auto
qed

theorem fsm_numbering_witness:
  "\<exists>m n. fsm_page_number fsm_512 \<lparr>node_number = 0, level = 1\<rparr> = Inr m \<and>
     fsm_page_number fsm_512 \<lparr>node_number = 5, level = 0\<rparr> = Inr n \<and> 1 \<le> m \<and> m < n"
proof -
  have "addr_ok fsm_512 \<lparr>node_number = 0, level = 1\<rparr>" "addr_ok fsm_512 \<lparr>node_number = 5, level = 0\<rparr>"
    by (simp_all add: addr_ok_def fsm_512_def)
  moreover have "fsm_child fsm_512 \<lparr>node_number = 0, level = 1\<rparr> 5 = Inr \<lparr>node_number = 5, level = 0\<rparr>"
    by (simp add: fsm_child_def)
  ultimately show ?thesis
    using fsm_numbering [OF fsm_512_of] by blast
qed

text \<open>
  C38. The address of a page of the table leads back to the page, its slot is one of the slots of
  a leaf page, and going from a page of the map to its parent and to the slot that is returned
  with it is going back to the page.
\<close>

theorem fsm_addresses:
  assumes "fsm_of l t f" and "1 \<le> i32_val pid"
  shows "\<exists>a i. heap_page_id_to_addr f pid = Inr (a, i) \<and> level a = 0 \<and> i < fsm_slots f \<and>
    addr_slot_to_heap_page_id f a i = Inr pid \<and>
    (\<forall>b. level b < root_level f \<longrightarrow> (\<exists>p j. fsm_parent f b = Inr (p, j) \<and> j < fsm_slots f \<and> fsm_child f p j = Inr b))"
proof -
  have s: "0 < fsm_slots f"
    using fsm_ofD(10) [OF assms(1)] by simp
  let ?g = "nat (i32_val pid) - 1"
  let ?a = "\<lparr>node_number = ?g div fsm_slots f, level = 0\<rparr>" and ?i = "?g mod fsm_slots f"
  have "heap_page_id_to_addr f pid = Inr (?a, ?i)"
    by (rule heap_addr_eq [OF assms(2)])
  moreover from this have "addr_slot_to_heap_page_id f ?a ?i = Inr pid"
    by (rule addr_heap_back [OF assms])
  moreover have "\<exists>p j. fsm_parent f b = Inr (p, j) \<and> j < fsm_slots f \<and> fsm_child f p j = Inr b"
    if "level b < root_level f" for b
    using that s by (intro exI [of _ "\<lparr>node_number = node_number b div fsm_slots f, level = level b + 1\<rparr>"]
        exI [of _ "node_number b mod fsm_slots f"]) (simp add: fsm_parent_def fsm_child_def)
  ultimately show ?thesis
    using s by (intro exI [of _ ?a] exI [of _ ?i]) simp
qed

theorem fsm_addresses_witness:
  "\<exists>a i. heap_page_id_to_addr fsm_512 (i32_of_int 500) = Inr (a, i) \<and>
     addr_slot_to_heap_page_id fsm_512 a i = Inr (i32_of_int 500)"
  using fsm_addresses [OF fsm_512_of, of "i32_of_int 500"] by auto

end
