(* ===== verification/Fsm_Update.thy ===== *)
theory Fsm_Update
  imports Fsm_Address
begin

text \<open>
  The free space map as a client of the store: under the contract \<open>page_store\<close> every page of
  the map is a well-formed page that holds one tree, new pages are added with an empty tree, and
  \<open>update\<close> sets the category of the page of the table, and the same category for the page of the
  map that holds it, on every level. The theorems are drawn for the store on files.
\<close>

section \<open>One page of the map\<close>

definition map_tree :: "page_data_layout \<Rightarrow> byte list \<Rightarrow> binary_tree" where
  "map_tree l bs = \<lparr>arr = bs, non_leaf_nodes = page_size l div 2 - 1,
     leaf_nodes = page_size l - 21 - (page_size l div 2 - 1)\<rparr>"

definition page_tree :: "page_data_layout \<Rightarrow> page \<Rightarrow> binary_tree" where
  "page_tree l p = map_tree l (the (page_rows p 0))"

definition fsm_page_ok :: "page_data_layout \<Rightarrow> page \<Rightarrow> bool" where
  "fsm_page_ok l p \<longleftrightarrow> page_wf p \<and> layout p = l \<and> page_rows p 0 \<noteq> None \<and> tree_wf l (page_tree l p)"

definition map_pages_ok :: "page_data_layout \<Rightarrow> nat \<Rightarrow> (i32 \<Rightarrow> page option) \<Rightarrow> bool" where
  "map_pages_ok l n ps \<longleftrightarrow>
     (\<forall>i. ps i \<noteq> None \<longleftrightarrow> 1 \<le> i32_val i \<and> i32_val i \<le> int n) \<and>
     (\<forall>i p. ps i = Some p \<longrightarrow> fsm_page_ok l p \<and> page_id p = i)"

text \<open>The categories of a page of the map.\<close>

definition map_view :: "page_data_layout \<Rightarrow> (i32 \<Rightarrow> page option) \<Rightarrow> i32 \<Rightarrow> u8 list" where
  "map_view l ps i = (case ps i of None \<Rightarrow> [] | Some p \<Rightarrow> leaves (page_tree l p))"

lemma page_rows_slot:
  assumes "page_wf p" and "page_rows p i = Some row"
  shows "i < length (slots p)" "\<not> slot_deleted (slots p ! i)" "unat (record_length (slots p ! i)) = length row"
    "read_slot p i = Inr (Some row)"
proof -
  have reg: "regions_ok p" using assms(1) by (rule page_wfD)
  show i: "i < length (slots p)" "\<not> slot_deleted (slots p ! i)"
    using assms(2) by (auto simp: page_rows_eq [OF reg] split: if_splits)
  show "unat (record_length (slots p ! i)) = length row"
    using assms(2) i regions_okD(1) [OF reg] regions_okD(4) [OF reg i(1)]
    by (auto simp: page_rows_eq [OF reg])
  show "read_slot p i = Inr (Some row)"
    using assms(2) by (simp add: page_rows_def split: sum.splits)
qed

lemma fsm_page_tree:
  assumes "fsm_page_ok l p"
  obtains bs where "page_rows p 0 = Some bs" and "page_tree l p = map_tree l bs" and "tree_wf l (map_tree l bs)"
    and "length bs = page_size l - 21" and "page_wf p" and "layout p = l"
  using assms by (auto simp: fsm_page_ok_def page_tree_def tree_wf_def tree_shape_def map_tree_def)

lemma read_tree_ok:
  assumes "fsm_of l t f" and "fsm_page_ok l p"
  shows "read_tree f p = Inr (page_tree l p)"
proof -
  obtain bs where bs: "page_rows p 0 = Some bs" "page_tree l p = map_tree l bs" "length bs = page_size l - 21"
    "page_wf p"
    using assms(2) by (rule fsm_page_tree)
  have "64 \<le> page_size l" using fsm_ofD(2) [OF assms(1)] by simp
  then show ?thesis
    using bs page_rows_slot(4) [OF bs(4,1)]
    by (simp add: read_tree_def fsm_ofD(3) [OF assms(1)] tree_deserialize_def tree_new_def map_tree_def)
qed

lemma map_slots:
  assumes "fsm_of l t f" and "tree_wf l u"
  shows "leaf_nodes u = fsm_slots f" and "length (leaves u) = fsm_slots f"
proof -
  show "leaf_nodes u = fsm_slots f"
    using assms(2) fsm_ofD(9) [OF assms(1)] by (simp add: tree_wf_def tree_shape_def)
  then show "length (leaves u) = fsm_slots f"
    using assms(2) by (metis tree_wf_root)
qed

text \<open>Setting a category on a page of the map, up to the image that the store keeps of it.\<close>

lemma set_category_page:
  assumes "fsm_of l t f" and "fsm_page_ok l p" and "slot < fsm_slots f"
  shows "\<exists>u q. set_available_space (page_tree l p) slot c = (Inr u :: (binary_tree, fsm_error) result) \<and>
    write_record p 0 (tree_serialize u) = Inr q \<and> page_wf q \<and> layout q = l \<and> page_id q = page_id p \<and>
    fsm_page_ok l (page_image q) \<and> page_id (page_image q) = page_id p \<and>
    leaves (page_tree l (page_image q)) = (leaves (page_tree l p))[slot := c]"
proof -
  obtain bs where bs: "page_rows p 0 = Some bs" "page_tree l p = map_tree l bs" "tree_wf l (map_tree l bs)"
    "length bs = page_size l - 21" "page_wf p" "layout p = l"
    using assms(2) by (rule fsm_page_tree)
  have "slot < leaf_nodes (map_tree l bs)"
    using assms(3) map_slots(1) [OF assms(1) bs(3)] by simp
  from set_available_space_ok [OF bs(3) this, of c, where 'e = fsm_error] obtain u where u:
    "set_available_space (map_tree l bs) slot c = (Inr u :: (binary_tree, fsm_error) result)" "tree_wf l u"
    "leaves u = (leaves (map_tree l bs))[slot := c]"
    by blast
  have len: "length (arr u) = length bs" and same: "map_tree l (arr u) = u"
    using u(2) bs(4) by (auto simp: tree_wf_def tree_shape_def map_tree_def intro: binary_tree.equality)
  note slot = page_rows_slot [OF bs(5,1)]
  obtain q where q: "write_record p 0 (arr u) = Inr q" "page_wf q" "layout q = layout p" "page_id q = page_id p"
    "page_rows q = (page_rows p)(0 \<mapsto> arr u)"
    using write_record_ok [OF bs(5), of 0 "arr u"] slot len by auto
  note img = page_image_rows [OF q(2)]
  have "page_tree l (page_image q) = u"
    by (simp add: page_tree_def img(2) q(5) same)
  moreover have "layout (page_image q) = l" "page_id (page_image q) = page_id p"
    using q(3,4) bs(6) by (simp_all add: page_image_def)
  ultimately show ?thesis
    using u q img bs by (intro exI [of _ u] exI [of _ q]) (simp add: fsm_page_ok_def tree_serialize_def)
qed

text \<open>A new page of the map.\<close>

definition new_map_page :: "page_data_layout \<Rightarrow> i32 \<Rightarrow> page" where
  "new_map_page l i =
     (append_row (set_page_id i (page_new l)) (replicate (page_size l - 21) 0))\<lparr>number_of_records := 1\<rparr>"

lemma zero_tree_wf:
  assumes "layout_ok l" and "64 \<le> page_size l"
  shows "tree_wf l (map_tree l (replicate (page_size l - 21) 0))"
    and "leaves (map_tree l (replicate (page_size l - 21) 0)) =
      replicate (page_size l - 21 - (page_size l div 2 - 1)) 0"
proof -
  have "node_value (replicate n 0) i = 0" for n i
    by (simp add: node_value_def)
  then show "tree_wf l (map_tree l (replicate (page_size l - 21) 0))"
    using assms by (simp add: tree_wf_def tree_shape_def map_tree_def heap_list_all heap_at_def)
  show "leaves (map_tree l (replicate (page_size l - 21) 0)) =
      replicate (page_size l - 21 - (page_size l div 2 - 1)) 0"
    by (simp add: leaves_def map_tree_def)
qed

lemma new_map_page_ok:
  assumes "layout_ok l" and "64 \<le> page_size l"
  shows "insert_record (set_page_id i (page_new l)) (replicate (page_size l - 21) 0) = Inr (0, new_map_page l i)"
    and "page_wf (new_map_page l i)" and "layout (new_map_page l i) = l" and "page_id (new_map_page l i) = i"
    and "fsm_page_ok l (page_image (new_map_page l i))" and "page_id (page_image (new_map_page l i)) = i"
    and "leaves (page_tree l (page_image (new_map_page l i))) =
      replicate (page_size l - 21 - (page_size l div 2 - 1)) 0"
proof -
  let ?p = "set_page_id i (page_new l)" and ?row = "replicate (page_size l - 21) (0 :: byte)"
  have wf: "page_wf ?p" and lay: "layout ?p = l" and pid: "page_id ?p = i"
    using empty_page [OF assms(1)] by simp_all
  have reg: "regions_ok ?p" using wf by (rule page_wfD)
  have parts: "slots ?p = []" "data_offset ?p = page_size l - 14" "number_of_records ?p = 0"
    "page_rows ?p = Map.empty"
    by (simp_all add: set_page_id_def page_new_def page_data_size_def layout_consts page_rows_def
        read_slot_def vec_get_def fun_eq_iff)
  have none: "find_free_slot_index ?p ?row = None"
    by (simp add: find_free_slot_index_def parts)
  have gap: "length ?row + SLOT_SIZE \<le> free_gap ?p"
    using assms(2) by (simp add: free_gap_def slot_size_def parts layout_consts)
  have ne: "?row \<noteq> []" using assms(2) by simp
  show ins: "insert_record ?p ?row = Inr (0, new_map_page l i)"
    using insert_record_append [OF wf none ne gap] by (simp add: parts new_map_page_def)
  note eff = insert_record_effect [OF wf ins ne]
  have "slot_size (new_map_page l i) \<le> data_offset (new_map_page l i)"
    using assms(2) by (simp add: new_map_page_def append_row_def slot_size_def parts layout_consts)
  then show wfq: "page_wf (new_map_page l i)"
    using eff assms(1) lay by (simp add: page_wf_def directory_fits_def)
  show lq: "layout (new_map_page l i) = l" and iq: "page_id (new_map_page l i) = i"
    using eff lay pid by simp_all
  have rows: "page_rows (page_image (new_map_page l i)) 0 = Some ?row"
    using page_image_rows [OF wfq] eff by simp
  then show "fsm_page_ok l (page_image (new_map_page l i))"
    using page_image_rows [OF wfq] lq zero_tree_wf [OF assms]
    by (simp add: fsm_page_ok_def page_tree_def page_image_def)
  show "page_id (page_image (new_map_page l i)) = i"
    using iq by (simp add: page_image_def)
  show "leaves (page_tree l (page_image (new_map_page l i))) =
      replicate (page_size l - 21 - (page_size l div 2 - 1)) 0"
    using rows zero_tree_wf(2) [OF assms] by (simp add: page_tree_def)
qed

section \<open>The map under the contract of the store\<close>

text \<open>The page number, as an id, and the addresses and slots on the way to the root.\<close>

definition map_page_id :: "fsm \<Rightarrow> fsm_address \<Rightarrow> i32" where
  "map_page_id f a = usize_as_i32 (page_num f a)"

fun fsm_path :: "fsm \<Rightarrow> fsm_address \<Rightarrow> nat \<Rightarrow> nat \<Rightarrow> fsm_address \<times> nat" where
  "fsm_path f a i 0 = (a, i)"
| "fsm_path f a i (Suc k) =
     fsm_path f \<lparr>node_number = node_number a div fsm_slots f, level = level a + 1\<rparr>
       (node_number a mod fsm_slots f) k"

lemma page_num_parent:
  assumes "addr_ok f a" and "level a + 1 < fsm_depth f" and "0 < fsm_slots f"
  shows "page_num f \<lparr>node_number = node_number a div fsm_slots f, level = level a + 1\<rparr> < page_num f a"
proof (rule page_num_less [OF _ assms(1,3)])
  let ?p = "\<lparr>node_number = node_number a div fsm_slots f, level = level a + 1\<rparr>"
  show "addr_ok f ?p" using assms(2) by (simp add: addr_ok_def)
  have "node_number a div fsm_slots f * fsm_slots f * fsm_slots f ^ level a \<le> node_number a * fsm_slots f ^ level a"
    by (intro mult_le_mono1) simp
  then have "first_leaf_of f ?p \<le> first_leaf_of f a"
    by (simp add: first_leaf_of_def algebra_simps)
  then show "first_leaf_of f ?p < first_leaf_of f a \<or> first_leaf_of f ?p = first_leaf_of f a \<and> level a < level ?p"
    by auto
qed

lemma fsm_path_page_num:
  assumes "addr_ok f a" and "level a + k < fsm_depth f" and "0 < fsm_slots f"
  shows "addr_ok f (fst (fsm_path f a i k)) \<and> page_num f (fst (fsm_path f a i k)) \<le> page_num f a"
  using assms
proof (induction k arbitrary: a i)
  case (Suc k)
  let ?p = "\<lparr>node_number = node_number a div fsm_slots f, level = level a + 1\<rparr>"
  have "addr_ok f ?p" using Suc.prems(2) by (simp add: addr_ok_def)
  moreover have "page_num f ?p < page_num f a"
    using Suc.prems by (intro page_num_parent) simp_all
  ultimately show ?case
    using Suc.IH [of ?p "node_number a mod fsm_slots f"] Suc.prems by simp
qed simp

lemma map_page_id_inj:
  "page_num f a < 2 ^ 31 \<Longrightarrow> page_num f b < 2 ^ 31 \<Longrightarrow>
   map_page_id f a = map_page_id f b \<longleftrightarrow> page_num f a = page_num f b"
  by (metis i32_val_usize_as_i32 map_page_id_def of_nat_eq_iff)

lemma logical_page_id: "addr_ok f a \<Longrightarrow> logical_addr_to_fms_page_id f a = Inr (map_page_id f a)"
  by (simp add: logical_addr_to_fms_page_id_def fsm_page_number_eq map_page_id_def)

text \<open>The views of the pages after the category is set on a path of \<open>n\<close> pages.\<close>

definition parent_addr :: "fsm \<Rightarrow> fsm_address \<Rightarrow> fsm_address" where
  "parent_addr f a = \<lparr>node_number = node_number a div fsm_slots f, level = level a + 1\<rparr>"

fun set_path :: "fsm \<Rightarrow> u8 \<Rightarrow> fsm_address \<Rightarrow> nat \<Rightarrow> nat \<Rightarrow> (i32 \<Rightarrow> u8 list) \<Rightarrow> i32 \<Rightarrow> u8 list" where
  "set_path f c a i 0 v = v"
| "set_path f c a i (Suc n) v =
     set_path f c (parent_addr f a) (node_number a mod fsm_slots f) n
       (v(map_page_id f a := (v (map_page_id f a))[i := c]))"

lemma set_path_other:
  "(\<And>k. k < n \<Longrightarrow> p \<noteq> map_page_id f (fst (fsm_path f a i k))) \<Longrightarrow> set_path f c a i n v p = v p"
proof (induction n arbitrary: a i v)
  case (Suc n)
  have "p \<noteq> map_page_id f (fst (fsm_path f (parent_addr f a) (node_number a mod fsm_slots f) k))" if "k < n" for k
    using Suc.prems [of "Suc k"] that by (simp add: parent_addr_def)
  moreover have "p \<noteq> map_page_id f a"
    using Suc.prems [of 0] by simp
  ultimately show ?case
    using Suc.IH by simp
qed simp

lemma set_path_at:
  assumes "addr_ok f a" and "level a + n \<le> fsm_depth f" and "0 < fsm_slots f" and "page_num f a < 2 ^ 31"
    and "k < n"
  shows "set_path f c a i n v (map_page_id f (fst (fsm_path f a i k))) =
    (v (map_page_id f (fst (fsm_path f a i k))))[snd (fsm_path f a i k) := c]"
  using assms
proof (induction n arbitrary: a i v k)
  case (Suc n)
  let ?p = "parent_addr f a" and ?j = "node_number a mod fsm_slots f"
  show ?case
  proof (cases n)
    case 0
    then show ?thesis using Suc.prems by simp
  next
    case (Suc m)
    have okp: "addr_ok f ?p" and lev: "level ?p + n \<le> fsm_depth f"
      using Suc.prems(2) Suc by (simp_all add: addr_ok_def parent_addr_def)
    have less: "page_num f ?p < page_num f a"
      unfolding parent_addr_def using Suc.prems Suc by (intro page_num_parent) simp_all
    have apart: "map_page_id f (fst (fsm_path f ?p ?j m)) \<noteq> map_page_id f a" if "m < n" for m
    proof -
      have "page_num f (fst (fsm_path f ?p ?j m)) \<le> page_num f ?p"
        using fsm_path_page_num [OF okp _ Suc.prems(3), of m] lev that by simp
      then show ?thesis
        using less Suc.prems(4) by (simp add: map_page_id_inj)
    qed
    show ?thesis
    proof (cases k)
      case 0
      then show ?thesis
        using set_path_other [of n "map_page_id f a" f ?p ?j] apart by (metis fsm_path.simps(1) fst_conv snd_conv
            fun_upd_same set_path.simps(2))
    next
      case (Suc k')
      then show ?thesis
        using Suc.IH [OF okp lev Suc.prems(3)] less Suc.prems(4,5) apart [of k']
        by (simp add: parent_addr_def)
    qed
  qed
qed simp

text \<open>The category that \<open>update\<close> gives a page, and the views after the missing pages are added.\<close>

definition page_category :: "fsm \<Rightarrow> page \<Rightarrow> u8" where
  "page_category f p = page_space_to_category f (max (free_gap p) (max_fragmented_free_space p))"

definition grown_view :: "fsm \<Rightarrow> nat \<Rightarrow> nat \<Rightarrow> (i32 \<Rightarrow> u8 list) \<Rightarrow> i32 \<Rightarrow> u8 list" where
  "grown_view f m n v i = (if int m < i32_val i \<and> i32_val i \<le> int n then replicate (fsm_slots f) 0 else v i)"

context page_store
begin

lemma update_tree_page_ok:
  assumes f: "fsm_of l t f" and a: "a = fsm_access t" and ok: "ok s a" "map_pages_ok l (count s a) (pages s a)"
    and pid: "1 \<le> i32_val pid" "i32_val pid \<le> int (count s a)" and slot: "slot < fsm_slots f"
  shows "\<exists>u. update_tree_page S f pid slot c s = (Inr (), u) \<and> ok u a \<and> map_pages_ok l (count u a) (pages u a) \<and>
    count u a = count s a \<and>
    (\<forall>i. map_view l (pages u a) i = (if i = pid then (map_view l (pages s a) i)[slot := c] else map_view l (pages s a) i)) \<and>
    others_same ok count pages a s u"
proof -
  have "pages s a pid \<noteq> None"
    using ok(2) pid by (simp add: map_pages_ok_def)
  then obtain p where at: "pages s a pid = Some p" by blast
  with ok(2) have p: "pages s a pid = Some p" "fsm_page_ok l p" "page_id p = pid"
    by (simp_all add: map_pages_ok_def)
  obtain tr q where q: "set_available_space (page_tree l p) slot c = (Inr tr :: (binary_tree, fsm_error) result)"
    "write_record p 0 (tree_serialize tr) = Inr q" "page_wf q" "layout q = l" "page_id q = page_id p"
    "fsm_page_ok l (page_image q)" "page_id (page_image q) = page_id p"
    "leaves (page_tree l (page_image q)) = (leaves (page_tree l p))[slot := c]"
    using set_category_page [OF f p(2) slot] by blast
  have "1 \<le> i32_val (page_id q)" "i32_val (page_id q) \<le> int (count s a)"
    using pid q(5) p(3) by simp_all
  from write_law [OF ok(1) q(3,4) this] obtain u where u: "st_write_page S l q a s = (Inr (), u)" "ok u a"
    "count u a = count s a" "pages u a = (pages s a)(page_id q \<mapsto> page_image q)"
    "others_same ok count pages a s u"
    by blast
  have "update_tree_page S f pid slot c s = (Inr (), u)"
    using read_law [OF ok(1) p(1)] read_tree_ok [OF f p(2)] q(1,2) u(1) fsm_ofD(3,4) [OF f]
    by (simp add: update_tree_page_def Let_def io_bind_def io_map_err_def a)
  moreover have "map_pages_ok l (count u a) (pages u a)"
    using ok(2) u(3,4) q(5-7) p(3) pid by (auto simp: map_pages_ok_def)
  ultimately show ?thesis
    using u q(5,8) p by (intro exI [of _ u]) (auto simp: map_view_def)
qed

lemma allocate_map_page_ok:
  assumes f: "fsm_of l t f" and a: "a = fsm_access t" and ok: "ok s a" "map_pages_ok l (count s a) (pages s a)"
    and room: "count s a + 2 < 2 ^ 31"
  shows "\<exists>u. allocate_new_fsm_and_init S f s = (Inr (), u) \<and> ok u a \<and> map_pages_ok l (count u a) (pages u a) \<and>
    count u a = count s a + 1 \<and>
    (\<forall>i. map_view l (pages u a) i =
       (if i = usize_as_i32 (count s a + 1) then replicate (fsm_slots f) 0 else map_view l (pages s a) i)) \<and>
    others_same ok count pages a s u"
proof -
  let ?i = "usize_as_i32 (count s a + 1)"
  let ?p = "set_page_id ?i (page_new l)"
  have iv: "i32_val ?i = int (count s a + 1)" using room by simp
  note lay = fsm_ofD(1) [OF f]
  have size: "64 \<le> page_size l" using fsm_ofD(2) [OF f] by simp
  note new = new_map_page_ok [OF lay size, of ?i]
  obtain s1 where s1: "st_allocate_page S l a s = (Inr ?p, s1)" "ok s1 a" "count s1 a = count s a + 1"
    "pages s1 a = (pages s a)(?i \<mapsto> ?p)" "others_same ok count pages a s s1"
    using allocate_law [OF ok(1) room] by blast
  have "1 \<le> i32_val (page_id (new_map_page l ?i))" "i32_val (page_id (new_map_page l ?i)) \<le> int (count s1 a)"
    using iv s1(3) new(4) by simp_all
  from write_law [OF s1(2) new(2,3) this] obtain u where u: "st_write_page S l (new_map_page l ?i) a s1 = (Inr (), u)"
    "ok u a" "count u a = count s1 a" "pages u a = (pages s1 a)(?i \<mapsto> page_image (new_map_page l ?i))"
    "others_same ok count pages a s1 u"
    unfolding new(4) by blast
  have tree: "tree_new l = (Inr (map_tree l (replicate (page_size l - 21) 0)) :: (binary_tree, fsm_error) result)"
    using size by (simp add: tree_new_def map_tree_def)
  have "allocate_new_fsm_and_init S f s = (Inr (), u)"
    using s1(1) u(1) tree new(1) fsm_ofD(3,4) [OF f]
    by (simp add: allocate_new_fsm_and_init_def Let_def io_bind_def io_map_err_def a tree_serialize_def map_tree_def)
  moreover have "map_pages_ok l (count u a) (pages u a)"
  proof -
    have "1 \<le> i32_val j \<and> i32_val j \<le> int (count s a + 1) \<longleftrightarrow> j = ?i \<or> 1 \<le> i32_val j \<and> i32_val j \<le> int (count s a)" for j
      using iv by (auto simp: i32_eq_iff)
    then show ?thesis
      using ok(2) u(3,4) s1(3,4) new(5,6) by (auto simp: map_pages_ok_def)
  qed
  moreover have "leaves (page_tree l (page_image (new_map_page l ?i))) = replicate (fsm_slots f) 0"
    using new(7) fsm_ofD(9) [OF f] by simp
  ultimately show ?thesis
    using u s1 others_same_trans [OF s1(5) u(5)] by (intro exI [of _ u]) (auto simp: map_view_def)
qed

lemma allocate_map_pages_ok:
  assumes f: "fsm_of l t f" and a: "a = fsm_access t"
  shows "ok s a \<Longrightarrow> map_pages_ok l (count s a) (pages s a) \<Longrightarrow> count s a + n + 1 < 2 ^ 31 \<Longrightarrow>
    \<exists>u. repeat_io n (allocate_new_fsm_and_init S f) s = (Inr (), u) \<and> ok u a \<and>
      map_pages_ok l (count u a) (pages u a) \<and> count u a = count s a + n \<and>
      (\<forall>i. map_view l (pages u a) i =
        (if int (count s a) < i32_val i \<and> i32_val i \<le> int (count s a + n) then replicate (fsm_slots f) 0
         else map_view l (pages s a) i)) \<and>
      others_same ok count pages a s u"
proof (induction n arbitrary: s)
  case 0
  then show ?case by (auto simp: io_ret_def)
next
  case (Suc n)
  have room: "count s a + 2 < 2 ^ 31" using Suc.prems(3) by simp
  obtain s1 where s1: "allocate_new_fsm_and_init S f s = (Inr (), s1)" "ok s1 a"
    "map_pages_ok l (count s1 a) (pages s1 a)" "count s1 a = count s a + 1"
    "\<And>i. map_view l (pages s1 a) i =
       (if i = usize_as_i32 (count s a + 1) then replicate (fsm_slots f) 0 else map_view l (pages s a) i)"
    "others_same ok count pages a s s1"
    using allocate_map_page_ok [OF f a Suc.prems(1,2) room] by blast
  have "count s1 a + n + 1 < 2 ^ 31" using Suc.prems(3) s1(4) by simp
  from Suc.IH [OF s1(2,3) this] obtain u where u:
    "repeat_io n (allocate_new_fsm_and_init S f) s1 = (Inr (), u)" "ok u a" "map_pages_ok l (count u a) (pages u a)"
    "count u a = count s1 a + n"
    "\<And>i. map_view l (pages u a) i =
        (if int (count s1 a) < i32_val i \<and> i32_val i \<le> int (count s1 a + n) then replicate (fsm_slots f) 0
         else map_view l (pages s1 a) i)"
    "others_same ok count pages a s1 u"
    by blast
  have new: "i = usize_as_i32 (count s a + 1) \<longleftrightarrow> i32_val i = int (count s a + 1)" for i
    using room by (simp add: i32_eq_iff)
  have "map_view l (pages u a) i =
      (if int (count s a) < i32_val i \<and> i32_val i \<le> int (count s a + Suc n) then replicate (fsm_slots f) 0
       else map_view l (pages s a) i)" for i
    unfolding u(5) s1(4,5) new by auto
  then show ?case
    using u s1 others_same_trans [OF s1(6) u(6)] by (intro exI [of _ u]) (simp add: io_bind_def)
qed

lemma update_levels_ok:
  assumes f: "fsm_of l t f" and a: "a = fsm_access t"
  shows "ok s a \<Longrightarrow> map_pages_ok l (count s a) (pages s a) \<Longrightarrow> addr_ok f addr \<or> n = 0 \<Longrightarrow> level addr = lev \<Longrightarrow>
    lev + n = fsm_depth f \<Longrightarrow> slot < fsm_slots f \<Longrightarrow> page_num f addr \<le> count s a \<Longrightarrow>
    \<exists>u. update_levels S f c lev n addr slot (map_page_id f addr) s = (Inr (), u) \<and> ok u a \<and>
      map_pages_ok l (count u a) (pages u a) \<and> count u a = count s a \<and>
      map_view l (pages u a) = set_path f c addr slot n (map_view l (pages s a)) \<and>
      others_same ok count pages a s u"
proof (induction n arbitrary: s addr slot lev)
  case 0
  then show ?case by (auto simp: io_ret_def)
next
  case (Suc n)
  have addr: "addr_ok f addr" and slots: "0 < fsm_slots f"
    using Suc.prems(3) fsm_ofD(10) [OF f] by simp_all
  have val: "i32_val (map_page_id f addr) = int (page_num f addr)"
    using Suc.prems(7) count_bound [OF Suc.prems(1)] by (simp add: map_page_id_def)
  have pid: "1 \<le> i32_val (map_page_id f addr)" "i32_val (map_page_id f addr) \<le> int (count s a)"
    using val page_num_pos [OF addr] Suc.prems(7) by simp_all
  obtain s1 where s1: "update_tree_page S f (map_page_id f addr) slot c s = (Inr (), s1)" "ok s1 a"
    "map_pages_ok l (count s1 a) (pages s1 a)" "count s1 a = count s a"
    "\<And>i. map_view l (pages s1 a) i =
       (if i = map_page_id f addr then (map_view l (pages s a) i)[slot := c] else map_view l (pages s a) i)"
    "others_same ok count pages a s s1"
    using update_tree_page_ok [OF f a Suc.prems(1,2) pid Suc.prems(6)] by blast
  have view: "map_view l (pages s1 a) =
      (map_view l (pages s a))(map_page_id f addr := (map_view l (pages s a) (map_page_id f addr))[slot := c])"
    using s1(5) by (simp add: fun_eq_iff)
  show ?case
  proof (cases n)
    case 0
    then have top: "\<not> lev < fsm_depth f - 1" using Suc.prems(5) by simp
    show ?thesis
      using s1(1-4,6) view 0 Suc.prems(4) top
      by (intro exI [of _ s1]) (simp add: io_bind_def io_ret_def fsm_root_def)
  next
    case (Suc m)
    let ?p = "parent_addr f addr" and ?j = "node_number addr mod fsm_slots f"
    have up: "level addr + 1 < fsm_depth f" using Suc.prems(4,5) Suc by simp
    have below: "lev < fsm_depth f - 1" using up Suc.prems(4) by simp
    have okp: "addr_ok f ?p" using up by (simp add: addr_ok_def parent_addr_def)
    have less: "page_num f ?p \<le> count s1 a"
      using page_num_parent [OF addr up slots] Suc.prems(7) s1(4) by (simp add: parent_addr_def)
    have "\<exists>u. update_levels S f c (lev + 1) n ?p ?j (map_page_id f ?p) s1 = (Inr (), u) \<and> ok u a \<and>
      map_pages_ok l (count u a) (pages u a) \<and> count u a = count s1 a \<and>
      map_view l (pages u a) = set_path f c ?p ?j n (map_view l (pages s1 a)) \<and>
      others_same ok count pages a s1 u"
      using Suc.IH [OF s1(2,3), of ?p "lev + 1" ?j] okp less slots Suc.prems(4,5)
      by (simp add: parent_addr_def)
    then obtain u where u: "update_levels S f c (lev + 1) n ?p ?j (map_page_id f ?p) s1 = (Inr (), u)" "ok u a"
      "map_pages_ok l (count u a) (pages u a)" "count u a = count s1 a"
      "map_view l (pages u a) = set_path f c ?p ?j n (map_view l (pages s1 a))"
      "others_same ok count pages a s1 u"
      by blast
    have par: "fsm_parent f addr = Inr (?p, ?j)"
      using up fsm_ofD(7) [OF f] by (simp add: fsm_parent_def parent_addr_def)
    have "update_levels S f c lev (Suc n) addr slot (map_page_id f addr) s = (Inr (), u)"
      using s1(1) u(1) par below logical_page_id [OF okp]
      by (simp add: io_bind_def io_lift_def fsm_root_def)
    then show ?thesis
      using u s1(4) view others_same_trans [OF s1(6) u(6)] by (intro exI [of _ u]) simp
  qed
qed

lemma fsm_update_ok:
  assumes f: "fsm_of l t f" and a: "a = fsm_access t" and ok: "ok s a" "map_pages_ok l (count s a) (pages s a)"
    and p: "page_wf p" "1 \<le> i32_val (page_id p)"
    and addr: "heap_page_id_to_addr f (page_id p) = Inr (addr, i)"
  shows "\<exists>u. fsm_update S f p s = (Inr (), u) \<and> ok u a \<and> map_pages_ok l (count u a) (pages u a) \<and>
    count u a = max (count s a) (page_num f addr) \<and>
    map_view l (pages u a) = set_path f (page_category f p) addr i (fsm_depth f)
      (grown_view f (count s a) (page_num f addr) (map_view l (pages s a))) \<and>
    others_same ok count pages a s u"
proof -
  note ad = heap_addr_bound(2,4) [OF f p(2) addr] and aok = heap_addr_bound(3) [OF f p(2) addr]
    and room = heap_addr_bound(1) [OF f p(2) addr]
  let ?n = "page_num f addr" and ?m = "count s a"
  have val: "i32_val (map_page_id f addr) = int ?n" using room by (simp add: map_page_id_def)
  have next_val: "i32_val (usize_as_i32 (?m + 1)) = int (?m + 1)" using count_bound [OF ok(1)] by simp
  let ?al = "add_map_pages S f \<lparr>next_id = usize_as_i32 (?m + 1), number_of_pages = usize_as_i32 ?m\<rparr>
    (map_page_id f addr)"
  have upto: "i32_val (i32_of_int (int ?n + 1)) = int ?n + 1"
    using room by (intro i32_val_of_int) simp_all
  have cmp: "usize_as_i32 (?m + 1) \<le> map_page_id f addr \<longleftrightarrow> ?m + 1 \<le> ?n"
    unfolding i32_le_iff val next_val by linarith
  have al: "?al s = repeat_io (?n - ?m) (allocate_new_fsm_and_init S f) s"
  proof (cases "?m + 1 \<le> ?n")
    case True
    moreover have "nat (int ?n + 1 - int (?m + 1)) = ?n - ?m" by simp
    ultimately show ?thesis
      using room upto by (simp only: add_map_pages_def page_file_metadata.simps cmp val next_val i32_checked_def if_True) simp
  next
    case False
    then show ?thesis
      by (simp add: add_map_pages_def cmp del: One_nat_def)
  qed
  have bound: "?m + (?n - ?m) + 1 < 2 ^ 31" using count_bound [OF ok(1)] room by simp
  obtain s1 where s1: "?al s = (Inr (), s1)" "ok s1 a" "map_pages_ok l (count s1 a) (pages s1 a)"
    "count s1 a = ?m + (?n - ?m)" "others_same ok count pages a s s1"
    "\<And>i. map_view l (pages s1 a) i =
        (if int ?m < i32_val i \<and> i32_val i \<le> int (?m + (?n - ?m)) then replicate (fsm_slots f) 0
         else map_view l (pages s a) i)"
    using allocate_map_pages_ok [OF f a ok bound] unfolding al by blast
  have view: "map_view l (pages s1 a) = grown_view f ?m ?n (map_view l (pages s a))"
    using s1(6) by (auto simp: grown_view_def fun_eq_iff)
  have reach: "?n \<le> count s1 a" using s1(4) by simp
  have top: "0 + fsm_depth f = fsm_depth f" by simp
  obtain u where u: "update_levels S f (page_category f p) 0 (fsm_depth f) addr i (map_page_id f addr) s1 = (Inr (), u)"
    "ok u a" "map_pages_ok l (count u a) (pages u a)" "count u a = count s1 a"
    "map_view l (pages u a) = set_path f (page_category f p) addr i (fsm_depth f) (map_view l (pages s1 a))"
    "others_same ok count pages a s1 u"
    using update_levels_ok [OF f a s1(2,3) disjI1 [OF aok] ad(1) top ad(2) reach] by blast
  have "fsm_update S f p s = (Inr (), u)"
    using s1(1) u(1) addr logical_page_id [OF aok] metadata_law [OF ok(1)] fsm_ofD(3,4) [OF f]
    by (simp add: fsm_update_def max_available_space_eq [OF p(1)] io_bind_def io_map_err_def a page_category_def
        split: prod.splits)
  then show ?thesis
    using u s1(4) view others_same_trans [OF s1(5) u(6)] by (intro exI [of _ u]) (simp add: max_def)
qed

end

section \<open>Properties\<close>

text \<open>
  C22. \<open>update\<close> of a well-formed page succeeds on a map whose pages are trees. Missing pages of
  the map are added with categories 0; on every level the page of the map on the path from the
  page of the table to the root gets the category of the page in the slot of the path, every
  other category stays, and no other file changes.
\<close>

theorem fsm_update_path:
  assumes "fsm_of l t f" and "file_ok l fs (fsm_access t)"
    and "map_pages_ok l (file_count l fs (fsm_access t)) (file_pages l fs (fsm_access t))"
    and "page_wf p" and "1 \<le> i32_val (page_id p)" and "heap_page_id_to_addr f (page_id p) = Inr (addr, i)"
  shows "\<exists>u. fsm_update file_store f p fs = (Inr (), u) \<and> file_ok l u (fsm_access t) \<and>
    map_pages_ok l (file_count l u (fsm_access t)) (file_pages l u (fsm_access t)) \<and>
    file_count l u (fsm_access t) = max (file_count l fs (fsm_access t)) (page_num f addr) \<and>
    (\<forall>k < fsm_depth f. map_view l (file_pages l u (fsm_access t)) (map_page_id f (fst (fsm_path f addr i k))) =
       (grown_view f (file_count l fs (fsm_access t)) (page_num f addr) (map_view l (file_pages l fs (fsm_access t)))
          (map_page_id f (fst (fsm_path f addr i k))))[snd (fsm_path f addr i k) := page_category f p]) \<and>
    (\<forall>j. (\<forall>k < fsm_depth f. j \<noteq> map_page_id f (fst (fsm_path f addr i k))) \<longrightarrow>
       map_view l (file_pages l u (fsm_access t)) j =
       grown_view f (file_count l fs (fsm_access t)) (page_num f addr) (map_view l (file_pages l fs (fsm_access t))) j) \<and>
    (\<forall>st. st \<noteq> fsm_access t \<longrightarrow> file_ok l fs st \<longrightarrow> file_ok l u st \<and> file_pages l u st = file_pages l fs st)"
proof -
  have slots: "0 < fsm_slots f" using fsm_ofD(10) [OF assms(1)] by simp
  note ad = heap_addr_bound [OF assms(1,5,6)]
  from fstore.fsm_update_ok [OF assms(1) refl assms(2-6)] obtain u where u:
    "fsm_update file_store f p fs = (Inr (), u)" "file_ok l u (fsm_access t)"
    "map_pages_ok l (file_count l u (fsm_access t)) (file_pages l u (fsm_access t))"
    "file_count l u (fsm_access t) = max (file_count l fs (fsm_access t)) (page_num f addr)"
    "map_view l (file_pages l u (fsm_access t)) = set_path f (page_category f p) addr i (fsm_depth f)
      (grown_view f (file_count l fs (fsm_access t)) (page_num f addr) (map_view l (file_pages l fs (fsm_access t))))"
    "others_same (file_ok l) (file_count l) (file_pages l) (fsm_access t) fs u"
    by blast
  have small: "page_num f addr < 2 ^ 31" using ad(1) by simp
  show ?thesis
  proof (rule exI [of _ u], intro conjI allI impI)
    fix k
    assume "k < fsm_depth f"
    then show "map_view l (file_pages l u (fsm_access t)) (map_page_id f (fst (fsm_path f addr i k))) =
       (grown_view f (file_count l fs (fsm_access t)) (page_num f addr) (map_view l (file_pages l fs (fsm_access t)))
          (map_page_id f (fst (fsm_path f addr i k))))[snd (fsm_path f addr i k) := page_category f p]"
      unfolding u(5) using set_path_at [OF ad(3) _ slots small] ad(2) by simp
  next
    fix j
    assume "\<forall>k < fsm_depth f. j \<noteq> map_page_id f (fst (fsm_path f addr i k))"
    then show "map_view l (file_pages l u (fsm_access t)) j =
       grown_view f (file_count l fs (fsm_access t)) (page_num f addr) (map_view l (file_pages l fs (fsm_access t))) j"
      unfolding u(5) by (intro set_path_other) simp
  qed (use u(1-4,6) in \<open>simp_all add: others_same_def\<close>)
qed

text \<open>The map of a table whose pages have 512 bytes, an empty page and a full page.\<close>

definition layout_512 :: page_data_layout where
  "layout_512 = \<lparr>layout_page_size = 512\<rparr>"

definition created_map :: files where
  "created_map = snd (file_create layout_512 (fsm_access (fsm_table fsm_512)) (\<lambda>_. None))"

definition empty_512 :: page where
  "empty_512 = set_page_id (i32_of_int 1) (page_new layout_512)"

definition full_512 :: page where
  "full_512 = (append_row (set_page_id (i32_of_int 2) (page_new layout_512)) (replicate 491 0))\<lparr>number_of_records := 1\<rparr>"

lemma layout_512_ok: "layout_ok layout_512"
  using fsm_ofD(1) [OF fsm_512_of] by (simp add: layout_512_def)

lemma fsm_512_of': "fsm_of layout_512 (fsm_table fsm_512) fsm_512"
  using fsm_512_of by (simp add: layout_512_def)

lemma created_map_ok:
  "file_ok layout_512 created_map (fsm_access (fsm_table fsm_512))"
  "file_count layout_512 created_map (fsm_access (fsm_table fsm_512)) = 0"
  using file_create_ok [OF layout_512_ok, of "\<lambda>_. None" "fsm_access (fsm_table fsm_512)"]
  by (auto simp: created_map_def)

lemma created_map_pages:
  "map_pages_ok layout_512 0 (file_pages layout_512 created_map (fsm_access (fsm_table fsm_512)))"
  "map_view layout_512 (file_pages layout_512 created_map (fsm_access (fsm_table fsm_512))) = (\<lambda>_. [])"
  by (auto simp: map_pages_ok_def map_view_def file_pages_def created_map_ok(2) fun_eq_iff)

lemma full_512_ok: "page_wf full_512" "page_id full_512 = i32_of_int 2" "layout full_512 = layout_512"
  "page_category fsm_512 full_512 = 0"
proof -
  have eq: "full_512 = new_map_page layout_512 (i32_of_int 2)"
    by (simp add: full_512_def new_map_page_def layout_512_def page_size_def)
  have size: "64 \<le> page_size layout_512" by (simp add: layout_512_def page_size_def)
  show "page_wf full_512" "page_id full_512 = i32_of_int 2" "layout full_512 = layout_512"
    using new_map_page_ok [OF layout_512_ok size] unfolding eq by blast+
  have "free_gap full_512 = 0" "max_fragmented_free_space full_512 = 0"
    by (simp_all add: full_512_def append_row_def free_gap_def set_page_id_def page_new_def layout_512_def
        slot_size_def page_data_size_def page_size_def layout_consts max_fragmented_free_space_def)
  then show "page_category fsm_512 full_512 = 0"
    by (simp add: page_category_def) code_simp
qed

lemma empty_512_ok: "page_wf empty_512" "page_id empty_512 = i32_of_int 1" "layout empty_512 = layout_512"
  "page_category fsm_512 empty_512 = 255"
proof -
  show "page_wf empty_512" "page_id empty_512 = i32_of_int 1" "layout empty_512 = layout_512"
    using empty_page [OF layout_512_ok] by (simp_all add: empty_512_def)
  have "free_gap empty_512 = 498" "max_fragmented_free_space empty_512 = 0"
    by (simp_all add: empty_512_def free_gap_def set_page_id_def page_new_def layout_512_def
        slot_size_def page_data_size_def page_size_def layout_consts max_fragmented_free_space_def)
  then show "page_category fsm_512 empty_512 = 255"
    by (simp add: page_category_def) code_simp
qed

lemma paths_512:
  "heap_page_id_to_addr fsm_512 (i32_of_int 1) = Inr (\<lparr>node_number = 0, level = 0\<rparr>, 0)"
  "heap_page_id_to_addr fsm_512 (i32_of_int 2) = Inr (\<lparr>node_number = 0, level = 0\<rparr>, 1)"
  "fsm_depth fsm_512 = 4" "fsm_slots fsm_512 = 236"
  "page_num fsm_512 \<lparr>node_number = 0, level = k\<rparr> = 4 - k"
  "fst (fsm_path fsm_512 \<lparr>node_number = 0, level = 0\<rparr> i k) = \<lparr>node_number = 0, level = k\<rparr>"
  "snd (fsm_path fsm_512 \<lparr>node_number = 0, level = 0\<rparr> i k) = (if k = 0 then i else 0)"
proof -
  show "heap_page_id_to_addr fsm_512 (i32_of_int 1) = Inr (\<lparr>node_number = 0, level = 0\<rparr>, 0)"
    "heap_page_id_to_addr fsm_512 (i32_of_int 2) = Inr (\<lparr>node_number = 0, level = 0\<rparr>, 1)"
    by (simp_all add: heap_addr_eq fsm_512_def)
  show "fsm_depth fsm_512 = 4" "fsm_slots fsm_512 = 236"
    by (simp_all add: fsm_512_def)
  show "page_num fsm_512 \<lparr>node_number = 0, level = k\<rparr> = 4 - k"
    by (simp add: page_num_def first_leaf_of_def fsm_512_def)
  have "fsm_path fsm_512 \<lparr>node_number = 0, level = n\<rparr> i k =
      (\<lparr>node_number = 0, level = n + k\<rparr>, if k = 0 then i else 0)" for n
    by (induction k arbitrary: i n) (simp_all add: fsm_512_def)
  from this [of 0] show "fst (fsm_path fsm_512 \<lparr>node_number = 0, level = 0\<rparr> i k) = \<lparr>node_number = 0, level = k\<rparr>"
    "snd (fsm_path fsm_512 \<lparr>node_number = 0, level = 0\<rparr> i k) = (if k = 0 then i else 0)"
    by simp_all
qed

theorem fsm_update_path_witness:
  "\<exists>u. fsm_update file_store fsm_512 empty_512 created_map = (Inr (), u) \<and>
     file_count layout_512 u (fsm_access (fsm_table fsm_512)) = 4 \<and>
     map_view layout_512 (file_pages layout_512 u (fsm_access (fsm_table fsm_512))) (i32_of_int 4) ! 0 = 255"
proof -
  let ?a = "fsm_access (fsm_table fsm_512)"
  have "map_page_id fsm_512 \<lparr>node_number = 0, level = 0\<rparr> = i32_of_int 4"
    by (simp add: map_page_id_def paths_512 i32_eq_iff)
  moreover obtain u where u: "fsm_update file_store fsm_512 empty_512 created_map = (Inr (), u)"
    "file_count layout_512 u ?a = max 0 (page_num fsm_512 \<lparr>node_number = 0, level = 0\<rparr>)"
    "\<forall>k < fsm_depth fsm_512. map_view layout_512 (file_pages layout_512 u ?a)
         (map_page_id fsm_512 (fst (fsm_path fsm_512 \<lparr>node_number = 0, level = 0\<rparr> 0 k))) =
       (grown_view fsm_512 0 (page_num fsm_512 \<lparr>node_number = 0, level = 0\<rparr>) (\<lambda>_. [])
          (map_page_id fsm_512 (fst (fsm_path fsm_512 \<lparr>node_number = 0, level = 0\<rparr> 0 k))))
        [snd (fsm_path fsm_512 \<lparr>node_number = 0, level = 0\<rparr> 0 k) := page_category fsm_512 empty_512]"
    using fsm_update_path [OF fsm_512_of' created_map_ok(1), of empty_512 "\<lparr>node_number = 0, level = 0\<rparr>" 0]
      created_map_pages created_map_ok(2) empty_512_ok paths_512(1,5) by auto
  ultimately show ?thesis
    using u(3) [rule_format, of 0] by (intro exI [of _ u]) (simp add: paths_512 empty_512_ok grown_view_def)
qed

text \<open>
  \<open>update\<close> writes the category of the page to every level, not the largest category of the
  page of the map below: after an empty page and then a full page of the same leaf page were
  updated, the leaf page records the free page with 255 and every level above it records 0.
\<close>

theorem fsm_update_forgets:
  "\<exists>fs u v. file_ok layout_512 fs (fsm_access (fsm_table fsm_512)) \<and>
     fsm_update file_store fsm_512 empty_512 fs = (Inr (), u) \<and>
     fsm_update file_store fsm_512 full_512 u = (Inr (), v) \<and>
     map_view layout_512 (file_pages layout_512 v (fsm_access (fsm_table fsm_512))) (i32_of_int 4) =
       [255, 0] @ replicate 234 0 \<and>
     map (\<lambda>j. map_view layout_512 (file_pages layout_512 v (fsm_access (fsm_table fsm_512))) (i32_of_int j)) [1, 2, 3] =
       replicate 3 (replicate 236 0)"
proof -
  let ?a = "fsm_access (fsm_table fsm_512)" and ?o = "\<lparr>node_number = 0, level = 0\<rparr>"
  let ?pid = "\<lambda>k. map_page_id fsm_512 \<lparr>node_number = 0, level = k\<rparr>"
  let ?view = "\<lambda>u. map_view layout_512 (file_pages layout_512 u ?a)"
  have num: "page_num fsm_512 ?o = 4" "page_num fsm_512 ?o + 1 < 2 ^ 31"
    by (simp_all add: paths_512)
  note upd = fstore.fsm_update_ok [OF fsm_512_of' refl]
  from upd [OF created_map_ok(1), of empty_512 ?o 0] obtain u where u:
    "fsm_update file_store fsm_512 empty_512 created_map = (Inr (), u)" "file_ok layout_512 u ?a"
    "map_pages_ok layout_512 (file_count layout_512 u ?a) (file_pages layout_512 u ?a)" "file_count layout_512 u ?a = 4"
    "?view u = set_path fsm_512 255 ?o 0 4 (grown_view fsm_512 0 4 (\<lambda>_. []))"
    using created_map_pages created_map_ok(2) empty_512_ok paths_512(1,3) num by auto
  from upd [OF u(2,3), of full_512 ?o 1] obtain v where v:
    "fsm_update file_store fsm_512 full_512 u = (Inr (), v)"
    "?view v = set_path fsm_512 0 ?o 1 4 (grown_view fsm_512 4 4 (?view u))"
    using full_512_ok paths_512(2,3) num u(4) by auto
  have same: "grown_view fsm_512 4 4 w = w" for w :: "i32 \<Rightarrow> u8 list"
    by (auto simp: grown_view_def fun_eq_iff)
  have at: "set_path fsm_512 c ?o i 4 w (?pid k) = (w (?pid k))[if k = 0 then i else 0 := c]" if "k < 4" for c i w k
    using set_path_at [of fsm_512 ?o 4 k c i w] that by (simp add: paths_512 addr_ok_def)
  have val: "i32_val (?pid k) = int (4 - k)" for k
    by (simp add: map_page_id_def paths_512)
  have view: "?view v (?pid k) = ((replicate 236 0)[0 := 255])[if k = 0 then 1 else 0 := 0]" if "k < 4" for k
    using that val [of k] by (simp add: v(2) same u(5) at grown_view_def paths_512)
  have leaf: "?pid 0 = i32_of_int 4" by (simp add: i32_eq_iff val)
  have zeros: "replicate 236 (0 :: u8) = 0 # 0 # replicate 234 0"
    by (simp flip: replicate_Suc)
  have up: "?pid 3 = i32_of_int 1" "?pid 2 = i32_of_int 2" "?pid 1 = i32_of_int 3"
    by (simp_all add: i32_eq_iff val)
  have "?view v (i32_of_int 1) = replicate 236 0" "?view v (i32_of_int 2) = replicate 236 0"
    "?view v (i32_of_int 3) = replicate 236 0"
    using view [of 3] view [of 2] view [of 1] unfolding up zeros by simp_all
  then have "map (\<lambda>j. ?view v (i32_of_int j)) [1, 2, 3] = replicate 3 (replicate 236 0)"
    by (simp add: numeral_3_eq_3)
  moreover have "?view v (i32_of_int 4) = [255, 0] @ replicate 234 0"
    using view [of 0] unfolding leaf zeros by simp
  ultimately show ?thesis
    using u(1) v(1) created_map_ok(1) by blast
qed

end
