(* ===== verification/Fsm_Find.thy ===== *)
theory Fsm_Find
  imports Fsm_Update
begin

text \<open>
  The search of the free space map. A map is sound when every category above the leaf pages is
  reached by some category of the page below and every category of a leaf page belongs to a page
  of the table: \<open>update\<close> keeps this although it does not record the largest category, so the
  search never ends in \<open>CorruptedState\<close> and finds a page with the category that was asked for.
\<close>

section \<open>Sound maps\<close>

definition map_sound :: "fsm \<Rightarrow> nat \<Rightarrow> nat \<Rightarrow> (i32 \<Rightarrow> u8 list) \<Rightarrow> bool" where
  "map_sound f n m v \<longleftrightarrow>
     (\<forall>b i. addr_ok f b \<longrightarrow> page_num f b \<le> n \<longrightarrow> i < fsm_slots f \<longrightarrow> 0 < v (map_page_id f b) ! i \<longrightarrow>
        (if level b = 0 then \<exists>g. addr_slot_to_heap_page_id f b i = Inr g \<and> 1 \<le> i32_val g \<and> i32_val g \<le> int m
         else \<exists>c j. fsm_child f b i = Inr c \<and> page_num f c \<le> n \<and> j < fsm_slots f \<and>
                v (map_page_id f b) ! i \<le> v (map_page_id f c) ! j))"

lemma map_sound_leaf:
  assumes "map_sound f n m v" and "addr_ok f b" and "page_num f b \<le> n" and "i < fsm_slots f"
    and "0 < v (map_page_id f b) ! i" and "level b = 0"
  obtains g where "addr_slot_to_heap_page_id f b i = Inr g" and "1 \<le> i32_val g" and "i32_val g \<le> int m"
  using assms unfolding map_sound_def by (metis (full_types))

lemma map_sound_inner:
  assumes "map_sound f n m v" and "addr_ok f b" and "page_num f b \<le> n" and "i < fsm_slots f"
    and "0 < v (map_page_id f b) ! i" and "level b \<noteq> 0"
  obtains c j where "fsm_child f b i = Inr c" and "page_num f c \<le> n" and "j < fsm_slots f"
    and "v (map_page_id f b) ! i \<le> v (map_page_id f c) ! j" and "addr_ok f c" and "level b = Suc (level c)"
proof -
  from assms obtain c j where c: "fsm_child f b i = Inr c" "page_num f c \<le> n" "j < fsm_slots f"
    "v (map_page_id f b) ! i \<le> v (map_page_id f c) ! j"
    unfolding map_sound_def by (metis (full_types))
  moreover have "addr_ok f c" "level b = Suc (level c)"
    using c(1) assms(2,6) by (auto simp: fsm_child_def addr_ok_def split: if_splits)
  ultimately show thesis by (rule that)
qed

lemma fsm_path_step:
  "fsm_path f a i (Suc k) =
     (parent_addr f (fst (fsm_path f a i k)), node_number (fst (fsm_path f a i k)) mod fsm_slots f)"
  by (induction k arbitrary: a i) (simp_all add: parent_addr_def)

lemma fsm_path_level: "level (fst (fsm_path f a i k)) = level a + k"
  by (induction k) (simp_all add: fsm_path_step parent_addr_def del: fsm_path.simps(2))

lemma child_of_parent: "fsm_child f (parent_addr f b) (node_number b mod fsm_slots f) = Inr b"
  by (simp add: fsm_child_def parent_addr_def)

lemma parent_of_child:
  assumes "fsm_child f b i = Inr c" and "i < fsm_slots f"
  shows "b = parent_addr f c" and "i = node_number c mod fsm_slots f"
  using assms by (auto simp: fsm_child_def parent_addr_def split: if_splits)

lemma fsm_path_slot: "i < fsm_slots f \<Longrightarrow> snd (fsm_path f a i k) < fsm_slots f"
  by (cases k) (simp_all add: fsm_path_step del: fsm_path.simps(2))

text \<open>The categories after an update, page by page.\<close>

lemma updated_view:
  assumes "addr_ok f addr" and "level addr = 0" and "0 < fsm_slots f" and "page_num f addr < 2 ^ 31"
    and "addr_ok f b" and "page_num f b < 2 ^ 31"
  shows "set_path f c addr i (fsm_depth f) w (map_page_id f b) =
    (if b = fst (fsm_path f addr i (level b)) then (w (map_page_id f b))[snd (fsm_path f addr i (level b)) := c]
     else w (map_page_id f b))"
proof (cases "b = fst (fsm_path f addr i (level b))")
  case True
  then show ?thesis
    using set_path_at [OF assms(1) _ assms(3,4), of "fsm_depth f" "level b" c i w] assms(2,5)
    by (simp add: addr_ok_def)
next
  case False
  have "map_page_id f b \<noteq> map_page_id f (fst (fsm_path f addr i k))" if "k < fsm_depth f" for k
  proof
    assume eq: "map_page_id f b = map_page_id f (fst (fsm_path f addr i k))"
    have p: "addr_ok f (fst (fsm_path f addr i k))" "page_num f (fst (fsm_path f addr i k)) < 2 ^ 31"
      using fsm_path_page_num [OF assms(1) _ assms(3), of k i] assms(2,4) that by simp_all
    have "page_num f b = page_num f (fst (fsm_path f addr i k))"
      using eq map_page_id_inj [OF assms(6) p(2)] by simp
    then have "b = fst (fsm_path f addr i k)"
      by (rule page_num_inj [OF assms(5) p(1) assms(3)])
    moreover have "level b = k"
      using fsm_path_level [of f addr i k] assms(2) calculation by simp
    ultimately show False using False by simp
  qed
  then show ?thesis
    using False by (simp add: set_path_other)
qed

lemma map_sound_update:
  assumes f: "fsm_of l t f" and sound: "map_sound f n m v" and g: "1 \<le> i32_val g" "i32_val g \<le> int m"
    and addr: "heap_page_id_to_addr f g = Inr (addr, i)" and n: "n + 1 < 2 ^ 31"
    and len: "\<And>p. 1 \<le> i32_val p \<Longrightarrow> i32_val p \<le> int n \<Longrightarrow> length (v p) = fsm_slots f"
  shows "map_sound f (max n (page_num f addr)) m
    (set_path f c addr i (fsm_depth f) (grown_view f n (page_num f addr) v))"
proof -
  have slots: "0 < fsm_slots f" using fsm_ofD(10) [OF f] by simp
  note ad = heap_addr_bound(2,4) [OF f g(1) addr] and aok = heap_addr_bound(3) [OF f g(1) addr]
    and room = heap_addr_bound(1) [OF f g(1) addr] n
  let ?w = "grown_view f n (page_num f addr) v" and ?n = "max n (page_num f addr)"
  let ?path = "fsm_path f addr i"
  have bound: "?n < 2 ^ 31" using room by simp
  have val: "i32_val (map_page_id f b) = int (page_num f b)" if "page_num f b \<le> ?n" for b
  proof -
    have "page_num f b < 2 ^ 31" using that bound by (rule le_less_trans)
    then show ?thesis by (simp add: map_page_id_def)
  qed
  have view: "set_path f c addr i (fsm_depth f) ?w (map_page_id f b) =
      (if b = fst (?path (level b)) then (?w (map_page_id f b))[snd (?path (level b)) := c] else ?w (map_page_id f b))"
    if "addr_ok f b" "page_num f b \<le> ?n" for b
    using updated_view [OF aok ad(1) slots _ that(1), of c i ?w] that(2) room bound by simp
  have path: "addr_ok f (fst (?path k))" "page_num f (fst (?path k)) \<le> ?n" if "k < fsm_depth f" for k
    using fsm_path_page_num [OF aok _ slots, of k i] ad(1) that by (simp_all add: le_max_iff_disj)
  have wlen: "length (?w (map_page_id f b)) = fsm_slots f" if "addr_ok f b" "page_num f b \<le> ?n" for b
    using that val [OF that(2)] len page_num_pos [OF that(1)] by (auto simp: grown_view_def)
  have old: "?w (map_page_id f b) = v (map_page_id f b)" "page_num f b \<le> n"
    if "addr_ok f b" "page_num f b \<le> ?n" "k < fsm_slots f" "0 < ?w (map_page_id f b) ! k" for b k
    using that val [OF that(2)] by (auto simp: grown_view_def split: if_splits)
  show ?thesis
    unfolding map_sound_def
  proof (intro allI impI)
    fix b k
    let ?v = "set_path f c addr i (fsm_depth f) ?w"
    assume b: "addr_ok f b" "page_num f b \<le> ?n" "k < fsm_slots f" "0 < ?v (map_page_id f b) ! k"
    show "if level b = 0 then \<exists>g. addr_slot_to_heap_page_id f b k = Inr g \<and> 1 \<le> i32_val g \<and> i32_val g \<le> int m
         else \<exists>c j. fsm_child f b k = Inr c \<and> page_num f c \<le> ?n \<and> j < fsm_slots f \<and>
                ?v (map_page_id f b) ! k \<le> ?v (map_page_id f c) ! j"
    proof (cases "b = fst (?path (level b)) \<and> k = snd (?path (level b))")
      case True
      show ?thesis
      proof (cases "level b")
        case 0
        have "b = addr" "k = i" using True 0 by simp_all
        moreover have "addr_slot_to_heap_page_id f addr i = Inr g"
          using addr_heap_back [OF f g(1)] addr by simp
        ultimately show ?thesis using g ad(1) by auto
      next
        case (Suc k')
        let ?c = "fst (?path k')" and ?j = "snd (?path k')"
        have lev: "k' < fsm_depth f" using b(1) Suc by (simp add: addr_ok_def)
        have "level ?c = k'" using fsm_path_level [of f addr i k'] ad(1) by simp
        then have "?v (map_page_id f ?c) = (?w (map_page_id f ?c))[?j := c]"
          using view [OF path [OF lev]] by simp
        moreover have jb: "?j < fsm_slots f" using ad(2) by (rule fsm_path_slot)
        ultimately have "?v (map_page_id f ?c) ! ?j = c"
          using wlen [OF path [OF lev]] by simp
        moreover have "?v (map_page_id f b) ! k = c"
          using view [OF b(1,2)] True wlen [OF b(1,2)] b(3) by simp
        moreover have "fsm_child f b k = Inr ?c"
          using True Suc child_of_parent [of f ?c] by (metis fsm_path_step fst_conv snd_conv)
        ultimately show ?thesis
          using Suc path(2) [OF lev] jb by (intro if_not_P [THEN iffD2]) (auto intro!: exI [of _ ?c] exI [of _ ?j])
      qed
    next
      case False
      have same: "?v (map_page_id f b) ! k = ?w (map_page_id f b) ! k"
        using view [OF b(1,2)] False by (auto simp: nth_list_update)
      note o = old [OF b(1-3) b(4) [unfolded same]]
      have pos: "0 < v (map_page_id f b) ! k" using b(4) same o(1) by simp
      show ?thesis
      proof (cases "level b = 0")
        case True
        then show ?thesis
          using map_sound_leaf [OF sound b(1) o(2) b(3) pos] by metis
      next
        case lev: False
        obtain d j where d: "fsm_child f b k = Inr d" "page_num f d \<le> n" "j < fsm_slots f"
          "v (map_page_id f b) ! k \<le> v (map_page_id f d) ! j" and dl: "addr_ok f d" "level b = Suc (level d)"
          using map_sound_inner [OF sound b(1) o(2) b(3) pos lev] .
        have "d \<noteq> fst (?path (level d))"
        proof
          assume "d = fst (?path (level d))"
          then have "?path (level b) = (b, k)"
            using parent_of_child [OF d(1) b(3)] by (metis dl(2) fsm_path_step)
          then show False using False by simp
        qed
        moreover have "?w (map_page_id f d) = v (map_page_id f d)"
          using val [of d] d(2) by (simp add: grown_view_def)
        ultimately have "?v (map_page_id f d) = v (map_page_id f d)"
          using view [OF dl(1)] d(2) by simp
        then show ?thesis
          using lev d same o(1) by auto
      qed
    qed
  qed
qed

lemma map_sound_table: "map_sound f n m v \<Longrightarrow> m \<le> m' \<Longrightarrow> map_sound f n m' v"
  unfolding map_sound_def by (smt (verit) of_nat_mono order_trans)

lemma map_sound_grow:
  assumes "map_sound f n m v" and "n' + 1 < 2 ^ 31"
  shows "map_sound f (max n n') m (grown_view f n n' v)"
proof -
  have val: "i32_val (map_page_id f b) = int (page_num f b)" if "page_num f b \<le> max n n'" "max n n' < 2 ^ 31" for b
    using that by (simp add: map_page_id_def le_less_trans [OF that(1)])
  show ?thesis
  proof (cases "n < n'")
    case False
    then have "grown_view f n n' v = v" by (auto simp: grown_view_def fun_eq_iff)
    then show ?thesis using assms(1) False by (simp add: max_absorb1)
  next
    case True
    then have val: "i32_val (map_page_id f b) = int (page_num f b)" if "page_num f b \<le> n'" for b
      using val [of b] that assms(2) by simp
    show ?thesis
      unfolding map_sound_def max_absorb2 [OF less_imp_le [OF True]]
    proof (intro allI impI)
      fix b i
      let ?w = "grown_view f n n' v"
      assume b: "addr_ok f b" "page_num f b \<le> n'" "i < fsm_slots f" "0 < ?w (map_page_id f b) ! i"
      then have old: "page_num f b \<le> n" "?w (map_page_id f b) = v (map_page_id f b)"
        using val [OF b(2)] by (auto simp: grown_view_def split: if_splits)
      have pos: "0 < v (map_page_id f b) ! i" using b(4) old(2) by simp
      show "if level b = 0 then \<exists>g. addr_slot_to_heap_page_id f b i = Inr g \<and> 1 \<le> i32_val g \<and> i32_val g \<le> int m
         else \<exists>c j. fsm_child f b i = Inr c \<and> page_num f c \<le> n' \<and> j < fsm_slots f \<and>
                ?w (map_page_id f b) ! i \<le> ?w (map_page_id f c) ! j"
      proof (cases "level b = 0")
        case True
        then show ?thesis
          using map_sound_leaf [OF assms(1) b(1) old(1) b(3) pos] by metis
      next
        case lev: False
        obtain c j where c: "fsm_child f b i = Inr c" "page_num f c \<le> n" "j < fsm_slots f"
          "v (map_page_id f b) ! i \<le> v (map_page_id f c) ! j"
          using map_sound_inner [OF assms(1) b(1) old(1) b(3) pos lev] .
        moreover have "?w (map_page_id f c) = v (map_page_id f c)"
          using val [of c] c(2) True by (simp add: grown_view_def)
        ultimately show ?thesis
          using lev old(2) True by (intro if_not_P [THEN iffD2]) (auto intro!: exI [of _ c] exI [of _ j])
      qed
    qed
  qed
qed

section \<open>The search under the contract of the store\<close>

text \<open>What the search may give for a category: a page recorded with at least that category.\<close>

definition recorded :: "fsm \<Rightarrow> nat \<Rightarrow> (i32 \<Rightarrow> u8 list) \<Rightarrow> u8 \<Rightarrow> i32 \<Rightarrow> bool" where
  "recorded f n v c g \<longleftrightarrow>
     (\<exists>b i. addr_ok f b \<and> level b = 0 \<and> page_num f b \<le> n \<and> i < fsm_slots f \<and>
        addr_slot_to_heap_page_id f b i = Inr g \<and> c \<le> v (map_page_id f b) ! i)"

context page_store
begin

lemma find_descend_ok:
  assumes f: "fsm_of l t f" and a: "a = fsm_access t" and ok: "ok s a" "map_pages_ok l (count s a) (pages s a)"
    and sound: "map_sound f (count s a) m (map_view l (pages s a))" and c: "0 < c"
  shows "n = level addr + 1 \<Longrightarrow> addr_ok f addr \<Longrightarrow> page_num f addr \<le> count s a \<Longrightarrow>
    (sure \<longrightarrow> (\<exists>j < fsm_slots f. c \<le> map_view l (pages s a) (map_page_id f addr) ! j)) \<Longrightarrow>
    \<exists>r. find_descend S f c n addr sure h s = (Inr r, s) \<and>
      (case r of
         None \<Rightarrow> \<not> sure \<and> (\<forall>j < fsm_slots f. map_view l (pages s a) (map_page_id f addr) ! j < c)
       | Some g \<Rightarrow> recorded f (count s a) (map_view l (pages s a)) c g \<and> 1 \<le> i32_val g \<and> i32_val g \<le> int m)"
proof (induction n arbitrary: addr sure h)
  case (Suc n)
  let ?v = "map_view l (pages s a)" and ?pid = "map_page_id f addr"
  have val: "i32_val ?pid = int (page_num f addr)"
    using Suc.prems(3) count_bound [OF ok(1)] by (simp add: map_page_id_def)
  have "pages s a ?pid \<noteq> None"
    using ok(2) val page_num_pos [OF Suc.prems(2)] Suc.prems(3) by (simp add: map_pages_ok_def)
  then obtain p where at: "pages s a ?pid = Some p" by blast
  with ok(2) have p: "fsm_page_ok l p" by (simp add: map_pages_ok_def)
  have wf: "tree_wf l (page_tree l p)" using p by (simp add: fsm_page_ok_def)
  have v: "?v ?pid = leaves (page_tree l p)" by (simp add: map_view_def at)
  have len: "length (?v ?pid) = fsm_slots f" using map_slots [OF f wf] v by simp
  note found = find_available_position [OF wf, of c, where 'e = fsm_error, folded v]
  have read: "find_descend S f c (Suc n) addr sure h s =
      (case position (\<lambda>x. c \<le> x) (?v ?pid) of
         Some i \<Rightarrow>
           if level addr = 0 then
             io_bind (io_lift (addr_slot_to_heap_page_id f addr i)) (find_descend S f c n addr sure) s
           else io_bind (io_lift (fsm_child f addr i)) (\<lambda>addr. find_descend S f c n addr True h) s
       | None \<Rightarrow> if sure then (Inl (Err CorruptedState), s) else (Inr None, s))"
    using read_law [OF ok(1) at] read_tree_ok [OF f p] found logical_page_id [OF Suc.prems(2)] fsm_ofD(3,4) [OF f]
    by (simp add: io_bind_def io_map_err_def a split: option.split)
  show ?case
  proof (cases "position (\<lambda>x. c \<le> x) (?v ?pid)")
    case None
    then have none: "\<forall>j < fsm_slots f. ?v ?pid ! j < c"
      by (metis position_None nth_mem len not_le)
    then have "\<not> sure"
      using Suc.prems(4) by (metis not_le)
    moreover from this have "find_descend S f c (Suc n) addr sure h s = (Inr None, s)"
      unfolding read None by simp
    ultimately show ?thesis
      using none by (intro exI [of _ None]) simp
  next
    case (Some i)
    then have i: "i < fsm_slots f" "c \<le> ?v ?pid ! i"
      using len by (auto simp: position_Some)
    have pos: "0 < ?v ?pid ! i" using c i(2) by (rule less_le_trans)
    show ?thesis
    proof (cases "level addr = 0")
      case True
      obtain g where g: "addr_slot_to_heap_page_id f addr i = Inr g" "1 \<le> i32_val g" "i32_val g \<le> int m"
        using map_sound_leaf [OF sound Suc.prems(2,3) i(1) pos True] .
      have "recorded f (count s a) ?v c g"
        using Suc.prems(2,3) True i g(1) by (auto simp: recorded_def)
      moreover have "find_descend S f c (Suc n) addr sure h s = (Inr (Some g), s)"
        unfolding read Some using True g(1) Suc.prems(1) by simp
      ultimately show ?thesis
        using g by (intro exI [of _ "Some g"]) simp
    next
      case lev: False
      obtain d j where d: "fsm_child f addr i = Inr d" "page_num f d \<le> count s a" "j < fsm_slots f"
        "?v ?pid ! i \<le> ?v (map_page_id f d) ! j" "addr_ok f d" "level addr = Suc (level d)"
        using map_sound_inner [OF sound Suc.prems(2,3) i(1) pos lev] .
      have "n = level d + 1" using Suc.prems(1) d(6) by simp
      moreover have "\<exists>j < fsm_slots f. c \<le> ?v (map_page_id f d) ! j"
        using d(3,4) i(2) by (meson order_trans)
      ultimately obtain r where "find_descend S f c n d True h s = (Inr r, s)"
        "case r of None \<Rightarrow> False
         | Some g \<Rightarrow> recorded f (count s a) ?v c g \<and> 1 \<le> i32_val g \<and> i32_val g \<le> int m"
        using Suc.IH [OF _ d(5,2), of True h] by (auto split: option.splits)
      moreover from this have "find_descend S f c (Suc n) addr sure h s = (Inr r, s)"
        unfolding read Some using lev d(1) by simp
      ultimately show ?thesis
        by (intro exI [of _ r]) (simp split: option.splits)
    qed
  qed
qed simp

lemma find_available_page_ok:
  assumes f: "fsm_of l t f" and a: "a = fsm_access t" and tab: "tab = TableStorage (table_id t)"
    and ok: "ok s a" "map_pages_ok l (count s a) (pages s a)" "ok s tab"
    and sound: "map_sound f (count s a) (count s tab) (map_view l (pages s a))"
    and table: "\<And>i. 1 \<le> i32_val i \<Longrightarrow> i32_val i \<le> int (count s tab) \<Longrightarrow> pages s tab i \<noteq> None"
    and room: "count s tab + 2 < 2 ^ 31"
  shows "\<exists>p u. find_available_page S f n s = (Inr p, u) \<and> ok u a \<and> ok u tab \<and>
    map_pages_ok l (count u a) (pages u a) \<and>
    map_sound f (count u a) (count u tab) (map_view l (pages u a)) \<and>
    (\<forall>i. i32_val i \<le> int (count s a) \<longrightarrow> map_view l (pages u a) i = map_view l (pages s a) i) \<and>
    (if count u tab = count s tab
     then \<exists>g. pages s tab g = Some p \<and> pages u tab = pages s tab \<and>
       recorded f (count u a) (map_view l (pages u a)) (space_needed_to_category f n) g
     else count u tab = count s tab + 1 \<and> p = set_page_id (usize_as_i32 (count s tab + 1)) (page_new l) \<and>
       pages u tab = (pages s tab)(page_id p \<mapsto> p) \<and>
       (\<forall>j < fsm_slots f. map_view l (pages u a) (i32_of_int 1) ! j < space_needed_to_category f n))"
proof -
  have apart: "tab \<noteq> a" by (simp add: tab a fsm_access_def)
  let ?c = "space_needed_to_category f n" and ?d = "fsm_depth f"
  have depth: "1 \<le> ?d" "?d \<le> 4" "root_level f + 1 = ?d"
    using fsm_ofD(7,8) [OF f] by simp_all
  have bound: "count s a + (?d - count s a) + 1 < 2 ^ 31"
    using count_bound [OF ok(1)] depth(2) by simp
  obtain s1 where s1: "repeat_io (?d - count s a) (allocate_new_fsm_and_init S f) s = (Inr (), s1)" "ok s1 a"
    "map_pages_ok l (count s1 a) (pages s1 a)" "count s1 a = count s a + (?d - count s a)"
    "\<And>i. map_view l (pages s1 a) i =
        (if int (count s a) < i32_val i \<and> i32_val i \<le> int (count s a + (?d - count s a)) then replicate (fsm_slots f) 0
         else map_view l (pages s a) i)"
    "others_same ok count pages a s s1"
    using allocate_map_pages_ok [OF f a ok(1,2) bound] by blast
  have tab1: "ok s1 tab" "count s1 tab = count s tab" "pages s1 tab = pages s tab"
    using s1(6) ok(3) apart by (auto simp: others_same_def)
  have cnt1: "count s1 a = max (count s a) ?d" using s1(4) by simp
  have kept: "\<forall>i. i32_val i \<le> int (count s a) \<longrightarrow> map_view l (pages s1 a) i = map_view l (pages s a) i"
    using s1(5) by auto
  have "map_view l (pages s1 a) = grown_view f (count s a) ?d (map_view l (pages s a))"
    using s1(5) by (auto simp: grown_view_def fun_eq_iff)
  then have sound1: "map_sound f (count s1 a) (count s tab) (map_view l (pages s1 a))"
    using map_sound_grow [OF sound, of ?d] depth(2) cnt1 by simp
  have root: "addr_ok f (fsm_root f)" "?d = level (fsm_root f) + 1" "page_num f (fsm_root f) = 1"
    using depth(1) by (simp_all add: addr_ok_def fsm_root_def page_num_def first_leaf_of_def)
  have c: "0 < ?c"
    using fsm_ofD(6) [OF f] by (simp add: word_less_nat_alt needed_category [OF f] div_greater_zero_iff) arith
  have reach: "page_num f (fsm_root f) \<le> count s1 a" using cnt1 depth(1) root(3) by simp
  obtain r where r: "find_descend S f ?c ?d (fsm_root f) False (i32_of_int 0) s1 = (Inr r, s1)"
    "case r of None \<Rightarrow> \<forall>j < fsm_slots f. map_view l (pages s1 a) (map_page_id f (fsm_root f)) ! j < ?c
     | Some g \<Rightarrow> recorded f (count s1 a) (map_view l (pages s1 a)) ?c g \<and> 1 \<le> i32_val g \<and>
         i32_val g \<le> int (count s tab)"
    using find_descend_ok [OF f a s1(2,3) sound1 c root(2,1) reach, of False "i32_of_int 0"]
    by (auto split: option.splits)
  have num: "root_level f + 1 - i32_as_usize (usize_as_i32 (count s a)) = ?d - count s a"
    using count_bound [OF ok(1)] depth(3) by (simp add: i32_as_usize_nonneg)
  have run: "find_available_page S f n s =
      (case r of
        None \<Rightarrow> io_map_err FsmStore (st_allocate_page S l tab) s1
      | Some g \<Rightarrow>
          if i32_val g < 1 then (Inl (Err CorruptedState), s1)
          else io_map_err FsmStore (io_read (st_read_page S l g tab)) s1)"
    using metadata_law [OF ok(1)] s1(1) r(1) num fsm_ofD(3,4) [OF f]
    by (simp add: find_available_page_def Let_def io_bind_def io_map_err_def a tab split: option.split)
  show ?thesis
  proof (cases r)
    case None
    have room1: "count s1 tab + 2 < 2 ^ 31" using room tab1(2) by simp
    let ?p = "set_page_id (usize_as_i32 (count s tab + 1)) (page_new l)"
    obtain u where u: "st_allocate_page S l tab s1 = (Inr ?p, u)" "ok u tab" "count u tab = count s tab + 1"
      "pages u tab = (pages s tab)(usize_as_i32 (count s tab + 1) \<mapsto> ?p)" "others_same ok count pages tab s1 u"
      using allocate_law [OF tab1(1) room1] unfolding tab1(2,3) by blast
    have au: "ok u a" "count u a = count s1 a" "pages u a = pages s1 a"
      using u(5) s1(2) apart by (auto simp: others_same_def)
    have "map_sound f (count u a) (count u tab) (map_view l (pages u a))"
      using map_sound_table [OF sound1, of "count u tab"] u(3) au by simp
    moreover have "map_page_id f (fsm_root f) = i32_of_int 1"
      by (simp add: map_page_id_def root(3) i32_eq_iff)
    ultimately show ?thesis
      using run None u au s1(3) r(2) kept
      by (intro exI [of _ ?p] exI [of _ u]) (simp add: io_map_err_def set_page_id_def)
  next
    case (Some g)
    have g: "recorded f (count s1 a) (map_view l (pages s1 a)) ?c g" "1 \<le> i32_val g" "i32_val g \<le> int (count s tab)"
      using r(2) Some by simp_all
    obtain p where p: "pages s tab g = Some p" using table [OF g(2,3)] by blast
    have "st_read_page S l g tab s1 = Inr p"
      by (rule read_law [OF tab1(1)]) (simp add: tab1(3) p)
    then have "find_available_page S f n s = (Inr p, s1)"
      using run Some g(2) by (simp add: io_map_err_def)
    then show ?thesis
      using s1(2,3) tab1 sound1 g(1) p kept by (intro exI [of _ p] exI [of _ s1]) auto
  qed
qed

end

section \<open>The map and the table as a state machine\<close>

text \<open>
  The states of the files of a table: the two files are created, and then pages are looked for,
  written, and reported to the map in any order. An operation may fail; the state it leaves
  counts as well.
\<close>

inductive fsm_reachable :: "page_data_layout \<Rightarrow> table \<Rightarrow> fsm \<Rightarrow> files \<Rightarrow> bool" for l t f where
  created: "fsm_of l t f \<Longrightarrow> file_create l (TableStorage (table_id t)) fs = (Inr (), fs1) \<Longrightarrow>
    file_create l (fsm_access t) fs1 = (Inr (), fs2) \<Longrightarrow> fsm_reachable l t f fs2"
| found: "fsm_reachable l t f fs \<Longrightarrow> file_count l fs (TableStorage (table_id t)) + 2 < 2 ^ 31 \<Longrightarrow>
    find_available_page file_store f n fs = (r, u) \<Longrightarrow> fsm_reachable l t f u"
| stored: "fsm_reachable l t f fs \<Longrightarrow> page_wf p \<Longrightarrow> layout p = l \<Longrightarrow>
    file_pages l fs (TableStorage (table_id t)) (page_id p) \<noteq> None \<Longrightarrow>
    file_write_page l p (TableStorage (table_id t)) fs = (r', u) \<Longrightarrow> fsm_reachable l t f u"
| updated: "fsm_reachable l t f fs \<Longrightarrow> page_wf p \<Longrightarrow>
    file_pages l fs (TableStorage (table_id t)) (page_id p) \<noteq> None \<Longrightarrow>
    fsm_update file_store f p fs = (r'', u) \<Longrightarrow> fsm_reachable l t f u"

definition fsm_inv :: "page_data_layout \<Rightarrow> table \<Rightarrow> fsm \<Rightarrow> files \<Rightarrow> bool" where
  "fsm_inv l t f fs \<longleftrightarrow>
     (let a = fsm_access t; tab = TableStorage (table_id t) in
      fsm_of l t f \<and> file_ok l fs a \<and> file_ok l fs tab \<and>
      map_pages_ok l (file_count l fs a) (file_pages l fs a) \<and>
      map_sound f (file_count l fs a) (file_count l fs tab) (map_view l (file_pages l fs a)) \<and>
      (\<forall>i. file_pages l fs tab i \<noteq> None \<longleftrightarrow> 1 \<le> i32_val i \<and> i32_val i \<le> int (file_count l fs tab)))"

lemma tab_not_map [simp]: "TableStorage (table_id t) \<noteq> fsm_access t" "fsm_access t \<noteq> TableStorage (table_id t)"
  by (simp_all add: fsm_access_def)

lemma fsm_inv_created:
  assumes "fsm_of l t f" and "file_create l (TableStorage (table_id t)) fs = (Inr (), fs1)"
    and "file_create l (fsm_access t) fs1 = (Inr (), fs2)"
  shows "fsm_inv l t f fs2"
proof -
  let ?a = "fsm_access t" and ?tab = "TableStorage (table_id t)"
  note lay = fsm_ofD(1) [OF assms(1)]
  have none: "fs (storage_file_path ?tab) = None" "fs1 (storage_file_path ?a) = None"
    using assms(2,3) by (auto simp: file_create_def split: if_splits)
  have one: "file_ok l fs1 ?tab" "file_count l fs1 ?tab = 0"
    using file_create_ok [OF lay, of fs ?tab] none(1) assms(2) by auto
  have two: "file_ok l fs2 ?a" "file_count l fs2 ?a = 0"
    using file_create_ok [OF lay, of fs1 ?a] none(2) assms(3) by auto
  have "fs2 = fs1(storage_file_path ?a := fs2 (storage_file_path ?a))"
    using assms(3) by (auto simp: file_create_def file_init_def file_write_metadata_def fun_eq_iff
        split: if_splits sum.splits)
  then have tab: "file_ok l fs2 ?tab" "file_count l fs2 ?tab = 0"
    using one file_frame(1,2) [of ?tab ?a l fs1 "fs2 (storage_file_path ?a)"] by (metis tab_not_map(1))+
  have none: "file_pages l fs2 st i = None" if "file_count l fs2 st = 0" for st i
    using that by (auto simp: file_pages_def)
  have "map_sound f 0 0 v" for v
    using page_num_pos [of f] by (fastforce simp: map_sound_def)
  moreover have "map_pages_ok l 0 (file_pages l fs2 ?a)"
    using none [OF two(2)] by (auto simp: map_pages_ok_def)
  ultimately show ?thesis
    using two tab assms(1) none [OF tab(2)] by (simp add: fsm_inv_def Let_def)
qed

text \<open>The categories of the root.\<close>

definition root_view :: "page_data_layout \<Rightarrow> table \<Rightarrow> files \<Rightarrow> u8 list" where
  "root_view l t fs = map_view l (file_pages l fs (fsm_access t)) (i32_of_int 1)"

lemma fsm_inv_find_pages:
  assumes "fsm_inv l t f fs" and "file_count l fs (TableStorage (table_id t)) + 2 < 2 ^ 31"
  shows "\<exists>p u. find_available_page file_store f n fs = (Inr p, u) \<and> fsm_inv l t f u \<and>
    (1 \<le> file_count l fs (fsm_access t) \<longrightarrow> root_view l t u = root_view l t fs) \<and>
    (if file_count l u (TableStorage (table_id t)) = file_count l fs (TableStorage (table_id t))
     then \<exists>g. file_pages l fs (TableStorage (table_id t)) g = Some p \<and>
       file_pages l u (TableStorage (table_id t)) = file_pages l fs (TableStorage (table_id t)) \<and>
       recorded f (file_count l u (fsm_access t)) (map_view l (file_pages l u (fsm_access t)))
         (space_needed_to_category f n) g
     else file_count l u (TableStorage (table_id t)) = file_count l fs (TableStorage (table_id t)) + 1 \<and>
       p = set_page_id (usize_as_i32 (file_count l fs (TableStorage (table_id t)) + 1)) (page_new l) \<and>
       file_pages l u (TableStorage (table_id t)) = (file_pages l fs (TableStorage (table_id t)))(page_id p \<mapsto> p) \<and>
       (\<forall>j < fsm_slots f. map_view l (file_pages l u (fsm_access t)) (i32_of_int 1) ! j < space_needed_to_category f n))"
proof -
  let ?a = "fsm_access t" and ?tab = "TableStorage (table_id t)"
  have inv: "fsm_of l t f" "file_ok l fs ?a" "file_ok l fs ?tab"
      "map_pages_ok l (file_count l fs ?a) (file_pages l fs ?a)"
      "map_sound f (file_count l fs ?a) (file_count l fs ?tab) (map_view l (file_pages l fs ?a))"
      "file_pages l fs ?tab i \<noteq> None \<longleftrightarrow> 1 \<le> i32_val i \<and> i32_val i \<le> int (file_count l fs ?tab)" for i
    using assms(1) by (simp_all only: fsm_inv_def Let_def)
  have table: "file_pages l fs ?tab i \<noteq> None" if "1 \<le> i32_val i" "i32_val i \<le> int (file_count l fs ?tab)" for i
    using inv(6) that by simp
  obtain p u where u: "find_available_page file_store f n fs = (Inr p, u)" "file_ok l u ?a" "file_ok l u ?tab"
    "map_pages_ok l (file_count l u ?a) (file_pages l u ?a)"
    "map_sound f (file_count l u ?a) (file_count l u ?tab) (map_view l (file_pages l u ?a))"
    "\<forall>i. i32_val i \<le> int (file_count l fs ?a) \<longrightarrow> map_view l (file_pages l u ?a) i = map_view l (file_pages l fs ?a) i"
    "if file_count l u ?tab = file_count l fs ?tab
     then \<exists>g. file_pages l fs ?tab g = Some p \<and> file_pages l u ?tab = file_pages l fs ?tab \<and>
       recorded f (file_count l u ?a) (map_view l (file_pages l u ?a)) (space_needed_to_category f n) g
     else file_count l u ?tab = file_count l fs ?tab + 1 \<and>
       p = set_page_id (usize_as_i32 (file_count l fs ?tab + 1)) (page_new l) \<and>
       file_pages l u ?tab = (file_pages l fs ?tab)(page_id p \<mapsto> p) \<and>
       (\<forall>j < fsm_slots f. map_view l (file_pages l u ?a) (i32_of_int 1) ! j < space_needed_to_category f n)"
    using fstore.find_available_page_ok [OF inv(1) refl refl inv(2,4,3,5) table assms(2), of n] by blast
  have total: "file_pages l u ?tab i \<noteq> None \<longleftrightarrow> 1 \<le> i32_val i \<and> i32_val i \<le> int (file_count l u ?tab)" for i
  proof (cases "file_count l u ?tab = file_count l fs ?tab")
    case True
    then have "file_pages l u ?tab = file_pages l fs ?tab" using u(7) by auto
    then show ?thesis using True inv(6) [of i] by simp
  next
    case False
    then have "file_pages l u ?tab = (file_pages l fs ?tab)(page_id p \<mapsto> p)"
      "file_count l u ?tab = file_count l fs ?tab + 1" "i32_val (page_id p) = int (file_count l fs ?tab + 1)"
      using u(7) assms(2) by (auto simp: set_page_id_def)
    then show ?thesis
      using inv(6) [of i] by (auto simp: i32_eq_iff)
  qed
  have "fsm_inv l t f u"
    unfolding fsm_inv_def Let_def using inv(1) u(2-5) total by blast
  moreover have "1 \<le> file_count l fs ?a \<longrightarrow> root_view l t u = root_view l t fs"
    using u(6) by (simp add: root_view_def)
  ultimately show ?thesis
    using u(1,7) by (intro exI [of _ p] exI [of _ u]) (auto split: if_splits)
qed

lemma fsm_inv_find:
  assumes "fsm_inv l t f fs" and "file_count l fs (TableStorage (table_id t)) + 2 < 2 ^ 31"
  shows "\<exists>p u. find_available_page file_store f n fs = (Inr p, u) \<and> fsm_inv l t f u \<and>
    (if file_count l u (TableStorage (table_id t)) = file_count l fs (TableStorage (table_id t))
     then \<exists>g. file_pages l fs (TableStorage (table_id t)) g = Some p \<and>
       recorded f (file_count l u (fsm_access t)) (map_view l (file_pages l u (fsm_access t)))
         (space_needed_to_category f n) g
     else p = set_page_id (usize_as_i32 (file_count l fs (TableStorage (table_id t)) + 1)) (page_new l) \<and>
       (\<forall>j < fsm_slots f. map_view l (file_pages l u (fsm_access t)) (i32_of_int 1) ! j < space_needed_to_category f n))"
  using fsm_inv_find_pages [OF assms, of n] by (elim exE conjE) (auto split: if_splits)

lemma fsm_inv_write:
  assumes "fsm_inv l t f fs" and "page_wf p" and "layout p = l"
    and "file_pages l fs (TableStorage (table_id t)) (page_id p) \<noteq> None"
    and "file_write_page l p (TableStorage (table_id t)) fs = (r, u)"
  shows "fsm_inv l t f u"
proof -
  let ?tab = "TableStorage (table_id t)"
  have inv: "file_ok l fs ?tab"
      "file_pages l fs ?tab i \<noteq> None \<longleftrightarrow> 1 \<le> i32_val i \<and> i32_val i \<le> int (file_count l fs ?tab)" for i
    using assms(1) by (simp_all only: fsm_inv_def Let_def)
  have range: "1 \<le> i32_val (page_id p)" "i32_val (page_id p) \<le> int (file_count l fs ?tab)"
    using inv(2) [of "page_id p"] assms(4) by simp_all
  from fstore.write_law [OF inv(1) assms(2,3) range] assms(5)
  have u: "file_ok l u ?tab" "file_count l u ?tab = file_count l fs ?tab"
    "file_pages l u ?tab = (file_pages l fs ?tab)(page_id p \<mapsto> page_image p)"
    "others_same (file_ok l) (file_count l) (file_pages l) ?tab fs u"
    by (auto simp: file_store_def)
  then have "file_pages l u ?tab i \<noteq> None \<longleftrightarrow> 1 \<le> i32_val i \<and> i32_val i \<le> int (file_count l u ?tab)" for i
    using inv(2) [of i] range by auto
  moreover have "file_ok l fs (fsm_access t)"
    using assms(1) by (simp add: fsm_inv_def Let_def)
  ultimately show ?thesis
    using assms(1) u(1,2,4) tab_not_map(2) [of t] unfolding fsm_inv_def Let_def others_same_def by metis
qed

lemma fsm_inv_update:
  assumes "fsm_inv l t f fs" and "page_wf p" and "file_pages l fs (TableStorage (table_id t)) (page_id p) \<noteq> None"
  shows "\<exists>u. fsm_update file_store f p fs = (Inr (), u) \<and> fsm_inv l t f u \<and>
    file_count l u (TableStorage (table_id t)) = file_count l fs (TableStorage (table_id t)) \<and>
    file_pages l u (TableStorage (table_id t)) = file_pages l fs (TableStorage (table_id t)) \<and>
    1 \<le> file_count l u (fsm_access t) \<and>
    (i32_val (page_id p) = 1 \<longrightarrow> root_view l t u ! 0 = page_category f p)"
proof -
  let ?a = "fsm_access t" and ?tab = "TableStorage (table_id t)"
  have inv: "fsm_of l t f" "file_ok l fs ?a" "file_ok l fs ?tab"
      "map_pages_ok l (file_count l fs ?a) (file_pages l fs ?a)"
      "map_sound f (file_count l fs ?a) (file_count l fs ?tab) (map_view l (file_pages l fs ?a))"
      "file_pages l fs ?tab i \<noteq> None \<longleftrightarrow> 1 \<le> i32_val i \<and> i32_val i \<le> int (file_count l fs ?tab)" for i
    using assms(1) by (simp_all only: fsm_inv_def Let_def)
  have g: "1 \<le> i32_val (page_id p)" "i32_val (page_id p) \<le> int (file_count l fs ?tab)"
    using inv(6) [of "page_id p"] assms(3) by simp_all
  obtain addr i where addr: "heap_page_id_to_addr f (page_id p) = Inr (addr, i)"
    using heap_addr_eq [OF g(1), of f] by simp
  obtain u where u: "fsm_update file_store f p fs = (Inr (), u)" "file_ok l u ?a"
    "map_pages_ok l (file_count l u ?a) (file_pages l u ?a)"
    "file_count l u ?a = max (file_count l fs ?a) (page_num f addr)"
    "map_view l (file_pages l u ?a) = set_path f (page_category f p) addr i (fsm_depth f)
      (grown_view f (file_count l fs ?a) (page_num f addr) (map_view l (file_pages l fs ?a)))"
    "others_same (file_ok l) (file_count l) (file_pages l) ?a fs u"
    using fstore.fsm_update_ok [OF inv(1) refl inv(2,4) assms(2) g(1) addr] by blast
  have len: "length (map_view l (file_pages l fs ?a) j) = fsm_slots f"
    if j: "1 \<le> i32_val j" "i32_val j \<le> int (file_count l fs ?a)" for j
  proof -
    have "file_pages l fs ?a j \<noteq> None" using inv(4) j by (simp add: map_pages_ok_def)
    then obtain q where q: "file_pages l fs ?a j = Some q" by blast
    then have "tree_wf l (page_tree l q)"
      using inv(4) by (simp add: map_pages_ok_def fsm_page_ok_def)
    with q show ?thesis using map_slots(2) [OF inv(1)] by (simp add: map_view_def)
  qed
  have "map_sound f (file_count l u ?a) (file_count l fs ?tab) (map_view l (file_pages l u ?a))"
    unfolding u(4,5) by (rule map_sound_update [OF inv(1,5) g addr fstore.count_bound [OF inv(2)] len])
  moreover have "file_ok l u ?tab" "file_count l u ?tab = file_count l fs ?tab"
    "file_pages l u ?tab = file_pages l fs ?tab"
    using u(6) inv(3) by (simp_all add: others_same_def)
  ultimately have "fsm_inv l t f u"
    unfolding fsm_inv_def Let_def using inv(1,6) u(2,3) by simp
  moreover have "1 \<le> file_count l u ?a"
    using u(4) page_num_pos [OF heap_addr_bound(3) [OF inv(1) g(1) addr]] by simp
  moreover have "root_view l t u ! 0 = page_category f p" if "i32_val (page_id p) = 1"
  proof -
    have a: "addr = \<lparr>node_number = 0, level = 0\<rparr>" "i = 0"
      using addr heap_addr_eq [OF g(1), of f] that by simp_all
    have depth: "0 < fsm_depth f" "0 < fsm_slots f" using fsm_ofD(8,10) [OF inv(1)] by simp_all
    have path: "fsm_path f addr 0 k = (\<lparr>node_number = 0, level = k\<rparr>, 0)" for k
      using depth(2) by (induction k) (simp_all add: a(1) fsm_path_step parent_addr_def del: fsm_path.simps(2))
    let ?root = "\<lparr>node_number = 0, level = fsm_depth f - 1\<rparr>"
    have root: "map_page_id f ?root = i32_of_int 1"
      using depth by (simp add: map_page_id_def page_num_def first_leaf_of_def i32_eq_iff)
    let ?v = "grown_view f (file_count l fs ?a) (page_num f addr) (map_view l (file_pages l fs ?a))"
    have "length (?v (i32_of_int 1)) = fsm_slots f"
      using len [of "i32_of_int 1"] page_num_pos [OF heap_addr_bound(3) [OF inv(1) g(1) addr]]
      by (auto simp: grown_view_def)
    moreover have "map_view l (file_pages l u ?a) (i32_of_int 1) = (?v (i32_of_int 1))[0 := page_category f p]"
      unfolding u(5) a(2)
      using set_path_at [OF heap_addr_bound(3) [OF inv(1) g(1) addr], of "fsm_depth f" "fsm_depth f - 1" "page_category f p" 0 ?v]
        heap_addr_bound(1) [OF inv(1) g(1) addr] depth path [of "fsm_depth f - 1"] root by (simp add: a(1))
    ultimately show ?thesis using depth(2) by (simp add: root_view_def)
  qed
  ultimately show ?thesis using u(1,6) inv(3) by (auto simp: others_same_def)
qed

lemma reachable_inv: "fsm_reachable l t f fs \<Longrightarrow> fsm_inv l t f fs"
proof (induction rule: fsm_reachable.induct)
  case (found fs n r u)
  then show ?case using fsm_inv_find [OF found(4,2), of n] by auto
next
  case (updated fs p r'' u)
  then show ?case using fsm_inv_update [OF updated(5,2,3)] by auto
qed (rule fsm_inv_created fsm_inv_write; assumption)+

section \<open>Properties\<close>

text \<open>
  C21. After the files of a table were created, and after any sequence of searches, writes of
  pages and reports to the map, every page of the map holds a tree, a category above the leaf
  pages is reached by a category of the page below, and a category of a leaf page belongs to a
  page of the table; reporting a page of the table succeeds.
\<close>

theorem fsm_reachable_sound:
  assumes "fsm_reachable l t f fs"
  shows "map_pages_ok l (file_count l fs (fsm_access t)) (file_pages l fs (fsm_access t)) \<and>
    map_sound f (file_count l fs (fsm_access t)) (file_count l fs (TableStorage (table_id t)))
      (map_view l (file_pages l fs (fsm_access t))) \<and>
    (\<forall>p. page_wf p \<longrightarrow> file_pages l fs (TableStorage (table_id t)) (page_id p) \<noteq> None \<longrightarrow>
       (\<exists>u. fsm_update file_store f p fs = (Inr (), u) \<and> fsm_reachable l t f u))"
proof -
  have inv: "fsm_inv l t f fs" using assms by (rule reachable_inv)
  have "\<exists>u. fsm_update file_store f p fs = (Inr (), u) \<and> fsm_reachable l t f u"
    if "page_wf p" "file_pages l fs (TableStorage (table_id t)) (page_id p) \<noteq> None" for p
    using fsm_inv_update [OF inv that] updated [OF assms that] by blast
  with inv show ?thesis by (simp add: fsm_inv_def Let_def)
qed

text \<open>
  C20. In every such state the search succeeds. It gives a page of the table that the map records
  with at least the category of the space that is needed, or, when no category of the root is
  large enough, a new empty page under the next id.
\<close>

theorem find_available_page_spec:
  assumes "fsm_reachable l t f fs" and "file_count l fs (TableStorage (table_id t)) + 2 < 2 ^ 31"
  shows "\<exists>p u. find_available_page file_store f n fs = (Inr p, u) \<and> fsm_reachable l t f u \<and>
    (if file_count l u (TableStorage (table_id t)) = file_count l fs (TableStorage (table_id t))
     then \<exists>g. file_pages l fs (TableStorage (table_id t)) g = Some p \<and>
       recorded f (file_count l u (fsm_access t)) (map_view l (file_pages l u (fsm_access t)))
         (space_needed_to_category f n) g
     else p = set_page_id (usize_as_i32 (file_count l fs (TableStorage (table_id t)) + 1)) (page_new l) \<and>
       (\<forall>j < fsm_slots f. map_view l (file_pages l u (fsm_access t)) (i32_of_int 1) ! j < space_needed_to_category f n))"
  using fsm_inv_find [OF reachable_inv [OF assms(1)] assms(2), of n] found [OF assms, of n] by blast

text \<open>The files of a new table over pages of 512 bytes.\<close>

definition new_table_files :: files where
  "new_table_files = snd (file_create layout_512 (fsm_access (fsm_table fsm_512))
     (snd (file_create layout_512 (TableStorage (table_id (fsm_table fsm_512))) (\<lambda>_. None))))"

lemma new_table_reachable: "fsm_reachable layout_512 (fsm_table fsm_512) fsm_512 new_table_files"
  and new_table_count: "file_count layout_512 new_table_files (TableStorage (table_id (fsm_table fsm_512))) = 0"
proof -
  let ?t = "fsm_table fsm_512"
  obtain fs1 where fs1: "file_create layout_512 (TableStorage (table_id ?t)) (\<lambda>_. None) = (Inr (), fs1)"
    "file_ok layout_512 fs1 (TableStorage (table_id ?t))" "file_count layout_512 fs1 (TableStorage (table_id ?t)) = 0"
    "fs1 (storage_file_path (fsm_access ?t)) = None"
    using file_create_ok [OF layout_512_ok, of "\<lambda>_. None" "TableStorage (table_id ?t)"] by auto
  obtain fs2 where fs2: "file_create layout_512 (fsm_access ?t) fs1 = (Inr (), fs2)"
    "fs2 (storage_file_path (TableStorage (table_id ?t))) = fs1 (storage_file_path (TableStorage (table_id ?t)))"
    using file_create_ok [OF layout_512_ok, of fs1 "fsm_access ?t"] fs1(4)
      tab_not_map(1) [of ?t] by metis
  have eq: "new_table_files = fs2" by (simp add: new_table_files_def fs1(1) fs2(1))
  show "fsm_reachable layout_512 ?t fsm_512 new_table_files"
    unfolding eq by (rule created [OF fsm_512_of' fs1(1) fs2(1)])
  show "file_count layout_512 new_table_files (TableStorage (table_id ?t)) = 0"
    unfolding eq using fs1(3) fs2(2) by (simp add: file_count_def)
qed

theorem fsm_reachable_sound_witness:
  "map_pages_ok layout_512 (file_count layout_512 new_table_files (fsm_access (fsm_table fsm_512)))
     (file_pages layout_512 new_table_files (fsm_access (fsm_table fsm_512)))"
  using fsm_reachable_sound [OF new_table_reachable] by blast

theorem find_available_page_spec_witness:
  "\<exists>u. find_available_page file_store fsm_512 7 new_table_files =
     (Inr (set_page_id (usize_as_i32 1) (page_new layout_512)), u)"
proof -
  have "file_pages layout_512 new_table_files (TableStorage (table_id (fsm_table fsm_512))) g = None" for g
    using new_table_count by (auto simp: file_pages_def)
  then show ?thesis
    using find_available_page_spec [OF new_table_reachable, of 7] new_table_count by (auto split: if_splits)
qed

end
