(* ===== verification/Table_Changes.thy ===== *)
theory Table_Changes
  imports Table_Rows Fsm_Find
begin

text \<open>
  What an insertion does to the rows of a table without indexes, over the store on files and with
  the free space map. The invariant \<open>table_inv\<close> joins
  the invariant of the map with the well-formedness of the pages; it allows deleted slots only in
  tables whose rows all have one length, since an insertion into a longer deleted slot can destroy a
  page. \<open>rows_inv\<close> allows them in every table; then an insertion is safe when no deleted slot is
  longer than its row.
\<close>

section \<open>Rows of one length\<close>

definition fixed_size :: "table_schema \<Rightarrow> bool" where
  "fixed_size s \<longleftrightarrow> (\<forall>col \<in> set (columns s). \<not> is_var_size (col_type col))"

definition fixed_len :: "table_schema \<Rightarrow> nat" where
  "fixed_len s = sum_list (map (\<lambda>col. if col_type col = TByte then 1 else 4) (columns s))"

lemma fixed_size_length:
  assumes "row_fits r s" and "fixed_size s"
  shows "length (row_serialize r) = fixed_len s"
proof -
  have "length (cells_serialize cs) = sum_list (map (\<lambda>col. if col_type col = TByte then 1 else 4) cols)"
    if "list_all2 (\<lambda>c col. cell_fits c (col_type col)) cs cols" "\<forall>col \<in> set cols. \<not> is_var_size (col_type col)"
    for cs and cols :: "column list"
    using that
  proof (induction cs cols rule: list_all2_induct)
    case (Cons c cs col cols)
    then show ?case by (cases c; cases "col_type col") auto
  qed simp
  then show ?thesis
    using assms by (simp add: row_fits_def fixed_size_def fixed_len_def row_serialize_def)
qed

lemma row_serialize_nonempty:
  assumes "row_fits r s" and "columns s \<noteq> []"
  shows "row_serialize r \<noteq> []"
  using assms cell_serialize_nonempty
  by (cases "cells r") (auto simp: row_fits_def row_serialize_def)

text \<open>No deleted slot of a page is longer than a row of \<open>n\<close> bytes.\<close>

definition short_slots :: "page \<Rightarrow> nat \<Rightarrow> bool" where
  "short_slots p n \<longleftrightarrow> (\<forall>s \<in> set (slots p). slot_deleted s \<longrightarrow> unat (record_length s) \<le> n)"

lemma insert_uniform:
  assumes "page_wf p" and "insert_record p row = Inr (i, q)" and "row \<noteq> []"
    and "short_slots p (length row)"
  shows "page_wf q" and "page_rows p i = None" and "page_rows q = (page_rows p)(i \<mapsto> row)"
    and "page_id q = page_id p" and "layout q = layout p"
    and "s \<in> set (slots q) \<Longrightarrow> slot_deleted s \<Longrightarrow> s \<in> set (slots p)"
proof -
  note eff = insert_record_effect [OF assms(1-3)]
  then show rows: "page_rows p i = None" "page_rows q = (page_rows p)(i \<mapsto> row)"
    "page_id q = page_id p" "layout q = layout p" by blast+
  have wf: "page_wf q \<longleftrightarrow> slot_size q \<le> data_offset q"
    using eff page_wfD(1) [OF assms(1)] by (simp add: page_wf_def directory_fits_def)
  have fits: "slot_size p \<le> data_offset p"
    using page_wfD(3) [OF assms(1)] by (simp add: directory_fits_def)
  have "page_wf q \<and> (s \<in> set (slots q) \<longrightarrow> slot_deleted s \<longrightarrow> s \<in> set (slots p))"
  proof (cases rule: insert_record_cases [OF assms(1-3)])
    case 1
    have "unat (record_length (slots p ! i)) = length row"
      using assms(4) 1(1-3) nth_mem by (fastforce simp: short_slots_def)
    moreover from this have "length row < 2 ^ 16"
      using unat_lt_2p [of "record_length (slots p ! i)"] by simp
    ultimately have "record_length (slots p ! i) = usize_as_u16 (length row)"
      by (simp add: word_unat_eq_iff)
    moreover have "s \<in> set ((slots p)[i := x]) \<Longrightarrow> s = x \<or> s \<in> set (slots p)" for x
      using set_update_subset_insert [of "slots p" i x] by blast
    ultimately have "slot_size q = slot_size p" "data_offset q = data_offset p"
      and "s \<in> set (slots q) \<Longrightarrow>
        s = \<lparr>record_length = usize_as_u16 (length row), page_offset = page_offset (slots p ! i), slot_deleted = False\<rparr> \<or>
        s \<in> set (slots p)"
      using 1(4) by (simp_all add: reuse_slot_def Let_def slot_size_def)
    then show ?thesis using wf fits by fastforce
  next
    case 2
    then show ?thesis
      using wf fits by (auto simp: append_row_def slot_size_def free_gap_def layout_consts)
  qed
  then show "page_wf q" "s \<in> set (slots q) \<Longrightarrow> slot_deleted s \<Longrightarrow> s \<in> set (slots p)" by blast+
qed

section \<open>The invariant\<close>

text \<open>A condition \<open>D\<close> holds of the deleted slots; without one, only reading and deleting are safe.\<close>

definition rows_inv :: "(slot \<Rightarrow> bool) \<Rightarrow> page_data_layout \<Rightarrow> table \<Rightarrow> fsm \<Rightarrow> files \<Rightarrow> bool" where
  "rows_inv D l t f fs \<longleftrightarrow> fsm_inv l t f fs \<and> table_ok l fs (table_id t) \<and>
     (\<forall>k bs. table_map l fs (table_id t) k = Some bs \<longrightarrow>
        (\<exists>row. row_fits row (schema t) \<and> row_strings_ok row \<and> bs = row_serialize row)) \<and>
     (\<forall>i p s. file_pages l fs (TableStorage (table_id t)) i = Some p \<longrightarrow> s \<in> set (slots p) \<longrightarrow> slot_deleted s \<longrightarrow> D s)"

text \<open>A deleted slot has the length of every row of the table, so an insertion reuses it as a whole.\<close>

definition table_inv :: "page_data_layout \<Rightarrow> table \<Rightarrow> fsm \<Rightarrow> files \<Rightarrow> bool" where
  "table_inv l t f fs \<longleftrightarrow> rows_inv (\<lambda>s. fixed_size (schema t) \<and> unat (record_length s) = fixed_len (schema t)) l t f fs"

lemma rows_invD:
  assumes "rows_inv D l t f fs"
  shows "fsm_inv l t f fs" "table_ok l fs (table_id t)"
    and "table_map l fs (table_id t) k = Some bs \<Longrightarrow>
      \<exists>row. row_fits row (schema t) \<and> row_strings_ok row \<and> bs = row_serialize row"
    and "file_pages l fs (TableStorage (table_id t)) i = Some p \<Longrightarrow> s \<in> set (slots p) \<Longrightarrow> slot_deleted s \<Longrightarrow> D s"
  using assms unfolding rows_inv_def by blast+

lemma rows_inv_weaken: "rows_inv D l t f fs \<Longrightarrow> (\<And>s. D s \<Longrightarrow> D' s) \<Longrightarrow> rows_inv D' l t f fs"
  unfolding rows_inv_def by blast

lemma table_invD:
  assumes "table_inv l t f fs"
  shows "fsm_inv l t f fs" "table_ok l fs (table_id t)"
    and "table_map l fs (table_id t) k = Some bs \<Longrightarrow>
      \<exists>row. row_fits row (schema t) \<and> row_strings_ok row \<and> bs = row_serialize row"
    and "file_pages l fs (TableStorage (table_id t)) i = Some p \<Longrightarrow> s \<in> set (slots p) \<Longrightarrow> slot_deleted s \<Longrightarrow>
      fixed_size (schema t) \<and> unat (record_length s) = fixed_len (schema t)"
  using rows_invD [OF assms [unfolded table_inv_def]] by blast+

lemma rows_inv_readable:
  assumes "rows_inv D l t f fs"
  shows "readable (schema t) (table_entries l fs (table_id t))"
    and "table_map l fs (table_id t) k = Some bs \<Longrightarrow> row_fits (decode (schema t) bs) (schema t) \<and>
      row_strings_ok (decode (schema t) bs) \<and> row_serialize (decode (schema t) bs) = bs"
proof -
  have d: "row_deserialize bs (schema t) = Inr row \<and> decode (schema t) bs = row"
    if "row_fits row (schema t)" "row_strings_ok row" "bs = row_serialize row" for bs row
    using row_deserialize_serialize [OF that(1,2)] that(3) by (simp add: decode_def)
  then show "table_map l fs (table_id t) k = Some bs \<Longrightarrow> row_fits (decode (schema t) bs) (schema t) \<and>
      row_strings_ok (decode (schema t) bs) \<and> row_serialize (decode (schema t) bs) = bs"
    using rows_invD(3) [OF assms, of k bs] by fastforce
  show "readable (schema t) (table_entries l fs (table_id t))"
    using rows_invD(3) [OF assms] d table_entries_set [OF rows_invD(2) [OF assms]]
    by (fastforce simp: readable_def)
qed

lemmas table_inv_readable = rows_inv_readable [OF table_inv_def [THEN iffD1]]

text \<open>Only the pages of the table matter.\<close>

lemma same_pages:
  assumes "file_count l u (TableStorage tid) = file_count l fs (TableStorage tid)"
    and "file_pages l u (TableStorage tid) = file_pages l fs (TableStorage tid)"
    and "file_ok l u (TableStorage tid)"
  shows "table_ok l fs tid \<Longrightarrow> table_ok l u tid" "table_map l u tid = table_map l fs tid"
  using assms by (simp_all add: table_ok_def page_at_def table_map_def fun_eq_iff)

lemma fsm_inv_table: "fsm_inv l t f fs \<Longrightarrow> file_ok l fs (TableStorage (table_id t))"
  by (simp add: fsm_inv_def Let_def)

lemma write_table_page:
  assumes inv: "fsm_inv l t f fs" and tab: "table_ok l fs (table_id t)"
    and old: "file_pages l fs (TableStorage (table_id t)) (page_id p) \<noteq> None"
    and p: "page_wf p" "layout p = l"
  shows "\<exists>u. st_write_page file_store l p (TableStorage (table_id t)) fs = (Inr (), u) \<and>
    fsm_inv l t f u \<and> table_ok l u (table_id t) \<and>
    file_count l u (TableStorage (table_id t)) = file_count l fs (TableStorage (table_id t)) \<and>
    file_pages l u (TableStorage (table_id t)) =
      (file_pages l fs (TableStorage (table_id t)))(page_id p \<mapsto> page_image p) \<and>
    table_map l u (table_id t) =
      (\<lambda>k. if fst k = page_id p then page_rows p (snd k) else table_map l fs (table_id t) k)"
proof -
  let ?tab = "TableStorage (table_id t)"
  obtain p0 where p0: "file_pages l fs ?tab (page_id p) = Some p0" using old by blast
  note range = table_pageD(4,5) [OF tab p0]
  from fstore.write_law [OF fsm_inv_table [OF inv] p range] obtain u where
    u: "st_write_page file_store l p ?tab fs = (Inr (), u)" "file_ok l u ?tab"
      "file_count l u ?tab = file_count l fs ?tab"
      "file_pages l u ?tab = (file_pages l fs ?tab)(page_id p \<mapsto> page_image p)"
    by blast
  have "fsm_inv l t f u"
    by (rule fsm_inv_write [OF inv p old, of "Inr ()"]) (use u(1) in \<open>simp add: file_store_def\<close>)
  moreover have "table_ok l u (table_id t)"
  proof -
    have "page_at l u (table_id t) i =
        (if usize_as_i32 i = page_id p then page_image p else page_at l fs (table_id t) i)" for i
      by (simp add: page_at_def u(4))
    moreover have "page_wf (page_image p)" "page_id (page_image p) = page_id p" "layout (page_image p) = l"
      using page_image_rows(1) [OF p(1)] p(2) by (simp_all add: page_image_def)
    ultimately show ?thesis
      using tab u(2-4) by (auto simp: table_ok_def)
  qed
  moreover have "table_map l u (table_id t) =
      (\<lambda>k. if fst k = page_id p then page_rows p (snd k) else table_map l fs (table_id t) k)"
    by (auto simp: table_map_def u(4) page_image_rows(2) [OF p(1)] fun_eq_iff)
  ultimately show ?thesis using u by blast
qed

lemma update_map_page:
  assumes "fsm_inv l t f fs" and "table_ok l fs (table_id t)" and "page_wf p"
    and "file_pages l fs (TableStorage (table_id t)) (page_id p) \<noteq> None"
  shows "\<exists>u. fsm_update file_store f p fs = (Inr (), u) \<and> fsm_inv l t f u \<and> table_ok l u (table_id t) \<and>
    file_count l u (TableStorage (table_id t)) = file_count l fs (TableStorage (table_id t)) \<and>
    file_pages l u (TableStorage (table_id t)) = file_pages l fs (TableStorage (table_id t)) \<and>
    table_map l u (table_id t) = table_map l fs (table_id t) \<and>
    1 \<le> file_count l u (fsm_access t) \<and> (i32_val (page_id p) = 1 \<longrightarrow> root_view l t u ! 0 = page_category f p)"
proof -
  from fsm_inv_update [OF assms(1,3,4)] obtain u where
    u: "fsm_update file_store f p fs = (Inr (), u)" "fsm_inv l t f u"
      "file_count l u (TableStorage (table_id t)) = file_count l fs (TableStorage (table_id t))"
      "file_pages l u (TableStorage (table_id t)) = file_pages l fs (TableStorage (table_id t))"
      "1 \<le> file_count l u (fsm_access t)" "i32_val (page_id p) = 1 \<longrightarrow> root_view l t u ! 0 = page_category f p"
    by blast
  note sp = same_pages [OF u(3,4) fsm_inv_table [OF u(2)]]
  show ?thesis using u sp(1) [OF assms(2)] sp(2) by blast
qed

section \<open>Steps on the files\<close>

definition stored_row :: "table_schema \<Rightarrow> byte list \<Rightarrow> bool" where
  "stored_row s bs \<longleftrightarrow> (\<exists>row. row_fits row s \<and> row_strings_ok row \<and> bs = row_serialize row)"

lemma rows_inv_write:
  assumes inv: "rows_inv D l t f fs" and p0: "file_pages l fs (TableStorage (table_id t)) (page_id p) = Some p0"
    and p: "page_wf p" "layout p = l"
    and rows: "\<And>i bs. page_rows p i = Some bs \<Longrightarrow> page_rows p0 i = Some bs \<or> stored_row (schema t) bs"
    and del: "\<And>s. s \<in> set (slots p) \<Longrightarrow> slot_deleted s \<Longrightarrow>
      s \<in> set (slots p0) \<or> D s"
  shows "\<exists>u. st_write_page file_store l p (TableStorage (table_id t)) fs = (Inr (), u) \<and> rows_inv D l t f u \<and>
    file_count l u (TableStorage (table_id t)) = file_count l fs (TableStorage (table_id t)) \<and>
    file_pages l u (TableStorage (table_id t)) =
      (file_pages l fs (TableStorage (table_id t)))(page_id p \<mapsto> page_image p) \<and>
    table_map l u (table_id t) =
      (\<lambda>k. if fst k = page_id p then page_rows p (snd k) else table_map l fs (table_id t) k)"
proof -
  let ?tab = "TableStorage (table_id t)"
  have old: "file_pages l fs ?tab (page_id p) \<noteq> None" using p0 by simp
  from write_table_page [OF rows_invD(1,2) [OF inv] old p] obtain u where
    u: "st_write_page file_store l p ?tab fs = (Inr (), u)" "fsm_inv l t f u" "table_ok l u (table_id t)"
      "file_count l u ?tab = file_count l fs ?tab"
      "file_pages l u ?tab = (file_pages l fs ?tab)(page_id p \<mapsto> page_image p)"
      "table_map l u (table_id t) =
         (\<lambda>k. if fst k = page_id p then page_rows p (snd k) else table_map l fs (table_id t) k)"
    by blast
  have "stored_row (schema t) bs" if "table_map l u (table_id t) k = Some bs" for k bs
  proof (cases "fst k = page_id p")
    case True
    then have "page_rows p (snd k) = Some bs" using that u(6) by simp
    then show ?thesis
      using rows [of "snd k" bs] rows_invD(3) [OF inv, of k bs] True p0
      by (auto simp: table_map_def stored_row_def)
  next
    case False
    then show ?thesis using that u(6) rows_invD(3) [OF inv, of k bs] by (simp add: stored_row_def)
  qed
  moreover have "D s"
    if "file_pages l u ?tab i = Some q" "s \<in> set (slots q)" "slot_deleted s" for i q s
  proof (cases "i = page_id p")
    case True
    then have "s \<in> set (slots p)" using that(1,2) by (auto simp: u(5) page_image_def)
    then show ?thesis using del [of s] that(3) rows_invD(4) [OF inv p0, of s] by blast
  next
    case False
    then show ?thesis using that rows_invD(4) [OF inv, of i q s] by (simp add: u(5))
  qed
  ultimately have "rows_inv D l t f u"
    unfolding rows_inv_def using u(2,3) by (auto simp: stored_row_def)
  then show ?thesis using u by blast
qed

lemma rows_inv_update:
  assumes inv: "rows_inv D l t f fs" and p: "page_wf p"
    and old: "file_pages l fs (TableStorage (table_id t)) (page_id p) \<noteq> None"
  shows "\<exists>u. fsm_update file_store f p fs = (Inr (), u) \<and> rows_inv D l t f u \<and>
    file_count l u (TableStorage (table_id t)) = file_count l fs (TableStorage (table_id t)) \<and>
    file_pages l u (TableStorage (table_id t)) = file_pages l fs (TableStorage (table_id t)) \<and>
    table_map l u (table_id t) = table_map l fs (table_id t) \<and>
    1 \<le> file_count l u (fsm_access t) \<and> (i32_val (page_id p) = 1 \<longrightarrow> root_view l t u ! 0 = page_category f p)"
proof -
  from update_map_page [OF rows_invD(1,2) [OF inv] p old] obtain u where
    u: "fsm_update file_store f p fs = (Inr (), u)" "fsm_inv l t f u" "table_ok l u (table_id t)"
      "file_count l u (TableStorage (table_id t)) = file_count l fs (TableStorage (table_id t))"
      "file_pages l u (TableStorage (table_id t)) = file_pages l fs (TableStorage (table_id t))"
      "table_map l u (table_id t) = table_map l fs (table_id t)"
      "1 \<le> file_count l u (fsm_access t)" "i32_val (page_id p) = 1 \<longrightarrow> root_view l t u ! 0 = page_category f p"
    by blast
  moreover have "rows_inv D l t f u"
    using inv u(2,3) unfolding rows_inv_def u(5,6) by blast
  ultimately show ?thesis by blast
qed

lemmas table_inv_write = rows_inv_write [where D = "\<lambda>s. fixed_size (schema t) \<and> unat (record_length s) = fixed_len (schema t)" and t = t for t, folded table_inv_def]
lemmas table_inv_update = rows_inv_update [where D = "\<lambda>s. fixed_size (schema t) \<and> unat (record_length s) = fixed_len (schema t)" and t = t for t, folded table_inv_def]

text \<open>
  The page that an insertion works on: a page of the table, or a new one, and that only when the root
  of the map records no large enough category.
\<close>

definition page_given :: "page_data_layout \<Rightarrow> table \<Rightarrow> fsm \<Rightarrow> nat \<Rightarrow> files \<Rightarrow> page \<Rightarrow> nat \<Rightarrow> bool" where
  "page_given l t f n fs p n_pages \<longleftrightarrow>
     (let tab = TableStorage (table_id t) in
      (n_pages = file_count l fs tab \<and> file_pages l fs tab (page_id p) = Some p) \<or>
      (n_pages = file_count l fs tab + 1 \<and> p = set_page_id (usize_as_i32 n_pages) (page_new l) \<and>
       (1 \<le> file_count l fs (fsm_access t) \<longrightarrow>
          (\<forall>j < fsm_slots f. root_view l t fs ! j < space_needed_to_category f n))))"

lemma page_given_page: "page_given l t f n fs p n_pages \<Longrightarrow>
  file_pages l fs (TableStorage (table_id t)) (page_id p) = Some p \<or> p = set_page_id (page_id p) (page_new l)"
  by (auto simp: page_given_def Let_def set_page_id_def)

lemma rows_inv_found:
  assumes inv: "rows_inv D l t f fs" and room: "file_count l fs (TableStorage (table_id t)) + 2 < 2 ^ 31"
  shows "\<exists>p u. find_available_page file_store f n fs = (Inr p, u) \<and> rows_inv D l t f u \<and>
    table_map l u (table_id t) = table_map l fs (table_id t) \<and>
    file_pages l u (TableStorage (table_id t)) = (file_pages l fs (TableStorage (table_id t)))(page_id p \<mapsto> p) \<and>
    page_wf p \<and> layout p = l \<and>
    page_given l t f n fs p (file_count l u (TableStorage (table_id t)))"
proof -
  let ?tab = "TableStorage (table_id t)"
  note I = rows_invD [OF inv]
  obtain p u where find: "find_available_page file_store f n fs = (Inr p, u)" "fsm_inv l t f u"
    "1 \<le> file_count l fs (fsm_access t) \<longrightarrow> root_view l t u = root_view l t fs"
    "if file_count l u ?tab = file_count l fs ?tab
     then \<exists>g. file_pages l fs ?tab g = Some p \<and> file_pages l u ?tab = file_pages l fs ?tab \<and>
       recorded f (file_count l u (fsm_access t)) (map_view l (file_pages l u (fsm_access t)))
         (space_needed_to_category f n) g
     else file_count l u ?tab = file_count l fs ?tab + 1 \<and>
       p = set_page_id (usize_as_i32 (file_count l fs ?tab + 1)) (page_new l) \<and>
       file_pages l u ?tab = (file_pages l fs ?tab)(page_id p \<mapsto> p) \<and>
       (\<forall>j < fsm_slots f. map_view l (file_pages l u (fsm_access t)) (i32_of_int 1) ! j < space_needed_to_category f n)"
    using fsm_inv_find_pages [OF I(1) room, of n] by blast
  have u: "find_available_page file_store f n fs = (Inr p, u)" "fsm_inv l t f u"
    "if file_count l u ?tab = file_count l fs ?tab
     then \<exists>g. file_pages l fs ?tab g = Some p \<and> file_pages l u ?tab = file_pages l fs ?tab
     else file_count l u ?tab = file_count l fs ?tab + 1 \<and>
       p = set_page_id (usize_as_i32 (file_count l fs ?tab + 1)) (page_new l) \<and>
       file_pages l u ?tab = (file_pages l fs ?tab)(page_id p \<mapsto> p)"
    using find(1,2,4) by (auto split: if_splits)
  have full: "\<forall>j < fsm_slots f. root_view l t fs ! j < space_needed_to_category f n"
    if "file_count l u ?tab \<noteq> file_count l fs ?tab" "1 \<le> file_count l fs (fsm_access t)"
    using find(3,4) that by (auto simp: root_view_def)
  show ?thesis
  proof (cases "file_count l u ?tab = file_count l fs ?tab")
    case True
    then obtain g where g: "file_pages l fs ?tab g = Some p" "file_pages l u ?tab = file_pages l fs ?tab"
      using u(3) by auto
    note pg = table_pageD [OF I(2) g(1)] and sp = same_pages [OF True g(2) fsm_inv_table [OF u(2)]]
    have "rows_inv D l t f u"
      using inv u(2) sp(1) [OF I(2)] unfolding rows_inv_def sp(2) g(2) by blast
    moreover have "file_pages l u ?tab = (file_pages l fs ?tab)(page_id p \<mapsto> p)"
      using g pg(2) by (simp add: fun_upd_idem)
    moreover have "page_given l t f n fs p (file_count l u ?tab)"
      using True g(1) pg(2) by (simp add: page_given_def Let_def)
    ultimately show ?thesis using u(1) pg sp(2) by (intro exI [of _ p] exI [of _ u]) simp
  next
    case False
    let ?m = "file_count l fs ?tab + 1"
    have new: "file_count l u ?tab = ?m" "p = set_page_id (usize_as_i32 ?m) (page_new l)"
      "file_pages l u ?tab = (file_pages l fs ?tab)(page_id p \<mapsto> p)"
      using u(3) False by auto
    have lay: "layout_ok l" using fsm_inv_table [OF u(2)] by (rule file_okD)
    have p: "page_wf p" "layout p = l" "page_id p = usize_as_i32 ?m" "slots p = []"
      using empty_page [OF lay] by (simp_all add: new(2)) (simp_all add: set_page_id_def page_new_def)
    have empty: "page_rows p i = None" for i
      using page_rows_range [of p i] p(4) by (cases "page_rows p i") auto
    have none: "file_pages l fs ?tab (page_id p) = None"
      using fstore.pages_dom [OF fsm_inv_table [OF I(1)], of "page_id p"] p(3) room
      by (cases "file_pages l fs ?tab (page_id p)") auto
    have at: "page_at l u (table_id t) i = (if i = ?m then p else page_at l fs (table_id t) i)" if "i \<le> ?m" for i
      using that room by (auto simp: page_at_def new(3) p(3) i32_eq_iff)
    have "table_ok l u (table_id t)"
      using I(2) fsm_inv_table [OF u(2)] at p room
      by (auto simp: table_ok_def new(1,3) i32_eq_iff le_Suc_eq)
    moreover have map: "table_map l u (table_id t) = table_map l fs (table_id t)"
      using none by (auto simp: table_map_def new(3) empty fun_eq_iff)
    moreover have "D s"
      if "file_pages l u ?tab i = Some q" "s \<in> set (slots q)" "slot_deleted s" for i q s
      using that I(4) [of i q s] p(4) by (auto simp: new(3) split: if_splits)
    ultimately have "rows_inv D l t f u"
      using u(2) inv unfolding rows_inv_def map by blast
    moreover have "page_given l t f n fs p (file_count l u ?tab)"
      using full False new(1,2) by (simp add: page_given_def Let_def)
    ultimately show ?thesis
      using u(1) new(3) p(1-3) map by (intro exI [of _ p] exI [of _ u]) simp
  qed
qed

lemmas table_inv_found = rows_inv_found [where D = "\<lambda>s. fixed_size (schema t) \<and> unat (record_length s) = fixed_len (schema t)" and t = t for t, folded table_inv_def]

section \<open>Insertion\<close>

lemma ta_new_simps [simp]:
  "ta_table (ta_new t l) = t" "ta_layout (ta_new t l) = l" "ta_indexes (ta_new t l) = []"
  "ta_storage (ta_new t l) = TableStorage (table_id t)"
  "column_index_to_btree_pointer_map (ta_new t l) = Inr []"
  by (simp_all add: ta_new_def ta_storage_def column_index_to_btree_pointer_map_def)

lemma ta_fsm_new: "fsm_inv l t f fs \<Longrightarrow> ta_fsm (ta_new t l) = Inr f"
  by (simp add: ta_fsm_def fsm_inv_def Let_def fsm_of_def)

lemma update_index_none [simp]: "update_index S E ta pid slot_id [] w = (Inr (), w)"
  by (simp add: update_index_def)

lemma io_bind_at_store:
  "m (w_store w) = (Inr x, s) \<Longrightarrow> io_bind (at_store g m) k w = k x (w\<lparr>w_store := s\<rparr>)"
  by (simp add: at_store_def io_bind_def)

text \<open>What an insertion does to a table: it adds one row, or fails and adds none.\<close>

definition insert_refused :: "page \<Rightarrow> byte list \<Rightarrow> table_access_error fault \<Rightarrow> bool" where
  "insert_refused p dat e \<longleftrightarrow>
     e = Err (InsertRowError FsmPageTooSmall) \<and> can_insert p dat = Inr False \<or>
     e = Panic \<and> unat (number_of_records p) = 2 ^ 16 - 1"

text \<open>The map gives out a page, an existing one of the table or a new one, and that page refuses the row.\<close>

definition refused_row :: "page_data_layout \<Rightarrow> table \<Rightarrow> fsm \<Rightarrow> files \<Rightarrow> byte list \<Rightarrow> table_access_error fault \<Rightarrow> bool" where
  "refused_row l t f fs dat e \<longleftrightarrow>
     (\<exists>p u. find_available_page file_store f (length dat) fs = (Inr p, u) \<and>
       (file_pages l fs (TableStorage (table_id t)) (page_id p) = Some p \<or> p = set_page_id (page_id p) (page_new l)) \<and>
       insert_refused p dat e)"

definition insert_outcome ::
  "page_data_layout \<Rightarrow> table \<Rightarrow> fsm \<Rightarrow> files \<Rightarrow> byte list \<Rightarrow> (i32 \<times> nat, table_access_error) result \<Rightarrow> files \<Rightarrow> bool" where
  "insert_outcome l t f fs dat r u \<longleftrightarrow>
     (case r of
        Inr k \<Rightarrow> table_map l fs (table_id t) k = None \<and>
          table_map l u (table_id t) = (table_map l fs (table_id t))(k \<mapsto> dat)
      | Inl e \<Rightarrow> table_map l u (table_id t) = table_map l fs (table_id t) \<and>
          refused_row l t f fs dat e)"

text \<open>The pages that an insertion changes.\<close>

definition insert_trace ::
  "page_data_layout \<Rightarrow> table \<Rightarrow> fsm \<Rightarrow> files \<Rightarrow> byte list \<Rightarrow> (i32 \<times> nat, table_access_error) result \<Rightarrow> files \<Rightarrow> bool" where
  "insert_trace l t f fs dat r u \<longleftrightarrow>
     (let tab = TableStorage (table_id t) in
      \<exists>p. (\<exists>v. find_available_page file_store f (length dat) fs = (Inr p, v)) \<and>
       page_given l t f (length dat) fs p (file_count l u tab) \<and> page_wf p \<and> layout p = l \<and>
       (case r of
          Inl e \<Rightarrow> insert_refused p dat e
        | Inr (pid, i) \<Rightarrow> \<exists>q. insert_record p dat = Inr (i, q) \<and> pid = page_id p \<and>
            file_pages l u tab = (file_pages l fs tab)(pid \<mapsto> page_image q) \<and>
            1 \<le> file_count l u (fsm_access t) \<and>
            (i32_val pid = 1 \<longrightarrow> root_view l t u ! 0 = page_category f q)))"

definition no_longer_slot :: "page_data_layout \<Rightarrow> table \<Rightarrow> files \<Rightarrow> nat \<Rightarrow> bool" where
  "no_longer_slot l t fs n \<longleftrightarrow>
     (\<forall>i p. file_pages l fs (TableStorage (table_id t)) i = Some p \<longrightarrow> short_slots p n)"

lemma no_longer_slotD:
  assumes "no_longer_slot l t fs n"
    and "file_pages l fs (TableStorage (table_id t)) i = Some p \<or> p = set_page_id j (page_new l)"
  shows "short_slots p n"
  using assms by (auto simp: no_longer_slot_def short_slots_def set_page_id_def page_new_def)

lemma table_inv_slots:
  assumes "table_inv l t f fs" and "row_fits row (schema t)"
  shows "no_longer_slot l t fs (length (row_serialize row))"
  using table_invD(4) [OF assms(1)] fixed_size_length [OF assms(2)]
  by (fastforce simp: no_longer_slot_def short_slots_def)

lemma insert_refused_fails:
  assumes "page_wf p" and "dat \<noteq> []" and "insert_refused p dat e"
  shows "insert_record p dat \<noteq> Inr x"
proof (cases "can_insert p dat = Inr True")
  case True
  then show ?thesis using insert_record_counter [OF assms(1,2) True] assms(3) by (auto simp: insert_refused_def)
next
  case False
  then show ?thesis using can_insert_eq [OF assms(1)] by (auto simp: insert_record_def)
qed

text \<open>The page is determined by the state, so a row that was stored was not refused.\<close>

lemma stored_not_refused:
  assumes "insert_trace l t f fs dat (Inr k) u" and "dat \<noteq> []"
  shows "\<not> refused_row l t f fs dat e"
  using assms insert_refused_fails
  by (cases k) (auto simp: insert_trace_def refused_row_def Let_def)

lemma raw_insert_effect:
  assumes inv: "rows_inv D l t f (w_store w)"
    and room: "file_count l (w_store w) (TableStorage (table_id t)) + 2 < 2 ^ 31"
    and row: "row_fits row (schema t)" "row_strings_ok row" "columns (schema t) \<noteq> []"
    and short: "no_longer_slot l t (w_store w) (length (row_serialize row))"
    and hook: "\<And>k w. hook k w = (Inr (), w)"
  shows "\<exists>r u. raw_insert file_store (ta_new t l) (row_serialize row) hook w = (r, w\<lparr>w_store := u\<rparr>) \<and>
    rows_inv D l t f u \<and> insert_outcome l t f (w_store w) (row_serialize row) r u \<and>
    insert_trace l t f (w_store w) (row_serialize row) r u"
proof -
  let ?tab = "TableStorage (table_id t)" and ?dat = "row_serialize row"
  have ne: "?dat \<noteq> []" by (rule row_serialize_nonempty [OF row(1,3)])
  have fsm: "ta_fsm (ta_new t l) = Inr f" by (rule ta_fsm_new [OF rows_invD(1) [OF inv]])
  obtain p u1 where p: "find_available_page file_store f (length ?dat) (w_store w) = (Inr p, u1)"
    "rows_inv D l t f u1" "table_map l u1 (table_id t) = table_map l (w_store w) (table_id t)"
    "file_pages l u1 ?tab = (file_pages l (w_store w) ?tab)(page_id p \<mapsto> p)" "page_wf p" "layout p = l"
    "page_given l t f (length ?dat) (w_store w) p (file_count l u1 ?tab)"
    using rows_inv_found [OF inv room, of "length ?dat"] by blast
  have at: "file_pages l u1 ?tab (page_id p) = Some p" by (simp add: p(4))
  note given = page_given_page [OF p(7)]
  have refused: "refused_row l t f (w_store w) ?dat e" if "insert_refused p ?dat e" for e
    unfolding refused_row_def using p(1) given that by blast
  obtain b where b: "can_insert p ?dat = Inr b"
    using can_insert_eq [OF p(5)] by blast
  let ?w1 = "w\<lparr>w_store := u1\<rparr>"
  have run: "raw_insert file_store (ta_new t l) ?dat hook w =
     (if \<not> b then io_fail (InsertRowError FsmPageTooSmall) else
       io_bind (io_lift (map_err TaPage (insert_record p ?dat))) (\<lambda>(slot_id, p).
       io_bind (hook (page_id p, slot_id)) (\<lambda>_.
       io_bind (at_store (InsertRowError \<circ> InsertCannotWrite) (st_write_page file_store l p ?tab)) (\<lambda>_.
       io_bind (at_store TaFsm (fsm_update file_store f p)) (\<lambda>_.
       io_ret (page_id p, slot_id)))))) ?w1"
    by (simp add: raw_insert_def fsm io_bind_at_store p(1) b)
  show ?thesis
  proof (cases b)
    case False
    then show ?thesis
      using run p(1-3,5-7) b refused [of "Err (InsertRowError FsmPageTooSmall)"] by (intro exI [of _ "Inl (Err (InsertRowError FsmPageTooSmall))"] exI [of _ u1])
        (auto simp: insert_outcome_def insert_refused_def insert_trace_def Let_def)
  next
    case True
    then have "can_insert p ?dat = Inr True" using b by simp
    note cnt = insert_record_counter [OF p(5) ne this]
    show ?thesis
    proof (cases "unat (number_of_records p) < 2 ^ 16 - 1")
      case False
      then have "insert_record p ?dat = Inl Panic" using cnt by simp
      moreover have "unat (number_of_records p) = 2 ^ 16 - 1"
        using False unat_lt_2p [of "number_of_records p"] by simp
      ultimately show ?thesis
        using run True p(1-3,5-7) refused [of Panic] by (intro exI [of _ "Inl Panic"] exI [of _ u1])
          (auto simp: insert_outcome_def insert_refused_def insert_trace_def Let_def)
    next
      case less: True
      then obtain i q where q: "insert_record p ?dat = Inr (i, q)" using cnt by auto
      have "short_slots p (length ?dat)"
        by (rule no_longer_slotD [OF short given])
      note ins = insert_uniform [OF p(5) q ne this]
      have old: "file_pages l u1 ?tab (page_id q) = Some p" using ins(4) at by simp
      have lq: "layout q = l" using ins(5) p(6) by simp
      have sto: "page_rows q j = Some bs \<Longrightarrow> page_rows p j = Some bs \<or> stored_row (schema t) bs" for j bs
        using row by (auto simp: ins(3) stored_row_def split: if_splits)
      obtain u2 where u2: "st_write_page file_store l q ?tab u1 = (Inr (), u2)" "rows_inv D l t f u2"
        "file_count l u2 ?tab = file_count l u1 ?tab"
        "file_pages l u2 ?tab = (file_pages l u1 ?tab)(page_id q \<mapsto> page_image q)"
        "table_map l u2 (table_id t) =
          (\<lambda>k. if fst k = page_id q then page_rows q (snd k) else table_map l u1 (table_id t) k)"
        using rows_inv_write [OF p(2) old ins(1) lq sto] ins(6) by blast
      have "file_pages l u2 ?tab (page_id q) \<noteq> None" by (simp add: u2(4))
      then obtain u3 where u3: "fsm_update file_store f q u2 = (Inr (), u3)" "rows_inv D l t f u3"
        "table_map l u3 (table_id t) = table_map l u2 (table_id t)"
        "file_count l u3 ?tab = file_count l u2 ?tab" "file_pages l u3 ?tab = file_pages l u2 ?tab"
        "1 \<le> file_count l u3 (fsm_access t)" "i32_val (page_id q) = 1 \<longrightarrow> root_view l t u3 ! 0 = page_category f q"
        using rows_inv_update [OF u2(2) ins(1)] by blast
      have "table_map l (w_store w) (table_id t) (page_id q, i) = None"
        using ins(2,4) p(3) at by (simp add: table_map_def flip: p(3))
      moreover have "table_map l u2 (table_id t) = (table_map l (w_store w) (table_id t))((page_id q, i) \<mapsto> ?dat)"
        unfolding u2(5) p(3) [symmetric] using at ins(3,4)
        by (auto simp: table_map_def fun_eq_iff)
      moreover have tr: "insert_trace l t f (w_store w) ?dat (Inr (page_id q, i)) u3"
        using p(1,4-7) q u2(3,4) u3(4-7) ins(4) by (auto simp: insert_trace_def Let_def)
      moreover have "raw_insert file_store (ta_new t l) ?dat hook w = (Inr (page_id q, i), w\<lparr>w_store := u3\<rparr>)"
        using run True q u2(1) u3(1) by (simp add: io_bind_at_store io_bind_Inr hook)
      ultimately show ?thesis
        using u3(2,3) tr by (intro exI [of _ "Inr (page_id q, i)"] exI [of _ u3]) (simp add: insert_outcome_def)
    qed
  qed
qed

lemma ta_insert_rows:
  assumes inv: "rows_inv D l t f (w_store w)"
    and room: "file_count l (w_store w) (TableStorage (table_id t)) + 2 < 2 ^ 31"
    and row: "row_strings_ok row" "columns (schema t) \<noteq> []"
    and short: "row_fits row (schema t) \<Longrightarrow> no_longer_slot l t (w_store w) (length (row_serialize row))"
  shows "\<exists>r u n. ta_insert file_store E (ta_new t l) row w = (r, w\<lparr>w_store := u, w_ticks := n\<rparr>) \<and> rows_inv D l t f u \<and>
    (if row_fits row (schema t)
     then \<exists>r'. insert_outcome l t f (w_store w) (row_serialize row) r' u \<and>
       insert_trace l t f (w_store w) (row_serialize row) r' u \<and> r = and_then r' (\<lambda>_. Inr ())
     else \<exists>e. r = Inl (Err (InsertRowError (RowInvalid e))) \<and> u = w_store w)"
proof (cases "row_fits row (schema t)")
  case False
  then obtain e where "row_validate row (schema t) = Inl e"
    using row_validate_iff [of row "schema t"] by (cases "row_validate row (schema t)") auto
  moreover have "e \<noteq> Panic"
    using \<open>row_validate row (schema t) = Inl e\<close>
    by (auto simp: row_validate_def validate_cells_first split: if_splits option.splits)
  ultimately obtain e' where "row_validate row (schema t) = Inl (Err e')" by (cases e) auto
  then show ?thesis
    using False inv by (intro exI [of _ "Inl (Err (InsertRowError (RowInvalid e')))"] exI [of _ "w_store w"] exI [of _ "w_ticks w"])
      (simp add: ta_insert_def io_bind_def)
next
  case True
  then have val: "row_validate row (schema t) = Inr ()" by (simp add: row_validate_iff)
  let ?w = "w\<lparr>w_ticks := w_ticks w + 1\<rparr>"
  obtain r u where u: "raw_insert file_store (ta_new t l) (row_serialize row) (\<lambda>(pid, slot_id). update_index file_store E (ta_new t l) pid slot_id []) ?w =
      (r, ?w\<lparr>w_store := u\<rparr>)" "rows_inv D l t f u" "insert_outcome l t f (w_store w) (row_serialize row) r u"
    "insert_trace l t f (w_store w) (row_serialize row) r u"
    using raw_insert_effect [of D l t f ?w row "\<lambda>(pid, slot_id). update_index file_store E (ta_new t l) pid slot_id []"]
      inv room True row short by auto
  have "ta_insert file_store E (ta_new t l) row w = (and_then r (\<lambda>_. Inr ()), ?w\<lparr>w_store := u\<rparr>)"
    using u(1) by (cases r) (simp_all add: ta_insert_def val next_order_def hash_iter_def io_bind_def)
  then show ?thesis
    using u(2-4) True by (intro exI [of _ "and_then r (\<lambda>_. Inr ())"] exI [of _ u] exI [of _ "w_ticks w + 1"]) auto
qed

lemma ta_insert_effect:
  assumes inv: "table_inv l t f (w_store w)"
    and room: "file_count l (w_store w) (TableStorage (table_id t)) + 2 < 2 ^ 31"
    and row: "row_strings_ok row" "columns (schema t) \<noteq> []"
  shows "\<exists>r u n. ta_insert file_store E (ta_new t l) row w = (r, w\<lparr>w_store := u, w_ticks := n\<rparr>) \<and> table_inv l t f u \<and>
    (if row_fits row (schema t)
     then \<exists>r'. insert_outcome l t f (w_store w) (row_serialize row) r' u \<and>
       insert_trace l t f (w_store w) (row_serialize row) r' u \<and> r = and_then r' (\<lambda>_. Inr ())
     else \<exists>e. r = Inl (Err (InsertRowError (RowInvalid e))) \<and> u = w_store w)"
  using ta_insert_rows [OF inv [unfolded table_inv_def] room row table_inv_slots [OF inv], of E]
  unfolding table_inv_def .

end
