(* ===== verification/Table_Delete.thy ===== *)
theory Table_Delete
  imports Table_Changes
begin

text \<open>
  What a deletion does to the rows of a table without indexes: exactly the rows that the query found
  are gone, in whatever order the hash map of the pages is iterated.
\<close>

section \<open>Deletion\<close>

lemma page_rows_length:
  assumes "page_wf p" and "page_rows p i = Some bs"
  shows "i < length (slots p)" "\<not> slot_deleted (slots p ! i)" "length bs = unat (record_length (slots p ! i))"
proof -
  have reg: "regions_ok p" using assms(1) by (rule page_wfD)
  show i: "i < length (slots p)" "\<not> slot_deleted (slots p ! i)"
    using assms(2) by (auto simp: page_rows_eq [OF reg] split: if_splits)
  show "length bs = unat (record_length (slots p ! i))"
    using assms(2) i regions_okD(1) [OF reg] regions_okD(4) [OF reg i(1)] by (auto simp: page_rows_eq [OF reg])
qed

lemma delete_record_frame:
  "page_id (snd (delete_record p i)) = page_id p" "layout (snd (delete_record p i)) = layout p"
  "s \<in> set (slots (snd (delete_record p i))) \<Longrightarrow>
     s \<in> set (slots p) \<or> i < length (slots p) \<and> s = (slots p ! i)\<lparr>slot_deleted := True\<rparr>"
  using set_update_subset_insert [of "slots p" i "(slots p ! i)\<lparr>slot_deleted := True\<rparr>"]
  by (cases "i < length (slots p)"; auto simp: delete_record_def)+

text \<open>The deleted slots may have the length of any row of the table.\<close>

definition deletable :: "(slot \<Rightarrow> bool) \<Rightarrow> table_schema \<Rightarrow> bool" where
  "deletable D s \<longleftrightarrow> (\<forall>bs sl. stored_row s bs \<and> unat (record_length sl) = length bs \<longrightarrow> D sl)"

lemma deletable_any: "deletable (\<lambda>_. True) s"
  by (simp add: deletable_def)

lemma deletable_fixed:
  assumes "fixed_size s"
  shows "deletable (\<lambda>sl. fixed_size s \<and> unat (record_length sl) = fixed_len s) s"
  using assms fixed_size_length by (auto simp: deletable_def stored_row_def)

lemma delete_one_effect:
  assumes inv: "rows_inv D l t f (w_store w)" and fixed: "deletable D (schema t)"
    and p: "file_pages l (w_store w) (TableStorage (table_id t)) pid \<noteq> None"
  shows "\<exists>u. delete_one file_store E (ta_new t l) f pid (r, []) w = (Inr (), w\<lparr>w_store := u\<rparr>) \<and> rows_inv D l t f u \<and>
    dom (file_pages l u (TableStorage (table_id t))) = dom (file_pages l (w_store w) (TableStorage (table_id t))) \<and>
    table_map l u (table_id t) = (table_map l (w_store w) (table_id t))((pid, record_index r) := None)"
proof -
  let ?tab = "TableStorage (table_id t)" and ?i = "record_index r"
  obtain p where p: "file_pages l (w_store w) ?tab pid = Some p" using p by blast
  let ?q = "snd (delete_record p ?i)"
  note I = rows_invD [OF inv] and pg = table_pageD [OF rows_invD(2) [OF inv] p]
  have read: "st_read_page file_store l pid ?tab (w_store w) = Inr p"
    by (rule fstore.read_law [OF fsm_inv_table [OF I(1)] p])
  note del = delete_wf_rows [OF pg(1), of ?i] and frame = delete_record_frame [where p = p and i = ?i]
  have old: "file_pages l (w_store w) ?tab (page_id ?q) = Some p" using p pg(2) frame(1) by simp
  have slot: "D ((slots p ! ?i)\<lparr>slot_deleted := True\<rparr>)" if "?i < length (slots p)"
  proof (cases "page_rows p ?i")
    case None
    then have "slot_deleted (slots p ! ?i)"
      using that by (simp add: page_rows_eq [OF page_wfD(2) [OF pg(1)]] split: if_splits)
    moreover from this have "(slots p ! ?i)\<lparr>slot_deleted := True\<rparr> = slots p ! ?i" by simp
    ultimately show ?thesis using I(4) [OF p nth_mem [OF that]] by metis
  next
    case (Some bs)
    then have "table_map l (w_store w) (table_id t) (pid, ?i) = Some bs" by (simp add: table_map_def p)
    then have "stored_row (schema t) bs" using I(3) by (simp add: stored_row_def)
    moreover have "unat (record_length ((slots p ! ?i)\<lparr>slot_deleted := True\<rparr>)) = length bs"
      using page_rows_length(3) [OF pg(1) Some] by simp
    ultimately show ?thesis using fixed unfolding deletable_def by blast
  qed
  have wf: "page_wf ?q" "page_rows ?q = (page_rows p)(?i := None)" "layout ?q = l"
    using del frame(2) pg(3) by simp_all
  have rows: "page_rows ?q j = Some bs \<Longrightarrow> page_rows p j = Some bs \<or> stored_row (schema t) bs" for j bs
    by (simp add: wf(2) split: if_splits)
  have slots: "s \<in> set (slots p) \<or> D s" if "s \<in> set (slots ?q)" for s
    using frame(3) [OF that] slot by auto
  obtain u1 where u1: "st_write_page file_store l ?q ?tab (w_store w) = (Inr (), u1)" "rows_inv D l t f u1"
    "file_pages l u1 ?tab = (file_pages l (w_store w) ?tab)(page_id ?q \<mapsto> page_image ?q)"
    "table_map l u1 (table_id t) =
       (\<lambda>k. if fst k = page_id ?q then page_rows ?q (snd k) else table_map l (w_store w) (table_id t) k)"
    using rows_inv_write [OF inv old wf(1,3) rows slots] by blast
  have "file_pages l u1 ?tab (page_id ?q) \<noteq> None" by (simp add: u1(3))
  then obtain u2 where u2: "fsm_update file_store f ?q u1 = (Inr (), u2)" "rows_inv D l t f u2"
    "file_pages l u2 ?tab = file_pages l u1 ?tab" "table_map l u2 (table_id t) = table_map l u1 (table_id t)"
    using rows_inv_update [OF u1(2) wf(1)] by blast
  have "delete_one file_store E (ta_new t l) f pid (r, []) w = (Inr (), w\<lparr>w_store := u2\<rparr>)"
    using read u1(1) u2(1)
    by (simp add: delete_one_def io_bind_def at_store_def Let_def)
  moreover have "table_map l u2 (table_id t) = (table_map l (w_store w) (table_id t))((pid, ?i) := None)"
    unfolding u2(4) u1(4) using frame(1) pg(2) p by (auto simp: wf(2) table_map_def fun_eq_iff)
  moreover have "dom (file_pages l u2 ?tab) = dom (file_pages l (w_store w) ?tab)"
    unfolding u2(3) u1(3) using old by auto
  ultimately show ?thesis using u2(2) by blast
qed

section \<open>Grouping by page\<close>

text \<open>All pairs of a map of vectors.\<close>

definition flat :: "('k \<times> 'v list) list \<Rightarrow> ('k \<times> 'v) set" where
  "flat m = {(k, v). \<exists>vs. (k, vs) \<in> set m \<and> v \<in> set vs}"

lemma flat_entry_push: "flat (entry_push k v m) = insert (k, v) (flat m)"
  by (induction k v m rule: entry_push.induct) (auto simp: flat_def)

lemma rows_to_delete_ok:
  "\<exists>m'. rows_to_delete [] rows m = Inr m' \<and>
     flat m' = flat m \<union> {(record_page_id r, (r, [])) | r row. (r, row) \<in> set rows}"
proof (induction rows arbitrary: m)
  case (Cons x rows)
  obtain r row where x: "x = (r, row)" by (cases x)
  from Cons [of "entry_push (record_page_id r) (r, []) m"] obtain m' where
    "rows_to_delete [] rows (entry_push (record_page_id r) (r, []) m) = Inr m'"
    "flat m' = insert (record_page_id r, (r, [])) (flat m) \<union> {(record_page_id r, (r, [])) | r row. (r, row) \<in> set rows}"
    by (auto simp: flat_entry_push)
  then show ?case by (auto simp: x)
qed simp

section \<open>The loops\<close>

text \<open>The places that a list of records of one page, or a list of pages, names.\<close>

definition places :: "(i32 \<times> (record_ref \<times> 'c) list) list \<Rightarrow> (i32 \<times> nat) set" where
  "places pages = {(pid, record_index r) | pid r c. (pid, (r, c)) \<in> flat pages}"

lemma places_Cons: "places (x # pages) = places [x] \<union> places pages"
proof -
  have "flat (x # pages) = flat [x] \<union> flat pages" by (auto simp: flat_def)
  then show ?thesis unfolding places_def by blast
qed

lemma delete_page_effect:
  assumes "rows_inv D l t f (w_store w)" and "deletable D (schema t)"
    and "records \<noteq> [] \<Longrightarrow> pid \<in> dom (file_pages l (w_store w) (TableStorage (table_id t)))"
    and "\<And>r c. (r, c) \<in> set records \<Longrightarrow> c = []"
  shows "\<exists>u. for_each (delete_one file_store E (ta_new t l) f pid) records w = (Inr (), w\<lparr>w_store := u\<rparr>) \<and>
    rows_inv D l t f u \<and>
    dom (file_pages l u (TableStorage (table_id t))) = dom (file_pages l (w_store w) (TableStorage (table_id t))) \<and>
    table_map l u (table_id t) = table_map l (w_store w) (table_id t) |` (- places [(pid, records)])"
  using assms
proof (induction records arbitrary: w)
  case Nil
  then show ?case by (intro exI [of _ "w_store w"]) (simp add: places_def flat_def)
next
  case (Cons x records)
  obtain r where x: "x = (r, [])" using Cons.prems(4) by (cases x) auto
  have pid: "file_pages l (w_store w) (TableStorage (table_id t)) pid \<noteq> None" using Cons.prems(3) by auto
  obtain u where u: "delete_one file_store E (ta_new t l) f pid (r, []) w = (Inr (), w\<lparr>w_store := u\<rparr>)"
    "rows_inv D l t f u"
    "dom (file_pages l u (TableStorage (table_id t))) = dom (file_pages l (w_store w) (TableStorage (table_id t)))"
    "table_map l u (table_id t) = (table_map l (w_store w) (table_id t))((pid, record_index r) := None)"
    using delete_one_effect [OF Cons.prems(1,2) pid] by blast
  obtain v where v: "for_each (delete_one file_store E (ta_new t l) f pid) records (w\<lparr>w_store := u\<rparr>) =
      (Inr (), w\<lparr>w_store := v\<rparr>)" "rows_inv D l t f v"
    "dom (file_pages l v (TableStorage (table_id t))) = dom (file_pages l u (TableStorage (table_id t)))"
    "table_map l v (table_id t) = table_map l u (table_id t) |` (- places [(pid, records)])"
    using Cons.IH [of "w\<lparr>w_store := u\<rparr>"] u(2,3) Cons.prems by auto
  have "places [(pid, x # records)] = insert (pid, record_index r) (places [(pid, records)])"
    by (auto simp: places_def flat_def x)
  then have "table_map l v (table_id t) = table_map l (w_store w) (table_id t) |` (- places [(pid, x # records)])"
    unfolding v(4) u(4) by (auto simp: restrict_map_def fun_eq_iff)
  then show ?case
    using u(1,3) v(1-3) by (intro exI [of _ v]) (simp add: x io_bind_Inr)
qed

lemma delete_pages_effect:
  assumes "rows_inv D l t f (w_store w)" and "deletable D (schema t)"
    and "\<And>pid r c. (pid, (r, c)) \<in> flat pages \<Longrightarrow>
      pid \<in> dom (file_pages l (w_store w) (TableStorage (table_id t))) \<and> c = []"
  shows "\<exists>u. for_each (\<lambda>(pid, records). for_each (delete_one file_store E (ta_new t l) f pid) records) pages w =
      (Inr (), w\<lparr>w_store := u\<rparr>) \<and> rows_inv D l t f u \<and>
    table_map l u (table_id t) = table_map l (w_store w) (table_id t) |` (- places pages)"
  using assms
proof (induction pages arbitrary: w)
  case Nil
  then show ?case by (intro exI [of _ "w_store w"]) (simp add: places_def flat_def)
next
  case (Cons x pages)
  obtain pid records where x: "x = (pid, records)" by (cases x)
  have in_flat: "(pid, (r, c)) \<in> flat (x # pages)" if "(r, c) \<in> set records" for r c
    using that by (auto simp: flat_def x)
  have pid: "records \<noteq> [] \<Longrightarrow> pid \<in> dom (file_pages l (w_store w) (TableStorage (table_id t)))"
    using Cons.prems(3) [OF in_flat] by (cases records) auto
  have none: "(r, c) \<in> set records \<Longrightarrow> c = []" for r c
    using Cons.prems(3) [OF in_flat] by blast
  obtain u where u: "for_each (delete_one file_store E (ta_new t l) f pid) records w = (Inr (), w\<lparr>w_store := u\<rparr>)"
    "rows_inv D l t f u"
    "dom (file_pages l u (TableStorage (table_id t))) = dom (file_pages l (w_store w) (TableStorage (table_id t)))"
    "table_map l u (table_id t) = table_map l (w_store w) (table_id t) |` (- places [(pid, records)])"
    using delete_page_effect [of D l t f w records pid, OF Cons.prems(1,2)] pid none by metis
  let ?u = "w\<lparr>w_store := u\<rparr>"
  have inv_u: "rows_inv D l t f (w_store ?u)" using u(2) by simp
  have sub: "y \<in> flat pages \<Longrightarrow> y \<in> flat (x # pages)" for y by (auto simp: flat_def)
  have rest: "pid' \<in> dom (file_pages l (w_store ?u) (TableStorage (table_id t))) \<and> c = []"
    if "(pid', (r, c)) \<in> flat pages" for pid' r c
    using Cons.prems(3) [OF sub [OF that]] u(3) by simp
  have "\<exists>v. for_each (\<lambda>(pid, records). for_each (delete_one file_store E (ta_new t l) f pid) records) pages ?u =
      (Inr (), ?u\<lparr>w_store := v\<rparr>) \<and> rows_inv D l t f v \<and>
    table_map l v (table_id t) = table_map l (w_store ?u) (table_id t) |` (- places pages)"
    using inv_u Cons.prems(2) rest by (rule Cons.IH)
  then obtain v where v: "for_each (\<lambda>(pid, records). for_each (delete_one file_store E (ta_new t l) f pid) records) pages
      ?u = (Inr (), w\<lparr>w_store := v\<rparr>)" "rows_inv D l t f v"
    "table_map l v (table_id t) = table_map l u (table_id t) |` (- places pages)"
    by auto
  have "places (x # pages) = places [(pid, records)] \<union> places pages"
    unfolding x by (rule places_Cons)
  then have "table_map l v (table_id t) = table_map l (w_store w) (table_id t) |` (- places (x # pages))"
    unfolding v(3) u(4) by (auto simp: restrict_map_def fun_eq_iff)
  then show ?case
    using u(1) v(1,2) by (intro exI [of _ v]) (simp add: x io_bind_Inr)
qed

lemma ta_delete_effect:
  assumes inv: "rows_inv D l t f (w_store w)" and fixed: "deletable D (schema t)"
    and rows: "query_rows q (w_store w) = Inr rows"
    and found: "\<And>r row. (r, row) \<in> set rows \<Longrightarrow>
      table_map l (w_store w) (table_id t) (record_page_id r, record_index r) \<noteq> None"
    and order: "\<And>n. hash_order_ok (env_order E n)"
  shows "\<exists>u n. ta_delete file_store E (ta_new t l) q w = (Inr (), w\<lparr>w_store := u, w_ticks := n\<rparr>) \<and>
    rows_inv D l t f u \<and>
    table_map l u (table_id t) = table_map l (w_store w) (table_id t) |`
      (- {(record_page_id r, record_index r) | r row. (r, row) \<in> set rows})"
proof -
  let ?w1 = "w\<lparr>w_ticks := w_ticks w + 1\<rparr>" and ?w2 = "w\<lparr>w_ticks := w_ticks w + 2\<rparr>"
  let ?K = "{(record_page_id r, record_index r) | r row. (r, row) \<in> set rows}"
  note fsm = ta_fsm_new [OF rows_invD(1) [OF inv]]
  obtain m where m: "rows_to_delete [] rows [] = Inr m"
    "flat m = {(record_page_id r, (r, [])) | r row. (r, row) \<in> set rows}"
    using rows_to_delete_ok [of rows "[]"] by (auto simp: flat_def [of "[]"])
  let ?ho = "env_order E (w_ticks w + 1)"
  have flat: "flat (hash_iter ?ho m) = flat m"
    using set_hash_iter(1) [OF order, of "w_ticks w + 1" m] by (simp add: flat_def)
  have K: "places (hash_iter ?ho m) = ?K"
    unfolding places_def flat m(2) by auto
  have dom: "pid \<in> dom (file_pages l (w_store ?w2) (TableStorage (table_id t))) \<and> c = []"
    if "(pid, (r, c)) \<in> flat (hash_iter ?ho m)" for pid r c
    using that found unfolding flat m(2) by (fastforce simp: table_map_def split: option.splits)
  have inv2: "rows_inv D l t f (w_store ?w2)" using inv by simp
  obtain u where u: "for_each (\<lambda>(pid, records). for_each (delete_one file_store E (ta_new t l) f pid) records)
      (hash_iter ?ho m) ?w2 = (Inr (), ?w2\<lparr>w_store := u\<rparr>)" "rows_inv D l t f u"
    "table_map l u (table_id t) = table_map l (w_store ?w2) (table_id t) |` (- places (hash_iter ?ho m))"
    using delete_pages_effect [of D l t f ?w2 "hash_iter ?ho m", OF inv2 fixed] dom by metis
  have "ta_delete file_store E (ta_new t l) q w = (Inr (), ?w2\<lparr>w_store := u\<rparr>)"
    using u(1) rows m(1)
    by (simp add: ta_delete_def fsm next_order_def io_bind_def hash_iter_def [of _ "[]"])
  then show ?thesis
    using u(2,3) K by (intro exI [of _ u] exI [of _ "w_ticks w + 2"]) simp
qed

end
