(* ===== verification/Table_Update.thy ===== *)
theory Table_Update
  imports Table_Delete
begin

text \<open>
  What an update of columns of fixed size does to the rows of a table without indexes: the rows that
  the query found are written in place with the new cells, and no other row changes.
\<close>

section \<open>The new rows\<close>

definition new_cell :: "(nat \<times> cell) list \<Rightarrow> nat \<times> cell \<Rightarrow> cell" where
  "new_cell nv x = (case map_of nv (fst x) of None \<Rightarrow> snd x | Some c \<Rightarrow> c)"

definition set_cells :: "(nat \<times> cell) list \<Rightarrow> row \<Rightarrow> row" where
  "set_cells nv r = Row (map (new_cell nv) (enumerate 0 (cells r)))"

lemma updated_cells_ok:
  "updated_cells nv [] i cs cmd = Inr (map (new_cell nv) (enumerate i cs), cmd)"
  by (induction nv "[] :: (nat \<times> nat) list" i cs cmd rule: updated_cells.induct)
    (simp_all add: new_cell_def split: option.split)

lemma hash_insert_in: "x \<in> set (hash_insert k v m) \<Longrightarrow> x = (k, v) \<or> x \<in> set m"
  by (induction k v m rule: hash_insert.induct) (auto split: if_splits)

lemma collect_new_values_in:
  assumes "collect_new_values s updates m = Inr nv" and "(i, c) \<in> set nv"
  shows "(i, c) \<in> set m \<or> (\<exists>name. (name, c) \<in> set updates \<and> find_column_for_query_by_cell s name c = Inr i)"
  using assms
proof (induction s updates m rule: collect_new_values.induct)
  case (2 s name d updates m)
  then obtain j where j: "find_column_for_query_by_cell s name d = Inr j"
    "collect_new_values s updates (hash_insert j d m) = Inr nv"
    by (auto simp: and_then_Inr_iff)
  from "2.IH" [OF j(2) "2.prems"(2)] show ?case
    using j(1) hash_insert_in [of "(i, c)" j d m] by auto
qed simp

text \<open>The new cells have the type of their columns and no variable size.\<close>

definition new_cells_ok :: "table_schema \<Rightarrow> (nat \<times> cell) list \<Rightarrow> bool" where
  "new_cells_ok s nv \<longleftrightarrow> (\<forall>(i, c) \<in> set nv. i < length (columns s) \<and> is_of_type c (col_type (columns s ! i)) \<and>
     \<not> is_var_size (column_type_of c))"

lemma new_values_ok:
  assumes "collect_new_values s updates [] = Inr nv" and "\<forall>(name, c) \<in> set updates. \<not> is_var_size (column_type_of c)"
  shows "new_cells_ok s nv"
proof -
  have "i < length (columns s) \<and> is_of_type c (col_type (columns s ! i)) \<and> \<not> is_var_size (column_type_of c)"
    if "(i, c) \<in> set nv" for i c
  proof -
    from collect_new_values_in [OF assms(1) that] obtain name where
      "(name, c) \<in> set updates" "find_column_for_query_by_cell s name c = Inr i" by auto
    moreover from this obtain i' where "find_column_for_query s name = Inr i'" "i' = i"
      "is_of_type c (col_type (columns s ! i'))"
      by (auto simp: find_column_for_query_by_cell_def and_then_Inr_iff dest!: find_column_bound split: if_splits)
    ultimately show ?thesis using assms(2) find_column_bound by fastforce
  qed
  then show ?thesis by (auto simp: new_cells_ok_def)
qed

lemma typed_cell_fits:
  assumes "is_of_type c t" and "\<not> is_var_size (column_type_of c)"
  shows "cell_fits c t" "cell_strings_ok c" "cell_fits c' t \<Longrightarrow> length (cell_serialize c) = length (cell_serialize c')"
  using assms by (cases c; cases t; cases c'; simp add: is_of_type_def)+

lemma cells_set:
  assumes "list_all2 (\<lambda>c col. cell_fits c (col_type col)) cs cols" and "list_all cell_strings_ok cs"
    and "\<And>i c. (i, c) \<in> set nv \<Longrightarrow> k \<le> i \<Longrightarrow> i < k + length cols \<Longrightarrow>
      is_of_type c (col_type (cols ! (i - k))) \<and> \<not> is_var_size (column_type_of c)"
  shows "list_all2 (\<lambda>c col. cell_fits c (col_type col)) (map (new_cell nv) (enumerate k cs)) cols \<and>
    list_all cell_strings_ok (map (new_cell nv) (enumerate k cs)) \<and>
    length (cells_serialize (map (new_cell nv) (enumerate k cs))) = length (cells_serialize cs)"
  using assms
proof (induction cs cols arbitrary: k rule: list_all2_induct)
  case (Cons c cs col cols)
  have shift: "is_of_type d (col_type (cols ! (i - Suc k))) \<and> \<not> is_var_size (column_type_of d)"
    if "(i, d) \<in> set nv" "Suc k \<le> i" "i < Suc k + length cols" for i d
    using Cons.prems(2) [OF that(1)] that(2,3) by (simp add: nth_Cons' Suc_diff_Suc)
  have "cell_fits (new_cell nv (k, c)) (col_type col) \<and> cell_strings_ok (new_cell nv (k, c)) \<and>
      length (cell_serialize (new_cell nv (k, c))) = length (cell_serialize c)"
  proof (cases "map_of nv k")
    case None
    then show ?thesis using Cons.hyps(1) Cons.prems(1) by (simp add: new_cell_def)
  next
    case (Some d)
    then have d: "is_of_type d (col_type col)" "\<not> is_var_size (column_type_of d)"
      using Cons.prems(2) [OF map_of_SomeD [OF Some]] by simp_all
    show ?thesis
      using Some typed_cell_fits(1,2) [OF d] typed_cell_fits(3) [OF d Cons.hyps(1)] by (simp add: new_cell_def)
  qed
  then show ?case
    using Cons.IH [of "Suc k"] Cons.prems(1) shift by simp
qed simp

lemma set_cells_ok:
  assumes "row_fits r s" and "row_strings_ok r" and "new_cells_ok s nv"
  shows "row_fits (set_cells nv r) s" "row_strings_ok (set_cells nv r)"
    "length (row_serialize (set_cells nv r)) = length (row_serialize r)"
  using cells_set [of "cells r" "columns s" nv 0] assms
  by (auto simp: row_fits_def row_strings_ok_def set_cells_def row_serialize_def new_cells_ok_def)

lemma rows_to_update_ok:
  "\<exists>m'. rows_to_update nv [] rows m = Inr m' \<and>
     flat m' = flat m \<union> {(record_page_id r, (r, set_cells nv row, [])) | r row. (r, row) \<in> set rows}"
proof (induction rows arbitrary: m)
  case (Cons x rows)
  obtain r row where x: "x = (r, row)" by (cases x)
  from Cons [of "entry_push (record_page_id r) (r, set_cells nv row, []) m"] obtain m' where
    "rows_to_update nv [] rows (entry_push (record_page_id r) (r, set_cells nv row, []) m) = Inr m'"
    "flat m' = insert (record_page_id r, (r, set_cells nv row, [])) (flat m) \<union>
      {(record_page_id r, (r, set_cells nv row, [])) | r row. (r, row) \<in> set rows}"
    by (auto simp: flat_entry_push)
  then show ?case by (auto simp: x updated_cells_ok set_cells_def)
qed simp

section \<open>The loops\<close>

text \<open>A live slot of a page holds rows of one length.\<close>

definition slot_for :: "slot list \<Rightarrow> nat \<Rightarrow> nat \<Rightarrow> bool" where
  "slot_for ss i n \<longleftrightarrow> i < length ss \<and> \<not> slot_deleted (ss ! i) \<and> unat (record_length (ss ! i)) = n"

text \<open>Updates in place keep the number of pages, and of each page everything but bytes.\<close>

definition page_shape :: "page \<Rightarrow> slot list \<times> nat \<times> u16" where
  "page_shape p = (slots p, data_offset p, number_of_records p)"

definition same_slots :: "page_data_layout \<Rightarrow> page_storage \<Rightarrow> files \<Rightarrow> files \<Rightarrow> bool" where
  "same_slots l st fs u \<longleftrightarrow> file_count l u st = file_count l fs st \<and>
     (\<forall>i. map_option page_shape (file_pages l u st i) = map_option page_shape (file_pages l fs st i))"

lemma same_slots_trans: "same_slots l st fs u \<Longrightarrow> same_slots l st u v \<Longrightarrow> same_slots l st fs v"
  by (simp add: same_slots_def)

lemma same_slotsD:
  assumes "same_slots l st fs u" and "file_pages l fs st i = Some p"
  shows "\<exists>q. file_pages l u st i = Some q \<and> slots q = slots p"
  using assms by (auto simp: same_slots_def page_shape_def map_option_case dest!: spec [of _ i] split: option.splits)

text \<open>The map with the places in \<open>K\<close> written anew.\<close>

definition overwrite :: "('k \<Rightarrow> byte list option) \<Rightarrow> 'k set \<Rightarrow> ('k \<Rightarrow> byte list) \<Rightarrow> 'k \<Rightarrow> byte list option" where
  "overwrite m K G k = (if k \<in> K then Some (G k) else m k)"

lemma write_rows_effect:
  assumes "rows_inv D l t f (w_store w)"
    and "file_pages l (w_store w) (TableStorage (table_id t)) (page_id p) = Some p0"
    and "page_wf p" and "layout p = l" and "page_rows p = page_rows p0" and "page_shape p = page_shape p0"
    and "\<And>r row c. (r, row, c) \<in> set rows \<Longrightarrow> c = [] \<and> row_fits row (schema t) \<and> row_strings_ok row \<and>
      slot_for (slots p) (record_index r) (length (row_serialize row)) \<and>
      row_serialize row = G (page_id p, record_index r)"
  shows "\<exists>u. write_rows_in_place file_store E (ta_new t l) p rows w = (Inr (), w\<lparr>w_store := u\<rparr>) \<and>
    rows_inv D l t f u \<and> same_slots l (TableStorage (table_id t)) (w_store w) u \<and>
    table_map l u (table_id t) =
      overwrite (table_map l (w_store w) (table_id t)) (places [(page_id p, rows)]) G"
  using assms
proof (induction rows arbitrary: w p p0)
  case Nil
  then show ?case
    by (intro exI [of _ "w_store w"]) (simp add: places_def flat_def overwrite_def same_slots_def fun_eq_iff)
next
  case (Cons x rows)
  let ?tab = "TableStorage (table_id t)"
  obtain r row c where x: "x = (r, row, c)" by (cases x) auto
  have head: "c = []" "row_fits row (schema t)" "row_strings_ok row"
    "slot_for (slots p) (record_index r) (length (row_serialize row))"
    "row_serialize row = G (page_id p, record_index r)"
    using Cons.prems(7) [of r row c] by (auto simp: x)
  let ?i = "record_index r" and ?dat = "row_serialize row"
  have i: "?i < length (slots p) \<and> unat (record_length (slots p ! ?i)) = length ?dat" "\<not> slot_deleted (slots p ! ?i)"
    using head(4) by (simp_all add: slot_for_def)
  obtain q where q: "write_record p ?i ?dat = Inr q" "page_wf q" "layout q = l" "page_id q = page_id p"
    "slots q = slots p" "page_rows q = (page_rows p)(?i \<mapsto> ?dat)" "page_shape q = page_shape p"
    using write_record_ok [OF Cons.prems(3) i(1)] i(2) Cons.prems(4) by (auto simp: page_shape_def)
  have old: "file_pages l (w_store w) ?tab (page_id q) = Some p0" using Cons.prems(2) q(4) by simp
  have sto: "page_rows q j = Some bs \<Longrightarrow> page_rows p0 j = Some bs \<or> stored_row (schema t) bs" for j bs
    using head(2,3) Cons.prems(5) by (auto simp: q(6) stored_row_def split: if_splits)
  have del: "s \<in> set (slots q) \<Longrightarrow> s \<in> set (slots p0)" for s
    using q(5) Cons.prems(6) by (simp add: page_shape_def)
  obtain u where u: "st_write_page file_store l q ?tab (w_store w) = (Inr (), u)" "rows_inv D l t f u"
    "file_pages l u ?tab = (file_pages l (w_store w) ?tab)(page_id q \<mapsto> page_image q)"
    "table_map l u (table_id t) =
       (\<lambda>k. if fst k = page_id q then page_rows q (snd k) else table_map l (w_store w) (table_id t) k)"
    "file_count l u ?tab = file_count l (w_store w) ?tab"
    using rows_inv_write [OF Cons.prems(1) old q(2,3) sto] del by blast
  let ?u = "w\<lparr>w_store := u\<rparr>"
  have img: "page_shape (page_image q) = page_shape q" by (simp add: page_shape_def page_image_def)
  have one: "same_slots l ?tab (w_store w) u"
    using old q(7) Cons.prems(6) by (simp add: same_slots_def u(3,5) img)
  have inv_u: "rows_inv D l t f (w_store ?u)" using u(2) by simp
  have at_u: "file_pages l (w_store ?u) ?tab (page_id q) = Some (page_image q)" by (simp add: u(3))
  have rows_u: "page_rows q = page_rows (page_image q)" using page_image_rows(2) [OF q(2)] by simp
  have rest: "c = [] \<and> row_fits row (schema t) \<and> row_strings_ok row \<and>
      slot_for (slots q) (record_index r) (length (row_serialize row)) \<and>
      row_serialize row = G (page_id q, record_index r)" if "(r, row, c) \<in> set rows" for r row c
    unfolding q(4,5) using that by (intro Cons.prems(7)) simp
  have "\<exists>v. write_rows_in_place file_store E (ta_new t l) q rows ?u = (Inr (), ?u\<lparr>w_store := v\<rparr>) \<and>
    rows_inv D l t f v \<and> same_slots l ?tab (w_store ?u) v \<and>
    table_map l v (table_id t) = overwrite (table_map l (w_store ?u) (table_id t)) (places [(page_id q, rows)]) G"
    using inv_u at_u q(2,3) rows_u img [symmetric] rest by (rule Cons.IH)
  then obtain v where v: "write_rows_in_place file_store E (ta_new t l) q rows ?u = (Inr (), w\<lparr>w_store := v\<rparr>)"
    "rows_inv D l t f v" "same_slots l ?tab u v"
    "table_map l v (table_id t) = overwrite (table_map l u (table_id t)) (places [(page_id q, rows)]) G"
    by auto
  have run: "write_rows_in_place file_store E (ta_new t l) p (x # rows) w = (Inr (), w\<lparr>w_store := v\<rparr>)"
    using q(1) u(1) v(1) by (simp add: x head(1) io_bind_Inr [OF update_index_none] io_bind_at_store)
  have K: "places [(page_id p, x # rows)] = insert (page_id p, ?i) (places [(page_id p, rows)])"
    by (auto simp: places_def flat_def x)
  have "table_map l u (table_id t) k = (if k = (page_id p, ?i) then Some (G k) else table_map l (w_store w) (table_id t) k)" for k
    using old Cons.prems(2,5) head(5) by (cases k) (simp add: u(4) q(4,6) table_map_def)
  then have "table_map l v (table_id t) =
      overwrite (table_map l (w_store w) (table_id t)) (places [(page_id p, x # rows)]) G"
    unfolding K v(4) q(4) by (auto simp: overwrite_def fun_eq_iff)
  then show ?case
    using run v(2) same_slots_trans [OF one v(3)] by blast
qed

lemma update_pages_effect:
  assumes "rows_inv D l t f (w_store w)"
    and "\<And>pid r row c. (pid, (r, row, c)) \<in> flat pages \<Longrightarrow>
      c = [] \<and> row_fits row (schema t) \<and> row_strings_ok row \<and> row_serialize row = G (pid, record_index r) \<and>
      (\<exists>p. file_pages l (w_store w) (TableStorage (table_id t)) pid = Some p \<and>
         slot_for (slots p) (record_index r) (length (row_serialize row)))"
    and "\<And>pid rows. (pid, rows) \<in> set pages \<Longrightarrow> rows \<noteq> []"
  shows "\<exists>u. update_pages file_store E (ta_new t l) f False pages left w = (Inr left, w\<lparr>w_store := u\<rparr>) \<and>
    rows_inv D l t f u \<and> same_slots l (TableStorage (table_id t)) (w_store w) u \<and>
    table_map l u (table_id t) = overwrite (table_map l (w_store w) (table_id t)) (places pages) G"
  using assms
proof (induction pages arbitrary: w)
  case Nil
  then show ?case
    by (intro exI [of _ "w_store w"]) (simp add: places_def flat_def overwrite_def same_slots_def fun_eq_iff)
next
  case (Cons x pages)
  let ?tab = "TableStorage (table_id t)"
  obtain pid rows where x: "x = (pid, rows)" by (cases x)
  have in_flat: "(pid, y) \<in> flat (x # pages)" if "y \<in> set rows" for y
    using that by (auto simp: flat_def x)
  have "rows \<noteq> []" using Cons.prems(3) [of pid rows] by (simp add: x)
  then obtain y where "y \<in> set rows" by (cases rows) auto
  moreover obtain r row c where "y = (r, row, c)" by (cases y) auto
  ultimately obtain p where p: "file_pages l (w_store w) ?tab pid = Some p"
    using Cons.prems(2) [OF in_flat] by blast
  note pg = table_pageD [OF rows_invD(2) [OF Cons.prems(1)] p]
  have read: "st_read_page file_store l pid ?tab (w_store w) = Inr p"
    by (rule fstore.read_law [OF fsm_inv_table [OF rows_invD(1) [OF Cons.prems(1)]] p])
  have here: "c = [] \<and> row_fits row (schema t) \<and> row_strings_ok row \<and>
      slot_for (slots p) (record_index r) (length (row_serialize row)) \<and>
      row_serialize row = G (page_id p, record_index r)" if "(r, row, c) \<in> set rows" for r row c
    using Cons.prems(2) [OF in_flat [OF that]] p pg(2) by auto
  have at_p: "file_pages l (w_store w) ?tab (page_id p) = Some p" using p pg(2) by simp
  have "\<exists>u. write_rows_in_place file_store E (ta_new t l) p rows w = (Inr (), w\<lparr>w_store := u\<rparr>) \<and>
    rows_inv D l t f u \<and> same_slots l ?tab (w_store w) u \<and>
    table_map l u (table_id t) = overwrite (table_map l (w_store w) (table_id t)) (places [(page_id p, rows)]) G"
    using Cons.prems(1) at_p pg(1,3) refl refl here by (rule write_rows_effect)
  then obtain u where u: "write_rows_in_place file_store E (ta_new t l) p rows w = (Inr (), w\<lparr>w_store := u\<rparr>)"
    "rows_inv D l t f u" "same_slots l ?tab (w_store w) u"
    "table_map l u (table_id t) = overwrite (table_map l (w_store w) (table_id t)) (places [(pid, rows)]) G"
    unfolding pg(2) by blast
  let ?u = "w\<lparr>w_store := u\<rparr>"
  have inv_u: "rows_inv D l t f (w_store ?u)" using u(2) by simp
  have rest: "c = [] \<and> row_fits row (schema t) \<and> row_strings_ok row \<and> row_serialize row = G (pid', record_index r) \<and>
      (\<exists>p. file_pages l (w_store ?u) ?tab pid' = Some p \<and>
         slot_for (slots p) (record_index r) (length (row_serialize row)))"
    if that: "(pid', (r, row, c)) \<in> flat pages" for pid' r row c
  proof -
    have "(pid', (r, row, c)) \<in> flat (x # pages)" using that by (auto simp: flat_def)
    from Cons.prems(2) [OF this] show ?thesis
      using same_slotsD [OF u(3)] by fastforce
  qed
  have ne: "(pid', rows') \<in> set pages \<Longrightarrow> rows' \<noteq> []" for pid' rows'
    using Cons.prems(3) [of pid' rows'] by simp
  have "\<exists>v. update_pages file_store E (ta_new t l) f False pages left ?u = (Inr left, ?u\<lparr>w_store := v\<rparr>) \<and>
    rows_inv D l t f v \<and> same_slots l ?tab (w_store ?u) v \<and>
    table_map l v (table_id t) = overwrite (table_map l (w_store ?u) (table_id t)) (places pages) G"
    using inv_u rest ne by (rule Cons.IH)
  then obtain v where v: "update_pages file_store E (ta_new t l) f False pages left ?u = (Inr left, w\<lparr>w_store := v\<rparr>)"
    "rows_inv D l t f v"
    "table_map l v (table_id t) = overwrite (table_map l u (table_id t)) (places pages) G" "same_slots l ?tab u v"
    by auto
  have "update_pages file_store E (ta_new t l) f False (x # pages) left w = (Inr left, w\<lparr>w_store := v\<rparr>)"
    using read u(1) v(1) by (simp add: x io_bind_def at_store_def)
  moreover have "places (x # pages) = places [(pid, rows)] \<union> places pages"
    unfolding x by (rule places_Cons)
  then have "table_map l v (table_id t) = overwrite (table_map l (w_store w) (table_id t)) (places (x # pages)) G"
    unfolding v(3) u(4) by (auto simp: overwrite_def fun_eq_iff)
  ultimately show ?case using v(2) same_slots_trans [OF u(3) v(4)] by blast
qed

text \<open>No vector of a map that was built by \<open>entry_push\<close> is empty.\<close>

lemma entry_push_nonempty:
  "\<forall>x \<in> set m. snd x \<noteq> [] \<Longrightarrow> \<forall>x \<in> set (entry_push k v m). snd x \<noteq> []"
  by (induction k v m rule: entry_push.induct) auto

lemma rows_to_update_nonempty:
  "rows_to_update nv pointers rows m = Inr m' \<Longrightarrow> \<forall>x \<in> set m. snd x \<noteq> [] \<Longrightarrow> \<forall>x \<in> set m'. snd x \<noteq> []"
proof (induction rows arbitrary: m)
  case (Cons x rows)
  obtain r row where x: "x = (r, row)" by (cases x)
  from Cons.prems(1) obtain cs cmd where
    "rows_to_update nv pointers rows (entry_push (record_page_id r) (r, Row cs, cmd) m) = Inr m'"
    by (auto simp: x and_then_Inr_iff)
  then show ?case by (rule Cons.IH) (rule entry_push_nonempty [OF Cons.prems(2)])
qed simp

section \<open>An update\<close>

lemma ta_update_effect:
  assumes inv: "rows_inv D l t f (w_store w)"
    and q: "qr_schema q = schema t" "query_rows q (w_store w) = Inr rows"
    and found: "\<And>r row. (r, row) \<in> set rows \<Longrightarrow> \<exists>bs.
      table_map l (w_store w) (table_id t) (record_page_id r, record_index r) = Some bs \<and> decode (schema t) bs = row"
    and upd: "collect_new_values (schema t) updates [] = Inr nv"
      "\<forall>(name, c) \<in> set updates. \<not> is_var_size (column_type_of c)"
    and order: "\<And>n. hash_order_ok (env_order E n)"
  shows "\<exists>u n. ta_update file_store E (ta_new t l) q updates w = (Inr (), w\<lparr>w_store := u, w_ticks := n\<rparr>) \<and>
    rows_inv D l t f u \<and> same_slots l (TableStorage (table_id t)) (w_store w) u \<and>
    table_map l u (table_id t) =
      overwrite (table_map l (w_store w) (table_id t))
        {(record_page_id r, record_index r) | r row. (r, row) \<in> set rows}
        (\<lambda>k. row_serialize (set_cells nv (decode (schema t) (the (table_map l (w_store w) (table_id t) k)))))"
proof -
  let ?m = "table_map l (w_store w) (table_id t)" and ?tab = "TableStorage (table_id t)"
  let ?G = "\<lambda>k. row_serialize (set_cells nv (decode (schema t) (the (?m k))))"
  let ?w1 = "w\<lparr>w_ticks := w_ticks w + 1\<rparr>" and ?ho = "env_order E (w_ticks w)"
  note fsm = ta_fsm_new [OF rows_invD(1) [OF inv]]
  have nv: "new_cells_ok (schema t) nv" by (rule new_values_ok [OF upd])
  obtain m where m: "rows_to_update nv [] rows [] = Inr m"
    "flat m = {(record_page_id r, (r, set_cells nv row, [])) | r row. (r, row) \<in> set rows}"
    using rows_to_update_ok [of nv rows "[]"] by (auto simp: flat_def [of "[]"])
  have it: "set (hash_iter ?ho m) = set m" by (rule set_hash_iter(1) [OF order])
  then have flat: "flat (hash_iter ?ho m) = flat m" by (simp add: flat_def)
  have K: "places (hash_iter ?ho m) = {(record_page_id r, record_index r) | r row. (r, row) \<in> set rows}"
    unfolding places_def flat m(2) by blast
  have ne: "vs \<noteq> []" if "(k, vs) \<in> set (hash_iter ?ho m)" for k vs
    using rows_to_update_nonempty [OF m(1)] that it by force
  have rows_ok: "c = [] \<and> row_fits row' (schema t) \<and> row_strings_ok row' \<and> row_serialize row' = ?G (pid, record_index r) \<and>
      (\<exists>p. file_pages l (w_store ?w1) ?tab pid = Some p \<and> slot_for (slots p) (record_index r) (length (row_serialize row')))"
    if mem: "(pid, (r, row', c)) \<in> flat (hash_iter ?ho m)" for pid r row' c
  proof -
    from mem obtain row where row: "pid = record_page_id r" "row' = set_cells nv row" "c = []" "(r, row) \<in> set rows"
      unfolding flat m(2) by blast
    obtain bs where bs: "?m (pid, record_index r) = Some bs" "decode (schema t) bs = row"
      using found [OF row(4)] row(1) by blast
    note dec = rows_inv_readable(2) [OF inv bs(1), unfolded bs(2)]
    note new = set_cells_ok [OF _ _ nv, of row]
    obtain p where p: "file_pages l (w_store w) ?tab pid = Some p" "page_rows p (record_index r) = Some bs"
      using bs(1) by (auto simp: table_map_def split: option.splits)
    have "slot_for (slots p) (record_index r) (length bs)"
      using page_rows_length [OF table_pageD(1) [OF rows_invD(2) [OF inv] p(1)] p(2)] by (simp add: slot_for_def)
    then show ?thesis
      using row(2,3) bs dec new p(1) by simp
  qed
  have "\<exists>u. update_pages file_store E (ta_new t l) f False (hash_iter ?ho m) [] ?w1 = (Inr [], ?w1\<lparr>w_store := u\<rparr>) \<and>
    rows_inv D l t f u \<and> same_slots l ?tab (w_store ?w1) u \<and> table_map l u (table_id t) = overwrite (table_map l (w_store ?w1) (table_id t)) (places (hash_iter ?ho m)) ?G"
    using _ rows_ok ne by (rule update_pages_effect) (simp add: inv)
  then obtain u where u: "update_pages file_store E (ta_new t l) f False (hash_iter ?ho m) [] ?w1 = (Inr [], ?w1\<lparr>w_store := u\<rparr>)"
    "rows_inv D l t f u" "table_map l u (table_id t) = overwrite ?m (places (hash_iter ?ho m)) ?G"
    "same_slots l ?tab (w_store w) u"
    by auto
  have in_place: "list_ex (\<lambda>(_, c). is_var_size (column_type_of c)) updates = False"
    using upd(2) by (auto simp: list_ex_iff)
  have "ta_update file_store E (ta_new t l) q updates w = (Inr (), ?w1\<lparr>w_store := u\<rparr>)"
    using q upd(1) m(1) u(1)
    by (simp add: ta_update_def fsm in_place next_order_def io_bind_def Let_def)
  then show ?thesis
    using u(2-4) K by (intro exI [of _ u] exI [of _ "w_ticks w + 1"]) simp
qed

end
