(* ===== verification/Table_History.thy ===== *)
theory Table_History
  imports Table_Update
begin

text \<open>
  A table without indexes as an abstract data type: after a sequence of insertions, deletions and
  updates since the files of the table were created, its queries yield the rows of a multiset that the
  changes act on in the obvious way. The sequences that are left out insert a row while a longer slot of
  the table is deleted (\<open>insert_safe\<close>) or update columns of varying size.
\<close>

section \<open>Histories\<close>

text \<open>
  The states of a table and the multiset of its rows. An insertion that fails, also by a panic, adds
  nothing. Deletions are allowed in tables without strings, updates may set columns of fixed size.
  The number of pages stays below the limit of \<open>i32\<close>, and the iteration orders of the hash maps
  are arbitrary.
\<close>

inductive table_history :: "page_data_layout \<Rightarrow> table \<Rightarrow> fsm \<Rightarrow> row multiset \<Rightarrow> files world \<Rightarrow> bool" for l t f where
  opened: "fsm_of l t f \<Longrightarrow> schema_new (columns (schema t)) = (Inr (schema t) :: (table_schema, unit) result) \<Longrightarrow>
    file_create l (TableStorage (table_id t)) fs = (Inr (), fs1) \<Longrightarrow>
    file_create l (fsm_access t) fs1 = (Inr (), w_store w) \<Longrightarrow> table_history l t f {#} w"
| inserted: "table_history l t f M w \<Longrightarrow> file_count l (w_store w) (TableStorage (table_id t)) + 2 < 2 ^ 31 \<Longrightarrow>
    row_strings_ok row \<Longrightarrow> ta_insert file_store E (ta_new t l) row w = (r, w') \<Longrightarrow>
    table_history l t f (if r = Inr () then add_mset row M else M) w'"
| deleted: "table_history l t f M w \<Longrightarrow> fixed_size (schema t) \<Longrightarrow> \<forall>n. hash_order_ok (env_order E n) \<Longrightarrow>
    find_column_for_query_by_cell (schema t) name c = Inr i \<Longrightarrow>
    ta_find file_store E (ta_new t l) name c w = (Inr q, w1) \<Longrightarrow>
    ta_delete file_store E (ta_new t l) q w1 = (r, w') \<Longrightarrow>
    table_history l t f (filter_mset (\<lambda>row. cells row ! i \<noteq> c) M) w'"
| updated: "table_history l t f M w \<Longrightarrow> \<forall>(name, d) \<in> set updates. \<not> is_var_size (column_type_of d) \<Longrightarrow>
    collect_new_values (schema t) updates [] = Inr nv \<Longrightarrow> \<forall>n. hash_order_ok (env_order E n) \<Longrightarrow>
    find_column_for_query_by_cell (schema t) name c = Inr i \<Longrightarrow>
    ta_find file_store E (ta_new t l) name c w = (Inr q, w1) \<Longrightarrow>
    ta_update file_store E (ta_new t l) q updates w1 = (r, w') \<Longrightarrow>
    table_history l t f (image_mset (\<lambda>row. if cells row ! i = c then set_cells nv row else row) M) w'"

text \<open>
  The states of a table with arbitrary columns: after such a history also rows of varying length are
  deleted, and rows are inserted as long as no deleted slot is longer than the row (a condition that
  rows of fixed length always meet). An insertion into a longer deleted slot can destroy rows.
\<close>

definition insert_safe :: "page_data_layout \<Rightarrow> table \<Rightarrow> files \<Rightarrow> row \<Rightarrow> bool" where
  "insert_safe l t fs row \<longleftrightarrow> fixed_size (schema t) \<or> no_longer_slot l t fs (length (row_serialize row))"

inductive table_reached :: "page_data_layout \<Rightarrow> table \<Rightarrow> fsm \<Rightarrow> row multiset \<Rightarrow> files world \<Rightarrow> bool" for l t f where
  of_history: "table_history l t f M w \<Longrightarrow> table_reached l t f M w"
| insertion: "table_reached l t f M w \<Longrightarrow> file_count l (w_store w) (TableStorage (table_id t)) + 2 < 2 ^ 31 \<Longrightarrow>
    row_strings_ok row \<Longrightarrow> insert_safe l t (w_store w) row \<Longrightarrow>
    ta_insert file_store E (ta_new t l) row w = (r, w') \<Longrightarrow>
    table_reached l t f (if r = Inr () then add_mset row M else M) w'"
| deletion: "table_reached l t f M w \<Longrightarrow> \<forall>n. hash_order_ok (env_order E n) \<Longrightarrow>
    find_column_for_query_by_cell (schema t) name c = Inr i \<Longrightarrow>
    ta_find file_store E (ta_new t l) name c w = (Inr q, w1) \<Longrightarrow>
    ta_delete file_store E (ta_new t l) q w1 = (r, w') \<Longrightarrow>
    table_reached l t f (filter_mset (\<lambda>row. cells row ! i \<noteq> c) M) w'"
| update_in_place: "table_reached l t f M w \<Longrightarrow> \<forall>(name, d) \<in> set updates. \<not> is_var_size (column_type_of d) \<Longrightarrow>
    collect_new_values (schema t) updates [] = Inr nv \<Longrightarrow> \<forall>n. hash_order_ok (env_order E n) \<Longrightarrow>
    find_column_for_query_by_cell (schema t) name c = Inr i \<Longrightarrow>
    ta_find file_store E (ta_new t l) name c w = (Inr q, w1) \<Longrightarrow>
    ta_update file_store E (ta_new t l) q updates w1 = (r, w') \<Longrightarrow>
    table_reached l t f (image_mset (\<lambda>row. if cells row ! i = c then set_cells nv row else row) M) w'"

section \<open>The invariant of the states\<close>

definition reached_inv :: "(slot \<Rightarrow> bool) \<Rightarrow> page_data_layout \<Rightarrow> table \<Rightarrow> fsm \<Rightarrow> row multiset \<Rightarrow> files world \<Rightarrow> bool" where
  "reached_inv D l t f M w \<longleftrightarrow> columns (schema t) \<noteq> [] \<and> rows_inv D l t f (w_store w) \<and>
     rows_of (schema t) (table_map l (w_store w) (table_id t)) = M"

definition history_inv :: "page_data_layout \<Rightarrow> table \<Rightarrow> fsm \<Rightarrow> row multiset \<Rightarrow> files world \<Rightarrow> bool" where
  "history_inv l t f M w \<longleftrightarrow> columns (schema t) \<noteq> [] \<and> table_inv l t f (w_store w) \<and>
     rows_of (schema t) (table_map l (w_store w) (table_id t)) = M"

lemma history_reached: "history_inv l t f M w \<longleftrightarrow>
    reached_inv (\<lambda>s. fixed_size (schema t) \<and> unat (record_length s) = fixed_len (schema t)) l t f M w"
  by (simp add: history_inv_def reached_inv_def table_inv_def)

lemma history_created:
  assumes "fsm_of l t f" and "schema_new (columns (schema t)) = (Inr (schema t) :: (table_schema, unit) result)"
    and "file_create l (TableStorage (table_id t)) fs = (Inr (), fs1)"
    and "file_create l (fsm_access t) fs1 = (Inr (), w_store w)"
  shows "history_inv l t f {#} w"
proof -
  note inv = fsm_inv_created [OF assms(1,3,4)]
  have "file_count l (w_store w) (TableStorage (table_id t)) = 0"
  proof -
    have lay: "layout_ok l" using assms(1) by (simp add: fsm_of_def)
    have none: "fs (storage_file_path (TableStorage (table_id t))) = None" "fs1 (storage_file_path (fsm_access t)) = None"
      using assms(3,4) by (auto simp: file_create_def split: if_splits)
    have "file_count l fs1 (TableStorage (table_id t)) = 0"
      using file_create_ok [OF lay, of fs "TableStorage (table_id t)"] none(1) assms(3) by auto
    moreover have "w_store w (storage_file_path (TableStorage (table_id t))) = fs1 (storage_file_path (TableStorage (table_id t)))"
      using file_create_ok [OF lay, of fs1 "fsm_access t"] none(2) assms(4) tab_not_map(1) [of t] by (metis prod.inject)
    ultimately show ?thesis by (simp add: file_count_def)
  qed
  moreover from this have "file_pages l (w_store w) (TableStorage (table_id t)) i = None" for i
    by (auto simp: file_pages_def)
  ultimately show ?thesis
    using inv fsm_inv_table [OF inv] assms(2)
    by (auto simp: history_inv_def table_inv_def rows_inv_def table_ok_def table_map_def rows_of_def schema_new_def dom_def split: if_splits)
qed

text \<open>The rows of a query, by their places.\<close>

lemma found_rows:
  assumes inv: "rows_inv D l t f (w_store w)" and col: "find_column_for_query_by_cell (schema t) name c = Inr i"
    and run: "ta_find file_store E (ta_new t l) name c w = (Inr q, w1)"
  shows "\<exists>rs. w1 = w \<and> qr_schema q = schema t \<and> query_rows q (w_store w) = Inr rs \<and>
    mset (map snd rs) = filter_mset (\<lambda>row. cells row ! i = c) (rows_of (schema t) (table_map l (w_store w) (table_id t))) \<and>
    (\<forall>r row. (r, row) \<in> set rs \<longrightarrow> (\<exists>bs. table_map l (w_store w) (table_id t) (record_page_id r, record_index r) = Some bs \<and>
       decode (schema t) bs = row)) \<and>
    {(record_page_id r, record_index r) | r row. (r, row) \<in> set rs} =
      {k. \<exists>bs. table_map l (w_store w) (table_id t) k = Some bs \<and> cells (decode (schema t) bs) ! i = c}"
proof -
  let ?m = "table_map l (w_store w) (table_id t)" and ?es = "table_entries l (w_store w) (table_id t)"
  note ok = rows_invD(2) [OF inv]
  obtain rs where rs: "w1 = w" "qr_schema q = schema t" "query_rows q (w_store w) = Inr rs"
    "map row_key rs = filter (\<lambda>(_, row). cells row ! i = c) (map (\<lambda>(k, bs). (k, decode (schema t) bs)) ?es)"
    using find_entries [OF ok rows_inv_readable(1) [OF inv] col, of E] run by auto
  have key: "\<exists>bs. ?m (record_page_id r, record_index r) = Some bs \<and>
      decode (schema t) bs = row \<and> cells row ! i = c" if "(r, row) \<in> set rs" for r row
  proof -
    from that have "row_key (r, row) \<in> set (map row_key rs)" by simp
    then show ?thesis
      unfolding rs(4) row_key_pair using table_entries_set [OF ok] by force
  qed
  have places: "\<exists>r row. (r, row) \<in> set rs \<and> k = (record_page_id r, record_index r)"
    if k: "?m k = Some bs" "cells (decode (schema t) bs) ! i = c" for k bs
  proof -
    have "(k, bs) \<in> set ?es" using k(1) table_entries_set [OF ok] by simp
    then have "(k, decode (schema t) bs) \<in> set (map row_key rs)"
      unfolding rs(4) using k(2) by force
    then show ?thesis by (auto simp: row_key_pair)
  qed
  have "map snd rs = map snd (map row_key rs)" by (simp add: row_key_def comp_def)
  also have "\<dots> = filter (\<lambda>row. cells row ! i = c) (map (\<lambda>(k, bs). decode (schema t) bs) ?es)"
    unfolding rs(4) by (simp add: filter_map comp_def case_prod_beta)
  finally have "mset (map snd rs) = filter_mset (\<lambda>row. cells row ! i = c) (rows_of (schema t) ?m)"
    using rows_of_entries [OF ok, of "schema t"] by (metis mset_filter)
  moreover have "{(record_page_id r, record_index r) | r row. (r, row) \<in> set rs} =
      {k. \<exists>bs. ?m k = Some bs \<and> cells (decode (schema t) bs) ! i = c}"
    using key places by blast
  ultimately show ?thesis using rs(1-3) key by blast
qed

lemmas found_places = found_rows [OF table_inv_def [THEN iffD1]]

lemma deleted_places:
  assumes inv: "rows_inv D l t f (w_store w)" and del: "deletable D (schema t)" and order: "\<forall>n. hash_order_ok (env_order E n)"
    and col: "find_column_for_query_by_cell (schema t) name c = Inr i"
    and run: "ta_find file_store E' (ta_new t l) name c w = (Inr q, w1)"
  shows "w1 = w \<and> (\<exists>u n. ta_delete file_store E (ta_new t l) q w1 = (Inr (), w\<lparr>w_store := u, w_ticks := n\<rparr>) \<and>
    rows_inv D l t f u \<and>
    table_map l u (table_id t) = table_map l (w_store w) (table_id t) |`
      {k. cells (decode (schema t) (the (table_map l (w_store w) (table_id t) k))) ! i \<noteq> c})"
proof -
  let ?m = "table_map l (w_store w) (table_id t)"
  obtain rs where rs: "w1 = w" "query_rows q (w_store w) = Inr rs"
    "\<And>r row. (r, row) \<in> set rs \<Longrightarrow> \<exists>bs. ?m (record_page_id r, record_index r) = Some bs \<and> decode (schema t) bs = row"
    "{(record_page_id r, record_index r) | r row. (r, row) \<in> set rs} =
      {k. \<exists>bs. ?m k = Some bs \<and> cells (decode (schema t) bs) ! i = c}"
    using found_rows [OF inv col run] by blast
  have found: "(r, row) \<in> set rs \<Longrightarrow> ?m (record_page_id r, record_index r) \<noteq> None" for r row
    using rs(3) [of r row] by auto
  obtain u n where u: "ta_delete file_store E (ta_new t l) q w = (Inr (), w\<lparr>w_store := u, w_ticks := n\<rparr>)"
    "rows_inv D l t f u"
    "table_map l u (table_id t) = ?m |` (- {(record_page_id r, record_index r) | r row. (r, row) \<in> set rs})"
    using ta_delete_effect [OF inv del rs(2), of E] found order by blast
  have "table_map l u (table_id t) = ?m |` {k. cells (decode (schema t) (the (?m k))) ! i \<noteq> c}"
    unfolding u(3) rs(4) by (auto simp: restrict_map_def fun_eq_iff)
  then show ?thesis using rs(1) u(1,2) by blast
qed

lemma reached_inserted:
  assumes "reached_inv D l t f M w" and "file_count l (w_store w) (TableStorage (table_id t)) + 2 < 2 ^ 31"
    and "row_strings_ok row" and short: "row_fits row (schema t) \<Longrightarrow> no_longer_slot l t (w_store w) (length (row_serialize row))"
    and "ta_insert file_store E (ta_new t l) row w = (r, w')"
  shows "reached_inv D l t f (if r = Inr () then add_mset row M else M) w'"
    and "r = Inr () \<Longrightarrow> row_fits row (schema t)"
    and "r = Inl e \<Longrightarrow> (\<not> row_fits row (schema t) \<and> (\<exists>x. e = Err (InsertRowError (RowInvalid x)))) \<or>
      row_fits row (schema t) \<and>
        refused_row l t f (w_store w) (row_serialize row) e"
    and "r = Inr () \<Longrightarrow> \<not> refused_row l t f (w_store w) (row_serialize row) e'"
proof -
  let ?m = "table_map l (w_store w) (table_id t)"
  have inv: "rows_inv D l t f (w_store w)" and cols: "columns (schema t) \<noteq> []" and M: "rows_of (schema t) ?m = M"
    using assms(1) by (simp_all add: reached_inv_def)
  obtain u n where u: "w' = w\<lparr>w_store := u, w_ticks := n\<rparr>" "rows_inv D l t f u"
    "if row_fits row (schema t)
     then \<exists>r'. insert_outcome l t f (w_store w) (row_serialize row) r' u \<and>
       insert_trace l t f (w_store w) (row_serialize row) r' u \<and> r = and_then r' (\<lambda>_. Inr ())
     else \<exists>e. r = Inl (Err (InsertRowError (RowInvalid e))) \<and> u = w_store w"
    using ta_insert_rows [OF inv assms(2,3) cols short, of E] assms(5) by auto
  have "reached_inv D l t f (if r = Inr () then add_mset row M else M) w' \<and>
    (case r of Inr _ \<Rightarrow> row_fits row (schema t) \<and> (\<forall>e. \<not> refused_row l t f (w_store w) (row_serialize row) e) | Inl e \<Rightarrow>
      (\<not> row_fits row (schema t) \<and> (\<exists>x. e = Err (InsertRowError (RowInvalid x)))) \<or>
      row_fits row (schema t) \<and>
        refused_row l t f (w_store w) (row_serialize row) e)"
  proof (cases "row_fits row (schema t)")
    case False
    then show ?thesis using u cols inv M by (auto simp: reached_inv_def)
  next
    case True
    then obtain r' where r': "insert_outcome l t f (w_store w) (row_serialize row) r' u" "r = and_then r' (\<lambda>_. Inr ())"
        "insert_trace l t f (w_store w) (row_serialize row) r' u"
      using u(3) by auto
    note ne = row_serialize_nonempty [OF True cols]
    show ?thesis
    proof (cases r')
      case (Inl e)
      then show ?thesis using r'(1,2) u(1,2) cols M True by (auto simp: reached_inv_def insert_outcome_def)
    next
      case (Inr k)
      then have k: "?m k = None" "table_map l u (table_id t) = ?m(k \<mapsto> row_serialize row)"
        using r'(1) by (simp_all add: insert_outcome_def)
      have "decode (schema t) (row_serialize row) = row"
        using row_deserialize_serialize [OF True assms(3)] by (simp add: decode_def)
      then have "rows_of (schema t) (table_map l u (table_id t)) = add_mset row M"
        using rows_of_insert [OF table_map_finite [OF rows_invD(2) [OF inv]] k(1), of "schema t" "row_serialize row"] M k(2)
        by simp
      then show ?thesis
        using Inr r'(2) u(1,2) cols True stored_not_refused [OF r'(3) [unfolded Inr] ne] by (simp add: reached_inv_def)
    qed
  qed
  then show "reached_inv D l t f (if r = Inr () then add_mset row M else M) w'"
    and "r = Inr () \<Longrightarrow> row_fits row (schema t)"
    and "r = Inl e \<Longrightarrow> (\<not> row_fits row (schema t) \<and> (\<exists>x. e = Err (InsertRowError (RowInvalid x)))) \<or>
      row_fits row (schema t) \<and>
        refused_row l t f (w_store w) (row_serialize row) e"
    and "r = Inr () \<Longrightarrow> \<not> refused_row l t f (w_store w) (row_serialize row) e'"
    using u(1) by auto
qed

lemma history_inserted:
  assumes "history_inv l t f M w" and "file_count l (w_store w) (TableStorage (table_id t)) + 2 < 2 ^ 31"
    and "row_strings_ok row" and "ta_insert file_store E (ta_new t l) row w = (r, w')"
  shows "history_inv l t f (if r = Inr () then add_mset row M else M) w'"
    and "r = Inr () \<Longrightarrow> row_fits row (schema t)"
    and "r = Inl e \<Longrightarrow> (\<not> row_fits row (schema t) \<and> (\<exists>x. e = Err (InsertRowError (RowInvalid x)))) \<or>
      row_fits row (schema t) \<and> refused_row l t f (w_store w) (row_serialize row) e"
proof -
  have "table_inv l t f (w_store w)" using assms(1) by (simp add: history_inv_def)
  note ins = reached_inserted [OF assms(1) [unfolded history_reached] assms(2,3) table_inv_slots [OF this] assms(4), folded history_reached]
  show "history_inv l t f (if r = Inr () then add_mset row M else M) w'" by (rule ins(1))
  show "r = Inr () \<Longrightarrow> row_fits row (schema t)" by (rule ins(2))
  show "r = Inl e \<Longrightarrow> (\<not> row_fits row (schema t) \<and> (\<exists>x. e = Err (InsertRowError (RowInvalid x)))) \<or>
      row_fits row (schema t) \<and> refused_row l t f (w_store w) (row_serialize row) e" by (rule ins(3))
qed

lemma reached_deleted:
  assumes "reached_inv D l t f M w" and "deletable D (schema t)" and order: "\<forall>n. hash_order_ok (env_order E n)"
    and "find_column_for_query_by_cell (schema t) name c = Inr i"
    and "ta_find file_store E' (ta_new t l) name c w = (Inr q, w1)"
    and "ta_delete file_store E (ta_new t l) q w1 = (r, w')"
  shows "r = Inr ()" and "reached_inv D l t f (filter_mset (\<lambda>row. cells row ! i \<noteq> c) M) w'"
proof -
  let ?m = "table_map l (w_store w) (table_id t)"
  have inv: "rows_inv D l t f (w_store w)" and cols: "columns (schema t) \<noteq> []" and M: "rows_of (schema t) ?m = M"
    using assms(1) by (simp_all add: reached_inv_def)
  obtain u n where u: "w1 = w" "ta_delete file_store E (ta_new t l) q w1 = (Inr (), w\<lparr>w_store := u, w_ticks := n\<rparr>)"
    "rows_inv D l t f u" "table_map l u (table_id t) = ?m |` {k. cells (decode (schema t) (the (?m k))) ! i \<noteq> c}"
    using deleted_places [OF inv assms(2) order assms(4,5)] by blast
  have "rows_of (schema t) (table_map l u (table_id t)) = filter_mset (\<lambda>row. cells row ! i \<noteq> c) M"
    using rows_of_restrict [OF table_map_finite [OF rows_invD(2) [OF inv]], of "schema t" "\<lambda>row. cells row ! i \<noteq> c"] M u(4)
    by simp
  then show "r = Inr ()" and "reached_inv D l t f (filter_mset (\<lambda>row. cells row ! i \<noteq> c) M) w'"
    using u(1-3) assms(6) cols by (simp_all add: reached_inv_def) auto
qed

lemma history_deleted:
  assumes "history_inv l t f M w" and "fixed_size (schema t)" and "\<forall>n. hash_order_ok (env_order E n)"
    and "find_column_for_query_by_cell (schema t) name c = Inr i"
    and "ta_find file_store E' (ta_new t l) name c w = (Inr q, w1)"
    and "ta_delete file_store E (ta_new t l) q w1 = (r, w')"
  shows "r = Inr ()" and "history_inv l t f (filter_mset (\<lambda>row. cells row ! i \<noteq> c) M) w'"
  using reached_deleted [OF assms(1) [unfolded history_reached] deletable_fixed [OF assms(2)] assms(3-6)]
  by (simp_all add: history_reached)

lemma updated_rows:
  assumes inv: "rows_inv D l t f (w_store w)" and fixed: "\<forall>(name, d) \<in> set updates. \<not> is_var_size (column_type_of d)"
    and nv: "collect_new_values (schema t) updates [] = Inr nv" and order: "\<forall>n. hash_order_ok (env_order E n)"
    and col: "find_column_for_query_by_cell (schema t) name c = Inr i"
    and found: "ta_find file_store E' (ta_new t l) name c w = (Inr q, w1)"
  shows "\<exists>w'. ta_update file_store E (ta_new t l) q updates w1 = (Inr (), w') \<and> rows_inv D l t f (w_store w') \<and>
    same_slots l (TableStorage (table_id t)) (w_store w) (w_store w') \<and>
    dom (table_map l (w_store w') (table_id t)) = dom (table_map l (w_store w) (table_id t)) \<and>
    (\<forall>k \<in> dom (table_map l (w_store w) (table_id t)).
       decode (schema t) (the (table_map l (w_store w') (table_id t) k)) =
       (let row = decode (schema t) (the (table_map l (w_store w) (table_id t) k))
        in if cells row ! i = c then set_cells nv row else row))"
proof -
  let ?m = "table_map l (w_store w) (table_id t)"
  let ?g = "\<lambda>row. if cells row ! i = c then set_cells nv row else row"
  obtain rs where rs: "w1 = w" "qr_schema q = schema t" "query_rows q (w_store w) = Inr rs"
      "\<And>r row. (r, row) \<in> set rs \<Longrightarrow> \<exists>bs. ?m (record_page_id r, record_index r) = Some bs \<and> decode (schema t) bs = row"
      "{(record_page_id r, record_index r) | r row. (r, row) \<in> set rs} =
        {k. \<exists>bs. ?m k = Some bs \<and> cells (decode (schema t) bs) ! i = c}"
    using found_rows [OF inv col found] by blast
  let ?K = "{(record_page_id r, record_index r) | r row. (r, row) \<in> set rs}"
  let ?G = "\<lambda>k. row_serialize (set_cells nv (decode (schema t) (the (?m k))))"
  obtain u n where u: "ta_update file_store E (ta_new t l) q updates w = (Inr (), w\<lparr>w_store := u, w_ticks := n\<rparr>)"
    "rows_inv D l t f u" "table_map l u (table_id t) = overwrite ?m ?K ?G"
    "same_slots l (TableStorage (table_id t)) (w_store w) u"
    using ta_update_effect [OF inv rs(2,3) _ nv fixed, of E] rs(4) order by blast
  have "dom (table_map l u (table_id t)) = dom ?m"
    unfolding u(3) rs(5) by (auto simp: overwrite_def split: if_splits)
  moreover have "decode (schema t) (the (table_map l u (table_id t) k)) = ?g (decode (schema t) (the (?m k)))"
    if "k \<in> dom ?m" for k
  proof -
    from that obtain bs where bs: "?m k = Some bs" by blast
    note dec = rows_inv_readable(2) [OF inv bs]
    note new = set_cells_ok [OF conjunct1 [OF dec] conjunct1 [OF conjunct2 [OF dec]] new_values_ok [OF nv fixed]]
    have "decode (schema t) (?G k) = set_cells nv (decode (schema t) bs)"
      using row_deserialize_serialize [OF new(1,2)] bs by (simp add: decode_def)
    then show ?thesis
      unfolding u(3) rs(5) using bs by (simp add: overwrite_def)
  qed
  ultimately show ?thesis
    using u(1,2,4) rs(1) by (intro exI [of _ "w\<lparr>w_store := u, w_ticks := n\<rparr>"]) (simp add: Let_def)
qed

lemmas updated_places = updated_rows [where D = "\<lambda>s. fixed_size (schema t) \<and> unat (record_length s) = fixed_len (schema t)" and t = t for t, folded table_inv_def]

lemma reached_updated:
  assumes "reached_inv D l t f M w" and "\<forall>(name, d) \<in> set updates. \<not> is_var_size (column_type_of d)"
    and "collect_new_values (schema t) updates [] = Inr nv" and "\<forall>n. hash_order_ok (env_order E n)"
    and "find_column_for_query_by_cell (schema t) name c = Inr i"
    and "ta_find file_store E' (ta_new t l) name c w = (Inr q, w1)"
    and "ta_update file_store E (ta_new t l) q updates w1 = (r, w')"
  shows "r = Inr ()" and "reached_inv D l t f (image_mset (\<lambda>row. if cells row ! i = c then set_cells nv row else row) M) w'"
proof -
  let ?g = "\<lambda>row. if cells row ! i = c then set_cells nv row else row"
  have inv: "rows_inv D l t f (w_store w)" and cols: "columns (schema t) \<noteq> []"
    and M: "rows_of (schema t) (table_map l (w_store w) (table_id t)) = M"
    using assms(1) by (simp_all add: reached_inv_def)
  from updated_rows [OF inv assms(2-6)] assms(7) have u: "r = Inr ()" "rows_inv D l t f (w_store w')"
    "dom (table_map l (w_store w') (table_id t)) = dom (table_map l (w_store w) (table_id t))"
    "\<And>k. k \<in> dom (table_map l (w_store w) (table_id t)) \<Longrightarrow>
       decode (schema t) (the (table_map l (w_store w') (table_id t) k)) =
       ?g (decode (schema t) (the (table_map l (w_store w) (table_id t) k)))"
    by (auto simp: Let_def)
  show "r = Inr ()" by (rule u(1))
  have "rows_of (schema t) (table_map l (w_store w') (table_id t)) = image_mset ?g M"
    using rows_of_update [OF table_map_finite [OF rows_invD(2) [OF inv]] u(3), of "schema t" ?g] u(4) M by simp
  then show "reached_inv D l t f (image_mset ?g M) w'"
    using u(2) cols by (simp add: reached_inv_def)
qed

lemma history_updated:
  assumes "history_inv l t f M w" and "\<forall>(name, d) \<in> set updates. \<not> is_var_size (column_type_of d)"
    and "collect_new_values (schema t) updates [] = Inr nv" and "\<forall>n. hash_order_ok (env_order E n)"
    and "find_column_for_query_by_cell (schema t) name c = Inr i"
    and "ta_find file_store E' (ta_new t l) name c w = (Inr q, w1)"
    and "ta_update file_store E (ta_new t l) q updates w1 = (r, w')"
  shows "r = Inr ()" and "history_inv l t f (image_mset (\<lambda>row. if cells row ! i = c then set_cells nv row else row) M) w'"
  using reached_updated [OF assms(1) [unfolded history_reached] assms(2-7)] by (simp_all add: history_reached)

lemma history_ok: "table_history l t f M w \<Longrightarrow> history_inv l t f M w"
proof (induction rule: table_history.induct)
  case (opened fs fs1 w)
  then show ?case by (rule history_created)
next
  case (inserted M w row E r w')
  then show ?case by (intro history_inserted(1))
next
  case (deleted M w E name c i q w1 r w')
  then show ?case by (intro history_deleted(2))
next
  case (updated M w updates nv E name c i q w1 r w')
  then show ?case by (intro history_updated(2))
qed

text \<open>In a table whose rows have a fixed length, all deleted slots have this length.\<close>

definition slot_lengths :: "table_schema \<Rightarrow> slot \<Rightarrow> bool" where
  "slot_lengths s sl \<longleftrightarrow> (fixed_size s \<longrightarrow> unat (record_length sl) = fixed_len s)"

lemma deletable_lengths: "deletable (slot_lengths s) s"
  using fixed_size_length by (auto simp: deletable_def stored_row_def slot_lengths_def)

lemma insert_safe_slots:
  assumes "rows_inv (slot_lengths (schema t)) l t f fs" and "insert_safe l t fs row" and "row_fits row (schema t)"
  shows "no_longer_slot l t fs (length (row_serialize row))"
proof (cases "fixed_size (schema t)")
  case True
  then show ?thesis
    using rows_invD(4) [OF assms(1)] fixed_size_length [OF assms(3) True]
    by (fastforce simp: no_longer_slot_def short_slots_def slot_lengths_def)
qed (use assms(2) in \<open>simp add: insert_safe_def\<close>)

text \<open>In the states of \<open>table_history\<close> every insertion is safe.\<close>

lemma history_insert_safe:
  assumes "table_history l t f M w"
  shows "insert_safe l t (w_store w) row"
  using table_invD(4) [of l t f "w_store w"] history_ok [OF assms]
  by (fastforce simp: insert_safe_def no_longer_slot_def short_slots_def history_inv_def)

lemma reached_ok: "table_reached l t f M w \<Longrightarrow> reached_inv (slot_lengths (schema t)) l t f M w"
proof (induction rule: table_reached.induct)
  case (of_history M w)
  then show ?case
    using history_ok [OF of_history] rows_inv_weaken
    by (fastforce simp: history_reached reached_inv_def slot_lengths_def)
next
  case (insertion M w row E r w')
  have "rows_inv (slot_lengths (schema t)) l t f (w_store w)" using insertion.IH by (simp add: reached_inv_def)
  from insert_safe_slots [OF this insertion.hyps(4)] show ?case
    by (rule reached_inserted(1) [OF insertion.IH insertion.hyps(2,3) _ insertion.hyps(5)])
next
  case (deletion M w E name c i q w1 r w')
  then show ?case by (intro reached_deleted(2) [OF _ deletable_lengths])
next
  case (update_in_place M w updates nv E name c i q w1 r w')
  then show ?case by (intro reached_updated(2))
qed

section \<open>Properties\<close>

text \<open>
  C1. A table refines a multiset of rows. After any sequence of insertions (successful or not),
  deletions and updates of columns of fixed size since its files were created, in which no row is
  inserted while a deleted slot of the table is longer than it, a scan yields exactly the rows that
  were inserted and not deleted, with their updates, each as often as it is in the table; a query
  yields those whose cell is the one asked for; and all of them validate. The condition on the
  insertions is void in a table whose rows have a fixed length (no VARCHAR column) and in any table
  before its first deletion. An insertion that it excludes can destroy other rows of its page. Strings
  are UTF-8, as in Rust, and page numbers stay below the limit of \<open>i32\<close>.
\<close>

theorem table_is_multiset:
  assumes "table_reached l t f M w"
  shows "(\<exists>q rs. find_all file_store (ta_new t l) w = (Inr q, w) \<and> query_rows q (w_store w) = Inr rs \<and>
      mset (map snd rs) = M) \<and>
    (\<forall>E name c i. find_column_for_query_by_cell (schema t) name c = Inr i \<longrightarrow>
      (\<exists>q rs. ta_find file_store E (ta_new t l) name c w = (Inr q, w) \<and> query_rows q (w_store w) = Inr rs \<and>
        mset (map snd rs) = filter_mset (\<lambda>row. cells row ! i = c) M)) \<and>
    (\<forall>row. row \<in># M \<longrightarrow> row_validate row (schema t) = Inr ())"
proof -
  let ?m = "table_map l (w_store w) (table_id t)"
  have inv: "rows_inv (slot_lengths (schema t)) l t f (w_store w)" and M: "rows_of (schema t) ?m = M"
    using reached_ok [OF assms] by (simp_all add: reached_inv_def)
  note ok = rows_invD(2) [OF inv] and rd = rows_inv_readable(1) [OF inv]
  have "\<exists>q rs. find_all file_store (ta_new t l) w = (Inr q, w) \<and> query_rows q (w_store w) = Inr rs \<and>
      mset (map snd rs) = M"
  proof -
    obtain q rs where q: "find_all file_store (ta_new t l) w = (Inr q, w)" "query_rows q (w_store w) = Inr rs"
      "map row_key rs = map (\<lambda>(k, bs). (k, decode (schema t) bs)) (table_entries l (w_store w) (table_id t))"
      using find_all_entries [OF ok rd] by blast
    have "map snd rs = map snd (map row_key rs)" by (simp add: row_key_def comp_def)
    also have "\<dots> = map (\<lambda>(k, bs). decode (schema t) bs) (table_entries l (w_store w) (table_id t))"
      unfolding q(3) by (simp add: comp_def case_prod_beta)
    finally show ?thesis using q(1,2) rows_of_entries [OF ok, of "schema t"] M by metis
  qed
  moreover have "\<exists>q rs. ta_find file_store E (ta_new t l) name c w = (Inr q, w) \<and> query_rows q (w_store w) = Inr rs \<and>
      mset (map snd rs) = filter_mset (\<lambda>row. cells row ! i = c) M"
    if col: "find_column_for_query_by_cell (schema t) name c = Inr i" for E name c i
  proof -
    obtain q where "ta_find file_store E (ta_new t l) name c w = (Inr q, w)"
      using find_entries [OF ok rd col, of E] by blast
    then show ?thesis using found_rows [OF inv col, of E q w] M by auto
  qed
  moreover have "row_validate row (schema t) = Inr ()" if "row \<in># M" for row
  proof -
    from that obtain k bs where k: "?m k = Some bs" "row = decode (schema t) bs"
      using table_map_finite [OF ok] by (auto simp: M [symmetric] rows_of_def simp del: split_paired_Ex split_paired_All)
    show ?thesis using rows_inv_readable(2) [OF inv k(1)] k(2) by (simp add: row_validate_iff)
  qed
  ultimately show ?thesis by blast
qed

text \<open>
  C7. In every such state (with or without a VARCHAR column, as in C1) the outcome of an insertion is
  determined when no deleted slot of the table is longer than the row: it fails if and only if the row
  does not validate, or the page that the free space map gives out for it, an existing
  page of the table or a new one, does not take the row or has exhausted its record counter. A
  failed insertion changes no row. Deletions, and updates of columns of fixed size, never fail in any
  of these states (when the iteration orders of the hash maps are permutations). As in C1, strings
  are UTF-8 and page numbers stay below the limit of \<open>i32\<close>.
\<close>

theorem table_changes_outcome:
  assumes "table_reached l t f M w"
  shows "(\<forall>E row r w'. file_count l (w_store w) (TableStorage (table_id t)) + 2 < 2 ^ 31 \<longrightarrow> row_strings_ok row \<longrightarrow>
      insert_safe l t (w_store w) row \<longrightarrow> ta_insert file_store E (ta_new t l) row w = (r, w') \<longrightarrow>
      (case r of
         Inr _ \<Rightarrow> table_reached l t f (add_mset row M) w' \<and> row_validate row (schema t) = Inr () \<and>
           (\<forall>e. \<not> refused_row l t f (w_store w) (row_serialize row) e)
       | Inl e \<Rightarrow> table_reached l t f M w' \<and>
           ((\<exists>x. row_validate row (schema t) \<noteq> Inr () \<and> e = Err (InsertRowError (RowInvalid x))) \<or>
            row_validate row (schema t) = Inr () \<and> refused_row l t f (w_store w) (row_serialize row) e))) \<and>
    (\<forall>E name c i q w1 r w'. (\<forall>n. hash_order_ok (env_order E n)) \<longrightarrow>
      find_column_for_query_by_cell (schema t) name c = Inr i \<longrightarrow>
      ta_find file_store E (ta_new t l) name c w = (Inr q, w1) \<longrightarrow>
      ta_delete file_store E (ta_new t l) q w1 = (r, w') \<longrightarrow> r = Inr ()) \<and>
    (\<forall>E name c i q w1 updates nv r w'. (\<forall>n. hash_order_ok (env_order E n)) \<longrightarrow>
      (\<forall>(name, d) \<in> set updates. \<not> is_var_size (column_type_of d)) \<longrightarrow>
      collect_new_values (schema t) updates [] = Inr nv \<longrightarrow>
      find_column_for_query_by_cell (schema t) name c = Inr i \<longrightarrow>
      ta_find file_store E (ta_new t l) name c w = (Inr q, w1) \<longrightarrow>
      ta_update file_store E (ta_new t l) q updates w1 = (r, w') \<longrightarrow> r = Inr ())"
proof (intro conjI allI impI)
  fix E row r w'
  assume room: "file_count l (w_store w) (TableStorage (table_id t)) + 2 < 2 ^ 31" and row: "row_strings_ok row"
    and safe: "insert_safe l t (w_store w) row" and run: "ta_insert file_store E (ta_new t l) row w = (r, w')"
  note inv = reached_ok [OF assms]
  have "rows_inv (slot_lengths (schema t)) l t f (w_store w)" using inv by (simp add: reached_inv_def)
  note ins = reached_inserted [OF inv room row insert_safe_slots [OF this safe] run]
  show "case r of
         Inr _ \<Rightarrow> table_reached l t f (add_mset row M) w' \<and> row_validate row (schema t) = Inr () \<and>
           (\<forall>e. \<not> refused_row l t f (w_store w) (row_serialize row) e)
       | Inl e \<Rightarrow> table_reached l t f M w' \<and>
           ((\<exists>x. row_validate row (schema t) \<noteq> Inr () \<and> e = Err (InsertRowError (RowInvalid x))) \<or>
            row_validate row (schema t) = Inr () \<and> refused_row l t f (w_store w) (row_serialize row) e)"
    using ins(2-4) insertion [OF assms room row safe run] by (auto simp: row_validate_iff split: sum.splits)
next
  fix E name c i q w1 r w'
  assume *: "\<forall>n. hash_order_ok (env_order E n)" "find_column_for_query_by_cell (schema t) name c = Inr i"
    "ta_find file_store E (ta_new t l) name c w = (Inr q, w1)" "ta_delete file_store E (ta_new t l) q w1 = (r, w')"
  show "r = Inr ()" by (rule reached_deleted(1) [OF reached_ok [OF assms] deletable_lengths *])
next
  fix E name c i q w1 updates nv r w'
  assume *: "\<forall>n. hash_order_ok (env_order E n)" "\<forall>(name, d) \<in> set updates. \<not> is_var_size (column_type_of d)"
    "collect_new_values (schema t) updates [] = Inr nv" "find_column_for_query_by_cell (schema t) name c = Inr i"
    "ta_find file_store E (ta_new t l) name c w = (Inr q, w1)" "ta_update file_store E (ta_new t l) q updates w1 = (r, w')"
  show "r = Inr ()" by (rule reached_updated(1) [OF reached_ok [OF assms] *(2,3,1,4-6)])
qed

text \<open>A table over pages of 512 bytes, created and with one row.\<close>

definition fresh_fsm :: "table \<Rightarrow> fsm" where
  "fresh_fsm t = fsm_512\<lparr>fsm_table := t\<rparr>"

definition fresh_world :: "table \<Rightarrow> files world" where
  "fresh_world t = \<lparr>w_store = snd (file_create layout_512 (fsm_access t)
     (snd (file_create layout_512 (TableStorage (table_id t)) (\<lambda>_. None)))), w_handles = [], w_ticks = 0\<rparr>"

lemma fsm_of_table: "fsm_of l t f \<Longrightarrow> fsm_of l t' (f\<lparr>fsm_table := t'\<rparr>)"
  by (auto simp: fsm_of_def fsm_new_def Let_def and_then_Inr_iff split: if_splits)

lemma fresh_files:
  obtains fs1 where "file_create layout_512 (TableStorage (table_id t)) (\<lambda>_. None) = (Inr (), fs1)"
    and "file_create layout_512 (fsm_access t) fs1 = (Inr (), w_store (fresh_world t))"
    and "file_count layout_512 (w_store (fresh_world t)) (TableStorage (table_id t)) = 0"
proof -
  obtain fs1 where fs1: "file_create layout_512 (TableStorage (table_id t)) (\<lambda>_. None) = (Inr (), fs1)"
    "file_count layout_512 fs1 (TableStorage (table_id t)) = 0" "fs1 (storage_file_path (fsm_access t)) = None"
    using file_create_ok [OF layout_512_ok, of "\<lambda>_. None" "TableStorage (table_id t)"] by auto
  obtain fs2 where fs2: "file_create layout_512 (fsm_access t) fs1 = (Inr (), fs2)"
    "fs2 (storage_file_path (TableStorage (table_id t))) = fs1 (storage_file_path (TableStorage (table_id t)))"
    using file_create_ok [OF layout_512_ok, of fs1 "fsm_access t"] fs1(3) tab_not_map(1) [of t] by metis
  have "w_store (fresh_world t) = fs2" by (simp add: fresh_world_def fs1(1) fs2(1))
  then show thesis
    using that [of fs1] fs1(1,2) fs2 by (simp add: file_count_def)
qed

lemma fresh_history:
  assumes "columns (schema t) \<noteq> []"
  shows "table_history layout_512 t (fresh_fsm t) {#} (fresh_world t)"
proof -
  have fsm: "fsm_of layout_512 t (fresh_fsm t)"
    unfolding fresh_fsm_def by (rule fsm_of_table [OF fsm_512_of'])
  have "schema_new (columns (schema t)) = (Inr (schema t) :: (table_schema, unit) result)"
    using assms by (simp add: schema_new_def)
  moreover obtain fs1 where "file_create layout_512 (TableStorage (table_id t)) (\<lambda>_. None) = (Inr (), fs1)"
    "file_create layout_512 (fsm_access t) fs1 = (Inr (), w_store (fresh_world t))"
    by (rule fresh_files)
  ultimately show ?thesis by (intro opened [OF fsm])
qed

lemma fresh_count: "file_count layout_512 (w_store (fresh_world t)) (TableStorage (table_id t)) = 0"
  by (rule fresh_files [of t])

lemma fresh_pages: "file_pages layout_512 (w_store (fresh_world t)) (TableStorage (table_id t)) i = None"
  by (auto simp: file_pages_def fresh_count)

lemma new_page_takes:
  assumes "length dat \<le> 491"
  shows "\<not> insert_refused (set_page_id i (page_new layout_512)) dat e"
proof -
  have "free_gap (set_page_id i (page_new layout_512)) = 498" "number_of_records (set_page_id i (page_new layout_512)) = 0"
    by (simp_all add: free_gap_def set_page_id_def page_new_def slot_size_def page_data_size_def layout_512_def
        page_size_def layout_consts)
  then show ?thesis
    using assms by (auto simp: insert_refused_def can_insert_eq [OF empty_page(1) [OF layout_512_ok]] layout_consts)
qed

lemma empty_table_takes:
  assumes "\<And>i. file_pages layout_512 fs (TableStorage (table_id t)) i = None" and "length dat \<le> 491"
  shows "\<not> refused_row layout_512 t f fs dat e"
proof
  assume "refused_row layout_512 t f fs dat e"
  then obtain p where "p = set_page_id (page_id p) (page_new layout_512)" "insert_refused p dat e"
    by (auto simp: refused_row_def assms(1))
  then show False using new_page_takes [OF assms(2), of "page_id p" e] by simp
qed

lemma fresh_insert:
  assumes "columns (schema t) \<noteq> []" and "row_validate row (schema t) = Inr ()" and "row_strings_ok row"
    and "length (row_serialize row) \<le> 491"
  shows "\<exists>w. ta_insert file_store plain_env (ta_new t layout_512) row (fresh_world t) = (Inr (), w) \<and>
     table_history layout_512 t (fresh_fsm t) {#row#} w"
proof -
  obtain r w where run: "ta_insert file_store plain_env (ta_new t layout_512) row (fresh_world t) = (r, w)"
    by force
  note hist = fresh_history [OF assms(1)]
  have room: "file_count layout_512 (w_store (fresh_world t)) (TableStorage (table_id t)) + 2 < 2 ^ 31"
    by (simp add: fresh_count)
  note takes = empty_table_takes [OF fresh_pages assms(4), where f = "fresh_fsm t" and t = t]
  have "r = Inr ()"
  proof (cases r)
    case (Inl e)
    then show ?thesis
      using history_inserted(3) [OF history_ok [OF hist] room assms(3) run, of e] assms(2) takes
      by (simp add: row_validate_iff)
  qed simp
  then show ?thesis
    using inserted [OF hist room assms(3) run] run by auto
qed

text \<open>A row with a string is inserted, found and deleted; the table is then empty.\<close>

lemma users_facts:
  "columns (schema users_table) \<noteq> []" "row_validate user_row (schema users_table) = Inr ()" "row_strings_ok user_row"
  "length (row_serialize user_row) \<le> 491" "\<forall>n. hash_order_ok (env_order plain_env n)"
  "find_column_for_query_by_cell (schema users_table) (str_bytes '' id '') (CellInt (i32_of_int 7)) = Inr 0"
  "\<not> row_fits (Row []) (schema users_table)" "row_strings_ok (Row [])"
  using user_row_ok find_id_column(1)
  by (simp_all add: users_table_def plain_env_def hash_order_ok_def) (code_simp+)

lemma users_inserted:
  obtains w where "ta_insert file_store plain_env (ta_new users_table layout_512) user_row (fresh_world users_table) = (Inr (), w)"
    and "table_reached layout_512 users_table (fresh_fsm users_table) {#user_row#} w"
  using fresh_insert [OF users_facts(1-4)] of_history by blast

theorem table_is_multiset_witness:
  "\<exists>w q rs w'. ta_insert file_store plain_env (ta_new users_table layout_512) user_row (fresh_world users_table) = (Inr (), w) \<and>
     ta_find file_store plain_env (ta_new users_table layout_512) (str_bytes '' id '') (CellInt (i32_of_int 7)) w = (Inr q, w) \<and>
     query_rows q (w_store w) = Inr rs \<and> map snd rs = [user_row] \<and>
     ta_delete file_store plain_env (ta_new users_table layout_512) q w = (Inr (), w') \<and>
     (\<exists>q'. find_all file_store (ta_new users_table layout_512) w' = (Inr q', w') \<and> query_rows q' (w_store w') = Inr [])"
proof -
  let ?ta = "ta_new users_table layout_512"
  obtain w where
    w: "ta_insert file_store plain_env ?ta user_row (fresh_world users_table) = (Inr (), w)"
      "table_reached layout_512 users_table (fresh_fsm users_table) {#user_row#} w"
    by (rule users_inserted)
  from table_is_multiset [OF w(2), THEN conjunct2, THEN conjunct1] users_facts(6) obtain q rs where
    q: "ta_find file_store plain_env ?ta (str_bytes '' id '') (CellInt (i32_of_int 7)) w = (Inr q, w)"
    "query_rows q (w_store w) = Inr rs"
    "mset (map snd rs) = filter_mset (\<lambda>row. cells row ! 0 = CellInt (i32_of_int 7)) {#user_row#}"
    by meson
  have rs: "map snd rs = [user_row]"
    using q(3) by (simp add: user_row_def flip: mset_single_iff)
  obtain r w' where run: "ta_delete file_store plain_env ?ta q w = (r, w')" by force
  have r: "r = Inr ()"
    by (rule reached_deleted(1) [OF reached_ok [OF w(2)] deletable_lengths users_facts(5,6) q(1) run])
  have "table_reached layout_512 users_table (fresh_fsm users_table) {#} w'"
    using deletion [OF w(2) users_facts(5,6) q(1) run] by (simp add: user_row_def)
  from table_is_multiset [OF this, THEN conjunct1]
  have empty: "\<exists>q'. find_all file_store ?ta w' = (Inr q', w') \<and> query_rows q' (w_store w') = Inr []"
    by auto
  show ?thesis
    by (rule exI [of _ w], rule exI [of _ q], rule exI [of _ rs], rule exI [of _ w'])
      (use r empty w(1) q(1,2) rs run in simp)
qed

text \<open>
  In the same table a row without cells is refused by the validation, the other row is accepted, and
  its deletion succeeds.
\<close>

theorem table_changes_outcome_witness:
  "\<exists>x w v q w'. ta_insert file_store plain_env (ta_new users_table layout_512) (Row []) (fresh_world users_table) =
       (Inl (Err (InsertRowError (RowInvalid x))), w) \<and> table_reached layout_512 users_table (fresh_fsm users_table) {#} w \<and>
     ta_insert file_store plain_env (ta_new users_table layout_512) user_row (fresh_world users_table) = (Inr (), v) \<and>
     ta_find file_store plain_env (ta_new users_table layout_512) (str_bytes '' id '') (CellInt (i32_of_int 7)) v = (Inr q, v) \<and>
     ta_delete file_store plain_env (ta_new users_table layout_512) q v = (Inr (), w')"
proof -
  let ?ta = "ta_new users_table layout_512"
  note hist = fresh_history [OF users_facts(1)]
  note outcome = table_changes_outcome [THEN conjunct1, rule_format]
  note deletes = table_changes_outcome [THEN conjunct2, THEN conjunct1, rule_format]
  have room: "file_count layout_512 (w_store (fresh_world users_table)) (TableStorage (table_id users_table)) + 2 < 2 ^ 31"
    by (simp add: fresh_count)
  obtain r w where run: "ta_insert file_store plain_env ?ta (Row []) (fresh_world users_table) = (r, w)"
    by force
  from outcome [OF of_history [OF hist] room users_facts(8) history_insert_safe [OF hist] run] users_facts(7)
  obtain x where x: "r = Inl (Err (InsertRowError (RowInvalid x)))"
    "table_reached layout_512 users_table (fresh_fsm users_table) {#} w"
    by (auto simp: row_validate_iff split: sum.splits)
  obtain v where v: "ta_insert file_store plain_env ?ta user_row (fresh_world users_table) = (Inr (), v)"
      "table_reached layout_512 users_table (fresh_fsm users_table) {#user_row#} v"
    by (rule users_inserted)
  have "rows_inv (slot_lengths (schema users_table)) layout_512 users_table (fresh_fsm users_table) (w_store v)"
    using reached_ok [OF v(2)] by (simp add: reached_inv_def)
  then obtain q where
    q: "ta_find file_store plain_env ?ta (str_bytes '' id '') (CellInt (i32_of_int 7)) v = (Inr q, v)"
    using find_entries [OF rows_invD(2) rows_inv_readable(1) users_facts(6), where E = plain_env] by blast
  obtain r' w' where del: "ta_delete file_store plain_env ?ta q v = (r', w')" by force
  have "r' = Inr ()"
    using deletes [OF v(2) _ users_facts(6) q del] users_facts(5) by blast
  then show ?thesis using run x v(1) q del by blast
qed

end
