(* ===== verification/Seq_Access.thy ===== *)
theory Seq_Access
  imports Table_Access
begin

text \<open>
  \<open>src/src/database/seq_access.rs\<close>: the next value of the sequence of a column, kept in the
  catalog table \<open>sequences\<close>.
\<close>

record seq_access =
  sequence_acc :: table_access
  seq_for_table :: table

datatype seq_access_error =
    NotASequenceColumn
  | SeqColumnNotFound
  | NotASequence
  | SequenceNotFound
  | SequenceCorrupted
  | SeqUnknownError table_access_error

definition seq_new :: "table_access \<Rightarrow> table \<Rightarrow> seq_access" where
  "seq_new acc t = \<lparr>sequence_acc = acc, seq_for_table = t\<rparr>"

text \<open>The id of the column that has the sequence.\<close>

definition sequence_column :: "table \<Rightarrow> rstring \<Rightarrow> (i32, seq_access_error) result" where
  "sequence_column t column =
     and_then (ok_or SeqColumnNotFound (find_index_by_name (schema t) column)) (\<lambda>col_idx.
     and_then (index_get (columns (schema t)) col_idx) (\<lambda>col.
     case col_type col of
       TInt \<Rightarrow> Inr (col_id col)
     | _ \<Rightarrow> Inl (Err NotASequenceColumn)))"

definition current_value :: "(record_ref \<times> row) list \<Rightarrow> nat \<Rightarrow> (i32, seq_access_error) result" where
  "current_value seq current_idx =
     (if seq = [] then Inl (Err SequenceNotFound)
      else if 1 < length seq then Inl (Err SequenceCorrupted)
      else and_then (index_get (cells (snd (hd seq))) current_idx) (\<lambda>c.
           case c of
             CellInt val \<Rightarrow> i32_checked (i32_val val + 1)
           | _ \<Rightarrow> Inl (Err SequenceCorrupted)))"

definition next_val :: "'s store_ops \<Rightarrow> env \<Rightarrow> seq_access \<Rightarrow> rstring \<Rightarrow> ('s world, i32, seq_access_error) io" where
  "next_val S E acc column =
     (let ta = sequence_acc acc in
      io_bind (io_lift (sequence_column (seq_for_table acc) column)) (\<lambda>cid.
      io_bind (io_map_err SeqUnknownError (ta_find S E ta (str_bytes ''col_id'') (CellInt cid))) (\<lambda>seq_query.
      io_bind (io_lift (ok_or NotASequence (find_index_by_name (qr_schema seq_query) (str_bytes ''current'')))) (\<lambda>current_idx.
      io_bind (\<lambda>w. (map_err SeqUnknownError (query_rows seq_query (w_store w)), w)) (\<lambda>seq.
      io_bind (io_lift (current_value seq current_idx)) (\<lambda>next.
      io_bind (io_map_err SeqUnknownError (ta_find S E ta (str_bytes ''col_id'') (CellInt cid))) (\<lambda>q.
      io_bind (io_map_err SeqUnknownError (ta_update S E ta q [(str_bytes ''current'', CellInt next)])) (\<lambda>_.
      io_ret next))))))))"

end
