(* ===== verification/Catalog.thy ===== *)
theory Catalog
  imports Seq_Access
begin

text \<open>
  The reading side of \<open>src/src/database/mod.rs\<close>: a database, the schemas of the catalog
  tables that are written in the code, and the way from the name of a table to its schema, its indexes
  and its sequences through the catalog. The texts of the errors are left out.
\<close>

section \<open>The database and its errors\<close>

definition PAGE_SIZE :: u16 where "PAGE_SIZE = 4096"

record database =
  db_name :: rstring
  db_layout :: page_data_layout

datatype database_error =
    InvalidName
  | TableNotFound rstring
  | CorruptedDatabase
  | DbStore store_error
  | DbTableAccess table_access_error
  | DbIo io_error
  | DbPageLayout page_data_layout_error

definition new_with_store :: "rstring \<Rightarrow> (database, database_error) result" where
  "new_with_store name =
     and_then (map_err DbPageLayout (layout_new PAGE_SIZE)) (\<lambda>l. Inr \<lparr>db_name = name, db_layout = l\<rparr>)"

section \<open>The catalog tables\<close>

text \<open>\<open>Column::new\<close> on the literals of the code. None of the schemas is empty.\<close>

definition column_new :: "int \<Rightarrow> string \<Rightarrow> column_type \<Rightarrow> column" where
  "column_new i name t = \<lparr>col_id = i32_of_int i, col_name = str_bytes name, col_type = t\<rparr>"

definition table_instance :: table where
  "table_instance =
     \<lparr>table_id = i32_of_int 1, table_name = str_bytes ''tables'',
      schema = \<lparr>columns = [column_new 10 ''id'' TInt, column_new 20 ''name'' (TVarchar 512)]\<rparr>\<rparr>"

definition col_table_instance :: table where
  "col_table_instance =
     \<lparr>table_id = i32_of_int 2, table_name = str_bytes ''columns'',
      schema = \<lparr>columns =
        [column_new 30 ''id'' TInt,
         column_new 40 ''t_id'' TInt,
         column_new 50 ''name'' (TVarchar 512),
         column_new 60 ''type'' TByte,
         column_new 70 ''length'' TInt]\<rparr>\<rparr>"

section \<open>Reading integers\<close>

text \<open>
  \<open>str::parse::<i32>\<close>: an optional sign and at least one digit. The digits are accumulated in
  \<open>i32\<close> with overflow checks, towards the negative after a minus sign.
\<close>

fun parse_digits :: "bool \<Rightarrow> byte list \<Rightarrow> int \<Rightarrow> int option" where
  "parse_digits positive [] a = Some a"
| "parse_digits positive (b # bs) a =
     (if b < 48 \<or> 57 < b then None
      else
        let a' = (if positive then a * 10 + (uint b - 48) else a * 10 - (uint b - 48)) in
        if - (2 ^ 31) \<le> a' \<and> a' < 2 ^ 31 then parse_digits positive bs a' else None)"

definition parse_i32 :: "rstring \<Rightarrow> i32 option" where
  "parse_i32 s =
     (case s of
        [] \<Rightarrow> None
      | b # bs \<Rightarrow>
          if b = 43 \<or> b = 45 then
            (if bs = [] then None else map_option i32_of_int (parse_digits (b = 43) bs 0))
          else map_option i32_of_int (parse_digits True s 0))"

text \<open>\<open>split(' ')\<close>: never empty, with an empty piece between two blanks.\<close>

fun split_blank :: "rstring \<Rightarrow> rstring list" where
  "split_blank [] = [[]]"
| "split_blank (b # bs) =
     (if b = 32 then [] # split_blank bs
      else case split_blank bs of [] \<Rightarrow> [[b]] | piece # pieces \<Rightarrow> (b # piece) # pieces)"

fun parse_all :: "rstring list \<Rightarrow> (i32 list, database_error) result" where
  "parse_all [] = Inr []"
| "parse_all (s # ss) =
     and_then (ok_or CorruptedDatabase (parse_i32 s)) (\<lambda>v.
     and_then (parse_all ss) (\<lambda>vs. Inr (v # vs)))"

section \<open>Cells of catalog rows\<close>

definition int_cell :: "row \<Rightarrow> nat \<Rightarrow> (i32, database_error) result" where
  "int_cell r i =
     and_then (index_get (cells r) i) (\<lambda>c. case c of CellInt v \<Rightarrow> Inr v | _ \<Rightarrow> Inl (Err CorruptedDatabase))"

definition varchar_cell :: "row \<Rightarrow> nat \<Rightarrow> (rstring, database_error) result" where
  "varchar_cell r i =
     and_then (index_get (cells r) i) (\<lambda>c. case c of CellVarchar v \<Rightarrow> Inr v | _ \<Rightarrow> Inl (Err CorruptedDatabase))"

definition byte_cell :: "row \<Rightarrow> nat \<Rightarrow> (u8, database_error) result" where
  "byte_cell r i =
     and_then (index_get (cells r) i) (\<lambda>c. case c of CellByte v \<Rightarrow> Inr v | _ \<Rightarrow> Inl (Err CorruptedDatabase))"

definition column_index :: "table_schema \<Rightarrow> string \<Rightarrow> (nat, database_error) result" where
  "column_index s name = ok_or CorruptedDatabase (find_index_by_name s (str_bytes name))"

definition db_rows :: "('s, 'r) query_result \<Rightarrow> ('s world, 'r list, database_error) io" where
  "db_rows q w = (map_err DbTableAccess (query_rows q (w_store w)), w)"

section \<open>Reading a table\<close>

text \<open>The id of the table with the rows that the query on \<open>tables\<close> has found.\<close>

definition table_id_of_rows :: "rstring \<Rightarrow> nat \<Rightarrow> (record_ref \<times> row) list \<Rightarrow> (i32, database_error) result" where
  "table_id_of_rows name table_id_index rows =
     (if rows = [] then Inl (Err (TableNotFound name))
      else if 1 < length rows then Inl (Err CorruptedDatabase)
      else int_cell (snd (hd rows)) table_id_index)"

text \<open>The column that a row of \<open>columns\<close> describes; \<open>length as u16\<close> truncates.\<close>

definition column_type_of_code :: "u8 \<Rightarrow> i32 \<Rightarrow> (column_type, database_error) result" where
  "column_type_of_code val len =
     (if val = 0 then Inr TInt
      else if val = 1 then Inr (TVarchar (ucast (i32_word len)))
      else if val = 2 then Inr TByte
      else Inl (Err CorruptedDatabase))"

definition column_of_row :: "nat \<Rightarrow> nat \<Rightarrow> nat \<Rightarrow> nat \<Rightarrow> row \<Rightarrow> (column, database_error) result" where
  "column_of_row id_index name_index type_index length_index r =
     and_then (int_cell r id_index) (\<lambda>i.
     and_then (varchar_cell r name_index) (\<lambda>name.
     and_then (int_cell r length_index) (\<lambda>len.
     and_then (byte_cell r type_index) (\<lambda>val.
     and_then (column_type_of_code val len) (\<lambda>t.
     Inr \<lparr>col_id = i, col_name = name, col_type = t\<rparr>)))))"

definition read_table :: "'s store_ops \<Rightarrow> env \<Rightarrow> database \<Rightarrow> rstring \<Rightarrow> ('s world, table, database_error) io" where
  "read_table S E d name =
     (let acc = ta_new table_instance (db_layout d) in
      io_bind (io_map_err DbTableAccess (ta_find S E acc (str_bytes ''name'') (CellVarchar name))) (\<lambda>table_query.
      io_bind (io_lift (column_index (qr_schema table_query) ''id'')) (\<lambda>table_id_index.
      io_bind (db_rows table_query) (\<lambda>rows.
      io_bind (io_lift (table_id_of_rows name table_id_index rows)) (\<lambda>tid.
      let col_acc = ta_new col_table_instance (db_layout d) in
      io_bind (io_map_err DbTableAccess (ta_find S E col_acc (str_bytes ''t_id'') (CellInt tid))) (\<lambda>col_query.
      let col_schema = qr_schema col_query in
      io_bind (io_lift (column_index col_schema ''id'')) (\<lambda>id_index.
      io_bind (io_lift (column_index col_schema ''name'')) (\<lambda>name_index.
      io_bind (io_lift (column_index col_schema ''type'')) (\<lambda>type_index.
      io_bind (io_lift (column_index col_schema ''length'')) (\<lambda>length_index.
      io_bind (db_rows col_query) (\<lambda>col_rows.
      io_bind (io_lift (collect_results
        (map (\<lambda>(_, r). column_of_row id_index name_index type_index length_index r) col_rows))) (\<lambda>cols.
      io_bind (io_lift (schema_new cols)) (\<lambda>s.
      io_ret \<lparr>table_id = tid, table_name = name, schema = s\<rparr>)))))))))))))"

section \<open>Opening a table\<close>

text \<open>The ids of an index and of its column, from a row of \<open>indexes\<close>.\<close>

definition index_of_row :: "nat \<Rightarrow> nat \<Rightarrow> row \<Rightarrow> (i32 \<times> i32, database_error) result" where
  "index_of_row id_idx col_ids_idx r =
     and_then (int_cell r id_idx) (\<lambda>btree_id.
     and_then (varchar_cell r col_ids_idx) (\<lambda>val.
     and_then (parse_all (split_blank val)) (\<lambda>col_ids.
     if 1 < length col_ids then Inl (Err CorruptedDatabase)
     else and_then (index_get col_ids 0) (\<lambda>cid. Inr (btree_id, cid)))))"

text \<open>\<open>read_btree\<close> opens (or creates) the file of the index; the handle gets the next position.\<close>

definition open_index :: "'s store_ops \<Rightarrow> i32 \<Rightarrow> ('s world, nat, database_error) io" where
  "open_index S btree_id w =
     (case st_read_btree S btree_id (w_store w) of
        (Inl e, s) \<Rightarrow> (map_err DbStore (Inl e), w\<lparr>w_store := s\<rparr>)
      | (Inr p, s) \<Rightarrow>
          (Inr (length (w_handles w)),
           w\<lparr>w_store := s, w_handles := w_handles w @ [\<lparr>ih_btree = btree_id, ih_pager = p\<rparr>]\<rparr>))"

fun open_indexes ::
  "'s store_ops \<Rightarrow> nat \<Rightarrow> nat \<Rightarrow> (record_ref \<times> row) list \<Rightarrow> ('s world, (i32 \<times> nat) list, database_error) io" where
  "open_indexes S id_idx col_ids_idx [] = io_ret []"
| "open_indexes S id_idx col_ids_idx ((_, r) # rows) =
     io_bind (io_lift (index_of_row id_idx col_ids_idx r)) (\<lambda>(btree_id, cid).
     io_bind (open_index S btree_id) (\<lambda>h.
     io_bind (open_indexes S id_idx col_ids_idx rows) (\<lambda>cols.
     io_ret ((cid, h) # cols))))"

text \<open>
  The recursion of \<open>table_access\<close> ends at the table with id 4. The fuel is its depth; a catalog
  in which \<open>indexes\<close> has another id makes the code recurse until its stack is used up.
\<close>

fun open_table ::
  "'s store_ops \<Rightarrow> env \<Rightarrow> database \<Rightarrow> nat \<Rightarrow> table \<Rightarrow> ('s world, table_access, database_error) io" where
  "open_table S E d 0 t = io_panic"
| "open_table S E d (Suc fuel) t =
     (if table_id t \<noteq> i32_of_int 4 then
        io_bind (read_table S E d (str_bytes ''indexes'')) (\<lambda>index_table.
        io_bind (open_table S E d fuel index_table) (\<lambda>idx_acc.
        io_bind (io_map_err DbTableAccess (ta_find S E idx_acc (str_bytes ''t_id'') (CellInt (table_id t)))) (\<lambda>indexes.
        io_bind (io_lift (column_index (qr_schema indexes) ''id'')) (\<lambda>id_idx.
        io_bind (io_lift (column_index (qr_schema indexes) ''col_ids'')) (\<lambda>col_ids_idx.
        io_bind (db_rows indexes) (\<lambda>rows.
        io_bind (open_indexes S id_idx col_ids_idx rows) (\<lambda>indexed_columns.
        io_ret (with_indexes indexed_columns (ta_new t (db_layout d))))))))))
      else io_ret (ta_new t (db_layout d)))"

definition db_table_access :: "'s store_ops \<Rightarrow> env \<Rightarrow> database \<Rightarrow> table \<Rightarrow> ('s world, table_access, database_error) io" where
  "db_table_access S E d t = open_table S E d (env_fuel E) t"

definition seq_access_for_table ::
  "'s store_ops \<Rightarrow> env \<Rightarrow> database \<Rightarrow> table \<Rightarrow> ('s world, seq_access, database_error) io" where
  "seq_access_for_table S E d t =
     io_bind (read_table S E d (str_bytes ''sequences'')) (\<lambda>seq_table.
     io_ret (seq_new (ta_new seq_table (db_layout d)) t))"

end
