(* ===== verification/Database.thy ===== *)
theory Database
  imports Catalog
begin

text \<open>
  The writing side of \<open>src/src/database/mod.rs\<close>: creating a database and its four catalog
  tables, creating a table with its columns, sequences and indexes, and dropping a table.
\<close>

section \<open>The names of databases\<close>

definition ascii_alphanumeric :: "byte \<Rightarrow> bool" where
  "ascii_alphanumeric c \<longleftrightarrow> 48 \<le> c \<and> c \<le> 57 \<or> 65 \<le> c \<and> c \<le> 90 \<or> 97 \<le> c \<and> c \<le> 122"

text \<open>The bytes of a character that is not ASCII are at least 128, so bytes can be tested for characters.\<close>

definition is_safe_dir_name :: "rstring \<Rightarrow> bool" where
  "is_safe_dir_name name \<longleftrightarrow> name \<noteq> [] \<and> list_all (\<lambda>c. ascii_alphanumeric c \<or> c = 95 \<or> c = 45) name"

section \<open>The initial catalog\<close>

definition insert_rows ::
  "'s store_ops \<Rightarrow> env \<Rightarrow> table_access \<Rightarrow> row list \<Rightarrow> ('s world, unit, database_error) io" where
  "insert_rows S E acc rows = for_each (\<lambda>r. io_map_err DbTableAccess (ta_insert S E acc r)) rows"

text \<open>\<open>store.create\<close> for a table and for its free space map.\<close>

definition create_table_files ::
  "'s store_ops \<Rightarrow> database \<Rightarrow> table \<Rightarrow> ('s world, unit, database_error) io" where
  "create_table_files S d t =
     io_bind (at_store DbStore (st_create S (db_layout d) (TableStorage (table_id t)))) (\<lambda>_.
     at_store DbStore (st_create S (db_layout d) (fsm_access t)))"

definition int_lit :: "int \<Rightarrow> cell" where "int_lit i = CellInt (i32_of_int i)"

definition str_lit :: "string \<Rightarrow> cell" where "str_lit s = CellVarchar (str_bytes s)"

definition table_rows :: "row list" where
  "table_rows =
     [Row [int_lit 1, str_lit ''tables''],
      Row [int_lit 2, str_lit ''columns''],
      Row [int_lit 3, str_lit ''sequences''],
      Row [int_lit 4, str_lit ''indexes'']]"

definition init_table_table :: "'s store_ops \<Rightarrow> env \<Rightarrow> database \<Rightarrow> ('s world, unit, database_error) io" where
  "init_table_table S E d =
     io_bind (create_table_files S d table_instance) (\<lambda>_.
     insert_rows S E (ta_new table_instance (db_layout d)) table_rows)"

definition column_rows :: "row list" where
  "column_rows =
     [Row [int_lit 10, int_lit 1, str_lit ''id'', CellByte 0, int_lit 0],
      Row [int_lit 20, int_lit 1, str_lit ''name'', CellByte 1, int_lit 512],
      Row [int_lit 30, int_lit 2, str_lit ''id'', CellByte 0, int_lit 0],
      Row [int_lit 40, int_lit 2, str_lit ''t_id'', CellByte 0, int_lit 0],
      Row [int_lit 50, int_lit 2, str_lit ''name'', CellByte 1, int_lit 512],
      Row [int_lit 60, int_lit 2, str_lit ''type'', CellByte 2, int_lit 0],
      Row [int_lit 70, int_lit 2, str_lit ''length'', CellByte 0, int_lit 0],
      Row [int_lit 80, int_lit 3, str_lit ''id'', CellByte 0, int_lit 0],
      Row [int_lit 85, int_lit 3, str_lit ''col_id'', CellByte 0, int_lit 0],
      Row [int_lit 90, int_lit 3, str_lit ''current'', CellByte 0, int_lit 0],
      Row [int_lit 100, int_lit 4, str_lit ''id'', CellByte 0, int_lit 0],
      Row [int_lit 110, int_lit 4, str_lit ''t_id'', CellByte 0, int_lit 0],
      Row [int_lit 120, int_lit 4, str_lit ''col_ids'', CellByte 1, int_lit 512]]"

definition init_column_table :: "'s store_ops \<Rightarrow> env \<Rightarrow> database \<Rightarrow> ('s world, unit, database_error) io" where
  "init_column_table S E d =
     io_bind (create_table_files S d col_table_instance) (\<lambda>_.
     insert_rows S E (ta_new col_table_instance (db_layout d)) column_rows)"

definition seq_table_instance :: table where
  "seq_table_instance =
     \<lparr>table_id = i32_of_int 3, table_name = str_bytes ''sequences'',
      schema = \<lparr>columns =
        [column_new 80 ''id'' TInt, column_new 85 ''col_id'' TInt, column_new 90 ''current'' TInt]\<rparr>\<rparr>"

definition sequence_rows :: "row list" where
  "sequence_rows =
     [Row [int_lit 1, int_lit 10, int_lit 4],
      Row [int_lit 2, int_lit 30, int_lit 120],
      Row [int_lit 4, int_lit 80, int_lit 4],
      Row [int_lit 3, int_lit 100, int_lit 0]]"

definition init_sequences_table :: "'s store_ops \<Rightarrow> env \<Rightarrow> database \<Rightarrow> ('s world, unit, database_error) io" where
  "init_sequences_table S E d =
     io_bind (create_table_files S d seq_table_instance) (\<lambda>_.
     insert_rows S E (ta_new seq_table_instance (db_layout d)) sequence_rows)"

definition idx_table_instance :: table where
  "idx_table_instance =
     \<lparr>table_id = i32_of_int 4, table_name = str_bytes ''indexes'',
      schema = \<lparr>columns =
        [column_new 100 ''id'' TInt, column_new 110 ''t_id'' TInt, column_new 120 ''col_ids'' (TVarchar 512)]\<rparr>\<rparr>"

definition init_indexes_table :: "'s store_ops \<Rightarrow> database \<Rightarrow> ('s world, unit, database_error) io" where
  "init_indexes_table S d = create_table_files S d idx_table_instance"

definition db_init :: "'s store_ops \<Rightarrow> env \<Rightarrow> database \<Rightarrow> ('s world, unit, database_error) io" where
  "db_init S E d =
     io_bind (init_table_table S E d) (\<lambda>_.
     io_bind (init_column_table S E d) (\<lambda>_.
     io_bind (init_sequences_table S E d) (\<lambda>_.
     init_indexes_table S d)))"

definition drop_create :: "'s store_ops \<Rightarrow> env \<Rightarrow> database \<Rightarrow> ('s world, unit, database_error) io" where
  "drop_create S E d = io_bind (at_store DbStore (st_delete_all S)) (\<lambda>_. db_init S E d)"

section \<open>Opening a database\<close>

text \<open>What the working directory has under a name.\<close>

datatype dir_entry = Directory files | PlainFile

type_synonym working_dir = "rstring \<Rightarrow> dir_entry option"

fun is_directory :: "dir_entry option \<Rightarrow> bool" where
  "is_directory (Some (Directory _)) = True"
| "is_directory _ = False"

fun directory_files :: "dir_entry option \<Rightarrow> files" where
  "directory_files (Some (Directory fs)) = fs"
| "directory_files _ = Map.empty"

definition database_new :: "env \<Rightarrow> rstring \<Rightarrow> (working_dir, database, database_error) io" where
  "database_new E name wd =
     (if \<not> is_safe_dir_name name then (Inl (Err InvalidName), wd)
      else
        let do_init = (wd name = None);
            wd = (if do_init then wd(name \<mapsto> Directory Map.empty) else wd) in
        case and_then (map_err DbStore (file_store_new (\<lambda>_. is_directory (wd name)) (map (\<lambda>b. char_of (unat b)) name))) (\<lambda>_.
             new_with_store name) of
          Inl e \<Rightarrow> (Inl e, wd)
        | Inr d \<Rightarrow>
            if do_init then
              (case db_init file_store E d \<lparr>w_store = directory_files (wd name), w_handles = [], w_ticks = 0\<rparr> of
                 (r, w) \<Rightarrow> (and_then r (\<lambda>_. Inr d), wd(name \<mapsto> Directory (w_store w))))
            else (Inr d, wd))"

section \<open>Creating a table\<close>

record create_column_command =
  cc_name :: rstring
  cc_type :: column_type
  has_sequence :: bool
  is_unique :: bool

definition command_of_pair :: "rstring \<times> column_type \<Rightarrow> create_column_command" where
  "command_of_pair v = \<lparr>cc_name = fst v, cc_type = snd v, has_sequence = False, is_unique = False\<rparr>"

definition command_of_triple :: "rstring \<times> column_type \<times> bool \<Rightarrow> create_column_command" where
  "command_of_triple v =
     (case v of (n, t, s) \<Rightarrow> \<lparr>cc_name = n, cc_type = t, has_sequence = s, is_unique = False\<rparr>)"

definition command_of_quadruple :: "rstring \<times> column_type \<times> bool \<times> bool \<Rightarrow> create_column_command" where
  "command_of_quadruple v =
     (case v of (n, t, s, u) \<Rightarrow> \<lparr>cc_name = n, cc_type = t, has_sequence = s, is_unique = u\<rparr>)"

text \<open>\<open>UnknownError\<close> has the text of another error, here the error itself.\<close>

datatype unknown_reason =
    FromDatabase database_error
  | FromSeq seq_access_error
  | FromTableAccess table_access_error
  | FromStore store_error

datatype create_table_error = InvalidSchemaDefinition | TableAlreadyExists | UnknownError unknown_reason

definition from_db :: "('s, 'a, database_error) io \<Rightarrow> ('s, 'a, create_table_error) io" where
  "from_db = io_map_err (UnknownError \<circ> FromDatabase)"

definition from_seq :: "('s, 'a, seq_access_error) io \<Rightarrow> ('s, 'a, create_table_error) io" where
  "from_seq = io_map_err (UnknownError \<circ> FromSeq)"

definition from_access :: "('s, 'a, table_access_error) io \<Rightarrow> ('s, 'a, create_table_error) io" where
  "from_access = io_map_err (UnknownError \<circ> FromTableAccess)"

fun type_code :: "column_type \<Rightarrow> u8" where
  "type_code TInt = 0"
| "type_code (TVarchar _) = 1"
| "type_code TByte = 2"

fun type_length :: "column_type \<Rightarrow> i32" where
  "type_length TInt = i32_of_int 0"
| "type_length (TVarchar len) = i32_of_int (uint len)"
| "type_length TByte = i32_of_int 0"

text \<open>The row of \<open>columns\<close> for a column of a table.\<close>

definition column_row :: "i32 \<Rightarrow> column \<Rightarrow> row" where
  "column_row tbl_id col =
     Row [CellInt (col_id col), CellInt tbl_id, CellVarchar (col_name col),
          CellByte (type_code (col_type col)), CellInt (type_length (col_type col))]"

definition create_sequence ::
  "'s store_ops \<Rightarrow> env \<Rightarrow> database \<Rightarrow> i32 \<Rightarrow> ('s world, unit, create_table_error) io" where
  "create_sequence S E d cid =
     io_bind (from_db (read_table S E d (str_bytes ''sequences''))) (\<lambda>seq_table.
     io_bind (from_db (seq_access_for_table S E d seq_table)) (\<lambda>seq_sequences.
     io_bind (from_db (db_table_access S E d seq_table)) (\<lambda>seq_acc.
     io_bind (from_seq (next_val S E seq_sequences (str_bytes ''id''))) (\<lambda>i.
     from_access (ta_insert S E seq_acc (Row [CellInt i, CellInt cid, int_lit 0]))))))"

definition create_index ::
  "'s store_ops \<Rightarrow> env \<Rightarrow> database \<Rightarrow> i32 \<Rightarrow> i32 \<Rightarrow> ('s world, unit, create_table_error) io" where
  "create_index S E d tbl_id cid =
     io_bind (from_db (read_table S E d (str_bytes ''indexes''))) (\<lambda>idx_table.
     io_bind (from_db (seq_access_for_table S E d idx_table)) (\<lambda>idx_sequences.
     io_bind (from_db (db_table_access S E d idx_table)) (\<lambda>idx_acc.
     io_bind (from_seq (next_val S E idx_sequences (str_bytes ''id''))) (\<lambda>i.
     from_access (ta_insert S E idx_acc
       (Row [CellInt i, CellInt tbl_id, CellVarchar (str_bytes (dec_int (i32_val cid)))]))))))"

definition create_column ::
  "'s store_ops \<Rightarrow> env \<Rightarrow> database \<Rightarrow> i32 \<Rightarrow> seq_access \<Rightarrow> table_access \<Rightarrow> create_column_command \<Rightarrow>
   ('s world, column, create_table_error) io" where
  "create_column S E d tbl_id col_seq_acc col_acc cc =
     (if is_unique cc \<and> cc_type cc \<noteq> TInt then io_fail InvalidSchemaDefinition
      else if has_sequence cc \<and> cc_type cc \<noteq> TInt then io_fail InvalidSchemaDefinition
      else
        io_bind (from_seq (next_val S E col_seq_acc (str_bytes ''id''))) (\<lambda>cid.
        let col = \<lparr>col_id = cid, col_name = cc_name cc, col_type = cc_type cc\<rparr> in
        io_bind (from_access (ta_insert S E col_acc (column_row tbl_id col))) (\<lambda>_.
        io_bind (if has_sequence cc then create_sequence S E d cid else io_ret ()) (\<lambda>_.
        io_bind (if is_unique cc then create_index S E d tbl_id cid else io_ret ()) (\<lambda>_.
        io_ret col)))))"

fun create_columns ::
  "'s store_ops \<Rightarrow> env \<Rightarrow> database \<Rightarrow> i32 \<Rightarrow> seq_access \<Rightarrow> table_access \<Rightarrow> create_column_command list \<Rightarrow>
   column list \<Rightarrow> ('s world, column list, create_table_error) io" where
  "create_columns S E d tbl_id col_seq_acc col_acc [] cols = io_ret cols"
| "create_columns S E d tbl_id col_seq_acc col_acc (cc # ccs) cols =
     io_bind (create_column S E d tbl_id col_seq_acc col_acc cc) (\<lambda>col.
     create_columns S E d tbl_id col_seq_acc col_acc ccs (cols @ [col]))"

definition create_fsm :: "'s store_ops \<Rightarrow> database \<Rightarrow> table \<Rightarrow> ('s world, unit, create_table_error) io" where
  "create_fsm S d t = at_store (UnknownError \<circ> FromStore) (st_create S (db_layout d) (fsm_access t))"

definition create_table ::
  "'s store_ops \<Rightarrow> env \<Rightarrow> database \<Rightarrow> rstring \<Rightarrow> create_column_command list \<Rightarrow>
   ('s world, table, create_table_error) io" where
  "create_table S E d name column_commands =
     io_bind (from_db (read_table S E d (str_bytes ''tables''))) (\<lambda>table_table.
     io_bind (from_db (seq_access_for_table S E d table_table)) (\<lambda>tbl_seq_acc.
     io_bind (from_db (db_table_access S E d table_table)) (\<lambda>access.
     io_bind (from_access (ta_find S E access (str_bytes ''name'') (CellVarchar name))) (\<lambda>existing_table_query.
     io_bind (from_access (\<lambda>w. (query_rows existing_table_query (w_store w), w))) (\<lambda>rows.
     if rows \<noteq> [] then io_fail TableAlreadyExists
     else
       io_bind (from_seq (next_val S E tbl_seq_acc (str_bytes ''id''))) (\<lambda>tbl_id.
       io_bind (from_access (ta_insert S E access (Row [CellInt tbl_id, CellVarchar name]))) (\<lambda>_.
       io_bind (from_db (read_table S E d (str_bytes ''columns''))) (\<lambda>col_table.
       io_bind (from_db (seq_access_for_table S E d col_table)) (\<lambda>col_seq_acc.
       io_bind (from_db (db_table_access S E d col_table)) (\<lambda>col_acc.
       io_bind (create_columns S E d tbl_id col_seq_acc col_acc column_commands []) (\<lambda>cols.
       io_bind (io_lift (schema_new cols)) (\<lambda>s.
       let new_table = \<lparr>table_id = tbl_id, table_name = name, schema = s\<rparr> in
       io_bind (at_store (UnknownError \<circ> FromStore) (st_create S (db_layout d) (TableStorage tbl_id))) (\<lambda>_.
       io_bind (create_fsm S d new_table) (\<lambda>_.
       io_ret new_table))))))))))))))"

section \<open>Dropping a table\<close>

definition drop_table :: "'s store_ops \<Rightarrow> env \<Rightarrow> database \<Rightarrow> rstring \<Rightarrow> ('s world, unit, database_error) io" where
  "drop_table S E d name =
     io_bind (read_table S E d name) (\<lambda>table_to_drop.
     io_bind (read_table S E d (str_bytes ''tables'')) (\<lambda>table_table.
     io_bind (db_table_access S E d table_table) (\<lambda>tbl_access.
     io_bind (io_map_err DbTableAccess (ta_find S E tbl_access (str_bytes ''name'') (CellVarchar name))) (\<lambda>tbl_query.
     io_bind (io_map_err DbTableAccess (ta_delete S E tbl_access tbl_query)) (\<lambda>_.
     io_bind (read_table S E d (str_bytes ''columns'')) (\<lambda>col_table.
     io_bind (db_table_access S E d col_table) (\<lambda>col_access.
     io_bind (io_map_err DbTableAccess
       (ta_find S E col_access (str_bytes ''t_id'') (CellInt (table_id table_to_drop)))) (\<lambda>col_query.
     io_bind (io_map_err DbTableAccess (ta_delete S E col_access col_query)) (\<lambda>_.
     at_store DbStore (st_delete S (TableStorage (table_id table_to_drop))))))))))))"

end
