(* ===== verification/Seq_Props.thy ===== *)
theory Seq_Props
  imports Table_History Database
begin

text \<open>
  Sequences: what \<open>next_val\<close> does to the catalog table \<open>sequences\<close>, on top of the multiset
  view of tables.
\<close>

section \<open>The columns of \<open>sequences\<close>\<close>

lemma seq_columns:
  "find_column_for_query (schema seq_table_instance) (str_bytes ''col_id'') = Inr 1"
  "find_column_for_query (schema seq_table_instance) (str_bytes ''current'') = Inr 2"
  "find_index_by_name (schema seq_table_instance) (str_bytes ''current'') = Some 2"
  "col_type (columns (schema seq_table_instance) ! 1) = TInt"
  "col_type (columns (schema seq_table_instance) ! 2) = TInt"
  by code_simp+

lemma seq_column_cells:
  "find_column_for_query_by_cell (schema seq_table_instance) (str_bytes ''col_id'') (CellInt c) = Inr 1"
  "find_column_for_query_by_cell (schema seq_table_instance) (str_bytes ''current'') (CellInt c) = Inr 2"
  using find_column_by_cell seq_columns by (simp_all add: is_of_type_def)

lemma seq_new_values:
  "collect_new_values (schema seq_table_instance) [(str_bytes ''current'', CellInt c)] [] = Inr [(2, CellInt c)]"
  by (simp add: seq_column_cells)

definition seq_row :: "i32 \<Rightarrow> i32 \<Rightarrow> i32 \<Rightarrow> row" where
  "seq_row i cid v = Row [CellInt i, CellInt cid, CellInt v]"

lemma seq_row_set: "set_cells [(2, CellInt n)] (seq_row i cid v) = seq_row i cid n"
  by (simp add: set_cells_def seq_row_def new_cell_def numeral_2_eq_2)

lemma next_val_run:
  assumes "sequence_column tab column = Inr cid"
    and "ta_find S E ta (str_bytes ''col_id'') (CellInt cid) w = (Inr q, w)"
    and "qr_schema q = schema seq_table_instance" and "query_rows q (w_store w) = Inr rs"
  shows "next_val S E (seq_new ta tab) column w =
    (case current_value rs 2 of
       Inl e \<Rightarrow> (Inl e, w)
     | Inr next \<Rightarrow> io_bind (io_map_err SeqUnknownError
         (ta_update S E ta q [(str_bytes ''current'', CellInt next)])) (\<lambda>_. io_ret next) w)"
  using assms by (simp add: next_val_def seq_new_def Let_def io_bind_def io_map_err_def seq_columns(3) split: sum.split)

lemma current_value_single:
  "current_value [(r, seq_row i cid v)] 2 = i32_checked (i32_val v + 1)"
  by (simp add: current_value_def seq_row_def numeral_2_eq_2)

section \<open>Properties\<close>

text \<open>
  C16. When the table \<open>sequences\<close> has one row for a column, \<open>next_val\<close> returns the value of
  that row plus one and leaves the table with that row advanced and every other row as it was; so two
  calls never return the same value. It fails when the value is \<open>i32::MAX\<close>, when there is no
  row and when there is more than one, and then changes nothing.
\<close>

theorem next_val_advances:
  assumes "table_history l t f M w" and "schema t = schema seq_table_instance"
    and "sequence_column tab column = Inr cid" and "\<forall>n. hash_order_ok (env_order E n)"
  shows "(\<forall>i v. filter_mset (\<lambda>row. cells row ! 1 = CellInt cid) M = {#seq_row i cid v#} \<longrightarrow>
      (if i32_val v + 1 < 2 ^ 31
       then \<exists>w'. next_val file_store E (seq_new (ta_new t l) tab) column w = (Inr (i32_of_int (i32_val v + 1)), w') \<and>
         table_history l t f (M - {#seq_row i cid v#} + {#seq_row i cid (i32_of_int (i32_val v + 1))#}) w'
       else next_val file_store E (seq_new (ta_new t l) tab) column w = (Inl Panic, w))) \<and>
    (size (filter_mset (\<lambda>row. cells row ! 1 = CellInt cid) M) = 0 \<longrightarrow>
      next_val file_store E (seq_new (ta_new t l) tab) column w = (Inl (Err SequenceNotFound), w)) \<and>
    (1 < size (filter_mset (\<lambda>row. cells row ! 1 = CellInt cid) M) \<longrightarrow>
      next_val file_store E (seq_new (ta_new t l) tab) column w = (Inl (Err SequenceCorrupted), w))"
proof -
  let ?P = "\<lambda>row. cells row ! 1 = CellInt cid"
  have inv: "table_inv l t f (w_store w)" and M: "rows_of (schema t) (table_map l (w_store w) (table_id t)) = M"
    using history_ok [OF assms(1)] by (simp_all add: history_inv_def)
  note col = seq_column_cells(1) [of cid, folded assms(2)]
  obtain q where q: "ta_find file_store E (ta_new t l) (str_bytes ''col_id'') (CellInt cid) w = (Inr q, w)"
    using find_entries [OF table_invD(2) [OF inv] table_inv_readable(1) [OF inv] col, of E] by blast
  obtain rs where rs: "qr_schema q = schema t" "query_rows q (w_store w) = Inr rs"
    "mset (map snd rs) = filter_mset ?P M"
    using found_places [OF inv col q] M by auto
  note run = next_val_run [OF assms(3) q rs(1) [unfolded assms(2)] rs(2)]
  have len: "length rs = size (filter_mset ?P M)"
    using rs(3) by (metis size_mset length_map)
  have one: "if i32_val v + 1 < 2 ^ 31
       then \<exists>w'. next_val file_store E (seq_new (ta_new t l) tab) column w = (Inr (i32_of_int (i32_val v + 1)), w') \<and>
         table_history l t f (M - {#seq_row i cid v#} + {#seq_row i cid (i32_of_int (i32_val v + 1))#}) w'
       else next_val file_store E (seq_new (ta_new t l) tab) column w = (Inl Panic, w)"
    if single: "filter_mset ?P M = {#seq_row i cid v#}" for i v
  proof -
    have "map snd rs = [seq_row i cid v]"
      using rs(3) unfolding single by (simp only: mset_single_iff)
    then obtain r where r: "rs = [(r, seq_row i cid v)]" by auto
    have cur: "current_value rs 2 = i32_checked (i32_val v + 1)"
      unfolding r by (rule current_value_single)
    show ?thesis
    proof (cases "i32_val v + 1 < 2 ^ 31")
      case False
      then show ?thesis using run cur by (simp add: i32_checked_def)
    next
      case True
      let ?n = "i32_of_int (i32_val v + 1)"
      have nxt: "current_value rs 2 = Inr ?n"
        using True i32_val_range(1) [of v] cur by (simp add: i32_checked_def)
      obtain r' w' where u: "ta_update file_store E (ta_new t l) q [(str_bytes ''current'', CellInt ?n)] w = (r', w')"
        by force
      have fixed: "\<forall>(name, d) \<in> set [(str_bytes ''current'', CellInt ?n)]. \<not> is_var_size (column_type_of d)"
        by simp
      note nv = seq_new_values [of ?n, folded assms(2)]
      have "r' = Inr ()" by (rule history_updated(1) [OF history_ok [OF assms(1)] fixed nv assms(4) col q u])
      moreover have "table_history l t f
          (image_mset (\<lambda>row. if ?P row then set_cells [(2, CellInt ?n)] row else row) M) w'"
        by (rule updated [OF assms(1) fixed nv assms(4) col q u])
      moreover have "image_mset (\<lambda>row. if ?P row then set_cells [(2, CellInt ?n)] row else row) M =
          M - {#seq_row i cid v#} + {#seq_row i cid ?n#}"
      proof -
        let ?g = "\<lambda>row. if ?P row then set_cells [(2, CellInt ?n)] row else row"
        have split: "M = {#seq_row i cid v#} + filter_mset (\<lambda>row. \<not> ?P row) M"
          using multiset_partition [of M ?P] unfolding single .
        have "image_mset ?g (filter_mset (\<lambda>row. \<not> ?P row) M) = image_mset id (filter_mset (\<lambda>row. \<not> ?P row) M)"
          by (rule image_mset_cong) auto
        moreover have "?g (seq_row i cid v) = seq_row i cid ?n"
          using seq_row_set [of ?n i cid v] by (simp add: seq_row_def)
        ultimately have "image_mset ?g ({#seq_row i cid v#} + filter_mset (\<lambda>row. \<not> ?P row) M) =
            filter_mset (\<lambda>row. \<not> ?P row) M + {#seq_row i cid ?n#}"
          by simp
        then have "image_mset ?g M = filter_mset (\<lambda>row. \<not> ?P row) M + {#seq_row i cid ?n#}"
          by (simp only: split [symmetric])
        moreover have "M - {#seq_row i cid v#} = filter_mset (\<lambda>row. \<not> ?P row) M"
          by (subst split) simp
        ultimately show ?thesis by (simp only:)
      qed
      ultimately show ?thesis
        using True run nxt u by (auto simp: io_bind_def io_map_err_def)
    qed
  qed
  moreover have "next_val file_store E (seq_new (ta_new t l) tab) column w = (Inl (Err SequenceNotFound), w)"
    if "size (filter_mset ?P M) = 0"
  proof -
    have "rs = []" using len that by (simp only: length_0_conv)
    then show ?thesis using run by (simp add: current_value_def)
  qed
  moreover have "next_val file_store E (seq_new (ta_new t l) tab) column w = (Inl (Err SequenceCorrupted), w)"
    if "1 < size (filter_mset ?P M)"
  proof -
    have more: "1 < length rs" using len that by (simp only:)
    then have "rs \<noteq> []" by auto
    then show ?thesis using run more by (simp add: current_value_def)
  qed
  ultimately show ?thesis by blast
qed

text \<open>The sequence of the ids of tables, as the catalog starts with it.\<close>

theorem next_val_advances_witness:
  "\<exists>w w'. ta_insert file_store plain_env (ta_new seq_table_instance layout_512) (hd sequence_rows)
       (fresh_world seq_table_instance) = (Inr (), w) \<and>
     next_val file_store plain_env (seq_new (ta_new seq_table_instance layout_512) table_instance) (str_bytes ''id'') w =
       (Inr (i32_of_int 5), w')"
proof -
  have row: "hd sequence_rows = seq_row (i32_of_int 1) (i32_of_int 10) (i32_of_int 4)"
    by (simp add: sequence_rows_def seq_row_def int_lit_def)
  have "columns (schema seq_table_instance) \<noteq> []" by (simp add: seq_table_instance_def)
  moreover have "row_validate (hd sequence_rows) (schema seq_table_instance) = Inr ()" "row_strings_ok (hd sequence_rows)"
    "length (row_serialize (hd sequence_rows)) \<le> 491"
    by code_simp+
  ultimately obtain w where w: "ta_insert file_store plain_env (ta_new seq_table_instance layout_512) (hd sequence_rows)
       (fresh_world seq_table_instance) = (Inr (), w)"
    "table_history layout_512 seq_table_instance (fresh_fsm seq_table_instance) {#hd sequence_rows#} w"
    using fresh_insert by blast
  have col: "sequence_column table_instance (str_bytes ''id'') = Inr (i32_of_int 10)" by code_simp
  have ord: "\<forall>n. hash_order_ok (env_order plain_env n)" by (simp add: plain_env_def hash_order_ok_def)
  have "filter_mset (\<lambda>row. cells row ! 1 = CellInt (i32_of_int 10)) {#hd sequence_rows#} =
      {#seq_row (i32_of_int 1) (i32_of_int 10) (i32_of_int 4)#}"
    unfolding row by (simp add: seq_row_def)
  from next_val_advances [OF w(2) refl col ord, THEN conjunct1, rule_format, OF this] obtain w' where
    "next_val file_store plain_env (seq_new (ta_new seq_table_instance layout_512) table_instance) (str_bytes ''id'') w =
       (Inr (i32_of_int 5), w')"
    by auto
  then show ?thesis using w(1) by blast
qed

end
