(* ===== verification/Frames.thy ===== *)
theory Frames
  imports Seq_Props
begin

text \<open>
  What an operation may change. \<open>changes R m\<close> says that every run of \<open>m\<close>, also one that fails, goes from a
  state to one that is related by \<open>R\<close>; for a reflexive and transitive \<open>R\<close> this follows
  the structure of the code. It is used for operations that only read, and for operations that
  leave all files alone but those of one table.
\<close>

section \<open>Bounded changes\<close>

definition changes :: "('s \<Rightarrow> 's \<Rightarrow> bool) \<Rightarrow> ('s, 'a, 'e) io \<Rightarrow> bool" where
  "changes R m \<longleftrightarrow> (\<forall>w r w'. m w = (r, w') \<longrightarrow> R w w')"

lemma changesI: "(\<And>w r w'. m w = (r, w') \<Longrightarrow> R w w') \<Longrightarrow> changes R m"
  by (simp add: changes_def)

lemma changesD: "changes R m \<Longrightarrow> m w = (r, w') \<Longrightarrow> R w w'"
  by (simp add: changes_def)

lemma changes_mono: "changes R m \<Longrightarrow> (\<And>w w'. R w w' \<Longrightarrow> R' w w') \<Longrightarrow> changes R' m"
  by (simp add: changes_def)

named_theorems changes_intros

lemma changes_map_err [changes_intros]: "changes R m \<Longrightarrow> changes R (io_map_err g m)"
  by (auto simp: changes_def io_map_err_def split: prod.splits)

lemma changes_if: "(b \<Longrightarrow> changes R m) \<Longrightarrow> (\<not> b \<Longrightarrow> changes R m') \<Longrightarrow> changes R (if b then m else m')"
  by simp

locale state_relation =
  fixes R :: "'s \<Rightarrow> 's \<Rightarrow> bool"
  assumes refl: "R w w"
    and trans: "R w w' \<Longrightarrow> R w' w'' \<Longrightarrow> R w w''"
begin

lemma basic [changes_intros]:
  "changes R (io_ret x)" "changes R (io_lift r)" "changes R (io_fail e)" "changes R io_panic" "changes R (io_read g)"
  by (auto simp: changes_def refl)

lemma query [changes_intros]: "changes R (\<lambda>w. (g w, w))"
  by (auto simp: changes_def refl)

lemma bind_result:
  assumes "changes R m" and "\<And>w x w'. m w = (Inr x, w') \<Longrightarrow> changes R (k x)"
  shows "changes R (io_bind m k)"
proof (rule changesI)
  fix w r w'
  assume run: "io_bind m k w = (r, w')"
  obtain a w1 where m: "m w = (a, w1)" by force
  then have "R w w1" using assms(1) by (rule changesD [rotated])
  moreover have "w' = w1 \<or> (\<exists>x. m w = (Inr x, w1) \<and> k x w1 = (r, w'))"
    using run m by (cases a) (auto simp: io_bind_def)
  ultimately show "R w w'"
    using changesD [OF assms(2)] trans by blast
qed

lemma bind [changes_intros]: "changes R m \<Longrightarrow> (\<And>x. changes R (k x)) \<Longrightarrow> changes R (io_bind m k)"
  by (rule bind_result)

lemma each [changes_intros]: "(\<And>x. changes R (k x)) \<Longrightarrow> changes R (for_each k xs)"
  by (induction xs) (auto intro: changes_intros)

lemma bind_lift: "(\<And>x. r = Inr x \<Longrightarrow> changes R (k x)) \<Longrightarrow> changes R (io_bind (io_lift r) k)"
  by (cases r) (auto simp: changes_def io_bind_def refl)

lemma repeat [changes_intros]: "changes R m \<Longrightarrow> changes R (repeat_io n m)"
  by (induction n) (auto intro: changes_intros)

end

interpretation reading: state_relation "(=) :: 's \<Rightarrow> 's \<Rightarrow> bool"
  by unfold_locales auto

section \<open>Operations that only read\<close>

lemma bind_lift_Inr [simp]: "io_bind (io_lift (Inr x)) k = k x"
  by (simp add: fun_eq_iff)

lemma reads_at_store [changes_intros]: "changes (=) m \<Longrightarrow> changes (=) (at_store g m)"
  by (fastforce simp: changes_def at_store_def split: prod.splits)

lemma ta_find_plain:
  "ta_find S E (ta_new t l) name c =
     io_bind (io_lift (find_column_for_query_by_cell (schema t) name c)) (\<lambda>col_index.
     io_bind (at_store TaStore (io_read (st_seq_pages S l (TableStorage (table_id t))))) (\<lambda>page_iter.
     io_ret (query_filter (cell_filter col_index c) (query_new page_iter (schema t)))))"
  by (simp add: ta_find_def)

lemma reads_find [changes_intros]: "changes (=) (ta_find S E (ta_new t l) name c)"
  unfolding ta_find_plain by (intro changes_intros)

lemma reads_db_rows [changes_intros]: "changes (=) (db_rows q)"
  unfolding db_rows_def by (intro changes_intros)

lemma reads_table [changes_intros]: "changes (=) (read_table S E d name)"
  unfolding read_table_def Let_def by (intro changes_intros)

section \<open>Operations on one table\<close>

text \<open>All files but those of the data structures in \<open>A\<close> stay as they are.\<close>

definition only_files :: "page_storage set \<Rightarrow> files \<Rightarrow> files \<Rightarrow> bool" where
  "only_files A fs fs' \<longleftrightarrow> (\<forall>path. path \<notin> storage_file_path ` A \<longrightarrow> fs' path = fs path)"

interpretation storing: state_relation "only_files A" for A
  by unfold_locales (auto simp: only_files_def)

text \<open>A step of a world changes some files and opens or changes no index.\<close>

definition only_stores :: "page_storage set \<Rightarrow> files world \<Rightarrow> files world \<Rightarrow> bool" where
  "only_stores A w w' \<longleftrightarrow> only_files A (w_store w) (w_store w') \<and> w_handles w' = w_handles w"

abbreviation only_table :: "table \<Rightarrow> files world \<Rightarrow> files world \<Rightarrow> bool" where
  "only_table t \<equiv> only_stores {TableStorage (table_id t), fsm_access t}"

interpretation working: state_relation "only_stores A" for A
  by unfold_locales (auto simp: only_stores_def storing.refl intro: storing.trans)

lemma at_store_only [changes_intros]:
  "changes (only_files A) m \<Longrightarrow> changes (only_stores A) (at_store g m)"
  by (auto simp: changes_def only_stores_def at_store_def split: prod.splits)

lemma next_order_only [changes_intros]: "changes (only_stores A) (next_order E)"
  by (auto simp: changes_def next_order_def only_stores_def storing.refl)

lemma reads_only: "changes (=) m \<Longrightarrow> changes (only_stores A) m"
  by (erule changes_mono) (simp add: working.refl)

lemma only_storesD:
  "only_stores A w w' \<Longrightarrow> st \<notin> A \<Longrightarrow> w_store w' (storage_file_path st) = w_store w (storage_file_path st)"
proof -
  assume "only_stores A w w'" and "st \<notin> A"
  moreover from this(2) have "storage_file_path st \<notin> storage_file_path ` A"
    by (auto simp: storage_file_path_inj simp del: storage_file_path.simps)
  ultimately show ?thesis unfolding only_stores_def only_files_def by blast
qed

lemma file_write_only [changes_intros]: "st \<in> A \<Longrightarrow> changes (only_files A) (st_write_page file_store l p st)"
  by (auto simp: file_store_def changes_def only_files_def file_write_page_def split: sum.splits)

lemma file_metadata_only [changes_intros]: "st \<in> A \<Longrightarrow> changes (only_files A) (file_write_metadata l m st)"
  by (auto simp: changes_def only_files_def file_write_metadata_def split: sum.splits)

lemma file_allocate_only [changes_intros]: "st \<in> A \<Longrightarrow> changes (only_files A) (st_allocate_page file_store l st)"
proof -
  assume st: "st \<in> A"
  have "changes (only_files A) (file_write_page l p st)" for p
    using file_write_only [OF st] by (simp add: file_store_def)
  moreover note file_metadata_only [OF st]
  ultimately have "changes (only_files A) (file_allocate_page l st)"
    unfolding file_allocate_page_def
    using st by (intro changes_intros) (auto split: prod.split simp: Let_def intro!: changes_intros)
  then show ?thesis by (simp add: file_store_def)
qed

lemma file_create_only [changes_intros]: "st \<in> A \<Longrightarrow> changes (only_files A) (st_create file_store l st)"
  by (auto simp: changes_def only_files_def file_store_def file_create_def file_init_def file_write_metadata_def
      split: sum.splits if_splits)

lemma map_page_only [changes_intros]:
  "fsm_access (fsm_table f) \<in> A \<Longrightarrow> changes (only_files A) (allocate_new_fsm_and_init file_store f)"
  unfolding allocate_new_fsm_and_init_def Let_def
  by (intro changes_intros) (auto split: prod.split intro!: changes_intros)

lemma update_tree_page_only [changes_intros]:
  "fsm_access (fsm_table f) \<in> A \<Longrightarrow> changes (only_files A) (update_tree_page file_store f pid slot cat)"
  unfolding update_tree_page_def Let_def by (intro changes_intros)

lemma update_levels_only [changes_intros]:
  "fsm_access (fsm_table f) \<in> A \<Longrightarrow> changes (only_files A) (update_levels file_store f cat lev n addr slot pid)"
  by (induction n arbitrary: lev addr slot pid) (auto split: prod.split intro!: changes_intros)

lemma fsm_update_only [changes_intros]:
  "fsm_access (fsm_table f) \<in> A \<Longrightarrow> changes (only_files A) (fsm_update file_store f p)"
  unfolding fsm_update_def Let_def add_map_pages_def
  by (auto split: prod.split intro!: changes_intros)

lemma find_descend_only [changes_intros]:
  "changes (only_files A) (find_descend file_store f cat n addr sure h)"
  by (induction n arbitrary: addr sure h) (auto split: option.split intro!: changes_intros)

lemma find_page_only [changes_intros]:
  "fsm_access (fsm_table f) \<in> A \<Longrightarrow> TableStorage (table_id (fsm_table f)) \<in> A \<Longrightarrow>
   changes (only_files A) (find_available_page file_store f n)"
  unfolding find_available_page_def Let_def
  by (auto split: option.split intro!: changes_intros)

lemma ta_fsm_table: "ta_fsm (ta_new t l) = Inr f \<Longrightarrow> fsm_table f = t"
  by (auto simp: ta_fsm_def fsm_new_def Let_def and_then_Inr_iff map_err_Inr_iff split: if_splits)

lemma update_index_only [changes_intros]: "changes (only_stores A) (update_index file_store E (ta_new t l) pid slot_id cmd)"
proof -
  have no_index: "index_get [] i = (Inl Panic :: ('a, 'e) result)" for i
    by (simp add: index_get_def)
  have "changes (only_stores A) (update_one_index file_store E (ta_new t l) pid slot_id u)" for u
    by (cases u) (auto simp: update_one_index_def no_index split: option.split intro!: working.bind_lift working.bind changes_intros)
  then show ?thesis
    unfolding update_index_def by (intro working.each)
qed

lemma raw_insert_only:
  assumes "\<And>k. changes (only_table t) (hook k)"
  shows "changes (only_table t) (raw_insert file_store (ta_new t l) dat hook)"
proof -
  have "changes (only_table t) (at_store g (find_available_page file_store f n))"
    "changes (only_table t) (at_store g (fsm_update file_store f p))" if "fsm_table f = t" for f n g p
    using that by (auto intro!: changes_intros)
  with assms ta_fsm_table [of t l] show ?thesis
    unfolding raw_insert_def
    by (intro working.bind_lift) (auto split: prod.split intro!: changes_intros)
qed

lemma insert_only [changes_intros]: "changes (only_table t) (ta_insert file_store E (ta_new t l) row)"
  unfolding ta_insert_def
  by (intro changes_intros raw_insert_only) (auto split: prod.split intro!: changes_intros)

lemma map_only: "fsm_table f = t \<Longrightarrow> changes (only_table t) (at_store g (fsm_update file_store f p))"
  by (intro changes_intros) simp

lemma reinsert_only: "fsm_table f = t \<Longrightarrow> changes (only_table t) (reinsert_rows file_store E (ta_new t l) f p rows left)"
  by (induction rows arbitrary: p left)
    (auto simp: Let_def split: prod.split intro!: map_only changes_intros)

lemma in_place_only: "TableStorage (table_id t) \<in> A \<Longrightarrow> changes (only_stores A) (write_rows_in_place file_store E (ta_new t l) p rows)"
  by (induction rows arbitrary: p) (auto split: prod.split intro!: changes_intros)

lemma update_pages_only:
  "fsm_table f = t \<Longrightarrow> changes (only_table t) (update_pages file_store E (ta_new t l) f b pages left)"
  by (induction pages arbitrary: left) (auto intro!: reinsert_only in_place_only changes_intros)

lemma update_pages_in_place:
  "TableStorage (table_id t) \<in> A \<Longrightarrow> changes (only_stores A) (update_pages file_store E (ta_new t l) f False pages left)"
  by (induction pages arbitrary: left) (auto intro!: in_place_only changes_intros)

lemma update_only [changes_intros]: "changes (only_table t) (ta_update file_store E (ta_new t l) q updates)"
  unfolding ta_update_def Let_def
  by (auto split: prod.split dest!: ta_fsm_table intro!: working.bind_lift [of "ta_fsm (ta_new t l)"]
      update_pages_only raw_insert_only changes_intros)

lemma delete_only [changes_intros]: "changes (only_table t) (ta_delete file_store E (ta_new t l) q)"
  unfolding ta_delete_def delete_one_def Let_def
  by (auto split: prod.split dest!: ta_fsm_table intro!: working.bind_lift [of "ta_fsm (ta_new t l)"]
      map_only changes_intros)

lemma next_val_only [changes_intros]:
  "changes (only_table t) (next_val file_store E (seq_new (ta_new t l) tab) column)"
  unfolding next_val_def Let_def seq_new_def
  by (auto intro!: reads_only [OF reads_find] changes_intros)

text \<open>An update of columns of fixed size leaves the free space map alone.\<close>

lemma update_pages_left: "update_pages S E ta f False pages left w = (Inr x, w') \<Longrightarrow> x = left"
  by (induction pages arbitrary: w) (auto simp: io_bind_ok_iff)

lemma update_in_place_only:
  assumes "\<forall>(name, d) \<in> set updates. \<not> is_var_size (column_type_of d)"
  shows "changes (only_stores {TableStorage (table_id t)}) (ta_update file_store E (ta_new t l) q updates)"
proof -
  let ?R = "only_stores {TableStorage (table_id t)}"
  have fixed: "list_ex (\<lambda>(_, c). is_var_size (column_type_of c)) updates = False"
    using assms by (auto simp: list_ex_iff)
  have tail: "changes ?R (io_bind (update_pages file_store E (ta_new t l) f False pages []) (for_each k))" for f pages k
    by (rule working.bind_result [OF update_pages_in_place]) (auto dest!: update_pages_left intro: changes_intros)
  show ?thesis
    unfolding ta_update_def Let_def fixed by (intro changes_if tail changes_intros)
qed

section \<open>What other tables keep\<close>

lemma same_file:
  assumes "fs' (storage_file_path st) = fs (storage_file_path st)"
  shows "file_ok l fs' st = file_ok l fs st" "file_count l fs' st = file_count l fs st"
    "file_pages l fs' st = file_pages l fs st"
proof -
  show count: "file_count l fs' st = file_count l fs st"
    using assms by (simp add: file_count_def)
  then show "file_ok l fs' st = file_ok l fs st"
    using assms by (simp add: file_ok_def split: option.split)
  have "file_read_page l i st fs' = file_read_page l i st fs" for i
    using assms by (simp add: file_read_page_def open_file_def)
  then show "file_pages l fs' st = file_pages l fs st"
    using count by (simp add: file_pages_def fun_eq_iff)
qed

lemma rows_inv_frame:
  assumes "rows_inv D l t f (w_store w)"
    and "\<And>st. st \<in> {TableStorage (table_id t), fsm_access t} \<Longrightarrow>
      w_store w' (storage_file_path st) = w_store w (storage_file_path st)"
  shows "rows_inv D l t f (w_store w')" and "table_map l (w_store w') (table_id t) = table_map l (w_store w) (table_id t)"
proof -
  note tab = same_file [of "w_store w'" "TableStorage (table_id t)" "w_store w", OF assms(2), simplified]
    and map = same_file [of "w_store w'" "fsm_access t" "w_store w", OF assms(2), simplified]
  show same: "table_map l (w_store w') (table_id t) = table_map l (w_store w) (table_id t)"
    using tab by (simp add: table_map_def fun_eq_iff)
  moreover have "table_ok l (w_store w') (table_id t) = table_ok l (w_store w) (table_id t)"
    using tab by (simp add: table_ok_def page_at_def)
  moreover have "fsm_inv l t f (w_store w') = fsm_inv l t f (w_store w)"
    using tab map by (simp add: fsm_inv_def)
  ultimately show "rows_inv D l t f (w_store w')"
    using assms(1) tab by (simp add: rows_inv_def)
qed

lemma history_inv_frame:
  assumes "history_inv l t f M w"
    and "\<And>st. st \<in> {TableStorage (table_id t), fsm_access t} \<Longrightarrow>
      w_store w' (storage_file_path st) = w_store w (storage_file_path st)"
  shows "history_inv l t f M w'"
  using assms(1) rows_inv_frame [OF _ assms(2)] unfolding history_inv_def table_inv_def by metis

end
