(* ===== verification/BTree_Tree.thy ===== *)
theory BTree_Tree
  imports BTree_Pager
begin

text \<open>
  The B+ tree as a value: what the pages of an index file describe, and the operations of
  \<open>src/src/tree/node.rs\<close> and \<open>src/src/tree/store.rs\<close> as functions on it. A page is a
  constructor with the id of its page; a leaf keeps its entries as pairs of key and value and the
  id of the next leaf. The recursion is on the height, which every tree has.

  \<open>bt_wf\<close> is the invariant the code checks in its test builds (\<open>NodePage::validate\<close> and
  \<open>check_node_invariants\<close>): sorted keys, one more child than keys, the keys of a child between
  the separators around it.
\<close>

type_synonym index_entry = "i32 \<times> (i32 \<times> i32)"

datatype btree =
    BLeaf i32 "index_entry list" "i32 option"
  | BNode i32 "i32 list" "btree list"

fun bt_id :: "btree \<Rightarrow> i32" where
  "bt_id (BLeaf i es nl) = i"
| "bt_id (BNode i ks cs) = i"

fun bt_kids :: "btree \<Rightarrow> btree list" where
  "bt_kids (BLeaf i es nl) = []"
| "bt_kids (BNode i ks cs) = cs"

fun bt_width :: "btree \<Rightarrow> nat" where
  "bt_width (BLeaf i es nl) = length es"
| "bt_width (BNode i ks cs) = length ks"

text \<open>The page of the file that holds the root of a tree.\<close>

fun page_of :: "nat \<Rightarrow> btree \<Rightarrow> node_page" where
  "page_of d (BLeaf i es nl) =
     \<lparr>node_id = i, deleted = False, next_deleted_page = None, keys = map fst es, children = [],
      node_values = map snd es, next_leaf = nl, max_degree = d, changed = False\<rparr>"
| "page_of d (BNode i ks cs) =
     \<lparr>node_id = i, deleted = False, next_deleted_page = None, keys = ks, children = map bt_id cs,
      node_values = [], next_leaf = None, max_degree = d, changed = False\<rparr>"

section \<open>What a tree holds\<close>

fun bt_entries :: "btree \<Rightarrow> index_entry list" where
  "bt_entries (BLeaf i es nl) = es"
| "bt_entries (BNode i ks cs) = concat (map bt_entries cs)"

text \<open>Every key on a page, separators included.\<close>

fun bt_keys :: "btree \<Rightarrow> i32 set" where
  "bt_keys (BLeaf i es nl) = fst ` set es"
| "bt_keys (BNode i ks cs) = set ks \<union> (\<Union>c \<in> set cs. bt_keys c)"

fun bt_nodes :: "btree \<Rightarrow> btree list" where
  "bt_nodes (BLeaf i es nl) = [BLeaf i es nl]"
| "bt_nodes (BNode i ks cs) = BNode i ks cs # concat (map bt_nodes cs)"

definition bt_ids :: "btree \<Rightarrow> i32 list" where
  "bt_ids t = map bt_id (bt_nodes t)"

fun bt_leaves :: "btree \<Rightarrow> btree list" where
  "bt_leaves (BLeaf i es nl) = [BLeaf i es nl]"
| "bt_leaves (BNode i ks cs) = concat (map bt_leaves cs)"

section \<open>The invariant\<close>

text \<open>The keys a subtree may hold: from the separator before it up to the one after it.\<close>

fun not_below :: "i32 option \<Rightarrow> i32 \<Rightarrow> bool" where
  "not_below None k = True"
| "not_below (Some a) k = (a \<le> k)"

fun above :: "i32 option \<Rightarrow> i32 \<Rightarrow> bool" where
  "above None k = True"
| "above (Some a) k = (a < k)"

fun below :: "i32 \<Rightarrow> i32 option \<Rightarrow> bool" where
  "below k None = True"
| "below k (Some b) = (k < b)"

fun intervals :: "i32 option \<Rightarrow> i32 list \<Rightarrow> i32 option \<Rightarrow> (i32 option \<times> i32 option) list" where
  "intervals lo [] hi = [(lo, hi)]"
| "intervals lo (k # ks) hi = (lo, Some k) # intervals (Some k) ks hi"

definition separators_ok :: "i32 option \<Rightarrow> i32 list \<Rightarrow> i32 option \<Rightarrow> bool" where
  "separators_ok lo ks hi \<longleftrightarrow>
     sorted_wrt (<) ks \<and> (\<forall>k \<in> set ks. above lo k \<and> below k hi \<and> k \<noteq> i32_min)"

definition entries_ok :: "i32 option \<Rightarrow> index_entry list \<Rightarrow> i32 option \<Rightarrow> bool" where
  "entries_ok lo es hi \<longleftrightarrow> sorted_wrt (<) (map fst es) \<and>
     (\<forall>(k, v) \<in> set es. not_below lo k \<and> below k hi \<and> k \<noteq> i32_min \<and> fst v \<noteq> i32_min \<and> snd v \<noteq> i32_min)"

fun bt_wf :: "nat \<Rightarrow> nat \<Rightarrow> i32 option \<Rightarrow> i32 option \<Rightarrow> btree \<Rightarrow> bool" where
  "bt_wf d 0 lo hi (BLeaf i es nl) =
     (length es < d \<and> entries_ok lo es hi \<and> nl \<noteq> Some i32_min)"
| "bt_wf d (Suc h) lo hi (BNode i ks cs) =
     (ks \<noteq> [] \<and> length ks < d \<and> separators_ok lo ks hi \<and>
      list_all2 (\<lambda>(a, b). bt_wf d h a b) (intervals lo ks hi) cs)"
| "bt_wf d _ lo hi _ = False"

text \<open>Pages below the root have at most one key less than the minimum.\<close>

fun bt_filled :: "nat \<Rightarrow> btree \<Rightarrow> bool" where
  "bt_filled d (BLeaf i es nl) = True"
| "bt_filled d (BNode i ks cs) = (\<forall>c \<in> set cs. d div 2 - 2 \<le> bt_width c \<and> bt_filled d c)"

text \<open>The list of the leaves: each is linked to the next one, the last to \<open>z\<close>.\<close>

fun leaf_next :: "btree \<Rightarrow> i32 option" where
  "leaf_next (BLeaf i es nl) = nl"
| "leaf_next (BNode i ks cs) = None"

fun linked :: "btree list \<Rightarrow> i32 option \<Rightarrow> bool" where
  "linked [] z = True"
| "linked (t # ts) z =
     (leaf_next t = (case ts of [] \<Rightarrow> z | u # _ \<Rightarrow> Some (bt_id u)) \<and> linked ts z)"

section \<open>Lookup\<close>

definition child_pos :: "i32 \<Rightarrow> i32 list \<Rightarrow> nat" where
  "child_pos key ks = (case position (\<lambda>k. key < k) ks of Some i \<Rightarrow> i | None \<Rightarrow> length ks)"

fun bt_leaf :: "nat \<Rightarrow> i32 \<Rightarrow> btree \<Rightarrow> btree" where
  "bt_leaf (Suc h) key (BNode i ks cs) = bt_leaf h key (cs ! child_pos key ks)"
| "bt_leaf _ key t = t"

section \<open>Insertion\<close>

text \<open>A key that is there is left alone.\<close>

fun insert_entry :: "i32 \<Rightarrow> i32 \<times> i32 \<Rightarrow> index_entry list \<Rightarrow> index_entry list" where
  "insert_entry key v [] = [(key, v)]"
| "insert_entry key v (e # es) =
     (if key < fst e then (key, v) # e # es else if key = fst e then e # es
      else e # insert_entry key v es)"

definition insert_at :: "nat \<Rightarrow> 'a \<Rightarrow> 'a list \<Rightarrow> 'a list" where
  "insert_at i x xs = take i xs @ x # drop i xs"

text \<open>A page is split into itself and a page with the given id; the last component is the key for the parent.\<close>

fun bt_split :: "i32 \<Rightarrow> btree \<Rightarrow> btree \<times> btree \<times> i32" where
  "bt_split j (BLeaf i es nl) =
     (let m = length es div 2 in
      (BLeaf i (take m es) (Some j), BLeaf j (drop m es) nl, fst (es ! m)))"
| "bt_split j (BNode i ks cs) =
     (let m = length ks div 2 in
      (BNode i (take m ks) (take (m + 1) cs), BNode j (drop (m + 1) ks) (drop (m + 1) cs), ks ! m))"

definition bt_full :: "nat \<Rightarrow> btree \<Rightarrow> bool" where
  "bt_full d t \<longleftrightarrow> d - 1 \<le> bt_width t"

text \<open>
  Making room below a page before an insertion: a full child is split. The page \<open>n\<close> is the next
  one the pager gives out. The result has the index of the child to insert into.
\<close>

definition bt_make_room ::
  "nat \<Rightarrow> i32 \<Rightarrow> i32 list \<Rightarrow> btree list \<Rightarrow> nat \<Rightarrow> i32 list \<times> btree list \<times> nat \<times> nat" where
  "bt_make_room d key ks cs n =
     (let j = child_pos key ks in
      if bt_full d (cs ! j) then
        let (l, r, k) = bt_split (usize_as_i32 n) (cs ! j) in
        (insert_at j k ks, insert_at (j + 1) r (cs[j := l]),
         if k < key \<or> (k = key \<and> j < length ks) then j + 1 else j, n + 1)
      else (ks, cs, j, n))"

fun bt_insert :: "nat \<Rightarrow> nat \<Rightarrow> i32 \<Rightarrow> i32 \<times> i32 \<Rightarrow> btree \<Rightarrow> nat \<Rightarrow> btree \<times> nat" where
  "bt_insert d h key v (BLeaf i es nl) n = (BLeaf i (insert_entry key v es) nl, n)"
| "bt_insert d 0 key v (BNode i ks cs) n = (BNode i ks cs, n)"
| "bt_insert d (Suc h) key v (BNode i ks cs) n =
     (let (ks', cs', j, n1) = bt_make_room d key ks cs n;
          (c, n') = bt_insert d h key v (cs' ! j) n1 in
      (BNode i ks' (cs'[j := c]), n'))"

text \<open>The whole tree, with its height: a full root gets a new root above it.\<close>

definition bt_insert_root :: "nat \<Rightarrow> i32 \<Rightarrow> i32 \<times> i32 \<Rightarrow> nat \<times> btree \<times> nat \<Rightarrow> nat \<times> btree \<times> nat" where
  "bt_insert_root d key v = (\<lambda>(h, t, n).
     if bt_full d t then
       let (l, r, k) = bt_split (usize_as_i32 n) t in
       (Suc h, bt_insert d (Suc h) key v (BNode (usize_as_i32 (n + 1)) [k] [l, r]) (n + 2))
     else (h, bt_insert d h key v t n))"

section \<open>Deletion\<close>

definition bt_underfull :: "nat \<Rightarrow> btree \<Rightarrow> bool" where
  "bt_underfull d t \<longleftrightarrow> bt_width t < d div 2 - 1"

definition bt_can_lend :: "nat \<Rightarrow> btree \<Rightarrow> bool" where
  "bt_can_lend d t \<longleftrightarrow> d div 2 - 1 < bt_width t"

text \<open>Two neighbours around a separator: moving the border between them, and merging them.\<close>

fun bt_resplit :: "nat \<Rightarrow> btree \<Rightarrow> i32 \<Rightarrow> btree \<Rightarrow> btree \<times> btree \<times> i32" where
  "bt_resplit m (BLeaf i es nl) k (BLeaf j es' nl') =
     (let all = es @ es' in
      (BLeaf i (take m all) nl, BLeaf j (drop m all) nl', fst (all ! m)))"
| "bt_resplit m (BNode i ks cs) k (BNode j ks' cs') =
     (let all = ks @ k # ks'; kids = cs @ cs' in
      (BNode i (take m all) (take (m + 1) kids), BNode j (drop (m + 1) all) (drop (m + 1) kids), all ! m))"
| "bt_resplit m l k r = (l, r, k)"

fun bt_merge :: "btree \<Rightarrow> i32 \<Rightarrow> btree \<Rightarrow> btree" where
  "bt_merge (BLeaf i es nl) k (BLeaf j es' nl') = BLeaf i (es @ es') nl'"
| "bt_merge (BNode i ks cs) k (BNode j ks' cs') = BNode i (ks @ k # ks') (cs @ cs')"
| "bt_merge l k r = l"

definition remove_at :: "nat \<Rightarrow> 'a list \<Rightarrow> 'a list" where
  "remove_at i xs = take i xs @ drop (i + 1) xs"

text \<open>
  Before a deletion an underfull child borrows an entry from a neighbour or is merged with it. The
  result has the index of the child to delete from.
\<close>

definition bt_rebalance :: "nat \<Rightarrow> i32 list \<Rightarrow> btree list \<Rightarrow> nat \<Rightarrow> i32 list \<times> btree list \<times> nat" where
  "bt_rebalance d ks cs j =
     (let has_left = 0 < j; has_right = j + 1 < length cs in
      if \<not> bt_underfull d (cs ! j) then (ks, cs, j)
      else if has_left \<and> bt_can_lend d (cs ! (j - 1)) then
        let (l, r, k) = bt_resplit (bt_width (cs ! (j - 1)) - 1) (cs ! (j - 1)) (ks ! (j - 1)) (cs ! j) in
        (ks[j - 1 := k], cs[j - 1 := l, j := r], j)
      else if has_right \<and> bt_can_lend d (cs ! (j + 1)) then
        let (l, r, k) = bt_resplit (bt_width (cs ! j) + 1) (cs ! j) (ks ! j) (cs ! (j + 1)) in
        (ks[j := k], cs[j := l, j + 1 := r], j)
      else if has_left then
        (remove_at (j - 1) ks, (remove_at j cs)[j - 1 := bt_merge (cs ! (j - 1)) (ks ! (j - 1)) (cs ! j)], j - 1)
      else if has_right then
        (remove_at j ks, (remove_at (j + 1) cs)[j := bt_merge (cs ! j) (ks ! j) (cs ! (j + 1))], j)
      else (ks, cs, j))"

fun bt_delete :: "nat \<Rightarrow> nat \<Rightarrow> i32 \<Rightarrow> btree \<Rightarrow> btree" where
  "bt_delete d h key (BLeaf i es nl) = BLeaf i (filter (\<lambda>e. fst e \<noteq> key) es) nl"
| "bt_delete d 0 key (BNode i ks cs) = BNode i ks cs"
| "bt_delete d (Suc h) key (BNode i ks cs) =
     (let (ks', cs', j) = bt_rebalance d ks cs (child_pos key ks) in
      BNode i ks' (cs'[j := bt_delete d h key (cs' ! j)]))"

text \<open>The whole tree: a root without keys is replaced by its only child.\<close>

fun bt_shrink :: "nat \<times> btree \<Rightarrow> nat \<times> btree" where
  "bt_shrink (h, BNode i [] [c]) = (h - 1, c)"
| "bt_shrink (h, t) = (h, t)"

definition bt_delete_root :: "nat \<Rightarrow> i32 \<Rightarrow> nat \<times> btree \<Rightarrow> nat \<times> btree" where
  "bt_delete_root d key = (\<lambda>(h, t). bt_shrink (h, bt_delete d h key t))"

end
