(* ===== verification/BTree_Invariant.thy ===== *)
theory BTree_Invariant
  imports BTree_Tree "HOL-Library.Multiset"
begin

text \<open>
  The facts on trees that every operation shares: the interval of a child, what a new or a changed
  separator does to the intervals around it, the child a key belongs to, and how ids, entries and
  leaves of a tree are put together from those of its children.
\<close>

section \<open>Intervals\<close>

lemma length_intervals [simp]: "length (intervals lo ks hi) = Suc (length ks)"
  by (induction ks arbitrary: lo) simp_all

lemma intervals_append: "intervals lo (ks @ k # ks') hi = intervals lo ks (Some k) @ intervals (Some k) ks' hi"
  by (induction ks arbitrary: lo) simp_all

definition lower :: "i32 option \<Rightarrow> i32 list \<Rightarrow> nat \<Rightarrow> i32 option" where
  "lower lo ks j = (if j = 0 then lo else Some (ks ! (j - 1)))"

definition upper :: "i32 list \<Rightarrow> i32 option \<Rightarrow> nat \<Rightarrow> i32 option" where
  "upper ks hi j = (if j < length ks then Some (ks ! j) else hi)"

lemma intervals_nth: "j \<le> length ks \<Longrightarrow> intervals lo ks hi ! j = (lower lo ks j, upper ks hi j)"
proof (induction ks arbitrary: lo j)
  case (Cons k ks)
  then show ?case by (cases j) (auto simp: lower_def upper_def nth_Cons split: nat.split)
qed (simp add: lower_def upper_def)

lemma intervals_insert:
  assumes "j \<le> length ks"
  shows "intervals lo (insert_at j k ks) hi =
    take j (intervals lo ks hi) @ (lower lo ks j, Some k) # (Some k, upper ks hi j) # drop (Suc j) (intervals lo ks hi)"
  using assms
proof (induction ks arbitrary: lo j)
  case (Cons k' ks)
  show ?case
  proof (cases j)
    case 0
    then show ?thesis by (simp add: insert_at_def lower_def upper_def)
  next
    case (Suc i)
    then have "intervals (Some k') (insert_at i k ks) hi =
        take i (intervals (Some k') ks hi) @ (lower (Some k') ks i, Some k) # (Some k, upper ks hi i) #
        drop (Suc i) (intervals (Some k') ks hi)"
      using Cons.prems by (intro Cons.IH) simp
    moreover have "lower (Some k') ks i = lower lo (k' # ks) j" "upper ks hi i = upper (k' # ks) hi j"
      using Suc by (auto simp: lower_def upper_def nth_Cons split: nat.split)
    ultimately show ?thesis
      using Suc by (simp add: insert_at_def)
  qed
qed (simp add: insert_at_def lower_def upper_def)

lemma length_insert_at [simp]: "j \<le> length xs \<Longrightarrow> length (insert_at j x xs) = Suc (length xs)"
  by (simp add: insert_at_def)

lemma insert_at_removed: "j < length xs \<Longrightarrow> insert_at j (xs ! j) (take j xs @ drop (Suc j) xs) = xs"
  by (simp add: insert_at_def min_def id_take_nth_drop [symmetric])

lemma insert_at_updated: "j < length xs \<Longrightarrow> insert_at j x (take j xs @ drop (Suc j) xs) = xs[j := x]"
  by (simp add: insert_at_def min_def upd_conv_take_nth_drop)

lemma set_insert_at [simp]: "set (insert_at j x xs) = insert x (set xs)"
  using set_append [of "take j xs" "drop j xs"] by (simp add: insert_at_def)

lemma list_all2_insert_at:
  assumes "list_all2 P (take j xs @ drop (Suc j) xs) (take j ys @ drop (Suc j) ys)"
    and "length xs = length ys" and "j < length xs" and "P x y" and "P x' y'"
  shows "list_all2 P (take j xs @ x # x' # drop (Suc j) xs) (take j ys @ y # y' # drop (Suc j) ys)"
  using assms by (simp add: list_all2_append)

section \<open>Separators\<close>

lemma above_trans: "above lo a \<Longrightarrow> a < b \<Longrightarrow> above lo b"
  and not_below_trans: "not_below lo a \<Longrightarrow> a \<le> b \<Longrightarrow> not_below lo b"
  and below_trans: "a < b \<Longrightarrow> below b hi \<Longrightarrow> below a hi"
  and not_below_above: "not_below lo a \<Longrightarrow> a < b \<Longrightarrow> above lo b"
  and above_not_below: "above lo a \<Longrightarrow> not_below lo a"
  by (cases lo; cases hi; auto)+

lemma separators_append:
  "separators_ok lo (ks @ k # ks') hi \<longleftrightarrow>
     separators_ok lo ks (Some k) \<and> separators_ok (Some k) ks' hi \<and> above lo k \<and> below k hi \<and> k \<noteq> i32_min"
  by (auto simp: separators_ok_def sorted_wrt_append intro: above_trans below_trans less_trans [of _ k])

lemma separators_insert:
  assumes "separators_ok lo ks hi" and "j \<le> length ks"
    and "above (lower lo ks j) k" and "below k (upper ks hi j)" and "k \<noteq> i32_min"
  shows "separators_ok lo (insert_at j k ks) hi"
proof -
  have sorted: "sorted_wrt (<) ks" and bounds: "\<And>x. x \<in> set ks \<Longrightarrow> above lo x \<and> below x hi \<and> x \<noteq> i32_min"
    using assms(1) by (auto simp: separators_ok_def)
  have left: "x < k" if x: "x \<in> set (take j ks)" for x
  proof -
    from x obtain i where i: "i < j" "x = ks ! i" using assms(2) by (auto simp: in_set_conv_nth)
    then have "x \<le> ks ! (j - 1)"
      using sorted assms(2) by (cases "i = j - 1") (auto simp: sorted_wrt_iff_nth_less intro: less_imp_le)
    then show ?thesis using assms(3) i by (auto simp: lower_def)
  qed
  have right: "k < x" if x: "x \<in> set (drop j ks)" for x
  proof -
    obtain i where "i < length (drop j ks)" "x = drop j ks ! i" using x by (metis in_set_conv_nth)
    then have i: "j + i < length ks" "x = ks ! (j + i)" by simp_all
    then have "ks ! j \<le> x"
      using sorted by (cases i) (auto simp: sorted_wrt_iff_nth_less intro: less_imp_le)
    then show ?thesis using assms(4) i by (auto simp: upper_def)
  qed
  have "sorted_wrt (<) (take j ks @ drop j ks)" using sorted by simp
  then have "sorted_wrt (<) (insert_at j k ks)"
    unfolding insert_at_def sorted_wrt_append using left right by (auto intro: less_trans [of _ k])
  moreover have "above lo k"
    using assms(2,3) bounds [of "ks ! (j - 1)"] above_trans [of lo "ks ! (j - 1)" k] by (auto simp: lower_def split: if_splits)
  moreover have "below k hi"
    using assms(4) bounds [of "ks ! j"] below_trans [of k "ks ! j" hi] by (auto simp: upper_def split: if_splits)
  ultimately show ?thesis
    using bounds assms(5) by (auto simp: separators_ok_def)
qed

lemma separators_remove:
  "separators_ok lo ks hi \<Longrightarrow> separators_ok lo (take j ks @ drop (Suc j) ks) hi"
proof -
  assume ok: "separators_ok lo ks hi"
  have "sorted_wrt (<) (take j ks @ drop j ks)" using ok by (simp add: separators_ok_def)
  then have "sorted_wrt (<) (take j ks)" "sorted_wrt (<) (drop j ks)"
    and cross: "\<forall>x \<in> set (take j ks). \<forall>y \<in> set (drop j ks). x < y"
    unfolding sorted_wrt_append by blast+
  moreover have "set (drop (Suc j) ks) \<subseteq> set (drop j ks)" by (rule set_drop_subset_set_drop) simp
  moreover have "sorted_wrt (<) (drop (Suc j) ks)"
    using ok by (intro sorted_wrt_drop) (simp add: separators_ok_def)
  ultimately have "sorted_wrt (<) (take j ks @ drop (Suc j) ks)"
    by (auto simp: sorted_wrt_append)
  then show ?thesis
    using ok by (auto simp: separators_ok_def dest: in_set_takeD in_set_dropD)
qed

section \<open>The child of a key\<close>

lemma child_pos_le: "child_pos key ks \<le> length ks"
  by (auto simp: child_pos_def position_Some split: option.split)

lemma child_pos_interval:
  assumes "not_below lo key" and "below key hi"
  shows "not_below (lower lo ks (child_pos key ks)) key" and "below key (upper ks hi (child_pos key ks))"
proof -
  show "below key (upper ks hi (child_pos key ks))"
    using assms(2) by (auto simp: child_pos_def upper_def position_Some split: option.split)
  show "not_below (lower lo ks (child_pos key ks)) key"
    using assms(1)
    by (auto simp: child_pos_def lower_def position_Some position_None not_less split: option.split)
qed

lemma child_posI:
  assumes "j \<le> length ks" and "\<And>i. i < j \<Longrightarrow> ks ! i \<le> key" and "j < length ks \<Longrightarrow> key < ks ! j"
  shows "child_pos key ks = j"
proof (cases "j < length ks")
  case True
  then have "position (\<lambda>k. key < k) ks = Some j"
    using assms(2,3) by (auto simp: position_Some not_less)
  then show ?thesis by (simp add: child_pos_def)
next
  case False
  then have "j = length ks" using assms(1) by simp
  moreover from this have "position (\<lambda>k. key < k) ks = None"
    using assms(2) by (auto simp: position_None not_less in_set_conv_nth)
  ultimately show ?thesis by (simp add: child_pos_def)
qed

lemma separator_le:
  assumes "sorted_wrt (<) ks" and "i \<le> j" and "j < length ks"
  shows "ks ! i \<le> (ks ! j :: i32)"
  using assms by (cases "i = j") (auto simp: sorted_wrt_iff_nth_less intro: less_imp_le)

lemma child_pos_unique:
  assumes "sorted_wrt (<) ks" and "j \<le> length ks"
    and "not_below (lower lo ks j) key" and "below key (upper ks hi j)"
  shows "child_pos key ks = j"
proof (rule child_posI [OF assms(2)])
  fix i assume i: "i < j"
  then have "ks ! i \<le> ks ! (j - 1)" using assms(1,2) by (intro separator_le) auto
  also have "\<dots> \<le> key" using assms(3) i by (simp add: lower_def)
  finally show "ks ! i \<le> key" .
qed (use assms(4) in \<open>simp add: upper_def\<close>)

text \<open>The children of a page that may have no key of its own.\<close>

definition kids_wf :: "nat \<Rightarrow> nat \<Rightarrow> i32 option \<Rightarrow> i32 list \<Rightarrow> i32 option \<Rightarrow> btree list \<Rightarrow> bool" where
  "kids_wf d h lo ks hi cs \<longleftrightarrow> length ks < d \<and> separators_ok lo ks hi \<and>
     list_all2 (\<lambda>(a, b). bt_wf d h a b) (intervals lo ks hi) cs"

lemma wf_node_kids: "bt_wf d (Suc h) lo hi (BNode i ks cs) \<longleftrightarrow> ks \<noteq> [] \<and> kids_wf d h lo ks hi cs"
  by (simp add: kids_wf_def)

lemma kids_length: "kids_wf d h lo ks hi cs \<Longrightarrow> length cs = Suc (length ks)"
  by (auto simp: kids_wf_def dest: list_all2_lengthD)

lemma kid_wf:
  assumes "kids_wf d h lo ks hi cs" and "j \<le> length ks"
  shows "bt_wf d h (lower lo ks j) (upper ks hi j) (cs ! j)"
proof -
  have "list_all2 (\<lambda>(a, b). bt_wf d h a b) (intervals lo ks hi) cs"
    using assms(1) by (simp add: kids_wf_def)
  then have "(\<lambda>(a, b). bt_wf d h a b) (intervals lo ks hi ! j) (cs ! j)"
    by (rule list_all2_nthD) (use assms(2) in simp)
  then show ?thesis
    using assms(2) by (simp add: intervals_nth)
qed

lemma kids_replace:
  assumes "kids_wf d h lo ks hi cs" and "j \<le> length ks"
    and "bt_wf d h (lower lo ks j) (upper ks hi j) c"
  shows "kids_wf d h lo ks hi (cs[j := c])"
proof -
  have "list_all2 (\<lambda>(a, b). bt_wf d h a b) ((intervals lo ks hi)[j := intervals lo ks hi ! j]) (cs[j := c])"
    using assms by (intro list_all2_update_cong) (simp_all add: intervals_nth kids_wf_def)
  then show ?thesis using assms(1) by (simp add: kids_wf_def)
qed

lemma wf_child:
  "bt_wf d (Suc h) lo hi (BNode i ks cs) \<Longrightarrow> j \<le> length ks \<Longrightarrow> bt_wf d h (lower lo ks j) (upper ks hi j) (cs ! j)"
  unfolding wf_node_kids by (blast intro: kid_wf)

lemma wf_kids_length: "bt_wf d (Suc h) lo hi (BNode i ks cs) \<Longrightarrow> length cs = Suc (length ks)"
  unfolding wf_node_kids by (blast intro: kids_length)

lemma wf_replace_child:
  "bt_wf d (Suc h) lo hi (BNode i ks cs) \<Longrightarrow> j \<le> length ks \<Longrightarrow> bt_wf d h (lower lo ks j) (upper ks hi j) c \<Longrightarrow>
     bt_wf d (Suc h) lo hi (BNode i ks (cs[j := c]))"
  unfolding wf_node_kids by (blast intro: kids_replace)

lemma wf_leaf: "bt_wf d 0 lo hi t \<Longrightarrow> \<exists>i es nl. t = BLeaf i es nl"
  by (cases t) simp_all

lemma wf_node: "bt_wf d (Suc h) lo hi t \<Longrightarrow> \<exists>i ks cs. t = BNode i ks cs"
  by (cases t) simp_all

section \<open>The parts of a tree\<close>

lemma split_at: "j < length cs \<Longrightarrow> cs = take j cs @ cs ! j # drop (Suc j) cs"
  by (rule id_take_nth_drop)

lemma mset_ids_node: "mset (bt_ids (BNode i ks cs)) = add_mset i (\<Sum>c \<in># mset cs. mset (bt_ids c))"
proof -
  have "mset (map bt_id (concat (map bt_nodes cs))) = (\<Sum>c \<in># mset cs. mset (bt_ids c))"
    by (induction cs) (simp_all add: bt_ids_def)
  then show ?thesis by (simp add: bt_ids_def)
qed

lemma ids_leaf [simp]: "bt_ids (BLeaf i es nl) = [i]"
  by (simp add: bt_ids_def)

lemma ids_node: "set (bt_ids (BNode i ks cs)) = insert i (\<Union>c \<in> set cs. set (bt_ids c))"
  by (auto simp: bt_ids_def)

lemma id_in_ids: "bt_id t \<in> set (bt_ids t)"
  by (cases t) (simp_all add: bt_ids_def)

lemma node_in_nodes: "t \<in> set (bt_nodes t)"
  by (cases t) simp_all

lemma mset_list_parts:
  assumes "j < length cs"
  shows "mset (cs[j := c]) = add_mset c (mset (take j cs) + mset (drop (Suc j) cs))"
    and "mset cs = add_mset (cs ! j) (mset (take j cs) + mset (drop (Suc j) cs))"
proof -
  show update: "mset (cs[j := c]) = add_mset c (mset (take j cs) + mset (drop (Suc j) cs))" for c
    using assms by (simp add: upd_conv_take_nth_drop)
  show "mset cs = add_mset (cs ! j) (mset (take j cs) + mset (drop (Suc j) cs))"
    using update [of "cs ! j"] by simp
qed

lemma mset_ids_update:
  assumes "j < length cs"
  shows "mset (bt_ids (BNode i ks (cs[j := c]))) + mset (bt_ids (cs ! j)) =
    mset (bt_ids (BNode i ks' cs)) + mset (bt_ids c)"
  unfolding mset_ids_node mset_list_parts(1) [OF assms] mset_list_parts(2) [OF assms] by simp

text \<open>Entries of a changed child.\<close>

lemma set_entries_node [simp]: "set (bt_entries (BNode i ks cs)) = (\<Union>c \<in> set cs. set (bt_entries c))"
  by simp

lemma set_list_update: "j < length cs \<Longrightarrow> set (cs[j := c]) = insert c (set (take j cs) \<union> set (drop (Suc j) cs))"
  by (simp add: upd_conv_take_nth_drop)

lemma set_list_parts: "j < length cs \<Longrightarrow> set cs = insert (cs ! j) (set (take j cs) \<union> set (drop (Suc j) cs))"
  by (metis list_update_id set_list_update)

section \<open>Entries and separators\<close>

lemma interval_within:
  assumes "separators_ok lo ks hi" and "j \<le> length ks"
  shows "not_below (lower lo ks j) k \<Longrightarrow> not_below lo k" and "below k (upper ks hi j) \<Longrightarrow> below k hi"
proof -
  have bounds: "above lo x \<and> below x hi" if "x \<in> set ks" for x
    using assms(1) that by (simp add: separators_ok_def)
  show "not_below (lower lo ks j) k \<Longrightarrow> not_below lo k"
    using bounds [of "ks ! (j - 1)"] assms(2)
    by (auto simp: lower_def split: if_splits dest: above_not_below intro: not_below_trans)
  show "below k (upper ks hi j) \<Longrightarrow> below k hi"
    using bounds [of "ks ! j"] by (auto simp: upper_def split: if_splits intro: below_trans)
qed

lemma entries_in_interval:
  "bt_wf d h lo hi t \<Longrightarrow> e \<in> set (bt_entries t) \<Longrightarrow>
     not_below lo (fst e) \<and> below (fst e) hi \<and> fst e \<noteq> i32_min"
proof (induction h arbitrary: lo hi t)
  case 0
  then obtain i es nl where "t = BLeaf i es nl" using wf_leaf by blast
  with 0 show ?case by (auto simp: entries_ok_def)
next
  case (Suc h)
  then obtain i ks cs where t: "t = BNode i ks cs" by (auto dest: wf_node)
  obtain j where j: "j < length cs" "e \<in> set (bt_entries (cs ! j))"
    using Suc.prems(2) by (auto simp: t in_set_conv_nth [of _ cs])
  then have le: "j \<le> length ks" and sep: "separators_ok lo ks hi"
    using wf_kids_length [OF Suc.prems(1) [unfolded t]] Suc.prems(1) by (simp_all add: t)
  show ?case
    using Suc.IH [OF wf_child [OF Suc.prems(1) [unfolded t] le] j(2)] interval_within [OF sep le] by blast
qed

end
