(* ===== verification/BTree_Insertion.thy ===== *)
theory BTree_Insertion
  imports BTree_Invariant
begin

text \<open>
  Insertion into a tree. Making room below a page yields a tree of the same entries that satisfies
  the invariant, with the key in the interval of a child that is not full; the insertion itself
  changes that child only.
\<close>

section \<open>Entries of a leaf\<close>

lemma length_insert_entry: "length (insert_entry key v es) \<le> Suc (length es)"
  by (induction es) auto

lemma set_insert_entry_sub: "set (insert_entry key v es) \<subseteq> insert (key, v) (set es)"
  by (induction es) auto

lemma set_insert_entry:
  "key \<notin> fst ` set es \<Longrightarrow> set (insert_entry key v es) = insert (key, v) (set es)"
  by (induction es) auto

lemma insert_entry_present:
  "sorted_wrt (<) (map fst es) \<Longrightarrow> key \<in> fst ` set es \<Longrightarrow> insert_entry key v es = es"
  by (induction es) (auto simp: dest: less_asym)

lemma sorted_insert_entry:
  "sorted_wrt (<) (map fst es) \<Longrightarrow> sorted_wrt (<) (map fst (insert_entry key v es))"
proof (induction es)
  case (Cons e es)
  have "key < fst e \<Longrightarrow> x \<in> set es \<Longrightarrow> key < fst x" for x
    using Cons.prems by (auto intro: less_trans [of key "fst e"])
  moreover have "fst e < fst x" if "fst e < key" "x \<in> set (insert_entry key v es)" for x
    using set_insert_entry_sub [of key v es] that Cons.prems by auto
  ultimately show ?case
    using Cons by (cases key "fst e" rule: linorder_cases) simp_all
qed simp

lemma entries_insert_entry:
  assumes "entries_ok lo es hi" and "not_below lo key" and "below key hi"
    and "key \<noteq> i32_min" and "fst v \<noteq> i32_min" and "snd v \<noteq> i32_min"
  shows "entries_ok lo (insert_entry key v es) hi"
  using assms set_insert_entry_sub [of key v es] unfolding entries_ok_def
  by (intro conjI sorted_insert_entry) auto

section \<open>The list of the leaves\<close>

definition first_leaf :: "btree list \<Rightarrow> i32 option \<Rightarrow> i32 option" where
  "first_leaf ts z = (case ts of [] \<Rightarrow> z | t # _ \<Rightarrow> Some (bt_id t))"

lemma first_leaf_simps [simp]:
  "first_leaf [] z = z" "first_leaf (t # ts) z = Some (bt_id t)"
  "first_leaf (ts @ us) z = first_leaf ts (first_leaf us z)"
  by (auto simp: first_leaf_def split: list.split)

lemma linked_Cons [simp]: "linked (t # ts) z \<longleftrightarrow> leaf_next t = first_leaf ts z \<and> linked ts z"
  by (simp add: first_leaf_def)

declare linked.simps(2) [simp del]

lemma linked_append [simp]: "linked (ts @ us) z \<longleftrightarrow> linked ts (first_leaf us z) \<and> linked us z"
  by (induction ts) auto

text \<open>A change of the leaves that keeps them linked in any context.\<close>

definition relinks :: "btree list \<Rightarrow> btree list \<Rightarrow> bool" where
  "relinks ts us \<longleftrightarrow> (\<forall>z. first_leaf us z = first_leaf ts z \<and> (linked ts z \<longrightarrow> linked us z))"

lemma relinks_refl [simp]: "relinks ts ts"
  by (simp add: relinks_def)

lemma relinks_trans: "relinks ts us \<Longrightarrow> relinks us vs \<Longrightarrow> relinks ts vs"
  by (simp add: relinks_def)

lemma relinks_append: "relinks ts us \<Longrightarrow> relinks (xs @ ts @ ys) (xs @ us @ ys)"
  by (simp add: relinks_def)

lemma leaves_node: "bt_leaves (BNode i ks cs) = concat (map bt_leaves cs)"
  by simp

lemma relinks_kids:
  assumes "relinks (concat (map bt_leaves xs)) (concat (map bt_leaves ys))"
  shows "relinks (bt_leaves (BNode i ks (as @ xs @ bs))) (bt_leaves (BNode i ks' (as @ ys @ bs)))"
  using relinks_append [OF assms] by simp

lemma relinks_child:
  assumes "j < length cs" and "relinks (bt_leaves (cs ! j)) (bt_leaves c)"
  shows "relinks (bt_leaves (BNode i ks cs)) (bt_leaves (BNode i ks' (cs[j := c])))"
  using relinks_kids [of "[cs ! j]" "[c]" i ks "take j cs" "drop (Suc j) cs" ks'] assms
  by (simp add: upd_conv_take_nth_drop id_take_nth_drop [symmetric] del: bt_leaves.simps)

section \<open>Splitting a page\<close>

lemma entries_split:
  assumes "entries_ok lo es hi" and "0 < m" and "m < length es"
  shows "entries_ok lo (take m es) (Some (fst (es ! m)))"
    and "entries_ok (Some (fst (es ! m))) (drop m es) hi"
    and "above lo (fst (es ! m))" and "below (fst (es ! m)) hi" and "fst (es ! m) \<noteq> i32_min"
proof -
  let ?k = "fst (es ! m)"
  have sorted: "sorted_wrt (<) (map fst es)" and ok: "\<And>e. e \<in> set es \<Longrightarrow>
      not_below lo (fst e) \<and> below (fst e) hi \<and> fst e \<noteq> i32_min \<and> fst (snd e) \<noteq> i32_min \<and> snd (snd e) \<noteq> i32_min"
    using assms(1) by (auto simp: entries_ok_def)
  have less: "i < j \<Longrightarrow> j < length es \<Longrightarrow> fst (es ! i) < fst (es ! j)" for i j
    using sorted by (simp add: sorted_wrt_iff_nth_less)
  have left: "fst e < ?k" if "e \<in> set (take m es)" for e
    using that assms(3) less by (auto simp: in_set_conv_nth)
  have right: "?k \<le> fst e" if "e \<in> set (drop m es)" for e
  proof -
    obtain i where "i < length (drop m es)" "e = drop m es ! i" using \<open>e \<in> _\<close> by (metis in_set_conv_nth)
    then have "m + i < length es" "e = es ! (m + i)" by simp_all
    then show ?thesis using less [of m "m + i"] by (cases i) (auto intro: less_imp_le)
  qed
  have st: "sorted_wrt (<) (map fst (take m es))" "sorted_wrt (<) (map fst (drop m es))"
    using sorted by (simp_all add: sorted_wrt_take sorted_wrt_drop flip: take_map drop_map)
  have sub: "\<And>e. e \<in> set (take m es) \<Longrightarrow> e \<in> set es" "\<And>e. e \<in> set (drop m es) \<Longrightarrow> e \<in> set es"
    by (auto dest: in_set_takeD in_set_dropD)
  show "entries_ok lo (take m es) (Some ?k)"
    using st(1) left sub(1) ok unfolding entries_ok_def by fastforce
  show "entries_ok (Some ?k) (drop m es) hi"
    using st(2) right sub(2) ok unfolding entries_ok_def by fastforce
  show "above lo ?k"
  proof -
    have "es ! 0 \<in> set es" using assms(3) by (intro nth_mem) linarith
    then show ?thesis using not_below_above [of lo "fst (es ! 0)" ?k] ok less [of 0 m] assms(2,3) by blast
  qed
  show "below ?k hi" "?k \<noteq> i32_min"
    using ok [of "es ! m"] assms(3) by simp_all
qed

lemma kids_cut:
  assumes "separators_ok lo ks hi" and "list_all2 (\<lambda>(a, b). bt_wf d h a b) (intervals lo ks hi) cs"
    and "m < length ks" and "m < d" and "length ks - (m + 1) < d"
  shows "kids_wf d h lo (take m ks) (Some (ks ! m)) (take (m + 1) cs)"
    and "kids_wf d h (Some (ks ! m)) (drop (m + 1) ks) hi (drop (m + 1) cs)"
    and "above lo (ks ! m)" and "below (ks ! m) hi" and "ks ! m \<noteq> i32_min"
proof -
  have ks: "ks = take m ks @ ks ! m # drop (m + 1) ks"
    using assms(3) by (simp add: id_take_nth_drop [symmetric])
  have len: "length cs = Suc (length ks)"
    using assms(2) by (auto dest: list_all2_lengthD)
  have sep: "separators_ok lo (take m ks) (Some (ks ! m))" "separators_ok (Some (ks ! m)) (drop (m + 1) ks) hi"
    "above lo (ks ! m)" "below (ks ! m) hi" "ks ! m \<noteq> i32_min"
    using assms(1) separators_append [of lo "take m ks" "ks ! m" "drop (m + 1) ks" hi] unfolding ks [symmetric] by simp_all
  then show "above lo (ks ! m)" "below (ks ! m) hi" "ks ! m \<noteq> i32_min" by simp_all
  have iv: "intervals lo ks hi = intervals lo (take m ks) (Some (ks ! m)) @ intervals (Some (ks ! m)) (drop (m + 1) ks) hi"
    using intervals_append [of lo "take m ks" "ks ! m" "drop (m + 1) ks" hi] unfolding ks [symmetric] .
  have "list_all2 (\<lambda>(a, b). bt_wf d h a b)
      (intervals lo (take m ks) (Some (ks ! m)) @ intervals (Some (ks ! m)) (drop (m + 1) ks) hi)
      (take (m + 1) cs @ drop (m + 1) cs)"
    using assms(2) by (simp add: iv)
  then have "list_all2 (\<lambda>(a, b). bt_wf d h a b) (intervals lo (take m ks) (Some (ks ! m))) (take (m + 1) cs)"
    "list_all2 (\<lambda>(a, b). bt_wf d h a b) (intervals (Some (ks ! m)) (drop (m + 1) ks) hi) (drop (m + 1) cs)"
    using assms(3) len by (simp_all add: list_all2_append del: append_take_drop_id)
  then show "kids_wf d h lo (take m ks) (Some (ks ! m)) (take (m + 1) cs)"
    and "kids_wf d h (Some (ks ! m)) (drop (m + 1) ks) hi (drop (m + 1) cs)"
    using sep assms(4,5) by (simp_all add: kids_wf_def)
qed

text \<open>A full page is split into two pages that are not full, around a key of its own.\<close>

lemma split_wf:
  assumes "bt_wf d h lo hi t" and "bt_full d t" and "4 \<le> d" and "j \<noteq> i32_min"
    and "bt_split j t = (l, r, k)"
  shows "bt_wf d h lo (Some k) l" and "bt_wf d h (Some k) hi r"
    and "above lo k" and "below k hi" and "k \<noteq> i32_min"
    and "\<not> bt_full d l" and "\<not> bt_full d r"
proof -
  have "bt_wf d h lo (Some k) l \<and> bt_wf d h (Some k) hi r \<and> above lo k \<and> below k hi \<and> k \<noteq> i32_min \<and>
    \<not> bt_full d l \<and> \<not> bt_full d r"
  proof (cases h)
    case 0
    then obtain i es nl where t: "t = BLeaf i es nl" using assms(1) wf_leaf by blast
    define m where "m = length es div 2"
    have m: "0 < m" "m < length es" "length es = d - 1"
      using assms(1-3) 0 by (auto simp: t m_def bt_full_def)
    have lr: "l = BLeaf i (take m es) (Some j)" "r = BLeaf j (drop m es) nl" "k = fst (es ! m)"
      using assms(5) by (simp_all add: t m_def Let_def)
    have "entries_ok lo es hi" "nl \<noteq> Some i32_min" using assms(1) 0 by (simp_all add: t)
    moreover have "m < d \<and> \<not> d - Suc 0 \<le> d - Suc m" "length es - m < d"
      using m assms(3) by linarith+
    ultimately show ?thesis
      using entries_split [of lo es hi m] m assms(3,4) 0 by (simp add: lr bt_full_def)
  next
    case (Suc g)
    then obtain i ks cs where t: "t = BNode i ks cs" using assms(1) wf_node by blast
    define m where "m = length ks div 2"
    have m: "0 < m" "m < length ks" "length ks = d - 1" "Suc m < d - 1"
      using assms(1-3) Suc by (auto simp: t m_def bt_full_def)
    have lr: "l = BNode i (take m ks) (take (m + 1) cs)" "r = BNode j (drop (m + 1) ks) (drop (m + 1) cs)" "k = ks ! m"
      using assms(5) by (simp_all add: t m_def Let_def)
    have wf: "separators_ok lo ks hi" "list_all2 (\<lambda>(a, b). bt_wf d g a b) (intervals lo ks hi) cs"
      using assms(1) Suc by (simp_all add: t)
    have "m < d" "length ks - (m + 1) < d" using m by auto
    note cut = kids_cut [OF wf m(2) this, folded lr(3)]
    have "take m ks \<noteq> []" "drop (m + 1) ks \<noteq> []" "\<not> bt_full d l" "\<not> bt_full d r"
      using m by (auto simp: lr(1,2) bt_full_def)
    then show ?thesis
      using cut unfolding lr(1,2) Suc wf_node_kids by blast
  qed
  then show "bt_wf d h lo (Some k) l" and "bt_wf d h (Some k) hi r"
    and "above lo k" and "below k hi" and "k \<noteq> i32_min" and "\<not> bt_full d l" and "\<not> bt_full d r"
    by simp_all
qed

text \<open>What a split keeps.\<close>

lemma split_contents:
  assumes "bt_split j t = (l, r, k)" and "bt_wf d h lo hi t" and "bt_full d t" and "4 \<le> d"
  shows "bt_id l = bt_id t" and "bt_id r = j"
    and "bt_entries l @ bt_entries r = bt_entries t"
    and "bt_keys l \<union> bt_keys r \<union> {k} = bt_keys t"
    and "mset (bt_ids l) + mset (bt_ids r) = add_mset j (mset (bt_ids t))"
    and "relinks (bt_leaves t) (bt_leaves l @ bt_leaves r)"
proof -
  have "bt_id l = bt_id t \<and> bt_id r = j \<and> bt_entries l @ bt_entries r = bt_entries t \<and>
    bt_keys l \<union> bt_keys r \<union> {k} = bt_keys t \<and>
    mset (bt_ids l) + mset (bt_ids r) = add_mset j (mset (bt_ids t)) \<and>
    relinks (bt_leaves t) (bt_leaves l @ bt_leaves r)"
  proof (cases t)
    case t: (BLeaf i es nl)
    define m where "m = length es div 2"
    have m: "m < length es"
      using assms(3,4) by (auto simp: t m_def bt_full_def)
    have lr: "l = BLeaf i (take m es) (Some j)" "r = BLeaf j (drop m es) nl" "k = fst (es ! m)"
      using assms(1) by (simp_all add: t m_def Let_def)
    have "set es = set (take m es) \<union> set (drop m es)"
      by (metis append_take_drop_id set_append)
    moreover have "es ! m \<in> set es" using m by simp
    ultimately show ?thesis
      by (simp add: t lr relinks_def image_Un [symmetric] insert_absorb)
  next
    case t: (BNode i ks cs)
    define m where "m = length ks div 2"
    have m: "m < length ks"
      using assms(3,4) by (auto simp: t m_def bt_full_def)
    have lr: "l = BNode i (take m ks) (take (m + 1) cs)" "r = BNode j (drop (m + 1) ks) (drop (m + 1) cs)" "k = ks ! m"
      using assms(1) by (simp_all add: t m_def Let_def)
    have ks: "set ks = insert k (set (take m ks) \<union> set (drop (m + 1) ks))"
      using set_list_parts [OF m] by (simp add: lr)
    have cs: "cs = take (m + 1) cs @ drop (m + 1) cs" by simp
    have "set cs = set (take (m + 1) cs) \<union> set (drop (m + 1) cs)"
      using cs by (metis set_append)
    moreover have "mset cs = mset (take (m + 1) cs) + mset (drop (m + 1) cs)"
      using cs by (metis mset_append)
    moreover have "concat (map bt_entries cs) = concat (map bt_entries (take (m + 1) cs)) @ concat (map bt_entries (drop (m + 1) cs))"
      "concat (map bt_leaves cs) = concat (map bt_leaves (take (m + 1) cs)) @ concat (map bt_leaves (drop (m + 1) cs))"
      using cs by (metis concat_append map_append)+
    ultimately show ?thesis
      unfolding t lr(1,2) mset_ids_node by (auto simp: ks)
  qed
  then show "bt_id l = bt_id t" and "bt_id r = j"
    and "bt_entries l @ bt_entries r = bt_entries t"
    and "bt_keys l \<union> bt_keys r \<union> {k} = bt_keys t"
    and "mset (bt_ids l) + mset (bt_ids r) = add_mset j (mset (bt_ids t))"
    and "relinks (bt_leaves t) (bt_leaves l @ bt_leaves r)"
    by simp_all
qed

section \<open>Changing the children of a page\<close>

lemma insert_at_kids:
  "j < length cs \<Longrightarrow> insert_at (Suc j) r (cs[j := l]) = take j cs @ l # r # drop (Suc j) cs"
  by (simp add: insert_at_def upd_conv_take_nth_drop take_update_swap drop_update_cancel)

text \<open>Two neighbours in the place of a child, with a separator between them.\<close>

lemma wf_insert_child:
  assumes "bt_wf d (Suc h) lo hi (BNode i ks cs)" and "j \<le> length ks" and "Suc (length ks) < d"
    and "bt_wf d h (lower lo ks j) (Some k) l" and "bt_wf d h (Some k) (upper ks hi j) r"
    and "above (lower lo ks j) k" and "below k (upper ks hi j)" and "k \<noteq> i32_min"
  shows "bt_wf d (Suc h) lo hi (BNode i (insert_at j k ks) (take j cs @ l # r # drop (Suc j) cs))"
proof -
  let ?P = "\<lambda>(a, b). bt_wf d h a b" and ?I = "intervals lo ks hi"
  have sep: "separators_ok lo ks hi" and kids: "list_all2 ?P ?I cs"
    using assms(1) by simp_all
  then have "list_all2 ?P (take j ?I @ (lower lo ks j, Some k) # (Some k, upper ks hi j) # drop (Suc j) ?I)
      (take j cs @ l # r # drop (Suc j) cs)"
    using assms(4,5) by (intro list_all2_appendI) auto
  then show ?thesis
    using separators_insert [OF sep assms(2,6-8)] assms(2,3)
    by (simp add: intervals_insert) (simp add: insert_at_def)
qed

section \<open>Making room\<close>

lemma upt_split: "a \<le> b \<Longrightarrow> b \<le> c \<Longrightarrow> [a..<c] = [a..<b] @ [b..<c]"
  using upt_add_eq_append [of a b "c - b"] by simp

lemma new_page_id: "n < 2 ^ 31 \<Longrightarrow> usize_as_i32 n \<noteq> i32_min"
  by (auto simp: i32_eq_iff i32_min_def)

lemma mset_ids_parts:
  "mset (bt_ids (BNode i ks (as @ cs @ bs))) =
     add_mset i ((\<Sum>c \<in># mset as. mset (bt_ids c)) + (\<Sum>c \<in># mset cs. mset (bt_ids c)) + (\<Sum>c \<in># mset bs. mset (bt_ids c)))"
  by (simp add: mset_ids_node)

lemma make_room:
  assumes "bt_make_room d key ks cs n = (ks', cs', j, n')"
    and "bt_wf d (Suc h) lo hi (BNode i ks cs)" and "\<not> bt_full d (BNode i ks cs)" and "4 \<le> d" and "n < 2 ^ 31"
    and "not_below lo key" and "below key hi" and "key \<notin> bt_keys (BNode i ks cs)"
  shows "bt_wf d (Suc h) lo hi (BNode i ks' cs') \<and> j \<le> length ks' \<and> \<not> bt_full d (cs' ! j) \<and>
      not_below (lower lo ks' j) key \<and> below key (upper ks' hi j)" (is ?wf)
    and "bt_entries (BNode i ks' cs') = bt_entries (BNode i ks cs) \<and>
      bt_keys (BNode i ks' cs') = bt_keys (BNode i ks cs) \<and>
      mset (bt_ids (BNode i ks' cs')) = mset (bt_ids (BNode i ks cs)) + mset (map usize_as_i32 [n..<n']) \<and>
      n \<le> n' \<and> n' \<le> Suc n \<and>
      relinks (bt_leaves (BNode i ks cs)) (bt_leaves (BNode i ks' cs'))" (is ?same)
proof -
  define m where "m = child_pos key ks"
  let ?c = "cs ! m"
  have m: "m \<le> length ks" by (simp add: m_def child_pos_le)
  have len: "length cs = Suc (length ks)" by (rule wf_kids_length [OF assms(2)])
  note interval = child_pos_interval [OF assms(6,7), of ks, folded m_def]
  have "?wf \<and> ?same"
  proof (cases "bt_full d ?c")
    case False
    then have "ks' = ks" "cs' = cs" "j = m" "n' = n"
      using assms(1) by (auto simp: bt_make_room_def m_def Let_def)
    then show ?thesis
      using False assms(2) m interval by simp
  next
    case full: True
    obtain l r k where lrk: "bt_split (usize_as_i32 n) ?c = (l, r, k)" by (metis prod_cases3)
    have res: "ks' = insert_at m k ks" "cs' = take m cs @ l # r # drop (Suc m) cs" "n' = Suc n"
      "j = (if k < key \<or> (k = key \<and> m < length ks) then Suc m else m)"
      using assms(1) full lrk m len by (auto simp: bt_make_room_def m_def Let_def insert_at_kids)
    have child: "bt_wf d h (lower lo ks m) (upper ks hi m) ?c"
      by (rule wf_child [OF assms(2) m])
    note wf = split_wf [OF child full assms(4) new_page_id [OF assms(5)] lrk]
      and same = split_contents [OF lrk child full assms(4)]
    have parent: "bt_wf d (Suc h) lo hi (BNode i ks' cs')"
      unfolding res using assms(3) wf by (intro wf_insert_child [OF assms(2) m]) (auto simp: bt_full_def)
    have "k \<in> bt_keys (BNode i ks cs)"
      using same(4) m len by fastforce
    then have "k \<noteq> key" using assms(8) by blast
    have iv: "lower lo ks' m = lower lo ks m" "upper ks' hi m = Some k"
      "lower lo ks' (Suc m) = Some k" "upper ks' hi (Suc m) = upper ks hi m"
      using m by (auto simp: res lower_def upper_def insert_at_def nth_append min_def)
    have kid: "cs' ! m = l" "cs' ! Suc m = r"
      using m len by (simp_all add: res nth_append min_def)
    have pos: "j \<le> length ks' \<and> \<not> bt_full d (cs' ! j) \<and> not_below (lower lo ks' j) key \<and> below key (upper ks' hi j)"
      using interval wf(6,7) \<open>k \<noteq> key\<close> m by (cases "k < key") (auto simp: res(4) iv kid, auto simp: res(1))
    have cs: "cs = take m cs @ [?c] @ drop (Suc m) cs"
      using m len by (simp add: id_take_nth_drop [symmetric])
    have entries: "bt_entries (BNode i ks' cs') = bt_entries (BNode i ks cs)"
      using same(3) by (subst cs) (simp add: res)
    have keys: "bt_keys (BNode i ks' cs') = bt_keys (BNode i ks cs)"
    proof -
      have "set cs = insert ?c (set (take m cs) \<union> set (drop (Suc m) cs))"
        using m len by (intro set_list_parts) simp
      then show ?thesis using same(4) by (auto simp: res)
    qed
    have ids: "mset (bt_ids (BNode i ks' cs')) = add_mset (usize_as_i32 n) (mset (bt_ids (BNode i ks cs)))"
    proof -
      have "mset (bt_ids (BNode i ks cs)) = mset (bt_ids (BNode i ks (take m cs @ [?c] @ drop (Suc m) cs)))"
        using cs by simp
      moreover have "mset (bt_ids (BNode i ks' cs')) = mset (bt_ids (BNode i ks' (take m cs @ [l, r] @ drop (Suc m) cs)))"
        by (simp add: res)
      ultimately show ?thesis
        unfolding mset_ids_parts using same(5) by simp
    qed
    have "relinks (bt_leaves (BNode i ks (take m cs @ [?c] @ drop (Suc m) cs)))
        (bt_leaves (BNode i ks' (take m cs @ [l, r] @ drop (Suc m) cs)))"
      using same(6) by (intro relinks_kids) simp
    then have "relinks (bt_leaves (BNode i ks cs)) (bt_leaves (BNode i ks' cs'))"
      by (subst cs) (simp add: res)
    with parent pos entries keys ids show ?thesis
      by (simp add: res(3))
  qed
  then show ?wf and ?same by blast+
qed

section \<open>Insertion below a page that is not full\<close>

definition inserted :: "i32 \<Rightarrow> i32 \<times> i32 \<Rightarrow> btree \<Rightarrow> nat \<Rightarrow> btree \<Rightarrow> nat \<Rightarrow> bool" where
  "inserted key v t n t' n' \<longleftrightarrow>
     set (bt_entries t') = insert (key, v) (set (bt_entries t)) \<and>
     bt_keys t' = insert key (bt_keys t) \<and>
     mset (bt_ids t') = mset (bt_ids t) + mset (map usize_as_i32 [n..<n']) \<and> n \<le> n' \<and>
     relinks (bt_leaves t) (bt_leaves t')"

lemma insert_wf:
  assumes "bt_insert d h key v t n = (t', n')" and "bt_wf d h lo hi t" and "\<not> bt_full d t" and "4 \<le> d"
    and "n + h \<le> 2 ^ 31" and "not_below lo key" and "below key hi" and "key \<notin> bt_keys t"
    and "key \<noteq> i32_min" and "fst v \<noteq> i32_min" and "snd v \<noteq> i32_min"
  shows "bt_wf d h lo hi t' \<and> n' \<le> n + h \<and> bt_id t' = bt_id t \<and> inserted key v t n t' n'"
  using assms(1-8)
proof (induction h arbitrary: lo hi t n t' n')
  case 0
  then obtain i es nl where t: "t = BLeaf i es nl" using wf_leaf by blast
  have "length (insert_entry key v es) < d"
    using length_insert_entry [of key v es] 0(3) by (auto simp: t bt_full_def)
  moreover have "set (insert_entry key v es) = insert (key, v) (set es)"
    using 0(8) by (intro set_insert_entry) (simp add: t)
  moreover have "entries_ok lo (insert_entry key v es) hi"
    using 0(2,6,7) assms(9-) by (intro entries_insert_entry) (simp_all add: t)
  moreover have "t' = BLeaf i (insert_entry key v es) nl" "n' = n"
    using 0(1) by (simp_all add: t)
  ultimately show ?case
    using 0(2) by (simp add: t inserted_def relinks_def)
next
  case (Suc h)
  then obtain i ks cs where t: "t = BNode i ks cs" using wf_node by blast
  obtain ks' cs' j n1 where room: "bt_make_room d key ks cs n = (ks', cs', j, n1)" by (metis prod_cases4)
  obtain c where c: "bt_insert d h key v (cs' ! j) n1 = (c, n')" and t': "t' = BNode i ks' (cs'[j := c])"
    using Suc.prems(1) room by (auto simp: t Let_def split: prod.splits)
  have n: "n < 2 ^ 31" using Suc.prems(5) by simp
  note made = make_room [OF room Suc.prems(2) [unfolded t] Suc.prems(3) [unfolded t] Suc.prems(4) n
      Suc.prems(6,7) Suc.prems(8) [unfolded t]]
  let ?t1 = "BNode i ks' cs'"
  have wf1: "bt_wf d (Suc h) lo hi ?t1" and j: "j \<le> length ks'" and jc: "j < length cs'"
    and nfull: "\<not> bt_full d (cs' ! j)" and iv: "not_below (lower lo ks' j) key" "below key (upper ks' hi j)"
    using made(1) wf_kids_length [of d h lo hi i ks' cs'] by (auto simp del: bt_wf.simps)
  have n1: "n \<le> n1" "n1 \<le> Suc n" and fresh: "key \<notin> bt_keys (cs' ! j)"
    using made(2) Suc.prems(8) nth_mem [OF jc] by (auto simp: t)
  have IH: "bt_wf d h (lower lo ks' j) (upper ks' hi j) c \<and> n' \<le> n1 + h \<and> bt_id c = bt_id (cs' ! j) \<and>
      inserted key v (cs' ! j) n1 c n'"
    using n1 Suc.prems(5)
    by (intro Suc.IH [OF c wf_child [OF wf1 j] nfull Suc.prems(4) _ iv fresh]) simp
  have wf': "bt_wf d (Suc h) lo hi t'"
    unfolding t' using IH by (intro wf_replace_child [OF wf1 j]) simp
  have "set (bt_entries t') = insert (key, v) (set (bt_entries ?t1))" "bt_keys t' = insert key (bt_keys ?t1)"
    using IH set_list_update [OF jc, of c] set_list_parts [OF jc] by (auto simp: t' inserted_def)
  moreover have "mset (bt_ids t') = mset (bt_ids ?t1) + mset (map usize_as_i32 [n1..<n'])"
  proof -
    have "mset (bt_ids t') + mset (bt_ids (cs' ! j)) = mset (bt_ids ?t1) + mset (bt_ids c)"
      unfolding t' by (rule mset_ids_update [OF jc])
    then show ?thesis using IH by (simp add: inserted_def)
  qed
  moreover have "relinks (bt_leaves ?t1) (bt_leaves t')"
    unfolding t' using IH by (intro relinks_child [OF jc]) (simp add: inserted_def)
  moreover have "mset (map usize_as_i32 [n..<n1]) + mset (map usize_as_i32 [n1..<n']) = mset (map usize_as_i32 [n..<n'])"
  proof -
    have "[n..<n'] = [n..<n1] @ [n1..<n']"
      using n1 IH by (intro upt_split) (simp_all add: inserted_def)
    then show ?thesis by simp
  qed
  ultimately show ?case
    using made(2) IH n1 wf' unfolding inserted_def t
    by (auto simp: t' add.assoc simp del: bt_wf.simps bt_entries.simps bt_keys.simps bt_leaves.simps elim: relinks_trans)
qed

section \<open>Insertion into a whole tree\<close>

text \<open>A full root becomes the left child of a new root.\<close>

lemma root_split_wf:
  assumes "bt_split (usize_as_i32 n) t = (l, r, k)" and "bt_wf d h None None t" and "bt_full d t"
    and "4 \<le> d" and "Suc n < 2 ^ 31"
  defines "t1 \<equiv> BNode (usize_as_i32 (Suc n)) [k] [l, r]"
  shows "bt_wf d (Suc h) None None t1 \<and> \<not> bt_full d t1 \<and> bt_entries t1 = bt_entries t \<and> bt_keys t1 = bt_keys t \<and>
    mset (bt_ids t1) = mset (bt_ids t) + mset (map usize_as_i32 [n..<Suc (Suc n)]) \<and>
    relinks (bt_leaves t) (bt_leaves t1)"
proof -
  have "n < 2 ^ 31" using assms(5) by simp
  note wf = split_wf [OF assms(2-4) new_page_id [OF this] assms(1)]
    and same = split_contents [OF assms(1-4)]
  have "bt_wf d (Suc h) None None t1 \<and> \<not> bt_full d t1"
    using wf assms(4) by (simp add: t1_def separators_ok_def bt_full_def)
  moreover have "mset (bt_ids t1) = mset (bt_ids t) + mset (map usize_as_i32 [n..<Suc (Suc n)])"
    unfolding t1_def mset_ids_node using same(5) by (simp add: upt_rec)
  moreover have "relinks (bt_leaves t) (bt_leaves t1)" "bt_entries t1 = bt_entries t" "bt_keys t1 = bt_keys t"
    using same by (auto simp: t1_def)
  ultimately show ?thesis by blast
qed

lemma insert_root_wf:
  assumes "bt_insert_root d key v (h, t, n) = (h', t', n')" and "bt_wf d h None None t" and "4 \<le> d"
    and "n + h + 3 \<le> 2 ^ 31" and "key \<notin> bt_keys t"
    and "key \<noteq> i32_min" and "fst v \<noteq> i32_min" and "snd v \<noteq> i32_min"
  shows "bt_wf d h' None None t' \<and> h' \<le> Suc h \<and> n' \<le> n + h + 3 \<and> inserted key v t n t' n'"
proof (cases "bt_full d t")
  case False
  then have "bt_insert d h key v t n = (t', n')" "h' = h"
    using assms(1) by (auto simp: bt_insert_root_def)
  then show ?thesis
    using insert_wf [of d h key v t n t' n' None None] False assms by simp
next
  case full: True
  obtain l r k where lrk: "bt_split (usize_as_i32 n) t = (l, r, k)" by (metis prod_cases3)
  let ?t1 = "BNode (usize_as_i32 (Suc n)) [k] [l, r]"
  have ins: "bt_insert d (Suc h) key v ?t1 (Suc (Suc n)) = (t', n')" "h' = Suc h"
    using assms(1) full lrk by (auto simp: bt_insert_root_def simp del: bt_insert.simps)
  have "Suc n < 2 ^ 31" using assms(4) by simp
  note split = root_split_wf [OF lrk assms(2) full assms(3) this]
  have below: "bt_wf d (Suc h) None None t' \<and> n' \<le> Suc (Suc n) + Suc h \<and> bt_id t' = bt_id ?t1 \<and>
      inserted key v ?t1 (Suc (Suc n)) t' n'"
    using split assms(3-)
    by (intro insert_wf [OF ins(1)]) (simp_all del: bt_wf.simps bt_keys.simps)
  moreover have "[n..<n'] = [n..<Suc (Suc n)] @ [Suc (Suc n)..<n']"
    using below by (intro upt_split) (simp_all add: inserted_def)
  ultimately show ?thesis
    using split ins(2) unfolding inserted_def
    by (auto simp: add.assoc simp del: bt_wf.simps bt_entries.simps bt_keys.simps bt_leaves.simps elim: relinks_trans)
qed

section \<open>Filled pages\<close>

lemma filled_kids: "bt_filled d t \<longleftrightarrow> (\<forall>c \<in> set (bt_kids t). d div 2 - 2 \<le> bt_width c \<and> bt_filled d c)"
  by (cases t) simp_all

definition kids_filled :: "nat \<Rightarrow> btree list \<Rightarrow> bool" where
  "kids_filled d cs \<longleftrightarrow> (\<forall>c \<in> set cs. d div 2 - 2 \<le> bt_width c \<and> bt_filled d c)"

lemma filled_node: "bt_filled d (BNode i ks cs) \<longleftrightarrow> kids_filled d cs"
  by (simp add: kids_filled_def)

lemma split_filled:
  assumes "bt_split j t = (l, r, k)" and "bt_wf d h lo hi t" and "bt_full d t" and "4 \<le> d" and "bt_filled d t"
  shows "kids_filled d [l, r]"
proof (cases t)
  case t: (BLeaf i es nl)
  then show ?thesis
    using assms(1,3,4) by (auto simp: kids_filled_def bt_full_def Let_def)
next
  case t: (BNode i ks cs)
  have w: "length ks = d - 1" using assms(2,3) by (cases h) (auto simp: t bt_full_def)
  have lr: "l = BNode i (take (length ks div 2) ks) (take (length ks div 2 + 1) cs)"
    "r = BNode j (drop (length ks div 2 + 1) ks) (drop (length ks div 2 + 1) cs)"
    using assms(1) by (simp_all add: t Let_def)
  have "d div 2 - 2 \<le> bt_width l" "d div 2 - 2 \<le> bt_width r" using w assms(4) by (auto simp: lr)
  moreover have "bt_filled d l" "bt_filled d r"
    using assms(5) by (auto simp: t lr dest: in_set_takeD in_set_dropD)
  ultimately show ?thesis by (simp add: kids_filled_def)
qed

lemma make_room_filled:
  assumes "bt_make_room d key ks cs n = (ks', cs', j, n')" and "bt_wf d (Suc h) lo hi (BNode i ks cs)"
    and "4 \<le> d" and "kids_filled d cs"
  shows "kids_filled d cs' \<and> length ks \<le> length ks'"
proof -
  define m where "m = child_pos key ks"
  have m: "m \<le> length ks" by (simp add: m_def child_pos_le)
  then have mc: "m < length cs" using wf_kids_length [OF assms(2)] by simp
  show ?thesis
  proof (cases "bt_full d (cs ! m)")
    case False
    then show ?thesis using assms(1,4) by (auto simp: bt_make_room_def m_def Let_def)
  next
    case True
    obtain l r k where lrk: "bt_split (usize_as_i32 n) (cs ! m) = (l, r, k)" by (metis prod_cases3)
    have res: "ks' = insert_at m k ks" "cs' = take m cs @ l # r # drop (Suc m) cs"
      using assms(1) True lrk mc by (auto simp: bt_make_room_def m_def Let_def insert_at_kids)
    have "bt_filled d (cs ! m)" using assms(4) mc by (simp add: kids_filled_def)
    then have "kids_filled d [l, r]"
      by (rule split_filled [OF lrk wf_child [OF assms(2) m] True assms(3)])
    then show ?thesis
      using assms(4) m by (auto simp: res kids_filled_def dest: in_set_takeD in_set_dropD)
  qed
qed

lemma length_insert_entry_le: "length es \<le> length (insert_entry key v es)"
  by (induction es) auto

lemma insert_filled:
  assumes "bt_insert d h key v t n = (t', n')" and "bt_wf d h lo hi t" and "\<not> bt_full d t" and "4 \<le> d"
    and "n + h \<le> 2 ^ 31" and "not_below lo key" and "below key hi" and "key \<notin> bt_keys t" and "bt_filled d t"
  shows "bt_filled d t' \<and> bt_width t \<le> bt_width t'"
  using assms
proof (induction h arbitrary: lo hi t n t' n')
  case 0
  then obtain i es nl where t: "t = BLeaf i es nl" using wf_leaf by blast
  then have "t' = BLeaf i (insert_entry key v es) nl" using 0(1) by simp
  then show ?case by (simp add: t length_insert_entry_le)
next
  case (Suc h)
  then obtain i ks cs where t: "t = BNode i ks cs" using wf_node by blast
  obtain ks' cs' j n1 where room: "bt_make_room d key ks cs n = (ks', cs', j, n1)" by (metis prod_cases4)
  obtain c where c: "bt_insert d h key v (cs' ! j) n1 = (c, n')" and t': "t' = BNode i ks' (cs'[j := c])"
    using Suc.prems(1) room by (auto simp: t Let_def split: prod.splits)
  have n: "n < 2 ^ 31" using Suc.prems(5) by simp
  note made = make_room [OF room Suc.prems(2) [unfolded t] Suc.prems(3) [unfolded t] Suc.prems(4) n
      Suc.prems(6,7) Suc.prems(8) [unfolded t]]
  have filled: "kids_filled d cs' \<and> length ks \<le> length ks'"
    using make_room_filled [OF room Suc.prems(2) [unfolded t] Suc.prems(4)] Suc.prems(9) by (simp only: t filled_node)
  have wf1: "bt_wf d (Suc h) lo hi (BNode i ks' cs')" and j: "j \<le> length ks'" and nfull: "\<not> bt_full d (cs' ! j)"
    and iv: "not_below (lower lo ks' j) key" "below key (upper ks' hi j)"
    using made(1) by blast+
  have jc: "j < length cs'" using wf_kids_length [OF wf1] j by simp
  have "n1 + h \<le> 2 ^ 31" "key \<notin> bt_keys (cs' ! j)" "bt_filled d (cs' ! j)"
    using made(2) Suc.prems(5,8) nth_mem [OF jc] filled by (auto simp: t kids_filled_def)
  then have IH: "bt_filled d c \<and> bt_width (cs' ! j) \<le> bt_width c"
    using Suc.IH [OF c wf_child [OF wf1 j] nfull Suc.prems(4) _ iv] by blast
  have "d div 2 - 2 \<le> bt_width (cs' ! j)" using filled jc by (simp add: kids_filled_def)
  then have "d div 2 - 2 \<le> bt_width c" using IH by (meson order_trans)
  then show ?case
    using filled IH set_list_update [OF jc, of c]
    by (auto simp: t' t kids_filled_def dest: in_set_takeD in_set_dropD)
qed

lemma insert_root_filled:
  assumes "bt_insert_root d key v (h, t, n) = (h', t', n')" and "bt_wf d h None None t" and "4 \<le> d"
    and "n + h + 3 \<le> 2 ^ 31" and "key \<notin> bt_keys t" and "bt_filled d t"
  shows "bt_filled d t'"
proof (cases "bt_full d t")
  case False
  then have "bt_insert d h key v t n = (t', n')" "h' = h"
    using assms(1) by (auto simp: bt_insert_root_def)
  then show ?thesis
    using insert_filled [of d h key v t n t' n' None None] False assms by simp
next
  case full: True
  obtain l r k where lrk: "bt_split (usize_as_i32 n) t = (l, r, k)" by (metis prod_cases3)
  let ?t1 = "BNode (usize_as_i32 (Suc n)) [k] [l, r]"
  have ins: "bt_insert d (Suc h) key v ?t1 (Suc (Suc n)) = (t', n')"
    using assms(1) full lrk by (auto simp: bt_insert_root_def simp del: bt_insert.simps)
  have "Suc n < 2 ^ 31" using assms(4) by simp
  note split = root_split_wf [OF lrk assms(2) full assms(3) this]
  have "bt_filled d ?t1" unfolding filled_node by (rule split_filled [OF lrk assms(2) full assms(3,6)])
  moreover have "bt_wf d (Suc h) None None ?t1" "\<not> bt_full d ?t1" "key \<notin> bt_keys ?t1"
    using split assms(5) by blast+
  ultimately show ?thesis
    using insert_filled [OF ins] assms(3,4) by simp
qed

end
