(* ===== verification/BTree_Codec.thy ===== *)
theory BTree_Codec
  imports BTree_Pager
begin

text \<open>
  The byte format of a B+ tree page read back: after its 9-byte header a page is an array of
  4-byte cells (\<open>enc\<close>); every write of \<open>write_page\<close> is an update of this array and every
  read takes a prefix of one of its regions up to the first NULL.
\<close>

section \<open>Offsets\<close>

definition degree_ok :: "u16 \<Rightarrow> bool" where
  "degree_ok d \<longleftrightarrow> 2 \<le> unat d \<and> unat d \<le> 8192"

lemma u16_pred:
  assumes "1 \<le> unat (d :: u16)"
  shows "u16_checked_sub d 1 = Inr (d - 1)" and "unat (d - 1) = unat d - 1"
proof -
  have "(1 :: u16) \<le> d"
    using assms by (simp add: word_le_nat_alt)
  then show "u16_checked_sub d 1 = Inr (d - 1)" and "unat (d - 1) = unat d - 1"
    by (simp_all add: u16_checked_sub_def unat_sub)
qed

lemma u16_mul:
  assumes "unat (a :: u16) * unat b < 2 ^ 16"
  shows "u16_checked_mul a b = Inr (a * b)" and "unat (a * b) = unat a * unat b"
  using assms by (simp_all add: u16_checked_mul_def unat_mult_lem [THEN iffD1])

lemma degree_arith:
  assumes "degree_ok d"
  shows "u16_checked_sub d 1 = Inr (d - 1)" "unat (d - 1) = unat d - 1"
    "u16_checked_mul d 4 = Inr (d * 4)" "unat (d * 4) = unat d * 4"
    "u16_checked_mul (d - 1) 4 = Inr ((d - 1) * 4)" "unat ((d - 1) * 4) = (unat d - 1) * 4"
    "u16_checked_mul (d - 1) 8 = Inr ((d - 1) * 8)" "unat ((d - 1) * 8) = (unat d - 1) * 8"
proof -
  have d: "1 \<le> unat d" "unat d \<le> 8192"
    using assms by (simp_all add: degree_ok_def)
  show pred: "u16_checked_sub d 1 = Inr (d - 1)" "unat (d - 1) = unat d - 1"
    by (rule u16_pred [OF d(1)])+
  show "u16_checked_mul d 4 = Inr (d * 4)" "unat (d * 4) = unat d * 4"
    using d u16_mul [of d 4] by simp_all
  show "u16_checked_mul (d - 1) 4 = Inr ((d - 1) * 4)" "unat ((d - 1) * 4) = (unat d - 1) * 4"
    "u16_checked_mul (d - 1) 8 = Inr ((d - 1) * 8)" "unat ((d - 1) * 8) = (unat d - 1) * 8"
  proof -
    have "unat (d - 1) * unat (4 :: u16) < 2 ^ 16" "unat (d - 1) * unat (8 :: u16) < 2 ^ 16"
      using d pred(2) by simp_all
    note mul = u16_mul [OF this(1)] u16_mul [OF this(2)]
    show "u16_checked_mul (d - 1) 4 = Inr ((d - 1) * 4)" "u16_checked_mul (d - 1) 8 = Inr ((d - 1) * 8)"
      by (rule mul)+
    show "unat ((d - 1) * 4) = (unat d - 1) * 4" "unat ((d - 1) * 8) = (unat d - 1) * 8"
      unfolding mul pred(2) by simp_all
  qed
qed

text \<open>The offset of a cell of a page.\<close>

definition cell :: "nat \<Rightarrow> nat" where
  "cell j = 9 + 4 * j"

lemma cell_Suc [simp]: "cell j + 4 = cell (Suc j)" "cell j + 8 = cell (Suc (Suc j))" "cell (Suc j) + 4 = cell (Suc (Suc j))"
  by (simp_all add: cell_def)

lemma offsets [simp]:
  assumes "degree_ok d"
  shows "children_offset d = Inr (cell (unat d - 1))"
    and "values_offset d = Inr (cell (2 * unat d - 1))"
    and "next_leaf_offset d = Inr (cell (4 * unat d - 3))"
    and "node_page_size d = Inr (cell (4 * unat d - 2))"
proof -
  define k where "k = d - 1"
  note degree_arith [OF assms, folded k_def, simp]
  have d: "2 \<le> unat d" using assms by (simp add: degree_ok_def)
  show "children_offset d = Inr (cell (unat d - 1))"
    "values_offset d = Inr (cell (2 * unat d - 1))"
    "next_leaf_offset d = Inr (cell (4 * unat d - 3))"
    "node_page_size d = Inr (cell (4 * unat d - 2))"
    using d
    by (simp_all add: cell_def key_array_size_def children_offset_def values_offset_def next_leaf_offset_def
        node_page_size_def children_array_size_def values_array_size_def node_consts)
qed

section \<open>Cells\<close>

definition enc :: "i32 list \<Rightarrow> byte list" where
  "enc cs = concat (map i32_to_be cs)"

lemma length_enc [simp]: "length (enc cs) = 4 * length cs"
  by (induction cs) (simp_all add: enc_def)

lemma enc_simps [simp]: "enc [] = []" "enc (c # cs) = i32_to_be c @ enc cs" "enc (xs @ ys) = enc xs @ enc ys"
  by (simp_all add: enc_def)

lemma take_enc [simp]: "take (4 * n) (enc cs) = enc (take n cs)"
proof (induction n arbitrary: cs)
  case (Suc n)
  then show ?case by (cases cs) (simp_all add: enc_def)
qed simp

lemma drop_enc [simp]: "drop (4 * n) (enc cs) = enc (drop n cs)"
proof (induction n arbitrary: cs)
  case (Suc n)
  then show ?case by (cases cs) (simp_all add: enc_def)
qed simp

lemma cell_read:
  assumes "length h = 9" and "j < length cs"
  shows "read_node_i32 (h @ enc cs) (cell j) = Inr (cs ! j)"
proof -
  have "take 4 (enc (drop j cs)) = enc (take 1 (drop j cs))"
    using take_enc [of 1] by simp
  moreover have "take 1 (drop j cs) = [cs ! j]"
    using assms(2) by (simp add: Cons_nth_drop_Suc [symmetric])
  ultimately have "take 4 (enc (drop j cs)) = i32_to_be (cs ! j)"
    by simp
  then show ?thesis
    using assms by (simp add: read_node_i32_def get_range_def cell_def)
qed

lemma cell_write:
  assumes "length h = 9" and "j < length cs"
  shows "copy_into (h @ enc cs) (cell j) (cell (Suc j)) (i32_to_be v) = Inr (h @ enc (cs[j := v]))"
proof -
  have "drop (4 + 4 * j) (enc cs) = enc (drop (Suc j) cs)"
    using drop_enc [of "Suc j" cs] by (simp add: algebra_simps)
  then show ?thesis
    using assms by (simp add: copy_into_def upd_conv_take_nth_drop cell_def)
qed

definition overwrite :: "'a list \<Rightarrow> nat \<Rightarrow> 'a list \<Rightarrow> 'a list" where
  "overwrite xs j ys = take j xs @ ys @ drop (j + length ys) xs"

lemma length_overwrite [simp]: "j + length ys \<le> length xs \<Longrightarrow> length (overwrite xs j ys) = length xs"
  by (simp add: overwrite_def)

lemma overwrite_Cons:
  assumes "j + length (y # ys) \<le> length xs"
  shows "overwrite (xs[j := y]) (Suc j) ys = overwrite xs j (y # ys)"
  using assms by (simp add: overwrite_def take_Suc_conv_app_nth)

lemma write_i32s_cells:
  assumes "length h = 9" and "j + length xs \<le> length cs"
  shows "write_i32s (h @ enc cs) (cell j) xs = Inr (h @ enc (overwrite cs j xs))"
  using assms(2)
proof (induction xs arbitrary: cs j)
  case Nil
  then show ?case by (simp add: overwrite_def)
next
  case (Cons x xs)
  have "write_i32s (h @ enc (cs[j := x])) (cell (Suc j)) xs =
      Inr (h @ enc (overwrite (cs[j := x]) (Suc j) xs))"
    using Cons by (intro Cons.IH) simp
  then show ?case
    using Cons.prems assms(1) by (simp add: cell_write overwrite_Cons)
qed

definition flat :: "(i32 \<times> i32) list \<Rightarrow> i32 list" where
  "flat vs = concat (map (\<lambda>(a, b). [a, b]) vs)"

lemma flat_simps [simp]: "flat [] = []" "flat (v # vs) = fst v # snd v # flat vs" "length (flat vs) = 2 * length vs"
proof -
  show "length (flat vs) = 2 * length vs"
    by (induction vs) (auto simp: flat_def)
qed (auto simp: flat_def split: prod.split)

lemma write_values_cells:
  assumes "length h = 9" and "j + 2 * length vs \<le> length cs"
  shows "write_values (h @ enc cs) (cell j) vs = Inr (h @ enc (overwrite cs j (flat vs)))"
  using assms(2)
proof (induction vs arbitrary: cs j)
  case Nil
  then show ?case by (simp add: overwrite_def)
next
  case (Cons v vs)
  let ?cs = "cs[j := fst v, Suc j := snd v]"
  have IH: "write_values (h @ enc ?cs) (cell (Suc (Suc j))) vs =
      Inr (h @ enc (overwrite ?cs (Suc (Suc j)) (flat vs)))"
    using Cons by (intro Cons.IH) simp
  have "copy_into (h @ enc (cs[j := fst v])) (cell (Suc j)) (cell (Suc (Suc j))) (i32_to_be (snd v)) =
      Inr (h @ enc ?cs)"
    using Cons.prems assms(1) by (intro cell_write) simp_all
  moreover have "overwrite ?cs (Suc (Suc j)) (flat vs) = overwrite cs j (flat (v # vs))"
    using Cons.prems by (simp add: overwrite_Cons)
  ultimately show ?case
    using Cons.prems assms(1) IH by (simp add: cell_write)
qed

lemma fill_null_cells:
  assumes "length h = 9" and "j + n \<le> length cs"
  shows "fill_null (h @ enc cs) (cell j) n = Inr (h @ enc (overwrite cs j (replicate n i32_min)))"
  using assms(2)
proof (induction n arbitrary: cs j)
  case 0
  then show ?case by (simp add: overwrite_def)
next
  case (Suc n)
  have "fill_null (h @ enc (cs[j := i32_min])) (cell (Suc j)) n =
      Inr (h @ enc (overwrite (cs[j := i32_min]) (Suc j) (replicate n i32_min)))"
    using Suc by (intro Suc.IH) simp
  then show ?case
    using Suc.prems assms(1) by (simp add: cell_write overwrite_Cons)
qed

text \<open>Reading a region: the cells up to the first NULL.\<close>

definition until_null :: "i32 list \<Rightarrow> i32 list" where
  "until_null = takeWhile (\<lambda>v. v \<noteq> i32_min)"

lemma read_i32s_cells:
  assumes "length h = 9" and "j + n \<le> length cs"
  shows "read_i32s (h @ enc cs) (cell j) n = Inr (until_null (take n (drop j cs)))"
  using assms(2)
proof (induction n arbitrary: j)
  case 0
  then show ?case by (simp add: until_null_def)
next
  case (Suc n)
  have "read_i32s (h @ enc cs) (cell (Suc j)) n = Inr (until_null (take n (drop (Suc j) cs)))"
    using Suc by (intro Suc.IH) simp
  moreover have "drop j cs = cs ! j # drop (Suc j) cs"
    using Suc.prems by (simp add: Cons_nth_drop_Suc)
  ultimately show ?case
    using Suc.prems assms(1)
    by (simp add: cell_read read_i32_with_null_def until_null_def)
qed

fun pairs_until_null :: "i32 list \<Rightarrow> (i32 \<times> i32) list" where
  "pairs_until_null (a # b # cs) =
     (if a \<noteq> i32_min \<and> b \<noteq> i32_min then (a, b) # pairs_until_null cs else [])"
| "pairs_until_null _ = []"

lemma read_values_cells:
  assumes "length h = 9" and "j + 2 * n \<le> length cs"
  shows "read_values (h @ enc cs) (cell j) n = Inr (pairs_until_null (take (2 * n) (drop j cs)))"
  using assms(2)
proof (induction n arbitrary: j)
  case 0
  then show ?case by simp
next
  case (Suc n)
  have "read_values (h @ enc cs) (cell (Suc (Suc j))) n =
      Inr (pairs_until_null (take (2 * n) (drop (Suc (Suc j)) cs)))"
    using Suc by (intro Suc.IH) simp
  moreover have "read_node_i32 (h @ enc cs) (cell (Suc j)) = Inr (cs ! Suc j)"
    using Suc.prems assms(1) by (intro cell_read) simp_all
  moreover have "drop j cs = cs ! j # cs ! Suc j # drop (Suc (Suc j)) cs"
    using Suc.prems by (simp add: Cons_nth_drop_Suc)
  ultimately show ?case
    using Suc.prems assms(1) by (simp add: cell_read)
qed

lemma until_null_append: "until_null (xs @ replicate k i32_min) = until_null xs"
  by (induction xs) (auto simp: until_null_def takeWhile_eq_Nil_iff intro: hd_replicate)

lemma pairs_until_null_append:
  "pairs_until_null (flat vs @ replicate k i32_min) = takeWhile (\<lambda>v. fst v \<noteq> i32_min \<and> snd v \<noteq> i32_min) vs"
proof (induction vs)
  case Nil
  then show ?case by (cases k rule: nat.exhaust; simp) (cases "k - 1"; simp)
qed simp

lemma null_free:
  "list_all (\<lambda>v. v \<noteq> i32_min) xs \<Longrightarrow> until_null xs = xs"
  "list_all (\<lambda>v. fst v \<noteq> i32_min \<and> snd v \<noteq> i32_min) vs \<Longrightarrow>
     takeWhile (\<lambda>v. fst v \<noteq> i32_min \<and> snd v \<noteq> i32_min) vs = vs"
  by (auto simp: until_null_def list_all_iff)

lemma overwrite_same:
  assumes "j + length ys \<le> length xs" and "length ys \<le> n"
  shows "take n (drop j (overwrite xs j ys)) = ys @ take (n - length ys) (drop (j + length ys) xs)"
  using assms by (simp add: overwrite_def)

lemma overwrite_other:
  assumes "j + length ys \<le> length xs" and "b + n \<le> j \<or> j + length ys \<le> b"
  shows "take n (drop b (overwrite xs j ys)) = take n (drop b xs)"
  using take_drop_write_other [OF assms] by (simp add: overwrite_def)

lemma list_update_overwrite: "j < length xs \<Longrightarrow> xs[j := v] = overwrite xs j [v]"
  by (simp add: overwrite_def upd_conv_take_nth_drop)

section \<open>The image of a page\<close>

definition node_header :: "node_page \<Rightarrow> byte list" where
  "node_header n = i32_to_be (node_id n) @ (if deleted n then 1 else 0) #
     get_i32_be_bytes_from_option (next_deleted_page n)"

definition null_of :: "i32 option \<Rightarrow> i32" where
  "null_of v = (case v of None \<Rightarrow> i32_min | Some x \<Rightarrow> x)"

definition node_cells :: "node_page \<Rightarrow> nat \<Rightarrow> i32 list" where
  "node_cells n d =
     overwrite (overwrite (overwrite (overwrite (replicate (4 * d - 2) i32_min) 0 (keys n))
       (d - 1) (children n)) (2 * d - 1) (flat (node_values n))) (4 * d - 3) [null_of (next_leaf n)]"

definition node_sizes_ok :: "u16 \<Rightarrow> node_page \<Rightarrow> bool" where
  "node_sizes_ok d n \<longleftrightarrow> degree_ok d \<and> length (keys n) \<le> unat d - 1 \<and> length (children n) \<le> unat d \<and>
     length (node_values n) \<le> unat d - 1"

lemma length_node_header [simp]: "length (node_header n) = 9"
  by (simp add: node_header_def get_i32_be_bytes_from_option_def)

lemma enc_zero: "replicate (4 * m) 0 = enc (replicate m (I32 0))"
proof -
  have "i32_to_be (I32 0) = replicate 4 0"
    by code_simp
  moreover have "replicate (4 * Suc k) (0 :: byte) = replicate 4 0 @ replicate (4 * k) 0" for k
    by (simp only: mult_Suc_right replicate_add)
  ultimately show ?thesis
    by (induction m) (simp_all add: enc_def del: mult_Suc_right)
qed

lemma header_write:
  assumes "length h = 9"
  shows "and_then (copy_into (h @ E) POS_PAGE_ID (POS_PAGE_ID + 4) (i32_to_be (node_id n))) (\<lambda>b1.
     and_then (index_set b1 POS_DELETED (if deleted n then 1 else 0)) (\<lambda>b2.
     copy_into b2 POS_NEXT_DELETED_PAGE (POS_NEXT_DELETED_PAGE + 4)
                 (get_i32_be_bytes_from_option (next_deleted_page n)))) =
    (Inr (node_header n @ E) :: (byte list, 'e) result)"
proof -
  have "drop 4 h = h ! 4 # drop 5 h"
    using assms Cons_nth_drop_Suc [of 4 h] by simp
  then show ?thesis
    using assms
    by (simp add: node_consts get_i32_be_bytes_from_option_def node_header_def list_update_append)
qed

lemma node_cells_length:
  assumes "node_sizes_ok d n"
  shows "length (node_cells n (unat d)) = 4 * unat d - 2"
proof -
  have "2 \<le> unat d" "length (keys n) \<le> unat d - 1" "length (children n) \<le> unat d"
    "length (node_values n) \<le> unat d - 1"
    using assms by (simp_all add: node_sizes_ok_def degree_ok_def)
  then show ?thesis by (simp add: node_cells_def)
qed

lemma node_to_bytes_eq:
  assumes "node_sizes_ok d n"
  shows "node_to_bytes n d = Inr (node_header n @ enc (node_cells n (unat d)))"
proof -
  let ?D = "unat d"
  have ok: "degree_ok d" and d: "2 \<le> ?D" and len: "length (keys n) \<le> ?D - 1" "length (children n) \<le> ?D"
    "length (node_values n) \<le> ?D - 1"
    using assms by (simp_all add: node_sizes_ok_def degree_ok_def)
  let ?m = "4 * ?D - 2"
  let ?c0 = "replicate ?m i32_min"
  let ?c1 = "overwrite ?c0 0 (keys n)"
  let ?c2 = "overwrite ?c1 (?D - 1) (children n)"
  let ?c3 = "overwrite ?c2 (2 * ?D - 1) (flat (node_values n))"
  have zero: "replicate (cell ?m) 0 = replicate 9 0 @ enc (replicate ?m (I32 0))"
    by (simp add: cell_def replicate_add enc_zero)
  have steps: "(cell ?m - PAGE_DATA_START + 3) div 4 = ?m" and start: "PAGE_DATA_START = cell 0"
    by (simp_all add: cell_def node_consts)
  have fill: "fill_null (replicate 9 0 @ enc (replicate ?m (I32 0))) (cell 0) ?m =
      Inr (replicate 9 0 @ enc ?c0)"
    by (subst fill_null_cells) (simp_all add: overwrite_def)
  have w1: "write_i32s (node_header n @ enc ?c0) (cell 0) (keys n) = Inr (node_header n @ enc ?c1)"
    using len d by (intro write_i32s_cells) simp_all
  have w2: "write_i32s (node_header n @ enc ?c1) (cell (?D - 1)) (children n) = Inr (node_header n @ enc ?c2)"
    using len d by (intro write_i32s_cells) simp_all
  have w3: "write_values (node_header n @ enc ?c2) (cell (2 * ?D - 1)) (node_values n) =
      Inr (node_header n @ enc ?c3)"
    using len d by (intro write_values_cells) simp_all
  have "copy_into (node_header n @ enc ?c3) (cell (4 * ?D - 3)) (cell (Suc (4 * ?D - 3)))
      (i32_to_be (null_of (next_leaf n))) = Inr (node_header n @ enc (?c3[4 * ?D - 3 := null_of (next_leaf n)]))"
    using len d by (intro cell_write) simp_all
  also have "?c3[4 * ?D - 3 := null_of (next_leaf n)] = node_cells n ?D"
    using len d by (simp add: list_update_overwrite node_cells_def)
  finally have w4: "copy_into (node_header n @ enc ?c3) (cell (4 * ?D - 3)) (cell (4 * ?D - 3) + 4)
      (get_i32_be_bytes_from_option (next_leaf n)) = Inr (node_header n @ enc (node_cells n ?D))"
    by (simp add: get_i32_be_bytes_from_option_def null_of_def)
  obtain b1 b2 where hw: "copy_into (replicate 9 0 @ enc ?c0) POS_PAGE_ID (POS_PAGE_ID + 4) (i32_to_be (node_id n)) =
      (Inr b1 :: (byte list, node_pager_error) result)"
    "index_set b1 POS_DELETED (if deleted n then 1 else 0) = (Inr b2 :: (byte list, node_pager_error) result)"
    "copy_into b2 POS_NEXT_DELETED_PAGE (POS_NEXT_DELETED_PAGE + 4)
      (get_i32_be_bytes_from_option (next_deleted_page n)) =
      (Inr (node_header n @ enc ?c0) :: (byte list, node_pager_error) result)"
    using header_write [of "replicate 9 0" "enc ?c0" n, where 'e = node_pager_error]
    by (auto simp: and_then_Inr_iff)
  show ?thesis
    unfolding node_to_bytes_def offsets [OF ok] and_then_simps zero steps
    unfolding start and_then_simps fill hw w1 w2 w3 w4 ..
qed

text \<open>What reading gives back: each list up to its first NULL.\<close>

definition node_stored :: "node_page \<Rightarrow> node_page" where
  "node_stored n = n\<lparr>keys := until_null (keys n), children := until_null (children n),
     node_values := takeWhile (\<lambda>v. fst v \<noteq> i32_min \<and> snd v \<noteq> i32_min) (node_values n), changed := False\<rparr>"

definition node_links_ok :: "u16 \<Rightarrow> node_page \<Rightarrow> bool" where
  "node_links_ok d n \<longleftrightarrow> node_sizes_ok d n \<and> max_degree n = unat d \<and> node_id n \<noteq> i32_min \<and>
     next_deleted_page n \<noteq> Some i32_min \<and> next_leaf n \<noteq> Some i32_min"

definition node_readable :: "u16 \<Rightarrow> node_page \<Rightarrow> bool" where
  "node_readable d n \<longleftrightarrow> node_links_ok d n \<and>
     list_all (\<lambda>v. v \<noteq> i32_min) (keys n) \<and> list_all (\<lambda>v. v \<noteq> i32_min) (children n) \<and>
     list_all (\<lambda>v. fst v \<noteq> i32_min \<and> snd v \<noteq> i32_min) (node_values n)"

lemma node_readable_stored: "node_readable d n \<Longrightarrow> node_stored n = n\<lparr>changed := False\<rparr>"
  by (simp add: node_readable_def node_stored_def null_free)

lemma read_null [simp]: "x \<noteq> Some i32_min \<Longrightarrow> read_i32_with_null (null_of x) = x"
  by (cases x) (simp_all add: read_i32_with_null_def null_of_def)

lemma node_header_read:
  shows "read_node_i32 (node_header n @ E) POS_PAGE_ID = Inr (node_id n)"
    and "index_get (node_header n @ E) POS_DELETED = (Inr (if deleted n then 1 else 0) :: (byte, node_pager_error) result)"
    and "read_node_i32 (node_header n @ E) POS_NEXT_DELETED_PAGE = Inr (null_of (next_deleted_page n))"
  by (simp_all add: node_header_def read_node_i32_def get_range_def node_consts index_get_def
      get_i32_be_bytes_from_option_def null_of_def nth_append)

lemma node_regions:
  assumes "node_sizes_ok d n"
  shows "take (unat d - 1) (drop 0 (node_cells n (unat d))) =
      keys n @ replicate (unat d - 1 - length (keys n)) i32_min"
    and "take (unat d) (drop (unat d - 1) (node_cells n (unat d))) =
      children n @ replicate (unat d - length (children n)) i32_min"
    and "take (2 * (unat d - 1)) (drop (2 * unat d - 1) (node_cells n (unat d))) =
      flat (node_values n) @ replicate (2 * (unat d - 1) - 2 * length (node_values n)) i32_min"
    and "node_cells n (unat d) ! (4 * unat d - 3) = null_of (next_leaf n)"
proof -
  let ?D = "unat d"
  have d: "2 \<le> ?D" "length (keys n) \<le> ?D - 1" "length (children n) \<le> ?D"
    "length (node_values n) \<le> ?D - 1"
    using assms by (simp_all add: node_sizes_ok_def degree_ok_def)
  define c0 where "c0 = replicate (4 * ?D - 2) i32_min"
  define c1 where "c1 = overwrite c0 0 (keys n)"
  define c2 where "c2 = overwrite c1 (?D - 1) (children n)"
  define c3 where "c3 = overwrite c2 (2 * ?D - 1) (flat (node_values n))"
  have cells: "node_cells n ?D = overwrite c3 (4 * ?D - 3) [null_of (next_leaf n)]"
    by (simp add: node_cells_def c0_def c1_def c2_def c3_def)
  have len: "length c0 = 4 * ?D - 2" "length c1 = 4 * ?D - 2" "length c2 = 4 * ?D - 2" "length c3 = 4 * ?D - 2"
    using d by (simp_all add: c0_def c1_def c2_def c3_def)
  have k3: "take m (drop b (node_cells n ?D)) = take m (drop b c3)" if "b + m \<le> 4 * ?D - 3" for b m
    unfolding cells using that d len by (intro overwrite_other) auto
  have k2: "take m (drop b c3) = take m (drop b c2)" if "b + m \<le> 2 * ?D - 1" for b m
    unfolding c3_def using that d len by (intro overwrite_other) auto
  have k1: "take m (drop b c2) = take m (drop b c1)" if "b + m \<le> ?D - 1" for b m
    unfolding c2_def using that d len by (intro overwrite_other) auto
  have rest: "drop b c1 = replicate (4 * ?D - 2 - b) i32_min" if "length (keys n) \<le> b" for b
    using that by (simp add: c1_def c0_def overwrite_def)
  have rest2: "drop b c2 = replicate (4 * ?D - 2 - b) i32_min" if "?D - 1 + length (children n) \<le> b" for b
    using that d by (simp add: c2_def overwrite_def rest len)
  show "take (?D - 1) (drop 0 (node_cells n ?D)) = keys n @ replicate (?D - 1 - length (keys n)) i32_min"
    using d by (simp add: k3 [of 0, simplified] k2 [of 0, simplified] k1 [of 0, simplified])
      (simp add: c1_def c0_def overwrite_def min_def)
  have "take ?D (drop (?D - 1) c2) = children n @ take (?D - length (children n)) (drop (?D - 1 + length (children n)) c1)"
    unfolding c2_def using d len by (intro overwrite_same) auto
  then show "take ?D (drop (?D - 1) (node_cells n ?D)) = children n @ replicate (?D - length (children n)) i32_min"
    using d by (simp add: k3 k2 rest min_def)
  have "take (2 * (?D - 1)) (drop (2 * ?D - 1) c3) = flat (node_values n) @
      take (2 * (?D - 1) - length (flat (node_values n))) (drop (2 * ?D - 1 + length (flat (node_values n))) c2)"
    unfolding c3_def using d len by (intro overwrite_same) auto
  then show "take (2 * (?D - 1)) (drop (2 * ?D - 1) (node_cells n ?D)) =
      flat (node_values n) @ replicate (2 * (?D - 1) - 2 * length (node_values n)) i32_min"
    using d by (simp add: k3 rest2 min_def)
  show "node_cells n ?D ! (4 * ?D - 3) = null_of (next_leaf n)"
    unfolding cells using d len by (simp add: overwrite_def nth_append)
qed

lemma node_bytes_read:
  assumes "node_links_ok d n"
  shows "node_try_from (node_header n @ enc (node_cells n (unat d))) d = Inr (node_stored n)"
proof -
  let ?D = "unat d" and ?C = "node_cells n (unat d)" and ?h = "node_header n"
  have sizes: "node_sizes_ok d n" and ok: "degree_ok d" and d: "2 \<le> ?D"
    using assms by (simp_all add: node_links_ok_def node_sizes_ok_def degree_ok_def)
  note len = node_cells_length [OF sizes] and regions = node_regions [OF sizes]
  have start: "PAGE_DATA_START = cell 0" by (simp add: cell_def node_consts)
  have r1: "read_i32s (?h @ enc ?C) (cell 0) (?D - 1) = Inr (until_null (keys n))"
    using read_i32s_cells [where h = ?h and j = "0" and n = "?D - 1" and cs = ?C, unfolded regions until_null_append] d len
    by simp
  have r2: "read_i32s (?h @ enc ?C) (cell (?D - 1)) ?D = Inr (until_null (children n))"
    using read_i32s_cells [where h = ?h and j = "?D - 1" and n = "?D" and cs = ?C, unfolded regions until_null_append] d len
    by simp
  have r3: "read_values (?h @ enc ?C) (cell (2 * ?D - 1)) (?D - 1) =
      Inr (takeWhile (\<lambda>v. fst v \<noteq> i32_min \<and> snd v \<noteq> i32_min) (node_values n))"
    using read_values_cells [where h = ?h and j = "2 * ?D - 1" and n = "?D - 1" and cs = ?C, unfolded regions pairs_until_null_append] d len
    by simp
  have r4: "read_node_i32 (?h @ enc ?C) (cell (4 * ?D - 3)) = Inr (null_of (next_leaf n))"
    using d len by (subst cell_read) (simp_all add: regions(4))
  have "node_try_from (?h @ enc ?C) d = Inr (new_from_store (node_id n) ((if deleted n then 1 else 0 :: byte) \<noteq> 0)
      (next_deleted_page n) (until_null (keys n)) (until_null (children n))
      (takeWhile (\<lambda>v. fst v \<noteq> i32_min \<and> snd v \<noteq> i32_min) (node_values n)) (next_leaf n) ?D)"
    using assms
    unfolding node_try_from_def node_header_read and_then_simps offsets [OF ok] degree_arith(1,2) [OF ok] start r1 r2 r3 r4
    by (simp add: node_links_ok_def)
  then show ?thesis
    using assms by (simp add: new_from_store_def node_stored_def node_links_ok_def)
qed

section \<open>The pager\<close>

definition pager_degree :: "node_pager \<Rightarrow> u16" where
  "pager_degree p = meta_max_degree (pager_meta p)"

text \<open>Every cached page is what the file holds.\<close>

definition cache_coherent :: "node_pager \<Rightarrow> bool" where
  "cache_coherent p \<longleftrightarrow> (\<forall>pid n. pager_cache p pid = Some n \<longrightarrow> pager_read_file p pid = Inr n)"

definition pager_ok :: "node_pager \<Rightarrow> bool" where
  "pager_ok p \<longleftrightarrow> degree_ok (pager_degree p) \<and> cache_coherent p"

definition node_bytes :: "u16 \<Rightarrow> nat" where
  "node_bytes d = cell (4 * unat d - 2)"

definition node_offset :: "u16 \<Rightarrow> i32 \<Rightarrow> nat" where
  "node_offset d pid = 14 + node_bytes d * nat (i32_val pid)"

lemma node_page_offset_eq:
  assumes "degree_ok (pager_degree p)"
  shows "node_page_offset p pid =
    (if i32_val pid < 0 then Inl (Err InvalidPageId) else Inr (node_offset (pager_degree p) pid))"
  using assms
  by (simp add: node_page_offset_def pager_degree_def node_offset_def node_bytes_def node_consts i32_as_usize_nonneg)

lemma pager_read_file_eq:
  assumes "degree_ok (pager_degree p)"
  shows "pager_read_file p pid =
    (if i32_val pid < 0 then Inl (Err InvalidPageId)
     else and_then (map_err PagerIo (read_exact_at (pager_file p) (node_offset (pager_degree p) pid)
       (node_bytes (pager_degree p)))) (\<lambda>dat. node_try_from dat (pager_degree p)))"
  using assms
  by (simp add: pager_read_file_def node_page_offset_eq node_bytes_def flip: pager_degree_def)

lemma node_offset_disjoint:
  assumes "a \<noteq> b" and "0 \<le> i32_val a" and "0 \<le> i32_val b"
  shows "node_offset d a + node_bytes d \<le> node_offset d b \<or> node_offset d b + node_bytes d \<le> node_offset d a"
proof -
  have step: "node_bytes d * i + node_bytes d \<le> node_bytes d * j" if "i < j" for i j
    using mult_le_mono2 [of "Suc i" j "node_bytes d"] that by simp
  have "nat (i32_val a) \<noteq> nat (i32_val b)"
    using assms by (simp add: i32_eq_iff)
  then show ?thesis
    using step [of "nat (i32_val a)" "nat (i32_val b)"] step [of "nat (i32_val b)" "nat (i32_val a)"]
    by (auto simp: node_offset_def neq_iff)
qed

lemma pager_read_ok:
  assumes "pager_ok p"
  shows "pager_read_page keeps pid p = (pager_read_file p pid, p\<lparr>pager_clock := pager_clock p + 1\<rparr>)"
  using assms
  by (auto simp: pager_read_page_def Let_def pager_ok_def cache_coherent_def split: option.split)

lemma pager_ok_clock [simp]: "pager_ok (p\<lparr>pager_clock := t\<rparr>) = pager_ok p"
  and pager_read_file_clock [simp]: "pager_read_file (p\<lparr>pager_clock := t\<rparr>) pid = pager_read_file p pid"
proof -
  have *: "pager_read_file (p\<lparr>pager_clock := t\<rparr>) pid = pager_read_file p pid" for pid
    by (simp add: pager_read_file_def node_page_offset_def)
  then show "pager_read_file (p\<lparr>pager_clock := t\<rparr>) pid = pager_read_file p pid" .
  show "pager_ok (p\<lparr>pager_clock := t\<rparr>) = pager_ok p"
    by (simp add: pager_ok_def cache_coherent_def pager_degree_def *)
qed

lemma pager_write_ok:
  assumes "pager_ok p" and "node_readable (pager_degree p) n" and "changed n" and "\<not> deleted n"
    and "0 \<le> i32_val (node_id n)"
  shows "\<exists>q. pager_write_page n p = (Inr (n\<lparr>changed := False\<rparr>), q) \<and> pager_ok q \<and>
    pager_meta q = pager_meta p \<and> pager_clock q = pager_clock p \<and>
    pager_read_file q (node_id n) = Inr (n\<lparr>changed := False\<rparr>) \<and>
    (\<forall>pid m. pid \<noteq> node_id n \<longrightarrow> pager_read_file p pid = Inr m \<longrightarrow> pager_read_file q pid = Inr m)"
proof -
  let ?d = "pager_degree p" and ?n' = "n\<lparr>changed := False\<rparr>"
  define dat where "dat = node_header n @ enc (node_cells n (unat ?d))"
  have deg: "degree_ok ?d" and coh: "cache_coherent p"
    using assms(1) by (simp_all add: pager_ok_def)
  have links: "node_links_ok ?d n" and sizes: "node_sizes_ok ?d n" and ne: "node_id n \<noteq> i32_min"
    using assms(2) by (simp_all add: node_readable_def node_links_ok_def)
  have len: "length dat = node_bytes ?d"
    by (simp add: dat_def node_cells_length [OF sizes] node_bytes_def cell_def)
  have bytes: "node_to_bytes n (meta_max_degree (pager_meta p)) = Inr dat"
    using node_to_bytes_eq [OF sizes] by (simp add: dat_def pager_degree_def)
  have read: "node_try_from dat ?d = Inr ?n'"
    using node_bytes_read [OF links] node_readable_stored [OF assms(2)] by (simp add: dat_def)
  define q where "q = p\<lparr>pager_file := write_at (pager_file p) (node_offset ?d (node_id n)) dat,
    pager_cache := (pager_cache p)(node_id n := Some ?n')\<rparr>"
  have q: "pager_write_page n p = (Inr ?n', q)"
    using assms(3-5) ne by (simp add: pager_write_page_def bytes node_page_offset_eq [OF deg] q_def Let_def)
  have degq: "pager_degree q = ?d" by (simp add: q_def pager_degree_def)
  then have deg': "degree_ok (pager_degree q)" using deg by simp
  have same: "pager_read_file q (node_id n) = Inr ?n'"
    using assms(5) by (simp add: pager_read_file_eq [OF deg'] degq read_write_same len read q_def [THEN arg_cong, of pager_file])
  have other: "pager_read_file q pid = Inr m" if "pid \<noteq> node_id n" "pager_read_file p pid = Inr m" for pid m
  proof -
    have pos: "0 \<le> i32_val pid" and m: "\<exists>x. read_exact_at (pager_file p) (node_offset ?d pid) (node_bytes ?d) = Inr x \<and>
        node_try_from x ?d = Inr m"
      using that(2) by (auto simp: pager_read_file_eq [OF deg] and_then_Inr_iff split: if_splits)
    then obtain x where x: "read_exact_at (pager_file p) (node_offset ?d pid) (node_bytes ?d) = Inr x"
      "node_try_from x ?d = Inr m" by blast
    have "read_exact_at (pager_file q) (node_offset ?d pid) (node_bytes ?d) = Inr x"
      using read_write_other [OF x(1), of "node_offset ?d (node_id n)" dat]
        node_offset_disjoint [OF that(1) pos assms(5), of ?d]
      by (simp add: q_def len)
    then show ?thesis
      using pos x(2) by (simp add: pager_read_file_eq [OF deg'] degq)
  qed
  have "cache_coherent q"
    using coh same other by (auto simp: cache_coherent_def q_def [THEN arg_cong, of pager_cache])
  then show ?thesis
    using q same other deg' by (intro exI [of _ q]) (auto simp: pager_ok_def, simp_all add: q_def)
qed

section \<open>Properties\<close>

definition i32_n :: "nat \<Rightarrow> i32" where
  "i32_n k = usize_as_i32 k"

text \<open>A leaf and a pager of degree 4 for the witnesses.\<close>

definition small_leaf :: node_page where
  "small_leaf = \<lparr>node_id = i32_n 1, deleted = False, next_deleted_page = None, keys = [i32_n 3, i32_n 7],
     children = [], node_values = [(i32_n 1, i32_n 0), (i32_n 1, i32_n 4)], next_leaf = Some (i32_n 2),
     max_degree = 4, changed = True\<rparr>"

definition small_pager :: node_pager where
  "small_pager = \<lparr>pager_file = [], pager_cache = (\<lambda>_. None), pager_clock = 0,
     pager_meta = \<lparr>meta_max_degree = 4, meta_number_of_pages = 0, first_deleted_page = None,
       meta_root = None, meta_changed = False, unique_index = True\<rparr>\<rparr>"

lemma small_leaf_readable: "node_readable 4 small_leaf"
  by code_simp

lemma small_pager_ok: "pager_ok small_pager" "pager_degree small_pager = 4"
  by (simp_all add: pager_ok_def cache_coherent_def degree_ok_def pager_degree_def small_pager_def)

text \<open>
  C37. A B+ tree page that has no NULL sentinel among its keys, children and values and fits its
  degree is read back from the bytes that are written for it.
\<close>

theorem node_roundtrip:
  assumes "node_readable d n"
  shows "and_then (node_to_bytes n d) (\<lambda>bs. node_try_from bs d) = Inr (n\<lparr>changed := False\<rparr>)"
proof -
  have links: "node_links_ok d n"
    using assms by (simp add: node_readable_def)
  then have "node_to_bytes n d = Inr (node_header n @ enc (node_cells n (unat d)))"
    by (intro node_to_bytes_eq) (simp add: node_links_ok_def)
  then show ?thesis
    using node_bytes_read [OF links] node_readable_stored [OF assms] by simp
qed

theorem node_roundtrip_witness:
  "and_then (node_to_bytes small_leaf 4) (\<lambda>bs. node_try_from bs 4) = Inr (small_leaf\<lparr>changed := False\<rparr>)"
  by (rule node_roundtrip [OF small_leaf_readable])

text \<open>
  The key \<open>i32::MIN\<close> is the sentinel for an absent key: a page whose smallest key it is
  is written without an error and read back with no key at all.
\<close>

theorem min_key_empties_page:
  assumes "node_links_ok d n" and "keys n = i32_min # ks"
  shows "\<exists>m. and_then (node_to_bytes n d) (\<lambda>bs. node_try_from bs d) = Inr m \<and> node_id m = node_id n \<and> keys m = []"
proof -
  have "node_to_bytes n d = Inr (node_header n @ enc (node_cells n (unat d)))"
    using assms(1) by (intro node_to_bytes_eq) (simp add: node_links_ok_def)
  moreover have "keys (node_stored n) = [] \<and> node_id (node_stored n) = node_id n"
    by (simp add: node_stored_def until_null_def assms(2))
  ultimately show ?thesis
    using node_bytes_read [OF assms(1)] by simp
qed

theorem min_key_empties_page_witness:
  "\<exists>m. and_then (node_to_bytes (small_leaf\<lparr>keys := [i32_min, i32_n 7]\<rparr>) 4) (\<lambda>bs. node_try_from bs 4) = Inr m \<and>
     node_id m = i32_n 1 \<and> keys m = []"
proof -
  have "node_links_ok 4 (small_leaf\<lparr>keys := [i32_min, i32_n 7]\<rparr>)"
    by code_simp
  from min_key_empties_page [OF this, of "[i32_n 7]"] show ?thesis
    by (simp add: small_leaf_def)
qed

text \<open>
  As long as the cache holds what the file holds, a read returns what the file holds and
  leaves the file, the cache and the metadata alone, whatever entries the cache has dropped.
\<close>

theorem pager_read_transparent:
  assumes "pager_ok p"
  shows "pager_read_page keeps pid p = (pager_read_file p pid, p\<lparr>pager_clock := pager_clock p + 1\<rparr>)"
  by (rule pager_read_ok [OF assms])

theorem pager_read_transparent_witness:
  "pager_read_page (\<lambda>_ _. True) (i32_n 1) small_pager =
     (Inl (Err (PagerIo UnexpectedEof)), small_pager\<lparr>pager_clock := 1\<rparr>)"
proof -
  have "pager_read_file small_pager (i32_n 1) = Inl (Err (PagerIo UnexpectedEof))"
    using pager_read_file_eq [of small_pager "i32_n 1"] small_pager_ok(1)
    by (simp add: pager_ok_def i32_n_def small_pager_def read_exact_at_def node_bytes_def cell_def pager_degree_def)
  then show ?thesis
    using pager_read_transparent [OF small_pager_ok(1), of "\<lambda>_ _. True" "i32_n 1"]
    by (simp add: small_pager_def)
qed

text \<open>
  C40. Writing a changed page that is not deleted and whose values survive the byte format
  (\<open>node_readable\<close>) keeps the cache and the file in step: whatever the cache keeps of it, the page is
  read back without its flag, every other page that could be read is read as before, and the metadata
  is untouched.
\<close>

theorem pager_write_read:
  assumes "pager_ok p" and "node_readable (pager_degree p) n" and "changed n" and "\<not> deleted n"
    and "0 \<le> i32_val (node_id n)"
  shows "\<exists>q. pager_write_page n p = (Inr (n\<lparr>changed := False\<rparr>), q) \<and> pager_ok q \<and>
    pager_meta q = pager_meta p \<and> fst (pager_read_page keeps (node_id n) q) = Inr (n\<lparr>changed := False\<rparr>) \<and>
    (\<forall>pid m. pid \<noteq> node_id n \<longrightarrow> fst (pager_read_page keeps pid p) = Inr m \<longrightarrow>
       fst (pager_read_page keeps pid q) = Inr m)"
  using pager_write_ok [OF assms] by (auto simp: pager_read_ok assms(1))

theorem pager_write_read_witness:
  "\<exists>q. pager_write_page small_leaf small_pager = (Inr (small_leaf\<lparr>changed := False\<rparr>), q) \<and>
     fst (pager_read_page (\<lambda>_ _. False) (i32_n 1) q) = Inr (small_leaf\<lparr>changed := False\<rparr>)"
proof -
  have "node_id small_leaf = i32_n 1" "changed small_leaf" "\<not> deleted small_leaf" "0 \<le> i32_val (i32_n 1)"
    by (simp_all add: small_leaf_def i32_n_def)
  then show ?thesis
    using pager_write_read [of small_pager small_leaf "\<lambda>_ _. False"] small_pager_ok small_leaf_readable
    by auto
qed

end
