(* ===== verification/BTree_Stored.thy ===== *)
theory BTree_Stored
  imports BTree_Insertion BTree_Codec BTree_Store
begin

text \<open>
  How a tree lies in an index file: each of its pages is what a read of its id returns. An
  operation works on a page in memory (\<open>self\<close>), which it may have changed and not written yet;
  \<open>holds\<close> relates that page to the root of a tree. What an operation writes is described by the
  set of pages outside which the pager reads as before (\<open>updates\<close>).
\<close>

section \<open>Trees in the file\<close>

definition degree_of :: "node_pager \<Rightarrow> nat" where
  "degree_of p = unat (pager_degree p)"

definition page_in :: "node_pager \<Rightarrow> btree \<Rightarrow> bool" where
  "page_in p t \<longleftrightarrow> pager_read_file p (bt_id t) = Inr (page_of (degree_of p) t)"

definition stored :: "node_pager \<Rightarrow> btree list \<Rightarrow> bool" where
  "stored p ts \<longleftrightarrow> (\<forall>t \<in> set ts. page_in p t)"

definition kid_nodes :: "btree \<Rightarrow> btree list" where
  "kid_nodes t = concat (map bt_nodes (bt_kids t))"

lemma nodes_kids: "bt_nodes t = t # kid_nodes t"
  by (cases t) (simp_all add: kid_nodes_def)

lemma kid_nodes_simps [simp]:
  "kid_nodes (BLeaf i es nl) = []" "kid_nodes (BNode i ks cs) = concat (map bt_nodes cs)"
  by (simp_all add: kid_nodes_def)

lemma stored_simps [simp]:
  "stored p []" "stored p (t # ts) \<longleftrightarrow> page_in p t \<and> stored p ts" "stored p (ts @ us) \<longleftrightarrow> stored p ts \<and> stored p us"
  by (auto simp: stored_def)

lemma stored_nodes: "stored p (bt_nodes t) \<longleftrightarrow> page_in p t \<and> stored p (kid_nodes t)"
  by (simp add: nodes_kids)

lemma stored_child: "stored p (concat (map bt_nodes cs)) \<Longrightarrow> c \<in> set cs \<Longrightarrow> stored p (bt_nodes c)"
  by (auto simp: stored_def)

lemma stored_concat: "stored p (concat (map bt_nodes cs)) \<longleftrightarrow> (\<forall>c \<in> set cs. stored p (bt_nodes c))"
  by (auto simp: stored_def)

lemma ids_kids: "bt_ids t = bt_id t # map bt_id (kid_nodes t)"
  by (simp add: bt_ids_def nodes_kids)

definition holds :: "node_pager \<Rightarrow> node_page \<Rightarrow> btree \<Rightarrow> bool" where
  "holds p self t \<longleftrightarrow> self\<lparr>changed := False\<rparr> = page_of (degree_of p) t \<and> (changed self \<or> page_in p t)"

lemma node_page_changed_cases:
  "self\<lparr>changed := False\<rparr> = n \<longleftrightarrow> \<not> changed n \<and> (self = n \<or> self = n\<lparr>changed := True\<rparr>)"
  by (cases self; cases n) auto

lemma page_of_changed [simp]: "\<not> changed (page_of d t)"
  by (cases t) simp_all

lemma page_of_id [simp]: "node_id (page_of d t) = bt_id t"
  by (cases t) simp_all

lemma page_of_degree [simp]: "max_degree (page_of d t) = d" "\<not> deleted (page_of d t)"
  by (cases t; simp)+

lemma page_of_keys [simp]: "length (keys (page_of d t)) = bt_width t"
  by (cases t) simp_all

lemma holds_cases: "holds p self t \<Longrightarrow>
    self = (page_of (degree_of p) t)\<lparr>changed := changed self\<rparr>"
  unfolding holds_def by (cases self; cases "page_of (degree_of p) t") auto

lemma holds_page: "page_in p t \<Longrightarrow> holds p (page_of (degree_of p) t) t"
  by (cases t) (simp_all add: holds_def)

lemma holds_changed: "holds p ((page_of (degree_of p) t)\<lparr>changed := True\<rparr>) t"
  by (cases t) (simp_all add: holds_def)

section \<open>What a pager operation changes\<close>

text \<open>
  The metadata in memory is that of the file, or marked as changed: \<open>save_metadata\<close> writes it
  when it is marked, so afterwards the file can be opened again.
\<close>

definition saved :: "node_pager \<Rightarrow> bool" where
  "saved p \<longleftrightarrow> first_deleted_page (pager_meta p) \<noteq> Some i32_min \<and> (\<exists>bs. meta_data_to_bytes (pager_meta p) = Inr bs \<and>
     read_exact_at (pager_file p) 0 META_DATA_HEADER_SIZE = Inr bs)"

definition synced :: "node_pager \<Rightarrow> bool" where
  "synced p \<longleftrightarrow> (meta_changed (pager_meta p) \<and> first_deleted_page (pager_meta p) \<noteq> Some i32_min) \<or> saved p"

lemma changed_synced: "meta_changed (pager_meta p) \<Longrightarrow> first_deleted_page (pager_meta p) \<noteq> Some i32_min \<Longrightarrow> synced p"
  by (simp add: synced_def)

lemma synced_clock [simp]: "synced (p\<lparr>pager_clock := t\<rparr>) = synced p"
  by (simp add: synced_def saved_def)

lemma write_synced:
  assumes "pager_write_page n p = (Inr x, q)" and "synced p"
  shows "synced q"
proof (cases "changed n")
  case False
  then show ?thesis using assms by (simp add: pager_write_page_def)
next
  case True
  then obtain dat k where q: "node_page_offset p (node_id n) = Inr k" "pager_meta q = pager_meta p"
    "pager_file q = write_at (pager_file p) k dat"
    using assms(1) by (auto simp: pager_write_page_def Let_def and_then_Inr_iff split: if_splits sum.splits)
  have "META_DATA_HEADER_SIZE \<le> k"
    using q(1) by (auto simp: node_page_offset_def and_then_Inr_iff split: if_splits)
  then show ?thesis
    using assms(2) q(2,3) read_write_other [of "pager_file p" 0 META_DATA_HEADER_SIZE]
    by (auto simp: synced_def saved_def)
qed

definition updates :: "i32 set \<Rightarrow> node_pager \<Rightarrow> node_pager \<Rightarrow> bool" where
  "updates I p q \<longleftrightarrow> pager_ok q \<and> pager_degree q = pager_degree p \<and>
     meta_root (pager_meta q) = meta_root (pager_meta p) \<and>
     unique_index (pager_meta q) = unique_index (pager_meta p) \<and> (synced p \<longrightarrow> synced q) \<and>
     (\<forall>pid m. pid \<notin> I \<longrightarrow> pager_read_file p pid = Inr m \<longrightarrow> pager_read_file q pid = Inr m)"

lemma updates_trans: "updates I p q \<Longrightarrow> updates J q r \<Longrightarrow> updates (I \<union> J) p r"
  by (auto simp: updates_def)

lemma updates_mono: "updates I p q \<Longrightarrow> I \<subseteq> J \<Longrightarrow> updates J p q"
  by (auto simp: updates_def)

lemma updates_degree: "updates I p q \<Longrightarrow> degree_of q = degree_of p"
  by (simp add: updates_def degree_of_def)

lemma updates_page_in: "updates I p q \<Longrightarrow> bt_id t \<notin> I \<Longrightarrow> page_in p t \<Longrightarrow> page_in q t"
  by (simp add: page_in_def updates_degree) (simp add: updates_def)

lemma updates_stored: "updates I p q \<Longrightarrow> stored p ts \<Longrightarrow> (\<And>t. t \<in> set ts \<Longrightarrow> bt_id t \<notin> I) \<Longrightarrow> stored q ts"
  unfolding stored_def by (blast intro: updates_page_in)

lemma updates_nodes: "updates I p q \<Longrightarrow> stored p (bt_nodes t) \<Longrightarrow> set (bt_ids t) \<inter> I = {} \<Longrightarrow> stored q (bt_nodes t)"
  by (erule updates_stored) (auto simp: bt_ids_def)

lemma updates_holds: "updates I p q \<Longrightarrow> bt_id t \<notin> I \<Longrightarrow> holds p self t \<Longrightarrow> holds q self t"
  unfolding holds_def by (auto simp: updates_degree intro: updates_page_in)

text \<open>The pages the pager has given out, and its list of deleted pages.\<close>

definition pages :: "node_pager \<Rightarrow> nat" where
  "pages p = unat (meta_number_of_pages (pager_meta p))"

definition free_page :: "node_pager \<Rightarrow> i32 option" where
  "free_page p = first_deleted_page (pager_meta p)"

section \<open>Readable pages\<close>

definition ids_ok :: "btree \<Rightarrow> bool" where
  "ids_ok t \<longleftrightarrow> (\<forall>i \<in> set (bt_ids t). 0 \<le> i32_val i)"

lemma nonneg_not_min: "0 \<le> i32_val i \<Longrightarrow> i \<noteq> i32_min"
  by (auto simp: i32_min_def)

lemma wf_readable:
  assumes "bt_wf (unat d) h lo hi t" and "ids_ok t" and "degree_ok d"
  shows "node_readable d (page_of (unat d) t)"
proof -
  have ids: "i \<in> set (bt_ids t) \<Longrightarrow> i \<noteq> i32_min" for i
    using assms(2) nonneg_not_min by (auto simp: ids_ok_def)
  show ?thesis
  proof (cases t)
    case (BLeaf i es nl)
    then show ?thesis
      using assms(1,3) ids [of i]
      by (cases h) (auto simp: node_readable_def node_links_ok_def node_sizes_ok_def list_all_iff entries_ok_def)
  next
    case t: (BNode i ks cs)
    then obtain g where g: "h = Suc g" using assms(1) by (cases h) simp_all
    have "c \<in> set cs \<Longrightarrow> bt_id c \<noteq> i32_min" for c
      using ids [of "bt_id c"] id_in_ids [of c] by (auto simp: t ids_node)
    then show ?thesis
      using assms(1,3) ids [of i] wf_kids_length [of "unat d" g lo hi i ks cs]
      by (auto simp: t g node_readable_def node_links_ok_def node_sizes_ok_def list_all_iff separators_ok_def ids_node)
  qed
qed

section \<open>Reading, writing and allocating\<close>

lemma read_tree:
  assumes "pager_ok p" and "page_in p t"
  shows "\<exists>q. pager_read_page keeps (bt_id t) p = (Inr (page_of (degree_of p) t), q) \<and> updates {} p q \<and>
    pager_meta q = pager_meta p"
  using assms by (simp add: pager_read_ok page_in_def updates_def pager_degree_def)

lemma write_tree:
  assumes "pager_ok p" and "holds p self t" and "bt_wf (degree_of p) h lo hi t" and "ids_ok t"
  shows "\<exists>q. pager_write_page self p = (Inr (page_of (degree_of p) t), q) \<and> updates {bt_id t} p q \<and>
    page_in q t \<and> pager_meta q = pager_meta p"
proof (cases "changed self")
  case False
  then have "self = page_of (degree_of p) t" "page_in p t"
    using assms(2) by (auto simp: holds_def node_page_changed_cases)
  then show ?thesis
    using False assms(1) by (simp add: pager_write_page_def updates_def)
next
  case True
  have self: "self\<lparr>changed := False\<rparr> = page_of (degree_of p) t"
    using assms(2) by (simp add: holds_def)
  have "node_readable (pager_degree p) (page_of (degree_of p) t)"
    using wf_readable [of "pager_degree p"] assms(1,3,4) by (simp add: degree_of_def pager_ok_def)
  then have "node_readable (pager_degree p) self"
    unfolding self [symmetric] by (simp add: node_readable_def node_links_ok_def node_sizes_ok_def)
  moreover have fields: "node_id self = bt_id t" "\<not> deleted self"
    using arg_cong [OF self, of node_id] arg_cong [OF self, of deleted] by simp_all
  moreover have "0 \<le> i32_val (bt_id t)"
    using assms(4) id_in_ids by (auto simp: ids_ok_def)
  ultimately obtain q where q: "pager_write_page self p = (Inr (self\<lparr>changed := False\<rparr>), q)" "pager_ok q"
    "pager_meta q = pager_meta p" "pager_read_file q (bt_id t) = Inr (self\<lparr>changed := False\<rparr>)"
    "\<forall>pid m. pid \<noteq> bt_id t \<longrightarrow> pager_read_file p pid = Inr m \<longrightarrow> pager_read_file q pid = Inr m"
    using pager_write_ok [of p self] assms(1) True by auto
  then show ?thesis
    using write_synced [OF q(1)] by (auto simp: updates_def page_in_def self degree_of_def pager_degree_def)
qed

lemma meta_update_read [simp]:
  assumes "meta_max_degree m = meta_max_degree (pager_meta p)"
  shows "pager_read_file (p\<lparr>pager_meta := m\<rparr>) pid = pager_read_file p pid"
  using assms by (simp add: pager_read_file_def node_page_offset_def)

lemma meta_update:
  assumes "pager_ok p" and "meta_max_degree m = meta_max_degree (pager_meta p)"
  shows "pager_ok (p\<lparr>pager_meta := m\<rparr>)" and "pager_degree (p\<lparr>pager_meta := m\<rparr>) = pager_degree p"
  using assms by (simp_all add: pager_ok_def cache_coherent_def pager_degree_def)

lemma allocate_tree:
  assumes "pager_ok p" and "free_page p = None" and "pages p < 2 ^ 31"
  defines "t \<equiv> BLeaf (usize_as_i32 (pages p)) [] None"
  shows "\<exists>q. pager_allocate_new_page keeps p = (Inr ((page_of (degree_of p) t)\<lparr>changed := True\<rparr>), q) \<and>
    updates {bt_id t} p q \<and> page_in q t \<and> pages q = Suc (pages p) \<and> free_page q = None \<and>
    meta_changed (pager_meta q)"
proof -
  let ?n = "pages p" and ?m0 = "pager_meta p"
  define m where "m = ?m0\<lparr>meta_number_of_pages := meta_number_of_pages ?m0 + 1, meta_changed := True\<rparr>"
  let ?p1 = "p\<lparr>pager_meta := m\<rparr>"
  have n: "unat (meta_number_of_pages ?m0) = ?n" by (simp add: pages_def)
  have "unat (meta_number_of_pages ?m0) + unat (1 :: u32) < 2 ^ 32"
    using assms(3) n by simp
  then have add: "u32_checked_add (meta_number_of_pages ?m0) 1 = (Inr (meta_number_of_pages ?m0 + 1) :: (u32, node_pager_error) result)"
    "unat (meta_number_of_pages ?m0 + 1) = Suc ?n"
    using n by (simp_all add: u32_checked_add_def unat_add_lem [THEN iffD1])
  have inc: "inc_number_of_pages ?m0 = Inr m"
    by (simp add: inc_number_of_pages_def add m_def)
  have id: "0 \<le> i32_val (usize_as_i32 ?n)" "usize_as_i32 ?n \<noteq> i32_min"
    using assms(3) new_page_id by simp_all
  have deg: "degree_of ?p1 = degree_of p" "meta_max_degree m = meta_max_degree ?m0"
    by (simp_all add: degree_of_def pager_degree_def m_def)
  have new: "node_new (unat (meta_max_degree ?m0)) (usize_as_i32 ?n) = Inr ((page_of (degree_of p) t)\<lparr>changed := True\<rparr>)"
    using id(2) by (simp add: node_new_def t_def degree_of_def pager_degree_def deg)
  have ok1: "pager_ok ?p1" using assms(1) deg(2) by (rule meta_update)
  have wf: "bt_wf (degree_of ?p1) 0 None None t" "ids_ok t"
    using ok1 id(1) by (simp_all add: t_def entries_ok_def ids_ok_def pager_ok_def degree_ok_def degree_of_def)
  obtain q where q: "pager_write_page ((page_of (degree_of ?p1) t)\<lparr>changed := True\<rparr>) ?p1 = (Inr (page_of (degree_of ?p1) t), q)"
    "updates {bt_id t} ?p1 q" "pager_meta q = m" "page_in q t"
    using write_tree [OF ok1 holds_changed wf] by auto
  have "synced ?p1" using assms(2) by (intro changed_synced) (simp_all add: m_def free_page_def)
  then have "updates {bt_id t} p q"
    using q(2,3) deg(2) by (simp add: updates_def pager_degree_def) (simp add: m_def)
  moreover have "pager_allocate_new_page keeps p = (Inr ((page_of (degree_of p) t)\<lparr>changed := True\<rparr>), q)"
    using assms(2,3) q(1) by (simp add: pager_allocate_new_page_def free_page_def inc Let_def m_def [THEN arg_cong, of meta_number_of_pages] add(2) new deg io_bind_def)
  ultimately show ?thesis
    using assms(2) q(4) by (intro exI [of _ q]) (simp add: free_page_def pages_def [of q] q(3), simp add: m_def add(2))
qed

section \<open>Splitting a page\<close>

lemma on_pager_ok: "m p = (Inr x, q) \<Longrightarrow> on_pager m (self, p) = (Inr x, (self, q))"
  by (simp add: on_pager_def)

lemma self_simps [simp]:
  "get_self (self, p) = (Inr self, (self, p))" "set_self n (self, p) = (Inr (), (n, p))"
  by (simp_all add: get_self_def set_self_def)

lemma ids_ok_mset:
  assumes "mset (bt_ids l) + mset (bt_ids r) = add_mset j (mset (bt_ids t))" and "ids_ok t" and "0 \<le> i32_val j"
  shows "ids_ok l" and "ids_ok r"
proof -
  have "set (bt_ids l) \<union> set (bt_ids r) = insert j (set (bt_ids t))"
    using arg_cong [OF assms(1), of set_mset] by simp
  then show "ids_ok l" and "ids_ok r"
    using assms(2,3) by (auto simp: ids_ok_def)
qed

lemma split_refines:
  assumes "pager_ok p" and "holds p self t" and "bt_wf (degree_of p) h lo hi t" and "bt_full (degree_of p) t"
    and "4 \<le> degree_of p" and "ids_ok t" and "free_page p = None" and "pages p < 2 ^ 31"
    and "usize_as_i32 (pages p) \<notin> set (bt_ids t)"
    and "bt_split (usize_as_i32 (pages p)) t = (l, r, k)"
  shows "\<exists>q. node_split keeps (self, p) =
      (Inr (page_of (degree_of p) r, k), (page_of (degree_of p) l, q)) \<and>
    updates {bt_id l, bt_id r} p q \<and> page_in q l \<and> page_in q r \<and>
    pages q = Suc (pages p) \<and> free_page q = None \<and> meta_changed (pager_meta q)"
proof -
  let ?D = "degree_of p" and ?j = "usize_as_i32 (pages p)"
  have j: "0 \<le> i32_val ?j" "?j \<noteq> i32_min" using assms(8) new_page_id by simp_all
  note wf = split_wf [OF assms(3-5) j(2) assms(10)] and same = split_contents [OF assms(10,3,4,5)]
  note ids = ids_ok_mset [OF same(5) assms(6) j(1)]
  have ne: "bt_id l \<noteq> bt_id r"
    using assms(9) same(1,2) id_in_ids [of t] by auto
  obtain p1 where p1: "pager_allocate_new_page keeps p = (Inr ((page_of ?D (BLeaf ?j [] None))\<lparr>changed := True\<rparr>), p1)"
    "updates {?j} p p1" "pages p1 = Suc (pages p)" "free_page p1 = None" "meta_changed (pager_meta p1)"
    using allocate_tree [OF assms(1,7,8), of keeps] by auto
  have D1: "degree_of p1 = ?D" by (rule updates_degree [OF p1(2)])
  obtain p2 where p2: "pager_write_page ((page_of ?D r)\<lparr>changed := True\<rparr>) p1 = (Inr (page_of ?D r), p2)"
    "updates {bt_id r} p1 p2" "page_in p2 r" "pager_meta p2 = pager_meta p1"
    using write_tree [OF _ holds_changed [of p1 r] _ ids(2), of h "Some k" hi] wf(2) p1(2) D1 by (auto simp: updates_def)
  have D2: "degree_of p2 = ?D" using updates_degree [OF p2(2)] D1 by simp
  obtain q where q: "pager_write_page ((page_of ?D l)\<lparr>changed := True\<rparr>) p2 = (Inr (page_of ?D l), q)"
    "updates {bt_id l} p2 q" "page_in q l" "pager_meta q = pager_meta p2"
    using write_tree [OF _ holds_changed [of p2 l] _ ids(1), of h lo "Some k"] wf(1) p2(2) D2 by (auto simp: updates_def)
  have up: "updates {bt_id l, bt_id r} p q"
    using updates_trans [OF updates_trans [OF p1(2) p2(2)] q(2)] same(2) by (simp add: insert_commute)
  have right: "page_in q r" using updates_page_in [OF q(2) _ p2(3)] ne by auto
  have "node_split keeps (self, p) = (Inr (page_of ?D r, k), (page_of ?D l, q))"
  proof (cases t)
    case t: (BLeaf i es nl)
    define m where "m = length es div 2"
    have m: "m < length es" using assms(4,5) by (auto simp: t m_def bt_full_def)
    have lr: "l = BLeaf i (take m es) (Some ?j)" "r = BLeaf ?j (drop m es) nl" "k = fst (es ! m)"
      using assms(10) by (simp_all add: t m_def Let_def)
    have self: "self = (page_of ?D t)\<lparr>changed := changed self\<rparr>" by (rule holds_cases [OF assms(2)])
    show ?thesis
      using m q(1) p2(1)
      by (subst self) (simp add: node_split_def t lr io_bind_def vec_split_off_def is_leaf_def index_get_def
          on_pager_ok [of _ _ _ p1] on_pager_ok [of _ _ _ p2] on_pager_ok [of _ _ _ q] p1(1) m_def [symmetric] take_map drop_map Let_def)
  next
    case t: (BNode i ks cs)
    define m where "m = length ks div 2"
    have m: "m < length ks" using assms(4,5) by (auto simp: t m_def bt_full_def)
    have lr: "l = BNode i (take m ks) (take (m + 1) cs)" "r = BNode ?j (drop (m + 1) ks) (drop (m + 1) cs)" "k = ks ! m"
      using assms(10) by (simp_all add: t m_def Let_def)
    have len: "length cs = Suc (length ks)" using assms(3) wf_kids_length by (cases h) (simp_all add: t)
    then have ne: "cs \<noteq> []" by auto
    have self: "self = (page_of ?D t)\<lparr>changed := changed self\<rparr>" by (rule holds_cases [OF assms(2)])
    show ?thesis
      using m len ne q(1) p2(1)
      by (subst self) (simp add: node_split_def t lr io_bind_def vec_split_off_def vec_remove_def is_leaf_def index_get_def
          on_pager_ok [of _ _ _ p1] on_pager_ok [of _ _ _ p2] on_pager_ok [of _ _ _ q] p1(1) m_def [symmetric] take_map drop_map Let_def)
  qed
  then show ?thesis
    using up right q(3,4) p1(3-5) p2(4) by (auto simp: pages_def free_page_def)
qed

end
