(* ===== verification/BTree_Search.thy ===== *)
theory BTree_Search
  imports BTree_Node
begin

text \<open>
  The search inside one page: the windowed binary search agrees with the position of the first
  key that is not smaller, on every strictly sorted list of keys.
\<close>

definition classify :: "i32 \<Rightarrow> i32 list \<Rightarrow> nat \<Rightarrow> find_key_response" where
  "classify key ks i = (if ks ! i = key then EqualAt i else LessThan i)"

lemma scan_keys_upt:
  assumes "low \<le> i" and "i < m" and "key \<le> ks ! i" and "\<And>j. low \<le> j \<Longrightarrow> j < i \<Longrightarrow> ks ! j < key"
  shows "scan_keys key (map (\<lambda>i. (i, ks ! i)) [low..<m]) n = classify key ks i"
  using assms
proof (induction "i - low" arbitrary: low)
  case 0
  then have "[low..<m] = i # [Suc i..<m]"
    by (simp add: upt_conv_Cons)
  with 0 show ?case by (auto simp: classify_def)
next
  case (Suc k)
  then have "[low..<m] = low # [Suc low..<m]" and "ks ! low < key"
    by (simp_all add: upt_conv_Cons)
  moreover have "scan_keys key (map (\<lambda>i. (i, ks ! i)) [Suc low..<m]) n = classify key ks i"
    using Suc by (intro Suc.hyps(1)) simp_all
  ultimately show ?case by auto
qed

lemma window_enumerate:
  assumes "high < length ks"
  shows "drop low (take (high + 1) (enumerate 0 ks)) = map (\<lambda>i. (i, ks ! i)) [low..<high + 1]"
proof (rule nth_equalityI)
  have len: "length (take (high + 1) (enumerate 0 ks)) = high + 1"
    using assms by simp
  then show "length (drop low (take (high + 1) (enumerate 0 ks))) =
      length (map (\<lambda>i. (i, ks ! i)) [low..<high + 1])"
    by (simp del: upt_Suc)
  fix i
  assume "i < length (drop low (take (high + 1) (enumerate 0 ks)))"
  then have "low + i < high + 1"
    using len by simp
  moreover from this have "[low..<high + 1] ! i = low + i"
    by (rule nth_upt)
  ultimately show "drop low (take (high + 1) (enumerate 0 ks)) ! i = map (\<lambda>i. (i, ks ! i)) [low..<high + 1] ! i"
    using assms by (simp add: nth_enumerate_eq del: upt_Suc)
qed

lemma search_window_correct:
  assumes "sorted_wrt (<) ks" and "i < length ks" and "key \<le> ks ! i" and "\<And>j. j < i \<Longrightarrow> ks ! j < key"
    and "low \<le> i" and "i \<le> high" and "high < length ks"
  shows "search_window key ks low high = classify key ks i"
  using assms(5-)
proof (induction "high - low" arbitrary: low high rule: less_induct)
  case (less low high)
  note 1 = less.prems
  have order: "j < k \<Longrightarrow> k < length ks \<Longrightarrow> ks ! j < ks ! k" for j k
    using assms(1) by (simp add: sorted_wrt_iff_nth_less)
  show ?case
  proof (cases "8 < high - low")
    case False
    then show ?thesis
      using 1 assms(3,4) window_enumerate [OF 1(3), where low = low] scan_keys_upt [where low = low and i = i and m = "high + 1" and key = key and ks = ks]
      by (subst search_window.simps) simp
  next
    case True
    define mid where "mid = (low + high) div 2"
    have mid: "mid < length ks" "low \<le> mid" "mid < high"
      using True 1(3) by (simp_all add: mid_def)
    consider "key = ks ! mid" | "key < ks ! mid" | "ks ! mid < key"
      by (rule linorder_cases)
    then show ?thesis
    proof cases
      case 1
      then have "mid = i"
        using assms(3) assms(4) [of mid] order [of i mid] mid(1) by (cases mid i rule: linorder_cases) auto
      then show ?thesis
        using True 1 by (subst search_window.simps) (simp add: classify_def mid_def Let_def)
    next
      case 2
      then have "i \<le> mid"
        using assms(4) [of mid] by (auto simp: not_less [symmetric])
      then have "search_window key ks low mid = classify key ks i"
        using less.prems mid True by (intro less.hyps) simp_all
      then show ?thesis
        using True 2 by (subst search_window.simps) (auto simp: mid_def Let_def)
    next
      case 3
      then have "mid < i"
        using assms(3) order [of i mid] mid(1) by (cases mid i rule: linorder_cases) auto
      then have "search_window key ks (mid + 1) high = classify key ks i"
        using less.prems mid True by (intro less.hyps) simp_all
      then show ?thesis
        using True 3 by (subst search_window.simps) (auto simp: mid_def Let_def)
    qed
  qed
qed

text \<open>What the search returns on sorted keys.\<close>

definition search_spec :: "i32 \<Rightarrow> i32 list \<Rightarrow> find_key_response" where
  "search_spec key ks =
     (case position (\<lambda>k. key \<le> k) ks of
        None \<Rightarrow> GreaterThanTheLast (length ks - 1)
      | Some i \<Rightarrow> classify key ks i)"

lemma binary_search_eq:
  assumes "sorted_wrt (<) ks"
  shows "binary_search key ks = search_spec key ks"
proof (cases "ks = [] \<or> ks ! (length ks - 1) < key")
  case True
  have "k < key" if "k \<in> set ks" for k
  proof -
    from that obtain j where j: "j < length ks" "k = ks ! j"
      by (auto simp: in_set_conv_nth)
    show ?thesis
    proof (cases "j = length ks - 1")
      case False
      then have "ks ! j < ks ! (length ks - 1)"
        using assms j(1) by (simp add: sorted_wrt_iff_nth_less)
      then show ?thesis using True j by auto
    qed (use True j in auto)
  qed
  then have "position (\<lambda>k. key \<le> k) ks = None"
    by (auto simp: position_None not_le)
  then show ?thesis
    using True by (auto simp: binary_search_def search_spec_def)
next
  case False
  then obtain i where i: "position (\<lambda>k. key \<le> k) ks = Some i"
    by (metis length_pos_if_in_set not_less position_None option.exhaust nth_mem diff_less
        length_greater_0_conv zero_less_one)
  have "search_window key ks 0 (length ks - 1) = classify key ks i"
    using assms i False by (intro search_window_correct) (auto simp: position_Some not_le)
  then show ?thesis
    using False i by (simp add: binary_search_def search_spec_def)
qed

text \<open>
  On strictly sorted keys the search returns the index of the key when it is there, the
  index of the first greater key when there is one, and the last index otherwise.
\<close>

theorem binary_search_spec:
  assumes "sorted_wrt (<) ks"
  shows "binary_search key ks =
    (case position (\<lambda>k. key \<le> k) ks of
       None \<Rightarrow> GreaterThanTheLast (length ks - 1)
     | Some i \<Rightarrow> if ks ! i = key then EqualAt i else LessThan i)"
  using binary_search_eq [OF assms] by (simp add: search_spec_def classify_def split: option.split)

theorem binary_search_spec_witness:
  "binary_search (i32_of_int 21) (map (\<lambda>k. i32_of_int (2 * int k)) [0..<20]) = LessThan 11"
proof -
  let ?ks = "map (\<lambda>k. i32_of_int (2 * int k)) [0..<20]"
  have "sorted_wrt (<) ?ks" by code_simp
  moreover have "position (\<lambda>k. i32_of_int 21 \<le> k) ?ks = Some 11" "?ks ! 11 \<noteq> i32_of_int 21"
    by code_simp+
  ultimately show ?thesis
    using binary_search_spec [of ?ks "i32_of_int 21"] by simp
qed

end
