(* ===== verification/BTree_Insert_Refine.thy ===== *)
theory BTree_Insert_Refine
  imports BTree_Stored BTree_Search
begin

text \<open>
  \<open>insert\<close> of \<open>src/src/tree/node.rs\<close> refines the insertion into the tree value: run on a
  page that holds a tree, it leaves a page that holds the changed tree, with the pages below it
  written and every other page of the file as it was.
\<close>

section \<open>Page ids\<close>

definition ids_below :: "btree \<Rightarrow> nat \<Rightarrow> bool" where
  "ids_below t n \<longleftrightarrow> (\<forall>i \<in> set (bt_ids t). 0 \<le> i32_val i \<and> i32_val i < int n)"

lemma ids_below_ok: "ids_below t n \<Longrightarrow> ids_ok t"
  by (simp add: ids_below_def ids_ok_def)

lemma ids_below_new: "ids_below t n \<Longrightarrow> n \<le> m \<Longrightarrow> m < 2 ^ 31 \<Longrightarrow> usize_as_i32 m \<notin> set (bt_ids t)"
  by (auto simp: ids_below_def)

lemma new_ids_inj: "n' \<le> 2 ^ 31 \<Longrightarrow> distinct (map usize_as_i32 [n..<n'])"
proof -
  assume "n' \<le> 2 ^ 31"
  then have "inj_on usize_as_i32 (set [n..<n'])"
    by (intro inj_onI) (auto simp: i32_eq_iff)
  then show ?thesis by (simp add: distinct_map)
qed

lemma ids_extend:
  assumes "mset (bt_ids t') = mset (bt_ids t) + mset (map usize_as_i32 [n..<n'])" and "distinct (bt_ids t)"
    and "ids_below t n" and "n \<le> n'" and "n' \<le> 2 ^ 31"
  shows "distinct (bt_ids t')" and "ids_below t' n'"
proof -
  have val: "i32_val (usize_as_i32 m) = int m" if "m < n'" for m
    using that assms(5) by simp
  have new: "\<forall>i \<in> set (map usize_as_i32 [n..<n']). int n \<le> i32_val i \<and> i32_val i < int n'"
    using val by auto
  then have "set (bt_ids t) \<inter> set (map usize_as_i32 [n..<n']) = {}"
    using assms(3) by (fastforce simp: ids_below_def)
  then have "distinct (bt_ids t @ map usize_as_i32 [n..<n'])"
    using assms(2) new_ids_inj [OF assms(5)] by simp
  moreover have mset: "mset (bt_ids t') = mset (bt_ids t @ map usize_as_i32 [n..<n'])"
    using assms(1) by simp
  ultimately show "distinct (bt_ids t')"
    using mset_eq_imp_distinct_iff by blast
  have "set (bt_ids t') = set (bt_ids t) \<union> set (map usize_as_i32 [n..<n'])"
    using mset_eq_setD [OF mset] by simp
  then show "ids_below t' n'"
    using assms(3,4) new unfolding ids_below_def by fastforce
qed

lemma ids_node_list: "bt_ids (BNode i ks cs) = i # concat (map bt_ids cs)"
  by (induction cs) (simp_all add: bt_ids_def)

lemma distinct_child:
  assumes "distinct (bt_ids (BNode i ks cs))" and "j < length cs"
  shows "i \<notin> set (bt_ids (cs ! j))" and "distinct (bt_ids (cs ! j))"
    and "\<And>c. c \<in> set (take j cs) \<union> set (drop (Suc j) cs) \<Longrightarrow> set (bt_ids c) \<inter> set (bt_ids (cs ! j)) = {}"
proof -
  have "distinct (i # concat (map bt_ids (take j cs @ cs ! j # drop (Suc j) cs)))"
    using assms by (simp add: ids_node_list id_take_nth_drop [symmetric])
  then show "i \<notin> set (bt_ids (cs ! j))" "distinct (bt_ids (cs ! j))"
    "\<And>c. c \<in> set (take j cs) \<union> set (drop (Suc j) cs) \<Longrightarrow> set (bt_ids c) \<inter> set (bt_ids (cs ! j)) = {}"
    by auto
qed

lemma ids_below_child: "ids_below (BNode i ks cs) n \<Longrightarrow> c \<in> set cs \<Longrightarrow> ids_below c n"
  by (auto simp: ids_below_def ids_node)

lemma ids_below_mono: "ids_below t n \<Longrightarrow> n \<le> m \<Longrightarrow> ids_below t m"
  by (fastforce simp: ids_below_def)

lemma kid_id_ne: "distinct (bt_ids t) \<Longrightarrow> x \<in> set (kid_nodes t) \<Longrightarrow> bt_id x \<noteq> bt_id t"
  by (simp add: ids_kids) (metis image_eqI)

section \<open>A tree below a page in memory\<close>

definition tree_at :: "node_pager \<Rightarrow> node_page \<Rightarrow> nat \<Rightarrow> i32 option \<Rightarrow> i32 option \<Rightarrow> btree \<Rightarrow> bool" where
  "tree_at p self h lo hi t \<longleftrightarrow> pager_ok p \<and> 4 \<le> degree_of p \<and> holds p self t \<and> stored p (kid_nodes t) \<and>
     bt_wf (degree_of p) h lo hi t \<and> distinct (bt_ids t) \<and> ids_below t (pages p)"

lemma child_index_page:
  assumes "self = (page_of D (BNode i ks cs))\<lparr>changed := b\<rparr>" and "length cs = Suc (length ks)"
  shows "child_index self key = child_pos key ks"
  using assms by (simp add: child_index_def child_pos_def split: option.split)

text \<open>The same without the invariant on the keys, which an operation may break for a while at the root.\<close>

definition tree_below :: "node_pager \<Rightarrow> node_page \<Rightarrow> btree \<Rightarrow> bool" where
  "tree_below p self t \<longleftrightarrow> pager_ok p \<and> holds p self t \<and> stored p (kid_nodes t) \<and>
     distinct (bt_ids t) \<and> ids_below t (pages p)"

lemma tree_at_below: "tree_at p self h lo hi t \<longleftrightarrow>
    tree_below p self t \<and> 4 \<le> degree_of p \<and> bt_wf (degree_of p) h lo hi t"
  by (auto simp: tree_at_def tree_below_def)

text \<open>A child is read into memory.\<close>

lemma tree_at_child:
  assumes "tree_at p self (Suc h) lo hi (BNode i ks cs)" and "j \<le> length ks"
  shows "tree_at p (page_of (degree_of p) (cs ! j)) h (lower lo ks j) (upper ks hi j) (cs ! j)"
    and "page_in p (cs ! j)"
proof -
  have wf: "bt_wf (degree_of p) (Suc h) lo hi (BNode i ks cs)" using assms(1) by (simp add: tree_at_def)
  have j: "j < length cs" using wf_kids_length [OF wf] assms(2) by simp
  then have c: "cs ! j \<in> set cs" by simp
  have st: "stored p (bt_nodes (cs ! j))"
    using assms(1) c by (intro stored_child [of _ cs]) (simp_all add: tree_at_def)
  then show "page_in p (cs ! j)" by (simp add: stored_nodes)
  then show "tree_at p (page_of (degree_of p) (cs ! j)) h (lower lo ks j) (upper ks hi j) (cs ! j)"
    using assms(1) st wf_child [OF wf assms(2)] distinct_child(2) [of i ks cs j] j c
    by (auto simp: tree_at_def stored_nodes holds_page intro: ids_below_child)
qed

text \<open>The read itself only advances the clock.\<close>

lemma updates_none:
  assumes "updates {} p q" and "pager_meta q = pager_meta p"
  shows "tree_at p self h lo hi t \<Longrightarrow> tree_at q self h lo hi t" and "page_in p t \<Longrightarrow> page_in q t"
    and "stored p ts \<Longrightarrow> stored q ts" and "pages q = pages p" and "free_page q = free_page p"
    and "degree_of q = degree_of p"
proof -
  note D = updates_degree [OF assms(1)]
  show "degree_of q = degree_of p" "pages q = pages p" "free_page q = free_page p"
    using D assms(2) by (simp_all add: pages_def free_page_def)
  show "page_in p t \<Longrightarrow> page_in q t" for t
    using updates_page_in [OF assms(1)] by simp
  show st: "stored p ts \<Longrightarrow> stored q ts" for ts
    using updates_stored [OF assms(1)] by simp
  show "tree_at p self h lo hi t \<Longrightarrow> tree_at q self h lo hi t"
    using updates_holds [OF assms(1), of t self] st [of "kid_nodes t"] D assms
    by (simp add: tree_at_def pages_def) (simp add: updates_def)
qed

text \<open>A pager that has only been read.\<close>

definition unchanged :: "node_pager \<Rightarrow> node_pager \<Rightarrow> bool" where
  "unchanged p q \<longleftrightarrow> updates {} p q \<and> pager_meta q = pager_meta p"

lemma unchanged_trans: "unchanged p q \<Longrightarrow> unchanged q r \<Longrightarrow> unchanged p r"
  using updates_trans [of "{}" p q "{}" r] by (auto simp: unchanged_def)

lemma unchanged_refl: "pager_ok p \<Longrightarrow> unchanged p p"
  by (simp add: unchanged_def updates_def)

lemma unchanged_keeps:
  assumes "unchanged p q"
  shows "pager_ok q" and "stored p ts \<Longrightarrow> stored q ts" and "degree_of q = degree_of p"
    and "pages q = pages p" and "free_page q = free_page p"
    and "tree_below p self t \<Longrightarrow> tree_below q self t"
proof -
  have up: "updates {} p q" "pager_meta q = pager_meta p" using assms by (simp_all add: unchanged_def)
  note none = updates_none [OF up]
  show "pager_ok q" using up(1) by (simp add: updates_def)
  then show "tree_below p self t \<Longrightarrow> tree_below q self t"
    using none(3,4) updates_holds [OF up(1), of t self] by (simp add: tree_below_def)
  show "stored p ts \<Longrightarrow> stored q ts" "degree_of q = degree_of p" "pages q = pages p" "free_page q = free_page p"
    by (fact none)+
qed

section \<open>Making room\<close>

lemma on_node_ok: "m (n, p) = (Inr x, (n', q)) \<Longrightarrow> on_node n m (self, p) = (Inr (Inr x, n'), (self, q))"
  by (simp add: on_node_def)

lemma ids_of_split_kids:
  assumes "bt_id l = bt_id (cs ! m)" and "m < length cs"
  shows "map bt_id (take m cs @ l # r # drop (Suc m) cs) = insert_at (Suc m) (bt_id r) (map bt_id cs)"
proof -
  have "take (Suc m) cs = take m cs @ [cs ! m]" using assms(2) by (rule take_Suc_conv_app_nth)
  then show ?thesis using assms(1) by (simp add: insert_at_def take_map drop_map)
qed

lemma kid_nodes_split:
  assumes "bt_split j t = (l, r, k)"
  shows "set (kid_nodes l) \<union> set (kid_nodes r) \<subseteq> set (kid_nodes t)"
  using assms by (cases t) (auto simp: Let_def dest!: in_set_takeD in_set_dropD)

lemma insert_split_refines:
  fixes key :: i32
  assumes "tree_at p self (Suc h) lo hi (BNode i ks cs)" and "free_page p = None" and "pages p < 2 ^ 31"
    and "m \<le> length ks" and "bt_full (degree_of p) (cs ! m)"
    and "bt_split (usize_as_i32 (pages p)) (cs ! m) = (l, r, k)"
  defines "D \<equiv> degree_of p" and "cs' \<equiv> take m cs @ l # r # drop (Suc m) cs"
    and "j \<equiv> (if k < key \<or> (k = key \<and> m < length ks) then Suc m else m)"
  shows "\<exists>q. insert_split keeps key m (page_of D (cs ! m)) (self, p) =
      (Inr (page_of D (cs' ! j)), ((page_of D (BNode i (insert_at m k ks) cs'))\<lparr>changed := True\<rparr>, q)) \<and>
    updates {bt_id l, bt_id r} p q \<and> stored q (concat (map bt_nodes cs')) \<and>
    pages q = Suc (pages p) \<and> free_page q = None"
proof -
  note child = tree_at_child [OF assms(1,4), folded D_def]
  have wf: "bt_wf D (Suc h) lo hi (BNode i ks cs)" and dist: "distinct (bt_ids (BNode i ks cs))"
    and below: "ids_below (BNode i ks cs) (pages p)" and st: "stored p (concat (map bt_nodes cs))"
    and D: "4 \<le> D"
    using assms(1) by (simp_all add: tree_at_def D_def)
  have self: "self = (page_of D (BNode i ks cs))\<lparr>changed := changed self\<rparr>"
    unfolding D_def by (rule holds_cases) (use assms(1) in \<open>simp add: tree_at_def\<close>)
  note len = wf_kids_length [OF wf]
  then have m: "m < length cs" using assms(4) by simp
  have new: "usize_as_i32 (pages p) \<notin> set (bt_ids (cs ! m))"
    using ids_below_new [OF ids_below_child [OF below nth_mem [OF m]] order_refl assms(3)] .
  obtain q1 where q1: "node_split keeps (page_of D (cs ! m), p) = (Inr (page_of D r, k), (page_of D l, q1))"
    "updates {bt_id l, bt_id r} p q1" "page_in q1 l" "page_in q1 r" "pages q1 = Suc (pages p)" "free_page q1 = None"
    using split_refines [OF _ _ _ assms(5) _ _ assms(2,3) new assms(6), where keeps = keeps and h = h
        and lo = "lower lo ks m" and hi = "upper ks hi m" and self = "page_of D (cs ! m)"]
      child(1) ids_below_ok [of "cs ! m" "pages p"] unfolding tree_at_def D_def by blast
  note same = split_contents [OF assms(6) _ assms(5), of h "lower lo ks m" "upper ks hi m"]
  have cw: "bt_wf (degree_of p) h (lower lo ks m) (upper ks hi m) (cs ! m)" and four: "4 \<le> degree_of p"
    using child(1) by (simp_all add: tree_at_def D_def)
  have id_l: "bt_id l = bt_id (cs ! m)" and id_r: "bt_id r = usize_as_i32 (pages p)"
    using same(1,2) [OF cw four] by simp_all
  have old: "bt_id x \<notin> {bt_id l, bt_id r}" if "x \<in> set (kid_nodes (cs ! m)) \<or>
      (\<exists>c \<in> set (take m cs) \<union> set (drop (Suc m) cs). x \<in> set (bt_nodes c))" for x
  proof -
    have "bt_id x \<noteq> bt_id (cs ! m)"
      using that
    proof
      assume "x \<in> set (kid_nodes (cs ! m))"
      with distinct_child(2) [OF dist m] show ?thesis by (rule kid_id_ne)
    next
      assume "\<exists>c \<in> set (take m cs) \<union> set (drop (Suc m) cs). x \<in> set (bt_nodes c)"
      then obtain c where "c \<in> set (take m cs) \<union> set (drop (Suc m) cs)" "bt_id x \<in> set (bt_ids c)"
        by (auto simp: bt_ids_def)
      then show ?thesis using distinct_child(3) [OF dist m] id_in_ids [of "cs ! m"] by fastforce
    qed
    moreover have "\<exists>c \<in> set cs. x \<in> set (bt_nodes c)"
      using that m by (auto simp: nodes_kids dest: in_set_takeD in_set_dropD)
    then have "bt_id x \<in> set (bt_ids (BNode i ks cs))"
      by (auto simp: bt_ids_def)
    then have "bt_id x \<noteq> usize_as_i32 (pages p)"
      using ids_below_new [OF below order_refl assms(3)] by auto
    ultimately show ?thesis by (simp add: id_l id_r)
  qed
  have st_rest: "stored q1 (bt_nodes c)" if c: "c \<in> set (take m cs) \<union> set (drop (Suc m) cs)" for c
  proof -
    have "c \<in> set cs" using c by (auto dest: in_set_takeD in_set_dropD)
    with st have "stored p (bt_nodes c)" by (rule stored_child)
    then show ?thesis using old c by (intro updates_stored [OF q1(2)]) blast+
  qed
  have "stored p (kid_nodes (cs ! m))" using child(1) by (simp add: tree_at_def)
  then have "stored q1 (kid_nodes (cs ! m))" using old by (intro updates_stored [OF q1(2)]) blast+
  then have "stored q1 (kid_nodes l)" "stored q1 (kid_nodes r)"
    using kid_nodes_split [OF assms(6)] by (auto simp: stored_def)
  then have st1: "stored q1 (concat (map bt_nodes cs'))"
    using st_rest q1(3,4) by (auto simp: cs'_def stored_concat stored_nodes)
  have j: "j < length cs'" using assms(4) len by (auto simp: j_def cs'_def)
  have D1: "degree_of q1 = D" using updates_degree [OF q1(2)] by (simp add: D_def)
  have "page_in q1 (cs' ! j)" "pager_ok q1"
    using stored_child [OF st1 nth_mem [OF j]] q1(2) by (simp_all add: stored_nodes updates_def)
  then obtain q where q: "pager_read_page keeps (bt_id (cs' ! j)) q1 = (Inr (page_of D (cs' ! j)), q)"
    "updates {} q1 q" "pager_meta q = pager_meta q1"
    using read_tree [of q1 "cs' ! j" keeps] D1 by auto
  have kids: "map bt_id cs' = insert_at (Suc m) (bt_id r) (map bt_id cs)"
    unfolding cs'_def by (rule ids_of_split_kids [OF id_l m])
  have at: "index_get (insert_at (Suc m) (bt_id r) (map bt_id cs)) j = (Inr (bt_id (cs' ! j)) :: (i32, node_operation_error) result)"
    unfolding kids [symmetric] using j by (simp add: index_get_def)
  let ?self' = "(page_of D (BNode i (insert_at m k ks) cs'))\<lparr>changed := True\<rparr>"
  have "insert_split keeps key m (page_of D (cs ! m)) (self, p) = (Inr (page_of D (cs' ! j)), (?self', q))"
  proof (cases "m = length ks")
    case True
    then have "insert_at m k ks = ks @ [k]" "map bt_id cs' = map bt_id cs @ [bt_id r]"
      using len kids by (simp_all add: insert_at_def)
    then show ?thesis
      using at q(1) kids len
      by (subst self) (cases "k < key"; simp add: True [symmetric] insert_split_def io_bind_def on_node_ok [of "node_split keeps", OF q1(1)] on_pager_ok [of _ _ _ q] j_def Let_def)
  next
    case False
    then have "vec_insert m k ks = (Inr (insert_at m k ks) :: (i32 list, node_operation_error) result)"
      "vec_insert (Suc m) (bt_id r) (map bt_id cs) = (Inr (map bt_id cs') :: (i32 list, node_operation_error) result)"
      using assms(4) len kids by (simp_all add: vec_insert_def insert_at_def)
    moreover have jj: "j = (if k \<le> key then Suc m else m)" and "m \<noteq> length ks"
      using False assms(4) by (auto simp: j_def)
    ultimately show ?thesis
      using at q(1) kids
      by (subst self) (cases "k \<le> key"; simp add: insert_split_def io_bind_def on_node_ok [of "node_split keeps", OF q1(1)]
          on_pager_ok [of _ _ _ q] Let_def)
  qed
  moreover have "updates {bt_id l, bt_id r} p q"
    using updates_trans [OF q1(2) q(2)] by simp
  moreover have "stored q (concat (map bt_nodes cs'))" "pages q = Suc (pages p)" "free_page q = None"
    using updates_none(3-5) [OF q(2,3)] st1 q1(5,6) by simp_all
  ultimately show ?thesis by blast
qed

section \<open>Insertion\<close>

text \<open>What is left after an operation that turned the tree \<open>t\<close> below a page into \<open>t'\<close>.\<close>

definition leaves_tree :: "node_pager \<Rightarrow> btree \<Rightarrow> node_page \<Rightarrow> node_pager \<Rightarrow> btree \<Rightarrow> nat \<Rightarrow> bool" where
  "leaves_tree p t self' q t' n' \<longleftrightarrow> holds q self' t' \<and> stored q (kid_nodes t') \<and>
     updates (bt_id ` set (kid_nodes t) \<union> usize_as_i32 ` {pages p..<n'}) p q \<and> pages q = n'"

lemma insert_leaf_refines:
  assumes "self = (page_of D (BLeaf i es nl))\<lparr>changed := b\<rparr>" and "sorted_wrt (<) (map fst es)"
    and "key \<notin> fst ` set es"
  shows "insert_key_value key v (self, p) =
    (Inr (), ((page_of D (BLeaf i (insert_entry key v es) nl))\<lparr>changed := True\<rparr>, p))"
proof -
  have none: "insert_entry key v es = es @ [(key, v)]" if "position (\<lambda>k. key \<le> k) (map fst es) = None"
    using that by (induction es) (auto split: if_splits)
  have some: "insert_entry key v es = take j es @ (key, v) # drop j es \<and> j < length es \<and> map fst es ! j \<noteq> key"
    if "position (\<lambda>k. key \<le> k) (map fst es) = Some j" for j
    using that assms(3) by (induction es arbitrary: j) (auto split: if_splits)
  show ?thesis
  proof (cases "position (\<lambda>k. key \<le> k) (map fst es)")
    case None
    then show ?thesis
      using none by (simp add: assms(1) insert_key_value_def io_bind_def binary_search_eq [OF assms(2)] search_spec_def classify_def)
  next
    case (Some j)
    have "j < length es" "fst (es ! j) \<noteq> key" "insert_entry key v es = take j es @ (key, v) # drop j es"
      using some [OF Some] by auto
    with Some show ?thesis
      by (simp add: assms(1) insert_key_value_def io_bind_def binary_search_eq [OF assms(2)] search_spec_def classify_def vec_insert_def take_map drop_map)
  qed
qed

text \<open>Reading the child of a key and making room in it.\<close>

definition prepare_child :: "keeping \<Rightarrow> i32 \<Rightarrow> nat \<Rightarrow> node_page \<Rightarrow> node_page node_io" where
  "prepare_child keeps key i child =
     io_bind (io_lift (is_full child)) (\<lambda>full.
     if full then insert_split keeps key i child else io_ret child)"

lemma is_full_page [simp]:
  assumes "1 \<le> D"
  shows "is_full (page_of D t) = Inr (bt_full D t)"
  using assms by (simp add: is_full_def max_keys_def usize_sub_def bt_full_def)

lemma prepare_child_refines:
  assumes "tree_at p self (Suc h) lo hi (BNode i ks cs)" and "free_page p = None" and "pages p < 2 ^ 31"
    and "\<not> bt_full (degree_of p) (BNode i ks cs)"
    and "not_below lo key" and "below key hi" and "key \<notin> bt_keys (BNode i ks cs)"
    and "bt_make_room (degree_of p) key ks cs (pages p) = (ks', cs', j, n')"
  shows "\<exists>q self'. prepare_child keeps key (child_pos key ks) (page_of (degree_of p) (cs ! child_pos key ks)) (self, p) =
      (Inr (page_of (degree_of p) (cs' ! j)), (self', q)) \<and>
    tree_at q self' (Suc h) lo hi (BNode i ks' cs') \<and> leaves_tree p (BNode i ks cs) self' q (BNode i ks' cs') n' \<and>
    free_page q = None"
proof -
  let ?m = "child_pos key ks" and ?D = "degree_of p" and ?t = "BNode i ks cs" and ?t' = "BNode i ks' cs'"
  have wf: "bt_wf ?D (Suc h) lo hi ?t" and D: "4 \<le> ?D" and below: "ids_below ?t (pages p)"
    and dist: "distinct (bt_ids ?t)"
    using assms(1) by (simp_all add: tree_at_def)
  note room = make_room [OF assms(8) wf assms(4) D assms(3,5,6,7)]
  have m: "?m \<le> length ks" by (rule child_pos_le)
  have n': "n' \<le> 2 ^ 31" using room(2) assms(3) by simp
  have D1: "1 \<le> ?D" using D by simp
  show ?thesis
  proof (cases "bt_full ?D (cs ! ?m)")
    case False
    then have same: "ks' = ks" "cs' = cs" "j = ?m" "n' = pages p"
      using assms(8) by (auto simp: bt_make_room_def Let_def)
    have "updates I p p" for I using assms(1) by (simp add: tree_at_def updates_def)
    then show ?thesis
      using False assms(1,2) is_full_page [OF D1]
      by (simp add: same prepare_child_def leaves_tree_def tree_at_def)
  next
    case full: True
    obtain l r k where lrk: "bt_split (usize_as_i32 (pages p)) (cs ! ?m) = (l, r, k)" by (metis prod_cases3)
    have mlen: "?m < length cs" using m wf_kids_length [OF wf] by simp
    have res: "ks' = insert_at ?m k ks" "cs' = take ?m cs @ l # r # drop (Suc ?m) cs" "n' = Suc (pages p)"
      "j = (if k < key \<or> (k = key \<and> ?m < length ks) then Suc ?m else ?m)"
      using assms(8) full lrk mlen by (auto simp: bt_make_room_def Let_def insert_at_kids)
    obtain q where q: "insert_split keeps key ?m (page_of ?D (cs ! ?m)) (self, p) =
        (Inr (page_of ?D (cs' ! j)), ((page_of ?D ?t')\<lparr>changed := True\<rparr>, q))"
      "updates {bt_id l, bt_id r} p q" "stored q (concat (map bt_nodes cs'))" "pages q = n'" "free_page q = None"
      using insert_split_refines [OF assms(1-3) m full lrk, of keeps key] unfolding res by auto
    have Dq: "degree_of q = ?D" by (rule updates_degree [OF q(2)])
    note ids = ids_extend [OF _ dist below _ n', of ?t'] 
    have "tree_at q ((page_of ?D ?t')\<lparr>changed := True\<rparr>) (Suc h) lo hi ?t'"
      using q(2,3,4) room ids D holds_changed [of q ?t']
      by (simp add: tree_at_def Dq del: bt_wf.simps page_of.simps) (simp add: updates_def)
    moreover have "updates (bt_id ` set (kid_nodes ?t) \<union> usize_as_i32 ` {pages p..<n'}) p q"
    proof (rule updates_mono [OF q(2)])
      have "bt_id l = bt_id (cs ! ?m)" "bt_id r = usize_as_i32 (pages p)"
        using split_contents(1,2) [OF lrk wf_child [OF wf m] full D] by simp_all
      moreover have "bt_id (cs ! ?m) \<in> bt_id ` set (kid_nodes ?t)"
        using nth_mem [OF mlen] node_in_nodes [of "cs ! ?m"] by auto
      ultimately show "{bt_id l, bt_id r} \<subseteq> bt_id ` set (kid_nodes ?t) \<union> usize_as_i32 ` {pages p..<n'}"
        by (auto simp: res(3))
    qed
    ultimately show ?thesis
      using q(1,3-5) full D1 holds_changed [of q ?t']
      by (simp add: prepare_child_def leaves_tree_def Dq del: page_of.simps)
  qed
qed

text \<open>After the insertion into the child and the write of the child.\<close>

lemma write_child:
  assumes "tree_below p self (BNode i ks cs)" and "j < length cs" and "n' \<le> 2 ^ 31"
    and "leaves_tree p (cs ! j) child q c n'" and "pages p \<le> n'" and "bt_id c = bt_id (cs ! j)"
    and "bt_wf (degree_of p) h a b c" and "distinct (bt_ids c)" and "ids_below c n'"
  shows "\<exists>q' child'. pager_write_page child q = (Inr child', q') \<and>
    leaves_tree p (BNode i ks cs) self q' (BNode i ks (cs[j := c])) n' \<and> free_page q' = free_page q"
proof -
  let ?D = "degree_of p" and ?t = "BNode i ks cs" and ?t' = "BNode i ks (cs[j := c])"
  let ?new = "usize_as_i32 ` {pages p..<n'}"
  have up: "updates (bt_id ` set (kid_nodes (cs ! j)) \<union> ?new) p q" and hold: "holds q child c"
    and st: "stored q (kid_nodes c)" and num: "pages q = n'"
    using assms(4) by (simp_all add: leaves_tree_def)
  have Dq: "degree_of q = ?D" and okq: "pager_ok q" using updates_degree [OF up] up by (simp_all add: updates_def)
  have dist: "distinct (bt_ids ?t)" and below: "ids_below ?t (pages p)" and kids: "stored p (concat (map bt_nodes cs))"
    using assms(1) by (simp_all add: tree_below_def)
  obtain q' where q': "pager_write_page child q = (Inr (page_of ?D c), q')" "updates {bt_id c} q q'" "page_in q' c"
    "pager_meta q' = pager_meta q"
    using write_tree [OF okq hold _ ids_below_ok [OF assms(9)], of h a b] assms(7) Dq by auto
  have up': "updates (set (bt_ids (cs ! j)) \<union> ?new) p q'"
    using updates_trans [OF up q'(2)] by (rule updates_mono) (auto simp: assms(6) ids_kids)
  have new_free: "x \<notin> ?new" if "x \<in> set (bt_ids ?t)" for x
  proof
    assume "x \<in> ?new"
    then obtain k where "x = usize_as_i32 k" "pages p \<le> k" "k < n'" by auto
    then show False using ids_below_new [OF below, of k] that assms(3) by simp
  qed
  have "stored q' (kid_nodes c)"
    using kid_id_ne [OF assms(8)] by (intro updates_stored [OF q'(2) st]) simp
  then have c: "stored q' (bt_nodes c)" using q'(3) by (simp add: stored_nodes)
  have rest: "stored q' (bt_nodes x)" if x: "x \<in> set (take j cs) \<union> set (drop (Suc j) cs)" for x
  proof (rule updates_nodes [OF up'])
    have "x \<in> set cs" using x by (auto dest: in_set_takeD in_set_dropD)
    then show "stored p (bt_nodes x)" using stored_child [OF kids] by blast
    have "set (bt_ids x) \<subseteq> set (bt_ids ?t)" using \<open>x \<in> set cs\<close> by (auto simp: ids_node)
    then show "set (bt_ids x) \<inter> (set (bt_ids (cs ! j)) \<union> ?new) = {}"
      using distinct_child(3) [OF dist assms(2) x] new_free by blast
  qed
  have "stored q' (kid_nodes ?t')"
    using c rest by (auto simp: stored_concat set_list_update [OF assms(2)])
  moreover have "holds q' self ?t'"
  proof -
    have "i \<notin> set (bt_ids (cs ! j)) \<union> ?new"
      using distinct_child(1) [OF dist assms(2)] new_free [of i] by (simp add: ids_node)
    then have "holds q' self ?t"
      using assms(1) by (intro updates_holds [OF up']) (simp_all add: tree_below_def)
    moreover have "map bt_id (cs[j := c]) = map bt_id cs"
      using assms(2,6) by (simp add: map_update list_update_same_conv)
    ultimately show ?thesis by (simp add: holds_def page_in_def)
  qed
  moreover have "updates (bt_id ` set (kid_nodes ?t) \<union> ?new) p q'"
    using nth_mem [OF assms(2)] by (intro updates_mono [OF up']) (auto simp: bt_ids_def)
  ultimately show ?thesis
    using q'(1,4) num by (auto simp: leaves_tree_def pages_def free_page_def)
qed

lemma node_insert_inner:
  assumes "\<not> is_leaf self" and "child_index self key = m" and "index_get (children self) m = (Inr c :: (i32, node_operation_error) result)"
    and "pager_read_page keeps c p = (Inr child, p0)"
    and "prepare_child keeps key m child (self, p0) = (Inr child1, (self1, p1))"
    and "node_insert keeps f key v True (child1, p1) = (Inr x, (child2, p2))"
    and "pager_write_page child2 p2 = (Inr child3, p3)"
  shows "node_insert keeps (Suc f) key v True (self, p) = (Inr (), (self1, p3))"
proof -
  have assoc: "io_bind (io_lift r) (\<lambda>full. io_bind (g full) k) s = io_bind (io_bind (io_lift r) g) k s" for r g k s
    by (cases r) (simp_all add: io_bind_def)
  have "on_pager (pager_read_page keeps c) (self, p) = (Inr child, (self, p0))"
    "on_node child1 (node_insert keeps f key v True) (self1, p1) = (Inr (Inr x, child2), (self1, p2))"
    "on_pager (pager_write_page child2) (self1, p2) = (Inr child3, (self1, p3))"
    using assms(4,6,7) by (simp_all add: on_pager_def on_node_def)
  note steps = io_bind_Inr [of "on_pager (pager_read_page keeps c)", OF this(1)]
    io_bind_Inr [of "prepare_child keeps key m child", OF assms(5)]
    io_bind_Inr [of "on_node child1 (node_insert keeps f key v True)", OF this(2)]
    io_bind_Inr [of "on_pager (pager_write_page child2)", OF this(3)]
    io_bind_Inr [of get_self, OF self_simps(1)]
  show ?thesis
    using assms(1-3) by (simp add: Let_def assoc [of "is_full child"] prepare_child_def [symmetric] steps)
qed

lemma leaves_tree_trans:
  assumes "leaves_tree p t s1 q t1 n1" and "leaves_tree q t1 s2 r t2 n2" and "pages p \<le> n1" and "n1 \<le> n2"
    and "bt_id ` set (kid_nodes t1) \<subseteq> bt_id ` set (kid_nodes t) \<union> usize_as_i32 ` {pages p..<n1}"
  shows "leaves_tree p t s2 r t2 n2"
proof -
  have "pages q = n1" using assms(1) by (simp add: leaves_tree_def)
  moreover have "{pages p..<n2} = {pages p..<n1} \<union> {n1..<n2}" using assms(3,4) by auto
  ultimately have "updates (bt_id ` set (kid_nodes t) \<union> usize_as_i32 ` {pages p..<n2}) p r"
    using updates_trans [of _ p q _ r] assms(1,2,5) unfolding leaves_tree_def
    by (elim conjE) (erule (1) updates_mono [OF updates_trans], auto simp: image_Un)
  then show ?thesis using assms(2) by (simp add: leaves_tree_def)
qed

theorem node_insert_refines:
  assumes "tree_at p self h lo hi t" and "free_page p = None" and "\<not> bt_full (degree_of p) t"
    and "pages p + h \<le> 2 ^ 31" and "not_below lo key" and "below key hi" and "key \<notin> bt_keys t"
    and "key \<noteq> i32_min" and "fst v \<noteq> i32_min" and "snd v \<noteq> i32_min"
    and "bt_insert (degree_of p) h key v t (pages p) = (t', n')" and "h < fuel"
  shows "\<exists>q self'. node_insert keeps fuel key v True (self, p) = (Inr (), (self', q)) \<and>
    leaves_tree p t self' q t' n' \<and> free_page q = None"
  using assms(1-7,11,12)
proof (induction h arbitrary: p self lo hi t t' n' fuel)
  case 0
  have wf: "bt_wf (degree_of p) 0 lo hi t" using 0(1) by (simp add: tree_at_def)
  then obtain i es nl where t: "t = BLeaf i es nl" using wf_leaf by blast
  have self: "self = (page_of (degree_of p) (BLeaf i es nl))\<lparr>changed := changed self\<rparr>"
    using 0(1) holds_cases [of p self t] by (simp add: tree_at_def t)
  have sorted: "sorted_wrt (<) (map fst es)" and fresh: "key \<notin> fst ` set es"
    using wf 0(7) by (simp_all add: t entries_ok_def)
  obtain f where f: "fuel = Suc f" using 0(9) by (cases fuel) simp_all
  have leaf: "is_leaf self" by (subst self) (simp add: is_leaf_def)
  have t': "t' = BLeaf i (insert_entry key v es) nl" "n' = pages p" using 0(8) by (simp_all add: t)
  have "node_insert keeps fuel key v True (self, p) =
      (Inr (), ((page_of (degree_of p) t')\<lparr>changed := True\<rparr>, p))"
    using insert_leaf_refines [OF self sorted fresh, of v p] leaf by (simp add: f io_bind_def t')
  moreover have "leaves_tree p t ((page_of (degree_of p) t')\<lparr>changed := True\<rparr>) p t' n'"
    using 0(1,2) holds_changed [of p t'] by (simp add: leaves_tree_def t t'(2) tree_at_def updates_def) (simp add: t')
  ultimately show ?case using 0(2) by blast
next
  case (Suc h)
  let ?D = "degree_of p"
  have wf: "bt_wf ?D (Suc h) lo hi t" using Suc.prems(1) by (simp add: tree_at_def)
  then obtain i ks cs where t: "t = BNode i ks cs" using wf_node by blast
  let ?m = "child_pos key ks"
  have at: "tree_at p self (Suc h) lo hi (BNode i ks cs)" using Suc.prems(1) by (simp add: t)
  have len: "length cs = Suc (length ks)" using wf wf_kids_length by (simp add: t)
  obtain f where f: "fuel = Suc f" "h < f" using Suc.prems(9) by (cases fuel) simp_all
  obtain b where self: "self = (page_of ?D (BNode i ks cs))\<lparr>changed := b\<rparr>"
    using at holds_cases [of p self "BNode i ks cs"] unfolding tree_at_def by blast
  obtain p0 where p0: "pager_read_page keeps (bt_id (cs ! ?m)) p = (Inr (page_of ?D (cs ! ?m)), p0)"
    "updates {} p p0" "pager_meta p0 = pager_meta p"
    using read_tree [of p "cs ! ?m" keeps] tree_at_child(2) [OF at child_pos_le] at by (auto simp: tree_at_def)
  note none = updates_none [OF p0(2,3)]
  obtain ks' cs' j n1 where room: "bt_make_room ?D key ks cs (pages p) = (ks', cs', j, n1)" by (metis prod_cases4)
  obtain c where c: "bt_insert ?D h key v (cs' ! j) n1 = (c, n')" and t': "t' = BNode i ks' (cs'[j := c])"
    using Suc.prems(8) room by (auto simp: t Let_def split: prod.splits)
  have n: "pages p < 2 ^ 31" using Suc.prems(4) by simp
  let ?t1 = "BNode i ks' cs'"
  have four: "4 \<le> ?D" using at by (simp add: tree_at_def)
  note made = make_room [OF room wf [unfolded t] Suc.prems(3) [unfolded t] four n Suc.prems(5,6) Suc.prems(7) [unfolded t]]
  obtain q1 self1 where q1: "prepare_child keeps key ?m (page_of ?D (cs ! ?m)) (self, p0) = (Inr (page_of ?D (cs' ! j)), (self1, q1))"
    "tree_at q1 self1 (Suc h) lo hi ?t1" "leaves_tree p0 (BNode i ks cs) self1 q1 ?t1 n1" "free_page q1 = None"
    using prepare_child_refines [OF none(1) [OF at], of key ks' cs' j n1 keeps] none(4-6) Suc.prems(2,3,5-7) n room
    by (auto simp: t)
  have D1: "degree_of q1 = ?D" and num1: "pages q1 = n1" and free1: "free_page q1 = None"
    using q1(3,4) updates_degree none(6) by (auto simp: leaves_tree_def)
  have j: "j \<le> length ks'" and jc: "j < length cs'" and nfull: "\<not> bt_full ?D (cs' ! j)"
    and iv: "not_below (lower lo ks' j) key" "below key (upper ks' hi j)"
    using made(1) wf_kids_length [of ?D h lo hi i ks' cs'] by (auto simp del: bt_wf.simps)
  have fresh: "key \<notin> bt_keys (cs' ! j)"
    using made(2) Suc.prems(7) nth_mem [OF jc] by (auto simp: t)
  have room1: "n1 + h \<le> 2 ^ 31" "pages p \<le> n1" using made(2) Suc.prems(4) by simp_all
  note child = tree_at_child [OF q1(2) j, unfolded D1]
  obtain q2 child' where q2: "node_insert keeps f key v True (page_of ?D (cs' ! j), q1) = (Inr (), (child', q2))"
    "leaves_tree q1 (cs' ! j) child' q2 c n'" "free_page q2 = None"
    using Suc.IH [OF child(1) free1 _ _ iv fresh, of c n' f] nfull D1 num1 room1 c f(2) by auto
  have cw: "bt_wf ?D h (lower lo ks' j) (upper ks' hi j) (cs' ! j)" and cd: "distinct (bt_ids (cs' ! j))" "ids_below (cs' ! j) n1"
    using child(1) D1 num1 by (simp_all add: tree_at_def)
  have cins: "bt_wf ?D h (lower lo ks' j) (upper ks' hi j) c \<and> n' \<le> n1 + h \<and> bt_id c = bt_id (cs' ! j) \<and>
      inserted key v (cs' ! j) n1 c n'"
    using insert_wf [OF c cw nfull four room1(1) iv fresh assms(8-10)] .
  have n': "n1 \<le> n'" "n' \<le> 2 ^ 31" using cins room1 by (simp_all add: inserted_def)
  have cid: "distinct (bt_ids c)" "ids_below c n'"
    using ids_extend [OF _ cd n'] cins by (simp_all add: inserted_def)
  obtain q child'' where q: "pager_write_page child' q2 = (Inr child'', q)"
    "leaves_tree q1 ?t1 self1 q (BNode i ks' (cs'[j := c])) n'" "free_page q = None"
    using q2(3) write_child [OF conjunct1 [OF q1(2) [unfolded tree_at_below]] jc n'(2) q2(2) _ _ _ cid, where h = h and a = "lower lo ks' j" and b = "upper ks' hi j"] cins num1 n'(1) D1 by auto
  have "node_insert keeps fuel key v True (self, p) = (Inr (), (self1, q))"
  proof -
    have "\<not> is_leaf self" "child_index self key = ?m" "children self = map bt_id cs"
      using len child_index_page [OF self len] by (auto simp: self is_leaf_def)
    moreover have "index_get (map bt_id cs) ?m = (Inr (bt_id (cs ! ?m)) :: (i32, node_operation_error) result)"
      using len child_pos_le [of key ks] by (simp add: index_get_def)
    ultimately show ?thesis
      unfolding f(1) by (intro node_insert_inner [OF _ _ _ p0(1) q1(1) q2(1) q(1)]) simp_all
  qed
  moreover have "leaves_tree p t self1 q t' n'"
  proof -
    have "leaves_tree p t self1 q1 ?t1 n1"
    proof -
      have "updates (bt_id ` set (kid_nodes t) \<union> usize_as_i32 ` {pages p..<n1}) p0 q1"
        using q1(3) none(4) by (simp add: leaves_tree_def t)
      from updates_trans [OF p0(2) this] show ?thesis
        using q1(3) by (simp add: leaves_tree_def)
    qed
    moreover have "bt_id ` set (kid_nodes ?t1) \<subseteq> bt_id ` set (kid_nodes t) \<union> usize_as_i32 ` {pages p..<n1}"
    proof -
      have "mset (bt_ids ?t1) = mset (bt_ids t @ map usize_as_i32 [pages p..<n1])"
        using made(2) by (simp add: t)
      from mset_eq_setD [OF this] have "set (bt_ids ?t1) = set (bt_ids t) \<union> usize_as_i32 ` {pages p..<n1}"
        by simp
      moreover have "i \<notin> bt_id ` set (kid_nodes ?t1)"
        using q1(2) by (auto simp: tree_at_def ids_kids)
      moreover have "set (bt_ids x) = insert (bt_id x) (bt_id ` set (kid_nodes x))" for x
        by (simp add: ids_kids)
      ultimately show ?thesis unfolding t bt_id.simps by (metis Un_insert_left insert_subset subset_insert subset_insertI Diff_subset_conv bt_id.simps(2) equalityE)
    qed
    ultimately show ?thesis
      unfolding t' by (rule leaves_tree_trans [OF _ q(2) room1(2) n'(1)])
  qed
  ultimately show ?case using q(3) by blast
qed

end
