(* ===== verification/BTree_Index.thy ===== *)
theory BTree_Index
  imports BTree_Insert_Refine
begin

text \<open>
  An index file as a sorted list of entries: \<open>index_at\<close> says that the tree of the root page is
  stored, satisfies the invariant and has its leaves linked; \<open>index_of\<close> forgets the tree and
  keeps its entries, the keys that occur on its pages, and its height. Insertion
  (\<open>BTreeStore::insert\<close>) is insertion into that list.
\<close>

section \<open>The entries are sorted\<close>

lemma sorted_kids:
  assumes "\<And>a b c. bt_wf d h a b c \<Longrightarrow> sorted_wrt (<) (map fst (bt_entries c))"
  shows "list_all2 (\<lambda>(a, b). bt_wf d h a b) (intervals lo ks hi) cs \<Longrightarrow> separators_ok lo ks hi \<Longrightarrow>
    sorted_wrt (<) (map fst (concat (map bt_entries cs))) \<and>
    (\<forall>e \<in> set (concat (map bt_entries cs)). not_below lo (fst e))"
proof (induction ks arbitrary: lo cs)
  case Nil
  then obtain c where "cs = [c]" "bt_wf d h lo hi c" by (auto simp: list_all2_Cons1)
  then show ?case using assms entries_in_interval by auto
next
  case (Cons k ks)
  then obtain c cs' where cs: "cs = c # cs'" "bt_wf d h lo (Some k) c"
    "list_all2 (\<lambda>(a, b). bt_wf d h a b) (intervals (Some k) ks hi) cs'"
    by (auto simp: list_all2_Cons1)
  have sep: "separators_ok (Some k) ks hi" "above lo k"
    using Cons.prems(2) separators_append [of lo "[]" k ks hi] by simp_all
  note rest = Cons.IH [OF cs(3) sep(1)]
  have first: "not_below lo (fst e) \<and> fst e < k" if "e \<in> set (bt_entries c)" for e
    using entries_in_interval [OF cs(2) that] by simp
  have later: "k \<le> fst e" "not_below lo (fst e)" if "e \<in> set (concat (map bt_entries cs'))" for e
  proof -
    show "k \<le> fst e" using rest that by auto
    then show "not_below lo (fst e)" using sep(2) above_not_below not_below_trans by blast
  qed
  have "sorted_wrt (<) (map fst (bt_entries c))" by (rule assms [OF cs(2)])
  then have "sorted_wrt (<) (map fst (concat (map bt_entries cs)))"
    using rest first later(1) unfolding cs(1)
    by (simp only: map_append concat.simps list.map sorted_wrt_append) (fastforce intro: less_le_trans)
  then show ?case
    using first later(2) unfolding cs(1) by (simp only: list.map concat.simps set_append ball_Un) blast
qed

lemma wf_sorted: "bt_wf d h lo hi t \<Longrightarrow> sorted_wrt (<) (map fst (bt_entries t))"
proof (induction h arbitrary: lo hi t)
  case 0
  then obtain i es nl where "t = BLeaf i es nl" using wf_leaf by blast
  with 0 show ?case by (simp add: entries_ok_def)
next
  case (Suc h)
  then obtain i ks cs where t: "t = BNode i ks cs" using wf_node by blast
  then show ?case using sorted_kids [of d h lo ks hi cs] Suc.IH Suc.prems by simp
qed

lemma sorted_entries_unique:
  assumes "sorted_wrt (<) (map fst es)" and "sorted_wrt (<) (map fst es')" and "set es = set es'"
  shows "es = (es' :: index_entry list)"
proof -
  have "sorted (map fst es)" "distinct (map fst es)" "sorted (map fst es')" "distinct (map fst es')"
    using assms(1,2) by (simp_all add: strict_sorted_iff)
  moreover have "inj_on fst (set es)" using \<open>distinct (map fst es)\<close> by (simp add: distinct_map)
  ultimately show ?thesis
    using assms(3) by (intro map_sorted_distinct_set_unique [of fst]) simp_all
qed

section \<open>The index of a file\<close>

definition index_at :: "node_pager \<Rightarrow> nat \<Rightarrow> btree \<Rightarrow> bool" where
  "index_at p h t \<longleftrightarrow> pager_ok p \<and> synced p \<and> 4 \<le> degree_of p \<and> unique_index (pager_meta p) \<and>
     meta_root (pager_meta p) = Some (bt_id t) \<and> stored p (bt_nodes t) \<and>
     bt_wf (degree_of p) h None None t \<and> linked (bt_leaves t) None \<and>
     distinct (bt_ids t) \<and> ids_below t (pages p) \<and> bt_filled (degree_of p) t"

lemma index_tree_at: "index_at p h t \<Longrightarrow> tree_at p (page_of (degree_of p) t) h None None t"
  by (simp add: index_at_def tree_at_def stored_nodes holds_page)

text \<open>A new index file has no root yet: the first operation allocates page 0.\<close>

definition index_of :: "node_pager \<Rightarrow> nat \<Rightarrow> index_entry list \<Rightarrow> i32 set \<Rightarrow> bool" where
  "index_of p h es K \<longleftrightarrow>
     (pager_ok p \<and> synced p \<and> 4 \<le> degree_of p \<and> unique_index (pager_meta p) \<and> meta_root (pager_meta p) = None \<and>
      pages p = 0 \<and> free_page p = None \<and> h = 0 \<and> es = [] \<and> K = {}) \<or>
     (\<exists>t. index_at p h t \<and> es = bt_entries t \<and> K = bt_keys t)"

lemma entries_keys: "fst ` set (bt_entries t) \<subseteq> bt_keys t"
  by (induction t) auto

lemma index_of_sorted: "index_of p h es K \<Longrightarrow> sorted_wrt (<) (map fst es) \<and> fst ` set es \<subseteq> K"
  using entries_keys by (auto simp: index_of_def index_at_def intro: wf_sorted)

section \<open>Metadata\<close>

lemma meta_bytes: "\<exists>bs. meta_data_to_bytes m = Inr bs \<and> length bs = 14"
  by (simp add: meta_data_to_bytes_def copy_into_def node_consts get_i32_be_bytes_from_option_def)

lemma save_metadata_ok:
  assumes "pager_ok p"
  shows "\<exists>q. save_metadata p = (Inr (), q) \<and> updates {} p q \<and> pager_meta q = pager_meta p \<and>
    (synced p \<longrightarrow> saved q)"
proof (cases "meta_changed (pager_meta p)")
  case False
  then show ?thesis using assms by (simp add: save_metadata_def updates_def synced_def)
next
  case True
  obtain bs where bs: "meta_data_to_bytes (pager_meta p) = Inr bs" "length bs = 14"
    using meta_bytes by blast
  let ?q = "p\<lparr>pager_file := write_at (pager_file p) 0 bs\<rparr>"
  have deg: "degree_ok (pager_degree p)" "pager_degree ?q = pager_degree p"
    using assms by (simp_all add: pager_ok_def pager_degree_def)
  have same: "pager_read_file ?q pid = Inr m" if "pager_read_file p pid = Inr m" for pid m
  proof -
    have pos: "\<not> i32_val pid < 0" and "\<exists>x. read_exact_at (pager_file p) (node_offset (pager_degree p) pid)
        (node_bytes (pager_degree p)) = Inr x \<and> node_try_from x (pager_degree p) = Inr m"
      using that by (auto simp: pager_read_file_eq [OF deg(1)] and_then_Inr_iff split: if_splits)
    then obtain x where x: "read_exact_at (pager_file p) (node_offset (pager_degree p) pid) (node_bytes (pager_degree p)) = Inr x"
      "node_try_from x (pager_degree p) = Inr m" by blast
    have "read_exact_at (pager_file ?q) (node_offset (pager_degree p) pid) (node_bytes (pager_degree p)) = Inr x"
      using read_write_other [OF x(1), of 0 bs] bs(2) by (simp add: node_offset_def)
    then show ?thesis
      using pos x(2) deg by (simp add: pager_read_file_eq)
  qed
  then have "updates {} p ?q"
    using assms deg(2) True by (auto simp: updates_def pager_ok_def cache_coherent_def synced_def saved_def)
  moreover have "synced p \<longrightarrow> saved ?q"
    using bs True read_write_same [of 14 bs "pager_file p" 0] by (auto simp: saved_def synced_def node_consts)
  ultimately show ?thesis
    using True bs(1) by (simp add: save_metadata_def)
qed

lemma set_root_keeps:
  fixes p :: node_pager and r :: i32
  defines "q \<equiv> pager_update_meta (\<lambda>m. m\<lparr>meta_root := Some r\<rparr>) p"
  shows "pager_ok q = pager_ok p" and "degree_of q = degree_of p" and "pages q = pages p"
    and "free_page q = free_page p" and "page_in q t = page_in p t" and "stored q ts = stored p ts"
    and "holds q self t = holds p self t" and "meta_root (pager_meta q) = Some r"
    and "unique_index (pager_meta q) = unique_index (pager_meta p)"
    and "meta_changed (pager_meta p) \<Longrightarrow> synced p \<Longrightarrow> synced q"
proof -
  let ?m = "(pager_meta p)\<lparr>meta_root := Some r\<rparr>"
  have q: "q = p\<lparr>pager_meta := ?m\<rparr>" by (simp add: q_def pager_update_meta_def)
  have deg: "pager_degree q = pager_degree p" by (simp add: q pager_degree_def)
  have same: "pager_read_file q pid = pager_read_file p pid" for pid
    unfolding q by (rule meta_update_read) simp
  show "pager_ok q = pager_ok p" "degree_of q = degree_of p"
    using same deg by (simp_all add: pager_ok_def cache_coherent_def degree_of_def) (simp add: q)
  then have page: "page_in q t = page_in p t" for t
    using same by (simp add: page_in_def)
  then show "page_in q t = page_in p t" "stored q ts = stored p ts" "holds q self t = holds p self t"
    using \<open>degree_of q = _\<close> by (simp_all add: stored_def holds_def)
  show "pages q = pages p" "free_page q = free_page p" "meta_root (pager_meta q) = Some r"
    "unique_index (pager_meta q) = unique_index (pager_meta p)"
    by (simp_all add: q pages_def free_page_def)
  show "meta_changed (pager_meta p) \<Longrightarrow> synced p \<Longrightarrow> synced q"
    by (auto simp: q synced_def saved_def)
qed

section \<open>The root page\<close>

definition empty_root :: btree where
  "empty_root = BLeaf (usize_as_i32 0) [] None"

lemma from_pager_ok: "m p = (Inr x, q) \<Longrightarrow> from_pager m p = (Inr x, q)"
  by (simp add: from_pager_def io_map_err_def)

lemma root_refines:
  assumes "index_of p h es K"
  shows "\<exists>q self t. btree_root keeps p = (Inr self, q) \<and> index_at q h t \<and> holds q self t \<and>
    es = bt_entries t \<and> K = bt_keys t \<and> free_page q = free_page p \<and> pages q \<le> Suc (pages p) \<and>
    (pages p \<noteq> 0 \<longrightarrow> pages q = pages p) \<and> degree_of q = degree_of p"
  using assms unfolding index_of_def
proof
  assume "\<exists>t. index_at p h t \<and> es = bt_entries t \<and> K = bt_keys t"
  then obtain t where t: "index_at p h t" "es = bt_entries t" "K = bt_keys t" by blast
  have st: "page_in p t" "pager_ok p" using t(1) by (simp_all add: index_at_def stored_nodes)
  obtain q where q: "pager_read_page keeps (bt_id t) p = (Inr (page_of (degree_of p) t), q)" "updates {} p q"
    "pager_meta q = pager_meta p"
    using read_tree [OF st(2,1), of keeps] by blast
  note none = updates_none [OF q(2,3)]
  have "btree_root keeps p = (Inr (page_of (degree_of p) t), q)"
    using t(1) from_pager_ok [of "pager_read_page keeps (bt_id t)", OF q(1)] by (simp add: btree_root_def index_at_def)
  moreover have "index_at q h t"
    using t(1) none(3-6) q(2,3) by (simp add: index_at_def) (simp add: updates_def)
  moreover have "holds q (page_of (degree_of p) t) t"
    using holds_page [OF none(2) [OF st(1)]] by (simp add: none(6))
  ultimately show ?thesis using t(2,3) none(4-6) by fastforce
next
  assume new: "pager_ok p \<and> synced p \<and> 4 \<le> degree_of p \<and> unique_index (pager_meta p) \<and> meta_root (pager_meta p) = None \<and>
      pages p = 0 \<and> free_page p = None \<and> h = 0 \<and> es = [] \<and> K = {}"
  let ?D = "degree_of p" and ?t = empty_root
  let ?self = "(page_of ?D ?t)\<lparr>changed := True\<rparr>"
  have wf: "bt_wf ?D 0 None None ?t"
    using new by (simp add: empty_root_def entries_ok_def)
  obtain p1 where p1: "pager_allocate_new_page keeps p = (Inr ?self, p1)" "updates {bt_id ?t} p p1"
    "pages p1 = Suc 0" "free_page p1 = None" "page_in p1 ?t"
    "meta_changed (pager_meta p1)"
    using new allocate_tree [of p keeps] by (auto simp: empty_root_def)
  have D1: "degree_of p1 = ?D" by (rule updates_degree [OF p1(2)])
  let ?p2 = "pager_update_meta (\<lambda>m. m\<lparr>meta_root := Some (bt_id ?t)\<rparr>) p1"
  note root = set_root_keeps [where r = "bt_id ?t" and p = p1]
  have "pager_ok ?p2" using p1(2) root(1) by (simp add: updates_def)
  then obtain q where q: "save_metadata ?p2 = (Inr (), q)" "updates {} ?p2 q" "pager_meta q = pager_meta ?p2"
    using save_metadata_ok by blast
  note none = updates_none [OF q(2,3)]
  have page: "page_in q ?t" using none(2) root(5) p1(5) by simp
  have run: "btree_root keeps p = (Inr ?self, q)"
    using new from_pager_ok [of "pager_allocate_new_page keeps", OF p1(1)] q(1)
    by (simp add: btree_root_def io_bind_def set_meta_root_def)
  have "meta_root (pager_meta q) = Some (bt_id ?t)" "unique_index (pager_meta q)"
    using root(8,9) q(3) p1(2) new by (simp_all add: updates_def)
  moreover have "synced q"
    using q(2) root(10) p1(2,6) new by (simp add: updates_def)
  ultimately have "index_at q 0 ?t"
    using page wf new p1(2,3) q(2) none(4,6) root(2,3) D1 by (simp add: index_at_def stored_nodes)
      (simp add: empty_root_def ids_below_def updates_def)
  moreover have "holds q ?self ?t"
    using holds_changed [of q ?t] none(6) root(2) D1 by simp
  ultimately show ?thesis
    using run new p1(3,4) none(4-6) root(2-4) D1 by (intro exI [of _ q] exI [of _ ?self] exI [of _ ?t]) (simp add: empty_root_def)
qed

section \<open>Insertion\<close>

lemma with_node_ok: "m (n, p) = (Inr x, (n', q)) \<Longrightarrow> with_node n m p = (Inr (x, n'), q)"
  by (simp add: with_node_def)

text \<open>A full root is split and gets a new page above it.\<close>

lemma split_root_refines:
  assumes "index_at p h t" and "holds p self t" and "bt_full (degree_of p) t" and "free_page p = None"
    and "Suc (pages p) < 2 ^ 31" and "bt_split (usize_as_i32 (pages p)) t = (l, r, k)"
  defines "t1 \<equiv> BNode (usize_as_i32 (Suc (pages p))) [k] [l, r]"
  shows "\<exists>q self'. split_root keeps self p = (Inr self', q) \<and> tree_at q self' (Suc h) None None t1 \<and>
    pages q = Suc (Suc (pages p)) \<and> free_page q = None \<and> degree_of q = degree_of p \<and>
    meta_root (pager_meta q) = Some (bt_id t1) \<and> unique_index (pager_meta q) \<and> synced q"
proof -
  let ?D = "degree_of p" and ?n = "pages p"
  let ?e = "BLeaf (usize_as_i32 (Suc ?n)) [] None"
  have okp: "pager_ok p" and wf: "bt_wf ?D h None None t" and D: "4 \<le> ?D" and below: "ids_below t ?n"
    and dist: "distinct (bt_ids t)" and st: "stored p (kid_nodes t)" and uniq: "unique_index (pager_meta p)"
    using assms(1) by (simp_all add: index_at_def stored_nodes)
  have n: "?n < 2 ^ 31" using assms(5) by simp
  have new: "usize_as_i32 ?n \<notin> set (bt_ids t)" by (rule ids_below_new [OF below order_refl n])
  obtain p1 where p1: "node_split keeps (self, p) = (Inr (page_of ?D r, k), (page_of ?D l, p1))"
    "updates {bt_id l, bt_id r} p p1" "page_in p1 l" "page_in p1 r" "pages p1 = Suc ?n" "free_page p1 = None"
    using split_refines [OF okp assms(2) wf assms(3) D ids_below_ok [OF below] assms(4) n new assms(6), of keeps] by blast
  note same = split_contents [OF assms(6) wf assms(3) D]
  note split = root_split_wf [OF assms(6) wf assms(3) D assms(5), folded t1_def]
  have D1: "degree_of p1 = ?D" by (rule updates_degree [OF p1(2)])
  have ok1: "pager_ok p1" using p1(2) by (simp add: updates_def)
  obtain p2 where p2: "pager_allocate_new_page keeps p1 = (Inr ((page_of ?D ?e)\<lparr>changed := True\<rparr>), p2)"
    "updates {usize_as_i32 (Suc ?n)} p1 p2" "pages p2 = Suc (Suc ?n)" "free_page p2 = None"
    "meta_changed (pager_meta p2)"
    using allocate_tree [OF ok1 p1(6), of keeps] p1(5) assms(5) D1 by auto
  have D2: "degree_of p2 = ?D" using updates_degree [OF p2(2)] D1 by simp
  have ids1: "distinct (bt_ids t1)" "ids_below t1 (Suc (Suc ?n))"
    using ids_extend [OF _ dist below, of t1 "Suc (Suc ?n)"] split assms(5) by simp_all
  have kid: "bt_id x \<notin> {bt_id l, bt_id r}" if x: "x \<in> set (kid_nodes l) \<union> set (kid_nodes r)" for x
  proof -
    have "x \<in> set (kid_nodes t)" using kid_nodes_split [OF assms(6)] x by blast
    then have "bt_id x \<noteq> bt_id t" "bt_id x \<in> set (bt_ids t)"
      using kid_id_ne [OF dist] by (auto simp: ids_kids)
    then show ?thesis using new same(1,2) by auto
  qed
  have "stored p (kid_nodes l @ kid_nodes r)"
    using st kid_nodes_split [OF assms(6)] by (auto simp: stored_def)
  then have "stored p1 (kid_nodes l @ kid_nodes r)"
    using kid by (intro updates_stored [OF p1(2)]) auto
  then have "stored p1 (kid_nodes t1)"
    using p1(3,4) by (simp add: t1_def nodes_kids)
  moreover have "bt_id x \<notin> {usize_as_i32 (Suc ?n)}" if "x \<in> set (kid_nodes t1)" for x
    using kid_id_ne [OF ids1(1) that] by (simp add: t1_def)
  ultimately have st2: "stored p2 (kid_nodes t1)"
    by (intro updates_stored [OF p2(2)]) simp_all
  let ?self' = "(page_of ?D t1)\<lparr>changed := True\<rparr>"
  let ?q = "pager_update_meta (\<lambda>m. m\<lparr>meta_root := Some (bt_id t1)\<rparr>) p2"
  note root = set_root_keeps [where r = "bt_id t1" and p = p2]
  have "split_root keeps self p = (Inr ?self', ?q)"
    using with_node_ok [of "node_split keeps", OF p1(1)] from_pager_ok [of "pager_allocate_new_page keeps", OF p2(1)]
    by (simp add: split_root_def io_bind_def set_meta_root_def t1_def)
  moreover have "tree_at ?q ?self' (Suc h) None None t1"
    using st2 root split ids1 p2(2,3) D D2 holds_changed [of ?q t1] by (simp add: tree_at_def updates_def del: page_of.simps)
  moreover have "unique_index (pager_meta ?q)"
    using root(9) p2(2) p1(2) uniq by (simp add: updates_def)
  ultimately show ?thesis
    using root(2-4,8,10) p1(2) p2(2-5) D2 assms(1) by (auto simp: updates_def index_at_def)
qed

text \<open>The insertion below a root that is not full, and the write of the root.\<close>

lemma insert_below_root:
  assumes "tree_at p self h None None t" and "free_page p = None" and "\<not> bt_full (degree_of p) t"
    and "pages p + h \<le> 2 ^ 31" and "key \<notin> bt_keys t" and "key \<noteq> i32_min" and "fst v \<noteq> i32_min" and "snd v \<noteq> i32_min"
    and "bt_insert (degree_of p) h key v t (pages p) = (t', n')" and "h < fuel"
    and "meta_root (pager_meta p) = Some (bt_id t)" and "unique_index (pager_meta p)" and "linked (bt_leaves t) None"
    and "bt_filled (degree_of p) t" and "synced p"
  shows "\<exists>q. io_bind (with_node self (node_insert keeps fuel key v (unique_index (pager_meta p)))) (\<lambda>(_, r).
      io_bind (from_pager (pager_write_page r)) (\<lambda>_. save_metadata)) p = (Inr (), q) \<and>
    index_at q h t' \<and> pages q = n' \<and> free_page q = None \<and> degree_of q = degree_of p \<and> saved q"
proof -
  have at: "pager_ok p" "4 \<le> degree_of p" "bt_wf (degree_of p) h None None t" "distinct (bt_ids t)" "ids_below t (pages p)"
    using assms(1) by (simp_all add: tree_at_def)
  obtain p1 self' where p1: "node_insert keeps fuel key v True (self, p) = (Inr (), (self', p1))" "leaves_tree p t self' p1 t' n'"
    "free_page p1 = None"
    using node_insert_refines [OF assms(1-4) _ _ assms(5-10), of keeps] by auto
  have ins: "bt_wf (degree_of p) h None None t' \<and> n' \<le> pages p + h \<and> bt_id t' = bt_id t \<and> inserted key v t (pages p) t' n'"
    using insert_wf [OF assms(9) at(3) assms(3) at(2) assms(4) _ _ assms(5-8)] by simp
  have filled: "bt_filled (degree_of p) t'"
    using insert_filled [OF assms(9) at(3) assms(3) at(2) assms(4) _ _ assms(5,14)] by simp
  have ids: "distinct (bt_ids t')" "ids_below t' n'"
    using ids_extend [OF _ at(4,5), of t' n'] ins assms(4) by (simp_all add: inserted_def)
  have up1: "pager_ok p1" "degree_of p1 = degree_of p" "pages p1 = n'" "free_page p1 = None" "holds p1 self' t'"
    "stored p1 (kid_nodes t')" "meta_root (pager_meta p1) = Some (bt_id t)" "unique_index (pager_meta p1)"
    "synced p1"
    using p1(2,3) assms(11,12,15) unfolding leaves_tree_def by (auto simp: updates_def degree_of_def)
  obtain p2 where p2: "pager_write_page self' p1 = (Inr (page_of (degree_of p) t'), p2)" "updates {bt_id t'} p1 p2" "page_in p2 t'"
    "pager_meta p2 = pager_meta p1"
    using write_tree [OF up1(1,5) _ ids_below_ok [OF ids(2)], of h None None] ins up1(2) by auto
  have st2: "stored p2 (bt_nodes t')"
    using updates_stored [OF p2(2) up1(6)] kid_id_ne [OF ids(1)] p2(3) by (simp add: stored_nodes)
  have "pager_ok p2" "synced p2" using p2(2) up1(9) by (simp_all add: updates_def)
  then obtain q where q: "save_metadata p2 = (Inr (), q)" "updates {} p2 q" "pager_meta q = pager_meta p2" "saved q" "synced q"
    using save_metadata_ok [of p2] by (auto simp: updates_def)
  note none = updates_none [OF q(2,3)]
  have pq: "pages q = n'" "free_page q = None" "degree_of q = degree_of p"
    using none(4-6) up1(2-4) p2(4) updates_degree [OF p2(2)] by (simp_all add: pages_def free_page_def)
  have "index_at q h t'"
    using none(3) [OF st2] pq ins ids filled q(2,3,5) p2(4) up1(7,8) at(2) assms(13)
    by (simp add: index_at_def updates_def inserted_def relinks_def)
  moreover have "io_bind (with_node self (node_insert keeps fuel key v (unique_index (pager_meta p)))) (\<lambda>(_, r).
      io_bind (from_pager (pager_write_page r)) (\<lambda>_. save_metadata)) p = (Inr (), q)"
    using with_node_ok [of "node_insert keeps fuel key v True", OF p1(1)] from_pager_ok [of "pager_write_page self'", OF p2(1)] q(1) assms(12)
    by (simp add: io_bind_def)
  ultimately show ?thesis using pq q(4) by blast
qed

lemma is_full_held:
  assumes "holds p self t" and "4 \<le> degree_of p"
  shows "is_full self = (Inr (bt_full (degree_of p) t) :: (bool, 'e) result)"
proof -
  obtain b where "self = (page_of (degree_of p) t)\<lparr>changed := b\<rparr>"
    using holds_cases [OF assms(1)] by blast
  then have "is_full self = (is_full (page_of (degree_of p) t) :: (bool, 'e) result)"
    by (simp add: is_full_def max_keys_def)
  then show ?thesis using assms(2) by simp
qed

text \<open>\<open>BTreeStore::insert\<close> on the tree, once the root page is read.\<close>

lemma insert_root_at:
  assumes "btree_root keeps p = (Inr self, p0)" and "index_at p0 h t" and "holds p0 self t"
    and free0: "free_page p0 = None" and bound: "pages p0 + h + 3 \<le> 2 ^ 31" and fresh: "key \<notin> bt_keys t"
    and key: "key \<noteq> i32_min" "fst v \<noteq> i32_min" "snd v \<noteq> i32_min" and fuel: "Suc h < fuel"
    and t': "bt_insert_root (degree_of p0) key v (h, t, pages p0) = (h', t', n')"
  shows "\<exists>q. btree_insert keeps fuel key v p = (Inr (), q) \<and> index_at q h' t' \<and> pages q = n' \<and> free_page q = None \<and>
    degree_of q = degree_of p0 \<and> saved q"
proof -
  have at0: "pager_ok p0" "4 \<le> degree_of p0" "bt_wf (degree_of p0) h None None t" "distinct (bt_ids t)"
    "ids_below t (pages p0)" "linked (bt_leaves t) None" "unique_index (pager_meta p0)"
    "meta_root (pager_meta p0) = Some (bt_id t)" "stored p0 (kid_nodes t)" "bt_filled (degree_of p0) t"
    "synced p0"
    using assms(2) by (simp_all add: index_at_def stored_nodes)
  have full: "is_full self = (Inr (bt_full (degree_of p0) t) :: (bool, btree_store_error) result)"
    by (rule is_full_held [OF assms(3) at0(2)])
  show ?thesis
  proof (cases "bt_full (degree_of p0) t")
    case False
    then have bt: "bt_insert (degree_of p0) h key v t (pages p0) = (t', n')" and h': "h' = h"
      using t' by (auto simp: bt_insert_root_def)
    have tree: "tree_at p0 self h None None t" using at0 assms(3) by (simp add: tree_at_def)
    have "pages p0 + h \<le> 2 ^ 31" "h < fuel" using bound fuel by simp_all
    then obtain q where "io_bind (with_node self (node_insert keeps fuel key v (unique_index (pager_meta p0)))) (\<lambda>(_, r).
        io_bind (from_pager (pager_write_page r)) (\<lambda>_. save_metadata)) p0 = (Inr (), q)"
      "index_at q h t'" "pages q = n'" "free_page q = None" "degree_of q = degree_of p0" "saved q"
      using insert_below_root [OF tree free0 False _ fresh key bt _ at0(8,7,6,10,11), of fuel keeps] by blast
    then show ?thesis
      using False full h' by (auto simp: btree_insert_def io_bind_def assms(1))
  next
    case True
    obtain l r k where lrk: "bt_split (usize_as_i32 (pages p0)) t = (l, r, k)" by (metis prod_cases3)
    let ?t1 = "BNode (usize_as_i32 (Suc (pages p0))) [k] [l, r]"
    have bt: "bt_insert (degree_of p0) (Suc h) key v ?t1 (Suc (Suc (pages p0))) = (t', n')" and h': "h' = Suc h"
      using t' True lrk by (auto simp: bt_insert_root_def simp del: bt_insert.simps)
    have room: "Suc (pages p0) < 2 ^ 31" using bound by simp
    obtain p1 self1 where p1: "split_root keeps self p0 = (Inr self1, p1)" "tree_at p1 self1 (Suc h) None None ?t1"
      "pages p1 = Suc (Suc (pages p0))" "free_page p1 = None" "degree_of p1 = degree_of p0"
      "meta_root (pager_meta p1) = Some (bt_id ?t1)" "unique_index (pager_meta p1)" "synced p1"
      using split_root_refines [OF assms(2,3) True free0 room lrk, of keeps] by blast
    note split = root_split_wf [OF lrk at0(3) True at0(2) room]
    have "\<not> bt_full (degree_of p1) ?t1" "pages p1 + Suc h \<le> 2 ^ 31" "key \<notin> bt_keys ?t1"
      using split bound p1(3,5) fresh by (simp_all del: bt_keys.simps)
    moreover have "bt_filled (degree_of p1) ?t1"
      using split_filled [OF lrk at0(3) True at0(2,10)] unfolding p1(5) filled_node .
    moreover have "linked (bt_leaves ?t1) None" using split at0(6) unfolding relinks_def by blast
    ultimately obtain q where "io_bind (with_node self1 (node_insert keeps fuel key v (unique_index (pager_meta p1)))) (\<lambda>(_, r).
        io_bind (from_pager (pager_write_page r)) (\<lambda>_. save_metadata)) p1 = (Inr (), q)"
      "index_at q (Suc h) t'" "pages q = n'" "free_page q = None" "degree_of q = degree_of p1" "saved q"
      using insert_below_root [OF p1(2,4) _ _ _ key _ fuel p1(6,7), where t' = t' and n' = n' and keeps = keeps] bt p1(3,5,8) by auto
    then show ?thesis
      using True full h' by (auto simp: btree_insert_def io_bind_def assms(1) p1(1,5))
  qed
qed

text \<open>\<open>BTreeStore::insert\<close> on the sorted list of entries.\<close>

lemma insert_index:
  assumes "index_of p h es K" and "free_page p = None" and "pages p + h + 4 \<le> 2 ^ 31"
    and "key \<notin> K" and "key \<noteq> i32_min" and "fst v \<noteq> i32_min" and "snd v \<noteq> i32_min" and "Suc h < fuel"
  shows "\<exists>q h'. btree_insert keeps fuel key v p = (Inr (), q) \<and>
    index_of q h' (insert_entry key v es) (insert key K) \<and> h' \<le> Suc h \<and>
    pages q \<le> pages p + h + 4 \<and> free_page q = None \<and> degree_of q = degree_of p \<and> saved q"
proof -
  obtain p0 self t where p0: "btree_root keeps p = (Inr self, p0)" "index_at p0 h t" "holds p0 self t"
    "es = bt_entries t" "K = bt_keys t" "free_page p0 = free_page p" "pages p0 \<le> Suc (pages p)"
    "degree_of p0 = degree_of p"
    using root_refines [OF assms(1), of keeps] by blast
  have at0: "4 \<le> degree_of p0" "bt_wf (degree_of p0) h None None t"
    using p0(2) by (simp_all add: index_at_def)
  have free0: "free_page p0 = None" using p0(6) assms(2) by simp
  have bound: "pages p0 + h + 3 \<le> 2 ^ 31" using p0(7) assms(3) by simp
  obtain h' t' n' where t': "bt_insert_root (degree_of p0) key v (h, t, pages p0) = (h', t', n')" by (metis prod_cases3)
  have fresh: "key \<notin> bt_keys t" using assms(4) p0(5) by simp
  have ins: "bt_wf (degree_of p0) h' None None t' \<and> h' \<le> Suc h \<and> n' \<le> pages p0 + h + 3 \<and>
      inserted key v t (pages p0) t' n'"
    using insert_root_wf [OF t' at0(2,1) bound fresh assms(5-7)] .
  obtain q where q: "btree_insert keeps fuel key v p = (Inr (), q)" "index_at q h' t'" "pages q = n'" "free_page q = None"
    "degree_of q = degree_of p0" "saved q"
    using insert_root_at [OF p0(1-3) free0 bound fresh assms(5-8) t'] by blast
  have "bt_entries t' = insert_entry key v es"
  proof (rule sorted_entries_unique)
    have "sorted_wrt (<) (map fst es)" using wf_sorted [OF at0(2)] p0(4) by simp
    then show "sorted_wrt (<) (map fst (insert_entry key v es))" by (rule sorted_insert_entry)
    show "sorted_wrt (<) (map fst (bt_entries t'))" using ins wf_sorted by blast
    have "key \<notin> fst ` set es" using fresh entries_keys [of t] p0(4) by blast
    then show "set (bt_entries t') = set (insert_entry key v es)"
      using ins p0(4) by (simp add: inserted_def set_insert_entry)
  qed
  then have "index_of q h' (insert_entry key v es) (insert key K)"
    using q(2) ins p0(5) unfolding index_of_def inserted_def by auto
  then show ?thesis
    using q ins p0(7,8) by auto
qed

end
