(* ===== verification/BTree_Lookup.thy ===== *)
theory BTree_Lookup
  imports BTree_Index
begin

text \<open>
  The lookups of \<open>src/src/tree/node.rs\<close> and \<open>src/src/tree/store.rs\<close>: the descent by
  \<open>find_node\<close> ends in the only leaf that can hold the key, and \<open>find\<close> returns the value the
  sorted list of entries has for it. A lookup changes nothing but the clock of the cache.
\<close>

section \<open>The leaf of a key\<close>

lemma search_descends:
  assumes "sorted_wrt (<) ks" and "ks \<noteq> []"
  shows "(case search_spec key ks of GreaterThanTheLast i \<Rightarrow> i + 1 | LessThan i \<Rightarrow> i | EqualAt i \<Rightarrow> i + 1) =
    child_pos key ks"
proof (cases "position (\<lambda>k. key \<le> k) ks")
  case None
  have "child_pos key ks = length ks"
    using None by (intro child_posI) (auto simp: position_None not_le intro: less_imp_le)
  then show ?thesis using None assms(2) by (simp add: search_spec_def)
next
  case (Some i)
  then have i: "i < length ks" "key \<le> ks ! i" "\<And>j. j < i \<Longrightarrow> ks ! j < key"
    by (auto simp: position_Some not_le)
  show ?thesis
  proof (cases "ks ! i = key")
    case True
    have "child_pos key ks = Suc i"
      using i True assms(1)
      by (intro child_posI) (auto simp: less_Suc_eq sorted_wrt_iff_nth_less intro: less_imp_le)
    then show ?thesis using Some True by (simp add: search_spec_def classify_def)
  next
    case False
    have "child_pos key ks = i"
      using i False by (intro child_posI) (auto intro: less_imp_le)
    then show ?thesis using Some False by (simp add: search_spec_def classify_def)
  qed
qed

lemma leaf_of_entry:
  "bt_wf d h lo hi t \<Longrightarrow> e \<in> set (bt_entries t) \<Longrightarrow> e \<in> set (bt_entries (bt_leaf h (fst e) t))"
proof (induction h arbitrary: lo hi t)
  case 0
  then obtain i es nl where "t = BLeaf i es nl" using wf_leaf by blast
  with 0 show ?case by simp
next
  case (Suc h)
  then obtain i ks cs where t: "t = BNode i ks cs" using wf_node by blast
  obtain j where j: "j < length cs" "e \<in> set (bt_entries (cs ! j))"
    using Suc.prems(2) by (auto simp: t in_set_conv_nth [of _ cs])
  then have le: "j \<le> length ks" using wf_kids_length [OF Suc.prems(1) [unfolded t]] by simp
  have wf: "bt_wf d h (lower lo ks j) (upper ks hi j) (cs ! j)" by (rule wf_child [OF Suc.prems(1) [unfolded t] le])
  have "sorted_wrt (<) ks" using Suc.prems(1) by (simp add: t separators_ok_def)
  then have "child_pos (fst e) ks = j"
    using entries_in_interval [OF wf j(2)] by (intro child_pos_unique [OF _ le]) auto
  then show ?case using Suc.IH [OF wf j(2)] by (simp add: t)
qed

lemma leaf_is_leaf:
  "bt_wf d h lo hi t \<Longrightarrow> \<exists>i es nl. bt_leaf h key t = BLeaf i es nl \<and> sorted_wrt (<) (map fst es) \<and>
     BLeaf i es nl \<in> set (bt_leaves t) \<and> BLeaf i es nl \<in> set (bt_nodes t)"
proof (induction h arbitrary: lo hi t)
  case 0
  then obtain i es nl where "t = BLeaf i es nl" using wf_leaf by blast
  with 0 show ?case by (simp add: entries_ok_def)
next
  case (Suc h)
  then obtain i ks cs where t: "t = BNode i ks cs" using wf_node by blast
  let ?j = "child_pos key ks"
  have wf: "bt_wf d h (lower lo ks ?j) (upper ks hi ?j) (cs ! ?j)"
    by (rule wf_child [OF Suc.prems [unfolded t] child_pos_le])
  have "cs ! ?j \<in> set cs"
    using wf_kids_length [OF Suc.prems [unfolded t]] child_pos_le [of key ks] by simp
  then show ?case using Suc.IH [OF wf] by (auto simp: t)
qed

lemma leaves_entries: "set (bt_entries l) \<subseteq> set (bt_entries t)" if "l \<in> set (bt_leaves t)"
  using that by (induction t) auto

lemma leaf_lookup:
  assumes "bt_wf d h lo hi t"
  shows "map_of (bt_entries (bt_leaf h key t)) key = map_of (bt_entries t) key"
proof -
  obtain i es nl where l: "bt_leaf h key t = BLeaf i es nl" "sorted_wrt (<) (map fst es)" "BLeaf i es nl \<in> set (bt_leaves t)"
    using leaf_is_leaf [OF assms] by blast
  have dist: "distinct (map fst (bt_entries t))" "distinct (map fst es)"
    using wf_sorted [OF assms] l(2) by (simp_all add: strict_sorted_iff)
  have "map_of es key = Some v \<longleftrightarrow> map_of (bt_entries t) key = Some v" for v
    using leaf_of_entry [OF assms, of "(key, v)"] leaves_entries [OF l(3)] l(1) dist by auto
  then show ?thesis by (metis bt_entries.simps(1) l(1) not_Some_eq)
qed

section \<open>The descent\<close>

lemma unchanged_index: "unchanged p q \<Longrightarrow> index_at p h t \<Longrightarrow> index_at q h t"
  using unchanged_keeps [of p q] by (auto simp: index_at_def unchanged_def) (simp add: updates_def)

lemma read_node_ok:
  assumes "pager_ok p" and "page_in p t"
  shows "\<exists>q. read_node keeps (bt_id t) p = (Inr (page_of (degree_of p) t), q) \<and> unchanged p q"
proof -
  obtain q where "pager_read_page keeps (bt_id t) p = (Inr (page_of (degree_of p) t), q)" "updates {} p q"
    "pager_meta q = pager_meta p"
    using read_tree [OF assms, of keeps] by blast
  then show ?thesis by (simp add: read_node_def io_map_err_def unchanged_def)
qed

lemma find_node_refines:
  assumes "bt_wf (degree_of p) h lo hi t" and "stored p (kid_nodes t)" and "pager_ok p" and "h < fuel"
    and "self = (page_of (degree_of p) t)\<lparr>changed := b\<rparr>"
  shows "\<exists>q. node_find_node keeps fuel key self p =
      (Inr (if key \<in> fst ` set (bt_entries (bt_leaf h key t)) then Some (bt_id (bt_leaf h key t)) else None), q) \<and>
    unchanged p q"
  using assms
proof (induction h arbitrary: lo hi t fuel self b p)
  case 0
  then obtain i es nl where t: "t = BLeaf i es nl" using wf_leaf by blast
  obtain f where f: "fuel = Suc f" using 0(4) by (cases fuel) simp_all
  have sorted: "sorted_wrt (<) (map fst es)" using 0(1) by (simp add: t entries_ok_def)
  have "key \<in> fst ` set es \<longleftrightarrow> (\<exists>i. position (\<lambda>k. key \<le> k) (map fst es) = Some i \<and> map fst es ! i = key)"
  proof
    assume "key \<in> fst ` set es"
    then obtain i where i: "i < length es" "map fst es ! i = key" by (auto simp: in_set_conv_nth)
    then have "position (\<lambda>k. key \<le> k) (map fst es) = Some i"
      using sorted by (auto simp: position_Some not_le sorted_wrt_iff_nth_less)
    then show "\<exists>i. position (\<lambda>k. key \<le> k) (map fst es) = Some i \<and> map fst es ! i = key" using i by blast
  next
    assume "\<exists>i. position (\<lambda>k. key \<le> k) (map fst es) = Some i \<and> map fst es ! i = key"
    then show "key \<in> fst ` set es" by (auto simp: position_Some)
  qed
  then show ?case
    using unchanged_refl [OF 0(3)] 0(5)
    by (auto simp: t f is_leaf_def binary_search_eq [OF sorted] search_spec_def classify_def split: option.splits)
next
  case (Suc h)
  then obtain i ks cs where t: "t = BNode i ks cs" using wf_node by blast
  let ?j = "child_pos key ks"
  obtain f where f: "fuel = Suc f" "h < f" using Suc.prems(4) by (cases fuel) simp_all
  have wf: "bt_wf (degree_of p) (Suc h) lo hi (BNode i ks cs)" using Suc.prems(1) by (simp add: t)
  have len: "length cs = Suc (length ks)" by (rule wf_kids_length [OF wf])
  have j: "?j < length cs" using len child_pos_le [of key ks] by simp
  have sorted: "sorted_wrt (<) ks" and ne: "ks \<noteq> []" using wf by (simp_all add: separators_ok_def)
  have st: "stored p (bt_nodes (cs ! ?j))"
    using Suc.prems(2) nth_mem [OF j] by (intro stored_child [of _ cs]) (simp_all add: t)
  obtain p1 where p1: "read_node keeps (bt_id (cs ! ?j)) p = (Inr (page_of (degree_of p) (cs ! ?j)), p1)" "unchanged p p1"
    using read_node_ok [OF Suc.prems(3), of "cs ! ?j" keeps] st by (auto simp: stored_nodes)
  note same = unchanged_keeps [OF p1(2)]
  have cw: "bt_wf (degree_of p1) h (lower lo ks ?j) (upper ks hi ?j) (cs ! ?j)"
    using wf_child [OF wf child_pos_le] by (simp add: same(3))
  have cst: "stored p1 (kid_nodes (cs ! ?j))" using same(2) st by (simp add: stored_nodes)
  have self: "page_of (degree_of p) (cs ! ?j) = (page_of (degree_of p1) (cs ! ?j))\<lparr>changed := False\<rparr>"
    by (cases "cs ! ?j") (simp_all add: same(3))
  obtain q where q: "node_find_node keeps f key (page_of (degree_of p) (cs ! ?j)) p1 =
      (Inr (if key \<in> fst ` set (bt_entries (bt_leaf h key (cs ! ?j))) then Some (bt_id (bt_leaf h key (cs ! ?j))) else None), q)"
    "unchanged p1 q"
    using Suc.IH [OF cw cst same(1) f(2) self] by blast
  have at: "index_get (map bt_id cs) ?j = (Inr (bt_id (cs ! ?j)) :: (i32, node_operation_error) result)"
    using j by (simp add: index_get_def)
  have "node_find_node keeps fuel key self p = node_find_node keeps f key (page_of (degree_of p) (cs ! ?j)) p1"
  proof -
    have leaf: "\<not> is_leaf self" and ks: "keys self = ks" and kids: "children self = map bt_id cs"
      using len Suc.prems(5) by (auto simp: t is_leaf_def)
    show ?thesis
      using search_descends [OF sorted ne, of key] at p1(1)
      by (simp add: f(1) Let_def leaf ks kids binary_search_eq [OF sorted] io_bind_def split: find_key_response.splits)
  qed
  then show ?case
    using q unchanged_trans [OF p1(2) q(2)] by (simp add: t)
qed

lemma position_lookup:
  "position (\<lambda>k. k = key) (map fst es) = Some i \<Longrightarrow> i < length es \<and> map_of es key = Some (snd (es ! i))"
  "position (\<lambda>k. k = key) (map fst es) = None \<Longrightarrow> map_of es key = None"
  by (induction es arbitrary: i) (auto split: if_splits)

section \<open>Lookup\<close>

lemma find_value_refines:
  assumes "index_at p h t" and "holds p self t" and "h < fuel"
  shows "\<exists>q. node_find_value keeps fuel key self p = (Inr (map_of (bt_entries t) key), q) \<and> unchanged p q"
proof -
  have at: "pager_ok p" "bt_wf (degree_of p) h None None t" "stored p (bt_nodes t)"
    using assms(1) by (simp_all add: index_at_def)
  have kids: "stored p (kid_nodes t)" using at(3) by (simp add: stored_nodes)
  obtain b where self: "self = (page_of (degree_of p) t)\<lparr>changed := b\<rparr>"
    using holds_cases [OF assms(2)] by blast
  obtain i es nl where l: "bt_leaf h key t = BLeaf i es nl" "BLeaf i es nl \<in> set (bt_nodes t)"
    using leaf_is_leaf [OF at(2)] by blast
  have look: "map_of (bt_entries t) key = map_of es key"
    using leaf_lookup [OF at(2), of key] l(1) by simp
  obtain p1 where p1: "node_find_node keeps fuel key self p = (Inr (if key \<in> fst ` set es then Some i else None), p1)" "unchanged p p1"
    using find_node_refines [OF at(2) kids at(1) assms(3) self, of keeps key] l(1) by auto
  note same = unchanged_keeps [OF p1(2)]
  show ?thesis
  proof (cases "key \<in> fst ` set es")
    case False
    then have "map_of es key = None" by (simp add: map_of_eq_None_iff)
    then show ?thesis using p1 False look by (simp add: node_find_value_def io_bind_def)
  next
    case True
    have "page_in p1 (BLeaf i es nl)" using same(2) [OF at(3)] l(2) by (simp add: stored_def)
    then obtain q where q: "read_node keeps i p1 = (Inr (page_of (degree_of p) (BLeaf i es nl)), q)" "unchanged p1 q"
      using read_node_ok [OF same(1), of "BLeaf i es nl" keeps] same(3) by auto
    obtain j where j: "position (\<lambda>k. k = key) (map fst es) = Some j"
      using True position_None [of "\<lambda>k. k = key" "map fst es"] by (cases "position (\<lambda>k. k = key) (map fst es)") auto
    have "node_find_value keeps fuel key self p = (Inr (map_of es key), q)"
      using p1(1) True q(1) j position_lookup(1) [OF j]
      by (simp add: node_find_value_def io_bind_def index_get_def)
    then show ?thesis using look unchanged_trans [OF p1(2) q(2)] by auto
  qed
qed

lemma find_index:
  assumes "index_of p h es K" and "h < fuel"
  shows "\<exists>q. btree_find keeps fuel key p = (Inr (map_of es key), q) \<and> index_of q h es K \<and>
    free_page q = free_page p \<and> pages q \<le> Suc (pages p) \<and> (pages p \<noteq> 0 \<longrightarrow> pages q = pages p) \<and> degree_of q = degree_of p"
proof -
  obtain p0 self t where p0: "btree_root keeps p = (Inr self, p0)" "index_at p0 h t" "holds p0 self t"
    "es = bt_entries t" "K = bt_keys t" "free_page p0 = free_page p" "pages p0 \<le> Suc (pages p)"
    "pages p \<noteq> 0 \<longrightarrow> pages p0 = pages p" "degree_of p0 = degree_of p"
    using root_refines [OF assms(1), of keeps] by blast
  obtain q where q: "node_find_value keeps fuel key self p0 = (Inr (map_of es key), q)" "unchanged p0 q"
    using find_value_refines [OF p0(2,3) assms(2), of keeps key] p0(4) by auto
  note same = unchanged_keeps [OF q(2)]
  have "index_of q h es K"
    using unchanged_index [OF q(2) p0(2)] p0(4,5) by (auto simp: index_of_def)
  moreover have "btree_find keeps fuel key p = (Inr (map_of es key), q)"
    using p0(1) q(1) by (simp add: btree_find_def io_bind_def from_node_def io_map_err_def)
  ultimately show ?thesis
    using same(3-5) p0(6-9) by auto
qed

end
