(* ===== verification/BTree_Deletion.thy ===== *)
theory BTree_Deletion
  imports BTree_Insertion
begin

text \<open>
  Deletion from a tree. Rebalancing below a page moves the border between two children or merges
  them; the entries stay, and the key to delete is in the interval of the child it returns. A merge
  takes a key from the page, so the lemmas are about the children of a page (\<open>kids_wf\<close>) and the
  page itself may be left without keys, which only the root can be when the other pages are filled
  to at least one key less than the minimum.
\<close>

section \<open>Two neighbours\<close>

text \<open>Two neighbours and the separator between them, seen from the page without it.\<close>

lemma insert_removed: "m < length ks \<Longrightarrow> insert_at m (ks ! m) (remove_at m ks) = ks"
  and insert_updated: "m < length ks \<Longrightarrow> insert_at m k (remove_at m ks) = ks[m := k]"
  and length_remove_at: "m < length ks \<Longrightarrow> length (remove_at m ks) = length ks - 1"
  by (simp_all add: remove_at_def insert_at_removed insert_at_updated)

lemma bounds_removed:
  assumes "m < length ks"
  shows "lower lo (remove_at m ks) m = lower lo ks m" and "upper (remove_at m ks) hi m = upper ks hi (Suc m)"
  using assms by (auto simp: remove_at_def lower_def upper_def nth_append)

lemma pair_split:
  assumes "Suc m < length cs"
  shows "cs = take m cs @ [cs ! m, cs ! Suc m] @ drop (Suc (Suc m)) cs"
  using assms by (metis Cons_nth_drop_Suc Suc_lessD append.simps append_take_drop_id)

lemma kids_pair:
  assumes "kids_wf d h lo ks hi cs" and "m < length ks"
  defines "I \<equiv> intervals lo (remove_at m ks) hi"
  shows "above (lower lo ks m) (ks ! m)" and "below (ks ! m) (upper ks hi (Suc m))" and "ks ! m \<noteq> i32_min"
    and "bt_wf d h (lower lo ks m) (Some (ks ! m)) (cs ! m)"
    and "bt_wf d h (Some (ks ! m)) (upper ks hi (Suc m)) (cs ! Suc m)"
    and "list_all2 (\<lambda>(a, b). bt_wf d h a b) (take m I) (take m cs)"
    and "list_all2 (\<lambda>(a, b). bt_wf d h a b) (drop (Suc m) I) (drop (Suc (Suc m)) cs)"
proof -
  let ?P = "\<lambda>(a, b). bt_wf d h a b"
  have len: "length cs = Suc (length ks)" by (rule kids_length [OF assms(1)])
  have sep: "separators_ok lo ks hi" using assms(1) by (simp add: kids_wf_def)
  have "separators_ok lo (take m ks @ ks ! m # drop (Suc m) ks) hi"
    using sep assms(2) by (simp add: id_take_nth_drop [symmetric])
  then have parts: "separators_ok lo (take m ks) (Some (ks ! m))" "separators_ok (Some (ks ! m)) (drop (Suc m) ks) hi"
    "above lo (ks ! m)" "below (ks ! m) hi" "ks ! m \<noteq> i32_min"
    by (simp_all add: separators_append)
  then show "ks ! m \<noteq> i32_min" by simp
  have sorted: "sorted_wrt (<) ks" using sep by (simp add: separators_ok_def)
  show "above (lower lo ks m) (ks ! m)"
    using parts(3) sorted assms(2) by (auto simp: lower_def sorted_wrt_iff_nth_less)
  show "below (ks ! m) (upper ks hi (Suc m))"
    using parts(4) sorted assms(2) by (auto simp: upper_def sorted_wrt_iff_nth_less)
  show "bt_wf d h (lower lo ks m) (Some (ks ! m)) (cs ! m)"
    using kid_wf [OF assms(1), of m] assms(2) by (simp add: upper_def)
  show "bt_wf d h (Some (ks ! m)) (upper ks hi (Suc m)) (cs ! Suc m)"
    using kid_wf [OF assms(1), of "Suc m"] assms(2) by (simp add: lower_def)
  have all: "list_all2 ?P (intervals lo ks hi) cs" using assms(1) by (simp add: kids_wf_def)
  have iv: "intervals lo ks hi = take m I @ (lower lo ks m, Some (ks ! m)) # (Some (ks ! m), upper ks hi (Suc m)) # drop (Suc m) I"
    using intervals_insert [of m "remove_at m ks" lo "ks ! m" hi] assms(2)
    by (simp add: insert_removed bounds_removed length_remove_at I_def)
  have I: "length (take m I) = m" using assms(2) by (simp add: I_def length_remove_at)
  have "take m (intervals lo ks hi) = take m I" "drop (Suc (Suc m)) (intervals lo ks hi) = drop (Suc m) I"
    using I by (simp_all add: iv)
  then show "list_all2 ?P (take m I) (take m cs)" "list_all2 ?P (drop (Suc m) I) (drop (Suc (Suc m)) cs)"
    using list_all2_takeI [OF all, of m] list_all2_dropI [OF all, of "Suc (Suc m)"] by simp_all
qed

text \<open>Both neighbours change, or one page takes the place of both.\<close>

lemma kids_put_pair:
  assumes "kids_wf d h lo ks hi cs" and "m < length ks"
    and "bt_wf d h (lower lo ks m) (Some k) l" and "bt_wf d h (Some k) (upper ks hi (Suc m)) r"
    and "above (lower lo ks m) k" and "below k (upper ks hi (Suc m))" and "k \<noteq> i32_min"
  shows "kids_wf d h lo (ks[m := k]) hi (take m cs @ [l, r] @ drop (Suc (Suc m)) cs)"
proof -
  let ?P = "\<lambda>(a, b). bt_wf d h a b" and ?I = "intervals lo (remove_at m ks) hi"
  note pair = kids_pair [OF assms(1,2)]
  have len: "m \<le> length (remove_at m ks)" using assms(2) by (simp add: length_remove_at)
  have "separators_ok lo (remove_at m ks) hi"
    using assms(1) separators_remove by (simp add: kids_wf_def remove_at_def)
  then have sep: "separators_ok lo (ks[m := k]) hi"
    using separators_insert [OF _ len, of lo hi k] assms(2,5-7)
    by (simp add: bounds_removed insert_updated)
  have iv: "intervals lo (ks[m := k]) hi = take m ?I @ [(lower lo ks m, Some k), (Some k, upper ks hi (Suc m))] @ drop (Suc m) ?I"
    using intervals_insert [OF len, of lo k hi] assms(2) by (simp add: bounds_removed insert_updated)
  have "list_all2 ?P (intervals lo (ks[m := k]) hi) (take m cs @ [l, r] @ drop (Suc (Suc m)) cs)"
    unfolding iv using pair(6,7) assms(3,4) by (intro list_all2_appendI) simp_all
  then show ?thesis using sep assms(1) by (simp add: kids_wf_def)
qed

lemma kids_put_one:
  assumes "kids_wf d h lo ks hi cs" and "m < length ks"
    and "bt_wf d h (lower lo ks m) (upper ks hi (Suc m)) c"
  shows "kids_wf d h lo (remove_at m ks) hi (take m cs @ [c] @ drop (Suc (Suc m)) cs)"
proof -
  let ?P = "\<lambda>(a, b). bt_wf d h a b" and ?I = "intervals lo (remove_at m ks) hi"
  note pair = kids_pair [OF assms(1,2)]
  have len: "m < length ?I" using assms(2) by (simp add: length_remove_at)
  have "?I ! m = (lower lo ks m, upper ks hi (Suc m))"
    using assms(2) by (subst intervals_nth) (simp_all add: length_remove_at bounds_removed)
  then have iv: "?I = take m ?I @ [(lower lo ks m, upper ks hi (Suc m))] @ drop (Suc m) ?I"
    using len id_take_nth_drop [OF len] by simp
  have "list_all2 ?P ?I (take m cs @ [c] @ drop (Suc (Suc m)) cs)"
    by (subst iv) (use pair(6,7) assms(3) in \<open>intro list_all2_appendI; simp\<close>)
  moreover have "separators_ok lo (remove_at m ks) hi"
    using assms(1) separators_remove by (simp add: kids_wf_def remove_at_def)
  ultimately show ?thesis
    using assms(1,2) by (auto simp: kids_wf_def length_remove_at)
qed

section \<open>Moving the border\<close>

lemma entries_join:
  assumes "entries_ok lo es (Some k)" and "entries_ok (Some k) es' hi" and "above lo k" and "below k hi"
  shows "entries_ok lo (es @ es') hi"
proof -
  have "fst e < fst e'" if "e \<in> set es" "e' \<in> set es'" for e e'
    using assms(1,2) that unfolding entries_ok_def by (fastforce intro: less_le_trans [of _ k])
  moreover have "below (fst e) hi" if "e \<in> set es" for e
    using assms(1,4) that below_trans [of "fst e" k hi] unfolding entries_ok_def by fastforce
  moreover have "not_below lo (fst e)" if "e \<in> set es'" for e
  proof (rule not_below_trans [OF above_not_below [OF assms(3)]])
    show "k \<le> fst e" using assms(2) that unfolding entries_ok_def by fastforce
  qed
  ultimately show ?thesis
    using assms(1,2) unfolding entries_ok_def by (auto simp: sorted_wrt_append)
qed

lemma kids_join:
  assumes "kids_wf d h lo ks (Some k) cs" and "kids_wf d h (Some k) ks' hi cs'"
    and "above lo k" and "below k hi" and "k \<noteq> i32_min"
  shows "separators_ok lo (ks @ k # ks') hi"
    and "list_all2 (\<lambda>(a, b). bt_wf d h a b) (intervals lo (ks @ k # ks') hi) (cs @ cs')"
  using assms by (auto simp: kids_wf_def separators_append intervals_append intro: list_all2_appendI)

lemma resplit_wf:
  assumes "bt_resplit m l k r = (l', r', k')"
    and "bt_wf d h lo (Some k) l" and "bt_wf d h (Some k) hi r" and "above lo k" and "below k hi" and "k \<noteq> i32_min"
    and "0 < m" and "m < bt_width l + bt_width r" and "m < d" and "bt_width l + bt_width r - m < d"
  shows "bt_wf d h lo (Some k') l' \<and> bt_wf d h (Some k') hi r' \<and> above lo k' \<and> below k' hi \<and> k' \<noteq> i32_min"
proof (cases h)
  case 0
  then obtain i es nl j es' nl' where lr: "l = BLeaf i es nl" "r = BLeaf j es' nl'"
    using assms(2,3) wf_leaf by metis
  let ?all = "es @ es'"
  have "entries_ok lo ?all hi"
    using entries_join [of lo es k es' hi] assms(2-5) 0 by (simp add: lr)
  then show ?thesis
    using entries_split [of lo ?all hi m] assms 0 by (auto simp: lr Let_def simp del: take_append drop_append)
next
  case (Suc g)
  then obtain i ks cs j ks' cs' where lr: "l = BNode i ks cs" "r = BNode j ks' cs'"
    using assms(2,3) wf_node by metis
  let ?all = "ks @ k # ks'" and ?kids = "cs @ cs'"
  have kids: "kids_wf d g lo ks (Some k) cs" "kids_wf d g (Some k) ks' hi cs'"
    using assms(2,3) by (simp_all add: lr Suc wf_node_kids del: bt_wf.simps)
  have res: "l' = BNode i (take m ?all) (take (m + 1) ?kids)" "r' = BNode j (drop (m + 1) ?all) (drop (m + 1) ?kids)" "k' = ?all ! m"
    using assms(1) by (simp_all add: lr Let_def del: take_append drop_append)
  have "m < length ?all" "length ?all - (m + 1) < d" using assms(8,10) by (simp_all add: lr)
  note cut = kids_cut [OF kids_join [OF kids assms(4-6)] this(1) assms(9) this(2)]
  have "take m ?all \<noteq> []" "drop (m + 1) ?all \<noteq> []" using assms(7,8) by (auto simp: lr)
  then show ?thesis
    using cut unfolding res Suc wf_node_kids by blast
qed

lemma merge_wf:
  assumes "bt_wf d h lo (Some k) l" and "bt_wf d h (Some k) hi r" and "above lo k" and "below k hi" and "k \<noteq> i32_min"
    and "bt_width l + bt_width r + 1 < d"
  shows "bt_wf d h lo hi (bt_merge l k r)"
proof (cases h)
  case 0
  then obtain i es nl j es' nl' where lr: "l = BLeaf i es nl" "r = BLeaf j es' nl'"
    using assms(1,2) wf_leaf by metis
  then show ?thesis using entries_join [of lo es k es' hi] assms 0 by simp
next
  case (Suc g)
  then obtain i ks cs j ks' cs' where lr: "l = BNode i ks cs" "r = BNode j ks' cs'"
    using assms(1,2) wf_node by metis
  have kids: "kids_wf d g lo ks (Some k) cs" "kids_wf d g (Some k) ks' hi cs'"
    using assms(1,2) by (simp_all add: lr Suc wf_node_kids del: bt_wf.simps)
  show ?thesis
    using kids_join [OF kids assms(3-5)] assms(6) by (simp add: lr Suc)
qed

section \<open>What is kept\<close>

lemma filled_from:
  "set (bt_kids u) \<subseteq> set (bt_kids a) \<union> set (bt_kids b) \<Longrightarrow> bt_filled d a \<Longrightarrow> bt_filled d b \<Longrightarrow> bt_filled d u"
  unfolding filled_kids [of d u] filled_kids [of d a] filled_kids [of d b] by blast

text \<open>What two neighbours and what replaces them have in common.\<close>

definition same_contents :: "btree list \<Rightarrow> btree list \<Rightarrow> bool" where
  "same_contents ts us \<longleftrightarrow>
     concat (map bt_entries us) = concat (map bt_entries ts) \<and>
     (\<Sum>t \<in># mset us. mset (bt_ids t)) \<subseteq># (\<Sum>t \<in># mset ts. mset (bt_ids t)) \<and>
     relinks (concat (map bt_leaves ts)) (concat (map bt_leaves us))"

lemma set_take_drop: "set xs = set (take n xs) \<union> set (drop n xs)"
  by (metis append_take_drop_id set_append)

lemma concat_take_drop: "concat (map f (take n xs)) @ concat (map f (drop n xs)) = concat (map f xs)"
  by (simp only: concat_append [symmetric] map_append [symmetric] append_take_drop_id)

lemma mset_take_drop: "mset xs = mset (take n xs) + mset (drop n xs)"
  by (metis append_take_drop_id mset_append)

lemma resplit_same:
  assumes "bt_resplit m l k r = (l', r', k')" and "bt_wf d h lo (Some k) l" and "bt_wf d h (Some k) hi r"
    and "m < bt_width l + bt_width r"
  shows "bt_id l' = bt_id l" and "bt_id r' = bt_id r" and "bt_width l' = m" and "bt_width r' = bt_width l + bt_width r - m"
    and "bt_keys l' \<union> bt_keys r' \<union> {k'} \<subseteq> bt_keys l \<union> bt_keys r \<union> {k}"
    and "same_contents [l, r] [l', r']"
    and "set (bt_kids l') \<union> set (bt_kids r') = set (bt_kids l) \<union> set (bt_kids r)"
    and "m < bt_width l \<Longrightarrow> k' \<le> k" and "bt_width l < m \<Longrightarrow> k \<le> k'"
    and "mset (bt_ids l') + mset (bt_ids r') = mset (bt_ids l) + mset (bt_ids r)"
proof -
  have "bt_id l' = bt_id l \<and> bt_id r' = bt_id r \<and> bt_width l' = m \<and> bt_width r' = bt_width l + bt_width r - m \<and>
    bt_keys l' \<union> bt_keys r' \<union> {k'} \<subseteq> bt_keys l \<union> bt_keys r \<union> {k} \<and>
    same_contents [l, r] [l', r'] \<and>
    set (bt_kids l') \<union> set (bt_kids r') = set (bt_kids l) \<union> set (bt_kids r) \<and>
    (m < bt_width l \<longrightarrow> k' \<le> k) \<and> (bt_width l < m \<longrightarrow> k \<le> k') \<and>
    mset (bt_ids l') + mset (bt_ids r') = mset (bt_ids l) + mset (bt_ids r)"
  proof (cases h)
    case 0
    then obtain i es nl j es' nl' where lr: "l = BLeaf i es nl" "r = BLeaf j es' nl'"
      using assms(2,3) wf_leaf by metis
    define all where "all = es @ es'"
    have res: "l' = BLeaf i (take m all) nl" "r' = BLeaf j (drop m all) nl'" "k' = fst (all ! m)"
      using assms(1) by (simp_all add: lr Let_def all_def del: take_append drop_append)
    have m: "m < length all" using assms(4) by (simp add: lr all_def)
    have "set all = set (take m all) \<union> set (drop m all)" by (rule set_take_drop)
    moreover have "set all = set es \<union> set es'" by (simp add: all_def)
    moreover have "all ! m \<in> set all" using m by simp
    ultimately have "bt_keys l' \<union> bt_keys r' \<union> {k'} \<subseteq> bt_keys l \<union> bt_keys r \<union> {k}"
      by (auto simp: res lr)
    moreover have "same_contents [l, r] [l', r']"
      by (simp add: same_contents_def res lr relinks_def all_def [symmetric])
    moreover have "k' < k" if "m < length es"
    proof -
      have "es ! m \<in> set es" using that by simp
      then show ?thesis
        using entries_in_interval [OF assms(2), of "es ! m"] that by (simp add: lr res(3) all_def nth_append)
    qed
    moreover have "k \<le> k'" if "length es < m"
    proof -
      have "es' ! (m - length es) \<in> set es'" using that m by (intro nth_mem) (simp add: all_def)
      then show ?thesis
        using entries_in_interval [OF assms(3), of "es' ! (m - length es)"] that by (simp add: lr res(3) all_def nth_append)
    qed
    ultimately show ?thesis
      using m by (auto simp: res lr all_def intro: less_imp_le)
  next
    case (Suc g)
    then obtain i ks cs j ks' cs' where lr: "l = BNode i ks cs" "r = BNode j ks' cs'"
      using assms(2,3) wf_node by metis
    define all where "all = ks @ k # ks'"
    define kids where "kids = cs @ cs'"
    have res: "l' = BNode i (take m all) (take (m + 1) kids)" "r' = BNode j (drop (m + 1) all) (drop (m + 1) kids)" "k' = all ! m"
      using assms(1) by (simp_all add: lr Let_def all_def kids_def del: take_append drop_append)
    have m: "m < length all" using assms(4) by (simp add: lr all_def)
    have sep: "\<And>x. x \<in> set ks \<Longrightarrow> x < k" "\<And>x. x \<in> set ks' \<Longrightarrow> k < x"
      using assms(2,3) Suc by (simp_all add: lr separators_ok_def)
    have "set all = insert k' (set (take m all) \<union> set (drop (m + 1) all))"
      using set_list_parts [OF m] by (simp add: res(3))
    moreover have "set all = insert k (set ks \<union> set ks')" by (simp add: all_def)
    moreover have kids: "set kids = set (take (m + 1) kids) \<union> set (drop (m + 1) kids)" by (rule set_take_drop)
    moreover have kids': "set kids = set cs \<union> set cs'" by (simp add: kids_def)
    ultimately have "bt_keys l' \<union> bt_keys r' \<union> {k'} \<subseteq> bt_keys l \<union> bt_keys r \<union> {k}"
      by (auto simp: res lr)
    moreover have ids: "mset (bt_ids l') + mset (bt_ids r') = mset (bt_ids l) + mset (bt_ids r)"
    proof -
      have "mset cs + mset cs' = mset (take (m + 1) kids) + mset (drop (m + 1) kids)"
        using mset_take_drop [of kids "m + 1"] by (simp add: kids_def)
      then have "(\<Sum>c \<in># mset cs + mset cs'. mset (bt_ids c)) =
          (\<Sum>c \<in># mset (take (m + 1) kids) + mset (drop (m + 1) kids). mset (bt_ids c))" by simp
      then show ?thesis unfolding res(1,2) lr mset_ids_node by simp
    qed
    moreover have "same_contents [l, r] [l', r']"
      using ids concat_take_drop [of bt_entries "m + 1" kids] concat_take_drop [of bt_leaves "m + 1" kids]
      by (simp add: same_contents_def res(1,2) lr) (simp add: kids_def)
    moreover have "k' \<le> k" if "m < length ks"
      using sep(1) [of "ks ! m"] that by (simp add: res(3) all_def nth_append)
    moreover have "k \<le> k'" if "length ks < m"
    proof -
      have "ks' ! (m - Suc (length ks)) \<in> set ks'" using that m by (intro nth_mem) (simp add: all_def)
      then show ?thesis using sep(2) that by (auto simp: res(3) all_def nth_append nth_Cons' intro: less_imp_le)
    qed
    moreover have "set (bt_kids l') \<union> set (bt_kids r') = set (bt_kids l) \<union> set (bt_kids r)"
      using kids kids' by (simp add: res lr)
    ultimately show ?thesis
      using m by (simp add: res(1,2) lr) (simp add: all_def)
  qed
  then show "bt_id l' = bt_id l" and "bt_id r' = bt_id r" and "bt_width l' = m" and "bt_width r' = bt_width l + bt_width r - m"
    and "bt_keys l' \<union> bt_keys r' \<union> {k'} \<subseteq> bt_keys l \<union> bt_keys r \<union> {k}"
    and "same_contents [l, r] [l', r']"
    and "set (bt_kids l') \<union> set (bt_kids r') = set (bt_kids l) \<union> set (bt_kids r)"
    and "m < bt_width l \<Longrightarrow> k' \<le> k" and "bt_width l < m \<Longrightarrow> k \<le> k'"
    and "mset (bt_ids l') + mset (bt_ids r') = mset (bt_ids l) + mset (bt_ids r)"
    by blast+
qed

lemma merge_same:
  assumes "bt_wf d h lo (Some k) l" and "bt_wf d h (Some k) hi r"
  shows "bt_id (bt_merge l k r) = bt_id l"
    and "bt_width l + bt_width r \<le> bt_width (bt_merge l k r)"
    and "bt_keys (bt_merge l k r) \<subseteq> bt_keys l \<union> bt_keys r \<union> {k}"
    and "same_contents [l, r] [bt_merge l k r]"
    and "set (bt_kids (bt_merge l k r)) = set (bt_kids l) \<union> set (bt_kids r)"
    and "mset (bt_ids l) + mset (bt_ids r) = add_mset (bt_id r) (mset (bt_ids (bt_merge l k r)))"
proof -
  have "bt_id (bt_merge l k r) = bt_id l \<and> bt_width l + bt_width r \<le> bt_width (bt_merge l k r) \<and>
    bt_keys (bt_merge l k r) \<subseteq> bt_keys l \<union> bt_keys r \<union> {k} \<and> same_contents [l, r] [bt_merge l k r] \<and>
    set (bt_kids (bt_merge l k r)) = set (bt_kids l) \<union> set (bt_kids r) \<and>
    mset (bt_ids l) + mset (bt_ids r) = add_mset (bt_id r) (mset (bt_ids (bt_merge l k r)))"
  proof (cases h)
    case 0
    then obtain i es nl j es' nl' where lr: "l = BLeaf i es nl" "r = BLeaf j es' nl'"
      using assms wf_leaf by metis
    then show ?thesis by (auto simp: same_contents_def relinks_def)
  next
    case (Suc g)
    then obtain i ks cs j ks' cs' where lr: "l = BNode i ks cs" "r = BNode j ks' cs'"
      using assms wf_node by metis
    have "mset (bt_ids l) + mset (bt_ids r) = add_mset (bt_id r) (mset (bt_ids (bt_merge l k r)))"
      unfolding lr bt_merge.simps mset_ids_node by simp
    then show ?thesis by (auto simp: same_contents_def lr)
  qed
  then show "bt_id (bt_merge l k r) = bt_id l"
    and "bt_width l + bt_width r \<le> bt_width (bt_merge l k r)"
    and "bt_keys (bt_merge l k r) \<subseteq> bt_keys l \<union> bt_keys r \<union> {k}"
    and "same_contents [l, r] [bt_merge l k r]"
    and "set (bt_kids (bt_merge l k r)) = set (bt_kids l) \<union> set (bt_kids r)"
    and "mset (bt_ids l) + mset (bt_ids r) = add_mset (bt_id r) (mset (bt_ids (bt_merge l k r)))"
    by blast+
qed

section \<open>Rebalancing\<close>

lemma kids_of_pair:
  fixes i :: i32
  assumes "Suc m < length cs" and "same_contents [cs ! m, cs ! Suc m] us"
    and "set ks' \<union> (\<Union>u \<in> set us. bt_keys u) \<subseteq> set ks \<union> bt_keys (cs ! m) \<union> bt_keys (cs ! Suc m)"
  defines "t \<equiv> BNode i ks cs" and "t' \<equiv> BNode i ks' (take m cs @ us @ drop (Suc (Suc m)) cs)"
  shows "bt_entries t' = bt_entries t" and "mset (bt_ids t') \<subseteq># mset (bt_ids t)"
    and "relinks (bt_leaves t) (bt_leaves t')" and "bt_keys t' \<subseteq> bt_keys t"
proof -
  let ?as = "take m cs" and ?bs = "drop (Suc (Suc m)) cs" and ?pair = "[cs ! m, cs ! Suc m]"
  have t: "t = BNode i ks (?as @ ?pair @ ?bs)"
    unfolding t_def using pair_split [OF assms(1)] by simp
  have same: "concat (map bt_entries us) = concat (map bt_entries ?pair)"
    "(\<Sum>t \<in># mset us. mset (bt_ids t)) \<subseteq># (\<Sum>t \<in># mset ?pair. mset (bt_ids t))"
    "relinks (concat (map bt_leaves ?pair)) (concat (map bt_leaves us))"
    using assms(2) unfolding same_contents_def by blast+
  show "bt_entries t' = bt_entries t" using same(1) unfolding t t'_def by simp
  show "mset (bt_ids t') \<subseteq># mset (bt_ids t)"
    using same(2) unfolding t t'_def mset_ids_parts
    by (simp only: mset_subset_eq_add_mset_cancel add.assoc mset_subset_eq_mono_add_left_cancel mset_subset_eq_mono_add_right_cancel)
  show "relinks (bt_leaves t) (bt_leaves t')" using same(3) unfolding t t'_def by (rule relinks_kids)
  have "set cs = set ?as \<union> set ?pair \<union> set ?bs" using pair_split [OF assms(1)] by (metis set_append sup_assoc)
  then show "bt_keys t' \<subseteq> bt_keys t" using assms(3) by (auto simp: t_def t'_def)
qed

lemma pair_updated:
  assumes "Suc m < length cs"
  shows "cs[m := l, Suc m := r] = take m cs @ [l, r] @ drop (Suc (Suc m)) cs"
    and "(remove_at (Suc m) cs)[m := l] = take m cs @ [l] @ drop (Suc (Suc m)) cs"
proof -
  have "cs[m := l, Suc m := r] = (take m cs @ [cs ! m, cs ! Suc m] @ drop (Suc (Suc m)) cs)[m := l, Suc m := r]"
    using pair_split [OF assms] by simp
  then show "cs[m := l, Suc m := r] = take m cs @ [l, r] @ drop (Suc (Suc m)) cs"
    using assms by (simp add: list_update_append)
  have "take (Suc m) cs = take m cs @ [cs ! m]" using assms by (simp add: take_Suc_conv_app_nth)
  then show "(remove_at (Suc m) cs)[m := l] = take m cs @ [l] @ drop (Suc (Suc m)) cs"
    using assms by (simp add: remove_at_def list_update_append)
qed

text \<open>What rebalancing achieves.\<close>

definition rebalanced :: "nat \<Rightarrow> nat \<Rightarrow> i32 option \<Rightarrow> i32 option \<Rightarrow> i32 \<Rightarrow> i32 list \<Rightarrow> btree list \<Rightarrow>
    i32 list \<Rightarrow> btree list \<Rightarrow> nat \<Rightarrow> bool" where
  "rebalanced d h lo hi key ks cs ks' cs' j \<longleftrightarrow>
     kids_wf d h lo ks' hi cs' \<and> j \<le> length ks' \<and> length ks \<le> Suc (length ks') \<and>
     not_below (lower lo ks' j) key \<and> below key (upper ks' hi j) \<and>
     \<not> bt_underfull d (cs' ! j) \<and> kids_filled d cs' \<and>
     (\<forall>i. bt_entries (BNode i ks' cs') = bt_entries (BNode i ks cs) \<and>
        mset (bt_ids (BNode i ks' cs')) \<subseteq># mset (bt_ids (BNode i ks cs)) \<and>
        relinks (bt_leaves (BNode i ks cs)) (bt_leaves (BNode i ks' cs')) \<and>
        bt_keys (BNode i ks' cs') \<subseteq> bt_keys (BNode i ks cs))"

text \<open>Two neighbours around the border moved to \<open>w\<close>; the child \<open>j\<close> is one of them.\<close>

lemma borrow_rebalanced:
  assumes "kids_wf d h lo ks hi cs" and "kids_filled d cs" and "m < length ks"
    and "bt_resplit w (cs ! m) (ks ! m) (cs ! Suc m) = (l, r, k)"
    and "0 < w" and "w < bt_width (cs ! m) + bt_width (cs ! Suc m)" and "w < d"
    and "bt_width (cs ! m) + bt_width (cs ! Suc m) - w < d"
    and "d div 2 - 2 \<le> w" and "d div 2 - 2 \<le> bt_width (cs ! m) + bt_width (cs ! Suc m) - w"
    and "not_below (lower lo ks j) key" and "below key (upper ks hi j)"
    and "(j = m \<and> bt_width (cs ! m) < w \<and> d div 2 - 1 \<le> w) \<or>
      (j = Suc m \<and> w < bt_width (cs ! m) \<and> d div 2 - 1 \<le> bt_width (cs ! m) + bt_width (cs ! Suc m) - w)"
  shows "rebalanced d h lo hi key ks cs (ks[m := k]) (cs[m := l, Suc m := r]) j"
proof -
  let ?cs = "take m cs @ [l, r] @ drop (Suc (Suc m)) cs"
  have len: "length cs = Suc (length ks)" by (rule kids_length [OF assms(1)])
  have m: "Suc m < length cs" using assms(3) len by simp
  note pair = kids_pair [OF assms(1,3)]
  have new: "bt_wf d h (lower lo ks m) (Some k) l \<and> bt_wf d h (Some k) (upper ks hi (Suc m)) r \<and>
      above (lower lo ks m) k \<and> below k (upper ks hi (Suc m)) \<and> k \<noteq> i32_min"
    by (rule resplit_wf [OF assms(4) pair(4,5,1,2,3) assms(5-8)])
  note same = resplit_same [OF assms(4) pair(4,5) assms(6)]
  have cs: "cs[m := l, Suc m := r] = ?cs" by (rule pair_updated(1) [OF m])
  have wf: "kids_wf d h lo (ks[m := k]) hi ?cs"
    using new by (intro kids_put_pair [OF assms(1,3)]) blast+
  have nth: "?cs ! m = l" "?cs ! Suc m = r" using m by (simp_all add: nth_append)
  have iv: "not_below (lower lo (ks[m := k]) j) key \<and> below key (upper (ks[m := k]) hi j) \<and> \<not> bt_underfull d (?cs ! j)"
    using assms(13)
  proof
    assume j: "j = m \<and> bt_width (cs ! m) < w \<and> d div 2 - 1 \<le> w"
    then have "key < k" using assms(12) same(9) assms(3) by (auto simp: upper_def)
    moreover have "lower lo (ks[m := k]) m = lower lo ks m" by (simp add: lower_def)
    ultimately show ?thesis
      using j assms(3,11) nth(1) same(3) by (simp add: upper_def bt_underfull_def not_less)
  next
    assume j: "j = Suc m \<and> w < bt_width (cs ! m) \<and> d div 2 - 1 \<le> bt_width (cs ! m) + bt_width (cs ! Suc m) - w"
    then have "k \<le> key" using assms(11) same(8) assms(3) by (auto simp: lower_def)
    moreover have "upper (ks[m := k]) hi (Suc m) = upper ks hi (Suc m)" by (simp add: upper_def)
    ultimately show ?thesis
      using j assms(3,12) nth(2) same(4) by (simp add: lower_def bt_underfull_def not_less)
  qed
  have "set ?cs = insert l (insert r (set (take m cs) \<union> set (drop (Suc (Suc m)) cs)))" by simp
  moreover have old: "cs ! m \<in> set cs" "cs ! Suc m \<in> set cs" using m by simp_all
  then have "bt_filled d (cs ! m)" "bt_filled d (cs ! Suc m)" using assms(2) by (simp_all add: kids_filled_def)
  then have "bt_filled d l" "bt_filled d r" using same(7) filled_from by blast+
  ultimately have filled: "kids_filled d ?cs"
    using assms(2,9,10) same(3,4) by (auto simp: kids_filled_def dest: in_set_takeD in_set_dropD)
  have "set (ks[m := k]) \<union> (\<Union>u \<in> set [l, r]. bt_keys u) \<subseteq> set ks \<union> bt_keys (cs ! m) \<union> bt_keys (cs ! Suc m)"
    using same(5) set_update_subset_insert [of ks m k] nth_mem [OF assms(3)] by auto
  note contents = kids_of_pair [OF m same(6) this]
  show ?thesis
    unfolding rebalanced_def cs using wf iv filled contents assms(3,13) len by auto
qed

lemma merge_rebalanced:
  assumes "kids_wf d h lo ks hi cs" and "kids_filled d cs" and "m < length ks"
    and "bt_width (cs ! m) + bt_width (cs ! Suc m) + 1 < d"
    and "d div 2 - 1 \<le> bt_width (cs ! m) + bt_width (cs ! Suc m)"
    and "j = m \<or> j = Suc m" and "not_below (lower lo ks j) key" and "below key (upper ks hi j)"
  shows "rebalanced d h lo hi key ks cs (remove_at m ks)
    ((remove_at (Suc m) cs)[m := bt_merge (cs ! m) (ks ! m) (cs ! Suc m)]) m"
proof -
  let ?c = "bt_merge (cs ! m) (ks ! m) (cs ! Suc m)"
  let ?cs = "take m cs @ [?c] @ drop (Suc (Suc m)) cs"
  have len: "length cs = Suc (length ks)" by (rule kids_length [OF assms(1)])
  have m: "Suc m < length cs" using assms(3) len by simp
  note pair = kids_pair [OF assms(1,3)]
  note same = merge_same [OF pair(4,5)]
  have cs: "(remove_at (Suc m) cs)[m := ?c] = ?cs" by (rule pair_updated(2) [OF m])
  have wf: "kids_wf d h lo (remove_at m ks) hi ?cs"
    by (rule kids_put_one [OF assms(1,3) merge_wf [OF pair(4,5,1,2,3) assms(4)]])
  have iv: "not_below (lower lo ks m) key \<and> below key (upper ks hi (Suc m))"
    using assms(6)
  proof
    assume "j = m"
    then have "not_below (lower lo ks m) key" "key < ks ! m" using assms(3,7,8) by (simp_all add: upper_def)
    then show ?thesis using below_trans [OF _ pair(2)] by blast
  next
    assume "j = Suc m"
    then have "below key (upper ks hi (Suc m))" "ks ! m \<le> key" using assms(7,8) by (simp_all add: lower_def)
    then show ?thesis using not_below_trans [OF above_not_below [OF pair(1)]] by blast
  qed
  have nth: "?cs ! m = ?c" using m by (simp add: nth_append)
  have wide: "\<not> bt_underfull d ?c" using assms(5) same(2) by (simp add: bt_underfull_def)
  have old: "cs ! m \<in> set cs" "cs ! Suc m \<in> set cs" using m by simp_all
  then have "bt_filled d (cs ! m)" "bt_filled d (cs ! Suc m)" using assms(2) by (simp_all add: kids_filled_def)
  then have "bt_filled d ?c" using same(5) filled_from by blast
  then have filled: "kids_filled d ?cs"
    using assms(2,5) same(2) by (auto simp: kids_filled_def dest: in_set_takeD in_set_dropD)
  have "set (remove_at m ks) \<subseteq> set ks" by (auto simp: remove_at_def dest: in_set_takeD in_set_dropD)
  then have "set (remove_at m ks) \<union> (\<Union>u \<in> set [?c]. bt_keys u) \<subseteq> set ks \<union> bt_keys (cs ! m) \<union> bt_keys (cs ! Suc m)"
    using same(3) nth_mem [OF assms(3)] by auto
  note contents = kids_of_pair [OF m same(4) this]
  have "m \<le> length ks - 1 \<and> length ks \<le> Suc (length ks - 1)" using assms(3) by linarith
  then show ?thesis
    unfolding rebalanced_def cs
    using wf iv filled contents assms(3) wide nth by (simp add: bounds_removed length_remove_at)
qed

lemma wf_width: "bt_wf d h lo hi t \<Longrightarrow> bt_width t < d"
  by (cases t; cases h) simp_all

lemma rebalance:
  assumes "bt_rebalance d ks cs (child_pos key ks) = (ks', cs', j)"
    and "kids_wf d h lo ks hi cs" and "ks \<noteq> []" and "kids_filled d cs" and "6 \<le> d"
    and "not_below lo key" and "below key hi"
  shows "rebalanced d h lo hi key ks cs ks' cs' j"
proof -
  define i where "i = child_pos key ks"
  define D where "D = d div 2"
  have D: "3 \<le> D" "2 * D \<le> d" using assms(5) by (auto simp: D_def)
  have i: "i \<le> length ks" by (simp add: i_def child_pos_le)
  have len: "length cs = Suc (length ks)" by (rule kids_length [OF assms(2)])
  note iv = child_pos_interval [OF assms(6,7), of ks, folded i_def]
  have wide: "bt_width (cs ! m) < d" "D - 2 \<le> bt_width (cs ! m)" if "m \<le> length ks" for m
    using wf_width [OF kid_wf [OF assms(2) that]] assms(4) that len
    by (auto simp: kids_filled_def D_def)
  consider (fine) "\<not> bt_underfull d (cs ! i)"
    | (left) m where "bt_underfull d (cs ! i)" "i = Suc m" "bt_can_lend d (cs ! m)"
    | (right) "bt_underfull d (cs ! i)" "i = 0 \<or> \<not> bt_can_lend d (cs ! (i - 1))" "i < length ks" "bt_can_lend d (cs ! Suc i)"
    | (merge_left) m where "bt_underfull d (cs ! i)" "i = Suc m" "\<not> bt_can_lend d (cs ! m)"
        "\<not> (i < length ks \<and> bt_can_lend d (cs ! Suc i))"
    | (merge_right) "bt_underfull d (cs ! i)" "i = 0" "i < length ks" "\<not> bt_can_lend d (cs ! Suc i)"
    using i assms(3) by (cases i) auto
  then show ?thesis
  proof cases
    case fine
    then have "ks' = ks" "cs' = cs" "j = i" using assms(1) by (auto simp: bt_rebalance_def i_def)
    then show ?thesis using fine assms(2,4) i iv by (simp add: rebalanced_def)
  next
    case (left m)
    let ?w = "bt_width (cs ! m)"
    obtain l r k where res: "bt_resplit (?w - 1) (cs ! m) (ks ! m) (cs ! Suc m) = (l, r, k)" by (metis prod_cases3)
    have out: "ks' = ks[m := k]" "cs' = cs[m := l, Suc m := r]" "j = Suc m"
      using assms(1) left res by (auto simp: bt_rebalance_def i_def [symmetric] Let_def)
    have w: "D - 1 < ?w" "bt_width (cs ! Suc m) < D - 1" using left by (simp_all add: bt_can_lend_def bt_underfull_def D_def)
    show ?thesis
      unfolding out using w D wide [of m] wide [of "Suc m"] i iv left
      by (intro borrow_rebalanced [OF assms(2,4) _ res]) (auto simp: D_def [symmetric])
  next
    case right
    let ?w = "bt_width (cs ! i)"
    obtain l r k where res: "bt_resplit (?w + 1) (cs ! i) (ks ! i) (cs ! Suc i) = (l, r, k)" by (metis prod_cases3)
    have out: "ks' = ks[i := k]" "cs' = cs[i := l, Suc i := r]" "j = i"
      using assms(1) right res len by (auto simp: bt_rebalance_def i_def [symmetric] Let_def)
    have w: "?w < D - 1" "D - 1 < bt_width (cs ! Suc i)" using right by (simp_all add: bt_can_lend_def bt_underfull_def D_def)
    show ?thesis
      unfolding out using w D wide [of i] wide [of "Suc i"] right i iv
      by (intro borrow_rebalanced [OF assms(2,4) _ res]) (auto simp: D_def [symmetric])
  next
    case (merge_left m)
    have out: "ks' = remove_at m ks" "cs' = (remove_at (Suc m) cs)[m := bt_merge (cs ! m) (ks ! m) (cs ! Suc m)]" "j = m"
      using assms(1) merge_left len by (auto simp: bt_rebalance_def i_def [symmetric] Let_def)
    have w: "\<not> D - 1 < bt_width (cs ! m)" "bt_width (cs ! Suc m) < D - 1"
      using merge_left by (simp_all add: bt_can_lend_def bt_underfull_def D_def)
    show ?thesis
      unfolding out using w D wide [of m] wide [of "Suc m"] i iv merge_left
      by (intro merge_rebalanced [OF assms(2,4), where j = i]) (auto simp: D_def [symmetric])
  next
    case merge_right
    have out: "ks' = remove_at i ks" "cs' = (remove_at (Suc i) cs)[i := bt_merge (cs ! i) (ks ! i) (cs ! Suc i)]" "j = i"
      using assms(1) merge_right len by (auto simp: bt_rebalance_def i_def [symmetric] Let_def)
    have w: "bt_width (cs ! i) < D - 1" "\<not> D - 1 < bt_width (cs ! Suc i)"
      using merge_right by (simp_all add: bt_can_lend_def bt_underfull_def D_def)
    show ?thesis
      unfolding out using w D wide [of i] wide [of "Suc i"] i iv merge_right
      by (intro merge_rebalanced [OF assms(2,4), where j = i]) (auto simp: D_def [symmetric])
  qed
qed

section \<open>Deletion\<close>

text \<open>An entry is in the child whose interval has its key.\<close>

lemma entry_child:
  assumes "kids_wf d h lo ks hi cs" and "j \<le> length ks"
    and "not_below (lower lo ks j) (fst e)" and "below (fst e) (upper ks hi j)"
    and "m < length cs" and "e \<in> set (bt_entries (cs ! m))"
  shows "m = j"
proof -
  have m: "m \<le> length ks" using assms(5) kids_length [OF assms(1)] by simp
  have "sorted_wrt (<) ks" using assms(1) by (simp add: kids_wf_def separators_ok_def)
  note unique = child_pos_unique [OF this]
  have "child_pos (fst e) ks = m"
    using entries_in_interval [OF kid_wf [OF assms(1) m] assms(6)] by (intro unique [OF m]) auto
  then show ?thesis using unique [OF assms(2-4)] by simp
qed

lemma child_lookup:
  assumes "kids_wf d h lo ks hi cs" and "j \<le> length ks"
    and "not_below (lower lo ks j) key" and "below key (upper ks hi j)"
  shows "map_of (bt_entries (BNode i ks cs)) key = map_of (bt_entries (cs ! j)) key"
proof -
  have j: "j < length cs" using assms(2) kids_length [OF assms(1)] by simp
  let ?before = "concat (map bt_entries (take j cs))" and ?after = "concat (map bt_entries (drop (Suc j) cs))"
  have "fst e \<noteq> key" if e: "e \<in> set ?before \<union> set ?after" for e
  proof
    assume key: "fst e = key"
    obtain c where "c \<in> set (take j cs) \<union> set (drop (Suc j) cs)" "e \<in> set (bt_entries c)"
      using e by auto
    then obtain m where "m < length cs" "m \<noteq> j" "e \<in> set (bt_entries (cs ! m))"
      by (auto simp: in_set_conv_nth [of c] nth_append) (metis Suc_n_not_le_n add_Suc_right add_leD1 le_add1 less_diff_conv add.commute add_Suc)
    then show False using entry_child [OF assms(1,2) _ _ \<open>m < length cs\<close>, of e] assms(3,4) key by simp
  qed
  then have "key \<notin> fst ` set ?before" "key \<notin> fst ` set ?after" by blast+
  then have "map_of ?before key = None" "map_of ?after key = None"
    unfolding map_of_eq_None_iff .
  moreover have "bt_entries (BNode i ks cs) = ?before @ bt_entries (cs ! j) @ ?after"
    by (subst split_at [OF j]) simp
  ultimately show ?thesis by (simp add: map_add_def split: option.split)
qed

definition removed :: "i32 \<Rightarrow> btree \<Rightarrow> btree \<Rightarrow> bool" where
  "removed key t t' \<longleftrightarrow>
     set (bt_entries t') = {e \<in> set (bt_entries t). fst e \<noteq> key} \<and> bt_keys t' \<subseteq> bt_keys t \<and>
     mset (bt_ids t') \<subseteq># mset (bt_ids t) \<and> relinks (bt_leaves t) (bt_leaves t')"

lemma entries_filter: "entries_ok lo es hi \<Longrightarrow> entries_ok lo (filter P es) hi"
  by (auto simp: entries_ok_def sorted_wrt_filter sorted_wrt_map)

text \<open>The tree below a page; only the page itself may lose its last key.\<close>

lemma delete_wf:
  assumes "bt_wf d h lo hi t" and "bt_filled d t" and "6 \<le> d" and "not_below lo key" and "below key hi"
  shows "bt_id (bt_delete d h key t) = bt_id t \<and> removed key t (bt_delete d h key t) \<and>
    bt_filled d (bt_delete d h key t) \<and> bt_width t \<le> Suc (bt_width (bt_delete d h key t)) \<and>
    (bt_width (bt_delete d h key t) \<noteq> 0 \<or> h = 0 \<longrightarrow> bt_wf d h lo hi (bt_delete d h key t)) \<and>
    (\<forall>i ks cs. bt_delete d h key t = BNode i ks cs \<longrightarrow> kids_wf d (h - 1) lo ks hi cs)"
  using assms
proof (induction h arbitrary: lo hi t)
  case 0
  then obtain i es nl where t: "t = BLeaf i es nl" using wf_leaf by blast
  let ?es = "filter (\<lambda>e. fst e \<noteq> key) es"
  have ok: "entries_ok lo es hi" and nl: "nl \<noteq> Some i32_min" and l: "length es < d"
    using 0(1) by (simp_all add: t)
  have "length es \<le> Suc (length ?es)"
  proof -
    have "distinct (map fst es)" using ok by (simp add: entries_ok_def strict_sorted_iff)
    moreover have "length (filter (\<lambda>k. \<not> k \<noteq> key) xs) \<le> 1" if "distinct xs" for xs
      using that by (induction xs) (auto simp: filter_empty_conv)
    ultimately have "length (filter (\<lambda>k. \<not> k \<noteq> key) (map fst es)) \<le> 1" by blast
    moreover have "length (filter (\<lambda>k. \<not> k \<noteq> key) (map fst es)) = length (filter (\<lambda>e. \<not> fst e \<noteq> key) es)"
      by (simp add: filter_map o_def)
    ultimately show ?thesis
      using sum_length_filter_compl [of "\<lambda>e. fst e \<noteq> key" es] by linarith
  qed
  then show ?case
    using entries_filter [OF ok] nl l by (auto simp: t removed_def relinks_def intro: le_less_trans [OF length_filter_le])
next
  case (Suc h)
  then obtain i ks cs where t: "t = BNode i ks cs" using wf_node by blast
  obtain ks' cs' j where reb: "bt_rebalance d ks cs (child_pos key ks) = (ks', cs', j)" by (metis prod_cases3)
  let ?c = "bt_delete d h key (cs' ! j)" and ?t1 = "BNode i ks' cs'"
  let ?t' = "BNode i ks' (cs'[j := ?c])"
  have t': "bt_delete d (Suc h) key t = ?t'" by (simp add: t reb)
  have kids: "kids_wf d h lo ks hi cs" and ne: "ks \<noteq> []" using Suc.prems(1) by (simp_all add: t wf_node_kids del: bt_wf.simps)
  have filled: "kids_filled d cs" using Suc.prems(2) by (simp add: t kids_filled_def)
  have R: "rebalanced d h lo hi key ks cs ks' cs' j"
    by (rule rebalance [OF reb kids ne filled Suc.prems(3-5)])
  have wf1: "kids_wf d h lo ks' hi cs'" and j: "j \<le> length ks'" and short: "length ks \<le> Suc (length ks')"
    and iv: "not_below (lower lo ks' j) key" "below key (upper ks' hi j)"
    and full: "\<not> bt_underfull d (cs' ! j)" and filled1: "kids_filled d cs'"
    and same: "bt_entries ?t1 = bt_entries t" "mset (bt_ids ?t1) \<subseteq># mset (bt_ids t)"
      "relinks (bt_leaves t) (bt_leaves ?t1)" "bt_keys ?t1 \<subseteq> bt_keys t"
    using R unfolding rebalanced_def t by blast+
  have jc: "j < length cs'" using kids_length [OF wf1] j by simp
  have cw: "bt_wf d h (lower lo ks' j) (upper ks' hi j) (cs' ! j)" by (rule kid_wf [OF wf1 j])
  have cf: "bt_filled d (cs' ! j)" using filled1 jc by (simp add: kids_filled_def)
  note IH = Suc.IH [OF cw cf Suc.prems(3) iv]
  have width: "d div 2 - 2 \<le> bt_width ?c" "bt_width ?c \<noteq> 0 \<or> h = 0"
    using IH full Suc.prems(3) by (auto simp: bt_underfull_def)
  then have cw': "bt_wf d h (lower lo ks' j) (upper ks' hi j) ?c" using IH by blast
  have wf': "kids_wf d h lo ks' hi (cs'[j := ?c])" by (rule kids_replace [OF wf1 j cw'])
  have "kids_filled d (cs'[j := ?c])"
    using filled1 IH width(1) set_list_update [OF jc, of ?c]
    by (auto simp: kids_filled_def dest: in_set_takeD in_set_dropD)
  moreover have "removed key t ?t'"
  proof -
    have entries: "set (bt_entries (BNode i ks' xs)) = (\<Union>m < length xs. set (bt_entries (xs ! m)))" for xs
    proof -
      have "set xs = (!) xs ` {..<length xs}" by (auto simp: set_conv_nth)
      then show ?thesis by simp
    qed
    have c: "set (bt_entries ?c) = {e \<in> set (bt_entries (cs' ! j)). fst e \<noteq> key}"
      using IH unfolding removed_def by blast
    have "e \<in> set (bt_entries (cs'[j := ?c] ! m)) \<longleftrightarrow> e \<in> set (bt_entries (cs' ! m)) \<and> fst e \<noteq> key"
      if "m < length cs'" for m e
    proof (cases "m = j")
      case False
      then have "\<not> (e \<in> set (bt_entries (cs' ! m)) \<and> fst e = key)"
        using entry_child [OF wf1 j _ _ that, of e] iv by auto
      with False show ?thesis by (simp add: nth_list_update_neq) blast
    qed (use c jc in simp)
    then have "set (bt_entries ?t') = {e \<in> set (bt_entries ?t1). fst e \<noteq> key}"
      unfolding entries length_list_update by blast
    moreover have "bt_keys ?t' \<subseteq> bt_keys ?t1"
      using IH set_list_update [OF jc, of ?c] set_list_parts [OF jc] by (auto simp: removed_def)
    moreover have "mset (bt_ids ?t') \<subseteq># mset (bt_ids ?t1)"
      unfolding mset_ids_node mset_list_parts(1) [OF jc] using IH mset_list_parts(2) [OF jc]
      by (simp add: removed_def)
    moreover have "relinks (bt_leaves ?t1) (bt_leaves ?t')"
      using IH by (intro relinks_child [OF jc]) (simp add: removed_def)
    ultimately show ?thesis
      using same unfolding removed_def by (auto elim: relinks_trans intro: subset_mset.order_trans simp del: bt_entries.simps bt_keys.simps bt_leaves.simps)
  qed
  ultimately show ?case
    unfolding t' using wf' short by (auto simp: t kids_filled_def kids_wf_def)
qed

end
