(* ===== verification/BTree_Delete_Refine.thy ===== *)
theory BTree_Delete_Refine
  imports BTree_Insert_Refine BTree_Deletion
begin

text \<open>
  \<open>delete\<close> of \<open>src/src/tree/node.rs\<close> refines the deletion from the tree value: the siblings
  of an underfull child are read, one of them lends an entry or is merged with the child, the pages
  that changed are written, and the deletion goes on in the child.
\<close>

section \<open>Siblings\<close>

lemma distinct_sub:
  assumes "mset xs \<subseteq># mset ys" and "distinct ys"
  shows "distinct (xs :: 'a list)"
proof -
  have "count (mset xs) a \<le> 1" for a
  proof -
    have "count (mset ys) a \<le> 1" using assms(2) unfolding distinct_count_atmost_1 by (metis order_refl zero_le_one)
    then show ?thesis using mset_subset_eq_count [OF assms(1), of a] by simp
  qed
  then show ?thesis
    unfolding distinct_count_atmost_1 by (metis count_mset_0_iff le_Suc_eq le_zero_eq One_nat_def)
qed

lemma ids_sub:
  assumes "mset (bt_ids t') \<subseteq># mset (bt_ids t)"
  shows "distinct (bt_ids t) \<Longrightarrow> distinct (bt_ids t')" and "ids_below t n \<Longrightarrow> ids_below t' n"
    and "set (bt_ids t') \<subseteq> set (bt_ids t)"
  using distinct_sub [OF assms] set_mset_mono [OF assms] by (auto simp: ids_below_def)

lemma read_sibling_ok:
  assumes "tree_below p self (BNode i ks cs)" and "n < length cs" and "1 \<le> degree_of p div 2"
  shows "\<exists>q. read_sibling keeps True n (self, p) =
      (Inr (Some (page_of (degree_of p) (cs ! n), bt_can_lend (degree_of p) (cs ! n))), (self, q)) \<and> unchanged p q"
proof -
  let ?D = "degree_of p"
  have okp: "pager_ok p" and st: "stored p (concat (map bt_nodes cs))" and hold: "holds p self (BNode i ks cs)"
    using assms(1) by (simp_all add: tree_below_def)
  obtain b where self: "self = (page_of ?D (BNode i ks cs))\<lparr>changed := b\<rparr>" using holds_cases [OF hold] by blast
  have "page_in p (cs ! n)" using stored_child [OF st nth_mem [OF assms(2)]] by (simp add: stored_nodes)
  then obtain q where q: "pager_read_page keeps (bt_id (cs ! n)) p = (Inr (page_of ?D (cs ! n)), q)" "updates {} p q"
    "pager_meta q = pager_meta p"
    using read_tree [OF okp, of "cs ! n" keeps] by blast
  have lend: "can_lend_keys (page_of ?D (cs ! n)) = (Inr (bt_can_lend ?D (cs ! n)) :: (bool, node_operation_error) result)"
    using assms(3) by (simp add: can_lend_keys_def min_keys_def usize_sub_def bt_can_lend_def)
  have at: "index_get (map bt_id cs) n = (Inr (bt_id (cs ! n)) :: (i32, node_operation_error) result)"
    using assms(2) by (simp add: index_get_def)
  have "on_pager (pager_read_page keeps (bt_id (cs ! n))) (self, p) = (Inr (page_of ?D (cs ! n)), (self, q))"
    using q(1) by (rule on_pager_ok)
  then show ?thesis
    using q(2,3) at lend by (simp add: read_sibling_def io_bind_def self unchanged_def)
qed

lemma read_no_sibling [simp]: "read_sibling keeps False n s = (Inr None, s)"
  by (simp add: read_sibling_def)

text \<open>Both pages of a pair are written.\<close>

lemma write_two_ok:
  assumes "pager_ok p" and "degree_of p = D" and "bt_wf D h a b x" and "bt_wf D h' a' b' y" and "ids_ok x" and "ids_ok y"
    and "bt_id x \<noteq> bt_id y"
  shows "\<exists>q. write_two ((page_of D x)\<lparr>changed := True\<rparr>) ((page_of D y)\<lparr>changed := True\<rparr>) (self, p) =
      (Inr (page_of D x), (self, q)) \<and>
    updates {bt_id x, bt_id y} p q \<and> page_in q x \<and> page_in q y \<and> pager_meta q = pager_meta p"
proof -
  obtain p1 where p1: "pager_write_page ((page_of D x)\<lparr>changed := True\<rparr>) p = (Inr (page_of D x), p1)" "updates {bt_id x} p p1"
    "page_in p1 x" "pager_meta p1 = pager_meta p"
    using write_tree [OF assms(1) holds_changed [of p x] _ assms(5), of h a b] assms(2,3) by auto
  have D1: "degree_of p1 = D" and ok1: "pager_ok p1"
    using updates_degree [OF p1(2)] assms(2) p1(2) by (simp_all add: updates_def)
  obtain q where q: "pager_write_page ((page_of D y)\<lparr>changed := True\<rparr>) p1 = (Inr (page_of D y), q)" "updates {bt_id y} p1 q"
    "page_in q y" "pager_meta q = pager_meta p1"
    using write_tree [OF ok1 holds_changed [of p1 y] _ assms(6), of h' a' b'] assms(4) D1 by auto
  have "page_in q x" using updates_page_in [OF q(2) _ p1(3)] assms(7) by simp
  moreover have "updates {bt_id x, bt_id y} p q" using updates_trans [OF p1(2) q(2)] by (simp add: insert_commute)
  moreover have "write_two ((page_of D x)\<lparr>changed := True\<rparr>) ((page_of D y)\<lparr>changed := True\<rparr>) (self, p) =
      (Inr (page_of D x), (self, q))"
    using on_pager_ok [of "pager_write_page ((page_of D x)\<lparr>changed := True\<rparr>)", OF p1(1)]
      on_pager_ok [of "pager_write_page ((page_of D y)\<lparr>changed := True\<rparr>)", OF q(1)]
    by (simp add: write_two_def io_bind_def)
  ultimately show ?thesis using q(3,4) p1(4) by auto
qed

text \<open>
  Two neighbours are replaced in the file by the pages \<open>us\<close>, whose ids they have; what the other
  children hold stays.
\<close>

lemma apart_from_pair:
  assumes "X \<subseteq> A' \<union> B'" and "a \<notin> A'" and "b \<notin> B'" and "a \<in> A" and "b \<in> B" and "A' \<subseteq> A" and "B' \<subseteq> B"
    and "U \<subseteq> {a, b}" and "A \<inter> B = {}"
  shows "X \<inter> U = {}"
proof (rule ccontr)
  assume "X \<inter> U \<noteq> {}"
  then obtain x where "x \<in> A' \<or> x \<in> B'" "x = a \<or> x = b" using assms(1,8) by blast
  then show False using assms(2-7,9) by blast
qed

lemma replaced_pair:
  assumes "tree_below p self (BNode i ks cs)" and "Suc m < length cs"
    and "updates (bt_id ` set us) p q" and "pages q = pages p"
    and "\<And>u. u \<in> set us \<Longrightarrow> page_in q u"
    and "\<And>u. u \<in> set us \<Longrightarrow> bt_id u \<in> {bt_id (cs ! m), bt_id (cs ! Suc m)}"
    and "(\<Union>u \<in> set us. set (bt_kids u)) = set (bt_kids (cs ! m)) \<union> set (bt_kids (cs ! Suc m))"
    and "mset (bt_ids (BNode i ks' (take m cs @ us @ drop (Suc (Suc m)) cs))) \<subseteq># mset (bt_ids (BNode i ks cs))"
  defines "t' \<equiv> BNode i ks' (take m cs @ us @ drop (Suc (Suc m)) cs)"
  shows "tree_below q ((page_of (degree_of p) t')\<lparr>changed := True\<rparr>) t'"
    and "leaves_tree p (BNode i ks cs) ((page_of (degree_of p) t')\<lparr>changed := True\<rparr>) q t' (pages p)"
proof -
  let ?t = "BNode i ks cs" and ?as = "take m cs" and ?bs = "drop (Suc (Suc m)) cs"
  have dist: "distinct (bt_ids ?t)" and below: "ids_below ?t (pages p)" and st: "stored p (concat (map bt_nodes cs))"
    using assms(1) by (simp_all add: tree_below_def)
  have cs: "cs = ?as @ [cs ! m, cs ! Suc m] @ ?bs" by (rule pair_split [OF assms(2)])
  then have "distinct (i # concat (map bt_ids (?as @ [cs ! m, cs ! Suc m] @ ?bs)))"
    using dist by (simp add: ids_node_list)
  note parts = this
  have rest: "set (bt_ids c) \<inter> (set (bt_ids (cs ! m)) \<union> set (bt_ids (cs ! Suc m))) = {}" if "c \<in> set ?as \<union> set ?bs" for c
    using parts that by fastforce
  have inner: "set (bt_ids (cs ! m)) \<inter> set (bt_ids (cs ! Suc m)) = {}" "distinct (bt_ids (cs ! m))" "distinct (bt_ids (cs ! Suc m))"
    using parts by auto
  have ids: "bt_id ` set us \<subseteq> {bt_id (cs ! m), bt_id (cs ! Suc m)}" using assms(6) by blast
  then have ids_in: "bt_id ` set us \<subseteq> set (bt_ids (cs ! m)) \<union> set (bt_ids (cs ! Suc m))"
    using id_in_ids [of "cs ! m"] id_in_ids [of "cs ! Suc m"] by auto
  have old: "stored q (bt_nodes c)" if c: "c \<in> set ?as \<union> set ?bs" for c
  proof (rule updates_nodes [OF assms(3)])
    show "stored p (bt_nodes c)" using c by (intro stored_child [OF st]) (auto dest: in_set_takeD in_set_dropD)
    show "set (bt_ids c) \<inter> bt_id ` set us = {}"
      using rest [OF c] ids_in by (meson disjoint_iff subsetD)
  qed
  have kid: "stored q (bt_nodes c)" if c: "c \<in> set (bt_kids (cs ! m)) \<union> set (bt_kids (cs ! Suc m))" for c
  proof (rule updates_nodes [OF assms(3)])
    have "stored p (bt_nodes (cs ! m))" "stored p (bt_nodes (cs ! Suc m))"
      using assms(2) by (auto intro!: stored_child [OF st])
    then show "stored p (bt_nodes c)"
      using c stored_concat [of p "bt_kids (cs ! m)"] stored_concat [of p "bt_kids (cs ! Suc m)"]
      unfolding stored_nodes [of p "cs ! m"] stored_nodes [of p "cs ! Suc m"] kid_nodes_def by blast
    have "set (bt_ids c) \<subseteq> bt_id ` set (kid_nodes (cs ! m)) \<union> bt_id ` set (kid_nodes (cs ! Suc m))"
      using c by (auto simp: kid_nodes_def bt_ids_def)
    moreover have "bt_id (cs ! m) \<notin> bt_id ` set (kid_nodes (cs ! m))" "bt_id (cs ! Suc m) \<notin> bt_id ` set (kid_nodes (cs ! Suc m))"
      using kid_id_ne [OF inner(2)] kid_id_ne [OF inner(3)] by fastforce+
    moreover have "bt_id (cs ! m) \<in> set (bt_ids (cs ! m))" "bt_id (cs ! Suc m) \<in> set (bt_ids (cs ! Suc m))"
      "bt_id ` set (kid_nodes (cs ! m)) \<subseteq> set (bt_ids (cs ! m))" "bt_id ` set (kid_nodes (cs ! Suc m)) \<subseteq> set (bt_ids (cs ! Suc m))"
      by (auto simp: ids_kids)
    ultimately show "set (bt_ids c) \<inter> bt_id ` set us = {}"
      using ids inner(1) by (rule apart_from_pair)
  qed
  have "stored q (kid_nodes u)" if "u \<in> set us" for u
    using kid assms(7) that unfolding kid_nodes_def stored_concat by blast
  then have st': "stored q (kid_nodes t')"
    using old assms(5) by (auto simp: t'_def stored_concat stored_nodes)
  have Dq: "degree_of q = degree_of p" by (rule updates_degree [OF assms(3)])
  have hold: "holds q ((page_of (degree_of p) t')\<lparr>changed := True\<rparr>) t'"
    using holds_changed [of q t'] by (simp add: Dq)
  note sub = ids_sub [OF assms(8), folded t'_def]
  show "tree_below q ((page_of (degree_of p) t')\<lparr>changed := True\<rparr>) t'"
    using hold st' sub(1) [OF dist] sub(2) [OF below] assms(3,4) by (simp add: tree_below_def updates_def)
  have "bt_id (cs ! n) \<in> bt_id ` set (kid_nodes ?t)" if "n < length cs" for n
    using nth_mem [OF that] node_in_nodes [of "cs ! n"] by (auto simp del: nth_mem)
  then have "{bt_id (cs ! m), bt_id (cs ! Suc m)} \<subseteq> bt_id ` set (kid_nodes ?t)"
    using assms(2) Suc_lessD [OF assms(2)] by blast
  with ids have "bt_id ` set us \<subseteq> bt_id ` set (kid_nodes ?t)" by (rule order_trans)
  then show "leaves_tree p ?t ((page_of (degree_of p) t')\<lparr>changed := True\<rparr>) q t' (pages p)"
    using hold st' assms(4) updates_mono [OF assms(3)] by (simp add: leaves_tree_def)
qed

section \<open>Borrowing\<close>

text \<open>The pages of two neighbours after the border between them moved by one.\<close>

lemma last_parts: "xs \<noteq> [] \<Longrightarrow> take (length xs - 1) (xs @ ys) = butlast xs \<and> drop (length xs - 1) (xs @ ys) = last xs # ys"
  using append_butlast_last_id [of xs] by (cases xs rule: rev_cases) auto

lemma wf_same_kind:
  assumes "bt_wf d h a b l" and "bt_wf d h a' b' r"
  shows "(\<exists>i es nl j es' nl'. l = BLeaf i es nl \<and> r = BLeaf j es' nl') \<or>
    (\<exists>i ks cs j ks' cs'. l = BNode i ks cs \<and> r = BNode j ks' cs' \<and>
      length cs = Suc (length ks) \<and> length cs' = Suc (length ks'))"
proof (cases h)
  case 0
  then show ?thesis using wf_leaf [of d a b l] wf_leaf [of d a' b' r] assms by auto
next
  case (Suc g)
  then obtain i ks cs j ks' cs' where lr: "l = BNode i ks cs" "r = BNode j ks' cs'"
    using wf_node [of d g a b l] wf_node [of d g a' b' r] assms by auto
  have "length cs = Suc (length ks)" "length cs' = Suc (length ks')"
    using assms unfolding lr Suc by (metis wf_node_kids kids_length)+
  then show ?thesis using lr by blast
qed

lemma borrow_left_refines:
  assumes "bt_wf d h a b l" and "bt_wf d h a' b' r" and "2 \<le> bt_width l" and "m < length ks"
    and "bt_resplit (bt_width l - 1) l (ks ! m) r = (l', r', k)"
    and "self = (page_of D (BNode i ks cs))\<lparr>changed := c\<rparr>"
    and "write_two ((page_of D r')\<lparr>changed := True\<rparr>) ((page_of D l')\<lparr>changed := True\<rparr>)
      ((page_of D (BNode i (ks[m := k]) cs))\<lparr>changed := True\<rparr>, p) = res"
  shows "borrow_left (Suc m) (page_of D r) (page_of D l) (self, p) = res"
  using wf_same_kind [OF assms(1,2)]
proof (elim disjE exE conjE)
  fix il es nl ir es' nl'
  assume lr: "l = BLeaf il es nl" "r = BLeaf ir es' nl'"
  then have ne: "es \<noteq> []" using assms(3) by auto
  have new: "l' = BLeaf il (butlast es) nl" "r' = BLeaf ir (last es # es') nl'" "k = fst (last es)"
    using assms(5) last_parts [OF ne, of es'] ne by (auto simp: lr Let_def nth_append last_conv_nth)
  show ?thesis
    using assms(4,7) ne
    by (simp add: borrow_left_def io_bind_def lr new assms(6) is_leaf_def vec_pop_def last_map map_butlast index_set_def)
next
  fix il kl cl ir kr cr
  assume lr: "l = BNode il kl cl" "r = BNode ir kr cr" and len: "length cl = Suc (length kl)" "length cr = Suc (length kr)"
  then have ne: "kl \<noteq> []" "cl \<noteq> []" "cr \<noteq> []" using assms(3) by auto
  have k: "take (length kl - 1) (kl @ ks ! m # kr) = butlast kl" "drop (length kl - 1) (kl @ ks ! m # kr) = last kl # ks ! m # kr"
    using last_parts [OF ne(1)] by blast+
  have "Suc (length kl - 1) = length kl" "length cl - 1 = length kl" using ne(1) len(1) by simp_all
  then have c: "take (Suc (length kl - 1)) (cl @ cr) = butlast cl" "drop (Suc (length kl - 1)) (cl @ cr) = last cl # cr"
    "drop (Suc (length kl - 1)) (kl @ ks ! m # kr) = ks ! m # kr"
    using last_parts [OF ne(2), of cr] by simp_all
  have at: "(kl @ ks ! m # kr) ! (length kl - 1) = last kl"
    using ne(1) by (simp add: nth_append last_conv_nth)
  have new: "l' = BNode il (butlast kl) (butlast cl)" "r' = BNode ir (ks ! m # kr) (last cl # cr)" "k = last kl"
    using assms(5) k c at by (simp_all add: lr Let_def del: take_append drop_append)
  show ?thesis
    using assms(4,7) ne
    by (simp add: borrow_left_def io_bind_def lr new assms(6) is_leaf_def vec_pop_def last_map map_butlast index_get_def)
qed

lemma borrow_right_refines:
  assumes "bt_wf d h a b l" and "bt_wf d h a' b' r" and "2 \<le> bt_width r" and "m < length ks"
    and "bt_resplit (bt_width l + 1) l (ks ! m) r = (l', r', k)"
    and "self = (page_of D (BNode i ks cs))\<lparr>changed := c\<rparr>"
    and "write_two ((page_of D l')\<lparr>changed := True\<rparr>) ((page_of D r')\<lparr>changed := True\<rparr>)
      ((page_of D (BNode i (ks[m := k]) cs))\<lparr>changed := True\<rparr>, p) = res"
  shows "borrow_right m (page_of D l) (page_of D r) (self, p) = res"
  using wf_same_kind [OF assms(1,2)]
proof (elim disjE exE conjE)
  fix il es nl ir es' nl'
  assume lr: "l = BLeaf il es nl" "r = BLeaf ir es' nl'"
  then obtain e f rest where r: "es' = e # f # rest"
    using assms(3) by (cases es'; cases "tl es'") auto
  have new: "l' = BLeaf il (es @ [e]) nl" "r' = BLeaf ir (f # rest) nl'" "k = fst f"
    using assms(5) by (auto simp: lr r Let_def nth_append)
  show ?thesis
    using assms(4,7)
    by (simp add: borrow_right_def io_bind_def lr r new assms(6) is_leaf_def vec_remove_def index_get_def index_set_def)
next
  fix il kl cl ir kr cr
  assume lr: "l = BNode il kl cl" "r = BNode ir kr cr" and len: "length cl = Suc (length kl)" "length cr = Suc (length kr)"
  then obtain x xs y ys where r: "kr = x # xs" "cr = y # ys"
    using assms(3) by (cases kr; cases cr) auto
  have ne: "cl \<noteq> []" using len by auto
  have new: "l' = BNode il (kl @ [ks ! m]) (cl @ [y])" "r' = BNode ir xs ys" "k = x"
    using assms(5) len by (auto simp: lr r Let_def nth_append nth_Cons')
  show ?thesis
    using assms(4,7) ne
    by (simp add: borrow_right_def io_bind_def lr r new assms(6) is_leaf_def vec_remove_def index_get_def)
qed

lemma merge_nodes_page:
  assumes "bt_wf d h a b l" and "bt_wf d h a' b' r"
  shows "merge_nodes k (page_of D l) (page_of D r) = (page_of D (bt_merge l k r))\<lparr>changed := True\<rparr>"
  using wf_same_kind [OF assms] by (auto simp: merge_nodes_def is_leaf_def)

text \<open>Giving a page back only changes the head of the list of deleted pages.\<close>

lemma delete_page_ok:
  assumes "pager_ok p" and "page_in p t" and "0 \<le> i32_val (bt_id t)"
  shows "\<exists>q. pager_delete_page keeps (bt_id t) p = (Inr (), q) \<and> updates {} p q \<and> pages q = pages p \<and>
    meta_changed (pager_meta q)"
proof -
  obtain p1 where p1: "pager_read_page keeps (bt_id t) p = (Inr (page_of (degree_of p) t), p1)" "updates {} p p1"
    "pager_meta p1 = pager_meta p"
    using read_tree [OF assms(1,2), of keeps] by blast
  let ?f = "set_first_deleted_page (Some (bt_id t))"
  let ?q = "p1\<lparr>pager_meta := ?f (pager_meta p1)\<rparr>"
  have deg: "meta_max_degree (?f (pager_meta p1)) = meta_max_degree (pager_meta p1)"
    by (simp add: set_first_deleted_page_def)
  have ok1: "pager_ok p1" using p1(2) by (simp add: updates_def)
  have "synced ?q"
    using nonneg_not_min [OF assms(3)] by (intro changed_synced) (simp_all add: set_first_deleted_page_def)
  then have "updates {} p1 ?q"
    using meta_update [OF ok1 deg] deg by (simp add: updates_def set_first_deleted_page_def)
  then have "updates {} p ?q" using updates_trans [OF p1(2)] by fastforce
  moreover have "pager_delete_page keeps (bt_id t) p = (Inr (), ?q)"
    using nonneg_not_min [OF assms(3)] p1(1)
    by (simp add: pager_delete_page_def io_bind_def Let_def node_delete_page_def pager_update_meta_def)
  moreover have "pages ?q = pages p" by (simp add: pages_def p1(3) set_first_deleted_page_def)
  moreover have "meta_changed (pager_meta ?q)" by (simp add: set_first_deleted_page_def)
  ultimately show ?thesis by blast
qed

section \<open>Rebalancing\<close>

lemma map_update_same:
  assumes "f x = f (xs ! n)"
  shows "map f (xs[n := x]) = map f xs"
  by (simp only: map_update assms) (simp only: map_update [symmetric] list_update_id)

text \<open>The two pages of a pair after a borrowing, and the page above them.\<close>

lemma borrowed_pair:
  assumes "tree_below p self (BNode i ks cs)" and "m < length ks" and "length cs = Suc (length ks)"
    and "bt_resplit w (cs ! m) (ks ! m) (cs ! Suc m) = (l, r, k)"
    and "bt_wf D h a (Some (ks ! m)) (cs ! m)" and "bt_wf D h (Some (ks ! m)) b (cs ! Suc m)"
    and "w < bt_width (cs ! m) + bt_width (cs ! Suc m)"
    and "bt_wf D h a' b' l" and "bt_wf D h a'' b'' r" and "degree_of p = D"
    and "(x, y) = (l, r) \<or> (x, y) = (r, l)"
  defines "t' \<equiv> BNode i (ks[m := k]) (cs[m := l, Suc m := r])"
  assumes "mset (bt_ids t') \<subseteq># mset (bt_ids (BNode i ks cs))"
  shows "\<exists>q. write_two ((page_of D x)\<lparr>changed := True\<rparr>) ((page_of D y)\<lparr>changed := True\<rparr>)
        ((page_of D (BNode i (ks[m := k]) cs))\<lparr>changed := True\<rparr>, p) =
      (Inr (page_of D x), ((page_of D t')\<lparr>changed := True\<rparr>, q)) \<and>
    tree_below q ((page_of D t')\<lparr>changed := True\<rparr>) t' \<and>
    leaves_tree p (BNode i ks cs) ((page_of D t')\<lparr>changed := True\<rparr>) q t' (pages p)"
proof -
  have mc: "Suc m < length cs" using assms(2,3) by simp
  have ok: "pager_ok p" and dist: "distinct (bt_ids (BNode i ks cs))" and below: "ids_below (BNode i ks cs) (pages p)"
    using assms(1) by (simp_all add: tree_below_def)
  note same = resplit_same [OF assms(4,5,6,7)]
  note sub = ids_sub [OF assms(13)]
  have cs': "cs[m := l, Suc m := r] = take m cs @ [l, r] @ drop (Suc (Suc m)) cs"
    by (rule pair_updated(1) [OF mc])
  have lr: "l \<in> set (cs[m := l, Suc m := r])" "r \<in> set (cs[m := l, Suc m := r])" by (simp_all add: cs')
  have okl: "ids_ok l" "ids_ok r"
    using lr ids_below_child [OF sub(2) [OF below, unfolded t'_def]] ids_below_ok by blast+
  have ne: "bt_id l \<noteq> bt_id r"
    using sub(1) [OF dist] id_in_ids [of l] id_in_ids [of r] unfolding t'_def cs' by (auto simp: ids_node_list)
  have xy: "bt_wf D h (if x = l then a' else a'') (if x = l then b' else b'') x"
    "bt_wf D h (if y = l then a' else a'') (if y = l then b' else b'') y" "ids_ok x" "ids_ok y" "bt_id x \<noteq> bt_id y"
    "set [l, r] = {x, y}"
    using assms(8,9,11) okl ne by auto
  obtain q where q: "write_two ((page_of D x)\<lparr>changed := True\<rparr>) ((page_of D y)\<lparr>changed := True\<rparr>)
        ((page_of D (BNode i (ks[m := k]) cs))\<lparr>changed := True\<rparr>, p) =
      (Inr (page_of D x), ((page_of D (BNode i (ks[m := k]) cs))\<lparr>changed := True\<rparr>, q))"
    "updates {bt_id x, bt_id y} p q" "page_in q x" "page_in q y" "pager_meta q = pager_meta p"
    using write_two_ok [OF ok assms(10) xy(1,2,3,4,5)] by blast
  have "map bt_id (cs[m := l, Suc m := r]) = map bt_id cs"
    using same(1,2) by (simp add: map_update_same)
  then have page: "page_of D (BNode i (ks[m := k]) cs) = page_of D t'" by (simp add: t'_def)
  have up: "updates (bt_id ` set [l, r]) p q" using q(2) unfolding xy(6) by simp
  have num: "pages q = pages p" by (simp add: pages_def q(5))
  have pages_in: "page_in q u" if "u \<in> set [l, r]" for u using that q(3,4) unfolding xy(6) by blast
  have own: "bt_id u \<in> {bt_id (cs ! m), bt_id (cs ! Suc m)}" if "u \<in> set [l, r]" for u using that same(1,2) by auto
  have kids: "(\<Union>u \<in> set [l, r]. set (bt_kids u)) = set (bt_kids (cs ! m)) \<union> set (bt_kids (cs ! Suc m))"
    using same(7) by simp
  note new = replaced_pair [OF assms(1) mc up num pages_in own kids assms(13) [unfolded t'_def cs']]
  show ?thesis
    using q(1) new unfolding page assms(10) t'_def cs' by blast
qed

text \<open>The page of a merged pair and the page above it.\<close>

lemma merged_pair:
  assumes "tree_below p self (BNode i ks cs)" and "m < length ks" and "length cs = Suc (length ks)"
    and "bt_wf D h a (Some (ks ! m)) (cs ! m)" and "bt_wf D h (Some (ks ! m)) b (cs ! Suc m)"
  defines "u \<equiv> bt_merge (cs ! m) (ks ! m) (cs ! Suc m)"
  defines "t' \<equiv> BNode i (remove_at m ks) ((remove_at (Suc m) cs)[m := u])"
  assumes "bt_wf D h a' b' u" and "degree_of p = D"
    and "mset (bt_ids t') \<subseteq># mset (bt_ids (BNode i ks cs))"
  shows "\<exists>q r. pager_write_page ((page_of D u)\<lparr>changed := True\<rparr>) p = (Inr (page_of D u), q) \<and>
    pager_delete_page keeps (bt_id (cs ! Suc m)) q = (Inr (), r) \<and>
    tree_below r ((page_of D t')\<lparr>changed := True\<rparr>) t' \<and>
    leaves_tree p (BNode i ks cs) ((page_of D t')\<lparr>changed := True\<rparr>) r t' (pages p)"
proof -
  have mc: "Suc m < length cs" using assms(2,3) by simp
  have ok: "pager_ok p" and dist: "distinct (bt_ids (BNode i ks cs))" and below: "ids_below (BNode i ks cs) (pages p)"
    and st: "stored p (concat (map bt_nodes cs))"
    using assms(1) by (simp_all add: tree_below_def)
  note same = merge_same [OF assms(4,5), folded u_def]
  have cs': "(remove_at (Suc m) cs)[m := u] = take m cs @ [u] @ drop (Suc (Suc m)) cs"
    by (rule pair_updated(2) [OF mc])
  note sub = ids_sub [OF assms(10)]
  have "u \<in> set ((remove_at (Suc m) cs)[m := u])" by (simp add: cs')
  then have oku: "ids_ok u" using ids_below_child [OF sub(2) [OF below, unfolded t'_def]] ids_below_ok by blast
  obtain q where q: "pager_write_page ((page_of D u)\<lparr>changed := True\<rparr>) p = (Inr (page_of D u), q)"
    "updates {bt_id u} p q" "page_in q u" "pager_meta q = pager_meta p"
    using write_tree [OF ok holds_changed [of p u] _ oku, of h a' b'] assms(8,9) by auto
  have "distinct (i # concat (map bt_ids (take m cs @ [cs ! m, cs ! Suc m] @ drop (Suc (Suc m)) cs)))"
    using dist pair_split [OF mc] by (simp add: ids_node_list)
  then have ne: "bt_id (cs ! Suc m) \<noteq> bt_id (cs ! m)"
    using id_in_ids [of "cs ! m"] id_in_ids [of "cs ! Suc m"] by auto
  have right: "page_in p (cs ! Suc m)" using stored_child [OF st nth_mem [OF mc]] by (simp add: stored_nodes)
  have rightq: "page_in q (cs ! Suc m)" using updates_page_in [OF q(2) _ right] ne same(1) by simp
  have nonneg: "0 \<le> i32_val (bt_id (cs ! Suc m))"
    using ids_below_child [OF below nth_mem [OF mc]] id_in_ids [of "cs ! Suc m"] by (auto simp: ids_below_def)
  have okq: "pager_ok q" using q(2) by (simp add: updates_def)
  obtain r where r: "pager_delete_page keeps (bt_id (cs ! Suc m)) q = (Inr (), r)" "updates {} q r" "pages r = pages q"
    using delete_page_ok [OF okq rightq nonneg] by blast
  have up: "updates (bt_id ` set [u]) p r" using updates_trans [OF q(2) r(2)] by simp
  have num: "pages r = pages p" using r(3) q(4) by (simp add: pages_def)
  have pages_in: "page_in r x" if "x \<in> set [u]" for x
    using updates_page_in [OF r(2) _ q(3)] that by simp
  have own: "bt_id x \<in> {bt_id (cs ! m), bt_id (cs ! Suc m)}" if "x \<in> set [u]" for x using that same(1) by simp
  have kids: "(\<Union>x \<in> set [u]. set (bt_kids x)) = set (bt_kids (cs ! m)) \<union> set (bt_kids (cs ! Suc m))"
    using same(5) by simp
  note new = replaced_pair [OF assms(1) mc up num pages_in own kids assms(10) [unfolded t'_def cs']]
  show ?thesis using q(1) r(1) new unfolding assms(9) t'_def cs' by blast
qed

lemma merge_left_refines:
  assumes "self = (page_of D (BNode i ks cs))\<lparr>changed := c\<rparr>" and "m < length ks" and "length cs = Suc (length ks)"
    and "bt_wf D h a b (cs ! m)" and "bt_wf D h a' b' (cs ! Suc m)"
  defines "u \<equiv> bt_merge (cs ! m) (ks ! m) (cs ! Suc m)"
  assumes "pager_write_page ((page_of D u)\<lparr>changed := True\<rparr>) p = (Inr (page_of D u), q)"
    and "pager_delete_page keeps (bt_id (cs ! Suc m)) q = (Inr (), r)"
  defines "self' \<equiv> (page_of D (BNode i (remove_at m ks) ((remove_at (Suc m) cs)[m := u])))\<lparr>changed := True\<rparr>"
  shows "merge_left keeps (Suc m) (page_of D (cs ! Suc m)) (page_of D (cs ! m)) (self, p) = (Inr (page_of D u), (self', r))"
    and "merge_right keeps m (page_of D (cs ! m)) (page_of D (cs ! Suc m)) (self, p) = (Inr (page_of D u), (self', r))"
proof -
  have "map bt_id ((remove_at (Suc m) cs)[m := u]) = remove_at (Suc m) (map bt_id cs)"
  proof -
    have "bt_id u = bt_id (cs ! m)" using merge_nodes_page [OF assms(4,5), of "ks ! m" D]
      by (cases "cs ! m"; cases "cs ! Suc m") (simp_all add: u_def)
    moreover have "(remove_at (Suc m) cs) ! m = cs ! m"
      using assms(2,3) by (simp add: remove_at_def nth_append)
    ultimately have "map bt_id ((remove_at (Suc m) cs)[m := u]) = map bt_id (remove_at (Suc m) cs)"
      by (intro map_update_same) simp
    then show ?thesis by (simp add: remove_at_def take_map drop_map)
  qed
  then have kids: "vec_remove (Suc m) (map bt_id cs) = (Inr (bt_id (cs ! Suc m), map bt_id ((remove_at (Suc m) cs)[m := u])) :: (i32 \<times> i32 list, node_operation_error) result)"
    using assms(2,3) by (simp add: vec_remove_def remove_at_def)
  have sep: "vec_remove m ks = (Inr (ks ! m, remove_at m ks) :: (i32 \<times> i32 list, node_operation_error) result)"
    using assms(2) by (simp add: vec_remove_def remove_at_def)
  have merged: "merge_nodes (ks ! m) (page_of D (cs ! m)) (page_of D (cs ! Suc m)) = (page_of D u)\<lparr>changed := True\<rparr>"
    unfolding u_def by (rule merge_nodes_page [OF assms(4,5)])
  note io = on_pager_ok [of "pager_write_page ((page_of D u)\<lparr>changed := True\<rparr>)", OF assms(7)]
    on_pager_ok [of "pager_delete_page keeps (bt_id (cs ! Suc m))", OF assms(8)]
  show "merge_left keeps (Suc m) (page_of D (cs ! Suc m)) (page_of D (cs ! m)) (self, p) = (Inr (page_of D u), (self', r))"
    by (simp add: merge_left_def io_bind_def assms(1) kids sep merged io self'_def)
  show "merge_right keeps m (page_of D (cs ! m)) (page_of D (cs ! Suc m)) (self, p) = (Inr (page_of D u), (self', r))"
    by (simp add: merge_right_def io_bind_def assms(1) kids sep merged io self'_def)
qed

lemma read_sibling_any:
  assumes "tree_below p self (BNode i ks cs)" and "e \<Longrightarrow> n < length cs" and "1 \<le> degree_of p div 2"
  shows "\<exists>q. read_sibling keeps e n (self, p) =
      (Inr (if e then Some (page_of (degree_of p) (cs ! n), bt_can_lend (degree_of p) (cs ! n)) else None), (self, q)) \<and>
    unchanged p q"
proof (cases e)
  case True
  then show ?thesis using read_sibling_ok [OF assms(1) _ assms(3)] assms(2) by simp
next
  case False
  have "pager_ok p" using assms(1) by (simp add: tree_below_def)
  then show ?thesis using False unchanged_refl by auto
qed

lemma unchanged_leaves:
  assumes "unchanged p q" and "leaves_tree q t self' r t' n"
  shows "leaves_tree p t self' r t' n"
proof -
  have "updates {} p q" "pages q = pages p" using assms(1) unchanged_keeps by (auto simp: unchanged_def)
  then show ?thesis using assms(2) updates_trans [of "{}" p q _ r] by (fastforce simp: leaves_tree_def)
qed

text \<open>The branch of \<open>delete\<close> for an underfull child.\<close>

lemma rebalance_refines:
  assumes "tree_at p self (Suc h) lo hi (BNode i ks cs)" and "m \<le> length ks" and "6 \<le> degree_of p"
  defines "D \<equiv> degree_of p"
  assumes "bt_underfull D (cs ! m)" and "bt_rebalance D ks cs m = (ks', cs', j)" and "kids_wf D h lo ks' hi cs'"
    and "mset (bt_ids (BNode i ks' cs')) \<subseteq># mset (bt_ids (BNode i ks cs))"
  shows "\<exists>q self'. rebalance keeps m (page_of D (cs ! m)) (self, p) = (Inr (page_of D (cs' ! j)), (self', q)) \<and>
    tree_below q self' (BNode i ks' cs') \<and> leaves_tree p (BNode i ks cs) self' q (BNode i ks' cs') (pages p)"
proof -
  let ?t = "BNode i ks cs" and ?t' = "BNode i ks' cs'"
  have kids: "kids_wf D h lo ks hi cs" and ne: "ks \<noteq> []" and below: "tree_below p self ?t"
    using assms(1) by (simp_all add: tree_at_below wf_node_kids D_def del: bt_wf.simps)
  note len = kids_length [OF kids]
  have half: "1 \<le> degree_of p div 2" using assms(3) by simp
  have before: "0 < m \<Longrightarrow> m - 1 < length cs" using assms(2) len by simp
  obtain p1 where p1: "read_sibling keeps (0 < m) (m - 1) (self, p) =
      (Inr (if 0 < m then Some (page_of D (cs ! (m - 1)), bt_can_lend D (cs ! (m - 1))) else None), (self, p1))" "unchanged p p1"
    using read_sibling_any [OF below before half, where keeps = keeps] unfolding D_def by blast
  note keep1 = unchanged_keeps [OF p1(2)]
  obtain p2 where p2: "read_sibling keeps (m + 1 < length cs) (m + 1) (self, p1) =
      (Inr (if m + 1 < length cs then Some (page_of D (cs ! (m + 1)), bt_can_lend D (cs ! (m + 1))) else None), (self, p2))" "unchanged p1 p2"
    using read_sibling_any [OF keep1(6) [OF below], of "m + 1 < length cs" "m + 1" keeps] half keep1(3) by (auto simp: D_def)
  note un = unchanged_trans [OF p1(2) p2(2)]
  note keep = unchanged_keeps [OF un]
  have below2: "tree_below p2 self ?t" and D2: "degree_of p2 = D" and num: "pages p2 = pages p"
    using keep(3,4,6) below by (simp_all add: D_def)
  obtain b where self: "self = (page_of D ?t)\<lparr>changed := b\<rparr>"
    using below holds_cases [of p self ?t] by (auto simp: tree_below_def D_def)
  have step: "rebalance keeps m target (self, p) = (case (if 0 < m then Some (page_of D (cs ! (m - 1)), bt_can_lend D (cs ! (m - 1))) else None,
        if m < length ks then Some (page_of D (cs ! (m + 1)), bt_can_lend D (cs ! (m + 1))) else None) of
       (Some (left, True), _) \<Rightarrow> borrow_left m target left
     | (_, Some (right, True)) \<Rightarrow> borrow_right m target right
     | (Some (left, False), _) \<Rightarrow> merge_left keeps m target left
     | (None, Some (right, False)) \<Rightarrow> merge_right keeps m target right
     | (None, None) \<Rightarrow> io_ret target) (self, p2)" for target
  proof -
    have "length (children self) = length cs" by (simp add: self)
    then show ?thesis
      using p1(1) p2(1) len by (simp add: rebalance_def io_bind_def)
  qed
  have pair: "bt_wf D h (lower lo ks n) (Some (ks ! n)) (cs ! n)" "bt_wf D h (Some (ks ! n)) (upper ks hi (Suc n)) (cs ! Suc n)"
    if "n < length ks" for n
    using kids_pair(4,5) [OF kids that] by simp_all
  have new: "\<exists>a b. bt_wf D h a b (cs' ! n)" if "n < length cs'" for n
    using kid_wf [OF assms(7), of n] kids_length [OF assms(7)] that by auto
  consider (left) n where "m = Suc n" "bt_can_lend D (cs ! n)"
    | (right) "m = 0 \<or> \<not> bt_can_lend D (cs ! (m - 1))" "m < length ks" "bt_can_lend D (cs ! Suc m)"
    | (merge_left) n where "m = Suc n" "\<not> bt_can_lend D (cs ! n)"
        "\<not> (m < length ks \<and> bt_can_lend D (cs ! Suc m))"
    | (merge_right) "m = 0" "m < length ks" "\<not> bt_can_lend D (cs ! Suc m)"
    using assms(2) ne by (cases m) auto
  then have "\<exists>q self'. rebalance keeps m (page_of D (cs ! m)) (self, p) = (Inr (page_of D (cs' ! j)), (self', q)) \<and>
    tree_below q self' ?t' \<and> leaves_tree p2 ?t self' q ?t' (pages p2)"
  proof cases
    case (left n)
    let ?w = "bt_width (cs ! n)"
    have n: "n < length ks" and w: "2 \<le> ?w" using left assms(2,3) by (auto simp: bt_can_lend_def D_def)
    obtain l r k where res: "bt_resplit (?w - 1) (cs ! n) (ks ! n) (cs ! Suc n) = (l, r, k)" by (metis prod_cases3)
    have out: "ks' = ks[n := k]" "cs' = cs[n := l, Suc n := r]" "j = Suc n"
      using assms(5,6) left res by (auto simp: bt_rebalance_def Let_def)
    have at: "cs' ! n = l" "cs' ! Suc n = r" using n len by (simp_all add: out)
    obtain a b where lw: "bt_wf D h a b l" using new [of n] n len at by (auto simp: out)
    obtain a' b' where rw: "bt_wf D h a' b' r" using new [of "Suc n"] n len at by (auto simp: out)
    have sum: "?w - 1 < bt_width (cs ! n) + bt_width (cs ! Suc n)" using w by simp
    obtain q where q: "write_two ((page_of D r)\<lparr>changed := True\<rparr>) ((page_of D l)\<lparr>changed := True\<rparr>)
        ((page_of D (BNode i (ks[n := k]) cs))\<lparr>changed := True\<rparr>, p2) =
      (Inr (page_of D r), ((page_of D ?t')\<lparr>changed := True\<rparr>, q))"
      "tree_below q ((page_of D ?t')\<lparr>changed := True\<rparr>) ?t'"
      "leaves_tree p2 ?t ((page_of D ?t')\<lparr>changed := True\<rparr>) q ?t' (pages p2)"
      using borrowed_pair [OF below2 n len res pair [OF n] sum lw rw D2 _ assms(8) [unfolded out], of r l]
      unfolding out by blast
    have "borrow_left (Suc n) (page_of D (cs ! Suc n)) (page_of D (cs ! n)) (self, p2) =
        (Inr (page_of D r), ((page_of D ?t')\<lparr>changed := True\<rparr>, q))"
      by (rule borrow_left_refines [OF pair [OF n] w n res self q(1)])
    moreover have "rebalance keeps m (page_of D (cs ! m)) (self, p) =
        borrow_left m (page_of D (cs ! m)) (page_of D (cs ! n)) (self, p2)"
      unfolding step using left by simp
    ultimately show ?thesis using q(2,3) at left(1) out(3) by auto
  next
    case right
    let ?w = "bt_width (cs ! m)"
    have w: "2 \<le> bt_width (cs ! Suc m)" using right assms(3) by (auto simp: bt_can_lend_def D_def)
    obtain l r k where res: "bt_resplit (?w + 1) (cs ! m) (ks ! m) (cs ! Suc m) = (l, r, k)" by (metis prod_cases3)
    have out: "ks' = ks[m := k]" "cs' = cs[m := l, Suc m := r]" "j = m"
      using assms(5,6) right res len by (auto simp: bt_rebalance_def Let_def)
    have at: "cs' ! m = l" "cs' ! Suc m = r" using right len by (simp_all add: out)
    obtain a b where lw: "bt_wf D h a b l" using new [of m] right len at by (auto simp: out)
    obtain a' b' where rw: "bt_wf D h a' b' r" using new [of "Suc m"] right len at by (auto simp: out)
    have sum: "?w + 1 < bt_width (cs ! m) + bt_width (cs ! Suc m)" using w by simp
    obtain q where q: "write_two ((page_of D l)\<lparr>changed := True\<rparr>) ((page_of D r)\<lparr>changed := True\<rparr>)
        ((page_of D (BNode i (ks[m := k]) cs))\<lparr>changed := True\<rparr>, p2) =
      (Inr (page_of D l), ((page_of D ?t')\<lparr>changed := True\<rparr>, q))"
      "tree_below q ((page_of D ?t')\<lparr>changed := True\<rparr>) ?t'"
      "leaves_tree p2 ?t ((page_of D ?t')\<lparr>changed := True\<rparr>) q ?t' (pages p2)"
      using borrowed_pair [OF below2 right(2) len res pair [OF right(2)] sum lw rw D2 _ assms(8) [unfolded out], of l r]
      unfolding out by blast
    have "borrow_right m (page_of D (cs ! m)) (page_of D (cs ! Suc m)) (self, p2) =
        (Inr (page_of D l), ((page_of D ?t')\<lparr>changed := True\<rparr>, q))"
      by (rule borrow_right_refines [OF pair [OF right(2)] w right(2) res self q(1)])
    then show ?thesis using q(2,3) at right by (auto simp: step out(3) split: bool.split)
  next
    case (merge_left n)
    have n: "n < length ks" using merge_left assms(2) by simp
    let ?u = "bt_merge (cs ! n) (ks ! n) (cs ! Suc n)"
    have out: "ks' = remove_at n ks" "cs' = (remove_at (Suc n) cs)[n := ?u]" "j = n"
      using assms(5,6) merge_left len by (auto simp: bt_rebalance_def Let_def)
    have at: "n < length cs'" "cs' ! n = ?u" using n len by (simp_all add: out remove_at_def)
    then obtain a b where uw: "bt_wf D h a b ?u" using new [of n] by auto
    obtain q r where q: "pager_write_page ((page_of D ?u)\<lparr>changed := True\<rparr>) p2 = (Inr (page_of D ?u), q)"
      "pager_delete_page keeps (bt_id (cs ! Suc n)) q = (Inr (), r)"
      "tree_below r ((page_of D ?t')\<lparr>changed := True\<rparr>) ?t'"
      "leaves_tree p2 ?t ((page_of D ?t')\<lparr>changed := True\<rparr>) r ?t' (pages p2)"
      using merged_pair [OF below2 n len pair [OF n] uw D2 assms(8) [unfolded out], of keeps] unfolding out by blast
    note merge_left_refines(1) [OF self n len pair [OF n] q(1,2)]
    moreover have "rebalance keeps m (page_of D (cs ! m)) (self, p) =
        merge_left keeps m (page_of D (cs ! m)) (page_of D (cs ! n)) (self, p2)"
      unfolding step using merge_left by auto
    ultimately show ?thesis using q(3,4) merge_left(1) at(2) unfolding out by auto
  next
    case merge_right
    let ?u = "bt_merge (cs ! m) (ks ! m) (cs ! Suc m)"
    have out: "ks' = remove_at m ks" "cs' = (remove_at (Suc m) cs)[m := ?u]" "j = m"
      using assms(5,6) merge_right len by (auto simp: bt_rebalance_def Let_def)
    have at: "m < length cs'" "cs' ! m = ?u" using merge_right len by (simp_all add: out remove_at_def)
    then obtain a b where uw: "bt_wf D h a b ?u" using new [of m] by auto
    obtain q r where q: "pager_write_page ((page_of D ?u)\<lparr>changed := True\<rparr>) p2 = (Inr (page_of D ?u), q)"
      "pager_delete_page keeps (bt_id (cs ! Suc m)) q = (Inr (), r)"
      "tree_below r ((page_of D ?t')\<lparr>changed := True\<rparr>) ?t'"
      "leaves_tree p2 ?t ((page_of D ?t')\<lparr>changed := True\<rparr>) r ?t' (pages p2)"
      using merged_pair [OF below2 merge_right(2) len pair [OF merge_right(2)] uw D2 assms(8) [unfolded out], of keeps] unfolding out by blast
    note merge_left_refines(2) [OF self merge_right(2) len pair [OF merge_right(2)] q(1,2)]
    moreover have "rebalance keeps m (page_of D (cs ! m)) (self, p) =
        merge_right keeps m (page_of D (cs ! m)) (page_of D (cs ! Suc m)) (self, p2)"
      unfolding step using merge_right by auto
    ultimately show ?thesis using q(3,4) at(2) unfolding out by auto
  qed
  then show ?thesis using unchanged_leaves [OF un] num by metis
qed

section \<open>Deletion\<close>

lemma found_entry:
  fixes key :: i32
  assumes "sorted_wrt (<) (map fst es)" and "j < length es" and "fst (es ! j) = key"
  shows "map_of es key = Some (snd (es ! j))" and "filter (\<lambda>e. fst e \<noteq> key) es = remove_at j es"
proof -
  have "distinct (map fst es)" using assms(1) by (simp add: strict_sorted_iff)
  moreover have "(key, snd (es ! j)) \<in> set es" using assms(3) nth_mem [OF assms(2)] by (cases "es ! j") simp
  ultimately show "map_of es key = Some (snd (es ! j))" by (rule map_of_is_SomeI)
  have es: "es = take j es @ es ! j # drop (Suc j) es" by (rule id_take_nth_drop [OF assms(2)])
  have "sorted_wrt (<) (map fst (take j es @ es ! j # drop (Suc j) es))"
    unfolding es [symmetric] by (rule assms(1))
  then have "filter (\<lambda>e. fst e \<noteq> key) (take j es) = take j es" "filter (\<lambda>e. fst e \<noteq> key) (drop (Suc j) es) = drop (Suc j) es"
    using assms(3) by (auto simp: sorted_wrt_append filter_id_conv)
  then show "filter (\<lambda>e. fst e \<noteq> key) es = remove_at j es"
    using assms(3) by (subst es) (simp add: remove_at_def)
qed

lemma delete_leaf_refines:
  assumes "holds p self t" and "t = BLeaf i es nl" and "sorted_wrt (<) (map fst es)"
  shows "\<exists>self'. delete_from_leaf key (self, p) = (Inr (map_of es key), (self', p)) \<and>
    holds p self' (BLeaf i (filter (\<lambda>e. fst e \<noteq> key) es) nl)"
proof -
  let ?D = "degree_of p" and ?t' = "BLeaf i (filter (\<lambda>e. fst e \<noteq> key) es) nl"
  obtain b where self: "self = (page_of ?D (BLeaf i es nl))\<lparr>changed := b\<rparr>"
    using holds_cases [of p self t] assms(1,2) by blast
  have absent: ?thesis if "key \<notin> fst ` set es" and "\<And>j. binary_search key (map fst es) \<noteq> EqualAt j"
  proof -
    have "filter (\<lambda>e. fst e \<noteq> key) es = es" using that(1) by (auto simp: filter_id_conv)
    moreover have "map_of es key = None" using that(1) by (simp add: map_of_eq_None_iff)
    moreover have "delete_from_leaf key (self, p) = (Inr None, (self, p))"
      using that(2) by (simp add: delete_from_leaf_def io_bind_def self split: find_key_response.split)
    ultimately show ?thesis using assms(1,2) by auto
  qed
  note search = binary_search_eq [OF assms(3), of key] search_spec_def classify_def
  show ?thesis
  proof (cases "position (\<lambda>k. key \<le> k) (map fst es)")
    case None
    then have "key \<notin> fst ` set es" by (force simp: position_None)
    with None show ?thesis by (intro absent) (auto simp: search)
  next
    case (Some j)
    then have j: "j < length es" "key \<le> fst (es ! j)" "\<And>l. l < j \<Longrightarrow> fst (es ! l) < key"
      by (auto simp: position_Some not_le)
    show ?thesis
    proof (cases "fst (es ! j) = key")
      case True
      note found = found_entry [OF assms(3) j(1) True]
      have "delete_from_leaf key (self, p) = (Inr (map_of es key), ((page_of ?D ?t')\<lparr>changed := True\<rparr>, p))"
        using Some j(1) True found
        by (simp add: delete_from_leaf_def io_bind_def self search vec_remove_def remove_at_def take_map drop_map)
      then show ?thesis using holds_changed by blast
    next
      case False
      have "fst (es ! l) \<noteq> key" if "l < length es" for l
      proof (cases "l < j")
        case False
        have "fst (es ! j) \<le> fst (es ! l)"
        proof (cases "l = j")
          case False
          then have "j < l" using \<open>\<not> l < j\<close> by simp
          then show ?thesis using sorted_wrt_nth_less [OF assms(3), of j l] that by (simp add: less_imp_le)
        qed simp
        then show ?thesis using j(2) \<open>fst (es ! j) \<noteq> key\<close> by auto
      qed (use j(3) in fastforce)
      then have "key \<notin> fst ` set es" unfolding image_iff by (metis in_set_conv_nth)
      with Some False j(1) show ?thesis by (intro absent) (auto simp: search)
    qed
  qed
qed

lemma node_delete_inner:
  assumes "\<not> is_leaf self" and "child_index self key = m" and "index_get (children self) m = (Inr c :: (i32, node_operation_error) result)"
    and "pager_read_page keeps c p = (Inr child, p0)"
    and "is_less_than_minimal child = (Inr u :: (bool, node_operation_error) result)"
    and "(if u then rebalance keeps m child else io_ret child) (self, p0) = (Inr child1, (self1, p1))"
    and "node_delete keeps f key (child1, p1) = (Inr x, (child2, p2))"
    and "pager_write_page child2 p2 = (Inr child3, p3)"
  shows "node_delete keeps (Suc f) key (self, p) = (Inr x, (self1, p3))"
proof -
  have "on_pager (pager_read_page keeps c) (self, p) = (Inr child, (self, p0))"
    "on_node child1 (node_delete keeps f key) (self1, p1) = (Inr (Inr x, child2), (self1, p2))"
    "on_pager (pager_write_page child2) (self1, p2) = (Inr child3, (self1, p3))"
    using assms(4,7,8) by (simp_all add: on_pager_def on_node_def)
  note steps = io_bind_Inr [of "on_pager (pager_read_page keeps c)", OF this(1)]
    io_bind_Inr [of "if u then rebalance keeps m child else io_ret child", OF assms(6)]
    io_bind_Inr [of "on_node child1 (node_delete keeps f key)", OF this(2)]
    io_bind_Inr [of "on_pager (pager_write_page child2)", OF this(3)]
    io_bind_Inr [of get_self, OF self_simps(1)]
  show ?thesis
    using assms(1-3,5) by (simp add: Let_def steps)
qed

lemma tree_below_child:
  assumes "tree_below p self (BNode i ks cs)" and "j < length cs" and "4 \<le> degree_of p"
    and "bt_wf (degree_of p) h a b (cs ! j)"
  shows "tree_at p (page_of (degree_of p) (cs ! j)) h a b (cs ! j)"
proof -
  have c: "cs ! j \<in> set cs" using assms(2) by simp
  have "stored p (bt_nodes (cs ! j))"
    using assms(1) c by (intro stored_child [of _ cs]) (simp_all add: tree_below_def)
  then show ?thesis
    using assms distinct_child(2) [of i ks cs j] c
    by (auto simp: tree_at_def tree_below_def stored_nodes holds_page intro: ids_below_child)
qed

theorem node_delete_refines:
  assumes "tree_at p self h lo hi t" and "bt_filled (degree_of p) t" and "6 \<le> degree_of p" and "pages p \<le> 2 ^ 31"
    and "not_below lo key" and "below key hi" and "h < fuel"
  shows "\<exists>q self'. node_delete keeps fuel key (self, p) = (Inr (map_of (bt_entries t) key), (self', q)) \<and>
    leaves_tree p t self' q (bt_delete (degree_of p) h key t) (pages p)"
  using assms
proof (induction h arbitrary: p self lo hi t fuel)
  case 0
  have wf: "bt_wf (degree_of p) 0 lo hi t" and ok: "pager_ok p" and hold: "holds p self t"
    using 0(1) by (simp_all add: tree_at_def)
  obtain i es nl where t: "t = BLeaf i es nl" using wf wf_leaf by blast
  obtain f where f: "fuel = Suc f" using 0(7) by (cases fuel) simp_all
  have sorted: "sorted_wrt (<) (map fst es)" using wf by (simp add: t entries_ok_def)
  obtain b where self: "self = (page_of (degree_of p) t)\<lparr>changed := b\<rparr>" using holds_cases [OF hold] by blast
  then have leaf: "is_leaf self" by (simp add: t is_leaf_def)
  obtain self' where d: "delete_from_leaf key (self, p) = (Inr (map_of es key), (self', p))"
    "holds p self' (BLeaf i (filter (\<lambda>e. fst e \<noteq> key) es) nl)"
    using delete_leaf_refines [OF hold t sorted] by blast
  then show ?case using leaf ok by (auto simp: f t io_bind_def leaves_tree_def updates_def)
next
  case (Suc h)
  let ?D = "degree_of p"
  have wf: "bt_wf ?D (Suc h) lo hi t" and ok: "pager_ok p" and D: "4 \<le> ?D"
    using Suc.prems(1) by (simp_all add: tree_at_def)
  obtain i ks cs where t: "t = BNode i ks cs" using wf wf_node by blast
  let ?m = "child_pos key ks"
  have at: "tree_at p self (Suc h) lo hi (BNode i ks cs)" using Suc.prems(1) by (simp add: t)
  have kids: "kids_wf ?D h lo ks hi cs" and ne: "ks \<noteq> []" using wf by (simp_all add: t wf_node_kids del: bt_wf.simps)
  have len: "length cs = Suc (length ks)" by (rule kids_length [OF kids])
  have m: "?m \<le> length ks" by (rule child_pos_le)
  obtain f where f: "fuel = Suc f" "h < f" using Suc.prems(7) by (cases fuel) simp_all
  have hold: "holds p self t" and dist: "distinct (bt_ids t)" and below: "ids_below t (pages p)"
    using Suc.prems(1) by (simp_all add: tree_at_def)
  obtain b where self: "self = (page_of ?D (BNode i ks cs))\<lparr>changed := b\<rparr>"
    using holds_cases [OF hold] unfolding t by blast
  obtain p0 where p0: "pager_read_page keeps (bt_id (cs ! ?m)) p = (Inr (page_of ?D (cs ! ?m)), p0)"
    "updates {} p p0" "pager_meta p0 = pager_meta p"
    using read_tree [OF ok tree_at_child(2) [OF at m], of keeps] by blast
  note none = updates_none [OF p0(2,3)]
  have un: "unchanged p p0" using p0(2,3) by (simp add: unchanged_def)
  have at0: "tree_at p0 self (Suc h) lo hi (BNode i ks cs)" by (rule none(1) [OF at])
  obtain ks' cs' j where reb: "bt_rebalance ?D ks cs ?m = (ks', cs', j)" by (metis prod_cases3)
  let ?t1 = "BNode i ks' cs'"
  let ?c = "bt_delete ?D h key (cs' ! j)"
  have "kids_filled ?D cs" using Suc.prems(2) by (simp add: t kids_filled_def)
  note R = rebalance [OF reb kids ne this Suc.prems(3,5,6)]
  have wf1: "kids_wf ?D h lo ks' hi cs'" and j: "j \<le> length ks'" and filled1: "kids_filled ?D cs'"
    and iv: "not_below (lower lo ks' j) key" "below key (upper ks' hi j)"
    and same: "bt_entries ?t1 = bt_entries t" "mset (bt_ids ?t1) \<subseteq># mset (bt_ids t)"
    using R unfolding rebalanced_def t by blast+
  obtain q1 self1 where q1: "(if bt_underfull ?D (cs ! ?m) then BTree_Node.rebalance keeps ?m (page_of ?D (cs ! ?m)) else io_ret (page_of ?D (cs ! ?m))) (self, p0) =
      (Inr (page_of ?D (cs' ! j)), (self1, q1))"
    "tree_below q1 self1 ?t1" "leaves_tree p0 (BNode i ks cs) self1 q1 ?t1 (pages p0)"
  proof (cases "bt_underfull ?D (cs ! ?m)")
    case True
    then show ?thesis
      using rebalance_refines [OF at0 m, of ks' cs' j keeps] Suc.prems(3) none(6) reb wf1 same(2) that
      by (auto simp: t)
  next
    case False
    then have "ks' = ks" "cs' = cs" "j = ?m" using reb by (auto simp: bt_rebalance_def)
    moreover have "leaves_tree p0 (BNode i ks cs) self p0 (BNode i ks cs) (pages p0)"
      using at0 by (simp add: leaves_tree_def tree_at_def updates_def)
    ultimately show ?thesis using False at0 that by (simp add: tree_at_below)
  qed
  have D1: "degree_of q1 = ?D" and num1: "pages q1 = pages p"
    using q1(3) updates_degree none(4,6) by (auto simp: leaves_tree_def)
  have jc: "j < length cs'" using kids_length [OF wf1] j by simp
  have cw: "bt_wf ?D h (lower lo ks' j) (upper ks' hi j) (cs' ! j)" by (rule kid_wf [OF wf1 j])
  have cf: "bt_filled ?D (cs' ! j)" using filled1 jc by (simp add: kids_filled_def)
  have child: "tree_at q1 (page_of ?D (cs' ! j)) h (lower lo ks' j) (upper ks' hi j) (cs' ! j)"
    using tree_below_child [OF q1(2) jc] cw D D1 by simp
  obtain q2 child' where q2: "node_delete keeps f key (page_of ?D (cs' ! j), q1) =
      (Inr (map_of (bt_entries (cs' ! j)) key), (child', q2))" "leaves_tree q1 (cs' ! j) child' q2 ?c (pages q1)"
    using Suc.IH [OF child _ _ _ iv f(2)] cf Suc.prems(3,4) D1 num1 by auto
  have cdel: "bt_id ?c = bt_id (cs' ! j)" "removed key (cs' ! j) ?c" "bt_wf ?D h (lower lo ks' j) (upper ks' hi j) ?c"
  proof -
    note d = delete_wf [OF cw cf Suc.prems(3) iv]
    have "\<not> bt_underfull ?D (cs' ! j)" using R unfolding rebalanced_def by blast
    then have "bt_width ?c \<noteq> 0" using d Suc.prems(3) by (auto simp: bt_underfull_def)
    then show "bt_id ?c = bt_id (cs' ! j)" "removed key (cs' ! j) ?c" "bt_wf ?D h (lower lo ks' j) (upper ks' hi j) ?c"
      using d by blast+
  qed
  have sub: "mset (bt_ids ?c) \<subseteq># mset (bt_ids (cs' ! j))" using cdel(2) by (simp add: removed_def)
  have cid: "distinct (bt_ids ?c)" "ids_below ?c (pages q1)"
    using ids_sub(1,2) [OF sub] child by (simp_all add: tree_at_def)
  obtain q child'' where q: "pager_write_page child' q2 = (Inr child'', q)"
    "leaves_tree q1 ?t1 self1 q (BNode i ks' (cs'[j := ?c])) (pages q1)"
    using write_child [OF q1(2) jc _ q2(2) _ cdel(1) _ cid, of h "lower lo ks' j" "upper ks' hi j"] cdel(3) D1 num1 Suc.prems(4) by auto
  have "node_delete keeps fuel key (self, p) = (Inr (map_of (bt_entries (cs' ! j)) key), (self1, q))"
  proof -
    have "\<not> is_leaf self" "child_index self key = ?m" "children self = map bt_id cs"
      using len child_index_page [OF self len] by (auto simp: self is_leaf_def)
    moreover have "index_get (map bt_id cs) ?m = (Inr (bt_id (cs ! ?m)) :: (i32, node_operation_error) result)"
      using len m by (simp add: index_get_def)
    moreover have "is_less_than_minimal (page_of ?D (cs ! ?m)) = (Inr (bt_underfull ?D (cs ! ?m)) :: (bool, node_operation_error) result)"
      using D by (simp add: is_less_than_minimal_def min_keys_def usize_sub_def bt_underfull_def)
    ultimately show ?thesis
      unfolding f(1) by (intro node_delete_inner [OF _ _ _ p0(1) _ q1(1) q2(1) q(1)]) simp_all
  qed
  moreover have "map_of (bt_entries t) key = map_of (bt_entries (cs' ! j)) key"
    using child_lookup [OF wf1 j iv, of i] unfolding same(1) .
  moreover have "leaves_tree p t self1 q (bt_delete ?D (Suc h) key t) (pages p)"
  proof -
    have "leaves_tree p t self1 q1 ?t1 (pages p)"
      using unchanged_leaves [OF un q1(3)] none(4) by (simp add: t)
    moreover have "bt_id ` set (kid_nodes ?t1) \<subseteq> bt_id ` set (kid_nodes t) \<union> usize_as_i32 ` {pages p..<pages p}"
    proof -
      have "insert i (bt_id ` set (kid_nodes ?t1)) \<subseteq> insert i (bt_id ` set (kid_nodes t))"
        using ids_sub(3) [OF same(2)] by (simp only: t ids_kids bt_id.simps set_map set_simps)
      moreover have "i \<notin> bt_id ` set (kid_nodes ?t1)"
        using q1(2) by (auto simp: tree_below_def ids_kids)
      ultimately show ?thesis by blast
    qed
    moreover have "leaves_tree q1 ?t1 self1 q (BNode i ks' (cs'[j := ?c])) (pages p)" using q(2) num1 by simp
    ultimately show ?thesis
      using leaves_tree_trans [of p t self1 q1 ?t1 "pages p" self1 q _ "pages p"] reb by (simp add: t)
  qed
  ultimately show ?case by auto
qed

end
