(* ===== verification/BTree_Index_Deletion.thy ===== *)
theory BTree_Index_Deletion
  imports BTree_Lookup BTree_Delete_Refine
begin

text \<open>
  \<open>BTreeStore::delete\<close> of \<open>src/src/tree/store.rs\<close> on the sorted list of entries of an index
  file. A root that a merge left without keys is given back and its only child becomes the root.
\<close>

section \<open>The root of the tree value\<close>

lemma removed_root:
  fixes key :: i32
  assumes "bt_wf d h None None t" and "bt_filled d t" and "6 \<le> d"
  defines "t' \<equiv> bt_delete d h key t"
  shows "bt_wf d h None None t' \<or> (\<exists>g i c. h = Suc g \<and> t' = BNode i [] [c] \<and> bt_wf d g None None c)"
    and "removed key t t'" and "bt_filled d t'" and "bt_id t' = bt_id t"
proof -
  have below: "not_below None key" "below key None" by simp_all
  note del = delete_wf [OF assms(1,2,3) below, folded t'_def]
  show "removed key t t'" "bt_filled d t'" "bt_id t' = bt_id t" using del by blast+
  show "bt_wf d h None None t' \<or> (\<exists>g i c. h = Suc g \<and> t' = BNode i [] [c] \<and> bt_wf d g None None c)"
  proof (cases "bt_width t' \<noteq> 0 \<or> h = 0")
    case True
    then show ?thesis using del by blast
  next
    case False
    then obtain g where h: "h = Suc g" by (cases h) auto
    obtain i ks cs where t: "t = BNode i ks cs" using assms(1) wf_node unfolding h by blast
    obtain ks' cs' where t': "t' = BNode i ks' cs'"
      by (cases "bt_rebalance d ks cs (child_pos key ks)") (simp add: t'_def t h)
    then have "ks' = []" using False by simp
    moreover have "kids_wf d g None ks' None cs'" using del t' h by simp
    ultimately show ?thesis using h t' by (auto simp: kids_wf_def list_all2_Cons1)
  qed
qed

text \<open>What \<open>removed\<close> and the invariant say of the only child of a root without keys.\<close>

lemma removed_child:
  assumes "removed key t (BNode i [] [c])"
  shows "removed key t c" and "mset (bt_ids c) \<subseteq># mset (bt_ids (BNode i [] [c]))"
proof -
  have "mset (bt_ids (BNode i [] [c])) = add_mset i (mset (bt_ids c))" by (simp add: mset_ids_node)
  then show sub: "mset (bt_ids c) \<subseteq># mset (bt_ids (BNode i [] [c]))" by simp
  show "removed key t c"
    using assms subset_mset.order_trans [OF sub] by (simp add: removed_def)
qed

section \<open>The root of the file\<close>

text \<open>Writing the root and the metadata.\<close>

lemma save_root:
  assumes "pager_ok p" and "holds p self t" and "stored p (kid_nodes t)" and "bt_wf (degree_of p) h None None t"
    and "distinct (bt_ids t)" and "ids_below t (pages p)" and "4 \<le> degree_of p" and "unique_index (pager_meta p)"
    and "meta_root (pager_meta p) = Some (bt_id t)" and "linked (bt_leaves t) None" and "bt_filled (degree_of p) t"
    and "synced p"
  shows "\<exists>q. io_bind (from_pager (pager_write_page self)) (\<lambda>_. io_bind save_metadata (\<lambda>_. io_ret x)) p = (Inr x, q) \<and>
    index_at q h t \<and> pages q = pages p \<and> degree_of q = degree_of p \<and> saved q"
proof -
  obtain p1 where p1: "pager_write_page self p = (Inr (page_of (degree_of p) t), p1)" "updates {bt_id t} p p1" "page_in p1 t"
    "pager_meta p1 = pager_meta p"
    using write_tree [OF assms(1,2,4) ids_below_ok [OF assms(6)]] by blast
  have st: "stored p1 (bt_nodes t)"
    using updates_stored [OF p1(2) assms(3)] kid_id_ne [OF assms(5)] p1(3) by (simp add: stored_nodes)
  have "pager_ok p1" "synced p1" using p1(2) assms(12) by (simp_all add: updates_def)
  then obtain q where q: "save_metadata p1 = (Inr (), q)" "updates {} p1 q" "pager_meta q = pager_meta p1" "saved q" "synced q"
    using save_metadata_ok [of p1] by (auto simp: updates_def)
  note none = updates_none [OF q(2,3)]
  have same: "pages q = pages p" "degree_of q = degree_of p"
    using none(4,6) p1(4) updates_degree [OF p1(2)] by (simp_all add: pages_def)
  have "index_at q h t"
    using none(3) [OF st] same q(2,3,5) p1(4) assms(4-11) by (simp add: index_at_def updates_def)
  then show ?thesis
    using from_pager_ok [of "pager_write_page self", OF p1(1)] q(1,4) same by (auto simp: io_bind_def)
qed

text \<open>A root without keys is deleted, its child is read and becomes the root.\<close>

lemma shrink_root_refines:
  assumes "pager_ok p" and "holds p self (BNode i [] [c])" and "page_in p t" and "bt_id t = i" and "0 \<le> i32_val i"
    and "stored p (bt_nodes c)" and "synced p"
  shows "\<exists>q. shrink_root keeps self p = (Inr (page_of (degree_of p) c), q) \<and> pager_ok q \<and>
    holds q (page_of (degree_of p) c) c \<and> stored q (kid_nodes c) \<and> degree_of q = degree_of p \<and> pages q = pages p \<and>
    meta_root (pager_meta q) = Some (bt_id c) \<and> unique_index (pager_meta q) = unique_index (pager_meta p) \<and>
    synced q"
proof -
  obtain b where self: "self = (page_of (degree_of p) (BNode i [] [c]))\<lparr>changed := b\<rparr>"
    using holds_cases [OF assms(2)] by blast
  obtain p1 where p1: "pager_delete_page keeps i p = (Inr (), p1)" "updates {} p p1" "pages p1 = pages p"
    "meta_changed (pager_meta p1)"
    using delete_page_ok [OF assms(1,3)] assms(4,5) by blast
  have D1: "degree_of p1 = degree_of p" "pager_ok p1" using updates_degree [OF p1(2)] p1(2) by (simp_all add: updates_def)
  have st1: "stored p1 (bt_nodes c)" using updates_stored [OF p1(2) assms(6)] by simp
  then have "page_in p1 c" by (simp add: stored_nodes)
  then obtain p2 where p2: "pager_read_page keeps (bt_id c) p1 = (Inr (page_of (degree_of p) c), p2)" "updates {} p1 p2"
    "pager_meta p2 = pager_meta p1"
    using read_tree [OF D1(2), of c keeps] D1(1) by auto
  note none = updates_none [OF p2(2,3)]
  let ?q = "pager_update_meta (\<lambda>m. m\<lparr>meta_root := Some (bt_id c)\<rparr>) p2"
  note root = set_root_keeps [where r = "bt_id c" and p = p2]
  have st: "stored ?q (bt_nodes c)" using none(3) [OF st1] root(6) by simp
  then have "holds ?q (page_of (degree_of p) c) c"
    using holds_page [of ?q c] root(2) none(6) D1(1) by (simp add: stored_nodes)
  moreover have "shrink_root keeps self p = (Inr (page_of (degree_of p) c), ?q)"
    using from_pager_ok [of "pager_delete_page keeps i", OF p1(1)] from_pager_ok [of "pager_read_page keeps (bt_id c)", OF p2(1)]
    by (simp add: shrink_root_def io_bind_def self vec_remove_def set_meta_root_def)
  moreover have "pager_ok ?q" "unique_index (pager_meta ?q) = unique_index (pager_meta p)"
    using root(1,9) p1(2) p2(2) by (simp_all add: updates_def)
  moreover have "synced ?q" using root(10) p2(2,3) p1(2,4) assms(7) by (simp add: updates_def)
  ultimately show ?thesis using st root none(4,6) D1 p1(3) by (auto simp: stored_nodes)
qed

section \<open>Deletion from the file\<close>

lemma delete_index:
  assumes "index_of p h es K" and "6 \<le> degree_of p" and "pages p < 2 ^ 31" and "h < fuel"
  shows "\<exists>q h' K'. btree_delete keeps fuel key p = (Inr (map_of es key), q) \<and>
    index_of q h' (filter (\<lambda>e. fst e \<noteq> key) es) K' \<and> K' \<subseteq> K \<and> h' \<le> h \<and> pages q \<le> max 1 (pages p) \<and>
    degree_of q = degree_of p \<and> saved q"
proof -
  obtain p0 self t where p0: "btree_root keeps p = (Inr self, p0)" "index_at p0 h t" "holds p0 self t"
    "es = bt_entries t" "K = bt_keys t" "pages p0 \<le> Suc (pages p)" "degree_of p0 = degree_of p"
    "pages p \<noteq> 0 \<longrightarrow> pages p0 = pages p"
    using root_refines [OF assms(1), of keeps] by blast
  let ?D = "degree_of p" and ?t1 = "bt_delete (degree_of p) h key t"
  have at0: "pager_ok p0" "bt_wf ?D h None None t" "distinct (bt_ids t)" "ids_below t (pages p0)"
    "linked (bt_leaves t) None" "unique_index (pager_meta p0)" "meta_root (pager_meta p0) = Some (bt_id t)"
    "stored p0 (bt_nodes t)" "bt_filled ?D t" "4 \<le> ?D" "synced p0"
    using p0(2,7) by (simp_all add: index_at_def)
  have tree: "tree_at p0 self h None None t" using at0 p0(3,7) by (simp add: tree_at_def stored_nodes)
  note del = removed_root [OF at0(2,9) assms(2), of key]
  obtain p1 self1 where p1: "node_delete keeps fuel key (self, p0) = (Inr (map_of es key), (self1, p1))"
    "leaves_tree p0 t self1 p1 ?t1 (pages p0)"
    using node_delete_refines [OF tree _ _ _ _ _ assms(4), of key keeps] at0(9) assms(2,3) p0(4,6,7) by auto
  have up: "updates (bt_id ` set (kid_nodes t)) p0 p1" and hold1: "holds p1 self1 ?t1" and st1: "stored p1 (kid_nodes ?t1)"
    and num1: "pages p1 = pages p0"
    using p1(2) by (simp_all add: leaves_tree_def)
  have D1: "degree_of p1 = ?D" and ok1: "pager_ok p1" using updates_degree [OF up] up p0(7) by (simp_all add: updates_def)
  have root1: "unique_index (pager_meta p1)" "meta_root (pager_meta p1) = Some (bt_id t)" "synced p1" using up at0(6,7,11) by (simp_all add: updates_def)
  have sub: "mset (bt_ids ?t1) \<subseteq># mset (bt_ids t)" using del(2) by (simp add: removed_def)
  have ids1: "distinct (bt_ids ?t1)" "ids_below ?t1 (pages p0)" using ids_sub [OF sub] at0(3,4) by blast+
  let ?put = "\<lambda>r. io_bind (from_pager (pager_write_page r)) (\<lambda>_. io_bind save_metadata (\<lambda>_. io_ret (map_of es key)))"
  have run: "btree_delete keeps fuel key p =
      io_bind (if keys self1 = [] \<and> \<not> is_leaf self1 then shrink_root keeps self1 else io_ret self1) ?put p1"
    using p0(1) with_node_ok [of "node_delete keeps fuel key", OF p1(1)] by (simp add: btree_delete_def io_bind_def)
  have "\<exists>q h' t'. btree_delete keeps fuel key p = (Inr (map_of es key), q) \<and> index_at q h' t' \<and> h' \<le> h \<and>
      removed key t t' \<and> pages q = pages p0 \<and> degree_of q = ?D \<and> saved q"
    using del(1)
  proof
    assume wf: "bt_wf ?D h None None ?t1"
    obtain b where self1: "self1 = (page_of ?D ?t1)\<lparr>changed := b\<rparr>" using holds_cases [OF hold1] D1 by auto
    have "\<not> (keys self1 = [] \<and> \<not> is_leaf self1)"
      using wf by (cases ?t1; cases h) (auto simp: self1 is_leaf_def)
    moreover have "linked (bt_leaves ?t1) None" using del(2) at0(5) by (simp add: removed_def relinks_def)
    then obtain q where "?put self1 p1 = (Inr (map_of es key), q)" "index_at q h ?t1" "pages q = pages p1" "degree_of q = ?D" "saved q"
      using save_root [OF ok1 hold1 st1 _ ids1(1), of h "map_of es key"] wf ids1(2) num1 D1 root1 at0(10) del(3,4) by auto
    ultimately show ?thesis using run del(2) num1 by (auto simp: io_bind_def [of "io_ret _"])
  next
    assume "\<exists>g i c. h = Suc g \<and> ?t1 = BNode i [] [c] \<and> bt_wf ?D g None None c"
    then obtain g i c where c: "h = Suc g" "?t1 = BNode i [] [c]" "bt_wf ?D g None None c" by blast
    note child = removed_child [OF del(2) [unfolded c(2)]]
    have i: "bt_id t = i" using del(4) c(2) by simp
    have nonneg: "0 \<le> i32_val i" using at0(4) id_in_ids [of t] i by (auto simp: ids_below_def)
    have old: "page_in p1 t"
    proof (rule updates_page_in [OF up])
      show "bt_id t \<notin> bt_id ` set (kid_nodes t)" using at0(3) by (simp add: ids_kids)
      show "page_in p0 t" using at0(8) by (simp add: stored_nodes)
    qed
    have stc: "stored p1 (bt_nodes c)" using st1 c(2) by simp
    obtain p2 where p2: "shrink_root keeps self1 p1 = (Inr (page_of ?D c), p2)" "pager_ok p2" "holds p2 (page_of ?D c) c"
      "stored p2 (kid_nodes c)" "degree_of p2 = ?D" "pages p2 = pages p0" "meta_root (pager_meta p2) = Some (bt_id c)"
      "unique_index (pager_meta p2)" "synced p2"
      using shrink_root_refines [OF ok1 hold1 [unfolded c(2)] old i nonneg stc root1(3), of keeps] D1 num1 root1 by auto
    obtain b where "self1 = (page_of ?D (BNode i [] [c]))\<lparr>changed := b\<rparr>"
      using holds_cases [OF hold1 [unfolded c(2)]] D1 by auto
    then have cond: "keys self1 = [] \<and> \<not> is_leaf self1" by (simp add: is_leaf_def)
    have idc: "distinct (bt_ids c)" "ids_below c (pages p0)"
      using ids_sub [OF child(2)] ids1 unfolding c(2) by blast+
    have linkc: "linked (bt_leaves c) None" using child(1) at0(5) by (simp add: removed_def relinks_def)
    have filledc: "bt_filled ?D c" using del(3) by (simp add: c(2))
    obtain q where "?put (page_of ?D c) p2 = (Inr (map_of es key), q)" "index_at q g c" "pages q = pages p0" "degree_of q = ?D" "saved q"
      using save_root [OF p2(2,3,4) _ idc(1), of g "map_of es key"] c(3) p2(5-9) idc(2) linkc filledc at0(10) by auto
    moreover have "g \<le> h" using c(1) by simp
    ultimately show ?thesis
      using run cond p2(1) child(1)
      by (intro exI [of _ q] exI [of _ g] exI [of _ c]) (simp add: io_bind_def [of "shrink_root _ _"])
  qed
  then obtain q h' t' where q: "btree_delete keeps fuel key p = (Inr (map_of es key), q)" "index_at q h' t'" "h' \<le> h"
    "removed key t t'" "pages q = pages p0" "degree_of q = ?D" "saved q"
    by blast
  have "bt_entries t' = filter (\<lambda>e. fst e \<noteq> key) es"
  proof (rule sorted_entries_unique)
    show "sorted_wrt (<) (map fst (bt_entries t'))" using q(2) wf_sorted unfolding index_at_def by blast
    have "sorted_wrt (<) (map fst es)" using wf_sorted [OF at0(2)] p0(4) by simp
    then show "sorted_wrt (<) (map fst (filter (\<lambda>e. fst e \<noteq> key) es))" by (simp add: sorted_wrt_map sorted_wrt_filter)
    show "set (bt_entries t') = set (filter (\<lambda>e. fst e \<noteq> key) es)" using q(4) p0(4) by (simp add: removed_def)
  qed
  then have "index_of q h' (filter (\<lambda>e. fst e \<noteq> key) es) (bt_keys t')" using q(2) unfolding index_of_def by auto
  moreover have "bt_keys t' \<subseteq> K" using q(4) p0(5) by (simp add: removed_def)
  moreover have "pages q \<le> max 1 (pages p)" using p0(6,8) q(5) by auto
  ultimately show ?thesis using q by (intro exI [of _ q] exI [of _ h'] exI [of _ "bt_keys t'"]) simp
qed

end
