(* ===== verification/BTree_Reopen.thy ===== *)
theory BTree_Reopen
  imports BTree_Index_Deletion
begin

text \<open>
  Creating and opening an index file (\<open>BTreeStore::new\<close> of \<open>src/src/tree/store.rs\<close>): a new
  file is an empty index, and a file whose metadata was saved is opened as the index it held.
\<close>

section \<open>The metadata in the file\<close>

lemma read_back_option:
  "r \<noteq> Some i32_min \<Longrightarrow> read_i32_with_null (i32_from_be (get_i32_be_bytes_from_option r)) = r"
  by (cases r) (simp_all add: read_i32_with_null_def get_i32_be_bytes_from_option_def)

definition meta_header :: "store_meta_data \<Rightarrow> byte list" where
  "meta_header m = u16_to_be (meta_max_degree m) @ u32_to_be (meta_number_of_pages m) @
     get_i32_be_bytes_from_option (first_deleted_page m) @ get_i32_be_bytes_from_option (meta_root m)"

lemma meta_header_eq: "meta_data_to_bytes m = Inr (meta_header m)"
  by (simp add: meta_data_to_bytes_def meta_header_def copy_into_def node_consts get_i32_be_bytes_from_option_def)

lemma length_meta_header: "length (meta_header m) = 14"
  by (simp add: meta_header_def get_i32_be_bytes_from_option_def)

lemma read_meta_header:
  assumes "first_deleted_page m \<noteq> Some i32_min" and "meta_root m \<noteq> Some i32_min"
  shows "read_meta_u16 (meta_header m) 0 = Inr (meta_max_degree m)"
    and "read_meta_u32 (meta_header m) 2 = Inr (meta_number_of_pages m)"
    and "\<exists>x. read_meta_i32 (meta_header m) 6 = Inr x \<and> read_i32_with_null x = first_deleted_page m"
    and "\<exists>x. read_meta_i32 (meta_header m) 10 = Inr x \<and> read_i32_with_null x = meta_root m"
proof -
  have opt: "length (get_i32_be_bytes_from_option r) = 4" for r by (simp add: get_i32_be_bytes_from_option_def)
  show "read_meta_u16 (meta_header m) 0 = Inr (meta_max_degree m)"
    by (simp add: read_meta_u16_def get_range_def length_meta_header) (simp add: meta_header_def)
  show "read_meta_u32 (meta_header m) 2 = Inr (meta_number_of_pages m)"
    by (simp add: read_meta_u32_def get_range_def length_meta_header) (simp add: meta_header_def)
  show "\<exists>x. read_meta_i32 (meta_header m) 6 = Inr x \<and> read_i32_with_null x = first_deleted_page m"
    using read_back_option [OF assms(1)]
    by (simp add: read_meta_i32_def get_range_def length_meta_header) (simp add: meta_header_def opt)
  show "\<exists>x. read_meta_i32 (meta_header m) 10 = Inr x \<and> read_i32_with_null x = meta_root m"
    using read_back_option [OF assms(2)]
    by (simp add: read_meta_i32_def get_range_def length_meta_header) (simp add: meta_header_def opt)
qed

section \<open>Opening\<close>

text \<open>What depends on the metadata and the bytes of the file only.\<close>

lemma same_file_pages:
  assumes "pager_file q = pager_file p" and "pager_degree q = pager_degree p"
  shows "pager_read_file q pid = pager_read_file p pid" and "page_in q t = page_in p t" and "stored q ts = stored p ts"
proof -
  show read: "pager_read_file q pid = pager_read_file p pid" for pid
    using assms by (simp add: pager_read_file_def node_page_offset_def pager_degree_def)
  show "page_in q t = page_in p t" for t
    using assms(2) by (simp add: page_in_def read degree_of_def)
  then show "stored q ts = stored p ts" by (simp add: stored_def)
qed

lemma reopen_index:
  assumes "index_of p h es K" and "saved p" and "fs path = Some (pager_file p)"
    and "4 \<le> unat d" and "even (unat d)"
  shows "\<exists>q. btree_new fs path d = (Inr q, fs) \<and> index_of q h es K \<and> pages q = pages p \<and>
    free_page q = free_page p \<and> degree_of q = degree_of p \<and> saved q"
proof -
  let ?m = "pager_meta p" and ?c = "pager_file p"
  let ?q = "pager_new ?c (?m\<lparr>meta_changed := False\<rparr>)"
  have head: "read_exact_at ?c 0 META_DATA_HEADER_SIZE = Inr (meta_header ?m)" and free: "first_deleted_page ?m \<noteq> Some i32_min"
    using assms(2) by (auto simp: saved_def meta_header_eq)
  have len: "META_DATA_HEADER_SIZE \<le> length ?c" using head by (auto simp: read_exact_at_Inr_iff node_consts)
  have okp: "pager_ok p" and uniq: "unique_index ?m"
    using assms(1) by (auto simp: index_of_def index_at_def)
  have root: "meta_root ?m \<noteq> Some i32_min"
  proof
    assume r: "meta_root ?m = Some i32_min"
    then obtain t where t: "index_at p h t" using assms(1) by (auto simp: index_of_def)
    then have "0 \<le> i32_val (bt_id t)" using id_in_ids [of t] by (auto simp: index_at_def ids_below_def)
    then show False using nonneg_not_min t r by (auto simp: index_at_def)
  qed
  note meta = read_meta_header [OF free root]
  obtain x y where xy: "read_meta_i32 (meta_header ?m) 6 = Inr x" "read_i32_with_null x = first_deleted_page ?m"
    "read_meta_i32 (meta_header ?m) 10 = Inr y" "read_i32_with_null y = meta_root ?m"
    using meta(3,4) by blast
  have "\<lparr>meta_max_degree = meta_max_degree ?m, meta_number_of_pages = meta_number_of_pages ?m,
      first_deleted_page = first_deleted_page ?m, meta_root = meta_root ?m, meta_changed = False,
      unique_index = True\<rparr> = ?m\<lparr>meta_changed := False\<rparr>"
    using uniq by (cases ?m) simp
  then have run: "btree_new fs path d = (Inr ?q, fs)"
    using assms(3-5) len head meta(1,2) xy by (simp add: btree_new_def open_file_def Let_def even_iff_mod_2_eq_zero)
  have deg: "pager_degree ?q = pager_degree p" "pager_file ?q = ?c" by (simp_all add: pager_new_def pager_degree_def)
  note same = same_file_pages [OF deg(2,1)]
  have keeps: "pages ?q = pages p" "free_page ?q = free_page p" "degree_of ?q = degree_of p" "unique_index (pager_meta ?q)"
    "meta_root (pager_meta ?q) = meta_root ?m"
    using uniq deg(1) by (simp_all add: pages_def free_page_def degree_of_def pager_new_def)
  have ok: "pager_ok ?q" using okp deg(1) by (simp add: pager_ok_def cache_coherent_def) (simp add: pager_new_def)
  have sav: "saved ?q" using head free by (simp add: saved_def meta_header_eq) (simp add: pager_new_def meta_header_def)
  then have "synced ?q" by (simp add: synced_def)
  then have "index_of ?q h es K"
    using assms(1) ok keeps same unfolding index_of_def index_at_def by (simp only: simp_thms) blast
  then show ?thesis using run keeps sav by blast
qed

text \<open>A file that does not exist or is too short is created.\<close>

lemma new_index:
  assumes "4 \<le> unat d" and "even (unat d)" and "unat d \<le> 8192" and "fs path = None"
  shows "\<exists>p. btree_new fs path d = (Inr p, fs(path := Some (pager_file p))) \<and> index_of p 0 [] {} \<and> pages p = 0 \<and>
    free_page p = None \<and> degree_of p = unat d \<and> saved p"
proof -
  let ?m = "\<lparr>meta_max_degree = d, meta_number_of_pages = 0, first_deleted_page = None,
    meta_root = None, meta_changed = False, unique_index = True\<rparr>"
  let ?p = "pager_new (write_at [] 0 (meta_header ?m)) ?m"
  have run: "btree_new fs path d = (Inr ?p, fs(path := Some (pager_file ?p)))"
    using assms by (simp add: btree_new_def btree_create_def open_file_def meta_header_eq Let_def even_iff_mod_2_eq_zero pager_new_def)
  have sav: "saved ?p"
    using read_write_same [of 14 "meta_header ?m" "[]" 0] length_meta_header
    by (simp add: saved_def meta_header_eq pager_new_def node_consts)
  have "pager_ok ?p" using assms by (simp add: pager_ok_def degree_ok_def pager_degree_def cache_coherent_def pager_new_def)
  moreover have "synced ?p" using sav by (simp add: synced_def)
  moreover have deg: "degree_of ?p = unat d" "pages ?p = 0" "free_page ?p = None"
    by (simp_all add: degree_of_def pager_degree_def pages_def free_page_def pager_new_def)
  ultimately have "index_of ?p 0 [] {}" using assms(1) by (simp add: index_of_def) (simp add: pager_new_def)
  then show ?thesis using run sav deg by blast
qed

end
