(* ===== verification/BTree_Range.thy ===== *)
theory BTree_Range
  imports BTree_Lookup
begin

text \<open>
  The range queries of \<open>src/src/tree/store.rs\<close>. They find the leaf of the bound and walk along
  the linked list of leaves, which is the sorted list of entries cut into pages.
\<close>

section \<open>The list of leaves\<close>

lemma entries_leaves: "bt_entries t = concat (map bt_entries (bt_leaves t))"
proof (induction t)
  case (BNode i ks cs)
  then show ?case by (induction cs) simp_all
qed simp

fun bt_is_leaf :: "btree \<Rightarrow> bool" where
  "bt_is_leaf (BLeaf i es nl) = True"
| "bt_is_leaf (BNode i ks cs) = False"

lemma leaves_nodes: "bt_leaves t = filter bt_is_leaf (bt_nodes t)"
proof (induction t)
  case (BNode i ks cs)
  then have "concat (map bt_leaves cs) = filter bt_is_leaf (concat (map bt_nodes cs))" by (induction cs) simp_all
  then show ?case by simp
qed simp

lemma leaf_form: "l \<in> set (bt_leaves t) \<Longrightarrow> \<exists>i es nl. l = BLeaf i es nl"
  by (cases l) (simp_all add: leaves_nodes)

lemma distinct_leaves: "distinct (bt_ids t) \<Longrightarrow> distinct (map bt_id (bt_leaves t))"
  by (simp add: bt_ids_def leaves_nodes distinct_map_filter)

lemma stored_leaves: "stored p (bt_nodes t) \<Longrightarrow> stored p (bt_leaves t)"
  by (auto simp: stored_def leaves_nodes)

lemma number_of_leaves:
  assumes "distinct (bt_ids t)" and "ids_below t n"
  shows "length (bt_leaves t) \<le> n"
proof -
  have "i32_val ` set (bt_ids t) \<subseteq> {0..<int n}" using assms(2) by (auto simp: ids_below_def)
  moreover have "inj_on i32_val (set (bt_ids t))" by (rule inj_onI) (simp add: i32_eq_iff)
  ultimately have "card (set (bt_ids t)) \<le> n"
    using card_inj_on_le [of i32_val "set (bt_ids t)" "{0..<int n}"] by simp
  then have "length (bt_nodes t) \<le> n" using assms(1) distinct_card [of "bt_ids t"] by (simp add: bt_ids_def)
  then show ?thesis
    unfolding leaves_nodes by (rule le_trans [OF length_filter_le])
qed

text \<open>The pages of the list, as the code holds them.\<close>

definition first_page :: "node_pager \<Rightarrow> btree list \<Rightarrow> node_page option" where
  "first_page p ls = (case ls of [] \<Rightarrow> None | l # _ \<Rightarrow> Some (page_of (degree_of p) l))"

lemma first_page_simps [simp]: "first_page p [] = None" "first_page p (l # ls) = Some (page_of (degree_of p) l)"
  by (simp_all add: first_page_def)

lemma next_node_refines:
  assumes "pager_ok p" and "stored p ls" and "linked (l # ls) None" and "l = BLeaf i es nl"
  shows "\<exists>q. next_node keeps (page_of (degree_of p) l) p = (Inr (first_page p ls), q) \<and> unchanged p q"
proof (cases ls)
  case Nil
  then show ?thesis using assms unchanged_refl by (simp add: next_node_def first_page_def)
next
  case (Cons u us)
  then obtain q where "pager_read_page keeps (bt_id u) p = (Inr (page_of (degree_of p) u), q)" "unchanged p q"
    using read_tree [OF assms(1), of u keeps] assms(2) by (auto simp: stored_def unchanged_def)
  then show ?thesis
    using assms(3,4) from_pager_ok [of "pager_read_page keeps (bt_id u)"]
    by (simp add: Cons next_node_def first_page_def io_bind_def)
qed

lemma select_values_eq: "select_values P (map fst es) (map snd es) = Inr (map snd (filter (\<lambda>e. P (fst e)) es))"
  by (induction es) simp_all

section \<open>Walking along the leaves\<close>

lemma walk_from_refines:
  assumes "pager_ok p" and "stored p ls" and "linked ls None" and "\<And>l. l \<in> set ls \<Longrightarrow> \<exists>i es nl. l = BLeaf i es nl"
    and "length ls < fuel"
  shows "\<exists>q. walk_from keeps fuel P False (first_page p ls) acc p =
      (Inr (acc @ map snd (concat (map bt_entries ls))), q) \<and> unchanged p q"
  using assms
proof (induction ls arbitrary: p fuel acc)
  case Nil
  then show ?case using unchanged_refl by (cases fuel) (simp_all add: first_page_def)
next
  case (Cons l ls)
  obtain f where f: "fuel = Suc f" "length ls < f" using Cons.prems(5) by (cases fuel) simp_all
  obtain i es nl where l: "l = BLeaf i es nl" using Cons.prems(4) [of l] by auto
  have st: "stored p ls" using Cons.prems(2) by (simp add: stored_def)
  obtain p1 where p1: "next_node keeps (page_of (degree_of p) l) p = (Inr (first_page p ls), p1)" "unchanged p p1"
    using next_node_refines [OF Cons.prems(1) st Cons.prems(3) l] by blast
  note same = unchanged_keeps [OF p1(2)]
  have fp: "first_page p ls = first_page p1 ls" by (cases ls) (simp_all add: first_page_def same(3))
  have link: "linked ls None" using Cons.prems(3) by (simp add: linked_Cons)
  obtain q where q: "walk_from keeps f P False (first_page p1 ls) (acc @ map snd es) p1 =
      (Inr ((acc @ map snd es) @ map snd (concat (map bt_entries ls))), q)" "unchanged p1 q"
    using Cons.IH [OF same(1) same(2) [OF st] link _ f(2), of "acc @ map snd es"] Cons.prems(4) same(1) by auto
  have "node_values (page_of (degree_of p) l) = map snd es" by (simp add: l)
  then have "walk_from keeps fuel P False (first_page p (l # ls)) acc p =
      (Inr (acc @ map snd (concat (map bt_entries (l # ls)))), q)"
    using p1(1) q(1) unfolding f(1) fp by (simp add: io_bind_def l)
  then show ?case using unchanged_trans [OF p1(2) q(2)] by blast
qed

lemma walk_until_refines:
  assumes "pager_ok p" and "stored p (as @ l # bs)" and "linked (as @ l # bs) None"
    and "\<And>u. u \<in> set (as @ [l]) \<Longrightarrow> \<exists>i es nl. u = BLeaf i es nl" and "bt_id l \<notin> bt_id ` set as"
    and "length as < fuel"
  shows "\<exists>q. walk_until keeps fuel P (bt_id l) (first_page p (as @ l # bs)) acc p =
      (Inr (acc @ map snd (concat (map bt_entries as) @ filter (\<lambda>e. P (fst e)) (bt_entries l))), q) \<and> unchanged p q"
  using assms
proof (induction as arbitrary: p fuel acc)
  case Nil
  obtain f where f: "fuel = Suc f" using Nil(6) by (cases fuel) simp_all
  obtain i es nl where "l = BLeaf i es nl" using Nil(4) [of l] by auto
  then show ?case using unchanged_refl [OF Nil(1)]
    by (simp add: f first_page_def io_bind_def select_values_eq)
next
  case (Cons u as)
  obtain f where f: "fuel = Suc f" "length as < f" using Cons.prems(6) by (cases fuel) simp_all
  obtain i es nl where u: "u = BLeaf i es nl" using Cons.prems(4) [of u] by auto
  have st: "stored p (as @ l # bs)" using Cons.prems(2) by (simp add: stored_def)
  have link: "linked (u # as @ l # bs) None" "linked (as @ l # bs) None" using Cons.prems(3) by simp_all
  obtain p1 where p1: "next_node keeps (page_of (degree_of p) u) p = (Inr (first_page p (as @ l # bs)), p1)" "unchanged p p1"
    using next_node_refines [OF Cons.prems(1) st link(1) u] by blast
  note same = unchanged_keeps [OF p1(2)]
  have fp: "first_page p (as @ l # bs) = first_page p1 (as @ l # bs)" by (cases as) (simp_all add: first_page_def same(3))
  have other: "bt_id l \<notin> bt_id ` set as" "i \<noteq> bt_id l" using Cons.prems(5) by (auto simp: u)
  obtain q where q: "walk_until keeps f P (bt_id l) (first_page p1 (as @ l # bs)) (acc @ map snd es) p1 =
      (Inr ((acc @ map snd es) @ map snd (concat (map bt_entries as) @ filter (\<lambda>e. P (fst e)) (bt_entries l))), q)" "unchanged p1 q"
    using Cons.IH [OF same(1) same(2) [OF st] link(2) _ other(1) f(2), of "acc @ map snd es"] Cons.prems(4) same(1) by auto
  have "walk_until keeps fuel P (bt_id l) (first_page p ((u # as) @ l # bs)) acc p =
      (Inr (acc @ map snd (concat (map bt_entries (u # as)) @ filter (\<lambda>e. P (fst e)) (bt_entries l))), q)"
    using p1(1) q(1) other(2) unfolding f(1) fp by (simp add: io_bind_def u)
  then show ?case using unchanged_trans [OF p1(2) q(2)] by blast
qed

section \<open>The first leaf and the leaf of a key\<close>

lemma leaves_nonempty: "bt_wf d h lo hi t \<Longrightarrow> bt_leaves t \<noteq> []"
proof -
  assume "bt_wf d h lo hi t"
  then show ?thesis using leaf_is_leaf [of d h lo hi t] by fastforce
qed

lemma left_most_refines:
  assumes "bt_wf (degree_of p) h lo hi t" and "stored p (kid_nodes t)" and "pager_ok p" and "h < fuel"
    and "self = (page_of (degree_of p) t)\<lparr>changed := b\<rparr>"
  shows "\<exists>q. node_find_left_most keeps fuel self p = (Inr (Some (bt_id (hd (bt_leaves t)))), q) \<and> unchanged p q"
  using assms
proof (induction h arbitrary: lo hi t fuel self b p)
  case 0
  then obtain i es nl where t: "t = BLeaf i es nl" using wf_leaf by blast
  obtain f where f: "fuel = Suc f" using 0(4) by (cases fuel) simp_all
  show ?case using unchanged_refl [OF 0(3)] 0(5) by (simp add: t f is_leaf_def)
next
  case (Suc h)
  then obtain i ks cs where t: "t = BNode i ks cs" using wf_node by blast
  obtain f where f: "fuel = Suc f" "h < f" using Suc.prems(4) by (cases fuel) simp_all
  have wf: "bt_wf (degree_of p) (Suc h) lo hi (BNode i ks cs)" using Suc.prems(1) by (simp add: t)
  have len: "length cs = Suc (length ks)" by (rule wf_kids_length [OF wf])
  then obtain c cs' where cs: "cs = c # cs'" by (cases cs) auto
  have st: "stored p (bt_nodes c)" using Suc.prems(2) by (simp add: t cs)
  obtain p1 where p1: "read_node keeps (bt_id c) p = (Inr (page_of (degree_of p) c), p1)" "unchanged p p1"
    using read_node_ok [OF Suc.prems(3), of c keeps] st by (auto simp: stored_nodes)
  note same = unchanged_keeps [OF p1(2)]
  have cw: "bt_wf (degree_of p1) h (lower lo ks 0) (upper ks hi 0) c"
    using wf_child [OF wf, of 0] by (simp add: same(3) cs)
  have cst: "stored p1 (kid_nodes c)" using same(2) st by (simp add: stored_nodes)
  have self: "page_of (degree_of p) c = (page_of (degree_of p1) c)\<lparr>changed := False\<rparr>"
    by (cases c) (simp_all add: same(3))
  obtain q where q: "node_find_left_most keeps f (page_of (degree_of p) c) p1 = (Inr (Some (bt_id (hd (bt_leaves c)))), q)"
    "unchanged p1 q"
    using Suc.IH [OF cw cst same(1) f(2) self] by blast
  have "node_find_left_most keeps fuel self p = (Inr (Some (bt_id (hd (bt_leaves t)))), q)"
    using p1(1) q(1) leaves_nonempty [OF cw] Suc.prems(5) by (simp add: f(1) t cs is_leaf_def index_get_def io_bind_def)
  then show ?case using unchanged_trans [OF p1(2) q(2)] by blast
qed

lemma read_found_refines:
  assumes "pager_ok p" and "page_in p l"
  shows "\<exists>q. read_found keeps (Some (bt_id l)) p = (Inr (Some (page_of (degree_of p) l)), q) \<and> unchanged p q"
proof -
  obtain q where q: "pager_read_page keeps (bt_id l) p = (Inr (page_of (degree_of p) l), q)" "unchanged p q"
    using read_tree [OF assms, of keeps] by (auto simp: unchanged_def)
  then show ?thesis
    using from_pager_ok [of "pager_read_page keeps (bt_id l)", OF q(1)] by (simp add: read_found_def io_bind_def)
qed

section \<open>The lookups of the file\<close>

lemma root_at:
  assumes "index_at p h t"
  shows "\<exists>q. btree_root keeps p = (Inr (page_of (degree_of p) t), q) \<and> unchanged p q"
proof -
  have "pager_ok p" "page_in p t" using assms by (simp_all add: index_at_def stored_nodes)
  then obtain q where "pager_read_page keeps (bt_id t) p = (Inr (page_of (degree_of p) t), q)" "unchanged p q"
    using read_tree [of p t keeps] by (auto simp: unchanged_def)
  then show ?thesis
    using assms from_pager_ok [of "pager_read_page keeps (bt_id t)"] by (simp add: btree_root_def index_at_def)
qed

text \<open>The leaf of the bound, when the bound is a key; nothing otherwise.\<close>

lemma find_node_index:
  assumes "btree_root keeps p = (Inr self, p0)" and "index_at p0 h t" and "holds p0 self t" and "h < fuel"
  shows "\<exists>q. find_node keeps fuel key p =
      (Inr (if key \<in> fst ` set (bt_entries t) then Some (page_of (degree_of p0) (bt_leaf h key t)) else None), q) \<and>
    unchanged p0 q"
proof -
  have at: "pager_ok p0" "bt_wf (degree_of p0) h None None t" "stored p0 (bt_nodes t)"
    using assms(2) by (simp_all add: index_at_def)
  have kids: "stored p0 (kid_nodes t)" using at(3) by (simp add: stored_nodes)
  obtain b where self: "self = (page_of (degree_of p0) t)\<lparr>changed := b\<rparr>"
    using holds_cases [OF assms(3)] by blast
  let ?l = "bt_leaf h key t"
  have key: "key \<in> fst ` set (bt_entries ?l) \<longleftrightarrow> key \<in> fst ` set (bt_entries t)"
    using leaf_lookup [OF at(2), of key] by (metis map_of_eq_None_iff)
  obtain p1 where p1: "node_find_node keeps fuel key self p0 =
      (Inr (if key \<in> fst ` set (bt_entries t) then Some (bt_id ?l) else None), p1)" "unchanged p0 p1"
    using find_node_refines [OF at(2) kids at(1) assms(4) self, of keeps key] unfolding key by blast
  note same = unchanged_keeps [OF p1(2)]
  have "page_in p1 ?l"
    using leaf_is_leaf [OF at(2), of key] same(2) [OF at(3)] by (auto simp: stored_def)
  then obtain q where q: "read_found keeps (Some (bt_id ?l)) p1 = (Inr (Some (page_of (degree_of p0) ?l)), q)" "unchanged p1 q"
    using read_found_refines [OF same(1)] same(3) by auto
  show ?thesis
  proof (cases "key \<in> fst ` set (bt_entries t)")
    case True
    then show ?thesis
      using assms(1) p1(1) q(1) unchanged_trans [OF p1(2) q(2)]
      by (auto simp: find_node_def io_bind_def from_node_def io_map_err_def)
  next
    case False
    then show ?thesis
      using assms(1) p1 by (auto simp: find_node_def io_bind_def from_node_def io_map_err_def read_found_def)
  qed
qed

lemma find_left_most_index:
  assumes "btree_root keeps p = (Inr self, p0)" and "index_at p0 h t" and "holds p0 self t" and "h < fuel"
  shows "\<exists>q. find_left_most_node keeps fuel p = (Inr (first_page p0 (bt_leaves t)), q) \<and> unchanged p0 q"
proof -
  have at: "pager_ok p0" "bt_wf (degree_of p0) h None None t" "stored p0 (bt_nodes t)"
    using assms(2) by (simp_all add: index_at_def)
  have kids: "stored p0 (kid_nodes t)" using at(3) by (simp add: stored_nodes)
  obtain b where self: "self = (page_of (degree_of p0) t)\<lparr>changed := b\<rparr>"
    using holds_cases [OF assms(3)] by blast
  obtain l ls where l: "bt_leaves t = l # ls" using leaves_nonempty [OF at(2)] by (cases "bt_leaves t") auto
  obtain p1 where p1: "node_find_left_most keeps fuel self p0 = (Inr (Some (bt_id l)), p1)" "unchanged p0 p1"
    using left_most_refines [OF at(2) kids at(1) assms(4) self, of keeps] by (auto simp: l)
  note same = unchanged_keeps [OF p1(2)]
  have "page_in p1 l" using stored_leaves [OF same(2) [OF at(3)]] by (simp add: l stored_def)
  then obtain q where q: "read_found keeps (Some (bt_id l)) p1 = (Inr (Some (page_of (degree_of p0) l)), q)" "unchanged p1 q"
    using read_found_refines [OF same(1)] same(3) by auto
  then show ?thesis
    using assms(1) p1(1) unchanged_trans [OF p1(2) q(2)]
    by (auto simp: find_left_most_node_def io_bind_def from_node_def io_map_err_def first_page_def l)
qed

section \<open>The parts of the list around the leaf of a key\<close>

lemma around_leaf:
  assumes "index_at p h t" and "key \<in> fst ` set (bt_entries t)"
  shows "\<exists>as bs. bt_leaves t = as @ bt_leaf h key t # bs \<and> bt_id (bt_leaf h key t) \<notin> bt_id ` set as \<and>
    length (bt_leaves t) \<le> pages p \<and> linked (bt_leaves t) None \<and> stored p (bt_leaves t) \<and>
    (\<forall>e \<in> set (concat (map bt_entries as)). fst e < key) \<and> (\<forall>e \<in> set (concat (map bt_entries bs)). key < fst e)"
proof -
  let ?l = "bt_leaf h key t"
  have at: "bt_wf (degree_of p) h None None t" "distinct (bt_ids t)" "ids_below t (pages p)" "linked (bt_leaves t) None"
    "stored p (bt_nodes t)"
    using assms(1) by (simp_all add: index_at_def)
  obtain as bs where l: "bt_leaves t = as @ ?l # bs"
    using leaf_is_leaf [OF at(1), of key] split_list [of ?l "bt_leaves t"] by auto
  have "key \<in> fst ` set (bt_entries ?l)"
    using leaf_lookup [OF at(1), of key] assms(2) by (metis map_of_eq_None_iff)
  then have key: "key \<in> set (map fst (bt_entries ?l))" by simp
  let ?A = "concat (map bt_entries as)" and ?B = "concat (map bt_entries bs)"
  have "sorted_wrt (<) (map fst ?A @ map fst (bt_entries ?l) @ map fst ?B)"
    using wf_sorted [OF at(1)] entries_leaves [of t] l by simp
  then have "\<forall>k \<in> set (map fst ?A). k < key" "\<forall>k \<in> set (map fst ?B). key < k"
    using key unfolding sorted_wrt_append set_append by blast+
  then have "\<forall>e \<in> set ?A. fst e < key" "\<forall>e \<in> set ?B. key < fst e" unfolding set_map by blast+
  moreover have "bt_id ?l \<notin> bt_id ` set as" using distinct_leaves [OF at(2)] by (simp add: l)
  ultimately show ?thesis
    using l at(4) stored_leaves [OF at(5)] number_of_leaves [OF at(2,3)] by blast
qed

section \<open>Range queries\<close>

text \<open>The entries above a bound; nothing when the bound itself is not a key.\<close>

lemma greater_index:
  assumes "index_of p h es K" and "h < fuel" and "Suc (pages p) < fuel"
  shows "\<exists>q. find_greater_than keeps fuel key with_equal p =
      (Inr (if key \<in> fst ` set es then map snd (filter (\<lambda>e. key < fst e \<or> (with_equal \<and> fst e = key)) es) else []), q) \<and>
    index_of q h es K"
proof -
  obtain p0 self t where p0: "btree_root keeps p = (Inr self, p0)" "index_at p0 h t" "holds p0 self t"
    "es = bt_entries t" "K = bt_keys t" "pages p0 \<le> Suc (pages p)"
    using root_refines [OF assms(1), of keeps] by blast
  let ?P = "\<lambda>k. key < k \<or> (with_equal \<and> k = key)" and ?l = "bt_leaf h key t"
  obtain p1 where p1: "find_node keeps fuel key p =
      (Inr (if key \<in> fst ` set es then Some (page_of (degree_of p0) ?l) else None), p1)" "unchanged p0 p1"
    using find_node_index [OF p0(1-3) assms(2), of key] unfolding p0(4) by blast
  have keep: "index_of q h es K" if "unchanged p0 q" for q
    using unchanged_index [OF that p0(2)] p0(4,5) by (auto simp: index_of_def)
  obtain f where f: "fuel = Suc f" "pages p0 \<le> f" using assms(3) p0(6) by (cases fuel) simp_all
  show ?thesis
  proof (cases "key \<in> fst ` set es")
    case False
    then show ?thesis using p1 keep [OF p1(2)] by (simp add: find_greater_than_def io_bind_def f(1))
  next
    case True
    obtain as bs where around: "bt_leaves t = as @ ?l # bs" "length (bt_leaves t) \<le> pages p0" "linked (bt_leaves t) None"
      "stored p0 (bt_leaves t)" "\<forall>e \<in> set (concat (map bt_entries as)). fst e < key"
      "\<forall>e \<in> set (concat (map bt_entries bs)). key < fst e"
      using around_leaf [OF p0(2), of key] True unfolding p0(4) by blast
    have forms: "\<exists>i es nl. u = BLeaf i es nl" if "u \<in> set (?l # bs)" for u
      using leaf_form [of u t] that around(1) by auto
    obtain i les nl where l: "?l = BLeaf i les nl" using forms [of ?l] by auto
    note same1 = unchanged_keeps [OF p1(2)]
    have link: "linked (?l # bs) None" "linked bs None" using around(1,3) by simp_all
    have st1: "stored p1 bs" using same1(2) [OF around(4)] around(1) by (simp add: stored_def)
    obtain p2 where p2: "next_node keeps (page_of (degree_of p1) ?l) p1 = (Inr (first_page p1 bs), p2)" "unchanged p1 p2"
      using next_node_refines [OF same1(1) st1 link(1) l] by blast
    note same2 = unchanged_keeps [OF p2(2)]
    have fp: "first_page p1 bs = first_page p2 bs" by (cases bs) (simp_all add: same2(3))
    have short: "length bs < f" using around(1,2) f(2) by simp
    let ?first = "map snd (filter (\<lambda>e. ?P (fst e)) les)"
    obtain q where q: "walk_from keeps f ?P False (first_page p2 bs) ?first p2 =
        (Inr (?first @ map snd (concat (map bt_entries bs))), q)" "unchanged p2 q"
      using walk_from_refines [OF same2(1) same2(2) [OF st1] link(2) _ short, of keeps ?P ?first] forms by auto
    have "find_greater_than keeps fuel key with_equal p = (Inr (?first @ map snd (concat (map bt_entries bs))), q)"
      using True p1(1) p2(1) q(1)
      by (simp add: find_greater_than_def io_bind_def f(1) l fp same1(3) select_values_eq [of ?P])
    moreover have "?first @ map snd (concat (map bt_entries bs)) = map snd (filter (\<lambda>e. ?P (fst e)) es)"
    proof -
      have "es = concat (map bt_entries as) @ les @ concat (map bt_entries bs)"
        using entries_leaves [of t] around(1) by (simp add: p0(4) l)
      moreover have "filter (\<lambda>e. ?P (fst e)) (concat (map bt_entries as)) = []"
        unfolding filter_empty_conv using around(5) by (metis less_asym less_irrefl)
      moreover have "filter (\<lambda>e. ?P (fst e)) (concat (map bt_entries bs)) = concat (map bt_entries bs)"
        using around(6) by (auto simp: filter_id_conv)
      ultimately show ?thesis by simp
    qed
    ultimately show ?thesis
      using True keep [OF unchanged_trans [OF p1(2) unchanged_trans [OF p2(2) q(2)]]] by auto
  qed
qed

text \<open>The entries below a bound; again nothing when the bound itself is not a key.\<close>

lemma smaller_index:
  assumes "index_of p h es K" and "h < fuel" and "Suc (pages p) < fuel"
  shows "\<exists>q. find_smaller_than keeps fuel key with_equal p =
      (Inr (if key \<in> fst ` set es then map snd (filter (\<lambda>e. fst e < key \<or> (with_equal \<and> fst e = key)) es) else []), q) \<and>
    index_of q h es K"
proof -
  obtain p0 self t where p0: "btree_root keeps p = (Inr self, p0)" "index_at p0 h t" "holds p0 self t"
    "es = bt_entries t" "K = bt_keys t" "pages p0 \<le> Suc (pages p)"
    using root_refines [OF assms(1), of keeps] by blast
  let ?P = "\<lambda>k. k < key \<or> (with_equal \<and> k = key)" and ?l = "bt_leaf h key t"
  obtain p1 where p1: "find_left_most_node keeps fuel p = (Inr (first_page p0 (bt_leaves t)), p1)" "unchanged p0 p1"
    using find_left_most_index [OF p0(1-3) assms(2)] by blast
  note same1 = unchanged_keeps [OF p1(2)]
  note at1 = unchanged_index [OF p1(2) p0(2)]
  obtain p2 where p2: "btree_root keeps p1 = (Inr (page_of (degree_of p1) t), p2)" "unchanged p1 p2"
    using root_at [OF at1] by blast
  note same2 = unchanged_keeps [OF p2(2)]
  note at2 = unchanged_index [OF p2(2) at1]
  have hold2: "holds p2 (page_of (degree_of p1) t) t"
    using holds_page [of p2 t] at2 same2(3) by (simp add: index_at_def stored_nodes)
  obtain p3 where p3: "find_node keeps fuel key p1 =
      (Inr (if key \<in> fst ` set es then Some (page_of (degree_of p2) ?l) else None), p3)" "unchanged p2 p3"
    using find_node_index [OF p2(1) at2 hold2 assms(2), of key] unfolding p0(4) by blast
  note un = unchanged_trans [OF p1(2) unchanged_trans [OF p2(2) p3(2)]]
  have keep: "index_of q h es K" if "unchanged p0 q" for q
    using unchanged_index [OF that p0(2)] p0(4,5) by (auto simp: index_of_def)
  show ?thesis
  proof (cases "key \<in> fst ` set es")
    case False
    then show ?thesis using p1(1) p3(1) keep [OF un] by (simp add: find_smaller_than_def io_bind_def)
  next
    case True
    obtain as bs where around: "bt_leaves t = as @ ?l # bs" "bt_id ?l \<notin> bt_id ` set as" "length (bt_leaves t) \<le> pages p0"
      "linked (bt_leaves t) None" "stored p0 (bt_leaves t)" "\<forall>e \<in> set (concat (map bt_entries as)). fst e < key"
      "\<forall>e \<in> set (concat (map bt_entries bs)). key < fst e"
      using around_leaf [OF p0(2), of key] True unfolding p0(4) by blast
    note same3 = unchanged_keeps [OF un]
    have st3: "stored p3 (as @ ?l # bs)" using same3(2) [OF around(5)] unfolding around(1) .
    have link: "linked (as @ ?l # bs) None" using around(4) unfolding around(1) .
    have forms: "\<exists>i es nl. u = BLeaf i es nl" if "u \<in> set (as @ [?l])" for u
      using leaf_form [of u t] that around(1) by auto
    have short: "length as < fuel" using around(1,3) assms(3) p0(6) by simp
    have fp: "first_page p0 (bt_leaves t) = first_page p3 (as @ ?l # bs)"
      unfolding around(1) by (cases as) (simp_all add: same3(3))
    obtain q where q: "walk_until keeps fuel ?P (bt_id ?l) (first_page p3 (as @ ?l # bs)) [] p3 =
        (Inr ([] @ map snd (concat (map bt_entries as) @ filter (\<lambda>e. ?P (fst e)) (bt_entries ?l))), q)" "unchanged p3 q"
      using walk_until_refines [OF same3(1) st3 link forms around(2) short, of keeps ?P "[]"] by blast
    have "map snd (concat (map bt_entries as) @ filter (\<lambda>e. ?P (fst e)) (bt_entries ?l)) = map snd (filter (\<lambda>e. ?P (fst e)) es)"
    proof -
      have "es = concat (map bt_entries as) @ bt_entries ?l @ concat (map bt_entries bs)"
        using entries_leaves [of t] by (simp add: p0(4) around(1))
      moreover have "filter (\<lambda>e. ?P (fst e)) (concat (map bt_entries as)) = concat (map bt_entries as)"
        using around(6) by (auto simp: filter_id_conv)
      moreover have "filter (\<lambda>e. ?P (fst e)) (concat (map bt_entries bs)) = []"
        unfolding filter_empty_conv using around(7) by (metis less_asym less_irrefl)
      ultimately show ?thesis by simp
    qed
    moreover have "find_smaller_than keeps fuel key with_equal p = walk_until keeps fuel ?P (bt_id ?l) (first_page p3 (as @ ?l # bs)) [] p3"
      using True p1(1) p3(1) by (simp add: find_smaller_than_def io_bind_def fp)
    ultimately show ?thesis
      using True q(1) keep [OF unchanged_trans [OF un q(2)]] by auto
  qed
qed

end
