(* ===== verification/BTree_Props.thy ===== *)
theory BTree_Props
  imports BTree_Reopen BTree_Range
begin

text \<open>
  What a B+ tree index promises, over the sorted list of its entries: insertion, lookup, deletion,
  range queries and reopening, and whole histories of a new index file.
\<close>

section \<open>A new index\<close>

definition new_meta :: "u16 \<Rightarrow> store_meta_data" where
  "new_meta d = \<lparr>meta_max_degree = d, meta_number_of_pages = 0, first_deleted_page = None,
     meta_root = None, meta_changed = False, unique_index = True\<rparr>"

definition sample_index :: node_pager where
  "sample_index = pager_new (meta_header (new_meta 6)) (new_meta 6)"

lemma sample_index_of: "index_of sample_index 0 [] {}"
  and sample_index_state: "pages sample_index = 0" "free_page sample_index = None" "degree_of sample_index = 6"
  and sample_index_saved: "saved sample_index"
proof -
  show sav: "saved sample_index"
    using length_meta_header [of "new_meta 6"]
    by (simp add: saved_def meta_header_eq sample_index_def pager_new_def new_meta_def read_exact_at_def node_consts)
  have deg: "pager_degree sample_index = 6" by (simp add: sample_index_def pager_new_def new_meta_def pager_degree_def)
  then show state: "pages sample_index = 0" "free_page sample_index = None" "degree_of sample_index = 6"
    by (simp_all add: pages_def free_page_def degree_of_def) (simp_all add: sample_index_def pager_new_def new_meta_def)
  have "pager_ok sample_index" using deg by (simp add: pager_ok_def degree_ok_def cache_coherent_def) (simp add: sample_index_def pager_new_def)
  then show "index_of sample_index 0 [] {}"
    using state sav by (simp add: index_of_def synced_def) (simp add: sample_index_def pager_new_def new_meta_def)
qed

text \<open>Small numbers as keys and values.\<close>

lemma i32_n_not_min: "k < 2 ^ 31 \<Longrightarrow> i32_n k \<noteq> i32_min"
  using new_page_id by (simp add: i32_n_def)

lemma i32_n_simps:
  assumes "j < 2 ^ 31" and "k < 2 ^ 31"
  shows "i32_n j = i32_n k \<longleftrightarrow> j = k" and "i32_n j < i32_n k \<longleftrightarrow> j < k"
proof -
  have v: "i32_val (i32_n j) = int j" "i32_val (i32_n k) = int k"
    using assms by (simp_all add: i32_n_def i32_val_usize_as_i32)
  show "i32_n j = i32_n k \<longleftrightarrow> j = k" "i32_n j < i32_n k \<longleftrightarrow> j < k"
    using v by (simp_all add: i32_eq_iff i32_less_iff)
qed

text \<open>Insertions and deletions of several keys.\<close>

fun insert_all :: "keeping \<Rightarrow> nat \<Rightarrow> index_entry list \<Rightarrow> unit btree_io" where
  "insert_all keeps fuel [] = io_ret ()"
| "insert_all keeps fuel (e # es) =
     io_bind (btree_insert keeps fuel (fst e) (snd e)) (\<lambda>_. insert_all keeps fuel es)"

fun delete_all :: "keeping \<Rightarrow> nat \<Rightarrow> i32 list \<Rightarrow> (i32 \<times> i32) option list btree_io" where
  "delete_all keeps fuel [] = io_ret []"
| "delete_all keeps fuel (k # ks) =
     io_bind (btree_delete keeps fuel k) (\<lambda>v. io_bind (delete_all keeps fuel ks) (\<lambda>vs. io_ret (v # vs)))"

text \<open>An insertion adds at most the height and four pages, so \<open>n\<close> of them stay below \<open>n * (n + 4)\<close>.\<close>

lemma insert_all_index:
  assumes "index_of p h es K" and "free_page p = None" and "h \<le> n" and "pages p \<le> n * (n + 4)"
    and "(n + length new) * (n + length new + 4) \<le> 2 ^ 31" and "Suc (n + length new) < fuel"
    and "distinct (map fst new)" and "K \<inter> fst ` set new = {}"
    and "\<And>e. e \<in> set new \<Longrightarrow> fst e \<noteq> i32_min \<and> fst (snd e) \<noteq> i32_min \<and> snd (snd e) \<noteq> i32_min"
  shows "\<exists>q h' K'. insert_all keeps fuel new p = (Inr (), q) \<and>
    index_of q h' (fold (\<lambda>e. insert_entry (fst e) (snd e)) new es) K' \<and> h' \<le> n + length new \<and>
    pages q \<le> (n + length new) * (n + length new + 4) \<and> free_page q = None \<and> degree_of q = degree_of p \<and>
    (saved p \<longrightarrow> saved q)"
  using assms
proof (induction new arbitrary: p h es K n)
  case Nil
  then show ?case by auto
next
  case (Cons e new)
  let ?N = "n + length (e # new)"
  have "(n + 1) * (n + 1 + 4) \<le> ?N * (?N + 4)" by (intro mult_le_mono) simp_all
  then have "n * (n + 4) + n + 4 \<le> 2 ^ 31" using Cons.prems(5) by (simp add: algebra_simps)
  then have room: "pages p + h + 4 \<le> 2 ^ 31" using Cons.prems(3,4) by simp
  have ok: "fst e \<noteq> i32_min" "fst (snd e) \<noteq> i32_min" "snd (snd e) \<noteq> i32_min" using Cons.prems(9) by simp_all
  have fresh: "fst e \<notin> K" using Cons.prems(8) by auto
  have fuel: "Suc h < fuel" using Cons.prems(3,6) by simp
  obtain q h' where q: "btree_insert keeps fuel (fst e) (snd e) p = (Inr (), q)"
    "index_of q h' (insert_entry (fst e) (snd e) es) (insert (fst e) K)" "h' \<le> Suc h" "pages q \<le> pages p + h + 4"
    "free_page q = None" "degree_of q = degree_of p" "saved q"
    using insert_index [OF Cons.prems(1,2) room fresh ok fuel] by blast
  have "Suc n * (Suc n + 4) = n * (n + 4) + 2 * n + 5" by (simp add: algebra_simps)
  then have size: "h' \<le> Suc n" "pages q \<le> Suc n * (Suc n + 4)" using q(3,4) Cons.prems(3,4) by simp_all
  have bound: "(Suc n + length new) * (Suc n + length new + 4) \<le> 2 ^ 31" "Suc (Suc n + length new) < fuel"
    using Cons.prems(5,6) by simp_all
  have keys: "distinct (map fst new)" "insert (fst e) K \<inter> fst ` set new = {}" using Cons.prems(7,8) by auto
  have rest: "x \<in> set new \<Longrightarrow> fst x \<noteq> i32_min \<and> fst (snd x) \<noteq> i32_min \<and> snd (snd x) \<noteq> i32_min" for x
    using Cons.prems(9) by simp
  obtain r h2 K2 where "insert_all keeps fuel new q = (Inr (), r)"
    "index_of r h2 (fold (\<lambda>e. insert_entry (fst e) (snd e)) new (insert_entry (fst e) (snd e) es)) K2"
    "h2 \<le> Suc n + length new" "pages r \<le> (Suc n + length new) * (Suc n + length new + 4)" "free_page r = None"
    "degree_of r = degree_of q" "saved q \<longrightarrow> saved r"
    using Cons.IH [OF q(2,5) size bound keys rest] by blast
  then show ?case using q(1,6,7) by (auto simp: io_bind_def)
qed

text \<open>The same as maps.\<close>

lemma map_of_insert_entry: "key \<notin> fst ` set es \<Longrightarrow> map_of (insert_entry key v es) = (map_of es)(key \<mapsto> v)"
  by (induction es) (auto simp: fun_upd_twist)

lemma map_of_inserted:
  "distinct (map fst new) \<Longrightarrow> fst ` set es \<inter> fst ` set new = {} \<Longrightarrow>
   map_of (fold (\<lambda>e. insert_entry (fst e) (snd e)) new es) = map_of es ++ map_of new"
proof (induction new arbitrary: es)
  case (Cons e new)
  have fresh: "fst e \<notin> fst ` set es" "fst e \<notin> dom (map_of new)"
    using Cons.prems by (auto simp: dom_map_of_conv_image_fst)
  have "fst ` set (insert_entry (fst e) (snd e) es) \<inter> fst ` set new = {}"
    using Cons.prems fresh(1) by (auto simp: set_insert_entry)
  then have "map_of (fold (\<lambda>e. insert_entry (fst e) (snd e)) (e # new) es) =
      map_of (insert_entry (fst e) (snd e) es) ++ map_of new"
    using Cons.IH [of "insert_entry (fst e) (snd e) es"] Cons.prems(1) by simp
  also have "\<dots> = (map_of es)(fst e \<mapsto> snd e) ++ map_of new"
    unfolding map_of_insert_entry [OF fresh(1)] ..
  also have "\<dots> = map_of es ++ map_of (e # new)"
    using map_add_upd_left [OF fresh(2)] by (cases e) (simp only: map_of.simps map_add_upd fst_conv snd_conv)
  finally show ?case .
qed simp

lemma map_of_deleted: "map_of (filter (\<lambda>e. fst e \<noteq> k) es) = (map_of es)(k := None)"
  by (induction es) auto

fun deleted_values :: "('k \<Rightarrow> 'v option) \<Rightarrow> 'k list \<Rightarrow> 'v option list" where
  "deleted_values m [] = []"
| "deleted_values m (k # ks) = m k # deleted_values (m(k := None)) ks"

lemma delete_all_index:
  assumes "index_of p h es K" and "6 \<le> degree_of p" and "pages p < 2 ^ 31" and "h < fuel" and "saved p"
  shows "\<exists>q h' es' K'. delete_all keeps fuel ks p = (Inr (deleted_values (map_of es) ks), q) \<and>
    index_of q h' es' K' \<and> map_of es' = map_of es |` (- set ks) \<and> h' \<le> h \<and> saved q \<and> degree_of q = degree_of p"
  using assms
proof (induction ks arbitrary: p h es K)
  case Nil
  then show ?case by (auto simp: restrict_map_def)
next
  case (Cons k ks)
  obtain q h' K' where q: "btree_delete keeps fuel k p = (Inr (map_of es k), q)"
    "index_of q h' (filter (\<lambda>e. fst e \<noteq> k) es) K'" "h' \<le> h" "pages q \<le> max 1 (pages p)" "degree_of q = degree_of p" "saved q"
    using delete_index [OF Cons.prems(1-4), where key = k and keeps = keeps] by blast
  have pre: "6 \<le> degree_of q" "pages q < 2 ^ 31" "h' < fuel" using q(3-5) Cons.prems(2-4) by simp_all
  obtain r h2 es2 K2 where "delete_all keeps fuel ks q = (Inr (deleted_values ((map_of es)(k := None)) ks), r)"
    "index_of r h2 es2 K2" "map_of es2 = (map_of es)(k := None) |` (- set ks)" "h2 \<le> h'" "saved r" "degree_of r = degree_of q"
    using Cons.IH [OF q(2) pre q(6)] unfolding map_of_deleted by blast
  moreover have "(map_of es)(k := None) |` (- set ks) = map_of es |` (- set (k # ks))"
    by (rule ext) (simp add: restrict_map_def)
  ultimately show ?case
    using q(1,3,5) by (intro exI [of _ r] exI [of _ h2] exI [of _ es2] exI [of _ K2]) (simp add: io_bind_def)
qed

definition sample_entries :: "index_entry list" where
  "sample_entries = [(i32_n 7, i32_n 1, i32_n 2), (i32_n 3, i32_n 4, i32_n 5)]"

lemma sample_run:
  assumes "3 < fuel"
  shows "\<exists>p h K. insert_all keeps fuel sample_entries sample_index = (Inr (), p) \<and>
    index_of p h (fold (\<lambda>e. insert_entry (fst e) (snd e)) sample_entries []) K \<and> h \<le> 2 \<and> pages p \<le> 12 \<and>
    degree_of p = 6 \<and> saved p"
proof -
  have ok: "e \<in> set sample_entries \<Longrightarrow> fst e \<noteq> i32_min \<and> fst (snd e) \<noteq> i32_min \<and> snd (snd e) \<noteq> i32_min" for e
    by (auto simp: sample_entries_def i32_n_not_min)
  have len: "length sample_entries = 2" "distinct (map fst sample_entries)"
    by (simp_all add: sample_entries_def i32_n_simps)
  show ?thesis
    using insert_all_index [OF sample_index_of sample_index_state(2), of 0 sample_entries fuel keeps] ok len
      sample_index_state sample_index_saved assms by (auto simp: numeral_2_eq_2 [symmetric])
qed

section \<open>Single operations\<close>

text \<open>
  C6. Insertion of a key that occurs on no page of the tree, with no sentinel value and no page to
  be reused, is insertion into the sorted list of entries: the tree invariant and the links between
  the leaves hold again, the height grows by one at most, and the metadata is in the file.
\<close>

theorem btree_insert_spec:
  assumes "index_of p h es K" and "free_page p = None" and "pages p + h + 4 \<le> 2 ^ 31"
    and "key \<notin> K" and "key \<noteq> i32_min" and "fst v \<noteq> i32_min" and "snd v \<noteq> i32_min" and "Suc h < fuel"
  shows "\<exists>q h'. btree_insert keeps fuel key v p = (Inr (), q) \<and>
    index_of q h' (insert_entry key v es) (insert key K) \<and> h' \<le> Suc h \<and>
    pages q \<le> pages p + h + 4 \<and> free_page q = None \<and> degree_of q = degree_of p \<and> saved q"
  using assms by (rule insert_index)

theorem btree_insert_spec_witness:
  "\<exists>q h'. btree_insert (\<lambda>_ _. True) 2 (i32_n 7) (i32_n 1, i32_n 2) sample_index = (Inr (), q) \<and>
    index_of q h' [(i32_n 7, i32_n 1, i32_n 2)] {i32_n 7}"
  using btree_insert_spec [OF sample_index_of, of "i32_n 7" "(i32_n 1, i32_n 2)" 2 "\<lambda>_ _. True"]
    sample_index_state i32_n_not_min by auto

text \<open>C27. A lookup returns the value of the key among the entries and leaves the index as it is.\<close>

theorem btree_find_spec:
  assumes "index_of p h es K" and "h < fuel"
  shows "\<exists>q. btree_find keeps fuel key p = (Inr (map_of es key), q) \<and> index_of q h es K \<and>
    free_page q = free_page p \<and> pages q \<le> Suc (pages p) \<and> (pages p \<noteq> 0 \<longrightarrow> pages q = pages p) \<and> degree_of q = degree_of p"
  using assms by (rule find_index)

theorem btree_find_spec_witness:
  "\<exists>p q. insert_all (\<lambda>_ _. True) 9 sample_entries sample_index = (Inr (), p) \<and>
    btree_find (\<lambda>_ _. True) 9 (i32_n 7) p = (Inr (Some (i32_n 1, i32_n 2)), q)"
proof -
  obtain p h K where p: "insert_all (\<lambda>_ _. True) 9 sample_entries sample_index = (Inr (), p)"
    "index_of p h (fold (\<lambda>e. insert_entry (fst e) (snd e)) sample_entries []) K" "h \<le> 2" "saved p"
    using sample_run [of 9 "\<lambda>_ _. True"] by auto
  then show ?thesis
    using btree_find_spec [OF p(2), of 9 "\<lambda>_ _. True" "i32_n 7"] by (auto simp: sample_entries_def i32_n_simps)
qed

text \<open>
  C5. Deletion in an index of degree 6 or more returns the value of the key and removes it from the
  sorted list of entries; the invariant holds again, whatever was borrowed or merged on the way and
  also when the root lost its last key.
\<close>

theorem btree_delete_spec:
  assumes "index_of p h es K" and "6 \<le> degree_of p" and "pages p < 2 ^ 31" and "h < fuel"
  shows "\<exists>q h' K'. btree_delete keeps fuel key p = (Inr (map_of es key), q) \<and>
    index_of q h' (filter (\<lambda>e. fst e \<noteq> key) es) K' \<and> K' \<subseteq> K \<and> h' \<le> h \<and> pages q \<le> max 1 (pages p) \<and>
    degree_of q = degree_of p \<and> saved q"
  using assms by (rule delete_index)

theorem btree_delete_spec_witness:
  "\<exists>p q h K. insert_all (\<lambda>_ _. True) 9 sample_entries sample_index = (Inr (), p) \<and>
    btree_delete (\<lambda>_ _. True) 9 (i32_n 7) p = (Inr (Some (i32_n 1, i32_n 2)), q) \<and>
    index_of q h [(i32_n 3, i32_n 4, i32_n 5)] K"
proof -
  obtain p h K where p: "insert_all (\<lambda>_ _. True) 9 sample_entries sample_index = (Inr (), p)"
    "index_of p h (fold (\<lambda>e. insert_entry (fst e) (snd e)) sample_entries []) K" "h \<le> 2" "pages p \<le> 12" "degree_of p = 6"
    using sample_run [of 9 "\<lambda>_ _. True"] by auto
  then show ?thesis
    using btree_delete_spec [OF p(2), of 9 "\<lambda>_ _. True" "i32_n 7"] by (auto simp: sample_entries_def i32_n_simps)
qed

text \<open>
  C14. The range queries return, in the order of the keys, the values of all entries above or below
  a bound that is itself a key, and nothing when it is not; they change nothing.
\<close>

theorem btree_range_spec:
  assumes "index_of p h es K" and "h < fuel" and "Suc (pages p) < fuel"
  shows "\<exists>q r. find_greater_than keeps fuel key with_equal p =
      (Inr (if key \<in> fst ` set es then map snd (filter (\<lambda>e. key < fst e \<or> (with_equal \<and> fst e = key)) es) else []), q) \<and>
    find_smaller_than keeps fuel key with_equal p =
      (Inr (if key \<in> fst ` set es then map snd (filter (\<lambda>e. fst e < key \<or> (with_equal \<and> fst e = key)) es) else []), r) \<and>
    index_of q h es K \<and> index_of r h es K"
  using greater_index [OF assms, of keeps key with_equal] smaller_index [OF assms, of keeps key with_equal] by blast

theorem btree_range_spec_witness:
  "\<exists>p q r. insert_all (\<lambda>_ _. True) 20 sample_entries sample_index = (Inr (), p) \<and>
    find_greater_than (\<lambda>_ _. True) 20 (i32_n 3) False p = (Inr [(i32_n 1, i32_n 2)], q) \<and>
    find_smaller_than (\<lambda>_ _. True) 20 (i32_n 4) False p = (Inr [], r)"
proof -
  obtain p h K where p: "insert_all (\<lambda>_ _. True) 20 sample_entries sample_index = (Inr (), p)"
    "index_of p h (fold (\<lambda>e. insert_entry (fst e) (snd e)) sample_entries []) K" "h \<le> 2" "pages p \<le> 12"
    using sample_run [of 20 "\<lambda>_ _. True"] by auto
  then show ?thesis
    using btree_range_spec [OF p(2), of 20 "\<lambda>_ _. True" "i32_n 3" False]
      btree_range_spec [OF p(2), of 20 "\<lambda>_ _. True" "i32_n 4" False] by (auto simp: sample_entries_def i32_n_simps)
qed

section \<open>Files\<close>

text \<open>
  C15. A file whose metadata was saved, as after every insertion and deletion, is opened again as
  the same index, whatever degree is asked for.
\<close>

theorem btree_reopen_spec:
  assumes "index_of p h es K" and "saved p" and "fs path = Some (pager_file p)" and "4 \<le> unat d" and "even (unat d)"
  shows "\<exists>q. btree_new fs path d = (Inr q, fs) \<and> index_of q h es K \<and> pages q = pages p \<and>
    free_page q = free_page p \<and> degree_of q = degree_of p \<and> saved q"
  using assms by (rule reopen_index)

theorem btree_reopen_spec_witness:
  "\<exists>p q h K. insert_all (\<lambda>_ _. True) 9 sample_entries sample_index = (Inr (), p) \<and>
    btree_new [''tree'' \<mapsto> pager_file p] ''tree'' 4 = (Inr q, [''tree'' \<mapsto> pager_file p]) \<and>
    index_of q h [(i32_n 3, i32_n 4, i32_n 5), (i32_n 7, i32_n 1, i32_n 2)] K"
proof -
  obtain p h K where p: "insert_all (\<lambda>_ _. True) 9 sample_entries sample_index = (Inr (), p)"
    "index_of p h (fold (\<lambda>e. insert_entry (fst e) (snd e)) sample_entries []) K" "saved p"
    using sample_run [of 9 "\<lambda>_ _. True"] by auto
  then show ?thesis
    using btree_reopen_spec [OF p(2,3), of "[''tree'' \<mapsto> pager_file p]" "''tree''" 4] by (auto simp: sample_entries_def i32_n_simps)
qed

text \<open>
  C2. A history of a file. A new index of an even degree from 6 takes any list of entries with
  distinct keys, then gives back and removes any list of keys; it is closed, opened again, and
  every lookup finds exactly the entries that were inserted and not removed. The number of entries
  only bounds the pages: 46000 are covered.
\<close>

theorem btree_history:
  assumes "6 \<le> unat d" and "even (unat d)" and "unat d \<le> 8192" and "fs path = None"
    and "distinct (map fst es)" and "length es \<le> 46000" and "Suc (length es) < fuel"
    and "\<And>e. e \<in> set es \<Longrightarrow> fst e \<noteq> i32_min \<and> fst (snd e) \<noteq> i32_min \<and> snd (snd e) \<noteq> i32_min"
  shows "\<exists>p q r s. btree_new fs path d = (Inr p, fs(path := Some (pager_file p))) \<and>
    insert_all keeps fuel es p = (Inr (), q) \<and>
    delete_all keeps fuel ks q = (Inr (deleted_values (map_of es) ks), r) \<and>
    btree_new (fs(path := Some (pager_file r))) path d = (Inr s, fs(path := Some (pager_file r))) \<and>
    (\<forall>key. \<exists>s'. btree_find keeps fuel key s = (Inr (if key \<in> set ks then None else map_of es key), s'))"
proof -
  let ?n = "length es"
  have four: "4 \<le> unat d" using assms(1) by simp
  obtain p where p: "btree_new fs path d = (Inr p, fs(path := Some (pager_file p)))" "index_of p 0 [] {}" "pages p = 0"
    "free_page p = None" "degree_of p = unat d" "saved p"
    using new_index [of d fs path, OF four assms(2,3,4)] by blast
  have "?n * (?n + 4) \<le> 46000 * 46004" using assms(6) by (intro mult_le_mono) simp_all
  then have bound: "?n * (?n + 4) < 2 ^ 31" by simp
  obtain q h K where q: "insert_all keeps fuel es p = (Inr (), q)"
    "index_of q h (fold (\<lambda>e. insert_entry (fst e) (snd e)) es []) K" "h \<le> ?n" "pages q \<le> ?n * (?n + 4)"
    "degree_of q = unat d" "saved q"
    using insert_all_index [OF p(2,4), of 0 es fuel keeps] p(3,5,6) bound assms(5,7,8) by auto
  have entries: "map_of (fold (\<lambda>e. insert_entry (fst e) (snd e)) es []) = map_of es"
    using map_of_inserted [OF assms(5), of "[]"] by simp
  have pre: "6 \<le> degree_of q" "pages q < 2 ^ 31" "h < fuel" using q(3-5) assms(1,7) bound by simp_all
  obtain r h2 es2 K2 where r: "delete_all keeps fuel ks q = (Inr (deleted_values (map_of es) ks), r)"
    "index_of r h2 es2 K2" "map_of es2 = map_of es |` (- set ks)" "h2 \<le> h" "saved r"
    using delete_all_index [OF q(2) pre q(6), where keeps = keeps and ks = ks] unfolding entries by blast
  let ?fs = "fs(path := Some (pager_file r))"
  obtain s where s: "btree_new ?fs path d = (Inr s, ?fs)" "index_of s h2 es2 K2"
    using reopen_index [OF r(2,5), of ?fs path d] four assms(2) by auto
  have "h2 < fuel" using r(4) pre(3) by simp
  have "\<exists>s'. btree_find keeps fuel key s = (Inr (if key \<in> set ks then None else map_of es key), s')" for key
    using find_index [OF s(2) \<open>h2 < fuel\<close>, of keeps key] r(3) by (auto simp: restrict_map_def)
  then show ?thesis using p(1) q(1) r(1) s(1) by blast
qed

theorem btree_history_witness:
  "\<exists>p q r s s'. btree_new Map.empty ''tree'' 6 = (Inr p, [''tree'' \<mapsto> pager_file p]) \<and>
    insert_all (\<lambda>_ _. False) 9 sample_entries p = (Inr (), q) \<and>
    delete_all (\<lambda>_ _. False) 9 [i32_n 3, i32_n 4] q = (Inr [Some (i32_n 4, i32_n 5), None], r) \<and>
    btree_new [''tree'' \<mapsto> pager_file r] ''tree'' 6 = (Inr s, [''tree'' \<mapsto> pager_file r]) \<and>
    btree_find (\<lambda>_ _. False) 9 (i32_n 7) s = (Inr (Some (i32_n 1, i32_n 2)), s')"
proof -
  let ?k = "\<lambda>_ _. False" and ?ks = "[i32_n 3, i32_n 4]"
  have ok: "distinct (map fst sample_entries)" "length sample_entries \<le> 46000" "Suc (length sample_entries) < 9"
    by (simp_all add: sample_entries_def i32_n_simps)
  have deg: "6 \<le> unat (6 :: u16)" "even (unat (6 :: u16))" "unat (6 :: u16) \<le> 8192" "Map.empty ''tree'' = None" by simp_all
  have keys: "e \<in> set sample_entries \<Longrightarrow> fst e \<noteq> i32_min \<and> fst (snd e) \<noteq> i32_min \<and> snd (snd e) \<noteq> i32_min" for e
    by (auto simp: sample_entries_def i32_n_not_min)
  have out: "deleted_values (map_of sample_entries) ?ks = [Some (i32_n 4, i32_n 5), None]"
    "map_of sample_entries (i32_n 7) = Some (i32_n 1, i32_n 2)" "i32_n 7 \<notin> set ?ks"
    by (simp_all add: sample_entries_def i32_n_simps)
  obtain p q r s where h: "btree_new Map.empty ''tree'' 6 = (Inr p, [''tree'' \<mapsto> pager_file p])"
    "insert_all ?k 9 sample_entries p = (Inr (), q)" "delete_all ?k 9 ?ks q = (Inr (deleted_values (map_of sample_entries) ?ks), r)"
    "btree_new [''tree'' \<mapsto> pager_file r] ''tree'' 6 = (Inr s, [''tree'' \<mapsto> pager_file r])"
    "\<forall>key. \<exists>s'. btree_find ?k 9 key s = (Inr (if key \<in> set ?ks then None else map_of sample_entries key), s')"
    using btree_history [of 6 Map.empty "''tree''", OF deg ok keys, where keeps = ?k and ks = ?ks] by blast
  obtain s' where "btree_find ?k 9 (i32_n 7) s = (Inr (Some (i32_n 1, i32_n 2)), s')"
    using h(5) out(2,3) by metis
  then show ?thesis using h(1-4) out(1) by metis
qed

end
