(* ===== verification/BTree_Duplicate.thy ===== *)
theory BTree_Duplicate
  imports BTree_Props
begin

text \<open>
  Insertion of a key that the index has already, when no page on the way to its leaf is full. The
  entries stay as they are; the error is only reported when the root is a leaf, since the code drops
  the result of the insertion into a child.
\<close>

fun bt_path_open :: "nat \<Rightarrow> nat \<Rightarrow> i32 \<Rightarrow> btree \<Rightarrow> bool" where
  "bt_path_open d (Suc h) key (BNode i ks cs) \<longleftrightarrow>
     \<not> bt_full d (BNode i ks cs) \<and> bt_path_open d h key (cs ! child_pos key ks)"
| "bt_path_open d _ key t \<longleftrightarrow> \<not> bt_full d t"

lemma path_open_root: "bt_path_open d h key t \<Longrightarrow> \<not> bt_full d t"
  by (induction d h key t rule: bt_path_open.induct) simp_all

lemma leaf_duplicate:
  assumes "self = (page_of D (BLeaf i es nl))\<lparr>changed := b\<rparr>" and "sorted_wrt (<) (map fst es)" and "key \<in> fst ` set es"
  shows "insert_key_value key v (self, p) = (Inl (Err TryInsertDuplicate), (self, p))"
proof -
  obtain j where j: "j < length es" "map fst es ! j = key" using assms(3) by (auto simp: in_set_conv_nth)
  then have "position (\<lambda>k. key \<le> k) (map fst es) = Some j"
    using assms(2) by (auto simp: position_Some not_le sorted_wrt_iff_nth_less)
  then show ?thesis
    using j by (simp add: assms(1) insert_key_value_def io_bind_def binary_search_eq [OF assms(2)] search_spec_def classify_def io_fail_def)
qed

lemma node_insert_duplicate:
  assumes "bt_wf (degree_of p) h lo hi t" and "stored p (kid_nodes t)" and "pager_ok p" and "4 \<le> degree_of p" and "h < fuel"
    and "self = (page_of (degree_of p) t)\<lparr>changed := b\<rparr>" and "bt_path_open (degree_of p) h key t"
    and "key \<in> fst ` set (bt_entries (bt_leaf h key t))"
  shows "\<exists>q. node_insert keeps fuel key v True (self, p) =
      ((if h = 0 then Inl (Err TryInsertDuplicate) else Inr ()), (self, q)) \<and> unchanged p q"
  using assms
proof (induction h arbitrary: lo hi t fuel self b p)
  case 0
  obtain i es nl where t: "t = BLeaf i es nl" using wf_leaf [OF 0(1)] by blast
  obtain f where f: "fuel = Suc f" using 0(5) by (cases fuel) simp_all
  have "sorted_wrt (<) (map fst es)" "key \<in> fst ` set es" using 0(1,8) by (simp_all add: t entries_ok_def)
  then have "insert_key_value key v (self, p) = (Inl (Err TryInsertDuplicate), (self, p))"
    using leaf_duplicate [OF 0(6) [unfolded t]] by blast
  moreover have "is_leaf self" using 0(6) by (simp add: t is_leaf_def)
  ultimately show ?case using unchanged_refl [OF 0(3)] by (simp add: f io_bind_def)
next
  case (Suc h)
  obtain i ks cs where t: "t = BNode i ks cs" using wf_node [OF Suc.prems(1)] by blast
  let ?D = "degree_of p" and ?m = "child_pos key ks"
  obtain f where f: "fuel = Suc f" "h < f" using Suc.prems(5) by (cases fuel) simp_all
  have wf: "bt_wf ?D (Suc h) lo hi (BNode i ks cs)" using Suc.prems(1) by (simp add: t)
  have len: "length cs = Suc (length ks)" by (rule wf_kids_length [OF wf])
  have m: "?m < length cs" using len child_pos_le [of key ks] by simp
  have st: "stored p (bt_nodes (cs ! ?m))"
    using Suc.prems(2) nth_mem [OF m] by (intro stored_child [of _ cs]) (simp_all add: t)
  then obtain p1 where p1: "pager_read_page keeps (bt_id (cs ! ?m)) p = (Inr (page_of ?D (cs ! ?m)), p1)" "unchanged p p1"
    using read_tree [OF Suc.prems(3), of "cs ! ?m" keeps] by (auto simp: stored_nodes unchanged_def)
  note same = unchanged_keeps [OF p1(2)]
  have cw: "bt_wf (degree_of p1) h (lower lo ks ?m) (upper ks hi ?m) (cs ! ?m)"
    using wf_child [OF wf child_pos_le] by (simp add: same(3))
  have cst: "stored p1 (kid_nodes (cs ! ?m))" using same(2) st by (simp add: stored_nodes)
  let ?child = "page_of ?D (cs ! ?m)"
  have child: "?child = (page_of (degree_of p1) (cs ! ?m))\<lparr>changed := False\<rparr>"
    by (cases "cs ! ?m") (simp_all add: same(3))
  have path: "bt_path_open (degree_of p1) h key (cs ! ?m)" "key \<in> fst ` set (bt_entries (bt_leaf h key (cs ! ?m)))"
    using Suc.prems(7,8) by (simp_all add: t same(3))
  obtain q where q: "node_insert keeps f key v True (?child, p1) =
      ((if h = 0 then Inl (Err TryInsertDuplicate) else Inr ()), (?child, q))" "unchanged p1 q"
    using Suc.IH [OF cw cst same(1) _ f(2) child path] Suc.prems(4) same(3) by auto
  have full: "is_full ?child = (Inr False :: (bool, node_operation_error) result)"
    using is_full_page [of ?D "cs ! ?m"] Suc.prems(4) path_open_root [OF path(1)] by (simp add: same(3))
  have wr: "pager_write_page ?child q = (Inr ?child, q)"
    by (cases "cs ! ?m") (simp_all add: pager_write_page_def)
  have "on_node ?child (node_insert keeps f key v True) (self, p1) =
      (Inr (if h = 0 then Inl (Err TryInsertDuplicate) else Inr (), ?child), (self, q))"
    using q(1) by (simp add: on_node_def)
  moreover have "\<not> is_leaf self" "child_index self key = ?m" "children self = map bt_id cs"
    using len Suc.prems(6) child_index_page [OF Suc.prems(6) [unfolded t] len, of key] by (auto simp: t is_leaf_def)
  moreover have "index_get (map bt_id cs) ?m = (Inr (bt_id (cs ! ?m)) :: (i32, node_operation_error) result)"
    using m by (simp add: index_get_def)
  moreover have "on_pager (pager_read_page keeps (bt_id (cs ! ?m))) (self, p) = (Inr ?child, (self, p1))"
    using p1(1) by (rule on_pager_ok)
  moreover have "on_pager (pager_write_page ?child) (self, q) = (Inr ?child, (self, q))"
    using wr by (rule on_pager_ok)
  ultimately have "node_insert keeps fuel key v True (self, p) = (Inr (), (self, q))"
    using full by (simp add: f(1) io_bind_def Let_def)
  then show ?case using unchanged_trans [OF p1(2) q(2)] by auto
qed

text \<open>The whole insertion.\<close>

lemma insert_duplicate_at:
  assumes "index_at p h t" and "key \<in> fst ` set (bt_entries t)" and "bt_path_open (degree_of p) h key t" and "h < fuel"
  shows "\<exists>q. btree_insert keeps fuel key v p =
      ((if h = 0 then Inl (Err (BTreeNodeOperation TryInsertDuplicate)) else Inr ()), q) \<and> index_at q h t"
proof -
  obtain p0 where p0: "btree_root keeps p = (Inr (page_of (degree_of p) t), p0)" "unchanged p p0"
    using root_at [OF assms(1)] by blast
  note at0 = unchanged_index [OF p0(2) assms(1)] and same = unchanged_keeps [OF p0(2)]
  let ?r = "page_of (degree_of p) t"
  have at: "bt_wf (degree_of p0) h None None t" "stored p0 (kid_nodes t)" "4 \<le> degree_of p0" "unique_index (pager_meta p0)"
    using at0 by (simp_all add: index_at_def stored_nodes)
  have self: "?r = (page_of (degree_of p0) t)\<lparr>changed := False\<rparr>" by (cases t) (simp_all add: same(3))
  have key: "key \<in> fst ` set (bt_entries (bt_leaf h key t))"
    using leaf_lookup [OF at(1), of key] assms(2) by (metis map_of_eq_None_iff)
  obtain p1 where p1: "node_insert keeps fuel key v True (?r, p0) =
      ((if h = 0 then Inl (Err TryInsertDuplicate) else Inr ()), (?r, p1))" "unchanged p0 p1"
    using node_insert_duplicate [OF at(1,2) same(1) at(3) assms(4) self _ key, of keeps v] assms(3) same(3) by auto
  have full: "is_full ?r = (Inr False :: (bool, btree_store_error) result)"
    using is_full_page [of "degree_of p" t] at(3) path_open_root [OF assms(3)] by (simp add: same(3))
  note at1 = unchanged_index [OF p1(2) at0]
  have wr: "pager_write_page ?r p1 = (Inr ?r, p1)" by (cases t) (simp_all add: pager_write_page_def)
  show ?thesis
  proof (cases "h = 0")
    case True
    then show ?thesis
      using p0(1) full p1(1) at(4) at1 by (auto simp: btree_insert_def io_bind_def with_node_def)
  next
    case False
    have "pager_ok p1" using at1 by (simp add: index_at_def)
    then obtain q where q: "save_metadata p1 = (Inr (), q)" "updates {} p1 q" "pager_meta q = pager_meta p1"
      using save_metadata_ok by blast
    then have "index_at q h t" using at1 unchanged_index [of p1 q] by (simp add: unchanged_def)
    then show ?thesis
      using False p0(1) full p1(1) at(4) from_pager_ok [of "pager_write_page ?r", OF wr] q(1)
      by (auto simp: btree_insert_def io_bind_def with_node_def)
  qed
qed

section \<open>Trees for the examples\<close>

lemma insert_tree:
  assumes "index_at p h t" and "free_page p = None" and "pages p + h + 3 \<le> 2 ^ 31" and "key \<notin> bt_keys t"
    and "key \<noteq> i32_min" and "fst v \<noteq> i32_min" and "snd v \<noteq> i32_min"
    and "bt_insert_root (degree_of p) key v (h, t, pages p) = (h', t', n')"
  shows "\<exists>q. index_at q h' t' \<and> pages q = n' \<and> free_page q = None \<and> degree_of q = degree_of p"
proof -
  obtain p0 where p0: "btree_root (\<lambda>_ _. True) p = (Inr (page_of (degree_of p) t), p0)" "unchanged p p0"
    using root_at [OF assms(1)] by blast
  note at0 = unchanged_index [OF p0(2) assms(1)] and same = unchanged_keeps [OF p0(2)]
  have "page_in p0 t" using at0 by (simp add: index_at_def stored_nodes)
  then have "holds p0 (page_of (degree_of p) t) t" using holds_page [of p0 t] same(3) by simp
  from insert_root_at [OF p0(1) at0 this, of key v "Suc (Suc h)" h' t' n'] show ?thesis
    using assms(2-8) same(3-5) by auto
qed

text \<open>The first page of a new index.\<close>

lemma first_page:
  assumes "index_of p 0 [] {}" and "pages p = 0" and "free_page p = None"
  shows "\<exists>q i nl. index_at q 0 (BLeaf i [] nl) \<and> pages q = 1 \<and> free_page q = None \<and> degree_of q = degree_of p"
proof -
  obtain q t where q: "index_at q 0 t" "bt_entries t = []" "free_page q = None" "pages q \<le> 1" "degree_of q = degree_of p"
    using root_refines [OF assms(1), of "\<lambda>_ _. True"] assms(2,3) by fastforce
  have "bt_wf (degree_of q) 0 None None t" using q(1) by (simp add: index_at_def)
  then obtain i nl where t: "t = BLeaf i [] nl" using wf_leaf q(2) by fastforce
  moreover have "pages q \<noteq> 0" using q(1) by (auto simp: index_at_def ids_below_def bt_ids_def t)
  ultimately show ?thesis using q by fastforce
qed

text \<open>Up to three entries, in the order of their keys, stay on that page when a page holds four children.\<close>

lemma append_leaf:
  assumes "index_at p 0 (BLeaf i es nl)" and "pages p = 1" and "free_page p = None" and "length es < degree_of p - 1"
    and "\<forall>e \<in> set es. fst e < key" and "key \<noteq> i32_min" and "fst v \<noteq> i32_min" and "snd v \<noteq> i32_min"
  shows "\<exists>q. index_at q 0 (BLeaf i (es @ [(key, v)]) nl) \<and> pages q = 1 \<and> free_page q = None \<and> degree_of q = degree_of p"
proof -
  have "insert_entry key v es = es @ [(key, v)]" using assms(5) by (induction es) auto
  then have "bt_insert_root (degree_of p) key v (0, BLeaf i es nl, pages p) = (0, BLeaf i (es @ [(key, v)]) nl, 1)"
    using assms(2,4) by (simp add: bt_insert_root_def bt_full_def)
  moreover have "key \<notin> bt_keys (BLeaf i es nl)" using assms(5) by auto
  ultimately show ?thesis using insert_tree [OF assms(1,3) _ _ assms(6-8)] assms(2) by simp
qed

text \<open>The fourth entry splits it: the smallest key is alone on the first of two leaves.\<close>

definition entries_fit :: "index_entry list \<Rightarrow> bool" where
  "entries_fit es \<longleftrightarrow> sorted_wrt (<) (map fst es) \<and>
     (\<forall>(k, v) \<in> set es. k \<noteq> i32_min \<and> fst v \<noteq> i32_min \<and> snd v \<noteq> i32_min)"

lemma two_levels:
  assumes new: "index_of p 0 [] {}" "pages p = 0" "free_page p = None" "degree_of p = 4"
    and es: "entries_fit [(k1, v1), (k2, v2), (k3, v3), (k4, v4)]"
  shows "\<exists>q t. index_at q 1 t \<and> degree_of q = 4 \<and> bt_entries t = [(k1, v1), (k2, v2), (k3, v3), (k4, v4)] \<and>
    bt_path_open 4 1 k1 t"
proof -
  note fit = es [unfolded entries_fit_def, simplified]
  obtain p0 i nl where p0: "index_at p0 0 (BLeaf i [] nl)" "pages p0 = 1" "free_page p0 = None" "degree_of p0 = 4"
    using first_page [OF new(1-3)] new(4) by auto
  obtain p1 where p1: "index_at p1 0 (BLeaf i [(k1, v1)] nl)" "pages p1 = 1" "free_page p1 = None" "degree_of p1 = 4"
    using append_leaf [OF p0(1-3), of k1 v1] p0(4) fit by auto
  obtain p2 where p2: "index_at p2 0 (BLeaf i [(k1, v1), (k2, v2)] nl)" "pages p2 = 1" "free_page p2 = None" "degree_of p2 = 4"
    using append_leaf [OF p1(1-3), of k2 v2] p1(4) fit by auto
  obtain p3 where p3: "index_at p3 0 (BLeaf i [(k1, v1), (k2, v2), (k3, v3)] nl)" "pages p3 = 1" "free_page p3 = None" "degree_of p3 = 4"
    using append_leaf [OF p2(1-3), of k3 v3] p2(4) fit by auto
  let ?t = "BNode (usize_as_i32 (Suc (Suc 0))) [k2] [BLeaf i [(k1, v1)] (Some (usize_as_i32 1)),
     BLeaf (usize_as_i32 1) [(k2, v2), (k3, v3), (k4, v4)] nl]"
  have lt: "k1 < k2" "k2 < k3" "k3 < k4" "k1 < k4" "k2 < k4" using fit by auto
  then have pos: "child_pos k4 [k2] = 1" "child_pos k1 [k2] = 0"
    by (simp_all add: child_pos_def)
  have "insert_entry k4 v4 [(k2, v2), (k3, v3)] = [(k2, v2), (k3, v3), (k4, v4)]"
    using lt by (auto simp: not_less_iff_gr_or_eq)
  then have "bt_insert_root (degree_of p3) k4 v4 (0, BLeaf i [(k1, v1), (k2, v2), (k3, v3)] nl, pages p3) = (1, ?t, 3)"
    using p3(2,4) pos by (simp add: bt_insert_root_def bt_full_def bt_make_room_def)
  moreover have "k4 \<notin> bt_keys (BLeaf i [(k1, v1), (k2, v2), (k3, v3)] nl)" using lt by auto
  ultimately obtain q where "index_at q 1 ?t" "degree_of q = 4"
    using insert_tree [OF p3(1,3), of k4 v4 1 ?t 3] fit p3(2,4) by auto
  moreover have "bt_path_open 4 1 k1 ?t" by (simp add: bt_full_def pos)
  ultimately show ?thesis by (intro exI [of _ q] exI [of _ ?t]) simp
qed

section \<open>Property\<close>

text \<open>
  C28. Inserting a key that is present, when no page on the path from the root to its leaf is full,
  never changes the tree; it fails with \<open>TryInsertDuplicate\<close> if the tree is a single page, and in
  every other tree the code reports success. (A full page on the path is split on the way down, which
  this property does not cover: a key that becomes the separator then gets a second entry.)
\<close>

theorem btree_insert_duplicate:
  assumes "index_at p h t" and "key \<in> fst ` set (bt_entries t)" and "bt_path_open (degree_of p) h key t" and "h < fuel"
  shows "\<exists>q. btree_insert keeps fuel key v p =
      ((if h = 0 then Inl (Err (BTreeNodeOperation TryInsertDuplicate)) else Inr ()), q) \<and> index_at q h t"
  using assms by (rule insert_duplicate_at)

text \<open>An index of one page with one entry, and one of two levels with four.\<close>

lemma new_index_file:
  fixes d :: u16
  assumes "unat d = 4 \<or> unat d = 6"
  shows "\<exists>p. index_of p 0 [] {} \<and> pages p = 0 \<and> free_page p = None \<and> degree_of p = unat d"
  using new_index [of d "\<lambda>_. None"] assms by fastforce

theorem btree_insert_duplicate_witness:
  "(\<exists>p t q. index_at p 0 t \<and> bt_entries t = [(i32_n 7, i32_n 1, i32_n 2)] \<and>
     btree_insert (\<lambda>_ _. True) 1 (i32_n 7) (i32_n 3, i32_n 4) p =
       (Inl (Err (BTreeNodeOperation TryInsertDuplicate)), q) \<and> index_at q 0 t) \<and>
   (\<exists>p t q. index_at p 1 t \<and> map fst (bt_entries t) = [i32_n 1, i32_n 2, i32_n 3, i32_n 4] \<and>
     btree_insert (\<lambda>_ _. True) 2 (i32_n 1) (i32_n 3, i32_n 4) p = (Inr (), q) \<and> index_at q 1 t)"
proof
  let ?v = "(i32_n 1, i32_n 2)" and ?w = "(i32_n 3, i32_n 4)" and ?keeps = "\<lambda>_ _. True"
  obtain p where p: "index_of p 0 [] {}" "pages p = 0" "free_page p = None" "degree_of p = 6"
    using new_index_file [of 6] by auto
  obtain p0 i nl where p0: "index_at p0 0 (BLeaf i [] nl)" "pages p0 = 1" "free_page p0 = None" "degree_of p0 = 6"
    using first_page [OF p(1-3)] p(4) by auto
  let ?t = "BLeaf i [(i32_n 7, ?v)] nl"
  obtain p1 where p1: "index_at p1 0 ?t" "degree_of p1 = 6"
    using append_leaf [OF p0(1-3), of "i32_n 7" ?v] p0(4) i32_n_not_min by auto
  obtain q where "btree_insert ?keeps 1 (i32_n 7) ?w p1 = (Inl (Err (BTreeNodeOperation TryInsertDuplicate)), q)" "index_at q 0 ?t"
    using btree_insert_duplicate [OF p1(1), of "i32_n 7" 1 ?keeps ?w] p1(2) by (auto simp: bt_full_def)
  then show "\<exists>p t q. index_at p 0 t \<and> bt_entries t = [(i32_n 7, i32_n 1, i32_n 2)] \<and>
     btree_insert ?keeps 1 (i32_n 7) ?w p = (Inl (Err (BTreeNodeOperation TryInsertDuplicate)), q) \<and> index_at q 0 t"
    using p1(1) by (intro exI [of _ p1] exI [of _ ?t] exI [of _ q]) simp
next
  let ?v = "(i32_n 1, i32_n 2)" and ?w = "(i32_n 3, i32_n 4)" and ?keeps = "\<lambda>_ _. True"
  obtain p where p: "index_of p 0 [] {}" "pages p = 0" "free_page p = None" "degree_of p = 4"
    using new_index_file [of 4] by auto
  have fit: "entries_fit [(i32_n 1, ?v), (i32_n 2, ?v), (i32_n 3, ?v), (i32_n 4, ?v)]"
    using i32_n_not_min by (simp add: entries_fit_def i32_n_simps)
  obtain p1 t where p1: "index_at p1 1 t" "degree_of p1 = 4" "bt_path_open 4 1 (i32_n 1) t"
    "bt_entries t = [(i32_n 1, ?v), (i32_n 2, ?v), (i32_n 3, ?v), (i32_n 4, ?v)]"
    using two_levels [OF p fit] by blast
  obtain q where "btree_insert ?keeps 2 (i32_n 1) ?w p1 = (Inr (), q)" "index_at q 1 t"
    using btree_insert_duplicate [OF p1(1), of "i32_n 1" 2 ?keeps ?w] p1(2-4) by auto
  then show "\<exists>p t q. index_at p 1 t \<and> map fst (bt_entries t) = [i32_n 1, i32_n 2, i32_n 3, i32_n 4] \<and>
     btree_insert ?keeps 2 (i32_n 1) ?w p = (Inr (), q) \<and> index_at q 1 t"
    using p1(1,4) by (intro exI [of _ p1] exI [of _ t] exI [of _ q]) simp
qed

end
