(* ===== verification/Indexed_Table.thy ===== *)
theory Indexed_Table
  imports Frames BTree_Duplicate
begin

text \<open>
  A table with an index on one of its columns: \<open>table_access.rs\<close> with one element in
  \<open>indexed_columns\<close>, over the store on files. The index holds, for every row of the table, the cell of
  that column with the page and the slot of the row, and nothing else; insertions and lookups keep that.
\<close>

section \<open>Insertion with any hook\<close>

text \<open>The table and its free space map are in files of their own.\<close>

abbreviation table_files :: "table \<Rightarrow> page_storage set" where
  "table_files t \<equiv> {TableStorage (table_id t), fsm_access t}"

definition same_table :: "table \<Rightarrow> files \<Rightarrow> files \<Rightarrow> bool" where
  "same_table t fs u \<longleftrightarrow> (\<forall>st \<in> table_files t. u (storage_file_path st) = fs (storage_file_path st))"

lemma same_table_inv:
  assumes "same_table t fs u" and "table_inv l t f fs"
  shows "table_inv l t f u" and "table_map l u (table_id t) = table_map l fs (table_id t)"
    and "file_pages l u (TableStorage (table_id t)) = file_pages l fs (TableStorage (table_id t))"
    and "file_count l u (TableStorage (table_id t)) = file_count l fs (TableStorage (table_id t))"
proof -
  let ?w = "\<lambda>v. \<lparr>w_store = v, w_handles = [], w_ticks = 0\<rparr>"
  have files: "st \<in> table_files t \<Longrightarrow> u (storage_file_path st) = fs (storage_file_path st)" for st
    using assms(1) unfolding same_table_def by blast
  show "table_inv l t f u" "table_map l u (table_id t) = table_map l fs (table_id t)"
    using rows_inv_frame [of _ l t f "?w fs" "?w u"] files assms(2) unfolding table_inv_def by simp_all
  show "file_pages l u (TableStorage (table_id t)) = file_pages l fs (TableStorage (table_id t))"
    and "file_count l u (TableStorage (table_id t)) = file_count l fs (TableStorage (table_id t))"
    using same_file [of u "TableStorage (table_id t)" fs] files [of "TableStorage (table_id t)"] by simp_all
qed

lemma only_same: "only_files A fs u \<Longrightarrow> storage_file_path ` B \<inter> storage_file_path ` A = {} \<Longrightarrow> st \<in> B \<Longrightarrow> u (storage_file_path st) = fs (storage_file_path st)"
  by (auto simp: only_files_def)

lemma slot_id_bound:
  assumes "page_wf p" and "page_rows p i = Some bs"
  shows "i < 2 ^ 31"
proof -
  have "length (slots p) \<le> slot_size p" "slot_size p \<le> data_offset p"
    using page_wfD(3) [OF assms(1)] by (simp_all add: slot_size_def directory_fits_def layout_consts)
  moreover have "data_offset p \<le> page_data_size (layout p)" "page_data_size (layout p) < 2 ^ 31"
    using page_wfD(2) [OF assms(1)] page_data_size_bound [OF page_wfD(1) [OF assms(1)]] by (simp_all add: regions_ok_def)
  moreover note page_rows_range [OF assms(2)]
  ultimately show ?thesis by linarith
qed

lemma table_slot_bound:
  assumes "table_ok l fs tid" and "table_map l fs tid k = Some bs"
  shows "snd k < 2 ^ 31"
proof -
  obtain p where p: "file_pages l fs (TableStorage tid) (fst k) = Some p" "page_rows p (snd k) = Some bs"
    using assms(2) by (auto simp: table_map_def split: option.splits)
  show ?thesis by (rule slot_id_bound [OF table_pageD(1) [OF assms(1) p(1)] p(2)])
qed

text \<open>The last steps of an insertion: the page is written and the free space map learns of it.\<close>

lemma insert_writes:
  assumes inv: "table_inv l t f (w_store w)" and at: "file_pages l (w_store w) (TableStorage (table_id t)) (page_id p) = Some p"
    and row: "row_fits row (schema t)" "row_strings_ok row" "row_serialize row \<noteq> []" and ft: "fsm_table f = t"
    and q: "insert_record p (row_serialize row) = Inr (i, q)"
  shows "\<exists>v. io_bind (at_store g (st_write_page file_store l q (TableStorage (table_id t)))) (\<lambda>_.
      io_bind (at_store TaFsm (fsm_update file_store f q)) (\<lambda>_. io_ret x)) w = (Inr x, w\<lparr>w_store := v\<rparr>) \<and>
    only_files (table_files t) (w_store w) v \<and> table_inv l t f v \<and>
    table_map l v (table_id t) = (table_map l (w_store w) (table_id t))((page_id q, i) \<mapsto> row_serialize row) \<and>
    file_count l v (TableStorage (table_id t)) = file_count l (w_store w) (TableStorage (table_id t))"
    and "table_map l (w_store w) (table_id t) (page_id q, i) = None" and "page_id q = page_id p" and "i < 2 ^ 31"
proof -
  let ?tab = "TableStorage (table_id t)" and ?u = "w_store w" and ?A = "table_files t"
  note pg = table_pageD [OF table_invD(2) [OF inv] at]
  have "short_slots p (length (row_serialize row))"
    using table_inv_slots [OF inv row(1)] at by (simp add: no_longer_slot_def)
  note ins = insert_uniform [OF pg(1) q row(3) this]
  show "table_map l ?u (table_id t) (page_id q, i) = None" "page_id q = page_id p" "i < 2 ^ 31"
    using ins(2,4) at slot_id_bound [OF ins(1), of i] ins(3) by (simp_all add: table_map_def)
  have old: "file_pages l ?u ?tab (page_id q) = Some p" and lq: "layout q = l" using ins(4,5) at pg(3) by simp_all
  have sto: "page_rows q j = Some bs \<Longrightarrow> page_rows p j = Some bs \<or> stored_row (schema t) bs" for j bs
    using row by (auto simp: ins(3) stored_row_def split: if_splits)
  obtain u3 where u3: "st_write_page file_store l q ?tab ?u = (Inr (), u3)" "table_inv l t f u3"
    "file_pages l u3 ?tab = (file_pages l ?u ?tab)(page_id q \<mapsto> page_image q)"
    "table_map l u3 (table_id t) =
      (\<lambda>k. if fst k = page_id q then page_rows q (snd k) else table_map l ?u (table_id t) k)"
    "file_count l u3 ?tab = file_count l ?u ?tab"
    using table_inv_write [OF inv old ins(1) lq sto] ins(6) by blast
  have "file_pages l u3 ?tab (page_id q) \<noteq> None" by (simp add: u3(3))
  then obtain v where v: "fsm_update file_store f q u3 = (Inr (), v)" "table_inv l t f v"
    "table_map l v (table_id t) = table_map l u3 (table_id t)" "file_count l v ?tab = file_count l u3 ?tab"
    using table_inv_update [OF u3(2) ins(1)] by blast
  have "only_files ?A ?u u3" "only_files ?A u3 v"
    using changesD [OF file_write_only u3(1)] changesD [OF fsm_update_only v(1)] ft by simp_all
  moreover have "table_map l u3 (table_id t) = (table_map l ?u (table_id t))((page_id q, i) \<mapsto> row_serialize row)"
    unfolding u3(4) using at ins(3,4) by (auto simp: table_map_def fun_eq_iff)
  ultimately show "\<exists>v. io_bind (at_store g (st_write_page file_store l q ?tab)) (\<lambda>_.
      io_bind (at_store TaFsm (fsm_update file_store f q)) (\<lambda>_. io_ret x)) w = (Inr x, w\<lparr>w_store := v\<rparr>) \<and>
    only_files ?A ?u v \<and> table_inv l t f v \<and>
    table_map l v (table_id t) = (table_map l ?u (table_id t))((page_id q, i) \<mapsto> row_serialize row) \<and>
    file_count l v ?tab = file_count l ?u ?tab"
    using u3(1,5) v by (intro exI [of _ v]) (simp add: io_bind_at_store storing.trans)
qed

text \<open>
  An insertion finds a page, lets the hook run with the place of the new row, and writes the page
  when the hook succeeded.
\<close>

lemma raw_insert_hooked:
  assumes inv: "table_inv l t f (w_store w)"
    and room: "file_count l (w_store w) (TableStorage (table_id t)) + 2 < 2 ^ 31"
    and row: "row_fits row (schema t)" "row_strings_ok row" "columns (schema t) \<noteq> []"
  shows "\<exists>r w' u. raw_insert file_store (ta_new t l) (row_serialize row) hook w = (r, w') \<and>
    only_files (table_files t) (w_store w) u \<and> table_inv l t f u \<and>
    table_map l u (table_id t) = table_map l (w_store w) (table_id t) \<and>
    file_count l u (TableStorage (table_id t)) \<le> Suc (file_count l (w_store w) (TableStorage (table_id t))) \<and>
    ((\<exists>e. r = Inl e \<and> w' = w\<lparr>w_store := u\<rparr> \<and> refused_row l t f (w_store w) (row_serialize row) e) \<or>
     (\<exists>k hr w2. (\<forall>e. \<not> refused_row l t f (w_store w) (row_serialize row) e) \<and>
        hook k (w\<lparr>w_store := u\<rparr>) = (hr, w2) \<and> table_map l u (table_id t) k = None \<and>
        1 \<le> i32_val (fst k) \<and> snd k < 2 ^ 31 \<and>
        (case hr of Inl e \<Rightarrow> r = Inl e \<and> w' = w2
         | Inr _ \<Rightarrow> same_table t u (w_store w2) \<longrightarrow>
             (\<exists>v. r = Inr k \<and> w' = w2\<lparr>w_store := v\<rparr> \<and> only_files (table_files t) (w_store w2) v \<and>
                table_inv l t f v \<and>
                table_map l v (table_id t) = (table_map l u (table_id t))(k \<mapsto> row_serialize row) \<and>
                file_count l v (TableStorage (table_id t)) = file_count l u (TableStorage (table_id t))))))"
proof -
  let ?tab = "TableStorage (table_id t)" and ?dat = "row_serialize row" and ?A = "table_files t"
  have ne: "?dat \<noteq> []" by (rule row_serialize_nonempty [OF row(1,3)])
  have fsm: "ta_fsm (ta_new t l) = Inr f" by (rule ta_fsm_new [OF table_invD(1) [OF inv]])
  have ft: "fsm_table f = t" by (rule ta_fsm_table [OF fsm])
  obtain p u where p: "find_available_page file_store f (length ?dat) (w_store w) = (Inr p, u)"
    "table_inv l t f u" "table_map l u (table_id t) = table_map l (w_store w) (table_id t)"
    "file_pages l u ?tab = (file_pages l (w_store w) ?tab)(page_id p \<mapsto> p)" "page_wf p" "layout p = l"
    "page_given l t f (length ?dat) (w_store w) p (file_count l u ?tab)"
    using table_inv_found [OF inv room, of "length ?dat"] by blast
  have ou: "only_files ?A (w_store w) u"
    using changesD [OF find_page_only [of f ?A "length ?dat"] p(1)] ft by simp
  have at: "file_pages l u ?tab (page_id p) = Some p" by (simp add: p(4))
  note pg = table_pageD [OF table_invD(2) [OF p(2)] at] and given = page_given_page [OF p(7)]
  have cnt: "file_count l u ?tab \<le> Suc (file_count l (w_store w) ?tab)" using p(7) by (auto simp: page_given_def Let_def)
  obtain b where b: "can_insert p ?dat = Inr b"
    using can_insert_eq [OF p(5)] by blast
  let ?w1 = "w\<lparr>w_store := u\<rparr>"
  have run: "raw_insert file_store (ta_new t l) ?dat hook w =
     (if \<not> b then io_fail (InsertRowError FsmPageTooSmall) else
       io_bind (io_lift (map_err TaPage (insert_record p ?dat))) (\<lambda>(slot_id, p).
       io_bind (hook (page_id p, slot_id)) (\<lambda>_.
       io_bind (at_store (InsertRowError \<circ> InsertCannotWrite) (st_write_page file_store l p ?tab)) (\<lambda>_.
       io_bind (at_store TaFsm (fsm_update file_store f p)) (\<lambda>_.
       io_ret (page_id p, slot_id)))))) ?w1"
    by (simp add: raw_insert_def fsm io_bind_at_store p(1) b)
  have refused: ?thesis if "raw_insert file_store (ta_new t l) ?dat hook w = (Inl e, ?w1)" "insert_refused p ?dat e" for e
  proof -
    have "refused_row l t f (w_store w) ?dat e" using that(2) given p(1) unfolding refused_row_def by blast
    then show ?thesis using that(1) ou p(2,3) cnt by blast
  qed
  show ?thesis
  proof (cases b)
    case False
    then show ?thesis
      using run b by (intro refused [of "Err (InsertRowError FsmPageTooSmall)"]) (simp_all add: insert_refused_def io_fail_def)
  next
    case True
    then have "can_insert p ?dat = Inr True" using b by simp
    note counter = insert_record_counter [OF p(5) ne this]
    show ?thesis
    proof (cases "unat (number_of_records p) < 2 ^ 16 - 1")
      case False
      then have "insert_record p ?dat = Inl Panic" using counter by simp
      moreover have "unat (number_of_records p) = 2 ^ 16 - 1"
        using False unat_lt_2p [of "number_of_records p"] by simp
      ultimately show ?thesis
        using run True by (intro refused [of Panic]) (simp_all add: insert_refused_def)
    next
      case less: True
      then obtain i q where q: "insert_record p ?dat = Inr (i, q)" using counter by auto
      let ?k = "(page_id q, i)"
      have at1: "file_pages l (w_store ?w1) ?tab (page_id p) = Some p" "table_inv l t f (w_store ?w1)" using at p(2) by simp_all
      note new = insert_writes(2-4) [OF at1(2,1) row(1,2) ne ft q]
      obtain hr w2 where h: "hook ?k ?w1 = (hr, w2)" by force
      have go: "raw_insert file_store (ta_new t l) ?dat hook w =
         (case hr of Inl e \<Rightarrow> (Inl e, w2) | Inr _ \<Rightarrow>
           io_bind (at_store (InsertRowError \<circ> InsertCannotWrite) (st_write_page file_store l q ?tab)) (\<lambda>_.
           io_bind (at_store TaFsm (fsm_update file_store f q)) (\<lambda>_. io_ret ?k)) w2)"
        using run True q h by (simp add: io_bind_def split: sum.split)
      have place: "1 \<le> i32_val (fst ?k)" "snd ?k < 2 ^ 31" using pg(4) new(2,3) by simp_all
      have called: ?thesis
        if "raw_insert file_store (ta_new t l) ?dat hook w = (r, w')"
          "case hr of Inl e \<Rightarrow> r = Inl e \<and> w' = w2
           | Inr _ \<Rightarrow> same_table t u (w_store w2) \<longrightarrow>
               (\<exists>v. r = Inr ?k \<and> w' = w2\<lparr>w_store := v\<rparr> \<and> only_files ?A (w_store w2) v \<and>
                table_inv l t f v \<and> table_map l v (table_id t) = (table_map l u (table_id t))(?k \<mapsto> ?dat) \<and>
                file_count l v ?tab = file_count l u ?tab)"
        for r w'
      proof -
        have "table_map l u (table_id t) ?k = None" using new(1) by simp
        moreover have "\<forall>e. \<not> refused_row l t f (w_store w) ?dat e"
          using p(1) insert_refused_fails [OF p(5) ne] q by (auto simp: refused_row_def)
        ultimately show ?thesis using that h place ou p(2,3) cnt by blast
      qed
      show ?thesis
      proof (cases hr)
        case (Inl e)
        then show ?thesis using go by (intro called [of "Inl e" w2]) simp_all
      next
        case (Inr x)
        have written: "\<exists>v. raw_insert file_store (ta_new t l) ?dat hook w = (Inr ?k, w2\<lparr>w_store := v\<rparr>) \<and>
            only_files ?A (w_store w2) v \<and> table_inv l t f v \<and>
            table_map l v (table_id t) = (table_map l u (table_id t))(?k \<mapsto> ?dat) \<and> file_count l v ?tab = file_count l u ?tab"
          if same: "same_table t u (w_store w2)"
        proof -
          note S = same_table_inv [OF same p(2)]
          have "file_pages l (w_store w2) ?tab (page_id p) = Some p" using at S(3) by simp
          from insert_writes(1) [OF S(1) this row(1,2) ne ft q, of "InsertRowError \<circ> InsertCannotWrite" ?k]
          show ?thesis using go Inr S(2,4) by auto
        qed
        obtain r w' where "raw_insert file_store (ta_new t l) ?dat hook w = (r, w')" by force
        with written Inr show ?thesis by (intro called) auto
      qed
    qed
  qed
qed

section \<open>One index\<close>

definition indexed_access :: "table \<Rightarrow> page_data_layout \<Rightarrow> i32 \<Rightarrow> nat \<Rightarrow> table_access" where
  "indexed_access t l cid h = with_indexes [(cid, h)] (ta_new t l)"

lemma indexed_access_simps [simp]:
  "ta_table (indexed_access t l cid h) = t" "ta_layout (indexed_access t l cid h) = l"
  "ta_indexes (indexed_access t l cid h) = [(cid, h)]"
  "ta_storage (indexed_access t l cid h) = TableStorage (table_id t)"
  "ta_fsm (indexed_access t l cid h) = ta_fsm (ta_new t l)"
  by (simp_all add: indexed_access_def with_indexes_def ta_storage_def ta_fsm_def)

lemma indexed_pointers:
  "find_index_by_id (schema t) cid = Some c \<Longrightarrow> column_index_to_btree_pointer_map (indexed_access t l cid h) = Inr [(c, 0)]"
  by (simp add: column_index_to_btree_pointer_map_def ok_or_def)

lemma indexed_raw_insert: "raw_insert S (indexed_access t l cid h) dat hook = raw_insert S (ta_new t l) dat hook"
  unfolding raw_insert_def indexed_access_simps ta_new_simps ..

lemma hash_iter_single:
  assumes "hash_order_ok ho"
  shows "hash_iter ho [x] = [x]"
proof -
  have "set (hash_iter ho [x]) = {x}" "length (hash_iter ho [x]) = 1"
    using set_hash_iter [OF assms, of "[x]"] by simp_all
  then show ?thesis by (cases "hash_iter ho [x]") auto
qed

text \<open>The pager of an open index on its file as it is, and the state after an operation on it.\<close>

definition handle_pager :: "files world \<Rightarrow> nat \<Rightarrow> node_pager" where
  "handle_pager w h =
     (ih_pager (w_handles w ! h))\<lparr>pager_file := file_btree_file (ih_btree (w_handles w ! h)) (w_store w)\<rparr>"

definition with_handle :: "nat \<Rightarrow> node_pager \<Rightarrow> files world \<Rightarrow> files world" where
  "with_handle h q w =
     w\<lparr>w_store := file_set_btree_file (ih_btree (w_handles w ! h)) (pager_file q) (w_store w),
       w_handles := (w_handles w)[h := (w_handles w ! h)\<lparr>ih_pager := q\<rparr>]\<rparr>"

lemma at_index_run:
  assumes "h < length (w_handles w)" and "m (env_keeps E h) (handle_pager w h) = (r, q)"
  shows "at_index file_store E g h m w = (map_err g r, with_handle h q w)"
  using assms by (simp add: at_index_def vec_get_def handle_pager_def with_handle_def file_store_def)

lemma btree_file_other: "btree_file_path bid \<noteq> storage_file_path st"
  by (cases st) (simp_all add: btree_file_path_def)

lemma with_handle_simps:
  assumes "h < length (w_handles w)"
  shows "handle_pager (with_handle h q w) h = q" and "same_table t (w_store w) (w_store (with_handle h q w))"
    and "length (w_handles (with_handle h q w)) = length (w_handles w)" and "w_ticks (with_handle h q w) = w_ticks w"
  using assms btree_file_other [symmetric]
  by (auto simp: handle_pager_def with_handle_def file_btree_file_def file_set_btree_file_def same_table_def
      simp del: storage_file_path.simps)

lemma handle_pager_store:
  assumes "only_files (table_files t) (w_store w) u"
  shows "handle_pager (w\<lparr>w_store := u\<rparr>) h = handle_pager w h"
proof -
  have "u (btree_file_path bid) = w_store w (btree_file_path bid)" for bid
    using assms btree_file_other [of bid] unfolding only_files_def by blast
  then show ?thesis by (simp add: handle_pager_def file_btree_file_def)
qed

lemma handle_pager_ticks [simp]: "handle_pager (w\<lparr>w_ticks := n\<rparr>) h = handle_pager w h"
  by (simp add: handle_pager_def)

text \<open>The entries of the index are the rows of the table.\<close>

definition entries_match :: "table_schema \<Rightarrow> nat \<Rightarrow> (i32 \<times> nat \<Rightarrow> byte list option) \<Rightarrow> index_entry list \<Rightarrow> bool" where
  "entries_match s c m es \<longleftrightarrow>
     (\<forall>key pid j. (key, pid, j) \<in> set es \<longleftrightarrow>
        (\<exists>i bs. m (pid, i) = Some bs \<and> cells (decode s bs) ! c = CellInt key \<and> j = usize_as_i32 i))"

definition indexed_column :: "table_schema \<Rightarrow> i32 \<Rightarrow> nat \<Rightarrow> bool" where
  "indexed_column s cid c \<longleftrightarrow> find_index_by_id s cid = Some c \<and> c < length (columns s) \<and> col_type (columns s ! c) = TInt"

definition indexed_inv ::
  "page_data_layout \<Rightarrow> table \<Rightarrow> fsm \<Rightarrow> nat \<Rightarrow> nat \<Rightarrow> nat \<Rightarrow> i32 set \<Rightarrow> files world \<Rightarrow> bool" where
  "indexed_inv l t f c h n K w \<longleftrightarrow> table_inv l t f (w_store w) \<and> h < length (w_handles w) \<and>
     (\<exists>es. index_of (handle_pager w h) n es K \<and> entries_match (schema t) c (table_map l (w_store w) (table_id t)) es)"

lemma indexed_invD:
  assumes "indexed_inv l t f c h n K w"
  shows "table_inv l t f (w_store w)" "h < length (w_handles w)"
    and "\<exists>es. index_of (handle_pager w h) n es K \<and> entries_match (schema t) c (table_map l (w_store w) (table_id t)) es"
  using assms by (simp_all add: indexed_inv_def)

text \<open>What an operation on the index leaves alone.\<close>

lemma indexed_inv_handle:
  assumes "indexed_inv l t f c h n K w" and "index_of q n' es K'"
    and "entries_match (schema t) c (table_map l (w_store w) (table_id t)) es"
  shows "indexed_inv l t f c h n' K' (with_handle h q w)"
    and "table_map l (w_store (with_handle h q w)) (table_id t) = table_map l (w_store w) (table_id t)"
proof -
  note I = indexed_invD(1,2) [OF assms(1)]
  note W = with_handle_simps(1,3,4) [OF I(2), of q] and S = same_table_inv [OF with_handle_simps(2) [OF I(2)] I(1), of q]
  show "table_map l (w_store (with_handle h q w)) (table_id t) = table_map l (w_store w) (table_id t)" by (rule S(2))
  then show "indexed_inv l t f c h n' K' (with_handle h q w)"
    using S(1) W assms(2,3) I(2) by (auto simp: indexed_inv_def)
qed

lemma indexed_inv_ticks [simp]: "indexed_inv l t f c h n K (w\<lparr>w_ticks := m\<rparr>) = indexed_inv l t f c h n K w"
  by (simp add: indexed_inv_def)

text \<open>The row of an entry.\<close>

lemma indexed_items:
  assumes "rows_inv D l t f fs" and "table_map l fs (table_id t) (pid, i) = Some bs" and "hash_order_ok ho"
  shows "\<exists>r. indexed_collect file_store fs (indexed_row_iterator_new ho t l [(pid, usize_as_i32 i)]) =
    [Inr (r, decode (schema t) bs)] \<and> record_page_id r = pid \<and> record_index r = 0"
proof -
  let ?tab = "TableStorage (table_id t)"
  note I = rows_invD [OF assms(1)]
  obtain p where p: "file_pages l fs ?tab pid = Some p" "page_rows p i = Some bs"
    using assms(2) by (auto simp: table_map_def split: option.splits)
  note pg = table_pageD [OF I(2) p(1)]
  have read: "st_read_page file_store l pid ?tab fs = Inr p"
    by (rule fstore.read_law [OF fsm_inv_table [OF I(1)] p(1)])
  obtain r where r: "collect_records (record_iterator_from_slots p [i]) = [r]" "record_bytes r = Inr bs"
    "record_page_id r = pid" "record_index r = 0"
    using from_slots_loses_slot_id [OF pg(1) p(2)] pg(2) by auto
  obtain row where "row_deserialize bs (schema t) = Inr row"
    using I(3) [OF assms(2)] row_deserialize_serialize by blast
  then have "row_of_record (schema t) r = Inr (r, decode (schema t) bs)"
    by (rule row_of_record_decode [OF r(2)])
  then show ?thesis
    using read r(1,3,4) slot_id_bound [OF pg(1) p(2)]
    by (simp add: indexed_row_iterator_new_def hash_iter_single [OF assms(3)] indexed_collect_eq indexed_page_items_def)
qed

lemma indexed_no_items:
  "indexed_collect S fs (indexed_row_iterator_new ho t l []) = []"
  by (simp add: indexed_row_iterator_new_def hash_iter_def indexed_collect_eq)

text \<open>An index with one entry for a key leaves room for one row with it.\<close>

lemma entry_unique:
  assumes "entries_match s c m es" and "distinct (map fst es)" and "\<And>k bs. m k = Some bs \<Longrightarrow> snd k < 2 ^ 31"
    and "m k = Some bs" and "cells (decode s bs) ! c = CellInt key"
    and "m k' = Some bs'" and "cells (decode s bs') ! c = CellInt key"
  shows "k = k'"
proof -
  obtain pid i pid' i' where k: "k = (pid, i)" "k' = (pid', i')" by (cases k, cases k')
  have "(key, pid, usize_as_i32 i) \<in> set es" "(key, pid', usize_as_i32 i') \<in> set es"
    using assms(1,4-7) unfolding entries_match_def k by blast+
  then have "Some (pid, usize_as_i32 i) = Some (pid', usize_as_i32 i')"
    using assms(2) by (metis map_of_eq_Some_iff)
  moreover have "i < 2 ^ 31" "i' < 2 ^ 31" using assms(3) [OF assms(4)] assms(3) [OF assms(6)] by (simp_all add: k)
  ultimately show ?thesis by (metis k i32_as_usize_as_i32 option.inject prod.inject)
qed

text \<open>
  A lookup through the index, by what the entries have for the key. The index may know some of the
  rows of the table only.
\<close>

lemma indexed_rows:
  assumes "rows_inv D l t f fs" and "entries_match (schema t) c m es"
    and "sorted_wrt (<) (map fst es)" and "hash_order_ok ho" and "m \<subseteq>\<^sub>m table_map l fs (table_id t)"
  shows "\<exists>rs. indexed_collect file_store fs
      (indexed_row_iterator_new ho t l (case map_of es key of None \<Rightarrow> [] | Some v \<Rightarrow> [v])) = map Inr rs \<and>
    mset (map snd rs) = filter_mset (\<lambda>row. cells row ! c = CellInt key) (rows_of (schema t) m)"
proof -
  let ?m = m and ?s = "schema t"
  let ?P = "\<lambda>row. cells row ! c = CellInt key"
  have sub: "table_map l fs (table_id t) k = Some bs" if "?m k = Some bs" for k bs
    using assms(5) that unfolding map_le_def by (metis domI)
  have fin: "finite (dom ?m)"
    using table_map_finite [OF rows_invD(2) [OF assms(1)]] map_le_implies_dom_le [OF assms(5)] finite_subset by blast
  note res = rows_of_restrict [OF fin, of ?s ?P, symmetric]
  have dist: "distinct (map fst es)" using assms(3) by (simp add: strict_sorted_iff)
  have hit: "(key, pid, usize_as_i32 i) \<in> set es" if "?m (pid, i) = Some bs" "?P (decode ?s bs)" for pid i bs
    using assms(2) that unfolding entries_match_def by blast
  show ?thesis
  proof (cases "map_of es key")
    case None
    then have "(key, v) \<notin> set es" for v by (metis image_eqI map_of_eq_None_iff fst_conv)
    then have no: "\<not> ?P (decode ?s bs)" if "?m k = Some bs" for k bs
      using hit [of "fst k" "snd k"] that by auto
    have "(?m |` {k. ?P (decode ?s (the (?m k)))}) k = None" for k
      using no [of k] by (cases "?m k") (simp_all add: restrict_map_def)
    then have "?m |` {k. ?P (decode ?s (the (?m k)))} = Map.empty" by (simp add: fun_eq_iff)
    then have "filter_mset ?P (rows_of ?s ?m) = {#}" unfolding res by (simp add: rows_of_def)
    then show ?thesis using None by (intro exI [of _ "[]"]) (simp add: indexed_no_items)
  next
    case (Some v)
    obtain pid j where v: "v = (pid, j)" by (cases v)
    have "(key, pid, j) \<in> set es" using map_of_SomeD [OF Some] by (simp add: v)
    then obtain i bs where i: "?m (pid, i) = Some bs" "?P (decode ?s bs)" "j = usize_as_i32 i"
      using assms(2) unfolding entries_match_def by blast
    have slot: "snd k < 2 ^ 31" if "?m k = Some bs" for k bs
      by (rule table_slot_bound [OF rows_invD(2) [OF assms(1)] sub [OF that]])
    have only: "k = (pid, i)" if k: "?m k = Some x" "?P (decode ?s x)" for k x
      by (rule entry_unique [OF assms(2) dist slot k i(1,2)])
    have "?m |` {k. ?P (decode ?s (the (?m k)))} = [(pid, i) \<mapsto> bs]"
    proof (rule ext)
      fix k
      show "(?m |` {k. ?P (decode ?s (the (?m k)))}) k = [(pid, i) \<mapsto> bs] k"
        using only [of k] i(1,2) by (cases "?m k") (auto simp: restrict_map_def)
    qed
    then have "filter_mset ?P (rows_of ?s ?m) = {#decode ?s bs#}" unfolding res by (simp add: rows_of_def)
    moreover obtain r where "indexed_collect file_store fs (indexed_row_iterator_new ho t l [(pid, usize_as_i32 i)]) =
        [Inr (r, decode ?s bs)]"
      using indexed_items [OF assms(1) sub [OF i(1)] assms(4)] by blast
    ultimately show ?thesis using Some v i(3) by (intro exI [of _ "[(r, decode ?s bs)]"]) simp
  qed
qed

section \<open>Lookup\<close>

text \<open>The query that a lookup by the indexed column gives.\<close>

definition indexed_query :: "env \<Rightarrow> table \<Rightarrow> page_data_layout \<Rightarrow> (i32 \<times> i32) option \<Rightarrow> files world \<Rightarrow>
    (files, record_ref \<times> row) query_result" where
  "indexed_query E t l found w =
     query_from_indexes file_store (indexed_row_iterator_new (env_order E (w_ticks w)) t l
       (case found of None \<Rightarrow> [] | Some v \<Rightarrow> [v])) (schema t)"

lemma indexed_query_rows:
  "indexed_collect file_store fs (indexed_row_iterator_new (env_order E (w_ticks w)) t l
     (case found of None \<Rightarrow> [] | Some v \<Rightarrow> [v])) = map Inr rs \<Longrightarrow> query_rows (indexed_query E t l found w) fs = Inr rs"
  by (simp add: indexed_query_def query_rows_def query_from_indexes_def collect_results_Inr_iff comp_def)

lemma indexed_ta_find:
  assumes h: "h < length (w_handles w)" and idx: "index_of (handle_pager w h) n es K"
    and col: "indexed_column (schema t) cid c"
    and name: "find_column_for_query_by_cell (schema t) name (CellInt key) = Inr c" and fuel: "n < env_fuel E"
  shows "\<exists>p. ta_find file_store E (indexed_access t l cid h) name (CellInt key) w =
      (Inr (indexed_query E t l (map_of es key) w), (with_handle h p w)\<lparr>w_ticks := w_ticks w + 1\<rparr>) \<and>
    index_of p n es K \<and> free_page p = free_page (handle_pager w h) \<and> pages p \<le> max 1 (pages (handle_pager w h)) \<and>
    degree_of p = degree_of (handle_pager w h)"
proof -
  obtain p where p: "btree_find (env_keeps E h) (env_fuel E) key (handle_pager w h) = (Inr (map_of es key), p)"
    "index_of p n es K" "free_page p = free_page (handle_pager w h)" "pages p \<le> Suc (pages (handle_pager w h))"
    "pages (handle_pager w h) \<noteq> 0 \<longrightarrow> pages p = pages (handle_pager w h)" "degree_of p = degree_of (handle_pager w h)"
    using find_index [OF idx fuel, of "env_keeps E h" key] by blast
  note at = at_index_run [OF h, of "\<lambda>keeps. btree_find keeps (env_fuel E) key" E, OF p(1)]
  have ptr: "column_index_to_btree_pointer_map (indexed_access t l cid h) = Inr [(c, 0)]"
    using col by (intro indexed_pointers) (simp add: indexed_column_def)
  have "ta_find file_store E (indexed_access t l cid h) name (CellInt key) w =
      (Inr (indexed_query E t l (map_of es key) w), (with_handle h p w)\<lparr>w_ticks := w_ticks w + 1\<rparr>)"
    by (simp add: ta_find_def name ptr io_bind_def at next_order_def index_get_def with_handle_simps(4) [OF h] indexed_query_def)
  moreover have "pages p \<le> max 1 (pages (handle_pager w h))" using p(4,5) by (cases "pages (handle_pager w h) = 0") simp_all
  ultimately show ?thesis using p(2,3,6) by blast
qed

lemma indexed_lookup:
  assumes tab: "table_inv l t f (w_store w)" and h: "h < length (w_handles w)"
    and idx: "index_of (handle_pager w h) n es K" and es: "entries_match (schema t) c m es"
    and sub: "m \<subseteq>\<^sub>m table_map l (w_store w) (table_id t)" and col: "indexed_column (schema t) cid c"
    and name: "find_column_for_query_by_cell (schema t) name (CellInt key) = Inr c"
    and fuel: "n < env_fuel E" and order: "\<forall>n. hash_order_ok (env_order E n)"
  shows "\<exists>q rs p. let w' = (with_handle h p w)\<lparr>w_ticks := w_ticks w + 1\<rparr> in
    ta_find file_store E (indexed_access t l cid h) name (CellInt key) w = (Inr q, w') \<and>
    query_rows q (w_store w') = Inr rs \<and>
    mset (map snd rs) = filter_mset (\<lambda>row. cells row ! c = CellInt key) (rows_of (schema t) m) \<and>
    index_of p n es K \<and> free_page p = free_page (handle_pager w h) \<and> pages p \<le> max 1 (pages (handle_pager w h)) \<and>
    degree_of p = degree_of (handle_pager w h)"
proof -
  obtain p where p: "ta_find file_store E (indexed_access t l cid h) name (CellInt key) w =
      (Inr (indexed_query E t l (map_of es key) w), (with_handle h p w)\<lparr>w_ticks := w_ticks w + 1\<rparr>)"
    "index_of p n es K" "free_page p = free_page (handle_pager w h)" "pages p \<le> max 1 (pages (handle_pager w h))"
    "degree_of p = degree_of (handle_pager w h)"
    using indexed_ta_find [OF h idx col name fuel, of l] by blast
  let ?w' = "(with_handle h p w)\<lparr>w_ticks := w_ticks w + 1\<rparr>"
  note S = same_table_inv [OF with_handle_simps(2) [OF h] tab, of p]
  have "rows_inv (\<lambda>s. fixed_size (schema t) \<and> unat (record_length s) = fixed_len (schema t)) l t f (w_store ?w')"
    using S(1) by (simp add: table_inv_def)
  moreover have "sorted_wrt (<) (map fst es)" using index_of_sorted [OF idx] by simp
  moreover have "m \<subseteq>\<^sub>m table_map l (w_store ?w') (table_id t)" using sub S(2) by simp
  ultimately obtain rs where rs: "query_rows (indexed_query E t l (map_of es key) w) (w_store ?w') = Inr rs"
    "mset (map snd rs) = filter_mset (\<lambda>row. cells row ! c = CellInt key) (rows_of (schema t) m)"
    using indexed_rows [of _ l t f "w_store ?w'" c m es "env_order E (w_ticks w)" key] es order indexed_query_rows by blast
  show ?thesis
    using p rs unfolding Let_def by (intro exI [of _ "indexed_query E t l (map_of es key) w"] exI [of _ rs] exI [of _ p] conjI)
qed

lemma indexed_find:
  assumes inv: "indexed_inv l t f c h n K w" and col: "indexed_column (schema t) cid c"
    and name: "find_column_for_query_by_cell (schema t) name (CellInt key) = Inr c"
    and fuel: "n < env_fuel E" and order: "\<forall>n. hash_order_ok (env_order E n)"
  shows "\<exists>q rs w'. ta_find file_store E (indexed_access t l cid h) name (CellInt key) w = (Inr q, w') \<and>
    query_rows q (w_store w') = Inr rs \<and>
    mset (map snd rs) = filter_mset (\<lambda>row. cells row ! c = CellInt key) (rows_of (schema t) (table_map l (w_store w) (table_id t))) \<and>
    indexed_inv l t f c h n K w' \<and> table_map l (w_store w') (table_id t) = table_map l (w_store w) (table_id t) \<and>
    free_page (handle_pager w' h) = free_page (handle_pager w h) \<and>
    pages (handle_pager w' h) \<le> max 1 (pages (handle_pager w h)) \<and>
    degree_of (handle_pager w' h) = degree_of (handle_pager w h)"
proof -
  note I = indexed_invD(1,2) [OF inv]
  obtain es where es: "index_of (handle_pager w h) n es K"
    "entries_match (schema t) c (table_map l (w_store w) (table_id t)) es"
    using indexed_invD(3) [OF inv] by blast
  obtain q rs p where p: "let w' = (with_handle h p w)\<lparr>w_ticks := w_ticks w + 1\<rparr> in
    ta_find file_store E (indexed_access t l cid h) name (CellInt key) w = (Inr q, w') \<and>
    query_rows q (w_store w') = Inr rs \<and>
    mset (map snd rs) = filter_mset (\<lambda>row. cells row ! c = CellInt key) (rows_of (schema t) (table_map l (w_store w) (table_id t))) \<and>
    index_of p n es K \<and> free_page p = free_page (handle_pager w h) \<and> pages p \<le> max 1 (pages (handle_pager w h)) \<and>
    degree_of p = degree_of (handle_pager w h)"
    using indexed_lookup [OF I es map_le_refl col name fuel order] by blast
  have "index_of p n es K" using p by (simp add: Let_def)
  note W = indexed_inv_handle [OF inv this es(2)] and H = with_handle_simps(1) [OF I(2), of p]
  show ?thesis
    using p W H by (intro exI [of _ q] exI [of _ rs] exI [of _ "(with_handle h p w)\<lparr>w_ticks := w_ticks w + 1\<rparr>"])
      (simp add: Let_def)
qed

section \<open>Insertion\<close>

lemma entries_match_insert:
  assumes "entries_match s c m es" and "m (pid, i) = None" and "cells (decode s dat) ! c = CellInt key"
    and "key \<notin> fst ` set es"
  shows "entries_match s c (m((pid, i) \<mapsto> dat)) (insert_entry key (pid, usize_as_i32 i) es)"
  unfolding entries_match_def
proof (intro allI)
  fix key' pid' j :: i32
  let ?R = "\<lambda>m. \<exists>i' bs. m (pid', i') = Some bs \<and> cells (decode s bs) ! c = CellInt key' \<and> j = usize_as_i32 i'"
  have "?R (m((pid, i) \<mapsto> dat)) \<longleftrightarrow> (key', pid', j) = (key, pid, usize_as_i32 i) \<or> ?R m"
  proof
    assume "?R (m((pid, i) \<mapsto> dat))"
    then obtain i' bs where "(m((pid, i) \<mapsto> dat)) (pid', i') = Some bs" "cells (decode s bs) ! c = CellInt key'" "j = usize_as_i32 i'"
      by blast
    then show "(key', pid', j) = (key, pid, usize_as_i32 i) \<or> ?R m"
    proof (cases "(pid', i') = (pid, i)")
      case False
      then have "m (pid', i') = Some bs" using \<open>(m((pid, i) \<mapsto> dat)) (pid', i') = Some bs\<close> by (simp only: fun_upd_apply if_False)
      then show ?thesis using \<open>cells (decode s bs) ! c = _\<close> \<open>j = _\<close> by blast
    qed (use assms(3) in simp)
  next
    assume "(key', pid', j) = (key, pid, usize_as_i32 i) \<or> ?R m"
    then show "?R (m((pid, i) \<mapsto> dat))"
    proof
      assume "?R m"
      then obtain i' bs where "m (pid', i') = Some bs" "cells (decode s bs) ! c = CellInt key'" "j = usize_as_i32 i'"
        by blast
      then show ?thesis using assms(2) by (intro exI [of _ i'] exI [of _ bs]) auto
    qed (use assms(3) in \<open>auto intro!: exI [of _ i] exI [of _ dat]\<close>)
  qed
  then show "(key', pid', j) \<in> set (insert_entry key (pid, usize_as_i32 i) es) \<longleftrightarrow> ?R (m((pid, i) \<mapsto> dat))"
    using assms(1) by (simp add: set_insert_entry [OF assms(4)] entries_match_def)
qed

text \<open>The command of an insertion for the one index.\<close>

lemma indexed_cell:
  assumes "indexed_column s cid c" and "row_fits row s"
  obtains key where "c < length (cells row)" and "cells row ! c = CellInt key"
proof -
  have "c < length (columns s)" "col_type (columns s ! c) = TInt" using assms(1) by (simp_all add: indexed_column_def)
  moreover have "list_all2 (\<lambda>x col. cell_fits x (col_type col)) (cells row) (columns s)" using assms(2) by (simp add: row_fits_def)
  ultimately have "c < length (cells row)" "cell_fits (cells row ! c) TInt"
    using list_all2_lengthD [of _ "cells row" "columns s"] list_all2_nthD2 [of _ "cells row" "columns s" c] by fastforce+
  then show thesis using that by (cases "cells row ! c") auto
qed

lemma indexed_command:
  assumes "c < length (cells row)" and "cells row ! c = CellInt key"
  shows "insert_command row [(c, 0)] [] = Inr [(0, None, Some key)]"
  using assms by (simp add: index_get_def push_insert_def)

lemma indexed_hook:
  assumes "h < length (w_handles w)"
    and "btree_insert (env_keeps E h) (env_fuel E) key (pid, usize_as_i32 i) (handle_pager w h) = (r, q)"
  shows "update_index file_store E (indexed_access t l cid h) pid i [(0, None, Some key)] w =
    (map_err (UpdateRowsError \<circ> IndexUpdate) r, with_handle h q w)"
  using at_index_run [OF assms(1), of "\<lambda>keeps. btree_insert keeps (env_fuel E) key (pid, usize_as_i32 i)" E, OF assms(2), of "UpdateRowsError \<circ> IndexUpdate"]
  by (auto simp: update_index_def update_one_index_def index_get_def io_bind_def split: sum.split)

lemma indexed_ta_insert:
  assumes "indexed_column (schema t) cid c" and "row_fits row (schema t)" and "cells row ! c = CellInt key"
    and "\<forall>n. hash_order_ok (env_order E n)"
  shows "ta_insert file_store E (indexed_access t l cid h) row w =
    (case raw_insert file_store (ta_new t l) (row_serialize row)
        (\<lambda>(pid, i). update_index file_store E (indexed_access t l cid h) pid i [(0, None, Some key)])
        (w\<lparr>w_ticks := w_ticks w + 1\<rparr>) of (r, w') \<Rightarrow> (and_then r (\<lambda>_. Inr ()), w'))"
proof -
  have val: "row_validate row (schema t) = Inr ()" using assms(2) by (simp add: row_validate_iff)
  have ptr: "column_index_to_btree_pointer_map (indexed_access t l cid h) = Inr [(c, 0)]"
    using assms(1) by (intro indexed_pointers) (simp add: indexed_column_def)
  have len: "c < length (cells row)" using indexed_cell [OF assms(1,2)] by blast
  show ?thesis
    using assms(4) by (simp add: ta_insert_def val ptr next_order_def io_bind_def hash_iter_single indexed_command [OF len assms(3)]
        indexed_raw_insert del: insert_command.simps split: prod.split sum.split)
qed

lemma indexed_insert_step:
  assumes inv: "indexed_inv l t f c h n K w" and col: "indexed_column (schema t) cid c"
    and room: "file_count l (w_store w) (TableStorage (table_id t)) + 2 < 2 ^ 31"
    and row: "row_fits row (schema t)" "row_strings_ok row" "cells row ! c = CellInt key"
    and order: "\<forall>n. hash_order_ok (env_order E n)"
    and index: "\<And>pid i. 1 \<le> i32_val pid \<Longrightarrow> i < 2 ^ 31 \<Longrightarrow>
      \<exists>q. btree_insert (env_keeps E h) (env_fuel E) key (pid, usize_as_i32 i) (handle_pager w h) = (br, q) \<and> Q pid i q"
  shows "\<exists>r w'. ta_insert file_store E (indexed_access t l cid h) row w = (r, w') \<and>
    table_inv l t f (w_store w') \<and> h < length (w_handles w') \<and>
    file_count l (w_store w') (TableStorage (table_id t)) \<le> Suc (file_count l (w_store w) (TableStorage (table_id t))) \<and>
    ((\<exists>e. r = Inl e \<and> refused_row l t f (w_store w) (row_serialize row) e \<and> handle_pager w' h = handle_pager w h \<and>
        table_map l (w_store w') (table_id t) = table_map l (w_store w) (table_id t)) \<or>
     (\<exists>pid i. (\<forall>e. \<not> refused_row l t f (w_store w) (row_serialize row) e) \<and>
        table_map l (w_store w) (table_id t) (pid, i) = None \<and> Q pid i (handle_pager w' h) \<and>
        r = map_err (UpdateRowsError \<circ> IndexUpdate) br \<and>
        table_map l (w_store w') (table_id t) =
          (case br of Inl e \<Rightarrow> table_map l (w_store w) (table_id t)
           | Inr _ \<Rightarrow> (table_map l (w_store w) (table_id t))((pid, i) \<mapsto> row_serialize row))))"
proof -
  let ?w0 = "w\<lparr>w_ticks := w_ticks w + 1\<rparr>" and ?dat = "row_serialize row" and ?A = "table_files t"
  let ?hook = "\<lambda>(pid, i). update_index file_store E (indexed_access t l cid h) pid i [(0, None, Some key)]"
  let ?m = "table_map l (w_store w) (table_id t)" and ?p = "handle_pager w h" and ?tab = "TableStorage (table_id t)"
  note I = indexed_invD(1,2) [OF inv]
  have cols: "columns (schema t) \<noteq> []" using col by (auto simp: indexed_column_def)
  note run = indexed_ta_insert [OF col row(1,3) order, of l h w]
  have st: "w_store ?w0 = w_store w" by simp
  have pre: "table_inv l t f (w_store ?w0)" "file_count l (w_store ?w0) (TableStorage (table_id t)) + 2 < 2 ^ 31"
    using I(1) room by (simp_all only: st)
  obtain r w' u where raw: "raw_insert file_store (ta_new t l) ?dat ?hook ?w0 = (r, w')"
    "only_files ?A (w_store w) u" "table_inv l t f u" "table_map l u (table_id t) = ?m"
    "file_count l u ?tab \<le> Suc (file_count l (w_store w) ?tab)"
    "(\<exists>e. r = Inl e \<and> w' = ?w0\<lparr>w_store := u\<rparr> \<and> refused_row l t f (w_store w) ?dat e) \<or>
     (\<exists>k hr w2. (\<forall>e. \<not> refused_row l t f (w_store w) ?dat e) \<and> ?hook k (?w0\<lparr>w_store := u\<rparr>) = (hr, w2) \<and> table_map l u (table_id t) k = None \<and>
        1 \<le> i32_val (fst k) \<and> snd k < 2 ^ 31 \<and>
        (case hr of Inl e \<Rightarrow> r = Inl e \<and> w' = w2
         | Inr _ \<Rightarrow> same_table t u (w_store w2) \<longrightarrow>
             (\<exists>v. r = Inr k \<and> w' = w2\<lparr>w_store := v\<rparr> \<and> only_files ?A (w_store w2) v \<and>
                table_inv l t f v \<and> table_map l v (table_id t) = (table_map l u (table_id t))(k \<mapsto> ?dat) \<and>
                file_count l v ?tab = file_count l u ?tab)))"
    using raw_insert_hooked [OF pre row(1,2) cols, of ?hook, unfolded st] by blast
  let ?w1 = "?w0\<lparr>w_store := u\<rparr>"
  have hp: "handle_pager ?w1 h = ?p"
    using handle_pager_store [of t ?w0 u h] raw(2) by simp
  from raw(6) show ?thesis
  proof (elim disjE exE conjE)
    fix e
    assume "r = Inl e" "w' = ?w1" "refused_row l t f (w_store w) ?dat e"
    then show ?thesis
      using run raw(1,3,4,5) hp I(2) by (intro exI [of _ "Inl e"] exI [of _ w']) simp
  next
    fix k hr w2
    assume taken: "\<forall>e. \<not> refused_row l t f (w_store w) ?dat e"
      and k: "?hook k ?w1 = (hr, w2)" "table_map l u (table_id t) k = None" "1 \<le> i32_val (fst k)" "snd k < 2 ^ 31"
      and hr: "case hr of Inl e \<Rightarrow> r = Inl e \<and> w' = w2
         | Inr _ \<Rightarrow> same_table t u (w_store w2) \<longrightarrow>
             (\<exists>v. r = Inr k \<and> w' = w2\<lparr>w_store := v\<rparr> \<and> only_files ?A (w_store w2) v \<and>
                table_inv l t f v \<and> table_map l v (table_id t) = (table_map l u (table_id t))(k \<mapsto> ?dat) \<and>
                file_count l v ?tab = file_count l u ?tab)"
    obtain pid i where pair: "k = (pid, i)" by (cases k)
    obtain q where q: "btree_insert (env_keeps E h) (env_fuel E) key (pid, usize_as_i32 i) ?p = (br, q)" "Q pid i q"
      using index [of pid i] k(3,4) by (auto simp: pair)
    have h1: "h < length (w_handles ?w1)" using I(2) by simp
    have w2: "hr = map_err (UpdateRowsError \<circ> IndexUpdate) br" "w2 = with_handle h q ?w1"
      using indexed_hook [OF h1, of E key pid i br q t l cid, unfolded hp, OF q(1)] k(1) by (simp_all add: pair)
    have same: "same_table t u (w_store w2)" using with_handle_simps(2) [OF h1, of t q] by (simp add: w2(2))
    note H = with_handle_simps(1,3) [OF h1, of q, folded w2(2)]
    show ?thesis
    proof (cases br)
      case (Inl e)
      then obtain e' where e': "hr = Inl e'" using w2(1) by (cases e) simp_all
      then have "r = Inl e'" "w' = w2" using hr by simp_all
      then show ?thesis
        using run raw(1,4,5) k(2) taken same_table_inv [OF same raw(3)] H I(2) q(2) w2(1) Inl e'
        by (intro exI [of _ hr] exI [of _ w2]) (auto simp: pair intro!: exI [of _ pid] exI [of _ i])
    next
      case (Inr x)
      then obtain v where v: "r = Inr k" "w' = w2\<lparr>w_store := v\<rparr>" "only_files ?A (w_store w2) v" "table_inv l t f v"
        "table_map l v (table_id t) = ?m(k \<mapsto> ?dat)" "file_count l v ?tab = file_count l u ?tab"
        using hr w2(1) same raw(4) by auto
      have "handle_pager w' h = q" using handle_pager_store [OF v(3), of h] H(1) by (simp add: v(2))
      then show ?thesis
        using run raw(1,4,5) k(2) taken v H(2) I(2) q(2) Inr by (intro exI [of _ "Inr ()"] exI [of _ w']) (auto simp: pair)
    qed
  qed
qed

text \<open>A key that is on no page of the index.\<close>

lemma indexed_insert:
  assumes inv: "indexed_inv l t f c h n K w" and col: "indexed_column (schema t) cid c"
    and room: "file_count l (w_store w) (TableStorage (table_id t)) + 2 < 2 ^ 31"
    and row: "row_fits row (schema t)" "row_strings_ok row" "cells row ! c = CellInt key"
    and order: "\<forall>n. hash_order_ok (env_order E n)"
    and key: "key \<notin> K" "key \<noteq> i32_min"
    and index: "free_page (handle_pager w h) = None" "pages (handle_pager w h) + n + 4 \<le> 2 ^ 31" "Suc n < env_fuel E"
  shows "\<exists>r w' n'. ta_insert file_store E (indexed_access t l cid h) row w = (r, w') \<and>
    indexed_inv l t f c h n' (if r = Inr () then insert key K else K) w' \<and> n' \<le> Suc n \<and>
    free_page (handle_pager w' h) = None \<and> pages (handle_pager w' h) \<le> pages (handle_pager w h) + n + 4 \<and>
    degree_of (handle_pager w' h) = degree_of (handle_pager w h) \<and>
    file_count l (w_store w') (TableStorage (table_id t)) \<le> Suc (file_count l (w_store w) (TableStorage (table_id t))) \<and>
    (case r of
       Inr _ \<Rightarrow> \<exists>k. table_map l (w_store w) (table_id t) k = None \<and>
         table_map l (w_store w') (table_id t) = (table_map l (w_store w) (table_id t))(k \<mapsto> row_serialize row)
     | Inl e \<Rightarrow> table_map l (w_store w') (table_id t) = table_map l (w_store w) (table_id t) \<and>
         refused_row l t f (w_store w) (row_serialize row) e)"
proof -
  let ?m = "table_map l (w_store w) (table_id t)" and ?p = "handle_pager w h"
  obtain es where es: "index_of ?p n es K" "entries_match (schema t) c ?m es" using indexed_invD(3) [OF inv] by blast
  let ?Q = "\<lambda>pid i q. \<exists>n'. index_of q n' (insert_entry key (pid, usize_as_i32 i) es) (insert key K) \<and> n' \<le> Suc n \<and>
    pages q \<le> pages ?p + n + 4 \<and> free_page q = None \<and> degree_of q = degree_of ?p"
  have step: "\<exists>q. btree_insert (env_keeps E h) (env_fuel E) key (pid, usize_as_i32 i) ?p = (Inr (), q) \<and> ?Q pid i q"
    if "1 \<le> i32_val pid" "i < 2 ^ 31" for pid i
  proof -
    have "i32_val i32_min < 0" by (simp add: i32_min_def)
    then have "pid \<noteq> i32_min" "usize_as_i32 i \<noteq> i32_min" using that(1) i32_val_usize_as_i32 [OF that(2)] by auto
    then show ?thesis
      using insert_index [OF es(1) index(1,2) key _ _ index(3), of "(pid, usize_as_i32 i)" "env_keeps E h"] by auto
  qed
  obtain r w' where run: "ta_insert file_store E (indexed_access t l cid h) row w = (r, w')" "table_inv l t f (w_store w')"
    "h < length (w_handles w')"
    "file_count l (w_store w') (TableStorage (table_id t)) \<le> Suc (file_count l (w_store w) (TableStorage (table_id t)))"
    "(\<exists>e. r = Inl e \<and> refused_row l t f (w_store w) (row_serialize row) e \<and> handle_pager w' h = ?p \<and>
        table_map l (w_store w') (table_id t) = ?m) \<or>
     (\<exists>pid i. ?m (pid, i) = None \<and> ?Q pid i (handle_pager w' h) \<and> r = Inr () \<and>
        table_map l (w_store w') (table_id t) = ?m((pid, i) \<mapsto> row_serialize row))"
    using indexed_insert_step [where br = "Inr ()" and Q = "?Q" and E = E, OF inv col room row order step]
    by (simp only: map_err_simps sum.case) blast
  from run(5) show ?thesis
  proof (elim disjE exE conjE)
    fix e
    assume e: "r = Inl e" "refused_row l t f (w_store w) (row_serialize row) e" "handle_pager w' h = ?p"
      "table_map l (w_store w') (table_id t) = ?m"
    then have "indexed_inv l t f c h n K w'" using run(2,3) es by (auto simp: indexed_inv_def)
    then show ?thesis using run(1,4) e index(1) by (intro exI [of _ r] exI [of _ w'] exI [of _ n]) simp
  next
    fix pid i n'
    assume k: "?m (pid, i) = None" "r = Inr ()" "table_map l (w_store w') (table_id t) = ?m((pid, i) \<mapsto> row_serialize row)"
      and q: "index_of (handle_pager w' h) n' (insert_entry key (pid, usize_as_i32 i) es) (insert key K)" "n' \<le> Suc n"
        "pages (handle_pager w' h) \<le> pages ?p + n + 4" "free_page (handle_pager w' h) = None" "degree_of (handle_pager w' h) = degree_of ?p"
    have "decode (schema t) (row_serialize row) = row"
      using row_deserialize_serialize [OF row(1,2)] by (simp add: decode_def)
    moreover have "key \<notin> fst ` set es" using index_of_sorted [OF es(1)] key(1) by blast
    ultimately have "entries_match (schema t) c (?m((pid, i) \<mapsto> row_serialize row)) (insert_entry key (pid, usize_as_i32 i) es)"
      using entries_match_insert [OF es(2) k(1)] row(3) by simp
    then have "indexed_inv l t f c h n' (insert key K) w'"
      using run(2,3) k(3) q(1) by (auto simp: indexed_inv_def)
    then show ?thesis using run(1,4) k q(2-5) by (intro exI [of _ r] exI [of _ w'] exI [of _ n']) auto
  qed
qed

end
