(* ===== verification/Indexed_History.thy ===== *)
theory Indexed_History
  imports Indexed_Table
begin

text \<open>
  Histories of a table with a unique index: whatever rows with new keys were inserted since the files
  were created, lookups through the index answer as a scan would.
\<close>

section \<open>States\<close>

text \<open>
  The number of insertions is counted: it bounds the height and the pages of the index, and
  the fuel that its operations need.
\<close>

inductive indexed_history ::
  "page_data_layout \<Rightarrow> table \<Rightarrow> fsm \<Rightarrow> i32 \<Rightarrow> nat \<Rightarrow> nat \<Rightarrow> nat \<Rightarrow> row multiset \<Rightarrow> files world \<Rightarrow> bool" for l t f cid c h where
  opened: "table_history l t f {#} w0 \<Longrightarrow> w_store w0 (btree_file_path bid) = None \<Longrightarrow>
    file_read_btree bid (w_store w0) = (Inr p, w_store w) \<Longrightarrow> h < length (w_handles w) \<Longrightarrow>
    w_handles w ! h = \<lparr>ih_btree = bid, ih_pager = p\<rparr> \<Longrightarrow> indexed_history l t f cid c h 0 {#} w"
| inserted: "indexed_history l t f cid c h n M w \<Longrightarrow> Suc n * (Suc n + 4) \<le> 2 ^ 31 \<Longrightarrow> Suc (Suc n) < env_fuel E \<Longrightarrow>
    file_count l (w_store w) (TableStorage (table_id t)) + 2 < 2 ^ 31 \<Longrightarrow> row_strings_ok row \<Longrightarrow>
    \<forall>n. hash_order_ok (env_order E n) \<Longrightarrow> cells row ! c \<noteq> CellInt i32_min \<Longrightarrow>
    \<forall>r \<in># M. cells r ! c \<noteq> cells row ! c \<Longrightarrow>
    ta_insert file_store E (indexed_access t l cid h) row w = (r, w') \<Longrightarrow>
    indexed_history l t f cid c h (Suc n) (if r = Inr () then add_mset row M else M) w'"
| found: "indexed_history l t f cid c h n M w \<Longrightarrow> Suc n < env_fuel E \<Longrightarrow> \<forall>n. hash_order_ok (env_order E n) \<Longrightarrow>
    find_column_for_query_by_cell (schema t) name x = Inr i \<Longrightarrow>
    ta_find file_store E (indexed_access t l cid h) name x w = (Inr q, w') \<Longrightarrow> indexed_history l t f cid c h n M w'"

definition keys_of :: "nat \<Rightarrow> row multiset \<Rightarrow> i32 set" where
  "keys_of c M = {key. \<exists>row \<in># M. cells row ! c = CellInt key}"

definition indexed_state :: "page_data_layout \<Rightarrow> table \<Rightarrow> fsm \<Rightarrow> nat \<Rightarrow> nat \<Rightarrow> nat \<Rightarrow> row multiset \<Rightarrow> files world \<Rightarrow> bool" where
  "indexed_state l t f c h n M w \<longleftrightarrow> rows_of (schema t) (table_map l (w_store w) (table_id t)) = M \<and>
     free_page (handle_pager w h) = None \<and> pages (handle_pager w h) \<le> max 1 (n * (n + 4)) \<and>
     degree_of (handle_pager w h) = unat BTREE_MAX_DEGREE \<and>
     (\<exists>ht. ht \<le> n \<and> indexed_inv l t f c h ht (keys_of c M) w)"

lemma indexed_opened:
  assumes "table_history l t f {#} w0" and "w_store w0 (btree_file_path bid) = None"
    and "file_read_btree bid (w_store w0) = (Inr p, w_store w)" and "h < length (w_handles w)"
    and "w_handles w ! h = \<lparr>ih_btree = bid, ih_pager = p\<rparr>"
  shows "indexed_state l t f c h 0 {#} w"
proof -
  have inv: "table_inv l t f (w_store w0)" and rows: "rows_of (schema t) (table_map l (w_store w0) (table_id t)) = {#}"
    using history_ok [OF assms(1)] by (simp_all add: history_inv_def)
  obtain q where q: "btree_new (w_store w0) (btree_file_path bid) BTREE_MAX_DEGREE =
      (Inr q, (w_store w0)(btree_file_path bid := Some (pager_file q)))" "index_of q 0 [] {}" "pages q = 0" "free_page q = None" "degree_of q = unat BTREE_MAX_DEGREE"
    using new_index [of BTREE_MAX_DEGREE "w_store w0" "btree_file_path bid", OF _ _ _ assms(2)] by (auto simp: BTREE_MAX_DEGREE_def)
  have w: "p = q" "w_store w = (w_store w0)(btree_file_path bid := Some (pager_file q))"
    using assms(3) q(1) by (auto simp: file_read_btree_def)
  have "same_table t (w_store w0) (w_store w)"
    using btree_file_other [symmetric] by (auto simp: same_table_def w(2) simp del: storage_file_path.simps)
  note S = same_table_inv [OF this inv]
  have hp: "handle_pager w h = q" by (simp add: handle_pager_def assms(5) w file_btree_file_def)
  have "mset_set (dom (table_map l (w_store w0) (table_id t))) = {#}" using rows by (simp add: rows_of_def)
  then have "table_map l (w_store w) (table_id t) = Map.empty"
    using table_map_finite [OF table_invD(2) [OF inv]] S(2) by (simp add: mset_set_empty_iff)
  then show ?thesis
    using S(1) assms(4) q(2-5) hp rows S(2) by (auto simp: indexed_state_def indexed_inv_def entries_match_def keys_of_def)
qed

lemma ta_find_unindexed:
  assumes "indexed_column (schema t) cid c" and "find_column_for_query_by_cell (schema t) name x = Inr i" and "i \<noteq> c"
  shows "ta_find S E (indexed_access t l cid h) name x = ta_find S E (ta_new t l) name x"
proof -
  have "column_index_to_btree_pointer_map (indexed_access t l cid h) = Inr [(c, 0)]"
    using assms(1) by (intro indexed_pointers) (simp add: indexed_column_def)
  then show ?thesis using assms(2,3) by (simp add: ta_find_def fun_eq_iff io_bind_def)
qed

text \<open>A lookup by any column, through the index or not.\<close>

lemma indexed_state_find:
  assumes state: "indexed_state l t f c h n M w" and col: "indexed_column (schema t) cid c"
    and fuel: "Suc n < env_fuel E" and order: "\<forall>n. hash_order_ok (env_order E n)"
    and name: "find_column_for_query_by_cell (schema t) name x = Inr i"
  shows "\<exists>q rs w'. ta_find file_store E (indexed_access t l cid h) name x w = (Inr q, w') \<and>
    query_rows q (w_store w') = Inr rs \<and> mset (map snd rs) = filter_mset (\<lambda>row. cells row ! i = x) M \<and>
    indexed_state l t f c h n M w'"
proof -
  obtain ht where inv: "indexed_inv l t f c h ht (keys_of c M) w" "ht \<le> n" and M: "rows_of (schema t) (table_map l (w_store w) (table_id t)) = M"
    and p: "free_page (handle_pager w h) = None" "pages (handle_pager w h) \<le> max 1 (n * (n + 4))"
      "degree_of (handle_pager w h) = unat BTREE_MAX_DEGREE"
    using state by (auto simp: indexed_state_def)
  show ?thesis
  proof (cases "i = c")
    case True
    have "is_of_type x (col_type (columns (schema t) ! i))"
      using name by (auto simp: find_column_for_query_by_cell_def and_then_Inr_iff index_get_def split: if_splits)
    then obtain key where x: "x = CellInt key" using col True by (cases x) (auto simp: indexed_column_def is_of_type_def)
    have "ht < env_fuel E" using inv(2) fuel by simp
    then obtain q rs w' where "ta_find file_store E (indexed_access t l cid h) name x w = (Inr q, w')"
      "query_rows q (w_store w') = Inr rs" "mset (map snd rs) = filter_mset (\<lambda>row. cells row ! c = CellInt key) M"
      "indexed_inv l t f c h ht (keys_of c M) w'" "table_map l (w_store w') (table_id t) = table_map l (w_store w) (table_id t)"
      "free_page (handle_pager w' h) = None" "pages (handle_pager w' h) \<le> max 1 (pages (handle_pager w h))"
      "degree_of (handle_pager w' h) = degree_of (handle_pager w h)"
      using indexed_find [OF inv(1) col name [unfolded x True] _ order] p(1) unfolding M x by metis
    then show ?thesis using True x p(2,3) inv(2) M
      by (intro exI [of _ q] exI [of _ rs] exI [of _ w']) (auto simp: indexed_state_def)
  next
    case False
    have I: "rows_inv (\<lambda>s. fixed_size (schema t) \<and> unat (record_length s) = fixed_len (schema t)) l t f (w_store w)"
      using indexed_invD(1) [OF inv(1)] by (simp add: table_inv_def)
    obtain q where q: "ta_find file_store E (ta_new t l) name x w = (Inr q, w)"
      using find_entries [OF rows_invD(2) [OF I] rows_inv_readable(1) [OF I] name, of E] by blast
    then show ?thesis
      using found_rows [OF I name q] ta_find_unindexed [OF col name False, of file_store E l h] state M by auto
  qed
qed

text \<open>An insertion of a row with a new key.\<close>

lemma keys_of_add: "cells row ! c = CellInt key \<Longrightarrow> keys_of c (add_mset row M) = insert key (keys_of c M)"
  by (auto simp: keys_of_def)

lemma invalid_row:
  assumes "\<not> row_fits row (schema t)" and "ta_table ta = t"
  shows "\<exists>e. ta_insert S E ta row w = (Inl (Err (InsertRowError (RowInvalid e))), w)"
proof -
  have "row_validate row (schema t) \<noteq> Inr ()" using assms by (simp add: row_validate_iff)
  then obtain e where e: "row_validate row (schema t) = Inl e" by (cases "row_validate row (schema t)") auto
  moreover have "e \<noteq> Panic"
    using e by (auto simp: row_validate_def validate_cells_first split: if_splits option.splits)
  ultimately obtain e' where "row_validate row (schema t) = Inl (Err e')" by (cases e) auto
  then show ?thesis using assms(2) by (simp add: ta_insert_def io_bind_def)
qed

lemma indexed_state_insert:
  assumes state: "indexed_state l t f c h n M w" and col: "indexed_column (schema t) cid c"
    and size: "Suc n * (Suc n + 4) \<le> 2 ^ 31" and fuel: "Suc (Suc n) < env_fuel E"
    and room: "file_count l (w_store w) (TableStorage (table_id t)) + 2 < 2 ^ 31" and row: "row_strings_ok row"
    and order: "\<forall>n. hash_order_ok (env_order E n)" and key: "cells row ! c \<noteq> CellInt i32_min"
    and new: "\<forall>r \<in># M. cells r ! c \<noteq> cells row ! c"
    and run: "ta_insert file_store E (indexed_access t l cid h) row w = (r, w')"
  shows "indexed_state l t f c h (Suc n) (if r = Inr () then add_mset row M else M) w'"
    and "r = Inl e \<Longrightarrow> (\<exists>x. row_validate row (schema t) \<noteq> Inr () \<and> e = Err (InsertRowError (RowInvalid x))) \<or>
      refused_row l t f (w_store w) (row_serialize row) e"
    and "file_count l (w_store w') (TableStorage (table_id t)) \<le> Suc (file_count l (w_store w) (TableStorage (table_id t)))"
proof -
  let ?m = "table_map l (w_store w) (table_id t)"
  obtain ht where inv: "indexed_inv l t f c h ht (keys_of c M) w" "ht \<le> n" and M: "rows_of (schema t) ?m = M"
    and p: "free_page (handle_pager w h) = None" "pages (handle_pager w h) \<le> max 1 (n * (n + 4))"
      "degree_of (handle_pager w h) = unat BTREE_MAX_DEGREE"
    using state by (auto simp: indexed_state_def)
  have grow: "max 1 (n * (n + 4)) + n + 4 \<le> Suc n * (Suc n + 4)" by (cases n) (simp_all add: algebra_simps)
  have "indexed_state l t f c h (Suc n) (if r = Inr () then add_mset row M else M) w' \<and>
    (\<forall>e. r = Inl e \<longrightarrow> (\<exists>x. row_validate row (schema t) \<noteq> Inr () \<and> e = Err (InsertRowError (RowInvalid x))) \<or>
      refused_row l t f (w_store w) (row_serialize row) e) \<and>
    file_count l (w_store w') (TableStorage (table_id t)) \<le> Suc (file_count l (w_store w) (TableStorage (table_id t)))"
  proof (cases "row_fits row (schema t)")
    case False
    then obtain x where "r = Inl (Err (InsertRowError (RowInvalid x)))" "w' = w"
      using invalid_row [OF False, of "indexed_access t l cid h" file_store E w] run by auto
    moreover have "max 1 (n * (n + 4)) \<le> max 1 (Suc n * (Suc n + 4))" using grow by simp
    ultimately show ?thesis using state False by (auto simp: indexed_state_def row_validate_iff intro: order_trans le_SucI)
  next
    case True
    obtain key' where key': "cells row ! c = CellInt key'" using indexed_cell [OF col True] by metis
    have "key' \<notin> keys_of c M" "key' \<noteq> i32_min" using new key by (auto simp: keys_of_def key')
    moreover have "pages (handle_pager w h) + ht + 4 \<le> 2 ^ 31" "Suc ht < env_fuel E"
      using p(2) inv(2) grow size fuel by linarith+
    ultimately obtain r' v n' where v: "ta_insert file_store E (indexed_access t l cid h) row w = (r', v)"
      "indexed_inv l t f c h n' (if r' = Inr () then insert key' (keys_of c M) else keys_of c M) v"
      "n' \<le> Suc ht" "free_page (handle_pager v h) = None" "pages (handle_pager v h) \<le> pages (handle_pager w h) + ht + 4"
      "degree_of (handle_pager v h) = degree_of (handle_pager w h)"
      "file_count l (w_store v) (TableStorage (table_id t)) \<le> Suc (file_count l (w_store w) (TableStorage (table_id t)))"
      "case r' of Inr _ \<Rightarrow> \<exists>k. ?m k = None \<and> table_map l (w_store v) (table_id t) = ?m(k \<mapsto> row_serialize row)
       | Inl e \<Rightarrow> table_map l (w_store v) (table_id t) = ?m \<and> refused_row l t f (w_store w) (row_serialize row) e"
      using indexed_insert [OF inv(1) col room True row key' order _ _ p(1)] by blast
    have "r' = r" "v = w'" using v(1) run by simp_all
    note out = v(2-8) [unfolded this]
    have n': "n' \<le> Suc n" "pages (handle_pager w' h) \<le> max 1 (Suc n * (Suc n + 4))"
      using out(2,4) p(2) inv(2) grow by linarith+
    show ?thesis
    proof (cases r)
      case (Inl e)
      then show ?thesis using out n' M p(3) by (auto simp: indexed_state_def)
    next
      case (Inr x)
      have "decode (schema t) (row_serialize row) = row"
        using row_deserialize_serialize [OF True row] by (simp add: decode_def)
      then have "rows_of (schema t) (table_map l (w_store w') (table_id t)) = add_mset row M"
        using out(7) rows_of_insert [OF table_map_finite [OF table_invD(2) [OF indexed_invD(1) [OF inv(1)]]]] M Inr by fastforce
      then show ?thesis using out n' Inr p(3) by (auto simp: indexed_state_def keys_of_add [OF key'])
    qed
  qed
  then show "indexed_state l t f c h (Suc n) (if r = Inr () then add_mset row M else M) w'"
    and "r = Inl e \<Longrightarrow> (\<exists>x. row_validate row (schema t) \<noteq> Inr () \<and> e = Err (InsertRowError (RowInvalid x))) \<or>
      refused_row l t f (w_store w) (row_serialize row) e"
    and "file_count l (w_store w') (TableStorage (table_id t)) \<le> Suc (file_count l (w_store w) (TableStorage (table_id t)))"
    by blast+
qed

lemma indexed_history_state:
  assumes "indexed_history l t f cid c h n M w" and "indexed_column (schema t) cid c"
  shows "indexed_state l t f c h n M w"
  using assms
proof (induction rule: indexed_history.induct)
  case (opened w0 bid p w)
  then show ?case by (intro indexed_opened)
next
  case (inserted n M w E row r w')
  then show ?case by (intro indexed_state_insert(1)) auto
next
  case (found n M w E name x i q w')
  then show ?case using indexed_state_find [of l t f c h n M w cid E name x i] by auto
qed

section \<open>Properties\<close>

text \<open>
  C3. A table with a unique index refines a multiset of rows. After any insertions of rows whose key
  is new, successful or not, and any lookups, a query by the indexed column, which is answered by the B+ tree,
  and a query by another column, which is a scan, both yield exactly the rows with the cell asked
  for. A further insertion fails only for an invalid row or when the page that the free space map gives
  out does not take it. The key \<open>i32::MIN\<close>, which the file format uses for an absent key, is left out,
  and \<open>n\<close> insertions are covered while \<open>n (n + 4) \<le> 2 ^ 31\<close>.
\<close>

theorem indexed_table_spec:
  assumes "indexed_history l t f cid c h n M w" and "indexed_column (schema t) cid c"
    and "Suc (Suc n) < env_fuel E" and "\<forall>n. hash_order_ok (env_order E n)"
  shows "(\<forall>name x i. find_column_for_query_by_cell (schema t) name x = Inr i \<longrightarrow>
      (\<exists>q rs w'. ta_find file_store E (indexed_access t l cid h) name x w = (Inr q, w') \<and>
        query_rows q (w_store w') = Inr rs \<and> mset (map snd rs) = filter_mset (\<lambda>row. cells row ! i = x) M)) \<and>
    (\<forall>row e w'. Suc n * (Suc n + 4) \<le> 2 ^ 31 \<longrightarrow>
      file_count l (w_store w) (TableStorage (table_id t)) + 2 < 2 ^ 31 \<longrightarrow> row_strings_ok row \<longrightarrow>
      cells row ! c \<noteq> CellInt i32_min \<longrightarrow> (\<forall>r \<in># M. cells r ! c \<noteq> cells row ! c) \<longrightarrow>
      ta_insert file_store E (indexed_access t l cid h) row w = (Inl e, w') \<longrightarrow>
      (\<exists>x. row_validate row (schema t) \<noteq> Inr () \<and> e = Err (InsertRowError (RowInvalid x))) \<or>
      refused_row l t f (w_store w) (row_serialize row) e)"
proof (intro conjI allI impI)
  note state = indexed_history_state [OF assms(1,2)]
  fix name x i
  assume "find_column_for_query_by_cell (schema t) name x = Inr i"
  then show "\<exists>q rs w'. ta_find file_store E (indexed_access t l cid h) name x w = (Inr q, w') \<and>
      query_rows q (w_store w') = Inr rs \<and> mset (map snd rs) = filter_mset (\<lambda>row. cells row ! i = x) M"
    using indexed_state_find [OF state assms(2) _ assms(4)] assms(3) by fastforce
next
  fix row e w'
  assume *: "Suc n * (Suc n + 4) \<le> 2 ^ 31" "file_count l (w_store w) (TableStorage (table_id t)) + 2 < 2 ^ 31"
    "row_strings_ok row" "cells row ! c \<noteq> CellInt i32_min" "\<forall>r \<in># M. cells r ! c \<noteq> cells row ! c"
    "ta_insert file_store E (indexed_access t l cid h) row w = (Inl e, w')"
  show "(\<exists>x. row_validate row (schema t) \<noteq> Inr () \<and> e = Err (InsertRowError (RowInvalid x))) \<or>
      refused_row l t f (w_store w) (row_serialize row) e"
    by (rule indexed_state_insert(2) [OF indexed_history_state [OF assms(1,2)] assms(2) *(1) assms(3) *(2,3) assms(4) *(4-6) refl])
qed

section \<open>An indexed table with one row\<close>

lemma fresh_indexed:
  assumes "columns (schema t) \<noteq> []"
  shows "\<exists>w. indexed_history layout_512 t (fresh_fsm t) cid c 0 0 {#} w \<and>
    file_count layout_512 (w_store w) (TableStorage (table_id t)) = 0"
proof -
  let ?t = t and ?w = "fresh_world t" and ?path = "btree_file_path (i32_of_int 1)"
  obtain fs1 where fs1: "file_create layout_512 (TableStorage (table_id ?t)) (\<lambda>_. None) = (Inr (), fs1)"
    "file_create layout_512 (fsm_access ?t) fs1 = (Inr (), w_store ?w)"
    by (rule fresh_files)
  have "only_files (table_files ?t) (\<lambda>_. None) fs1" "only_files (table_files ?t) fs1 (w_store ?w)"
    using fs1 changesD [OF file_create_only, of _ _ layout_512] by (simp_all add: file_store_def) blast+
  then have "only_files (table_files ?t) (\<lambda>_. None) (w_store ?w)" by (rule storing.trans)
  then have none: "w_store ?w ?path = None"
    using btree_file_other [of "i32_of_int 1"] unfolding only_files_def by blast
  obtain p u where p: "file_read_btree (i32_of_int 1) (w_store ?w) = (Inr p, u)"
    using new_index [of BTREE_MAX_DEGREE "w_store ?w" ?path, OF _ _ _ none] by (auto simp: file_read_btree_def BTREE_MAX_DEGREE_def)
  let ?v = "\<lparr>w_store = u, w_handles = [\<lparr>ih_btree = i32_of_int 1, ih_pager = p\<rparr>], w_ticks = 0\<rparr>"
  have hist: "table_history layout_512 ?t (fresh_fsm ?t) {#} ?w"
    by (rule fresh_history [OF assms])
  have "u = (w_store ?w)(?path := u ?path)"
    using p new_index [of BTREE_MAX_DEGREE "w_store ?w" ?path, OF _ _ _ none] by (auto simp: file_read_btree_def BTREE_MAX_DEGREE_def)
  then have "u (storage_file_path (TableStorage (table_id ?t))) = w_store ?w (storage_file_path (TableStorage (table_id ?t)))"
    by (metis btree_file_other fun_upd_other)
  then have "file_count layout_512 u (TableStorage (table_id ?t)) = 0"
    using fresh_count [of ?t] same_file(2) by metis
  moreover have "indexed_history layout_512 ?t (fresh_fsm ?t) cid c 0 0 {#} ?v"
    by (rule opened [OF hist none, of p]) (use p in simp_all)
  ultimately show ?thesis by (intro exI [of _ ?v]) simp
qed

lemma plain_order: "hash_order_ok (env_order plain_env n)"
  by (simp add: plain_env_def hash_order_ok_def)

lemma one_indexed_row:
  assumes col: "indexed_column (schema t) cid c" and row: "row_validate row (schema t) = Inr ()" "row_strings_ok row"
    and len: "length (row_serialize row) \<le> 491" and key: "cells row ! c \<noteq> CellInt i32_min"
  shows "\<exists>w w1. indexed_history layout_512 t (fresh_fsm t) cid c 0 0 {#} w \<and>
    ta_insert file_store plain_env (indexed_access t layout_512 cid 0) row w = (Inr (), w1) \<and>
    indexed_history layout_512 t (fresh_fsm t) cid c 0 1 {#row#} w1 \<and>
    file_count layout_512 (w_store w1) (TableStorage (table_id t)) \<le> 1"
proof -
  have "columns (schema t) \<noteq> []" using col by (auto simp: indexed_column_def)
  then obtain w where w: "indexed_history layout_512 t (fresh_fsm t) cid c 0 0 {#} w"
    "file_count layout_512 (w_store w) (TableStorage (table_id t)) = 0"
    using fresh_indexed by blast
  obtain r w1 where run: "ta_insert file_store plain_env (indexed_access t layout_512 cid 0) row w = (r, w1)" by force
  have pre: "Suc 0 * (Suc 0 + 4) \<le> (2 :: nat) ^ 31" "Suc (Suc 0) < env_fuel plain_env"
    "file_count layout_512 (w_store w) (TableStorage (table_id t)) + 2 < 2 ^ 31"
    "\<forall>n. hash_order_ok (env_order plain_env n)" "\<forall>r \<in># {#}. cells r ! c \<noteq> cells row ! c"
    using w(2) plain_order by (simp_all add: plain_env_def)
  note step = indexed_state_insert [OF indexed_history_state [OF w(1) col] col pre(1-3) row(2) pre(4) key pre(5) run]
  have "file_pages layout_512 (w_store w) (TableStorage (table_id t)) i = None" for i
    by (auto simp: file_pages_def w(2))
  then have "r = Inr ()"
    using step(2) empty_table_takes [OF _ len] row(1) by (cases r) auto
  then show ?thesis
    using w inserted [OF w(1) pre(1-3) row(2) pre(4) key pre(5) run] step(3) run by (intro exI [of _ w] exI [of _ w1]) simp
qed

lemma users_indexed: "indexed_column (schema users_table) (i32_of_int 5) 0"
  by (simp add: indexed_column_def users_table_def users_schema_def find_index_by_id_def)

lemma one_user:
  "\<exists>w w1. indexed_history layout_512 users_table (fresh_fsm users_table) (i32_of_int 5) 0 0 0 {#} w \<and>
    ta_insert file_store plain_env (indexed_access users_table layout_512 (i32_of_int 5) 0) user_row w = (Inr (), w1) \<and>
    indexed_history layout_512 users_table (fresh_fsm users_table) (i32_of_int 5) 0 0 1 {#user_row#} w1 \<and>
    file_count layout_512 (w_store w1) (TableStorage (table_id users_table)) \<le> 1"
proof (rule one_indexed_row [OF users_indexed _ user_row_ok(2)])
  have "i32_of_int 7 \<noteq> i32_min" by code_simp
  then show "cells user_row ! 0 \<noteq> CellInt i32_min" by (simp add: user_row_def)
  show "length (row_serialize user_row) \<le> 491" by code_simp
qed (simp add: user_row_ok(1) users_table_def)

theorem indexed_table_spec_witness:
  "\<exists>w w1 w2 q rs. ta_insert file_store plain_env (indexed_access users_table layout_512 (i32_of_int 5) 0) user_row w = (Inr (), w1) \<and>
    ta_find file_store plain_env (indexed_access users_table layout_512 (i32_of_int 5) 0) (str_bytes '' id '') (CellInt (i32_of_int 7)) w1 = (Inr q, w2) \<and>
    query_rows q (w_store w2) = Inr rs \<and> map snd rs = [user_row]"
proof -
  obtain w w1 where w: "ta_insert file_store plain_env (indexed_access users_table layout_512 (i32_of_int 5) 0) user_row w = (Inr (), w1)"
    "indexed_history layout_512 users_table (fresh_fsm users_table) (i32_of_int 5) 0 0 1 {#user_row#} w1"
    using one_user by blast
  have col: "find_column_for_query_by_cell (schema users_table) (str_bytes '' id '') (CellInt (i32_of_int 7)) = Inr 0"
    using find_id_column(1) by (simp add: users_table_def)
  have fuel: "Suc (Suc 1) < env_fuel plain_env" "\<forall>n. hash_order_ok (env_order plain_env n)"
    using plain_order by (simp_all add: plain_env_def)
  obtain q rs w2 where q: "ta_find file_store plain_env (indexed_access users_table layout_512 (i32_of_int 5) 0) (str_bytes '' id '') (CellInt (i32_of_int 7)) w1 = (Inr q, w2)"
    "query_rows q (w_store w2) = Inr rs" "mset (map snd rs) = filter_mset (\<lambda>row. cells row ! 0 = CellInt (i32_of_int 7)) {#user_row#}"
    using indexed_table_spec [OF w(2) users_indexed fuel, THEN conjunct1, rule_format, OF col] by blast
  have "filter_mset (\<lambda>row. cells row ! 0 = CellInt (i32_of_int 7)) {#user_row#} = {#user_row#}"
    by (simp add: user_row_def)
  then have "map snd rs = [user_row]" using q(3) by (simp only: mset_single_iff)
  then show ?thesis
    using w(1) q(1,2) by (intro exI [of _ w] exI [of _ w1] exI [of _ w2] exI [of _ q] exI [of _ rs]) simp
qed

end
