(* ===== verification/Indexed_Delete.thy ===== *)
theory Indexed_Delete
  imports Indexed_History
begin

text \<open>
  Deletions from a table with a unique index. Rows found by a scan are removed from the table and
  from the index. A row found through the index is not: its record index is its position among the
  slots that were asked for, so the row in slot 0 of its page is removed instead, while the index
  loses the entry of the row that stays.
\<close>

section \<open>One row\<close>

lemma same_table_rows:
  assumes "same_table t fs u" and "rows_inv D l t f fs"
  shows "rows_inv D l t f u" and "table_map l u (table_id t) = table_map l fs (table_id t)"
    and "file_pages l u (TableStorage (table_id t)) = file_pages l fs (TableStorage (table_id t))"
    and "st_read_page file_store l pid (TableStorage (table_id t)) u = st_read_page file_store l pid (TableStorage (table_id t)) fs"
proof -
  let ?w = "\<lambda>v. \<lparr>w_store = v, w_handles = [], w_ticks = 0\<rparr>"
  have files: "st \<in> table_files t \<Longrightarrow> u (storage_file_path st) = fs (storage_file_path st)" for st
    using assms(1) unfolding same_table_def by blast
  show "rows_inv D l t f u" "table_map l u (table_id t) = table_map l fs (table_id t)"
    using rows_inv_frame [of D l t f "?w fs" "?w u"] files assms(2) by simp_all
  have "u (storage_file_path (TableStorage (table_id t))) = fs (storage_file_path (TableStorage (table_id t)))"
    by (rule files) simp
  then show "file_pages l u (TableStorage (table_id t)) = file_pages l fs (TableStorage (table_id t))"
    and "st_read_page file_store l pid (TableStorage (table_id t)) u = st_read_page file_store l pid (TableStorage (table_id t)) fs"
    using same_file [of u "TableStorage (table_id t)" fs] by (simp_all add: file_store_def file_read_page_def open_file_def)
qed

lemma delete_one_only: "fsm_table f = t \<Longrightarrow> changes (only_table t) (delete_one file_store E (ta_new t l) f pid x)"
  unfolding delete_one_def Let_def by (cases x) (auto intro!: map_only changes_intros)

lemma indexed_delete_one:
  assumes inv: "rows_inv D l t f (w_store w)" and del: "deletable D (schema t)"
    and page: "file_pages l (w_store w) (TableStorage (table_id t)) pid \<noteq> None" and h: "h < length (w_handles w)"
    and index: "btree_delete (env_keeps E h) (env_fuel E) key (handle_pager w h) = (Inr v, q)"
  shows "\<exists>w'. delete_one file_store E (indexed_access t l cid h) f pid (r, [(0, Some key, None)]) w = (Inr (), w') \<and>
    rows_inv D l t f (w_store w') \<and> handle_pager w' h = q \<and> h < length (w_handles w') \<and>
    dom (file_pages l (w_store w') (TableStorage (table_id t))) = dom (file_pages l (w_store w) (TableStorage (table_id t))) \<and>
    table_map l (w_store w') (table_id t) = (table_map l (w_store w) (table_id t))((pid, record_index r) := None)"
proof -
  let ?w2 = "with_handle h q w" and ?cmd = "[(0, Some key, None)]"
  have "at_index file_store E (UpdateRowsError \<circ> IndexUpdate) h (\<lambda>keeps. btree_delete keeps (env_fuel E) key) w = (Inr v, ?w2)"
    using at_index_run [OF h, of "\<lambda>keeps. btree_delete keeps (env_fuel E) key" E, OF index] by simp
  then have upd: "update_index file_store E (indexed_access t l cid h) pid (record_index r) ?cmd w = (Inr (), ?w2)"
    by (simp add: update_index_def update_one_index_def index_get_def io_bind_def)
  note S = same_table_rows [OF with_handle_simps(2) [OF h, of t q] inv]
  obtain p where "file_pages l (w_store w) (TableStorage (table_id t)) pid = Some p" using page by blast
  then have "st_read_page file_store l pid (TableStorage (table_id t)) (w_store w) = Inr p"
    by (rule fstore.read_law [OF fsm_inv_table [OF rows_invD(1) [OF inv]]])
  then have run: "delete_one file_store E (indexed_access t l cid h) f pid (r, ?cmd) w = delete_one file_store E (ta_new t l) f pid (r, []) ?w2"
    using upd S(4) by (simp add: delete_one_def io_bind_def at_store_def Let_def)
  obtain u where u: "delete_one file_store E (ta_new t l) f pid (r, []) ?w2 = (Inr (), ?w2\<lparr>w_store := u\<rparr>)" "rows_inv D l t f u"
    "dom (file_pages l u (TableStorage (table_id t))) = dom (file_pages l (w_store ?w2) (TableStorage (table_id t)))"
    "table_map l u (table_id t) = (table_map l (w_store ?w2) (table_id t))((pid, record_index r) := None)"
    using delete_one_effect [OF S(1) del, of pid E r] page S(3) by auto
  have "fsm_table f = t" by (rule ta_fsm_table [OF ta_fsm_new [OF rows_invD(1) [OF inv]]])
  then have "only_files (table_files t) (w_store ?w2) u"
    using changesD [OF delete_one_only u(1)] by (simp add: only_stores_def)
  then have "handle_pager (?w2\<lparr>w_store := u\<rparr>) h = q"
    using handle_pager_store [of t ?w2 u h] with_handle_simps(1) [OF h, of q] by simp
  then show ?thesis
    using run u S(2,3) with_handle_simps(3) [OF h, of q] h by (intro exI [of _ "?w2\<lparr>w_store := u\<rparr>"]) simp
qed

lemma entries_match_delete:
  assumes "entries_match s c m es"
    and "\<And>bs. m k = Some bs \<Longrightarrow> cells (decode s bs) ! c = CellInt key"
    and "\<And>k' bs. m k' = Some bs \<Longrightarrow> cells (decode s bs) ! c = CellInt key \<Longrightarrow> k' = k"
  shows "entries_match s c (m(k := None)) (filter (\<lambda>e. fst e \<noteq> key) es)"
  unfolding entries_match_def
proof (intro allI)
  fix key' pid j :: i32
  let ?R = "\<lambda>m. \<exists>i bs. m (pid, i) = Some bs \<and> cells (decode s bs) ! c = CellInt key' \<and> j = usize_as_i32 i"
  have "?R (m(k := None)) \<longleftrightarrow> key' \<noteq> key \<and> ?R m"
  proof
    assume "?R (m(k := None))"
    then obtain i bs where i: "m (pid, i) = Some bs" "(pid, i) \<noteq> k" "cells (decode s bs) ! c = CellInt key'" "j = usize_as_i32 i"
      by (auto split: if_splits)
    then have "key' \<noteq> key" using assms(3) [OF i(1)] by auto
    then show "key' \<noteq> key \<and> ?R m" using i(1,3,4) by blast
  next
    assume "key' \<noteq> key \<and> ?R m"
    then obtain i bs where i: "key' \<noteq> key" "m (pid, i) = Some bs" "cells (decode s bs) ! c = CellInt key'" "j = usize_as_i32 i"
      by blast
    then have "(pid, i) \<noteq> k" using assms(2) [of bs] by auto
    then show "?R (m(k := None))" using i(2-4) by (intro exI [of _ i] exI [of _ bs]) simp
  qed
  then show "(key', pid, j) \<in> set (filter (\<lambda>e. fst e \<noteq> key) es) \<longleftrightarrow> ?R (m(k := None))"
    using assms(1) by (simp add: entries_match_def) blast
qed

section \<open>The loops\<close>

lemma for_each_append: "for_each g (xs @ ys) = io_bind (for_each g xs) (\<lambda>_. for_each g ys)"
  by (induction xs) (simp_all add: fun_eq_iff io_bind_def split: prod.split sum.split)

lemma for_each_map: "for_each g (map h xs) = for_each (\<lambda>x. g (h x)) xs"
  by (induction xs) simp_all

lemma for_each_nested:
  "for_each (\<lambda>(a, xs). for_each (g a) xs) m = for_each (\<lambda>(a, x). g a x) (concat (map (\<lambda>(a, xs). map (Pair a) xs) m))"
  by (induction m) (auto simp: for_each_append for_each_map)

lemma for_each_steps:
  assumes "\<And>x S w. x \<in> set xs \<Longrightarrow> P S w \<Longrightarrow> \<exists>w'. g x w = (Inr (), w') \<and> P (insert (at x) S) w'" and "P S w"
  shows "\<exists>w'. for_each g xs w = (Inr (), w') \<and> P (at ` set xs \<union> S) w'"
  using assms
proof (induction xs arbitrary: S w)
  case Nil
  then show ?case by simp
next
  case (Cons x xs)
  obtain w1 where w1: "g x w = (Inr (), w1)" "P (insert (at x) S) w1" using Cons.prems by fastforce
  obtain w2 where "for_each g xs w1 = (Inr (), w2)" "P (at ` set xs \<union> insert (at x) S) w2"
    using Cons.IH [OF _ w1(2)] Cons.prems(1) by fastforce
  then show ?case using w1(1) by (simp add: io_bind_def)
qed

text \<open>The rows of a query with their commands, in the order of the code.\<close>

lemma indexed_rows_to_delete:
  assumes "\<And>r row. (r, row) \<in> set rows \<Longrightarrow> c < length (cells row) \<and> cells row ! c = CellInt (key_of row)"
  shows "\<exists>m'. rows_to_delete [(c, 0)] rows m = Inr m' \<and>
    Table_Delete.flat m' = Table_Delete.flat m \<union> {(record_page_id r, (r, [(0, Some (key_of row), None)])) | r row. (r, row) \<in> set rows}"
  using assms
proof (induction rows arbitrary: m)
  case (Cons x rows)
  obtain r row where x: "x = (r, row)" by (cases x)
  let ?cmd = "[(0, Some (key_of row), None)]"
  have "delete_command row [(c, 0)] [] = Inr ?cmd"
    using Cons.prems [of r row] by (simp add: x index_get_def push_delete_def)
  moreover obtain m' where
    "rows_to_delete [(c, 0)] rows (entry_push (record_page_id r) (r, ?cmd) m) = Inr m'"
    "Table_Delete.flat m' = insert (record_page_id r, (r, ?cmd)) (Table_Delete.flat m) \<union> {(record_page_id r, (r, [(0, Some (key_of row), None)])) | r row. (r, row) \<in> set rows}"
    using Cons.IH [of "entry_push (record_page_id r) (r, ?cmd) m"] Cons.prems by (auto simp: flat_entry_push)
  ultimately show ?case by (auto simp: x simp del: delete_command.simps)
qed simp

section \<open>Deletion of the rows of a scan\<close>

definition cell_key :: "nat \<Rightarrow> row \<Rightarrow> i32" where
  "cell_key c row = (case cells row ! c of CellInt key \<Rightarrow> key | _ \<Rightarrow> i32_min)"

text \<open>The state after the places in \<open>S\<close> were deleted from a table with the rows \<open>m\<close>.\<close>

definition deleting ::
  "page_data_layout \<Rightarrow> table \<Rightarrow> fsm \<Rightarrow> nat \<Rightarrow> nat \<Rightarrow> nat \<Rightarrow> i32 set \<Rightarrow> nat \<Rightarrow> nat \<Rightarrow> i32 set \<Rightarrow>
   (i32 \<times> nat \<Rightarrow> byte list option) \<Rightarrow> (i32 \<times> nat) set \<Rightarrow> files world \<Rightarrow> bool" where
  "deleting l t f c h n K N d Pg m S w \<longleftrightarrow> table_inv l t f (w_store w) \<and> h < length (w_handles w) \<and>
     table_map l (w_store w) (table_id t) = m |` (- S) \<and>
     dom (file_pages l (w_store w) (TableStorage (table_id t))) = Pg \<and>
     (\<exists>n' K' es. index_of (handle_pager w h) n' es K' \<and> entries_match (schema t) c (m |` (- S)) es \<and> n' \<le> n \<and> K' \<subseteq> K \<and>
        pages (handle_pager w h) \<le> N \<and> degree_of (handle_pager w h) = d)"

lemma deleting_step:
  assumes state: "deleting l t f c h n K N d Pg m S w" and fixed: "fixed_size (schema t)"
    and size: "6 \<le> d" "1 \<le> N" "N < 2 ^ 31" "n < env_fuel E"
    and place: "pid \<in> Pg" "m (pid, record_index r) = Some bs" "cells (decode (schema t) bs) ! c = CellInt key"
    and uniq: "\<And>k bs. m k = Some bs \<Longrightarrow> cells (decode (schema t) bs) ! c = CellInt key \<Longrightarrow> k = (pid, record_index r)"
  shows "\<exists>w'. delete_one file_store E (indexed_access t l cid h) f pid (r, [(0, Some key, None)]) w = (Inr (), w') \<and>
    deleting l t f c h n K N d Pg m (insert (pid, record_index r) S) w'"
proof -
  let ?k = "(pid, record_index r)" and ?D = "\<lambda>s. fixed_size (schema t) \<and> unat (record_length s) = fixed_len (schema t)"
  have inv: "rows_inv ?D l t f (w_store w)" and h: "h < length (w_handles w)"
    and map: "table_map l (w_store w) (table_id t) = m |` (- S)"
    and pg: "dom (file_pages l (w_store w) (TableStorage (table_id t))) = Pg"
    using state by (simp_all add: deleting_def table_inv_def)
  obtain n' K' es where es: "index_of (handle_pager w h) n' es K'" "entries_match (schema t) c (m |` (- S)) es" "n' \<le> n" "K' \<subseteq> K"
    "pages (handle_pager w h) \<le> N" "degree_of (handle_pager w h) = d"
    using state by (auto simp: deleting_def)
  have pre: "6 \<le> degree_of (handle_pager w h)" "pages (handle_pager w h) < 2 ^ 31" "n' < env_fuel E"
    using es(3,5,6) size by simp_all
  obtain v q n2 K2 where q: "btree_delete (env_keeps E h) (env_fuel E) key (handle_pager w h) = (Inr v, q)"
    "index_of q n2 (filter (\<lambda>e. fst e \<noteq> key) es) K2" "K2 \<subseteq> K'" "n2 \<le> n'" "pages q \<le> max 1 (pages (handle_pager w h))"
    "degree_of q = degree_of (handle_pager w h)"
    using delete_index [OF es(1) pre, where key = key and keeps = "env_keeps E h"] by blast
  have "file_pages l (w_store w) (TableStorage (table_id t)) pid \<noteq> None" using place(1) pg by blast
  from indexed_delete_one [OF inv deletable_fixed [OF fixed] this h q(1), of cid r] obtain w' where
    w': "delete_one file_store E (indexed_access t l cid h) f pid (r, [(0, Some key, None)]) w = (Inr (), w')"
    "rows_inv ?D l t f (w_store w')" "handle_pager w' h = q" "h < length (w_handles w')"
    "dom (file_pages l (w_store w') (TableStorage (table_id t))) = Pg"
    "table_map l (w_store w') (table_id t) = (m |` (- S))(?k := None)"
    unfolding map pg by blast
  have cut: "(m |` (- S))(?k := None) = m |` (- insert ?k S)"
    by (rule ext) (simp add: restrict_map_def)
  have sub: "K2 \<subseteq> K" "pages q \<le> N" using q(3,5) es(4,5) size(2) by (auto simp: max_def split: if_splits)
  have own: "cells (decode (schema t) b) ! c = CellInt key" if "(m |` (- S)) ?k = Some b" for b
    using that place(2,3) by (simp add: restrict_map_def split: if_splits)
  have only: "k = ?k" if "(m |` (- S)) k = Some b" "cells (decode (schema t) b) ! c = CellInt key" for k b
    by (rule uniq [OF _ that(2)]) (use that(1) in \<open>simp add: restrict_map_def split: if_splits\<close>)
  have "entries_match (schema t) c ((m |` (- S))(?k := None)) (filter (\<lambda>e. fst e \<noteq> key) es)"
    by (rule entries_match_delete [OF es(2) own only])
  then have "index_of (handle_pager w' h) n2 (filter (\<lambda>e. fst e \<noteq> key) es) K2 \<and>
      entries_match (schema t) c (m |` (- insert ?k S)) (filter (\<lambda>e. fst e \<noteq> key) es) \<and> n2 \<le> n \<and> K2 \<subseteq> K \<and>
      pages (handle_pager w' h) \<le> N \<and> degree_of (handle_pager w' h) = d"
    using q(2,4,6) es(3,6) sub unfolding cut w'(3) by simp
  then have "deleting l t f c h n K N d Pg m (insert ?k S) w'"
    using w'(2,4-6) unfolding deleting_def table_inv_def cut by blast
  then show ?thesis using w'(1) by blast
qed

lemma indexed_delete_rows:
  assumes inv: "indexed_inv l t f c h n K w" and fixed: "fixed_size (schema t)" and col: "indexed_column (schema t) cid c"
    and size: "6 \<le> degree_of (handle_pager w h)" "pages (handle_pager w h) < 2 ^ 31" "n < env_fuel E"
    and order: "\<forall>n. hash_order_ok (env_order E n)" and rows: "query_rows q (w_store w) = Inr rows"
    and found: "\<And>r row. (r, row) \<in> set rows \<Longrightarrow>
      \<exists>bs. table_map l (w_store w) (table_id t) (record_page_id r, record_index r) = Some bs \<and> decode (schema t) bs = row"
  shows "\<exists>w' n' K'. ta_delete file_store E (indexed_access t l cid h) q w = (Inr (), w') \<and>
    indexed_inv l t f c h n' K' w' \<and> n' \<le> n \<and> K' \<subseteq> K \<and> pages (handle_pager w' h) \<le> max 1 (pages (handle_pager w h)) \<and>
    degree_of (handle_pager w' h) = degree_of (handle_pager w h) \<and>
    table_map l (w_store w') (table_id t) = table_map l (w_store w) (table_id t) |`
      (- {(record_page_id r, record_index r) | r row. (r, row) \<in> set rows})"
proof -
  let ?m = "table_map l (w_store w) (table_id t)" and ?s = "schema t" and ?ta = "indexed_access t l cid h"
  let ?w2 = "w\<lparr>w_ticks := w_ticks w + 2\<rparr>" and ?ho = "env_order E (w_ticks w + 1)"
  let ?N = "max 1 (pages (handle_pager w h))" and ?d = "degree_of (handle_pager w h)"
  let ?Pg = "dom (file_pages l (w_store w) (TableStorage (table_id t)))"
  note I = indexed_invD [OF inv]
  obtain es where es: "index_of (handle_pager w h) n es K" "entries_match ?s c ?m es" using I(3) by blast
  have dist: "distinct (map fst es)" using index_of_sorted [OF es(1)] by (simp add: strict_sorted_iff)
  have cell: "c < length (cells row) \<and> cells row ! c = CellInt (cell_key c row)" if hit: "(r, row) \<in> set rows" for r row
  proof -
    obtain bs where "?m (record_page_id r, record_index r) = Some bs" "decode ?s bs = row" using found [OF hit] by blast
    then have "row_fits row ?s" using table_inv_readable(2) [OF I(1)] by blast
    then obtain key where "c < length (cells row)" "cells row ! c = CellInt key" by (rule indexed_cell [OF col])
    then show ?thesis by (simp add: cell_key_def)
  qed
  obtain pages where pages: "rows_to_delete [(c, 0)] rows [] = Inr pages"
    "Table_Delete.flat pages = {(record_page_id r, (r, [(0, Some (cell_key c row), None)])) | r row. (r, row) \<in> set rows}"
    using indexed_rows_to_delete [of rows c "cell_key c" "[]"] cell by (auto simp: Table_Delete.flat_def [of "[]"])
  let ?xs = "concat (map (\<lambda>(pid, rs). map (Pair pid) rs) (hash_iter ?ho pages))"
  have xs: "set ?xs = {(record_page_id r, (r, [(0, Some (cell_key c row), None)])) | r row. (r, row) \<in> set rows}"
    using set_hash_iter(1) [of ?ho pages] order unfolding pages(2) [symmetric] Table_Delete.flat_def by force
  let ?P = "deleting l t f c h n K ?N ?d ?Pg ?m" and ?at = "\<lambda>(pid, r, cmd). (pid, record_index r)"
  have step: "\<exists>w'. (\<lambda>(pid, x). delete_one file_store E ?ta f pid x) x w1 = (Inr (), w') \<and> ?P (insert (?at x) S) w'"
    if x_in: "x \<in> set ?xs" and state: "?P S w1" for x S w1
  proof -
    obtain r row where x: "x = (record_page_id r, (r, [(0, Some (cell_key c row), None)]))" "(r, row) \<in> set rows"
      using x_in unfolding xs by blast
    obtain bs where bs: "?m (record_page_id r, record_index r) = Some bs" "cells (decode ?s bs) ! c = CellInt (cell_key c row)"
      using found [OF x(2)] cell [OF x(2)] by auto
    have page: "record_page_id r \<in> ?Pg" using bs(1) by (auto simp: table_map_def split: option.splits)
    have uniq: "k = (record_page_id r, record_index r)" if "?m k = Some b" "cells (decode ?s b) ! c = CellInt (cell_key c row)" for k b
      by (rule entry_unique [OF es(2) dist table_slot_bound [OF table_invD(2) [OF I(1)]] that bs])
    show ?thesis
      using deleting_step [OF state fixed size(1) _ _ size(3) page bs uniq, where cid = cid] size(2) by (simp add: x(1))
  qed
  have "?m |` UNIV = ?m" by (simp add: restrict_map_def)
  then have start: "?P {} ?w2" using I(1,2) es size by (auto simp: deleting_def)
  obtain w' where w': "for_each (\<lambda>(pid, x). delete_one file_store E ?ta f pid x) ?xs ?w2 = (Inr (), w')" "?P (?at ` set ?xs \<union> {}) w'"
    using for_each_steps [of ?xs ?P "\<lambda>(pid, x). delete_one file_store E ?ta f pid x" ?at "{}" ?w2] step start by blast
  have K: "?at ` set ?xs \<union> {} = {(record_page_id r, record_index r) | r row. (r, row) \<in> set rows}"
    unfolding xs by force
  have ptr: "column_index_to_btree_pointer_map ?ta = Inr [(c, 0)]"
    using col by (intro indexed_pointers) (simp add: indexed_column_def)
  have "ta_delete file_store E ?ta q w = (Inr (), w')"
    using w'(1) rows pages(1) order
    by (simp add: ta_delete_def ta_fsm_new [OF table_invD(1) [OF I(1)]] ptr next_order_def io_bind_def hash_iter_single for_each_nested)
  then show ?thesis
    using w'(2) unfolding K deleting_def indexed_inv_def by (metis (no_types, lifting))
qed

section \<open>Properties\<close>

text \<open>
  C4. Deleting the rows that a query by another column found removes exactly these rows from a
  table with a unique index over a B+ tree of degree 6 or more, and their keys from the index: the invariant
  holds again, and a query by the indexed column yields what is left. The rows are of a fixed length.
\<close>

theorem indexed_delete_spec:
  assumes "indexed_inv l t f c h n K w" and "fixed_size (schema t)" and "indexed_column (schema t) cid c"
    and "6 \<le> degree_of (handle_pager w h)" and "pages (handle_pager w h) < 2 ^ 31" and "n < env_fuel E"
    and "\<forall>n. hash_order_ok (env_order E n)" and "find_column_for_query_by_cell (schema t) name x = Inr i" and "i \<noteq> c"
    and "ta_find file_store E (indexed_access t l cid h) name x w = (Inr q, w1)"
  shows "\<exists>w' n' K'. ta_delete file_store E (indexed_access t l cid h) q w1 = (Inr (), w') \<and>
    indexed_inv l t f c h n' K' w' \<and> n' \<le> n \<and> K' \<subseteq> K \<and> 6 \<le> degree_of (handle_pager w' h) \<and> pages (handle_pager w' h) < 2 ^ 31 \<and>
    rows_of (schema t) (table_map l (w_store w') (table_id t)) =
      filter_mset (\<lambda>row. cells row ! i \<noteq> x) (rows_of (schema t) (table_map l (w_store w) (table_id t))) \<and>
    (\<forall>name key. find_column_for_query_by_cell (schema t) name (CellInt key) = Inr c \<longrightarrow>
      (\<exists>q rs w2. ta_find file_store E (indexed_access t l cid h) name (CellInt key) w' = (Inr q, w2) \<and>
        query_rows q (w_store w2) = Inr rs \<and>
        mset (map snd rs) = filter_mset (\<lambda>row. cells row ! c = CellInt key)
          (filter_mset (\<lambda>row. cells row ! i \<noteq> x) (rows_of (schema t) (table_map l (w_store w) (table_id t))))))"
proof -
  let ?m = "table_map l (w_store w) (table_id t)"
  have I: "rows_inv (\<lambda>s. fixed_size (schema t) \<and> unat (record_length s) = fixed_len (schema t)) l t f (w_store w)"
    using indexed_invD(1) [OF assms(1)] by (simp add: table_inv_def)
  have run: "ta_find file_store E (ta_new t l) name x w = (Inr q, w1)"
    using assms(10) unfolding ta_find_unindexed [OF assms(3,8,9)] .
  obtain rs where rs: "w1 = w" "query_rows q (w_store w) = Inr rs"
    "\<And>r row. (r, row) \<in> set rs \<Longrightarrow> \<exists>bs. ?m (record_page_id r, record_index r) = Some bs \<and> decode (schema t) bs = row"
    "{(record_page_id r, record_index r) | r row. (r, row) \<in> set rs} =
      {k. \<exists>bs. ?m k = Some bs \<and> cells (decode (schema t) bs) ! i = x}"
    using found_rows [OF I assms(8) run] by blast
  obtain w' n' K' where w': "ta_delete file_store E (indexed_access t l cid h) q w = (Inr (), w')"
    "indexed_inv l t f c h n' K' w'" "n' \<le> n" "K' \<subseteq> K" "pages (handle_pager w' h) \<le> max 1 (pages (handle_pager w h))"
    "degree_of (handle_pager w' h) = degree_of (handle_pager w h)"
    "table_map l (w_store w') (table_id t) = ?m |` (- {(record_page_id r, record_index r) | r row. (r, row) \<in> set rs})"
    using indexed_delete_rows [OF assms(1-7) rs(2,3)] by blast
  have "table_map l (w_store w') (table_id t) = ?m |` {k. cells (decode (schema t) (the (?m k))) ! i \<noteq> x}"
    unfolding w'(7) rs(4) by (auto simp: restrict_map_def fun_eq_iff)
  then have rows: "rows_of (schema t) (table_map l (w_store w') (table_id t)) =
      filter_mset (\<lambda>row. cells row ! i \<noteq> x) (rows_of (schema t) ?m)"
    using rows_of_restrict [OF table_map_finite [OF rows_invD(2) [OF I]], of "schema t" "\<lambda>row. cells row ! i \<noteq> x"] by simp
  have fuel: "n' < env_fuel E" using w'(3) assms(6) by simp
  have "\<exists>q rs w2. ta_find file_store E (indexed_access t l cid h) name (CellInt key) w' = (Inr q, w2) \<and>
      query_rows q (w_store w2) = Inr rs \<and>
      mset (map snd rs) = filter_mset (\<lambda>row. cells row ! c = CellInt key) (filter_mset (\<lambda>row. cells row ! i \<noteq> x) (rows_of (schema t) ?m))"
    if "find_column_for_query_by_cell (schema t) name (CellInt key) = Inr c" for name key
    using indexed_find [OF w'(2) assms(3) that fuel assms(7)] unfolding rows by blast
  moreover have "pages (handle_pager w' h) < 2 ^ 31" using w'(5) assms(5) by simp
  moreover have "6 \<le> degree_of (handle_pager w' h)" using w'(6) assms(4) by simp
  ultimately show ?thesis using w'(1-4) rows unfolding rs(1) by blast
qed

text \<open>A table of two numbers with an index on the first, and one row.\<close>

definition points_table :: table where
  "points_table = \<lparr>table_id = i32_of_int 6, table_name = str_bytes ''points'', schema = \<lparr>columns =
     [\<lparr>col_id = i32_of_int 7, col_name = str_bytes ''x'', col_type = TInt\<rparr>,
      \<lparr>col_id = i32_of_int 8, col_name = str_bytes ''y'', col_type = TInt\<rparr>]\<rparr>\<rparr>"

definition point :: row where
  "point = Row [CellInt (i32_of_int 7), CellInt (i32_of_int 9)]"

lemma points_indexed: "indexed_column (schema points_table) (i32_of_int 7) 0"
  by (simp add: indexed_column_def points_table_def find_index_by_id_def)

lemma points_columns:
  "find_column_for_query_by_cell (schema points_table) (str_bytes ''x'') (CellInt (i32_of_int 7)) = Inr 0"
  "find_column_for_query_by_cell (schema points_table) (str_bytes ''y'') (CellInt (i32_of_int 9)) = Inr 1"
  by code_simp+

lemma one_point:
  "\<exists>w. indexed_history layout_512 points_table (fresh_fsm points_table) (i32_of_int 7) 0 0 1 {#point#} w"
proof -
  have "row_validate point (schema points_table) = Inr ()" "row_strings_ok point" "length (row_serialize point) \<le> 491"
    by code_simp+
  moreover have "i32_of_int 7 \<noteq> i32_min" by code_simp
  then have "cells point ! 0 \<noteq> CellInt i32_min" by (simp add: point_def)
  ultimately show ?thesis using one_indexed_row [OF points_indexed] by blast
qed

lemma one_point_state:
  "\<exists>w n. indexed_state layout_512 points_table (fresh_fsm points_table) 0 0 1 {#point#} w \<and> n \<le> 1 \<and>
    indexed_inv layout_512 points_table (fresh_fsm points_table) 0 0 n (keys_of 0 {#point#}) w \<and>
    rows_of (schema points_table) (table_map layout_512 (w_store w) (table_id points_table)) = {#point#} \<and>
    6 \<le> degree_of (handle_pager w 0) \<and> pages (handle_pager w 0) + 1 < 2 ^ 31"
proof -
  obtain w where "indexed_state layout_512 points_table (fresh_fsm points_table) 0 0 1 {#point#} w"
    using one_point indexed_history_state [OF _ points_indexed] by blast
  then show ?thesis by (intro exI [of _ w]) (auto simp: indexed_state_def BTREE_MAX_DEGREE_def)
qed

theorem indexed_delete_spec_witness:
  "\<exists>w q w1 w'. ta_find file_store plain_env (indexed_access points_table layout_512 (i32_of_int 7) 0) (str_bytes ''y'') (CellInt (i32_of_int 9)) w = (Inr q, w1) \<and>
    rows_of (schema points_table) (table_map layout_512 (w_store w) (table_id points_table)) = {#point#} \<and>
    ta_delete file_store plain_env (indexed_access points_table layout_512 (i32_of_int 7) 0) q w1 = (Inr (), w') \<and>
    rows_of (schema points_table) (table_map layout_512 (w_store w') (table_id points_table)) = {#}"
proof -
  obtain w n where w: "indexed_state layout_512 points_table (fresh_fsm points_table) 0 0 1 {#point#} w" "n \<le> 1"
    "indexed_inv layout_512 points_table (fresh_fsm points_table) 0 0 n (keys_of 0 {#point#}) w"
    "rows_of (schema points_table) (table_map layout_512 (w_store w) (table_id points_table)) = {#point#}"
    "6 \<le> degree_of (handle_pager w 0)" "pages (handle_pager w 0) + 1 < 2 ^ 31"
    using one_point_state by blast
  have env: "Suc 1 < env_fuel plain_env" "n < env_fuel plain_env" "\<forall>n. hash_order_ok (env_order plain_env n)"
    using plain_order w(2) by (simp_all add: plain_env_def)
  obtain q w1 where q: "ta_find file_store plain_env (indexed_access points_table layout_512 (i32_of_int 7) 0) (str_bytes ''y'')
      (CellInt (i32_of_int 9)) w = (Inr q, w1)"
    using indexed_state_find [OF w(1) points_indexed env(1,3) points_columns(2)] by blast
  have "fixed_size (schema points_table)" by (simp add: fixed_size_def points_table_def)
  moreover have "pages (handle_pager w 0) < 2 ^ 31" using w(6) by simp
  ultimately obtain w' where "ta_delete file_store plain_env (indexed_access points_table layout_512 (i32_of_int 7) 0) q w1 = (Inr (), w')"
    "rows_of (schema points_table) (table_map layout_512 (w_store w') (table_id points_table)) =
      filter_mset (\<lambda>row. cells row ! 1 \<noteq> CellInt (i32_of_int 9)) {#point#}"
    using indexed_delete_spec [OF w(3) _ points_indexed w(5) _ env(2,3) points_columns(2) one_neq_zero q] unfolding w(4) by blast
  moreover have "filter_mset (\<lambda>row. cells row ! 1 \<noteq> CellInt (i32_of_int 9)) {#point#} = {#}" by (simp add: point_def)
  ultimately show ?thesis
    using q w(4) by (intro exI [of _ w] exI [of _ q] exI [of _ w1] exI [of _ w']) simp
qed

text \<open>
  C12. A row that is found through the index is not deleted by the query that found it, unless it
  lies in slot 0 of its page: the row in slot 0 is removed, if there is one, the entry of the key leaves
  the index, and a query by the key yields nothing afterwards.
\<close>

theorem indexed_delete_misses:
  assumes "indexed_inv l t f c h n K w" and "indexed_column (schema t) cid c"
    and "6 \<le> degree_of (handle_pager w h)" and "pages (handle_pager w h) + 1 < 2 ^ 31" and "n < env_fuel E"
    and "\<forall>n. hash_order_ok (env_order E n)" and "find_column_for_query_by_cell (schema t) name (CellInt key) = Inr c"
    and "table_map l (w_store w) (table_id t) (pid, i) = Some bs" and "cells (decode (schema t) bs) ! c = CellInt key"
  shows "\<exists>q w1 w2 q' w3. ta_find file_store E (indexed_access t l cid h) name (CellInt key) w = (Inr q, w1) \<and>
    ta_delete file_store E (indexed_access t l cid h) q w1 = (Inr (), w2) \<and>
    table_map l (w_store w2) (table_id t) = (table_map l (w_store w) (table_id t))((pid, 0) := None) \<and>
    ta_find file_store E (indexed_access t l cid h) name (CellInt key) w2 = (Inr q', w3) \<and>
    query_rows q' (w_store w3) = Inr []"
proof -
  let ?m = "table_map l (w_store w) (table_id t)" and ?s = "schema t" and ?ta = "indexed_access t l cid h"
  note I = indexed_invD [OF assms(1)]
  have any: "rows_inv (\<lambda>_. True) l t f (w_store w)"
    using I(1) unfolding table_inv_def by (rule rows_inv_weaken) simp
  obtain es where es: "index_of (handle_pager w h) n es K" "entries_match ?s c ?m es" using I(3) by blast
  have dist: "distinct (map fst es)" using index_of_sorted [OF es(1)] by (simp add: strict_sorted_iff)
  have "(key, pid, usize_as_i32 i) \<in> set es" using es(2) assms(8,9) unfolding entries_match_def by blast
  then have hit: "map_of es key = Some (pid, usize_as_i32 i)" by (simp add: dist)
  obtain p where p: "ta_find file_store E ?ta name (CellInt key) w =
      (Inr (indexed_query E t l (map_of es key) w), (with_handle h p w)\<lparr>w_ticks := w_ticks w + 1\<rparr>)"
    "index_of p n es K" "pages p \<le> max 1 (pages (handle_pager w h))" "degree_of p = degree_of (handle_pager w h)"
    using indexed_ta_find [OF I(2) es(1) assms(2,7,5), of l] by blast
  let ?w1 = "(with_handle h p w)\<lparr>w_ticks := w_ticks w + 1\<rparr>" and ?q = "indexed_query E t l (map_of es key) w"
  note S = same_table_rows [OF with_handle_simps(2) [OF I(2), of t p] any] and H = with_handle_simps(1,3) [OF I(2), of p]
  have at: "table_map l (w_store ?w1) (table_id t) (pid, i) = Some bs" using S(2) assms(8) by simp
  have any1: "rows_inv (\<lambda>_. True) l t f (w_store ?w1)" using S(1) by simp
  have ho: "hash_order_ok (env_order E (w_ticks w))" using assms(6) by blast
  obtain r where items: "indexed_collect file_store (w_store ?w1)
      (indexed_row_iterator_new (env_order E (w_ticks w)) t l [(pid, usize_as_i32 i)]) = [Inr (r, decode ?s bs)]"
    and r: "record_page_id r = pid" "record_index r = 0"
    using indexed_items [OF any1 at ho] by blast
  have rows: "query_rows ?q (w_store ?w1) = Inr [(r, decode ?s bs)]"
    by (rule indexed_query_rows) (simp add: hit items [simplified])
  have "row_fits (decode ?s bs) ?s" using rows_inv_readable(2) [OF any assms(8)] by blast
  then have cell: "c < length (cells (decode ?s bs))" by (rule indexed_cell [OF assms(2)])
  let ?w2 = "?w1\<lparr>w_ticks := w_ticks w + 3\<rparr>"
  have p1: "handle_pager ?w2 h = p" "h < length (w_handles ?w2)" using H I(2) by simp_all
  have "6 \<le> degree_of p" "pages p < 2 ^ 31" using p(3,4) assms(3,4) by simp_all
  then obtain v b n' K' where b: "btree_delete (env_keeps E h) (env_fuel E) key (handle_pager ?w2 h) = (Inr v, b)"
    "index_of b n' (filter (\<lambda>e. fst e \<noteq> key) es) K'" "n' \<le> n"
    using delete_index [OF p(2) _ _ assms(5), where key = key and keeps = "env_keeps E h"] unfolding p1 by blast
  have "file_pages l (w_store ?w2) (TableStorage (table_id t)) pid \<noteq> None"
    using at by (auto simp: table_map_def split: option.splits)
  from indexed_delete_one [OF _ deletable_any this p1(2) b(1), of f cid r] S(1) obtain w2 where
    w2: "delete_one file_store E ?ta f pid (r, [(0, Some key, None)]) ?w2 = (Inr (), w2)" "handle_pager w2 h = b"
    "h < length (w_handles w2)" "table_map l (w_store w2) (table_id t) = ?m((pid, 0) := None)"
    using S(2) r(2) by auto
  have ptr: "column_index_to_btree_pointer_map ?ta = Inr [(c, 0)]"
    using assms(2) by (intro indexed_pointers) (simp add: indexed_column_def)
  have "ta_delete file_store E ?ta ?q ?w1 = (Inr (), w2)"
    using w2(1) rows r(1) assms(6,9) cell
    by (simp add: ta_delete_def ta_fsm_new [OF table_invD(1) [OF I(1)]] ptr next_order_def io_bind_def hash_iter_single
        index_get_def push_delete_def numeral_3_eq_3)
  moreover have "n' < env_fuel E" using b(3) assms(5) by simp
  then obtain p3 where p3: "ta_find file_store E ?ta name (CellInt key) w2 =
      (Inr (indexed_query E t l None w2), (with_handle h p3 w2)\<lparr>w_ticks := w_ticks w2 + 1\<rparr>)"
    using indexed_ta_find [OF w2(3) _ assms(2,7), of n' "filter (\<lambda>e. fst e \<noteq> key) es" K' E l] b(2) w2(2)
    by (auto simp: map_of_deleted)
  moreover have "query_rows (indexed_query E t l None w2) fs = Inr []" for fs
    using indexed_query_rows [of fs E w2 t l None "[]"] by (simp add: indexed_no_items)
  ultimately show ?thesis using p(1) w2(4) by blast
qed

theorem indexed_delete_misses_witness:
  "\<exists>w q w1 w2 q' w3 bs pid i. table_map layout_512 (w_store w) (table_id points_table) (pid, i) = Some bs \<and>
    ta_find file_store plain_env (indexed_access points_table layout_512 (i32_of_int 7) 0) (str_bytes ''x'') (CellInt (i32_of_int 7)) w = (Inr q, w1) \<and>
    ta_delete file_store plain_env (indexed_access points_table layout_512 (i32_of_int 7) 0) q w1 = (Inr (), w2) \<and>
    table_map layout_512 (w_store w2) (table_id points_table) =
      (table_map layout_512 (w_store w) (table_id points_table))((pid, 0) := None) \<and>
    ta_find file_store plain_env (indexed_access points_table layout_512 (i32_of_int 7) 0) (str_bytes ''x'') (CellInt (i32_of_int 7)) w2 = (Inr q', w3) \<and>
    query_rows q' (w_store w3) = Inr []"
proof -
  obtain w n where w: "n \<le> 1" "indexed_inv layout_512 points_table (fresh_fsm points_table) 0 0 n (keys_of 0 {#point#}) w"
    "rows_of (schema points_table) (table_map layout_512 (w_store w) (table_id points_table)) = {#point#}"
    "6 \<le> degree_of (handle_pager w 0)" "pages (handle_pager w 0) + 1 < 2 ^ 31"
    using one_point_state by blast
  let ?m = "table_map layout_512 (w_store w) (table_id points_table)" and ?s = "schema points_table"
  have "n < env_fuel plain_env" "\<forall>n. hash_order_ok (env_order plain_env n)"
    using plain_order w(1) by (simp_all add: plain_env_def)
  note spec = indexed_delete_misses [OF w(2) points_indexed w(4,5) this points_columns(1)]
  have "point \<in># rows_of ?s ?m" by (simp only: w(3)) simp
  then obtain pid i bs where k: "?m (pid, i) = Some bs" "decode ?s bs = point"
    using table_map_finite [OF table_invD(2) [OF indexed_invD(1) [OF w(2)]]] unfolding rows_of_def by force
  then have "cells (decode ?s bs) ! 0 = CellInt (i32_of_int 7)" by (simp add: point_def)
  then show ?thesis using spec [OF k(1)] k(1) by blast
qed

end
