(* ===== verification/Table_Scan.thy ===== *)
theory Table_Scan
  imports Frames
begin

text \<open>
  A table as the list of its rows in the order of a scan: an insertion puts a row between the others, an
  update in place changes rows where they are, and steps on other tables change nothing.
\<close>

section \<open>The order of a scan\<close>

definition key_less :: "i32 \<times> nat \<Rightarrow> i32 \<times> nat \<Rightarrow> bool" where
  "key_less k k' \<longleftrightarrow> i32_val (fst k) < i32_val (fst k') \<or> fst k = fst k' \<and> snd k < snd k'"

lemma key_less_asym: "key_less k k' \<Longrightarrow> \<not> key_less k' k"
  by (auto simp: key_less_def)

lemma sorted_wrt_unique:
  assumes "sorted_wrt R xs" and "sorted_wrt R ys" and "set xs = set ys" and "\<And>x y. R x y \<Longrightarrow> \<not> R y x"
  shows "xs = ys"
  using assms(1-3)
proof (induction xs arbitrary: ys)
  case (Cons x xs)
  then obtain y zs where ys: "ys = y # zs" by (cases ys) auto
  have "x = y"
  proof (rule ccontr)
    assume "x \<noteq> y"
    then have "x \<in> set zs" "y \<in> set xs" using Cons.prems(3) ys by auto
    then have "R y x" "R x y" using Cons.prems(1,2) ys by auto
    then show False using assms(4) by blast
  qed
  moreover have "x \<notin> set xs" "y \<notin> set zs" using Cons.prems(1,2) ys assms(4) by auto
  ultimately have "set xs = set zs" using Cons.prems(3) ys by auto
  then show ?case using Cons ys \<open>x = y\<close> by simp
qed simp

lemma entries_sorted:
  assumes "table_ok l fs tid"
  shows "sorted_wrt (\<lambda>e e'. key_less (fst e) (fst e')) (table_entries l fs tid)"
proof -
  let ?n = "file_count l fs (TableStorage tid)"
  have bound: "?n + 1 < 2 ^ 31"
    using assms fstore.count_bound by (simp add: table_ok_def)
  have ids: "fst (fst e) = usize_as_i32 j" if "e \<in> set (page_entries (page_at l fs tid j))" "1 \<le> j" "j \<le> ?n" for e j
    using assms that by (auto simp: table_ok_def page_entries_def)
  have page: "sorted_wrt (\<lambda>e e'. key_less (fst e) (fst e')) (page_entries p)" for p
    by (simp add: page_entries_def sorted_wrt_map key_less_def sorted_wrt_filter)
  have "sorted_wrt (\<lambda>e e'. key_less (fst e) (fst e'))
      (concat (map (\<lambda>j. page_entries (page_at l fs tid j)) [1..<m + 1]))" if "m \<le> ?n" for m
    using that
  proof (induction m)
    case (Suc m)
    have "key_less (fst e) (fst e')" if "e \<in> set (page_entries (page_at l fs tid j))" "1 \<le> j" "j \<le> m"
      "e' \<in> set (page_entries (page_at l fs tid (Suc m)))" for e e' j
      using ids [OF that(1)] ids [OF that(4)] that(2,3) Suc.prems bound by (simp add: key_less_def)
    then show ?case
      using Suc page by (fastforce simp: sorted_wrt_append)
  qed simp
  from this [of ?n] show ?thesis
    by (simp add: table_entries_def table_pages_def comp_def del: upt_Suc)
qed

lemma entries_unique:
  assumes "table_ok l fs tid" and "sorted_wrt (\<lambda>e e'. key_less (fst e) (fst e')) es"
    and "\<And>k bs. (k, bs) \<in> set es \<longleftrightarrow> table_map l fs tid k = Some bs"
  shows "table_entries l fs tid = es"
proof (rule sorted_wrt_unique [OF entries_sorted [OF assms(1)] assms(2)])
  show "set (table_entries l fs tid) = set es"
    using table_entries_set [OF assms(1)] assms(3) by (auto simp del: split_paired_All)
qed (auto dest: key_less_asym)

text \<open>A row that is new comes somewhere between the others.\<close>

lemma entries_inserted:
  assumes "table_ok l fs tid" and "table_ok l u tid"
    and "table_map l fs tid k = None" and "table_map l u tid = (table_map l fs tid)(k \<mapsto> bs)"
  shows "\<exists>xs ys. table_entries l fs tid = xs @ ys \<and> table_entries l u tid = xs @ (k, bs) # ys"
proof -
  have "(k, bs) \<in> set (table_entries l u tid)"
    using table_entries_set [OF assms(2)] assms(4) by simp
  then obtain xs ys where split: "table_entries l u tid = xs @ (k, bs) # ys" by (auto simp: in_set_conv_decomp)
  have "sorted_wrt (\<lambda>e e'. key_less (fst e) (fst e')) (xs @ ys)"
    using entries_sorted [OF assms(2)] split by (auto simp: sorted_wrt_append)
  moreover have "(j, b) \<in> set (xs @ ys) \<longleftrightarrow> table_map l fs tid j = Some b" for j b
  proof -
    have "distinct (map fst (xs @ (k, bs) # ys))"
      using table_entries_distinct [OF assms(2)] split by simp
    then have "\<And>b. (k, b) \<notin> set (xs @ ys)" by force
    then have "(j, b) \<in> set (xs @ ys) \<longleftrightarrow> j \<noteq> k \<and> (j, b) \<in> set (table_entries l u tid)"
      unfolding split by auto
    then show ?thesis
      using table_entries_set [OF assms(2)] assms(3,4) by auto
  qed
  ultimately show ?thesis using split entries_unique [OF assms(1)] by blast
qed

lemma entries_updated:
  assumes "table_ok l fs tid" and "table_ok l u tid" and "dom (table_map l u tid) = dom (table_map l fs tid)"
  shows "table_entries l u tid = map (\<lambda>(k, _). (k, the (table_map l u tid k))) (table_entries l fs tid)"
proof (rule entries_unique [OF assms(2)])
  show "sorted_wrt (\<lambda>e e'. key_less (fst e) (fst e'))
      (map (\<lambda>(k, _). (k, the (table_map l u tid k))) (table_entries l fs tid))"
    using entries_sorted [OF assms(1)] by (simp add: sorted_wrt_map case_prod_beta)
  show "(k, bs) \<in> set (map (\<lambda>(k, _). (k, the (table_map l u tid k))) (table_entries l fs tid)) \<longleftrightarrow>
      table_map l u tid k = Some bs" for k bs
  proof -
    have "k \<in> dom (table_map l u tid) \<longleftrightarrow> (\<exists>b. (k, b) \<in> set (table_entries l fs tid))"
      unfolding assms(3) using table_entries_set [OF assms(1)] by auto
    then show ?thesis by force
  qed
qed

section \<open>Tables as lists of rows\<close>

definition scan :: "page_data_layout \<Rightarrow> table \<Rightarrow> files world \<Rightarrow> row list" where
  "scan l t w = map (\<lambda>(k, bs). decode (schema t) bs) (table_entries l (w_store w) (table_id t))"

definition pages_used :: "page_data_layout \<Rightarrow> table \<Rightarrow> files world \<Rightarrow> nat" where
  "pages_used l t w = file_count l (w_store w) (TableStorage (table_id t))"

definition stored :: "page_data_layout \<Rightarrow> table \<Rightarrow> row list \<Rightarrow> files world \<Rightarrow> bool" where
  "stored l t rows w \<longleftrightarrow> (\<exists>f. history_inv l t f (mset rows) w) \<and> scan l t w = rows"

lemma scan_mset:
  assumes "history_inv l t f M w"
  shows "mset (scan l t w) = M"
proof -
  have "table_ok l (w_store w) (table_id t)" "rows_of (schema t) (table_map l (w_store w) (table_id t)) = M"
    using assms table_invD(2) unfolding history_inv_def by blast+
  then show ?thesis using rows_of_entries unfolding scan_def by blast
qed

lemma storedI: "history_inv l t f M w \<Longrightarrow> stored l t (scan l t w) w"
  unfolding stored_def using scan_mset by blast

lemma storedD:
  assumes "stored l t rows w"
  obtains f where "history_inv l t f (mset rows) w" and "table_inv l t f (w_store w)" and "columns (schema t) \<noteq> []"
    and "rows = scan l t w"
proof -
  from assms obtain f where "history_inv l t f (mset rows) w" "rows = scan l t w"
    unfolding stored_def by blast
  then show thesis using that [of f] unfolding history_inv_def by blast
qed

lemma stored_rows:
  assumes "stored l t rows w" and "row \<in> set rows"
  shows "row_fits row (schema t)" and "row_strings_ok row"
proof -
  obtain f where inv: "table_inv l t f (w_store w)" and rows: "rows = scan l t w"
    using assms(1) by (rule storedD)
  from assms(2) obtain k bs where k: "(k, bs) \<in> set (table_entries l (w_store w) (table_id t))" "row = decode (schema t) bs"
    unfolding rows scan_def by auto
  have "table_map l (w_store w) (table_id t) k = Some bs"
    using k(1) table_entries_set [OF table_invD(2) [OF inv]] by blast
  from table_inv_readable(2) [OF inv this] k(2) show "row_fits row (schema t)" "row_strings_ok row" by simp_all
qed

lemma stored_find:
  assumes "stored l t rows w" and "find_column_for_query_by_cell (schema t) name c = Inr i"
  shows "\<exists>q rs. ta_find file_store E (ta_new t l) name c w = (Inr q, w) \<and> qr_schema q = schema t \<and>
    query_rows q (w_store w) = Inr rs \<and> map snd rs = filter (\<lambda>row. cells row ! i = c) rows"
proof -
  obtain f where inv: "table_inv l t f (w_store w)" and rows: "rows = scan l t w"
    using assms(1) by (rule storedD)
  let ?es = "table_entries l (w_store w) (table_id t)"
  from find_entries [OF table_invD(2) [OF inv] table_inv_readable(1) [OF inv] assms(2), of E] obtain q rs where
    q: "ta_find file_store E (ta_new t l) name c w = (Inr q, w)" "qr_schema q = schema t" "query_rows q (w_store w) = Inr rs"
    "map row_key rs = filter (\<lambda>(_, row). cells row ! i = c) (map (\<lambda>(k, bs). (k, decode (schema t) bs)) ?es)"
    by blast
  have "map snd rs = map snd (map row_key rs)" by (simp add: row_key_def comp_def)
  also have "\<dots> = filter (\<lambda>row. cells row ! i = c) rows"
    unfolding q(4) rows scan_def by (simp add: filter_map comp_def case_prod_beta)
  finally show ?thesis using q by blast
qed

definition same_files :: "table \<Rightarrow> files world \<Rightarrow> files world \<Rightarrow> bool" where
  "same_files t w w' \<longleftrightarrow> (\<forall>st \<in> {TableStorage (table_id t), fsm_access t}.
     w_store w' (storage_file_path st) = w_store w (storage_file_path st))"

lemma same_files_trans: "same_files t w w' \<Longrightarrow> same_files t w' w'' \<Longrightarrow> same_files t w w''"
  by (simp add: same_files_def del: storage_file_path.simps)

lemma other_table: "only_table t' w w' \<Longrightarrow> table_id t' \<noteq> table_id t \<Longrightarrow> same_files t w w'"
  unfolding same_files_def
  by (auto intro!: only_storesD simp: fsm_access_def simp del: storage_file_path.simps)

lemma same_filesD:
  assumes "same_files t w w'"
  shows "file_ok l (w_store w') (TableStorage (table_id t)) = file_ok l (w_store w) (TableStorage (table_id t))"
    and "file_count l (w_store w') (TableStorage (table_id t)) = file_count l (w_store w) (TableStorage (table_id t))"
    and "file_pages l (w_store w') (TableStorage (table_id t)) = file_pages l (w_store w) (TableStorage (table_id t))"
    and "file_count l (w_store w') (fsm_access t) = file_count l (w_store w) (fsm_access t)"
    and "file_pages l (w_store w') (fsm_access t) = file_pages l (w_store w) (fsm_access t)"
  using assms by (auto intro!: same_file simp: same_files_def simp del: storage_file_path.simps)

lemma stored_same_files:
  assumes "stored l t rows w" and "same_files t w w'"
  shows "stored l t rows w'" and "pages_used l t w' = pages_used l t w"
proof -
  obtain f where f: "history_inv l t f (mset rows) w" and rows: "rows = scan l t w"
    using assms(1) by (rule storedD)
  have "scan l t w' = scan l t w"
    unfolding scan_def table_entries_def table_pages_def page_at_def same_filesD [OF assms(2)] by (rule refl)
  moreover have "history_inv l t f (mset rows) w'"
    using assms(2) by (intro history_inv_frame [OF f]) (auto simp: same_files_def simp del: storage_file_path.simps)
  ultimately show "stored l t rows w'" using rows unfolding stored_def by blast
  show "pages_used l t w' = pages_used l t w"
    unfolding pages_used_def same_filesD [OF assms(2)] by (rule refl)
qed

lemmas stored_frame = stored_same_files [OF _ other_table]

definition inserted_row :: "row \<Rightarrow> row list \<Rightarrow> row list \<Rightarrow> bool" where
  "inserted_row row rows rows' \<longleftrightarrow> (\<exists>xs ys. rows = xs @ ys \<and> rows' = xs @ row # ys)"

lemma inserted_row_mset: "inserted_row row rows rows' \<Longrightarrow> mset rows' = add_mset row (mset rows)"
  by (auto simp: inserted_row_def)

lemma inserted_row_other: "inserted_row row rows rows' \<Longrightarrow> \<not> P row \<Longrightarrow> filter P rows' = filter P rows"
  by (auto simp: inserted_row_def)

lemma stored_insert:
  assumes "stored l t rows w" and used: "pages_used l t w + 2 < 2 ^ 31"
    and ok: "row_strings_ok row" and run: "ta_insert file_store E (ta_new t l) row w = (r, w')"
  shows "pages_used l t w' \<le> pages_used l t w + 1" and "case r of Inr _ \<Rightarrow> row_fits row (schema t) \<and> (\<exists>rows'. inserted_row row rows rows' \<and> stored l t rows' w')
    | Inl _ \<Rightarrow> stored l t rows w'"
proof -
  obtain f where f: "history_inv l t f (mset rows) w" and inv: "table_inv l t f (w_store w)"
    and cols: "columns (schema t) \<noteq> []" and rows: "rows = scan l t w"
    using assms(1) by (rule storedD)
  have room: "file_count l (w_store w) (TableStorage (table_id t)) + 2 < 2 ^ 31" using used by (simp add: pages_used_def)
  note hist = history_inserted(1) [OF f room ok run]
  note eff = ta_insert_effect [OF inv room ok cols, of E]
  from eff run obtain u n where u: "w' = w\<lparr>w_store := u, w_ticks := n\<rparr>" "table_inv l t f u"
    "if row_fits row (schema t)
     then \<exists>r'. insert_outcome l t f (w_store w) (row_serialize row) r' u \<and>
       insert_trace l t f (w_store w) (row_serialize row) r' u \<and> r = and_then r' (\<lambda>_. Inr ())
     else \<exists>e. r = Inl (Err (InsertRowError (RowInvalid e))) \<and> u = w_store w"
    by auto
  note tabs = table_invD(2) [OF inv] table_invD(2) [OF u(2)]
  show "pages_used l t w' \<le> pages_used l t w + 1"
    using u(3) by (auto simp: u(1) pages_used_def insert_trace_def page_given_def Let_def split: if_splits)
  show "case r of Inr _ \<Rightarrow> row_fits row (schema t) \<and> (\<exists>rows'. inserted_row row rows rows' \<and> stored l t rows' w')
    | Inl _ \<Rightarrow> stored l t rows w'"
  proof (cases r)
    case (Inl e)
    have "table_map l u (table_id t) = table_map l (w_store w) (table_id t)"
    proof (cases "row_fits row (schema t)")
      case True
      then obtain r' where "insert_outcome l t f (w_store w) (row_serialize row) r' u" "r = and_then r' (\<lambda>_. Inr ())"
        using u(3) by auto
      then show ?thesis using Inl by (cases r') (simp_all add: insert_outcome_def)
    next
      case False
      then have "u = w_store w" using u(3) by auto
      then show ?thesis by simp
    qed
    then have "table_entries l u (table_id t) = table_entries l (w_store w) (table_id t)"
      using table_entries_set [OF tabs(1)] entries_sorted [OF tabs(1)] by (intro entries_unique [OF tabs(2)]) simp_all
    then have "scan l t w' = rows" by (simp add: scan_def u(1) rows)
    then show ?thesis using hist Inl by (auto simp: stored_def)
  next
    case (Inr x)
    then have fits: "row_fits row (schema t)" using u(3) by (auto split: if_splits)
    then obtain r' where r': "insert_outcome l t f (w_store w) (row_serialize row) r' u" "r = and_then r' (\<lambda>_. Inr ())"
      using u(3) by auto
    then obtain k where k: "insert_outcome l t f (w_store w) (row_serialize row) (Inr k) u"
      using Inr by (cases r') auto
    then have "table_map l (w_store w) (table_id t) k = None"
      "table_map l u (table_id t) = (table_map l (w_store w) (table_id t))(k \<mapsto> row_serialize row)"
      by (simp_all add: insert_outcome_def)
    from entries_inserted [OF tabs this] obtain xs ys where
      "table_entries l (w_store w) (table_id t) = xs @ ys" "table_entries l u (table_id t) = xs @ (k, row_serialize row) # ys"
      by blast
    moreover have "decode (schema t) (row_serialize row) = row"
      using row_deserialize_serialize [OF fits ok] by (simp add: decode_def)
    ultimately have "inserted_row row rows (scan l t w')"
      by (auto simp: inserted_row_def scan_def u(1) rows)
    then show ?thesis using hist Inr storedI fits by auto
  qed
qed

lemma stored_update:
  assumes "stored l t rows w" and "\<forall>(name, d) \<in> set updates. \<not> is_var_size (column_type_of d)"
    and "collect_new_values (schema t) updates [] = Inr nv" and "\<forall>n. hash_order_ok (env_order E n)"
    and "find_column_for_query_by_cell (schema t) name c = Inr i"
    and "ta_find file_store E' (ta_new t l) name c w = (Inr q, w1)"
  shows "\<exists>w'. ta_update file_store E (ta_new t l) q updates w1 = (Inr (), w') \<and>
    stored l t (map (\<lambda>row. if cells row ! i = c then set_cells nv row else row) rows) w' \<and>
    same_slots l (TableStorage (table_id t)) (w_store w) (w_store w')"
proof -
  obtain f where inv: "table_inv l t f (w_store w)" and cols: "columns (schema t) \<noteq> []" and rows: "rows = scan l t w"
    using assms(1) by (rule storedD)
  from updated_places [OF inv assms(2-6)] obtain w' where u:
    "ta_update file_store E (ta_new t l) q updates w1 = (Inr (), w')" "table_inv l t f (w_store w')"
    "same_slots l (TableStorage (table_id t)) (w_store w) (w_store w')"
    "dom (table_map l (w_store w') (table_id t)) = dom (table_map l (w_store w) (table_id t))"
    "\<And>k. k \<in> dom (table_map l (w_store w) (table_id t)) \<Longrightarrow>
       decode (schema t) (the (table_map l (w_store w') (table_id t) k)) =
       (let row = decode (schema t) (the (table_map l (w_store w) (table_id t) k))
        in if cells row ! i = c then set_cells nv row else row)"
    by blast
  have at: "table_map l (w_store w) (table_id t) k = Some bs"
    if "(k, bs) \<in> set (table_entries l (w_store w) (table_id t))" for k bs
    using that table_entries_set [OF table_invD(2) [OF inv]] by blast
  have "scan l t w' = map (\<lambda>row. if cells row ! i = c then set_cells nv row else row) rows"
    unfolding scan_def rows entries_updated [OF table_invD(2) [OF inv] table_invD(2) [OF u(2)] u(4)]
    using at u(5) by (fastforce simp: Let_def)
  moreover have "history_inv l t f (rows_of (schema t) (table_map l (w_store w') (table_id t))) w'"
    using cols u(2) by (simp add: history_inv_def)
  ultimately show ?thesis using u(1,3) storedI by metis
qed

end
