(* ===== verification/Table_Append.thy ===== *)
theory Table_Append
  imports Table_Scan
begin

text \<open>
  A table whose rows lie on one page without deleted slots, with a known number of free bytes: an
  insertion that needs less succeeds and puts the row behind the others.
\<close>

section \<open>A page with room\<close>

definition roomy :: "page \<Rightarrow> nat \<Rightarrow> bool" where
  "roomy p n \<longleftrightarrow> n \<le> free_gap p \<and> (\<forall>s \<in> set (slots p). \<not> slot_deleted s) \<and>
     unat (number_of_records p) + n < 2 ^ 16 - 1"

lemma roomy_fragments: "roomy p n \<Longrightarrow> max_fragmented_free_space p = 0"
  by (auto simp: roomy_def max_fragmented_free_space_def filter_empty_conv)

lemma roomy_shape: "roomy p n \<Longrightarrow> page_shape q = page_shape p \<Longrightarrow> roomy q n"
  by (simp add: roomy_def page_shape_def free_gap_def slot_size_def)

lemma category_shape: "page_shape q = page_shape p \<Longrightarrow> page_category f q = page_category f p"
  by (simp add: page_category_def page_shape_def free_gap_def slot_size_def max_fragmented_free_space_def)

lemma image_shape: "page_shape (page_image q) = page_shape q"
  by (simp add: page_shape_def page_image_def)

lemma roomy_new:
  assumes "layout_ok l" and "n \<le> free_gap (page_new l)"
  shows "roomy (set_page_id i (page_new l)) n"
proof -
  have "free_gap (page_new l) < 2 ^ 15"
    using page_data_size_bound [OF assms(1)] by (simp add: free_gap_def page_new_def)
  then show ?thesis
    using assms(2) by (simp add: roomy_def free_gap_def set_page_id_def page_new_def slot_size_def)
qed

lemma roomy_accepts:
  assumes "page_wf p" and "roomy p n" and "length row + 7 \<le> n"
  shows "\<not> insert_refused p row e"
  using assms by (auto simp: insert_refused_def can_insert_eq roomy_def layout_consts)

lemma roomy_insert:
  assumes "page_wf p" and "roomy p n" and "row \<noteq> []" and "length row + 7 \<le> n" and "insert_record p row = Inr (i, q)"
  shows "i = length (slots p)" and "roomy q (n - (length row + 7))"
proof -
  have "i = length (slots p) \<and> roomy q (n - (length row + 7))"
  proof (cases rule: insert_record_cases [OF assms(1,5,3)])
    case 1
    then show ?thesis using assms(2) by (auto simp: roomy_def)
  next
    case 2
    have "unat (number_of_records p + 1) = unat (number_of_records p) + 1"
      using assms(2) by (simp add: roomy_def unat_word_ariths)
    then show ?thesis
      using assms(2,4) 2 by (auto simp: roomy_def append_row_def free_gap_def slot_size_def layout_consts)
  qed
  then show "i = length (slots p)" "roomy q (n - (length row + 7))" by blast+
qed

lemma roomy_category:
  assumes "fsm_of l t f" and "roomy p n" and "page_wf p" and "layout p = l"
    and "length row + 2 * fsm_category_step f + 7 \<le> n"
  shows "space_needed_to_category f (length row) \<le> page_category f p"
proof -
  let ?k = "fsm_category_step f"
  have k: "?k = page_size l div 256" "1 \<le> ?k" using fsm_ofD(5,6) [OF assms(1)] by simp_all
  have gap: "length row + 2 * ?k + 7 \<le> free_gap p" using assms(2,5) by (simp add: roomy_def)
  have "regions_ok p" using assms(3) by (rule page_wfD)
  then have small: "free_gap p \<le> page_data_size l"
    using regions_okD(2) [of p] assms(4) by (simp add: free_gap_def)
  obtain e where e: "5 \<le> e" "page_size l = 2 ^ e"
    using fsm_ofD(1) [OF assms(1)] layout_ok_iff by blast
  have "8 \<le> e"
  proof (rule ccontr)
    assume "\<not> 8 \<le> e"
    then have "(2 :: nat) ^ e \<le> 2 ^ 7" by (intro power_increasing) auto
    then show False using fsm_ofD(2) [OF assms(1)] e(2) by simp
  qed
  then have size: "page_size l = 256 * ?k"
    unfolding k(1) e(2) using le_imp_power_dvd [of 8 e "2 :: nat"] by simp
  have "unat (space_needed_to_category f (length row)) \<le> unat (page_category f p)"
  proof (cases "max_tupel_size l \<le> free_gap p")
    case True
    then show ?thesis
      using available_category [OF assms(1)] needed_category [OF assms(1), of "length row"] roomy_fragments [OF assms(2)]
        unat_lt_2p [of "space_needed_to_category f (length row)"]
      by (simp add: page_category_def)
  next
    case False
    have "length row + ?k - 1 < 255 * ?k"
      using gap small size k(2) by (simp add: page_data_size_def)
    then have "(length row + ?k - 1) div ?k < 255"
      by (simp add: less_mult_imp_div_less)
    moreover have "(length row + ?k - 1) div ?k \<le> free_gap p div ?k" "1 \<le> free_gap p div ?k"
      using gap k(2) div_le_mono [of ?k "free_gap p" ?k] by (auto intro!: div_le_mono)
    ultimately show ?thesis
      using available_category [OF assms(1)] needed_category [OF assms(1), of "length row"] roomy_fragments [OF assms(2)] False
      by (simp add: page_category_def)
  qed
  then show ?thesis by (simp add: word_le_nat_alt)
qed

section \<open>Appending rows\<close>

definition appendable :: "page_data_layout \<Rightarrow> table \<Rightarrow> nat \<Rightarrow> files world \<Rightarrow> bool" where
  "appendable l t n w \<longleftrightarrow>
     pages_used l t w = 0 \<and> n \<le> free_gap (page_new l) \<or>
     pages_used l t w = 1 \<and> 1 \<le> file_count l (w_store w) (fsm_access t) \<and>
       (\<exists>f p. fsm_of l t f \<and> file_pages l (w_store w) (TableStorage (table_id t)) (i32_of_int 1) = Some p \<and>
          roomy p n \<and> root_view l t (w_store w) ! 0 = page_category f p)"

lemma fsm_of_unique: "fsm_of l t f \<Longrightarrow> fsm_of l t f' \<Longrightarrow> f' = f"
  by (simp add: fsm_of_def)

lemma table_inv_fsm: "table_inv l t f fs \<Longrightarrow> fsm_of l t f"
  by (simp add: table_inv_def rows_inv_def fsm_inv_def Let_def)

text \<open>The page an insertion gets.\<close>

lemma append_page:
  assumes inv: "table_inv l t f (w_store w)" and room: "appendable l t n w"
    and len: "length dat + 2 * (page_size l div 256) + 7 \<le> n"
    and given: "page_given l t f (length dat) (w_store w) p m"
  shows "m = 1 \<and> page_id p = i32_of_int 1 \<and> roomy p n \<and> page_wf p \<and>
    (\<forall>k. table_map l (w_store w) (table_id t) k \<noteq> None \<longrightarrow> fst k = i32_of_int 1 \<and> snd k < length (slots p))"
proof -
  let ?tab = "TableStorage (table_id t)" and ?fs = "w_store w"
  note ok = table_invD(2) [OF inv] and fsm = table_inv_fsm [OF inv]
  have lay: "layout_ok l" using fsm by (rule fsm_ofD(1))
  have one: "usize_as_i32 (Suc 0) = i32_of_int 1" by (simp add: i32_eq_iff)
  show ?thesis
  proof (cases "pages_used l t w = 0")
    case True
    have none: "file_pages l ?fs ?tab i = None" for i
      using True by (auto simp: file_pages_def pages_used_def)
    then have "m = 1" "p = set_page_id (i32_of_int 1) (page_new l)"
      using given True by (simp_all add: page_given_def Let_def pages_used_def one)
    moreover have "n \<le> free_gap (page_new l)" using room True by (simp add: appendable_def)
    ultimately show ?thesis
      using roomy_new [OF lay] empty_page(1,4) [OF lay] none by (simp add: table_map_def)
  next
    case False
    then obtain f' q where q': "pages_used l t w = 1" "1 \<le> file_count l ?fs (fsm_access t)" "fsm_of l t f'"
      "file_pages l ?fs ?tab (i32_of_int 1) = Some q" "roomy q n" "root_view l t ?fs ! 0 = page_category f' q"
      by (insert room False) (unfold appendable_def, elim disjE exE conjE, simp, rule that)
    note q = q'(1,2,4-6) [unfolded fsm_of_unique [OF fsm q'(3)]]
    note pg = table_pageD [OF ok q(3)]
    have only: "i = i32_of_int 1" if "file_pages l ?fs ?tab i \<noteq> None" for i
      using that q(1) by (auto simp: file_pages_def pages_used_def i32_eq_iff split: if_splits)
    have "space_needed_to_category f (length dat) \<le> root_view l t ?fs ! 0"
      unfolding q(5) using len fsm_ofD(5) [OF fsm] by (intro roomy_category [OF fsm q(4) pg(1,3)]) simp
    moreover have "0 < fsm_slots f" using fsm_ofD(10) [OF fsm] by simp
    ultimately have "m = 1" "file_pages l ?fs ?tab (page_id p) = Some p"
      using given q(1,2) by (auto simp: page_given_def Let_def pages_used_def not_less [symmetric])
    moreover from this(2) have "page_id p = i32_of_int 1" by (intro only) simp
    ultimately have p: "m = 1" "page_id p = i32_of_int 1" "p = q" using q(3) by simp_all
    have "fst k = i32_of_int 1 \<and> snd k < length (slots p)" if "table_map l ?fs (table_id t) k \<noteq> None" for k
    proof -
      have "file_pages l ?fs ?tab (fst k) \<noteq> None" using that by (auto simp: table_map_def split: option.splits)
      then have "fst k = i32_of_int 1" by (rule only)
      then show ?thesis using that q(3) page_rows_range [of p "snd k"] by (auto simp: table_map_def p(3))
    qed
    then show ?thesis using p q(4) pg(1) by blast
  qed
qed

lemma stored_append:
  assumes "stored l t rows w" and "appendable l t n w" and fits: "row_fits row (schema t)" and str: "row_strings_ok row"
    and len: "length (row_serialize row) + 2 * (page_size l div 256) + 7 \<le> n"
  shows "\<exists>w'. ta_insert file_store E (ta_new t l) row w = (Inr (), w') \<and> stored l t (rows @ [row]) w' \<and>
    appendable l t (n - (length (row_serialize row) + 7)) w'"
proof -
  let ?tab = "TableStorage (table_id t)" and ?dat = "row_serialize row"
  obtain f where f: "history_inv l t f (mset rows) w" and inv: "table_inv l t f (w_store w)"
    and cols: "columns (schema t) \<noteq> []" and rows: "rows = scan l t w"
    using assms(1) by (rule storedD)
  have room: "file_count l (w_store w) ?tab + 2 < 2 ^ 31"
    using assms(2) by (auto simp: appendable_def pages_used_def)
  have ne: "?dat \<noteq> []" by (rule row_serialize_nonempty [OF fits cols])
  obtain r u m r' where run: "ta_insert file_store E (ta_new t l) row w = (r, w\<lparr>w_store := u, w_ticks := m\<rparr>)"
    "table_inv l t f u" "insert_outcome l t f (w_store w) ?dat r' u" "insert_trace l t f (w_store w) ?dat r' u"
    "r = and_then r' (\<lambda>_. Inr ())"
    using ta_insert_effect [OF inv room str cols, of E] fits by auto
  let ?w = "w\<lparr>w_store := u, w_ticks := m\<rparr>"
  from run(4) obtain p where p: "page_given l t f (length ?dat) (w_store w) p (file_count l u ?tab)" "page_wf p"
    "case r' of Inl e \<Rightarrow> insert_refused p ?dat e
     | Inr (pid, i) \<Rightarrow> \<exists>q. insert_record p ?dat = Inr (i, q) \<and> pid = page_id p \<and>
         file_pages l u ?tab = (file_pages l (w_store w) ?tab)(pid \<mapsto> page_image q) \<and>
         1 \<le> file_count l u (fsm_access t) \<and> (i32_val pid = 1 \<longrightarrow> root_view l t u ! 0 = page_category f q)"
    unfolding insert_trace_def Let_def by blast
  from append_page [OF inv assms(2) len p(1)] have pg: "file_count l u ?tab = 1" "page_id p = i32_of_int 1" "roomy p n"
    "\<And>k. table_map l (w_store w) (table_id t) k \<noteq> None \<Longrightarrow> fst k = i32_of_int 1 \<and> snd k < length (slots p)"
    by blast+
  have small: "length ?dat + 7 \<le> n" using len by simp
  have "\<exists>x. r' = Inr x"
    using p(3) roomy_accepts [OF p(2) pg(3) small] by (cases r') simp_all
  then obtain pid i where r': "r' = Inr (pid, i)" by auto
  with p(3) obtain q where q: "insert_record p ?dat = Inr (i, q)" "pid = i32_of_int 1"
    "file_pages l u ?tab (i32_of_int 1) = Some (page_image q)" "1 \<le> file_count l u (fsm_access t)"
    "root_view l t u ! 0 = page_category f q"
    using pg(2) by auto
  note ins = roomy_insert [OF p(2) pg(3) ne small q(1)]
  have "appendable l t (n - (length ?dat + 7)) ?w"
    using pg(1) q(3-5) table_inv_fsm [OF inv] roomy_shape [OF ins(2) image_shape] category_shape [OF image_shape, of f q]
    by (auto simp: appendable_def pages_used_def)
  moreover have "stored l t (rows @ [row]) ?w"
  proof -
    have k: "table_map l (w_store w) (table_id t) (pid, i) = None"
      "table_map l u (table_id t) = (table_map l (w_store w) (table_id t))((pid, i) \<mapsto> ?dat)"
      using run(3) by (simp_all add: r' insert_outcome_def)
    note oks = table_invD(2) [OF inv] table_invD(2) [OF run(2)]
    have "table_entries l u (table_id t) = table_entries l (w_store w) (table_id t) @ [((pid, i), ?dat)]"
    proof (rule entries_unique [OF oks(2)])
      have "key_less (fst e) (pid, i)" if "e \<in> set (table_entries l (w_store w) (table_id t))" for e
        using that pg(4) [of "fst e"] table_entries_set [OF oks(1), of "fst e" "snd e"] ins(1) q(2)
        by (simp add: key_less_def)
      then show "sorted_wrt (\<lambda>e e'. key_less (fst e) (fst e')) (table_entries l (w_store w) (table_id t) @ [((pid, i), ?dat)])"
        using entries_sorted [OF oks(1)] by (simp add: sorted_wrt_append)
      show "(j, bs) \<in> set (table_entries l (w_store w) (table_id t) @ [((pid, i), ?dat)]) \<longleftrightarrow>
          table_map l u (table_id t) j = Some bs" for j bs
        using table_entries_set [OF oks(1), of j bs] k by auto
    qed
    moreover have "decode (schema t) ?dat = row"
      using row_deserialize_serialize [OF fits str] by (simp add: decode_def)
    ultimately have "scan l t ?w = rows @ [row]" by (simp add: scan_def rows)
    moreover have "history_inv l t f (mset (rows @ [row])) ?w"
      using history_inserted(1) [OF f room str run(1)] run(5) by (simp add: r')
    ultimately show ?thesis unfolding stored_def by blast
  qed
  ultimately show ?thesis using run(1,5) by (simp add: r')
qed

text \<open>An update in place leaves the room as it is, and so do steps on other tables.\<close>

lemma appendable_update:
  assumes "appendable l t n w" and "same_slots l (TableStorage (table_id t)) (w_store w) (w_store w')"
    and "only_stores {TableStorage (table_id t)} w w'"
  shows "appendable l t n w'"
proof -
  have "w_store w' (storage_file_path (fsm_access t)) = w_store w (storage_file_path (fsm_access t))"
    by (rule only_storesD [OF assms(3)]) simp
  note map = same_file [of "w_store w'" "fsm_access t" "w_store w", OF this]
  have root: "root_view l t (w_store w') = root_view l t (w_store w)"
    by (simp only: root_view_def map)
  have used: "pages_used l t w' = pages_used l t w"
    using assms(2) by (simp add: pages_used_def same_slots_def)
  show ?thesis
  proof (cases "pages_used l t w = 0")
    case True
    then show ?thesis using assms(1) used by (simp add: appendable_def)
  next
    case False
    obtain f p where p: "pages_used l t w = 1" "1 \<le> file_count l (w_store w) (fsm_access t)" "fsm_of l t f"
      "file_pages l (w_store w) (TableStorage (table_id t)) (i32_of_int 1) = Some p" "roomy p n"
      "root_view l t (w_store w) ! 0 = page_category f p"
      by (insert assms(1) False) (unfold appendable_def, elim disjE exE conjE, simp, rule that)
    from assms(2) p(4) obtain q where "file_pages l (w_store w') (TableStorage (table_id t)) (i32_of_int 1) = Some q"
      "page_shape q = page_shape p"
      by (auto simp: same_slots_def map_option_case dest!: spec [of _ "i32_of_int 1"] split: option.splits)
    then show ?thesis
      using p(1-3,6) roomy_shape [OF p(5)] category_shape [of q p f]
      unfolding appendable_def used root map(2) by auto
  qed
qed

lemma appendable_same_files:
  assumes "appendable l t n w" and "same_files t w w'"
  shows "appendable l t n w'"
  using assms(1) unfolding appendable_def pages_used_def root_view_def same_filesD [OF assms(2)] .

lemmas appendable_frame = appendable_same_files [OF _ other_table]

lemma appendable_less: "appendable l t n w \<Longrightarrow> m \<le> n \<Longrightarrow> appendable l t m w"
  unfolding appendable_def roomy_def by (elim disjE exE conjE) force+

end
