(* ===== verification/Indexed_Duplicate.thy ===== *)
theory Indexed_Duplicate
  imports Indexed_History Table_Append
begin

text \<open>
  A second row for a key of a unique index is refused only while the index has one page; afterwards it
  is stored and no lookup by the key finds it.
\<close>

section \<open>A second row for a key\<close>

text \<open>The same states with the tree of the index.\<close>

definition indexed_at :: "page_data_layout \<Rightarrow> table \<Rightarrow> fsm \<Rightarrow> nat \<Rightarrow> nat \<Rightarrow> nat \<Rightarrow> btree \<Rightarrow> files world \<Rightarrow> bool" where
  "indexed_at l t f c h n tr w \<longleftrightarrow> table_inv l t f (w_store w) \<and> h < length (w_handles w) \<and> index_at (handle_pager w h) n tr \<and>
     entries_match (schema t) c (table_map l (w_store w) (table_id t)) (bt_entries tr)"

lemma indexed_at_inv: "indexed_at l t f c h n tr w \<Longrightarrow> indexed_inv l t f c h n (bt_keys tr) w"
  by (auto simp: indexed_at_def indexed_inv_def index_of_def)

lemma indexed_insert_duplicate:
  assumes at: "indexed_at l t f c h n tr w" and col: "indexed_column (schema t) cid c"
    and room: "file_count l (w_store w) (TableStorage (table_id t)) + 2 < 2 ^ 31"
    and row: "row_fits row (schema t)" "row_strings_ok row" "cells row ! c = CellInt key"
    and order: "\<forall>n. hash_order_ok (env_order E n)"
    and key: "key \<in> fst ` set (bt_entries tr)" "bt_path_open (degree_of (handle_pager w h)) n key tr" "n < env_fuel E"
  shows "\<exists>r w'. ta_insert file_store E (indexed_access t l cid h) row w = (r, w') \<and>
    table_inv l t f (w_store w') \<and> h < length (w_handles w') \<and> index_at (handle_pager w' h) n tr \<and>
    ((\<exists>e. r = Inl e \<and> refused_row l t f (w_store w) (row_serialize row) e) \<and>
        table_map l (w_store w') (table_id t) = table_map l (w_store w) (table_id t) \<or>
     (\<forall>e. \<not> refused_row l t f (w_store w) (row_serialize row) e) \<and>
     (if n = 0 then r = Inl (Err (UpdateRowsError (IndexUpdate (BTreeNodeOperation TryInsertDuplicate)))) \<and>
        table_map l (w_store w') (table_id t) = table_map l (w_store w) (table_id t)
      else r = Inr () \<and> (\<exists>k. table_map l (w_store w) (table_id t) k = None \<and>
        table_map l (w_store w') (table_id t) = (table_map l (w_store w) (table_id t))(k \<mapsto> row_serialize row))))"
proof -
  let ?br = "if n = 0 then Inl (Err (BTreeNodeOperation TryInsertDuplicate)) else Inr ()"
  have idx: "index_at (handle_pager w h) n tr" using at by (simp add: indexed_at_def)
  have step: "\<exists>q. btree_insert (env_keeps E h) (env_fuel E) key (pid, usize_as_i32 i) (handle_pager w h) = (?br, q) \<and> index_at q n tr"
    for pid i by (rule insert_duplicate_at [OF idx key])
  show ?thesis
    using indexed_insert_step [where br = ?br and Q = "\<lambda>_ _ q. index_at q n tr" and E = E,
        OF indexed_at_inv [OF at] col room row order step] idx
    by (cases "n = 0") (simp_all, metis+)
qed

text \<open>
  C13. Uniqueness is only kept while the index is a single page. Let a row be inserted whose key the
  table has already, and let no page of the index on the path from its root to the leaf of the key be
  full (otherwise the code splits pages on the way down, which this property does not cover). If the
  page that the free space map gives out does not take the row, the insertion fails for that reason,
  whatever the height of the tree. If it takes the row, a tree of one page refuses the row with
  \<open>TryInsertDuplicate\<close>; in a tree of more pages the insertion succeeds and the table has two rows
  with the key. Whenever the insertion fails the rows of the table stay as they are, and in all cases
  the lookup by the key yields afterwards what it yielded before. The fuel is above the height of the
  tree, strings are UTF-8, and page numbers stay below the limit of \<open>i32\<close>.
\<close>

theorem indexed_duplicate:
  assumes "indexed_at l t f c h n tr w" and "indexed_column (schema t) cid c"
    and "file_count l (w_store w) (TableStorage (table_id t)) + 2 < 2 ^ 31"
    and "row_fits row (schema t)" and "row_strings_ok row" and "cells row ! c = CellInt key"
    and "\<forall>n. hash_order_ok (env_order E n)"
    and "key \<in> fst ` set (bt_entries tr)" and "bt_path_open (degree_of (handle_pager w h)) n key tr" and "n < env_fuel E"
    and "find_column_for_query_by_cell (schema t) name (CellInt key) = Inr c"
  shows "\<exists>r w' q rs w2. ta_insert file_store E (indexed_access t l cid h) row w = (r, w') \<and>
    ta_find file_store E (indexed_access t l cid h) name (CellInt key) w' = (Inr q, w2) \<and>
    query_rows q (w_store w2) = Inr rs \<and>
    mset (map snd rs) = filter_mset (\<lambda>row. cells row ! c = CellInt key) (rows_of (schema t) (table_map l (w_store w) (table_id t))) \<and>
    (if \<exists>e. refused_row l t f (w_store w) (row_serialize row) e
     then (\<exists>e. r = Inl e \<and> refused_row l t f (w_store w) (row_serialize row) e) \<and>
       rows_of (schema t) (table_map l (w_store w') (table_id t)) = rows_of (schema t) (table_map l (w_store w) (table_id t))
     else if n = 0
     then r = Inl (Err (UpdateRowsError (IndexUpdate (BTreeNodeOperation TryInsertDuplicate)))) \<and>
       rows_of (schema t) (table_map l (w_store w') (table_id t)) = rows_of (schema t) (table_map l (w_store w) (table_id t))
     else r = Inr () \<and>
       rows_of (schema t) (table_map l (w_store w') (table_id t)) = add_mset row (rows_of (schema t) (table_map l (w_store w) (table_id t))))"
proof -
  let ?m = "table_map l (w_store w) (table_id t)"
  have at: "table_inv l t f (w_store w)" "entries_match (schema t) c ?m (bt_entries tr)"
    using assms(1) by (simp_all add: indexed_at_def)
  obtain r w' where run: "ta_insert file_store E (indexed_access t l cid h) row w = (r, w')" "table_inv l t f (w_store w')"
    "h < length (w_handles w')" "index_at (handle_pager w' h) n tr"
    and out: "((\<exists>e. r = Inl e \<and> refused_row l t f (w_store w) (row_serialize row) e) \<and>
        table_map l (w_store w') (table_id t) = ?m) \<or>
     (\<forall>e. \<not> refused_row l t f (w_store w) (row_serialize row) e) \<and>
     (if n = 0 then r = Inl (Err (UpdateRowsError (IndexUpdate (BTreeNodeOperation TryInsertDuplicate)))) \<and>
        table_map l (w_store w') (table_id t) = ?m
      else r = Inr () \<and> (\<exists>k. ?m k = None \<and> table_map l (w_store w') (table_id t) = ?m(k \<mapsto> row_serialize row)))"
    using indexed_insert_duplicate [OF assms(1-10)] by blast
  have idx: "index_of (handle_pager w' h) n (bt_entries tr) (bt_keys tr)" using run(4) by (auto simp: index_of_def)
  have sub: "?m \<subseteq>\<^sub>m table_map l (w_store w') (table_id t)"
    using out by (auto simp: map_le_def split: if_splits)
  obtain q rs w2 where "ta_find file_store E (indexed_access t l cid h) name (CellInt key) w' = (Inr q, w2)"
    "query_rows q (w_store w2) = Inr rs"
    "mset (map snd rs) = filter_mset (\<lambda>row. cells row ! c = CellInt key) (rows_of (schema t) ?m)"
    using indexed_lookup [OF run(2,3) idx at(2) sub assms(2,11,10,7)] by (auto simp: Let_def)
  moreover have "rows_of (schema t) (?m(k \<mapsto> row_serialize row)) = add_mset row (rows_of (schema t) ?m)" if "?m k = None" for k
    using rows_of_insert [OF table_map_finite [OF table_invD(2) [OF at(1)]] that] row_deserialize_serialize [OF assms(4,5)]
    by (simp add: decode_def)
  ultimately show ?thesis
    using run(1) out by (intro exI [of _ r] exI [of _ w'] exI [of _ q] exI [of _ rs] exI [of _ w2]) (auto split: if_splits)
qed

section \<open>Indexes on stored rows\<close>

text \<open>The entries of an index on the rows of a table, in the order of a scan.\<close>

fun cell_key :: "cell \<Rightarrow> i32" where
  "cell_key (CellInt key) = key"
| "cell_key c = i32_min"

definition index_entries :: "table_schema \<Rightarrow> nat \<Rightarrow> ((i32 \<times> nat) \<times> byte list) list \<Rightarrow> index_entry list" where
  "index_entries s c xs = map (\<lambda>((pid, i), bs). (cell_key (cells (decode s bs) ! c), pid, usize_as_i32 i)) xs"

lemma index_entries_match:
  assumes ok: "table_ok l fs tid"
    and cells: "\<And>k bs. table_map l fs tid k = Some bs \<Longrightarrow> \<exists>key. cells (decode s bs) ! c = CellInt key"
  shows "entries_match s c (table_map l fs tid) (index_entries s c (table_entries l fs tid))"
proof -
  have "(key, pid, j) \<in> set (index_entries s c (table_entries l fs tid)) \<longleftrightarrow>
      (\<exists>i bs. table_map l fs tid (pid, i) = Some bs \<and> cells (decode s bs) ! c = CellInt key \<and> j = usize_as_i32 i)"
    (is "?l \<longleftrightarrow> ?r") for key pid j
  proof
    assume ?l
    then obtain i bs where i: "((pid, i), bs) \<in> set (table_entries l fs tid)" "key = cell_key (cells (decode s bs) ! c)" "j = usize_as_i32 i"
      by (auto simp: index_entries_def)
    then have "table_map l fs tid (pid, i) = Some bs" using table_entries_set [OF ok] by blast
    then show ?r using cells [of "(pid, i)" bs] i(2,3) by force
  next
    assume ?r
    then obtain i bs where i: "table_map l fs tid (pid, i) = Some bs" "cells (decode s bs) ! c = CellInt key" "j = usize_as_i32 i"
      by blast
    then have "((pid, i), bs) \<in> set (table_entries l fs tid)" using table_entries_set [OF ok] by blast
    then show ?l using i(2,3) by (force simp: index_entries_def)
  qed
  then show ?thesis by (simp add: entries_match_def)
qed

lemma index_entries_fit:
  assumes ok: "table_ok l fs tid" and "(key, v) \<in> set (index_entries s c (table_entries l fs tid))"
  shows "fst v \<noteq> i32_min" and "snd v \<noteq> i32_min"
proof -
  obtain i bs where i: "table_map l fs tid (fst v, i) = Some bs" "snd v = usize_as_i32 i"
    using assms(2) table_entries_set [OF ok] by (cases v) (auto simp: index_entries_def)
  from i(1) obtain p where "file_pages l fs (TableStorage tid) (fst v) = Some p" by (auto simp: table_map_def split: option.splits)
  then have "1 \<le> i32_val (fst v)" using table_pageD(2,4) [OF ok] by metis
  moreover have "0 \<le> i32_val (snd v)"
    using table_slot_bound [OF ok i(1)] by (simp add: i(2) i32_val_usize_as_i32)
  moreover have "i32_val i32_min < 0" by (simp add: i32_min_def)
  ultimately show "fst v \<noteq> i32_min" "snd v \<noteq> i32_min" by auto
qed

text \<open>The page that the map gives out in a table with room takes the row.\<close>

lemma appendable_takes:
  assumes "table_inv l t f (w_store w)" and "appendable l t n w" and "length dat + 2 * (page_size l div 256) + 7 \<le> n"
  shows "\<not> refused_row l t f (w_store w) dat e"
proof -
  have "file_count l (w_store w) (TableStorage (table_id t)) + 2 < 2 ^ 31"
    using assms(2) by (auto simp: appendable_def pages_used_def)
  then obtain p u where p: "find_available_page file_store f (length dat) (w_store w) = (Inr p, u)"
    "page_given l t f (length dat) (w_store w) p (file_count l u (TableStorage (table_id t)))"
    using table_inv_found [OF assms(1), of "length dat"] by blast
  have "roomy p n" "page_wf p" using append_page [OF assms p(2)] by blast+
  moreover have "length dat + 7 \<le> n" using assms(3) by linarith
  ultimately have "\<not> insert_refused p dat e" using roomy_accepts by blast
  then show ?thesis by (simp add: refused_row_def p(1))
qed

text \<open>An index file with these entries, opened beside the table.\<close>

definition with_index :: "node_pager \<Rightarrow> files world \<Rightarrow> files world" where
  "with_index p w = with_handle 0 p (w\<lparr>w_handles := [\<lparr>ih_btree = i32_of_int 0, ih_pager = p\<rparr>]\<rparr>)"

lemma with_index_at:
  assumes st: "stored l t rows w" and room: "appendable l t n w"
    and cells: "\<And>row. row \<in> set rows \<Longrightarrow> \<exists>key. cells row ! c = CellInt key"
    and index: "index_at p ht tr" "bt_entries tr = index_entries (schema t) c (table_entries l (w_store w) (table_id t))"
  shows "\<exists>f. indexed_at l t f c 0 ht tr (with_index p w) \<and>
      (\<forall>dat e. length dat + 2 * (page_size l div 256) + 7 \<le> n \<longrightarrow> \<not> refused_row l t f (w_store (with_index p w)) dat e)"
    and "handle_pager (with_index p w) 0 = p"
    and "rows_of (schema t) (table_map l (w_store (with_index p w)) (table_id t)) = mset rows"
    and "file_count l (w_store (with_index p w)) (TableStorage (table_id t)) + 2 < 2 ^ 31"
proof -
  let ?v = "w\<lparr>w_handles := [\<lparr>ih_btree = i32_of_int 0, ih_pager = p\<rparr>]\<rparr>" and ?w = "with_index p w"
  obtain f where f: "history_inv l t f (mset rows) w" and inv: "table_inv l t f (w_store w)" and rows: "rows = scan l t w"
    using st by (rule storedD)
  note ok = table_invD(2) [OF inv]
  have h: "0 < length (w_handles ?v)" by simp
  note H = with_handle_simps [OF h, where q = p, folded with_index_def]
  show "handle_pager ?w 0 = p" by (rule H(1))
  have same: "same_table t (w_store w) (w_store ?w)" using H(2) [of t] by simp
  note S = same_table_inv [OF same inv]
  have "same_files t w ?w" using same by (simp add: same_files_def same_table_def)
  then have app: "appendable l t n ?w" by (rule appendable_same_files [OF room])
  show "rows_of (schema t) (table_map l (w_store ?w) (table_id t)) = mset rows"
    using f S(2) by (simp add: history_inv_def)
  show "file_count l (w_store ?w) (TableStorage (table_id t)) + 2 < 2 ^ 31"
    using app by (auto simp: appendable_def pages_used_def)
  have "\<exists>key. cells (decode (schema t) bs) ! c = CellInt key" if "table_map l (w_store w) (table_id t) k = Some bs" for k bs
    using that table_entries_set [OF ok, of k bs] by (intro cells) (force simp: rows scan_def)
  from index_entries_match [OF ok this]
  have "indexed_at l t f c 0 ht tr ?w"
    using S(1,2) H(1,3) index by (simp add: indexed_at_def)
  then show "\<exists>f. indexed_at l t f c 0 ht tr ?w \<and>
      (\<forall>dat e. length dat + 2 * (page_size l div 256) + 7 \<le> n \<longrightarrow> \<not> refused_row l t f (w_store ?w) dat e)"
    using appendable_takes [OF S(1) app] by blast
qed

section \<open>Rows of the example\<close>

definition user_with :: "i32 \<Rightarrow> row" where
  "user_with key = Row [CellInt key, CellVarchar (str_bytes ''Ada'')]"

lemma user_with_ok:
  "row_fits (user_with key) (schema users_table)" "row_strings_ok (user_with key)"
  "cells (user_with key) ! 0 = CellInt key" "length (row_serialize (user_with key)) \<le> 20"
proof -
  have "row_fits user_row users_schema" "row_strings_ok user_row" "length (row_serialize user_row) \<le> 20"
    using user_row_ok by (simp_all add: row_validate_iff) code_simp
  then show "row_fits (user_with key) (schema users_table)" "row_strings_ok (user_with key)"
    "cells (user_with key) ! 0 = CellInt key" "length (row_serialize (user_with key)) \<le> 20"
    by (simp_all add: user_with_def user_row_def users_table_def users_schema_def row_fits_def row_strings_ok_def row_serialize_def)
qed

lemma users_stored:
  assumes "length ns \<le> 4"
  shows "\<exists>w. stored layout_512 users_table (map user_with ns) w \<and>
    appendable layout_512 users_table (498 - 30 * length ns) w"
  using assms
proof (induction ns rule: rev_induct)
  case Nil
  let ?w = "fresh_world users_table"
  have "columns (schema users_table) \<noteq> []" by (simp add: users_table_def users_schema_def)
  note hist = history_ok [OF fresh_history [OF this]]
  have "stored layout_512 users_table [] ?w"
    using storedI [OF hist] scan_mset [OF hist] by simp
  moreover have "498 \<le> free_gap (page_new layout_512)"
    by (simp add: free_gap_def page_new_def slot_size_def page_data_size_def layout_512_def page_size_def layout_consts)
  ultimately show ?case by (intro exI [of _ ?w]) (simp add: appendable_def pages_used_def fresh_count)
next
  case (snoc key ns)
  let ?n = "498 - 30 * length ns" and ?len = "length (row_serialize (user_with key))"
  obtain w where w: "stored layout_512 users_table (map user_with ns) w" "appendable layout_512 users_table ?n w"
    using snoc by auto
  have "page_size layout_512 div 256 = 2" by (simp add: layout_512_def page_size_def)
  then have "?len + 2 * (page_size layout_512 div 256) + 7 \<le> ?n" using user_with_ok(4) [of key] snoc.prems by simp
  from stored_append [OF w user_with_ok(1,2) this, of plain_env] obtain w' where
    w': "stored layout_512 users_table (map user_with ns @ [user_with key]) w'"
      "appendable layout_512 users_table (?n - (?len + 7)) w'"
    by blast
  have "498 - 30 * length (ns @ [key]) \<le> ?n - (?len + 7)" using user_with_ok(4) [of key] by simp
  with w' show ?case by (auto intro: appendable_less)
qed

text \<open>The entries of an index on these rows.\<close>

lemma users_entries:
  assumes "stored layout_512 users_table (map user_with ns) w" and "sorted_wrt (<) ns" and "\<forall>key \<in> set ns. key \<noteq> i32_min"
  defines "es \<equiv> index_entries (schema users_table) 0 (table_entries layout_512 (w_store w) (table_id users_table))"
  shows "map fst es = ns" and "entries_fit es"
proof -
  obtain f where inv: "table_inv layout_512 users_table f (w_store w)" and rows: "map user_with ns = scan layout_512 users_table w"
    using assms(1) by (rule storedD)
  note ok = table_invD(2) [OF inv]
  have "map fst es = map (\<lambda>row. cell_key (cells row ! 0)) (scan layout_512 users_table w)"
    by (simp add: es_def index_entries_def scan_def case_prod_beta)
  then show ns: "map fst es = ns" by (simp add: user_with_ok(3) comp_def flip: rows)
  have "k \<noteq> i32_min \<and> fst v \<noteq> i32_min \<and> snd v \<noteq> i32_min" if "(k, v) \<in> set es" for k v
  proof -
    have "k \<in> set (map fst es)" using that by force
    then show ?thesis using index_entries_fit [OF ok that [unfolded es_def]] assms(3) ns by simp
  qed
  then show "entries_fit es" using assms(2) ns by (auto simp: entries_fit_def)
qed

text \<open>Tables of one and of four rows, with an index of one page and of two levels.\<close>

lemma users_one_page:
  "\<exists>f w tr. indexed_at layout_512 users_table f 0 0 0 tr w \<and> i32_n 1 \<in> fst ` set (bt_entries tr) \<and>
    bt_path_open (degree_of (handle_pager w 0)) 0 (i32_n 1) tr \<and>
    rows_of (schema users_table) (table_map layout_512 (w_store w) (table_id users_table)) = {#user_with (i32_n 1)#} \<and>
    file_count layout_512 (w_store w) (TableStorage (table_id users_table)) + 2 < 2 ^ 31 \<and>
    (\<forall>e. \<not> refused_row layout_512 users_table f (w_store w) (row_serialize (user_with (i32_n 1))) e)"
proof -
  let ?ns = "[i32_n 1]"
  obtain w where w: "stored layout_512 users_table (map user_with ?ns) w" "appendable layout_512 users_table (498 - 30 * length ?ns) w"
    using users_stored [of ?ns] by auto
  let ?es = "index_entries (schema users_table) 0 (table_entries layout_512 (w_store w) (table_id users_table))"
  have es: "map fst ?es = ?ns" "entries_fit ?es"
    using users_entries [OF w(1)] i32_n_not_min by auto
  then obtain v where v: "?es = [(i32_n 1, v)]" by auto
  obtain p where p: "index_of p 0 [] {}" "pages p = 0" "free_page p = None" "degree_of p = 4"
    using new_index_file [of 4] by auto
  obtain p0 i nl where p0: "index_at p0 0 (BLeaf i [] nl)" "pages p0 = 1" "free_page p0 = None" "degree_of p0 = 4"
    using first_page [OF p(1-3)] p(4) by auto
  obtain q where q: "index_at q 0 (BLeaf i ?es nl)" "degree_of q = 4"
    using append_leaf [OF p0(1-3), of "i32_n 1" v] p0(4) es(2) unfolding v by (auto simp: entries_fit_def)
  note W = with_index_at [OF w, of 0 q 0 "BLeaf i ?es nl"]
  have cells: "row \<in> set (map user_with ?ns) \<Longrightarrow> \<exists>key. cells row ! 0 = CellInt key" for row
    using user_with_ok(3) by auto
  have "page_size layout_512 div 256 = 2" by (simp add: layout_512_def page_size_def)
  then have len: "length (row_serialize (user_with (i32_n 1))) + 2 * (page_size layout_512 div 256) + 7 \<le> 498 - 30 * length ?ns"
    using user_with_ok(4) [of "i32_n 1"] by simp
  obtain f where "indexed_at layout_512 users_table f 0 0 0 (BLeaf i ?es nl) (with_index q w)"
    "\<And>e. \<not> refused_row layout_512 users_table f (w_store (with_index q w)) (row_serialize (user_with (i32_n 1))) e"
    using W(1) [OF cells q(1)] len by auto
  moreover have "bt_path_open 4 0 (i32_n 1) (BLeaf i ?es nl)" by (simp add: bt_full_def v)
  ultimately show ?thesis
    using W(2-4) [OF cells q(1)] q(2) v
    by (intro exI [of _ f] exI [of _ "with_index q w"] exI [of _ "BLeaf i ?es nl"]) simp
qed

lemma users_two_levels:
  "\<exists>f w tr. indexed_at layout_512 users_table f 0 0 1 tr w \<and> i32_n 1 \<in> fst ` set (bt_entries tr) \<and>
    bt_path_open (degree_of (handle_pager w 0)) 1 (i32_n 1) tr \<and>
    rows_of (schema users_table) (table_map layout_512 (w_store w) (table_id users_table)) =
      mset (map user_with [i32_n 1, i32_n 2, i32_n 3, i32_n 4]) \<and>
    file_count layout_512 (w_store w) (TableStorage (table_id users_table)) + 2 < 2 ^ 31 \<and>
    (\<forall>e. \<not> refused_row layout_512 users_table f (w_store w) (row_serialize (user_with (i32_n 1))) e)"
proof -
  let ?ns = "[i32_n 1, i32_n 2, i32_n 3, i32_n 4]"
  obtain w where w: "stored layout_512 users_table (map user_with ?ns) w" "appendable layout_512 users_table (498 - 30 * length ?ns) w"
    using users_stored [of ?ns] by auto
  let ?es = "index_entries (schema users_table) 0 (table_entries layout_512 (w_store w) (table_id users_table))"
  have "sorted_wrt (<) ?ns" by (simp add: i32_n_simps)
  note es = users_entries [OF w(1) this]
  have "\<forall>key \<in> set ?ns. key \<noteq> i32_min" using i32_n_not_min by simp
  note es = es [OF this]
  obtain v1 v2 v3 v4 where v: "?es = [(i32_n 1, v1), (i32_n 2, v2), (i32_n 3, v3), (i32_n 4, v4)]"
    using es(1) by (auto simp: map_eq_Cons_conv)
  obtain p where p: "index_of p 0 [] {}" "pages p = 0" "free_page p = None" "degree_of p = 4"
    using new_index_file [of 4] by auto
  obtain q tr where q: "index_at q 1 tr" "degree_of q = 4" "bt_entries tr = ?es" "bt_path_open 4 1 (i32_n 1) tr"
    using two_levels [OF p es(2) [unfolded v]] v by auto
  note W = with_index_at [OF w, of 0 q 1 tr]
  have cells: "row \<in> set (map user_with ?ns) \<Longrightarrow> \<exists>key. cells row ! 0 = CellInt key" for row
    using user_with_ok(3) by auto
  have "page_size layout_512 div 256 = 2" by (simp add: layout_512_def page_size_def)
  then have len: "length (row_serialize (user_with (i32_n 1))) + 2 * (page_size layout_512 div 256) + 7 \<le> 498 - 30 * length ?ns"
    using user_with_ok(4) [of "i32_n 1"] by simp
  obtain f where "indexed_at layout_512 users_table f 0 0 1 tr (with_index q w)"
    "\<And>e. \<not> refused_row layout_512 users_table f (w_store (with_index q w)) (row_serialize (user_with (i32_n 1))) e"
    using W(1) [OF cells q(1,3)] len by blast
  moreover have "i32_n 1 \<in> fst ` set (bt_entries tr)" by (simp add: q(3) v)
  ultimately show ?thesis
    using W(2-4) [OF cells q(1,3)] q(2,4)
    by (intro exI [of _ f] exI [of _ "with_index q w"] exI [of _ tr]) (simp only:, simp)
qed

text \<open>
  A second user 1 is refused by the index of one page; with four users in an index of two levels it
  is stored, and the lookup finds only the first.
\<close>

theorem indexed_duplicate_witness:
  "(\<exists>w w'. ta_insert file_store plain_env (indexed_access users_table layout_512 (i32_of_int 5) 0) (user_with (i32_n 1)) w =
      (Inl (Err (UpdateRowsError (IndexUpdate (BTreeNodeOperation TryInsertDuplicate)))), w') \<and>
    rows_of (schema users_table) (table_map layout_512 (w_store w') (table_id users_table)) = {#user_with (i32_n 1)#}) \<and>
   (\<exists>w w' q rs w2. ta_insert file_store plain_env (indexed_access users_table layout_512 (i32_of_int 5) 0) (user_with (i32_n 1)) w = (Inr (), w') \<and>
    ta_find file_store plain_env (indexed_access users_table layout_512 (i32_of_int 5) 0) (str_bytes '' id '') (CellInt (i32_n 1)) w' = (Inr q, w2) \<and>
    query_rows q (w_store w2) = Inr rs \<and> map snd rs = [user_with (i32_n 1)] \<and>
    rows_of (schema users_table) (table_map layout_512 (w_store w') (table_id users_table)) =
      mset (map user_with [i32_n 1, i32_n 1, i32_n 2, i32_n 3, i32_n 4]))"
proof
  have env: "\<forall>n. hash_order_ok (env_order plain_env n)" "0 < env_fuel plain_env" "1 < env_fuel plain_env"
    using plain_order by (simp_all add: plain_env_def)
  have col: "find_column_for_query_by_cell (schema users_table) (str_bytes '' id '') (CellInt (i32_n 1)) = Inr 0"
    by code_simp
  note duplicate = indexed_duplicate [OF _ users_indexed _ user_with_ok(1-3) env(1) _ _ _ col]
  obtain f w tr where w: "indexed_at layout_512 users_table f 0 0 0 tr w" "i32_n 1 \<in> fst ` set (bt_entries tr)"
    "bt_path_open (degree_of (handle_pager w 0)) 0 (i32_n 1) tr"
    "rows_of (schema users_table) (table_map layout_512 (w_store w) (table_id users_table)) = {#user_with (i32_n 1)#}"
    "file_count layout_512 (w_store w) (TableStorage (table_id users_table)) + 2 < 2 ^ 31"
    "\<forall>e. \<not> refused_row layout_512 users_table f (w_store w) (row_serialize (user_with (i32_n 1))) e"
    using users_one_page by blast
  then have "\<not> (\<exists>e. refused_row layout_512 users_table f (w_store w) (row_serialize (user_with (i32_n 1))) e)" by blast
  from duplicate [OF w(1,5,2,3) env(2), unfolded if_not_P [OF this] if_P [OF refl] w(4)]
  show "\<exists>w w'. ta_insert file_store plain_env (indexed_access users_table layout_512 (i32_of_int 5) 0) (user_with (i32_n 1)) w =
      (Inl (Err (UpdateRowsError (IndexUpdate (BTreeNodeOperation TryInsertDuplicate)))), w') \<and>
    rows_of (schema users_table) (table_map layout_512 (w_store w') (table_id users_table)) = {#user_with (i32_n 1)#}"
    by blast
  obtain f w tr where w: "indexed_at layout_512 users_table f 0 0 1 tr w" "i32_n 1 \<in> fst ` set (bt_entries tr)"
    "bt_path_open (degree_of (handle_pager w 0)) 1 (i32_n 1) tr"
    "rows_of (schema users_table) (table_map layout_512 (w_store w) (table_id users_table)) =
      mset (map user_with [i32_n 1, i32_n 2, i32_n 3, i32_n 4])"
    "file_count layout_512 (w_store w) (TableStorage (table_id users_table)) + 2 < 2 ^ 31"
    "\<forall>e. \<not> refused_row layout_512 users_table f (w_store w) (row_serialize (user_with (i32_n 1))) e"
    using users_two_levels by blast
  then have no: "\<not> (\<exists>e. refused_row layout_512 users_table f (w_store w) (row_serialize (user_with (i32_n 1))) e)" by blast
  from duplicate [OF w(1,5,2,3) env(3), unfolded if_not_P [OF no] if_not_P [OF one_neq_zero] w(4)]
  obtain w' q rs w2 where
    q: "ta_insert file_store plain_env (indexed_access users_table layout_512 (i32_of_int 5) 0) (user_with (i32_n 1)) w = (Inr (), w')"
      "ta_find file_store plain_env (indexed_access users_table layout_512 (i32_of_int 5) 0) (str_bytes '' id '') (CellInt (i32_n 1)) w' = (Inr q, w2)"
      "query_rows q (w_store w2) = Inr rs"
      "mset (map snd rs) = filter_mset (\<lambda>row. cells row ! 0 = CellInt (i32_n 1)) (mset (map user_with [i32_n 1, i32_n 2, i32_n 3, i32_n 4]))"
      "rows_of (schema users_table) (table_map layout_512 (w_store w') (table_id users_table)) =
        add_mset (user_with (i32_n 1)) (mset (map user_with [i32_n 1, i32_n 2, i32_n 3, i32_n 4]))"
    by blast
  have "mset (map snd rs) = {#user_with (i32_n 1)#}"
    unfolding q(4) by (simp add: user_with_ok(3) i32_n_simps)
  then have "map snd rs = [user_with (i32_n 1)]" by (simp only: mset_single_iff)
  then show "\<exists>w w' q rs w2. ta_insert file_store plain_env (indexed_access users_table layout_512 (i32_of_int 5) 0) (user_with (i32_n 1)) w = (Inr (), w') \<and>
    ta_find file_store plain_env (indexed_access users_table layout_512 (i32_of_int 5) 0) (str_bytes '' id '') (CellInt (i32_n 1)) w' = (Inr q, w2) \<and>
    query_rows q (w_store w2) = Inr rs \<and> map snd rs = [user_with (i32_n 1)] \<and>
    rows_of (schema users_table) (table_map layout_512 (w_store w') (table_id users_table)) =
      mset (map user_with [i32_n 1, i32_n 1, i32_n 2, i32_n 3, i32_n 4])"
    using q(1-3,5)
    by (intro exI [of _ w] exI [of _ w'] exI [of _ q] exI [of _ rs] exI [of _ w2]) (simp add: add_mset_commute)
qed

end
