(* ===== verification/Table_Legible.thy ===== *)
theory Table_Legible
  imports Table_Append
begin

text \<open>
  Tables that can be read and shortened, whatever lengths their deleted slots have: a scan after a deletion is
  the scan before it without the rows that were found. Unlike \<open>stored\<close>, this says nothing of insertions:
  a slot of another length may be reused for them.
\<close>

definition legible :: "page_data_layout \<Rightarrow> table \<Rightarrow> row list \<Rightarrow> files world \<Rightarrow> bool" where
  "legible l t rows w \<longleftrightarrow> (\<exists>f. rows_inv (\<lambda>_. True) l t f (w_store w)) \<and> columns (schema t) \<noteq> [] \<and> scan l t w = rows"

lemma stored_legible: "stored l t rows w \<Longrightarrow> legible l t rows w"
  using storedD [of l t rows w] rows_inv_weaken unfolding legible_def table_inv_def by metis

lemma legible_find:
  assumes "legible l t rows w" and "find_column_for_query_by_cell (schema t) name c = Inr i"
  shows "\<exists>q rs. ta_find file_store E (ta_new t l) name c w = (Inr q, w) \<and> qr_schema q = schema t \<and>
    query_rows q (w_store w) = Inr rs \<and> map snd rs = filter (\<lambda>row. cells row ! i = c) rows"
proof -
  obtain f where inv: "rows_inv (\<lambda>_. True) l t f (w_store w)" and rows: "rows = scan l t w"
    using assms(1) by (auto simp: legible_def)
  let ?es = "table_entries l (w_store w) (table_id t)"
  from find_entries [OF rows_invD(2) [OF inv] rows_inv_readable(1) [OF inv] assms(2), of E] obtain q rs where
    q: "ta_find file_store E (ta_new t l) name c w = (Inr q, w)" "qr_schema q = schema t" "query_rows q (w_store w) = Inr rs"
    "map row_key rs = filter (\<lambda>(_, row). cells row ! i = c) (map (\<lambda>(k, bs). (k, decode (schema t) bs)) ?es)"
    by blast
  have "map snd rs = map snd (map row_key rs)" by (simp add: row_key_def comp_def)
  also have "\<dots> = filter (\<lambda>row. cells row ! i = c) rows"
    unfolding q(4) rows scan_def by (simp add: filter_map comp_def case_prod_beta)
  finally show ?thesis using q by blast
qed

lemma entries_restricted:
  assumes "table_ok l fs tid" and "table_ok l u tid" and "table_map l u tid = table_map l fs tid |` {k. P (the (table_map l fs tid k))}"
  shows "table_entries l u tid = filter (\<lambda>e. P (snd e)) (table_entries l fs tid)"
proof (rule entries_unique [OF assms(2)])
  show "sorted_wrt (\<lambda>e e'. key_less (fst e) (fst e')) (filter (\<lambda>e. P (snd e)) (table_entries l fs tid))"
    using entries_sorted [OF assms(1)] by (rule sorted_wrt_filter)
  show "(k, bs) \<in> set (filter (\<lambda>e. P (snd e)) (table_entries l fs tid)) \<longleftrightarrow> table_map l u tid k = Some bs" for k bs
    using table_entries_set [OF assms(1), of k bs] by (auto simp: assms(3) restrict_map_def)
qed

lemma legible_delete:
  assumes "legible l t rows w" and order: "\<forall>n. hash_order_ok (env_order E n)"
    and col: "find_column_for_query_by_cell (schema t) name c = Inr i"
    and run: "ta_find file_store E' (ta_new t l) name c w = (Inr q, w1)"
  shows "\<exists>w'. ta_delete file_store E (ta_new t l) q w1 = (Inr (), w') \<and> legible l t (filter (\<lambda>row. cells row ! i \<noteq> c) rows) w'"
proof -
  obtain f where inv: "rows_inv (\<lambda>_. True) l t f (w_store w)" and rows: "rows = scan l t w" and cols: "columns (schema t) \<noteq> []"
    using assms(1) by (auto simp: legible_def)
  obtain u n where u: "ta_delete file_store E (ta_new t l) q w1 = (Inr (), w\<lparr>w_store := u, w_ticks := n\<rparr>)"
    "rows_inv (\<lambda>_. True) l t f u"
    "table_map l u (table_id t) = table_map l (w_store w) (table_id t) |`
       {k. cells (decode (schema t) (the (table_map l (w_store w) (table_id t) k))) ! i \<noteq> c}"
    using deleted_places [OF inv deletable_any order col run] by blast
  note es = entries_restricted [where P = "\<lambda>bs. cells (decode (schema t) bs) ! i \<noteq> c", OF rows_invD(2) [OF inv] rows_invD(2) [OF u(2)] u(3)]
  have "scan l t (w\<lparr>w_store := u, w_ticks := n\<rparr>) = filter (\<lambda>row. cells row ! i \<noteq> c) rows"
    unfolding rows scan_def by (simp add: es filter_map comp_def case_prod_beta)
  then show ?thesis using u(1,2) cols by (auto simp: legible_def)
qed

lemma legible_same_files:
  assumes "legible l t rows w" and "same_files t w w'"
  shows "legible l t rows w'"
proof -
  obtain f where inv: "rows_inv (\<lambda>_. True) l t f (w_store w)" and rows: "rows = scan l t w" and cols: "columns (schema t) \<noteq> []"
    using assms(1) by (auto simp: legible_def)
  note same = same_filesD [OF assms(2)]
  have "scan l t w' = scan l t w"
    unfolding scan_def table_entries_def table_pages_def page_at_def same ..
  moreover have "rows_inv (\<lambda>_. True) l t f (w_store w')"
    using assms(2) by (intro rows_inv_frame(1) [OF inv]) (auto simp: same_files_def simp del: storage_file_path.simps)
  ultimately show ?thesis using rows cols unfolding legible_def by metis
qed

lemmas legible_frame = legible_same_files [OF _ other_table]

end
