(* ===== verification/Catalog_State.thy ===== *)
theory Catalog_State
  imports Table_Legible
begin

text \<open>
  The catalog as the rows of its four tables. What the code reads of a table is a function
  \<open>table_in_catalog\<close> of these rows; a state is well-formed when the catalog tables are
  described by their own rows, the four sequences of the catalog are there, and no id lies above
  the sequence it is drawn from.
\<close>

section \<open>The rows of the catalog\<close>

definition catalog_tables :: "table set" where
  "catalog_tables = {table_instance, col_table_instance, seq_table_instance, idx_table_instance}"

lemma catalog_ids [simp]:
  "table_id table_instance = i32_of_int 1" "table_id col_table_instance = i32_of_int 2"
  "table_id seq_table_instance = i32_of_int 3" "table_id idx_table_instance = i32_of_int 4"
  by (simp_all add: table_instance_def col_table_instance_def seq_table_instance_def idx_table_instance_def)

lemma i32_lit_eq: "- (2 ^ 31) \<le> a \<Longrightarrow> a < 2 ^ 31 \<Longrightarrow> - (2 ^ 31) \<le> b \<Longrightarrow> b < 2 ^ 31 \<Longrightarrow> i32_of_int a = i32_of_int b \<longleftrightarrow> a = b"
  by (simp add: i32_eq_iff)

lemma catalog_id_inj: "t \<in> catalog_tables \<Longrightarrow> t' \<in> catalog_tables \<Longrightarrow> table_id t = table_id t' \<Longrightarrow> t = t'"
  by (auto simp: catalog_tables_def i32_lit_eq)

lemma catalog_id_val: "t \<in> catalog_tables \<Longrightarrow> 1 \<le> i32_val (table_id t) \<and> i32_val (table_id t) \<le> 4"
  by (auto simp: catalog_tables_def)

text \<open>A state of the catalog gives each of its tables the list of its rows.\<close>

type_synonym catalog = "table \<Rightarrow> row list"

definition catalog_at :: "page_data_layout \<Rightarrow> catalog \<Rightarrow> files world \<Rightarrow> bool" where
  "catalog_at l c w \<longleftrightarrow> (\<forall>t \<in> catalog_tables. stored l t (c t) w)"

lemma catalog_atD: "catalog_at l c w \<Longrightarrow> t \<in> catalog_tables \<Longrightarrow> stored l t (c t) w"
  by (simp add: catalog_at_def)

text \<open>A catalog that can at least be read.\<close>

definition catalog_seen :: "page_data_layout \<Rightarrow> catalog \<Rightarrow> files world \<Rightarrow> bool" where
  "catalog_seen l c w \<longleftrightarrow> (\<forall>t \<in> catalog_tables. legible l t (c t) w)"

lemma catalog_at_seen: "catalog_at l c w \<Longrightarrow> catalog_seen l c w"
  by (simp add: catalog_at_def catalog_seen_def stored_legible)

lemma catalog_seenD: "catalog_seen l c w \<Longrightarrow> t \<in> catalog_tables \<Longrightarrow> legible l t (c t) w"
  by (simp add: catalog_seen_def)

lemma catalog_step:
  assumes "catalog_at l c w" and "t \<in> catalog_tables" and "only_table t w w'" and "stored l t rows w'"
  shows "catalog_at l (c(t := rows)) w'"
  unfolding catalog_at_def
proof
  fix t' assume t': "t' \<in> catalog_tables"
  show "stored l t' ((c(t := rows)) t') w'"
  proof (cases "t' = t")
    case False
    then have "table_id t \<noteq> table_id t'" using catalog_id_inj [OF assms(2) t'] by blast
    then show ?thesis
      using False stored_frame(1) [OF catalog_atD [OF assms(1) t'] assms(3)] by simp
  qed (simp add: assms(4))
qed

section \<open>What a catalog says\<close>

definition table_row :: "i32 \<Rightarrow> rstring \<Rightarrow> row" where
  "table_row i name = Row [CellInt i, CellVarchar name]"

definition index_row :: "i32 \<Rightarrow> i32 \<Rightarrow> rstring \<Rightarrow> row" where
  "index_row i tid cids = Row [CellInt i, CellInt tid, CellVarchar cids]"

definition rows_with :: "cell \<Rightarrow> row list \<Rightarrow> row list" where
  "rows_with x rows = filter (\<lambda>row. cells row ! 1 = x) rows"

text \<open>The schema that the rows of \<open>columns\<close> describe for a table id, and the table under a name.\<close>

definition schema_in_catalog :: "catalog \<Rightarrow> i32 \<Rightarrow> (table_schema, database_error) result" where
  "schema_in_catalog c tid =
     and_then (collect_results (map (column_of_row 0 2 3 4) (rows_with (CellInt tid) (c col_table_instance)))) schema_new"

definition table_in_catalog :: "catalog \<Rightarrow> rstring \<Rightarrow> (table, database_error) result" where
  "table_in_catalog c name =
     (case rows_with (CellVarchar name) (c table_instance) of
        [] \<Rightarrow> Inl (Err (TableNotFound name))
      | [r] \<Rightarrow>
          and_then (int_cell r 0) (\<lambda>tid.
          and_then (schema_in_catalog c tid) (\<lambda>s.
          Inr \<lparr>table_id = tid, table_name = name, schema = s\<rparr>))
      | _ \<Rightarrow> Inl (Err CorruptedDatabase))"

lemma catalog_columns:
  "find_column_for_query_by_cell (schema table_instance) (str_bytes ''name'') (CellVarchar name) = Inr 1"
  "find_column_for_query_by_cell (schema col_table_instance) (str_bytes ''t_id'') (CellInt tid) = Inr 1"
  "find_column_for_query_by_cell (schema idx_table_instance) (str_bytes ''t_id'') (CellInt tid) = Inr 1"
proof -
  have "find_column_for_query (schema table_instance) (str_bytes ''name'') = Inr 1"
    "find_column_for_query (schema col_table_instance) (str_bytes ''t_id'') = Inr 1"
    "find_column_for_query (schema idx_table_instance) (str_bytes ''t_id'') = Inr 1"
    "col_type (columns (schema table_instance) ! 1) = TVarchar 512"
    "col_type (columns (schema col_table_instance) ! 1) = TInt"
    "col_type (columns (schema idx_table_instance) ! 1) = TInt"
    by code_simp+
  then show "find_column_for_query_by_cell (schema table_instance) (str_bytes ''name'') (CellVarchar name) = Inr 1"
    "find_column_for_query_by_cell (schema col_table_instance) (str_bytes ''t_id'') (CellInt tid) = Inr 1"
    "find_column_for_query_by_cell (schema idx_table_instance) (str_bytes ''t_id'') (CellInt tid) = Inr 1"
    using find_column_by_cell by (simp_all add: is_of_type_def)
qed

lemma catalog_positions:
  "column_index (schema table_instance) ''id'' = Inr 0" "column_index (schema col_table_instance) ''id'' = Inr 0"
  "column_index (schema col_table_instance) ''name'' = Inr 2" "column_index (schema col_table_instance) ''type'' = Inr 3"
  "column_index (schema col_table_instance) ''length'' = Inr 4"
  "column_index (schema idx_table_instance) ''id'' = Inr 0" "column_index (schema idx_table_instance) ''col_ids'' = Inr 2"
  by code_simp+

text \<open>Reading a table yields what the rows of the catalog say, and changes nothing.\<close>

lemma read_table_seen:
  assumes "catalog_seen (db_layout d) c w"
  shows "read_table file_store E d name w = (table_in_catalog c name, w)"
proof -
  let ?l = "db_layout d"
  have ts: "table_instance \<in> catalog_tables" "col_table_instance \<in> catalog_tables" by (simp_all add: catalog_tables_def)
  obtain q rs where q: "ta_find file_store E (ta_new table_instance ?l) (str_bytes ''name'') (CellVarchar name) w = (Inr q, w)"
    "qr_schema q = schema table_instance" "query_rows q (w_store w) = Inr rs"
    "map snd rs = rows_with (CellVarchar name) (c table_instance)"
    using legible_find [OF catalog_seenD [OF assms ts(1)] catalog_columns(1), of E name] unfolding rows_with_def by blast
  have ids: "table_id_of_rows name 0 rs =
      (case rows_with (CellVarchar name) (c table_instance) of
         [] \<Rightarrow> Inl (Err (TableNotFound name)) | [r] \<Rightarrow> int_cell r 0 | _ \<Rightarrow> Inl (Err CorruptedDatabase))"
    unfolding q(4) [symmetric] by (cases rs; cases "tl rs") (auto simp: table_id_of_rows_def)
  have cols: "\<exists>q rs. ta_find file_store E (ta_new col_table_instance ?l) (str_bytes ''t_id'') (CellInt tid) w = (Inr q, w) \<and>
    qr_schema q = schema col_table_instance \<and> query_rows q (w_store w) = Inr rs \<and>
    map (\<lambda>(_, r). column_of_row 0 2 3 4 r) rs = map (column_of_row 0 2 3 4) (rows_with (CellInt tid) (c col_table_instance))" for tid
  proof -
    obtain q rs where "ta_find file_store E (ta_new col_table_instance ?l) (str_bytes ''t_id'') (CellInt tid) w = (Inr q, w)"
      "qr_schema q = schema col_table_instance" "query_rows q (w_store w) = Inr rs"
      "map snd rs = rows_with (CellInt tid) (c col_table_instance)"
      using legible_find [OF catalog_seenD [OF assms ts(2)] catalog_columns(2), of E tid] unfolding rows_with_def by blast
    moreover have "map (\<lambda>(_, r). column_of_row 0 2 3 4 r) rs = map (column_of_row 0 2 3 4) (map snd rs)"
      by (simp add: case_prod_beta')
    ultimately show ?thesis by auto
  qed
  show ?thesis
  proof (cases "table_id_of_rows name 0 rs")
    case (Inl e)
    then show ?thesis
      using q(1-3) ids by (auto simp: read_table_def Let_def io_bind_def io_map_err_def db_rows_def catalog_positions
          table_in_catalog_def split: list.splits)
  next
    case (Inr tid)
    obtain q2 rs2 where q2: "ta_find file_store E (ta_new col_table_instance ?l) (str_bytes ''t_id'') (CellInt tid) w = (Inr q2, w)"
      "qr_schema q2 = schema col_table_instance" "query_rows q2 (w_store w) = Inr rs2"
      "map (\<lambda>(_, r). column_of_row 0 2 3 4 r) rs2 = map (column_of_row 0 2 3 4) (rows_with (CellInt tid) (c col_table_instance))"
      using cols by blast
    have "table_in_catalog c name = and_then (schema_in_catalog c tid) (\<lambda>s. Inr \<lparr>table_id = tid, table_name = name, schema = s\<rparr>)"
      using Inr ids by (auto simp: table_in_catalog_def split: list.splits)
    then show ?thesis
      using q(1-3) q2 Inr
      by (simp add: read_table_def Let_def io_bind_def io_map_err_def db_rows_def catalog_positions schema_in_catalog_def
          and_then_def split: sum.split)
  qed
qed

lemmas read_table_eq = read_table_seen [OF catalog_at_seen]

section \<open>Well-formed catalogs\<close>

lemma narrow_widened: "(ucast (ucast x :: 32 word) :: 16 word) = x"
  by (rule bit_word_eqI) (simp add: bit_simps)

lemma column_of_row_back [simp]: "column_of_row 0 2 3 4 (column_row tid col) = Inr col"
  by (cases "col_type col") (simp_all add: column_of_row_def column_row_def int_cell_def varchar_cell_def byte_cell_def
      column_type_of_code_def index_get_def and_then_def i32_of_int_def numeral_2_eq_2 numeral_3_eq_3 narrow_widened)

lemma catalog_row_cells [simp]:
  "cells (table_row i n) ! 0 = CellInt i" "cells (table_row i n) ! Suc 0 = CellVarchar n"
  "cells (column_row tid col) ! Suc 0 = CellInt tid" "cells (seq_row i k v) ! Suc 0 = CellInt k"
  "cells (index_row i tid s) ! Suc 0 = CellInt tid"
  by (simp_all add: table_row_def column_row_def seq_row_def index_row_def)

definition sequence_value :: "catalog \<Rightarrow> i32 \<Rightarrow> i32 \<Rightarrow> bool" where
  "sequence_value c k v \<longleftrightarrow> (\<exists>i. rows_with (CellInt k) (c seq_table_instance) = [seq_row i k v])"

text \<open>\<open>nt\<close> and \<open>nc\<close> are the last ids of tables and columns.\<close>

definition catalog_wf :: "catalog \<Rightarrow> i32 \<Rightarrow> i32 \<Rightarrow> bool" where
  "catalog_wf c nt nc \<longleftrightarrow>
     (\<forall>t \<in> catalog_tables. rows_with (CellVarchar (table_name t)) (c table_instance) = [table_row (table_id t) (table_name t)] \<and>
        rows_with (CellInt (table_id t)) (c col_table_instance) = map (column_row (table_id t)) (columns (schema t))) \<and>
     sequence_value c (i32_of_int 10) nt \<and> sequence_value c (i32_of_int 30) nc \<and>
     (\<exists>v. sequence_value c (i32_of_int 80) v) \<and> (\<exists>v. sequence_value c (i32_of_int 100) v) \<and>
     4 \<le> i32_val nt \<and> 120 \<le> i32_val nc \<and> distinct (map (\<lambda>row. cells row ! 0) (c table_instance)) \<and>
     (\<forall>row \<in> set (c table_instance). \<exists>i n. row = table_row i n \<and> i \<le> nt) \<and>
     (\<forall>row \<in> set (c col_table_instance). \<exists>tid col. row = column_row tid col \<and> tid \<le> nt) \<and>
     (\<forall>row \<in> set (c seq_table_instance). \<exists>i k v. row = seq_row i k v \<and> k \<le> nc) \<and>
     (\<forall>row \<in> set (c idx_table_instance). \<exists>i tid s. row = index_row i tid s \<and> i32_of_int 4 < tid \<and> tid \<le> nt)"

lemma catalog_wfD:
  assumes "catalog_wf c nt nc"
  shows "t \<in> catalog_tables \<Longrightarrow> rows_with (CellVarchar (table_name t)) (c table_instance) = [table_row (table_id t) (table_name t)]"
    and "t \<in> catalog_tables \<Longrightarrow>
      rows_with (CellInt (table_id t)) (c col_table_instance) = map (column_row (table_id t)) (columns (schema t))"
    and "sequence_value c (i32_of_int 10) nt" and "sequence_value c (i32_of_int 30) nc"
    and "\<exists>v. sequence_value c (i32_of_int 80) v" and "\<exists>v. sequence_value c (i32_of_int 100) v"
    and "4 \<le> i32_val nt" and "120 \<le> i32_val nc"
    and "row \<in> set (c table_instance) \<Longrightarrow> \<exists>i n. row = table_row i n \<and> i \<le> nt"
    and "rowc \<in> set (c col_table_instance) \<Longrightarrow> \<exists>tid col. rowc = column_row tid col \<and> tid \<le> nt"
    and "rows \<in> set (c seq_table_instance) \<Longrightarrow> \<exists>i k v. rows = seq_row i k v \<and> k \<le> nc"
    and "rowi \<in> set (c idx_table_instance) \<Longrightarrow> \<exists>i tid s. rowi = index_row i tid s \<and> i32_of_int 4 < tid \<and> tid \<le> nt"
    and "distinct (map (\<lambda>row. cells row ! 0) (c table_instance))"
  using assms unfolding catalog_wf_def by blast+

lemma rows_with_inserted: "inserted_row row rows rows' \<Longrightarrow> cells row ! 1 \<noteq> x \<Longrightarrow> rows_with x rows' = rows_with x rows"
  unfolding rows_with_def by (rule inserted_row_other)

lemma inserted_set: "inserted_row row rows rows' \<Longrightarrow> set rows' = insert row (set rows)"
  by (auto simp: inserted_row_def)

lemma catalog_schema:
  assumes "catalog_wf c nt nc" and "t \<in> catalog_tables"
  shows "schema_in_catalog c (table_id t) = Inr (schema t)" and "table_in_catalog c (table_name t) = Inr t"
proof -
  have "columns (schema t) \<noteq> []"
    using assms(2) by (auto simp: catalog_tables_def table_instance_def col_table_instance_def seq_table_instance_def
        idx_table_instance_def)
  then show s: "schema_in_catalog c (table_id t) = Inr (schema t)"
    unfolding schema_in_catalog_def catalog_wfD(2) [OF assms]
    by (simp add: comp_def schema_new_def collect_results_Inr)
  show "table_in_catalog c (table_name t) = Inr t"
    using s by (simp add: table_in_catalog_def catalog_wfD(1) [OF assms] int_cell_def index_get_def table_row_def)
qed

end
