(* ===== verification/Catalog_Steps.thy ===== *)
theory Catalog_Steps
  imports Catalog_State
begin

text \<open>
  The steps that change the catalog: drawing from a sequence and inserting a row keep a catalog
  well-formed, and opening a catalog table finds no index.
\<close>

section \<open>Opening catalog tables\<close>

lemma open_plain_seen:
  assumes "catalog_seen (db_layout d) c w" and "catalog_wf c nt nc" and "2 \<le> n"
    and none: "rows_with (CellInt (table_id t)) (c idx_table_instance) = []"
  shows "open_table file_store E d n t w = (Inr (ta_new t (db_layout d)), w)"
proof -
  obtain m where n: "n = Suc (Suc m)" using assms(3) by (metis Suc_le_D numeral_2_eq_2 Suc_le_mono)
  have idx: "idx_table_instance \<in> catalog_tables" by (simp add: catalog_tables_def)
  have "table_name idx_table_instance = str_bytes ''indexes''" by (simp add: idx_table_instance_def)
  then have read: "read_table file_store E d (str_bytes ''indexes'') w = (Inr idx_table_instance, w)"
    using read_table_seen [OF assms(1)] catalog_schema(2) [OF assms(2) idx] by simp
  obtain q rs where q: "ta_find file_store E (ta_new idx_table_instance (db_layout d)) (str_bytes ''t_id'') (CellInt (table_id t)) w = (Inr q, w)"
    "qr_schema q = schema idx_table_instance" "query_rows q (w_store w) = Inr rs"
    "map snd rs = rows_with (CellInt (table_id t)) (c idx_table_instance)"
    using legible_find [OF catalog_seenD [OF assms(1) idx] catalog_columns(3), of E "table_id t"] unfolding rows_with_def by blast
  have "rs = []" using q(4) none by simp
  then show ?thesis
    using q(1-3) read by (simp add: n io_bind_def io_map_err_def db_rows_def catalog_positions with_indexes_def ta_new_def)
qed

lemma open_catalog_seen:
  assumes "catalog_seen (db_layout d) c w" and "catalog_wf c nt nc" and "t \<in> catalog_tables" and "2 \<le> n"
  shows "open_table file_store E d n t w = (Inr (ta_new t (db_layout d)), w)"
proof (rule open_plain_seen [OF assms(1,2,4)])
  have "cells row ! 1 \<noteq> CellInt (table_id t)" if "row \<in> set (c idx_table_instance)" for row
    using catalog_wfD(12) [OF assms(2) that] catalog_id_val [OF assms(3)] by (auto simp: i32_less_iff)
  then show "rows_with (CellInt (table_id t)) (c idx_table_instance) = []" by (simp add: rows_with_def)
qed

lemmas open_plain_table = open_plain_seen [OF catalog_at_seen]
lemmas open_catalog_table = open_catalog_seen [OF catalog_at_seen]

section \<open>Sequences\<close>

definition advance :: "i32 \<Rightarrow> i32 \<Rightarrow> row \<Rightarrow> row" where
  "advance k n row = (if cells row ! 1 = CellInt k then set_cells [(2, CellInt n)] row else row)"

lemma advance_row [simp]: "advance k n (seq_row i k' v) = seq_row i k' (if k' = k then n else v)"
  by (simp add: advance_def seq_row_set)

lemma stored_next_val:
  assumes "stored l t rows w" and "schema t = schema seq_table_instance"
    and "sequence_column tab column = Inr k" and "\<forall>n. hash_order_ok (env_order E n)"
    and "rows_with (CellInt k) rows = [seq_row i k v]"
    and "next_val file_store E (seq_new (ta_new t l) tab) column w = (r, w')"
  shows "if i32_val v + 1 < 2 ^ 31
    then \<exists>n. r = Inr n \<and> i32_val n = i32_val v + 1 \<and> stored l t (map (advance k n) rows) w' \<and>
      only_table t w w' \<and> pages_used l t w' = pages_used l t w \<and> (\<forall>m. appendable l t m w \<longrightarrow> appendable l t m w')
    else r = Inl Panic \<and> w' = w"
proof -
  note col = seq_column_cells(1) [of k, folded assms(2)]
  obtain q rs where q: "ta_find file_store E (ta_new t l) (str_bytes ''col_id'') (CellInt k) w = (Inr q, w)"
    "qr_schema q = schema t" "query_rows q (w_store w) = Inr rs" "map snd rs = rows_with (CellInt k) rows"
    using stored_find [OF assms(1) col, of E] unfolding rows_with_def by blast
  note run = next_val_run [OF assms(3) q(1) q(2) [unfolded assms(2)] q(3)]
  obtain rr where rs: "rs = [(rr, seq_row i k v)]" using q(4) assms(5) by auto
  show ?thesis
  proof (cases "i32_val v + 1 < 2 ^ 31")
    case False
    then show ?thesis using run assms(6) by (simp add: rs current_value_single i32_checked_def)
  next
    case True
    let ?n = "i32_of_int (i32_val v + 1)"
    have val: "i32_val ?n = i32_val v + 1" using True i32_val_range(1) [of v] by simp
    have nxt: "current_value rs 2 = Inr ?n"
      using True i32_val_range(1) [of v] by (simp add: rs current_value_single i32_checked_def)
    have fixed: "\<forall>(name, d) \<in> set [(str_bytes ''current'', CellInt ?n)]. \<not> is_var_size (column_type_of d)" by simp
    from stored_update [OF assms(1) fixed seq_new_values [of ?n, folded assms(2)] assms(4) col q(1)] obtain u where
      u: "ta_update file_store E (ta_new t l) q [(str_bytes ''current'', CellInt ?n)] w = (Inr (), u)"
        "stored l t (map (advance k ?n) rows) u" "same_slots l (TableStorage (table_id t)) (w_store w) (w_store u)"
      unfolding advance_def by blast
    have only: "only_stores {TableStorage (table_id t)} w u"
      by (rule changesD [OF update_in_place_only [OF fixed] u(1)])
    then have "only_table t w u" by (auto simp: only_stores_def only_files_def)
    moreover have "pages_used l t u = pages_used l t w"
      using u(3) by (simp add: pages_used_def same_slots_def)
    moreover have "\<forall>m. appendable l t m w \<longrightarrow> appendable l t m u"
      using appendable_update [OF _ u(3) only] by blast
    moreover have "r = Inr ?n" "w' = u"
      using run assms(6) u(1) nxt by (simp_all add: io_bind_def io_map_err_def)
    ultimately show ?thesis using True val u(2) by simp
  qed
qed

lemma rows_with_advance:
  assumes "\<And>row. row \<in> set rows \<Longrightarrow> \<exists>i k v. row = seq_row i k v"
  shows "rows_with (CellInt k') (map (advance k n) rows) = map (advance k n) (rows_with (CellInt k') rows)"
proof -
  have same: "cells (advance k n row) ! 1 = cells row ! 1" if "row \<in> set rows" for row
    using assms [OF that] by auto
  then show ?thesis unfolding rows_with_def filter_map comp_def by (metis (mono_tags, lifting) filter_cong)
qed

lemma sequence_advance:
  assumes "\<And>row. row \<in> set (c seq_table_instance) \<Longrightarrow> \<exists>i k v. row = seq_row i k v"
    and "sequence_value c k v"
  shows "sequence_value (c(seq_table_instance := map (advance k' n) (c seq_table_instance))) k (if k = k' then n else v)"
  using assms(2) rows_with_advance [OF assms(1), of "c seq_table_instance" k k' n] by (auto simp: sequence_value_def)

lemma sequence_value_unique: "sequence_value c k v \<Longrightarrow> sequence_value c k v' \<Longrightarrow> v' = v"
  by (auto simp: sequence_value_def seq_row_def)

lemma catalog_distinct [simp]:
  "table_instance \<noteq> col_table_instance" "table_instance \<noteq> seq_table_instance" "table_instance \<noteq> idx_table_instance"
  "col_table_instance \<noteq> table_instance" "col_table_instance \<noteq> seq_table_instance" "col_table_instance \<noteq> idx_table_instance"
  "seq_table_instance \<noteq> table_instance" "seq_table_instance \<noteq> col_table_instance" "seq_table_instance \<noteq> idx_table_instance"
  "idx_table_instance \<noteq> table_instance" "idx_table_instance \<noteq> col_table_instance" "idx_table_instance \<noteq> seq_table_instance"
  by (auto dest: arg_cong [of _ _ table_id] simp: i32_lit_eq)

text \<open>Larger bounds for the ids, and other sequence values.\<close>

lemma catalog_wf_change:
  assumes wf: "catalog_wf c nt nc" and "nt \<le> nt'" and "nc \<le> nc'"
    and "sequence_value c' (i32_of_int 10) nt'" and "sequence_value c' (i32_of_int 30) nc'"
    and "\<exists>v. sequence_value c' (i32_of_int 80) v" and "\<exists>v. sequence_value c' (i32_of_int 100) v"
    and ids: "distinct (map (\<lambda>row. cells row ! 0) (c' table_instance))"
    and own: "\<And>t. t \<in> catalog_tables \<Longrightarrow>
      rows_with (CellVarchar (table_name t)) (c' table_instance) = rows_with (CellVarchar (table_name t)) (c table_instance)"
      "\<And>t. t \<in> catalog_tables \<Longrightarrow>
      rows_with (CellInt (table_id t)) (c' col_table_instance) = rows_with (CellInt (table_id t)) (c col_table_instance)"
    and new: "\<And>row. row \<in> set (c' table_instance) \<Longrightarrow> row \<in> set (c table_instance) \<or> (\<exists>i n. row = table_row i n \<and> i \<le> nt')"
      "\<And>row. row \<in> set (c' col_table_instance) \<Longrightarrow>
        row \<in> set (c col_table_instance) \<or> (\<exists>tid col. row = column_row tid col \<and> tid \<le> nt')"
      "\<And>row. row \<in> set (c' seq_table_instance) \<Longrightarrow>
        row \<in> set (c seq_table_instance) \<or> (\<exists>i k v. row = seq_row i k v \<and> k \<le> nc')"
      "\<And>row. row \<in> set (c' idx_table_instance) \<Longrightarrow>
        row \<in> set (c idx_table_instance) \<or> (\<exists>i tid s. row = index_row i tid s \<and> i32_of_int 4 < tid \<and> tid \<le> nt')"
  shows "catalog_wf c' nt' nc'"
proof -
  have rows: "row \<in> set (c' table_instance) \<Longrightarrow> \<exists>i n. row = table_row i n \<and> i \<le> nt'"
    "row \<in> set (c' col_table_instance) \<Longrightarrow> \<exists>tid col. row = column_row tid col \<and> tid \<le> nt'"
    "row \<in> set (c' seq_table_instance) \<Longrightarrow> \<exists>i k v. row = seq_row i k v \<and> k \<le> nc'"
    "row \<in> set (c' idx_table_instance) \<Longrightarrow> \<exists>i tid s. row = index_row i tid s \<and> i32_of_int 4 < tid \<and> tid \<le> nt'" for row
    using new [of row] catalog_wfD(9-12) [OF wf, of row] assms(2,3) by (meson order_trans)+
  have "4 \<le> i32_val nt'" "120 \<le> i32_val nc'"
    using assms(2,3) catalog_wfD(7,8) [OF wf] unfolding i32_le_iff by linarith+
  then show ?thesis
    unfolding catalog_wf_def
    using assms(4-7) ids own catalog_wfD(1,2) [OF wf] rows by simp
qed

lemma wf_advance:
  assumes wf: "catalog_wf c nt nc" and "sequence_value c k v" and "v \<le> n"
  shows "catalog_wf (c(seq_table_instance := map (advance k n) (c seq_table_instance)))
    (if k = i32_of_int 10 then n else nt) (if k = i32_of_int 30 then n else nc)"
proof (rule catalog_wf_change [OF wf])
  let ?c = "c(seq_table_instance := map (advance k n) (c seq_table_instance))"
  have shape: "\<And>row. row \<in> set (c seq_table_instance) \<Longrightarrow> \<exists>i k v. row = seq_row i k v"
    using catalog_wfD(11) [OF wf] by blast
  note sv = sequence_advance [where c = c and k' = k and n = n, OF shape]
  show "nt \<le> (if k = i32_of_int 10 then n else nt)"
    using assms(3) sequence_value_unique [OF assms(2)] catalog_wfD(3) [OF wf] by auto
  show nc: "nc \<le> (if k = i32_of_int 30 then n else nc)"
    using assms(3) sequence_value_unique [OF assms(2)] catalog_wfD(4) [OF wf] by auto
  show "sequence_value ?c (i32_of_int 10) (if k = i32_of_int 10 then n else nt)"
    using sv [OF _ catalog_wfD(3) [OF wf]] by (auto split: if_splits)
  show "sequence_value ?c (i32_of_int 30) (if k = i32_of_int 30 then n else nc)"
    using sv [OF _ catalog_wfD(4) [OF wf]] by (auto split: if_splits)
  show "\<exists>v. sequence_value ?c (i32_of_int 80) v" "\<exists>v. sequence_value ?c (i32_of_int 100) v"
    using sv catalog_wfD(5,6) [OF wf] by blast+
  show "row \<in> set (c seq_table_instance) \<or> (\<exists>i k' v. row = seq_row i k' v \<and> k' \<le> (if k = i32_of_int 30 then n else nc))"
    if "row \<in> set (?c seq_table_instance)" for row
  proof -
    from that obtain old where old: "old \<in> set (c seq_table_instance)" "row = advance k n old" by auto
    from catalog_wfD(11) [OF wf old(1)] obtain i k' v where k': "old = seq_row i k' v" "k' \<le> nc" by blast
    then have "row = seq_row i k' (if k' = k then n else v)" using old(2) by simp
    then show ?thesis using order_trans [OF k'(2) nc] by blast
  qed
qed (simp_all add: catalog_wfD(13) [OF wf])

section \<open>Insertions\<close>

text \<open>The files of the catalog.\<close>

definition catalog_storages :: "page_storage set" where
  "catalog_storages = TableStorage ` table_id ` catalog_tables \<union> fsm_access ` catalog_tables"

lemma only_catalog: "only_table t w w' \<Longrightarrow> t \<in> catalog_tables \<Longrightarrow> only_stores catalog_storages w w'"
  unfolding only_stores_def only_files_def catalog_storages_def by (auto simp del: storage_file_path.simps)

definition catalog_room :: "page_data_layout \<Rightarrow> nat \<Rightarrow> files world \<Rightarrow> bool" where
  "catalog_room l m w \<longleftrightarrow> (\<forall>t \<in> catalog_tables. pages_used l t w + m + 2 < 2 ^ 31)"

lemma catalog_room_mono: "catalog_room l m w \<Longrightarrow> m' \<le> m \<Longrightarrow> catalog_room l m' w"
  by (fastforce simp: catalog_room_def)

lemma catalog_room_same:
  assumes "catalog_room l m w" and "catalog_at l c w" and "t \<in> catalog_tables" and "only_table t w w'"
    and "pages_used l t w' \<le> pages_used l t w + k" and "k \<le> m"
  shows "catalog_room l (m - k) w'"
  unfolding catalog_room_def
proof
  fix t' assume t': "t' \<in> catalog_tables"
  have "pages_used l t' w' \<le> pages_used l t' w + k"
  proof (cases "t' = t")
    case False
    then have "table_id t \<noteq> table_id t'" using catalog_id_inj [OF assms(3) t'] by blast
    then show ?thesis using stored_frame(2) [OF catalog_atD [OF assms(2) t'] assms(4)] by simp
  qed (simp add: assms(5))
  then show "pages_used l t' w' + (m - k) + 2 < 2 ^ 31"
    using assms(1,6) t' by (fastforce simp: catalog_room_def)
qed

lemma catalog_insert:
  assumes "catalog_at l c w" and "t \<in> catalog_tables" and "catalog_room l (Suc m) w" and "row_strings_ok row"
    and "ta_insert file_store E (ta_new t l) row w = (r, w')"
  shows "catalog_room l m w'" and "r = Inl e \<Longrightarrow> catalog_at l c w'"
    and "r = Inr () \<Longrightarrow> \<exists>rows. row_fits row (schema t) \<and> inserted_row row (c t) rows \<and> catalog_at l (c(t := rows)) w'"
proof -
  note st = catalog_atD [OF assms(1,2)]
  have "pages_used l t w + 2 < 2 ^ 31" using assms(2,3) by (fastforce simp: catalog_room_def)
  note ins = stored_insert [OF st this assms(4,5)]
  have only: "only_table t w w'" by (rule changesD [OF insert_only assms(5)])
  show "catalog_room l m w'"
    using catalog_room_same [OF assms(3,1,2) only ins(1)] by simp
  show "r = Inl e \<Longrightarrow> catalog_at l c w'"
    using catalog_step [OF assms(1,2) only, of "c t"] ins(2) by simp
  show "r = Inr () \<Longrightarrow> \<exists>rows. row_fits row (schema t) \<and> inserted_row row (c t) rows \<and> catalog_at l (c(t := rows)) w'"
    using catalog_step [OF assms(1,2) only] ins(2) by auto
qed

text \<open>Rows that may be inserted into a well-formed catalog.\<close>

definition catalog_row :: "catalog \<Rightarrow> i32 \<Rightarrow> i32 \<Rightarrow> table \<Rightarrow> row \<Rightarrow> bool" where
  "catalog_row c nt nc t row \<longleftrightarrow>
     t = table_instance \<and> (\<exists>i n. row = table_row i n \<and> i \<le> nt \<and> rows_with (CellVarchar n) (c table_instance) = [] \<and>
       (\<forall>row \<in> set (c table_instance). cells row ! 0 \<noteq> CellInt i)) \<or>
     t = col_table_instance \<and> (\<exists>tid col. row = column_row tid col \<and> i32_of_int 4 < tid \<and> tid \<le> nt) \<or>
     t = seq_table_instance \<and> (\<exists>i k v. row = seq_row i k v \<and> 120 < i32_val k \<and> k \<le> nc) \<or>
     t = idx_table_instance \<and> (\<exists>i tid s. row = index_row i tid s \<and> i32_of_int 4 < tid \<and> tid \<le> nt)"

lemma wf_insert:
  assumes wf: "catalog_wf c nt nc" and row: "catalog_row c nt nc t row" and ins: "inserted_row row (c t) rows"
  shows "catalog_wf (c(t := rows)) nt nc"
proof (rule catalog_wf_change [OF wf order_refl order_refl])
  let ?c = "c(t := rows)"
  have same: "rows_with (CellInt k) (?c seq_table_instance) = rows_with (CellInt k) (c seq_table_instance)"
    if "i32_val k \<le> 120" for k
  proof (cases "t = seq_table_instance")
    case True
    then have "cells row ! 1 \<noteq> CellInt k" using row that by (auto simp: catalog_row_def)
    then show ?thesis using rows_with_inserted [OF ins] True by simp
  qed simp
  have seq: "sequence_value ?c k v \<longleftrightarrow> sequence_value c k v" if "i32_val k \<le> 120" for k v
    using same [OF that] by (simp add: sequence_value_def)
  show "sequence_value ?c (i32_of_int 10) nt" "sequence_value ?c (i32_of_int 30) nc"
    "\<exists>v. sequence_value ?c (i32_of_int 80) v" "\<exists>v. sequence_value ?c (i32_of_int 100) v"
    using catalog_wfD(3-6) [OF wf] by (simp_all add: seq)
  show "distinct (map (\<lambda>row. cells row ! 0) (?c table_instance))"
  proof (cases "t = table_instance")
    case True
    then obtain xs ys where "c t = xs @ ys" "rows = xs @ row # ys" using ins by (auto simp: inserted_row_def)
    moreover have "cells row ! 0 \<notin> (\<lambda>row. cells row ! 0) ` set (c t)" using row True by (auto simp: catalog_row_def)
    ultimately show ?thesis using True catalog_wfD(13) [OF wf] by auto
  qed (simp add: catalog_wfD(13) [OF wf])
  show "rows_with (CellVarchar (table_name u)) (?c table_instance) = rows_with (CellVarchar (table_name u)) (c table_instance)"
    if u: "u \<in> catalog_tables" for u
  proof (cases "t = table_instance")
    case True
    then have "cells row ! 1 \<noteq> CellVarchar (table_name u)"
      using row catalog_wfD(1) [OF wf u] by (auto simp: catalog_row_def)
    then show ?thesis using rows_with_inserted [OF ins] True by simp
  qed simp
  show "rows_with (CellInt (table_id u)) (?c col_table_instance) = rows_with (CellInt (table_id u)) (c col_table_instance)"
    if u: "u \<in> catalog_tables" for u
  proof (cases "t = col_table_instance")
    case True
    then have "cells row ! 1 \<noteq> CellInt (table_id u)"
      using row catalog_id_val [OF u] by (auto simp: catalog_row_def i32_less_iff)
    then show ?thesis using rows_with_inserted [OF ins] True by simp
  qed simp
  have mem: "x \<in> set (?c u) \<Longrightarrow> x \<in> set (c u) \<or> t = u \<and> x = row" for x u
    using inserted_set [OF ins] by (auto split: if_splits)
  show "x \<in> set (?c table_instance) \<Longrightarrow> x \<in> set (c table_instance) \<or> (\<exists>i n. x = table_row i n \<and> i \<le> nt)" for x
    using mem [of x table_instance] row unfolding catalog_row_def by auto
  show "x \<in> set (?c col_table_instance) \<Longrightarrow>
      x \<in> set (c col_table_instance) \<or> (\<exists>tid col. x = column_row tid col \<and> tid \<le> nt)" for x
    using mem [of x col_table_instance] row unfolding catalog_row_def by auto
  show "x \<in> set (?c seq_table_instance) \<Longrightarrow>
      x \<in> set (c seq_table_instance) \<or> (\<exists>i k v. x = seq_row i k v \<and> k \<le> nc)" for x
    using mem [of x seq_table_instance] row unfolding catalog_row_def by auto
  show "x \<in> set (?c idx_table_instance) \<Longrightarrow>
      x \<in> set (c idx_table_instance) \<or> (\<exists>i tid s. x = index_row i tid s \<and> i32_of_int 4 < tid \<and> tid \<le> nt)" for x
    using mem [of x idx_table_instance] row unfolding catalog_row_def by auto
qed

end
