(* ===== verification/Database_Created.thy ===== *)
theory Database_Created
  imports Catalog_Steps
begin

text \<open>
  A new database: the four catalog tables hold the rows of the code, in their order, and the catalog
  describes itself. Every step is run through the files; nothing is assumed of the insertions.
\<close>

section \<open>Creating one catalog table\<close>

lemma stored_same_store: "w_store w' = w_store w \<Longrightarrow> stored l t rows w' = stored l t rows w"
  by (simp add: stored_def history_inv_def scan_def)

lemma catalog_at_same_store: "w_store w' = w_store w \<Longrightarrow> catalog_at l c w' = catalog_at l c w"
  by (simp add: catalog_at_def stored_def history_inv_def scan_def)

lemma create_files_only:
  "changes (only_table t) (create_table_files file_store d t)"
proof -
  have "changes (only_files A) (file_create l st)" if "st \<in> A" for l st A
    using that by (auto simp: changes_def only_files_def file_create_def file_init_def file_write_metadata_def
        split: sum.splits if_splits)
  then show ?thesis
    unfolding create_table_files_def by (intro changes_intros) (simp_all add: file_store_def)
qed

lemma created_table:
  assumes fsm: "fsm_of l t f" and cols: "columns (schema t) \<noteq> []" and l: "db_layout d = l"
    and none: "w_store w (storage_file_path (TableStorage (table_id t))) = None"
      "w_store w (storage_file_path (fsm_access t)) = None"
  shows "\<exists>w'. create_table_files file_store d t w = (Inr (), w') \<and> stored l t [] w' \<and>
    appendable l t (free_gap (page_new l)) w' \<and> table_history l t f {#} w'"
proof -
  let ?tab = "TableStorage (table_id t)" and ?a = "fsm_access t"
  note lay = fsm_ofD(1) [OF fsm]
  obtain fs1 where fs1: "file_create l ?tab (w_store w) = (Inr (), fs1)" "file_count l fs1 ?tab = 0"
    "fs1 (storage_file_path ?a) = w_store w (storage_file_path ?a)"
    using file_create_ok [of l "w_store w" ?tab, OF lay none(1)] by (metis tab_not_map(2))
  obtain fs2 where fs2: "file_create l ?a fs1 = (Inr (), fs2)" "fs2 (storage_file_path ?tab) = fs1 (storage_file_path ?tab)"
    using file_create_ok [OF lay, of fs1 ?a] fs1(3) none(2) by (metis tab_not_map(1))
  let ?w = "w\<lparr>w_store := fs2\<rparr>"
  have new: "schema_new (columns (schema t)) = (Inr (schema t) :: (table_schema, unit) result)"
    using cols by (simp add: schema_new_def)
  have "file_create l ?a fs1 = (Inr (), w_store ?w)" using fs2(1) by simp
  from opened [OF fsm new fs1(1) this] have hist: "table_history l t f {#} ?w" .
  have "scan l t ?w = []"
    using scan_mset [OF history_ok [OF hist]] by simp
  then have "stored l t [] ?w" using storedI [OF history_ok [OF hist]] by simp
  moreover have "pages_used l t ?w = 0"
    using fs1(2) fs2(2) by (simp add: pages_used_def file_count_def)
  moreover have "create_table_files file_store d t w = (Inr (), ?w)"
    using fs1(1) fs2(1) by (simp add: create_table_files_def io_bind_def at_store_def file_store_def l)
  ultimately show ?thesis
    using hist by (intro exI [of _ ?w]) (simp add: appendable_def)
qed

definition rows_size :: "row list \<Rightarrow> nat" where
  "rows_size rows = sum_list (map (\<lambda>row. length (row_serialize row) + 7) rows)"

lemma insert_rows_ok:
  assumes "stored l t rows w" and "appendable l t n w"
    and "\<And>row. row \<in> set new \<Longrightarrow> row_fits row (schema t) \<and> row_strings_ok row"
    and "rows_size new + 2 * (page_size l div 256) \<le> n"
  shows "\<exists>w'. insert_rows file_store E (ta_new t l) new w = (Inr (), w') \<and> stored l t (rows @ new) w' \<and>
    appendable l t (n - rows_size new) w'"
  using assms
proof (induction new arbitrary: rows n w)
  case Nil
  then show ?case by (simp add: insert_rows_def rows_size_def)
next
  case (Cons row new)
  let ?len = "length (row_serialize row) + 7"
  have len: "length (row_serialize row) + 2 * (page_size l div 256) + 7 \<le> n"
    using Cons.prems(4) by (simp add: rows_size_def)
  have ok: "row_fits row (schema t)" "row_strings_ok row" using Cons.prems(3) [of row] by simp_all
  from stored_append [OF Cons.prems(1,2) ok len, of E] obtain u where
    u: "ta_insert file_store E (ta_new t l) row w = (Inr (), u)" "stored l t (rows @ [row]) u" "appendable l t (n - ?len) u"
    by blast
  have "rows_size new + 2 * (page_size l div 256) \<le> n - ?len"
    using Cons.prems(4) by (simp add: rows_size_def)
  then have "\<exists>w'. insert_rows file_store E (ta_new t l) new u = (Inr (), w') \<and> stored l t ((rows @ [row]) @ new) w' \<and>
    appendable l t (n - ?len - rows_size new) w'"
    using Cons.prems(3) by (intro Cons.IH [OF u(2,3)]) simp_all
  then show ?case
    using u(1) by (auto simp: insert_rows_def rows_size_def io_bind_def io_map_err_def)
qed

lemma insert_rows_only: "changes (only_table t) (insert_rows file_store E (ta_new t l) rows)"
  unfolding insert_rows_def by (intro changes_intros)

text \<open>A catalog table and its rows.\<close>

lemma created_with_rows:
  assumes "fsm_of l t f" and "columns (schema t) \<noteq> []" and l: "db_layout d = l"
    and "w_store w (storage_file_path (TableStorage (table_id t))) = None"
      "w_store w (storage_file_path (fsm_access t)) = None"
    and "\<And>row. row \<in> set rows \<Longrightarrow> row_fits row (schema t) \<and> row_strings_ok row"
    and "rows_size rows + 2 * (page_size l div 256) \<le> free_gap (page_new l)"
  shows "\<exists>w'. io_bind (create_table_files file_store d t) (\<lambda>_. insert_rows file_store E (ta_new t l) rows) w = (Inr (), w') \<and>
    stored l t rows w' \<and> appendable l t (free_gap (page_new l) - rows_size rows) w' \<and> only_table t w w'"
proof -
  obtain u where u: "create_table_files file_store d t w = (Inr (), u)" "stored l t [] u" "appendable l t (free_gap (page_new l)) u"
    using created_table [OF assms(1-5)] by blast
  obtain w' where w': "insert_rows file_store E (ta_new t l) rows u = (Inr (), w')" "stored l t rows w'"
    "appendable l t (free_gap (page_new l) - rows_size rows) w'"
    using insert_rows_ok [OF u(2,3) assms(6,7), of E] by auto
  have "only_table t w w'"
    using changesD [OF create_files_only u(1)] changesD [OF insert_rows_only w'(1)] by (rule working.trans)
  then show ?thesis using u(1) w' by (auto simp: io_bind_def)
qed

section \<open>The four tables\<close>

definition layout_4096 :: page_data_layout where "layout_4096 = \<lparr>layout_page_size = PAGE_SIZE\<rparr>"

lemma layout_4096: "layout_new PAGE_SIZE = Inr layout_4096" "layout_ok layout_4096" "page_size layout_4096 = 4096"
  "free_gap (page_new layout_4096) = 4082"
proof -
  show new: "layout_new PAGE_SIZE = Inr layout_4096" by code_simp
  show "layout_ok layout_4096" by (rule layout_new_ok [OF new])
  show "page_size layout_4096 = 4096" by (simp add: page_size_def layout_4096_def PAGE_SIZE_def)
  then show "free_gap (page_new layout_4096) = 4082"
    by (simp add: free_gap_def page_new_def slot_size_def page_data_size_def layout_consts)
qed

lemma fsm_4096: "\<exists>f. fsm_of layout_4096 t f"
  using layout_4096(2,3)
  by (simp add: fsm_of_def fsm_new_def node_structure_def Let_def layout_consts page_data_size_def)

definition initial_catalog :: catalog where
  "initial_catalog t =
     (if t = table_instance then table_rows
      else if t = col_table_instance then column_rows
      else if t = seq_table_instance then sequence_rows else [])"

lemma initial_catalog_simps [simp]:
  "initial_catalog table_instance = table_rows" "initial_catalog col_table_instance = column_rows"
  "initial_catalog seq_table_instance = sequence_rows" "initial_catalog idx_table_instance = []"
  by (simp_all add: initial_catalog_def)

lemma initial_rows_ok:
  assumes "t \<in> catalog_tables" and "row \<in> set (initial_catalog t)"
  shows "row_fits row (schema t) \<and> row_strings_ok row"
proof -
  have "list_all (\<lambda>row. row_validate row (schema table_instance) = Inr () \<and> row_strings_ok row) table_rows"
    "list_all (\<lambda>row. row_validate row (schema col_table_instance) = Inr () \<and> row_strings_ok row) column_rows"
    "list_all (\<lambda>row. row_validate row (schema seq_table_instance) = Inr () \<and> row_strings_ok row) sequence_rows"
    by code_simp+
  then show ?thesis
    using assms by (auto simp: catalog_tables_def list_all_iff row_validate_iff)
qed

lemma initial_rows_size: "t \<in> catalog_tables \<Longrightarrow> rows_size (initial_catalog t) \<le> 500"
proof -
  have "rows_size table_rows \<le> 500" "rows_size column_rows \<le> 500" "rows_size sequence_rows \<le> 500" "rows_size [] \<le> 500"
    by code_simp+
  then show "t \<in> catalog_tables \<Longrightarrow> rows_size (initial_catalog t) \<le> 500"
    by (auto simp: catalog_tables_def)
qed

lemma initial_wf: "catalog_wf initial_catalog (i32_of_int 4) (i32_of_int 120)"
proof -
  have names: "rows_with (CellVarchar (table_name t)) table_rows = [table_row (table_id t) (table_name t)]"
    if "t \<in> catalog_tables" for t
  proof -
    have "rows_with (CellVarchar (table_name table_instance)) table_rows = [table_row (table_id table_instance) (table_name table_instance)]"
      "rows_with (CellVarchar (table_name col_table_instance)) table_rows = [table_row (table_id col_table_instance) (table_name col_table_instance)]"
      "rows_with (CellVarchar (table_name seq_table_instance)) table_rows = [table_row (table_id seq_table_instance) (table_name seq_table_instance)]"
      "rows_with (CellVarchar (table_name idx_table_instance)) table_rows = [table_row (table_id idx_table_instance) (table_name idx_table_instance)]"
      by code_simp+
    then show ?thesis using that unfolding catalog_tables_def by blast
  qed
  have cols: "rows_with (CellInt (table_id t)) column_rows = map (column_row (table_id t)) (columns (schema t))"
    if "t \<in> catalog_tables" for t
  proof -
    have "rows_with (CellInt (table_id table_instance)) column_rows = map (column_row (table_id table_instance)) (columns (schema table_instance))"
      "rows_with (CellInt (table_id col_table_instance)) column_rows = map (column_row (table_id col_table_instance)) (columns (schema col_table_instance))"
      "rows_with (CellInt (table_id seq_table_instance)) column_rows = map (column_row (table_id seq_table_instance)) (columns (schema seq_table_instance))"
      "rows_with (CellInt (table_id idx_table_instance)) column_rows = map (column_row (table_id idx_table_instance)) (columns (schema idx_table_instance))"
      by code_simp+
    then show ?thesis using that unfolding catalog_tables_def by blast
  qed
  have seqs: "rows_with (CellInt (i32_of_int 10)) sequence_rows = [seq_row (i32_of_int 1) (i32_of_int 10) (i32_of_int 4)]"
    "rows_with (CellInt (i32_of_int 30)) sequence_rows = [seq_row (i32_of_int 2) (i32_of_int 30) (i32_of_int 120)]"
    "rows_with (CellInt (i32_of_int 80)) sequence_rows = [seq_row (i32_of_int 4) (i32_of_int 80) (i32_of_int 4)]"
    "rows_with (CellInt (i32_of_int 100)) sequence_rows = [seq_row (i32_of_int 3) (i32_of_int 100) (i32_of_int 0)]"
    by code_simp+
  have "\<exists>i n. row = table_row i n \<and> i \<le> i32_of_int 4" if "row \<in> set table_rows" for row
    using that by (auto simp: table_rows_def table_row_def int_lit_def str_lit_def i32_le_iff)
  moreover have "\<exists>tid col. row = column_row tid col \<and> tid \<le> i32_of_int 4" if row: "row \<in> set column_rows" for row
  proof -
    define ts where "ts = [table_instance, col_table_instance, seq_table_instance, idx_table_instance]"
    have eq: "column_rows = concat (map (\<lambda>t. map (column_row (table_id t)) (columns (schema t))) ts)"
      unfolding ts_def by code_simp
    obtain t col where "t \<in> set ts" "row = column_row (table_id t) col"
      using row unfolding eq by auto
    then have "row = column_row (table_id t) col \<and> table_id t \<le> i32_of_int 4"
      using catalog_id_val [of t] by (simp add: i32_le_iff catalog_tables_def ts_def del: catalog_ids)
    then show ?thesis by blast
  qed
  moreover have "\<exists>i k v. row = seq_row i k v \<and> k \<le> i32_of_int 120" if "row \<in> set sequence_rows" for row
    using that by (auto simp: sequence_rows_def seq_row_def int_lit_def i32_le_iff)
  moreover have "sequence_value initial_catalog (i32_of_int 10) (i32_of_int 4)"
    "sequence_value initial_catalog (i32_of_int 30) (i32_of_int 120)"
    "\<exists>v. sequence_value initial_catalog (i32_of_int 80) v" "\<exists>v. sequence_value initial_catalog (i32_of_int 100) v"
    by (auto simp: sequence_value_def seqs)
  moreover have "distinct (map (\<lambda>row. cells row ! 0) table_rows)" by code_simp
  ultimately show ?thesis
    unfolding catalog_wf_def using names cols by simp
qed

lemma initial_sequences:
  assumes "sequence_value initial_catalog k v"
  shows "i32_val v \<le> 120"
proof -
  from assms obtain i where "rows_with (CellInt k) sequence_rows = [seq_row i k v]" by (auto simp: sequence_value_def)
  then have "seq_row i k v \<in> set (rows_with (CellInt k) sequence_rows)" by simp
  then have "seq_row i k v \<in> set sequence_rows" by (simp add: rows_with_def)
  then show ?thesis by (auto simp: sequence_rows_def seq_row_def int_lit_def)
qed

lemma db_init_ok:
  assumes "db_layout d = layout_4096" and "w_store w = Map.empty"
  shows "\<exists>w'. db_init file_store E d w = (Inr (), w') \<and> catalog_at layout_4096 initial_catalog w' \<and>
    (\<forall>t \<in> catalog_tables. appendable layout_4096 t 3500 w')"
proof -
  let ?l = layout_4096
  define ts where "ts = [table_instance, col_table_instance, seq_table_instance, idx_table_instance]"
  define m :: "table \<Rightarrow> (files world, unit, database_error) io" where
    "m t = io_bind (create_table_files file_store d t) (\<lambda>_. insert_rows file_store E (ta_new t ?l) (initial_catalog t))" for t
  have ts: "set ts = catalog_tables" "distinct (map table_id ts)"
    by (auto simp: ts_def catalog_tables_def i32_lit_eq)
  have each: "\<exists>w'. for_each m us w = (Inr (), w') \<and>
      (\<forall>t \<in> set us. stored ?l t (initial_catalog t) w' \<and> appendable ?l t 3500 w') \<and>
      (\<forall>t. table_id t \<notin> table_id ` set us \<longrightarrow> same_files t w w')"
    if "set us \<subseteq> catalog_tables" "distinct (map table_id us)"
      "\<And>t. t \<in> set us \<Longrightarrow> w_store w (storage_file_path (TableStorage (table_id t))) = None \<and>
        w_store w (storage_file_path (fsm_access t)) = None" for us and w :: "files world"
    using that
  proof (induction us arbitrary: w)
    case Nil
    then show ?case by (simp add: same_files_def)
  next
    case (Cons t us)
    have t: "t \<in> catalog_tables" using Cons.prems(1) by simp
    obtain f where f: "fsm_of ?l t f" using fsm_4096 by blast
    have cols: "columns (schema t) \<noteq> []"
      using t by (auto simp: catalog_tables_def table_instance_def col_table_instance_def seq_table_instance_def
          idx_table_instance_def)
    have none: "w_store w (storage_file_path (TableStorage (table_id t))) = None" "w_store w (storage_file_path (fsm_access t)) = None"
      using Cons.prems(3) [of t] by (simp_all only: list.set_intros)
    have size: "rows_size (initial_catalog t) + 2 * (page_size ?l div 256) \<le> free_gap (page_new ?l)"
      using initial_rows_size [OF t] by (simp add: layout_4096)
    obtain u where u: "m t w = (Inr (), u)" "stored ?l t (initial_catalog t) u"
      "appendable ?l t (free_gap (page_new ?l) - rows_size (initial_catalog t)) u" "only_table t w u"
      unfolding m_def using created_with_rows [OF f cols assms(1) none initial_rows_ok [OF t] size, of E] by blast
    have app: "appendable ?l t 3500 u"
      using appendable_less [OF u(3)] initial_rows_size [OF t] by (simp add: layout_4096)
    have apart: "same_files t' w u" if "table_id t' \<noteq> table_id t" for t'
      using that by (intro other_table [OF u(4)]) simp
    have rest: "w_store u (storage_file_path (TableStorage (table_id t'))) = None \<and> w_store u (storage_file_path (fsm_access t')) = None"
      if "t' \<in> set us" for t'
    proof -
      have "table_id t \<notin> table_id ` set us" using Cons.prems(2) by simp
      then have "table_id t' \<noteq> table_id t" using that by (metis imageI)
      then show ?thesis
        using apart [of t'] Cons.prems(3) [of t'] that by (simp add: same_files_def del: storage_file_path.simps)
    qed
    have "set us \<subseteq> catalog_tables" "distinct (map table_id us)" using Cons.prems(1,2) by simp_all
    from Cons.IH [OF this rest] obtain w' where w': "for_each m us u = (Inr (), w')"
      "\<And>t. t \<in> set us \<Longrightarrow> stored ?l t (initial_catalog t) w' \<and> appendable ?l t 3500 w'"
      "\<And>t. table_id t \<notin> table_id ` set us \<Longrightarrow> same_files t u w'"
      by blast
    have "table_id t \<notin> table_id ` set us" using Cons.prems(2) by simp
    then have same: "same_files t u w'" by (rule w'(3))
    have "for_each m (t # us) w = (Inr (), w')" using u(1) w'(1) by (simp add: io_bind_def)
    moreover have "stored ?l t (initial_catalog t) w'" "appendable ?l t 3500 w'"
      using stored_same_files(1) [OF u(2) same] appendable_same_files [OF app same] .
    moreover have "same_files t' w w'" if "table_id t' \<notin> table_id ` set (t # us)" for t'
      using that same_files_trans [OF apart w'(3), of t'] by simp
    ultimately show ?case using w'(2) by auto
  qed
  from each [of ts w] ts assms(2) obtain w' where w': "for_each m ts w = (Inr (), w')"
    "\<forall>t \<in> catalog_tables. stored ?l t (initial_catalog t) w' \<and> appendable ?l t 3500 w'"
    by auto
  have "db_init file_store E d w = for_each m ts w"
    by (simp add: db_init_def init_table_table_def init_column_table_def init_sequences_table_def init_indexes_table_def
        ts_def m_def assms(1) insert_rows_def io_bind_def split: prod.split sum.split)
  then show ?thesis using w' by (auto simp: catalog_at_def)
qed

lemma catalog_lookup_seen:
  assumes "catalog_seen (db_layout d) c w" and "catalog_wf c nt nc" and "t \<in> catalog_tables"
  shows "read_table file_store E d (table_name t) w = (Inr t, w)"
  using read_table_seen [OF assms(1)] catalog_schema(2) [OF assms(2,3)] by simp

lemmas catalog_lookup = catalog_lookup_seen [OF catalog_at_seen]

lemma catalog_scan:
  assumes "catalog_at l c w" and "t \<in> catalog_tables"
  shows "\<exists>q rs. find_all file_store (ta_new t l) w = (Inr q, w) \<and> query_rows q (w_store w) = Inr rs \<and> map snd rs = c t"
proof -
  obtain f where inv: "table_inv l t f (w_store w)" and rows: "c t = scan l t w"
    using catalog_atD [OF assms] by (rule storedD)
  obtain q rs where q: "find_all file_store (ta_new t l) w = (Inr q, w)" "query_rows q (w_store w) = Inr rs"
    "map row_key rs = map (\<lambda>(k, bs). (k, decode (schema t) bs)) (table_entries l (w_store w) (table_id t))"
    using find_all_entries [OF table_invD(2) [OF inv] table_inv_readable(1) [OF inv]] by blast
  have "map snd rs = map snd (map row_key rs)" by (simp add: row_key_def comp_def)
  also have "\<dots> = c t" unfolding q(3) rows scan_def by (simp add: case_prod_beta)
  finally show ?thesis using q(1,2) by blast
qed

lemma db_init_only: "changes (only_stores catalog_storages) (db_init file_store E d)"
proof -
  have one: "changes (only_stores catalog_storages) m"
    if "changes (only_table t) m" "t \<in> catalog_tables" for m :: "(files world, unit, database_error) io" and t
    using changes_mono [OF that(1)] only_catalog [OF _ that(2)] by blast
  have "changes (only_stores catalog_storages) (create_table_files file_store d t)"
    "changes (only_stores catalog_storages) (insert_rows file_store E (ta_new t (db_layout d)) rows)" if "t \<in> catalog_tables" for t rows
    using one [OF create_files_only that] one [OF insert_rows_only that] .
  then show ?thesis
    unfolding db_init_def init_table_table_def init_column_table_def init_sequences_table_def init_indexes_table_def
    by (intro working.bind) (simp_all add: catalog_tables_def)
qed

lemma new_database:
  assumes "is_safe_dir_name name" and "wd name = None"
  shows "\<exists>d w. database_new E name wd = (Inr d, wd(name \<mapsto> Directory (w_store w))) \<and> db_name d = name \<and>
    db_layout d = layout_4096 \<and> catalog_at (db_layout d) initial_catalog w \<and>
    (\<forall>t \<in> catalog_tables. appendable (db_layout d) t 3500 w) \<and>
    (\<forall>st. st \<notin> catalog_storages \<longrightarrow> w_store w (storage_file_path st) = None)"
proof -
  let ?d = "\<lparr>db_name = name, db_layout = layout_4096\<rparr>"
  obtain w0 where w0: "db_init file_store E ?d \<lparr>w_store = Map.empty, w_handles = [], w_ticks = 0\<rparr> = (Inr (), w0)"
    "catalog_at layout_4096 initial_catalog w0" "\<forall>t \<in> catalog_tables. appendable layout_4096 t 3500 w0"
    using db_init_ok [of ?d "\<lparr>w_store = Map.empty, w_handles = [], w_ticks = 0\<rparr>" E] by auto
  have "database_new E name wd = (Inr ?d, wd(name \<mapsto> Directory (w_store w0)))"
    using assms w0(1) layout_4096(1) by (simp add: database_new_def Let_def file_store_new_def new_with_store_def)
  moreover have "w_store w0 (storage_file_path st) = None" if "st \<notin> catalog_storages" for st
    using only_storesD [OF changesD [OF db_init_only w0(1)] that] by simp
  ultimately show ?thesis using w0(2,3) by (intro exI [of _ ?d] exI [of _ w0]) (simp del: storage_file_path.simps)
qed

section \<open>Properties\<close>

text \<open>
  C9. Opening a database under a new, safe name succeeds and creates its directory. In the new
  database every catalog table holds exactly the rows of the code in their order, every catalog table is
  found under its name with the schema that the code has for it, any other name is reported as not found, and
  a table access for a catalog table is given without an index.
\<close>

theorem database_created:
  assumes "is_safe_dir_name name" and "wd name = None"
  shows "\<exists>d fs. database_new E name wd = (Inr d, wd(name \<mapsto> Directory fs)) \<and> db_name d = name \<and>
    (\<forall>w E. w_store w = fs \<longrightarrow>
      (\<forall>t \<in> catalog_tables.
         (\<exists>q rs. find_all file_store (ta_new t (db_layout d)) w = (Inr q, w) \<and> query_rows q fs = Inr rs \<and>
            map snd rs = initial_catalog t) \<and>
         read_table file_store E d (table_name t) w = (Inr t, w) \<and>
         (\<forall>n. open_table file_store E d (n + 2) t w = (Inr (ta_new t (db_layout d)), w))) \<and>
      (\<forall>other. other \<notin> table_name ` catalog_tables \<longrightarrow>
         read_table file_store E d other w = (Inl (Err (TableNotFound other)), w)))"
proof -
  obtain d w0 where d: "database_new E name wd = (Inr d, wd(name \<mapsto> Directory (w_store w0)))" "db_name d = name"
    "catalog_at (db_layout d) initial_catalog w0"
    using new_database [of name wd E, OF assms] by blast
  have other: "rows_with (CellVarchar other) table_rows = []" if "other \<notin> table_name ` catalog_tables" for other
    using that by (auto simp: rows_with_def table_rows_def str_lit_def catalog_tables_def table_instance_def
        col_table_instance_def seq_table_instance_def idx_table_instance_def)
  have at: "catalog_at (db_layout d) initial_catalog w" if "w_store w = w_store w0" for w
    using d(3) catalog_at_same_store [OF that] by simp
  have "\<exists>q rs. find_all file_store (ta_new t (db_layout d)) w = (Inr q, w) \<and> query_rows q (w_store w0) = Inr rs \<and>
      map snd rs = initial_catalog t"
    if "w_store w = w_store w0" "t \<in> catalog_tables" for w t
    using catalog_scan [OF at [OF that(1)] that(2)] that(1) by simp
  moreover have "open_table file_store E d (n + 2) t w = (Inr (ta_new t (db_layout d)), w)"
    if "w_store w = w_store w0" "t \<in> catalog_tables" for w t n E
    by (rule open_catalog_table [OF at [OF that(1)] initial_wf that(2)]) simp
  moreover have "read_table file_store E d n w = (Inl (Err (TableNotFound n)), w)"
    if "w_store w = w_store w0" "n \<notin> table_name ` catalog_tables" for w n E
    using read_table_eq [OF at [OF that(1)], of E n] other [OF that(2)] by (simp add: table_in_catalog_def)
  moreover note catalog_lookup [OF at initial_wf]
  ultimately show ?thesis
    using d(1,2) by (intro exI [of _ d] exI [of _ "w_store w0"] conjI allI impI ballI) simp_all
qed

theorem database_created_witness:
  "\<exists>d fs. database_new plain_env (str_bytes ''shop'') Map.empty = (Inr d, [str_bytes ''shop'' \<mapsto> Directory fs]) \<and>
     read_table file_store plain_env d (str_bytes ''indexes'') \<lparr>w_store = fs, w_handles = [], w_ticks = 0\<rparr> =
       (Inr idx_table_instance, \<lparr>w_store = fs, w_handles = [], w_ticks = 0\<rparr>)"
proof -
  have safe: "is_safe_dir_name (str_bytes ''shop'')" by code_simp
  have t: "idx_table_instance \<in> catalog_tables" and name: "table_name idx_table_instance = str_bytes ''indexes''"
    by (simp_all add: catalog_tables_def idx_table_instance_def)
  from database_created [OF safe, of Map.empty plain_env] obtain d fs where
    d: "database_new plain_env (str_bytes ''shop'') Map.empty = (Inr d, [str_bytes ''shop'' \<mapsto> Directory fs])"
    and found: "\<And>w E. w_store w = fs \<Longrightarrow> \<forall>t \<in> catalog_tables. read_table file_store E d (table_name t) w = (Inr t, w)"
    by fastforce
  show ?thesis
    using d bspec [OF found [of "\<lparr>w_store = fs, w_handles = [], w_ticks = 0\<rparr>" plain_env] t] unfolding name by auto
qed

end
