(* ===== verification/Catalog_Props.thy ===== *)
theory Catalog_Props
  imports Database_Created
begin

text \<open>
  When the recursion of \<open>table_access\<close> ends.
\<close>

section \<open>The recursion of the lookup of indexes\<close>

lemma open_table_step:
  assumes "table_id t \<noteq> i32_of_int 4" and "read_table S E d (str_bytes ''indexes'') w = (Inr i, w)"
    and "open_table S E d n i w = (Inl e, w)"
  shows "open_table S E d (Suc n) t w = (Inl e, w)"
  using assms by (simp add: io_bind_def)

text \<open>
  C17. \<open>table_access\<close> returns at once for the table with id 4. For every other table it looks up the table
  \<open>indexes\<close>: if that fails it returns the error; if the catalog has it under id 4 the recursion ends
  after one more call, with an answer that no greater depth changes; and under any other id the
  recursion never ends.
\<close>

theorem open_table_terminates:
  "(table_id t = i32_of_int 4 \<longrightarrow> (\<forall>n. open_table S E d (Suc n) t w = (Inr (ta_new t (db_layout d)), w))) \<and>
   (table_id t \<noteq> i32_of_int 4 \<longrightarrow>
     (case read_table S E d (str_bytes ''indexes'') w of
        (Inl e, w') \<Rightarrow> w' = w \<and> (\<forall>n. open_table S E d (Suc n) t w = (Inl e, w))
      | (Inr i, w') \<Rightarrow> w' = w \<and>
          (if table_id i = i32_of_int 4
           then \<forall>n. open_table S E d (Suc (Suc n)) t w = open_table S E d 2 t w
           else \<forall>n. open_table S E d n t w = (Inl Panic, w))))"
proof (intro conjI impI)
  assume "table_id t = i32_of_int 4"
  then show "\<forall>n. open_table S E d (Suc n) t w = (Inr (ta_new t (db_layout d)), w)" by simp
next
  assume t: "table_id t \<noteq> i32_of_int 4"
  obtain r w' where run: "read_table S E d (str_bytes ''indexes'') w = (r, w')" by force
  then have same: "w' = w" using changesD [OF reads_table] by metis
  have ends: "open_table S E d (Suc (Suc n)) t w = open_table S E d 2 t w"
    if "r = Inr i" "table_id i = i32_of_int 4" for i n
    using t run same that by (simp add: numeral_2_eq_2 io_bind_def)
  have loops: "open_table S E d n t w = (Inl Panic, w)" if i: "r = Inr i" "table_id i \<noteq> i32_of_int 4" for i n
  proof -
    have at: "read_table S E d (str_bytes ''indexes'') w = (Inr i, w)" using run same i(1) by simp
    have "table_id u \<noteq> i32_of_int 4 \<Longrightarrow> open_table S E d n u w = (Inl Panic, w)" for u
    proof (induction n arbitrary: u)
      case (Suc n)
      then show ?case by (intro open_table_step [OF Suc.prems at]) (rule Suc.IH [OF i(2)])
    qed simp
    then show ?thesis using t by blast
  qed
  show "case read_table S E d (str_bytes ''indexes'') w of
        (Inl e, w') \<Rightarrow> w' = w \<and> (\<forall>n. open_table S E d (Suc n) t w = (Inl e, w))
      | (Inr i, w') \<Rightarrow> w' = w \<and>
          (if table_id i = i32_of_int 4
           then \<forall>n. open_table S E d (Suc (Suc n)) t w = open_table S E d 2 t w
           else \<forall>n. open_table S E d n t w = (Inl Panic, w))"
  proof (cases r)
    case (Inl e)
    then show ?thesis using t run same by (simp add: io_bind_def)
  next
    case (Inr i)
    then show ?thesis using run same ends [OF Inr] loops [OF Inr] by simp
  qed
qed

text \<open>In a new database the table \<open>indexes\<close> has the id 4.\<close>

theorem open_table_terminates_witness:
  "\<exists>d fs. let w = \<lparr>w_store = fs, w_handles = [], w_ticks = 0\<rparr> in
     database_new plain_env (str_bytes ''shop'') Map.empty = (Inr d, [str_bytes ''shop'' \<mapsto> Directory fs]) \<and>
     (\<forall>n. open_table file_store plain_env d (Suc (Suc n)) users_table w = open_table file_store plain_env d 2 users_table w)"
proof -
  have "is_safe_dir_name (str_bytes ''shop'')" by code_simp
  then obtain d w where d: "database_new plain_env (str_bytes ''shop'') Map.empty = (Inr d, [str_bytes ''shop'' \<mapsto> Directory (w_store w)])"
    "catalog_at (db_layout d) initial_catalog w"
    using new_database [of "str_bytes ''shop''" Map.empty plain_env] by auto
  let ?w = "\<lparr>w_store = w_store w, w_handles = [], w_ticks = 0\<rparr>"
  have idx: "idx_table_instance \<in> catalog_tables" by (simp add: catalog_tables_def)
  have "catalog_at (db_layout d) initial_catalog ?w"
    using d(2) catalog_at_same_store [of ?w w] by simp
  then have "read_table file_store plain_env d (table_name idx_table_instance) ?w = (Inr idx_table_instance, ?w)"
    by (rule catalog_lookup [OF _ initial_wf idx])
  then have "read_table file_store plain_env d (str_bytes ''indexes'') ?w = (Inr idx_table_instance, ?w)"
    by (simp add: idx_table_instance_def)
  moreover have "table_id users_table \<noteq> i32_of_int 4" by (simp add: users_table_def i32_lit_eq)
  ultimately have "\<forall>n. open_table file_store plain_env d (Suc (Suc n)) users_table ?w = open_table file_store plain_env d 2 users_table ?w"
    using open_table_terminates [of users_table file_store plain_env d ?w] by simp
  then show ?thesis using d(1) by (auto simp: Let_def)
qed

end
