(* ===== verification/Catalog_Ops.thy ===== *)
theory Catalog_Ops
  imports Catalog_Props
begin

text \<open>
  Drawing an id and inserting a row as steps on catalogs. Every step keeps the catalog well-formed,
  whether it fails or not, and with a large enough budget of bytes and of sequence values it does not fail.
\<close>

section \<open>The invariant and the budget\<close>

text \<open>Every file that is not of the catalog is as it was in a state \<open>w0\<close>.\<close>

definition catalog_inv :: "files world \<Rightarrow> database \<Rightarrow> catalog \<Rightarrow> i32 \<Rightarrow> i32 \<Rightarrow> nat \<Rightarrow> files world \<Rightarrow> bool" where
  "catalog_inv w0 d c nt nc m w \<longleftrightarrow> catalog_at (db_layout d) c w \<and> catalog_wf c nt nc \<and> catalog_room (db_layout d) m w \<and>
     only_stores catalog_storages w0 w"

lemma catalog_invD:
  assumes "catalog_inv w0 d c nt nc m w"
  shows "catalog_at (db_layout d) c w" and "catalog_wf c nt nc" and "catalog_room (db_layout d) m w"
    and "only_stores catalog_storages w0 w"
  using assms by (simp_all add: catalog_inv_def)

lemma catalog_inv_mono: "catalog_inv w0 d c nt nc m w \<Longrightarrow> m' \<le> m \<Longrightarrow> catalog_inv w0 d c nt nc m' w"
  using catalog_room_mono by (auto simp: catalog_inv_def)

text \<open>A catalog table can still take rows of so many bytes, and no sequence of the catalog is near its end.\<close>

definition catalog_sequences :: "i32 set" where
  "catalog_sequences = {i32_of_int 10, i32_of_int 30, i32_of_int 80, i32_of_int 100}"

definition budget :: "database \<Rightarrow> catalog \<Rightarrow> nat \<Rightarrow> files world \<Rightarrow> bool" where
  "budget d c b w \<longleftrightarrow>
     (\<forall>t \<in> catalog_tables. appendable (db_layout d) t (b + 2 * (page_size (db_layout d) div 256)) w) \<and>
     (\<forall>k \<in> catalog_sequences. \<forall>v. sequence_value c k v \<longrightarrow> i32_val v + int b < 2 ^ 31)"

lemma budget_less: "budget d c b w \<Longrightarrow> b' \<le> b \<Longrightarrow> budget d c b' w"
  unfolding budget_def by (fastforce intro: appendable_less)

lemma budget_rest: "budget d c b w \<Longrightarrow> budget d c (b - k) w"
  by (erule budget_less) simp

section \<open>Reading\<close>

lemma from_simps [simp]:
  "m w = (Inr x, w') \<Longrightarrow> io_bind (from_db m) k w = k x w'"
  "m' w = (Inr x, w') \<Longrightarrow> io_bind (from_access m') k' w = k' x w'"
  by (simp_all add: from_db_def from_access_def io_bind_def io_map_err_def)

lemma catalog_names [simp]:
  "table_name table_instance = str_bytes ''tables''" "table_name col_table_instance = str_bytes ''columns''"
  "table_name seq_table_instance = str_bytes ''sequences''" "table_name idx_table_instance = str_bytes ''indexes''"
  by (simp_all add: table_instance_def col_table_instance_def seq_table_instance_def idx_table_instance_def)

lemma catalog_member [simp]:
  "table_instance \<in> catalog_tables" "col_table_instance \<in> catalog_tables"
  "seq_table_instance \<in> catalog_tables" "idx_table_instance \<in> catalog_tables"
  by (simp_all add: catalog_tables_def)

lemma catalog_reads_seen:
  assumes "catalog_seen (db_layout d) c w" and "catalog_wf c nt nc"
  shows "read_table file_store E d (str_bytes ''tables'') w = (Inr table_instance, w)"
    "read_table file_store E d (str_bytes ''columns'') w = (Inr col_table_instance, w)"
    "read_table file_store E d (str_bytes ''sequences'') w = (Inr seq_table_instance, w)"
    "read_table file_store E d (str_bytes ''indexes'') w = (Inr idx_table_instance, w)"
  using catalog_lookup_seen [OF assms, of table_instance] catalog_lookup_seen [OF assms, of col_table_instance]
    catalog_lookup_seen [OF assms, of seq_table_instance] catalog_lookup_seen [OF assms, of idx_table_instance] by simp_all

lemmas catalog_reads = catalog_reads_seen [OF catalog_at_seen]

lemma catalog_seq_access:
  assumes "catalog_at (db_layout d) c w" and "catalog_wf c nt nc"
  shows "seq_access_for_table file_store E d t w = (Inr (seq_new (ta_new seq_table_instance (db_layout d)) t), w)"
  using catalog_reads(3) [OF assms] by (simp add: seq_access_for_table_def io_bind_def)

lemma catalog_access_seen:
  assumes "catalog_seen (db_layout d) c w" and "catalog_wf c nt nc" and "t \<in> catalog_tables" and "2 \<le> env_fuel E"
  shows "db_table_access file_store E d t w = (Inr (ta_new t (db_layout d)), w)"
  unfolding db_table_access_def by (rule open_catalog_seen [OF assms])

lemmas catalog_access = catalog_access_seen [OF catalog_at_seen]

lemma sequence_columns:
  "sequence_column table_instance (str_bytes ''id'') = Inr (i32_of_int 10)"
  "sequence_column col_table_instance (str_bytes ''id'') = Inr (i32_of_int 30)"
  "sequence_column seq_table_instance (str_bytes ''id'') = Inr (i32_of_int 80)"
  "sequence_column idx_table_instance (str_bytes ''id'') = Inr (i32_of_int 100)"
  by code_simp+

section \<open>Drawing from a sequence\<close>

definition advanced :: "catalog \<Rightarrow> i32 \<Rightarrow> i32 \<Rightarrow> catalog" where
  "advanced c k n = c(seq_table_instance := map (advance k n) (c seq_table_instance))"

lemma advanced_other [simp]: "t \<noteq> seq_table_instance \<Longrightarrow> advanced c k n t = c t"
  by (simp add: advanced_def)

lemma advanced_rows:
  assumes "catalog_wf c nt nc" and "k' \<noteq> k"
  shows "rows_with (CellInt k') (advanced c k n seq_table_instance) = rows_with (CellInt k') (c seq_table_instance)"
proof -
  have "\<And>row. row \<in> set (c seq_table_instance) \<Longrightarrow> \<exists>i k v. row = seq_row i k v"
    using catalog_wfD(11) [OF assms(1)] by blast
  then have "rows_with (CellInt k') (advanced c k n seq_table_instance) =
      map (advance k n) (rows_with (CellInt k') (c seq_table_instance))"
    unfolding advanced_def by (simp add: rows_with_advance)
  also have "\<dots> = rows_with (CellInt k') (c seq_table_instance)"
    using assms(2) by (intro map_idI) (auto simp: rows_with_def advance_def)
  finally show ?thesis .
qed

lemma catalog_sequence_exists: "catalog_wf c nt nc \<Longrightarrow> k \<in> catalog_sequences \<Longrightarrow> \<exists>v. sequence_value c k v"
  unfolding catalog_sequences_def using catalog_wfD(3-6) by blast

lemma catalog_draw:
  assumes inv: "catalog_inv w0 d c nt nc m w" and "sequence_column tab column = Inr k"
    and seq: "sequence_value c k v" and "\<forall>n. hash_order_ok (env_order E n)"
    and "next_val file_store E (seq_new (ta_new seq_table_instance (db_layout d)) tab) column w = (r, w')"
  shows "if i32_val v + 1 < 2 ^ 31
    then \<exists>n. r = Inr n \<and> i32_val n = i32_val v + 1 \<and>
      catalog_inv w0 d (advanced c k n) (if k = i32_of_int 10 then n else nt) (if k = i32_of_int 30 then n else nc) m w' \<and>
      (\<forall>b. budget d c (Suc b) w \<longrightarrow> budget d (advanced c k n) b w')
    else r = Inl Panic \<and> w' = w"
proof -
  let ?s = seq_table_instance and ?l = "db_layout d"
  note cat = catalog_invD [OF inv]
  from seq obtain i where "rows_with (CellInt k) (c ?s) = [seq_row i k v]" by (auto simp: sequence_value_def)
  note drawn = stored_next_val [OF catalog_atD [OF cat(1) catalog_member(3)] refl assms(2,4) this assms(5)]
  show ?thesis
  proof (cases "i32_val v + 1 < 2 ^ 31")
    case False
    then show ?thesis using drawn by simp
  next
    case True
    then obtain n where n: "r = Inr n" "i32_val n = i32_val v + 1" "stored ?l ?s (map (advance k n) (c ?s)) w'"
      "only_table ?s w w'" "pages_used ?l ?s w' = pages_used ?l ?s w" "\<And>b. appendable ?l ?s b w \<Longrightarrow> appendable ?l ?s b w'"
      using drawn by auto
    have "catalog_at ?l (advanced c k n) w'"
      unfolding advanced_def by (rule catalog_step [OF cat(1) _ n(4,3)]) simp
    moreover have "catalog_wf (advanced c k n) (if k = i32_of_int 10 then n else nt) (if k = i32_of_int 30 then n else nc)"
      unfolding advanced_def using n(2) by (intro wf_advance [OF cat(2) seq]) (simp add: i32_le_iff)
    moreover have "catalog_room ?l (m - 0) w'"
      using n(5) by (intro catalog_room_same [OF cat(3,1) _ n(4)]) simp_all
    moreover have "budget d (advanced c k n) b w'" if b: "budget d c (Suc b) w" for b
    proof -
      have "appendable ?l t (b + 2 * (page_size ?l div 256)) w'" if t: "t \<in> catalog_tables" for t
      proof -
        have app: "appendable ?l t (b + 2 * (page_size ?l div 256)) w"
          using b t by (auto simp: budget_def intro: appendable_less)
        show ?thesis
        proof (cases "t = ?s")
          case True
          then show ?thesis using app n(6) by simp
        next
          case False
          then have "table_id ?s \<noteq> table_id t" using catalog_id_inj [OF catalog_member(3) t] by metis
          then show ?thesis using appendable_frame [OF app n(4)] by simp
        qed
      qed
      moreover have "i32_val u + int b < 2 ^ 31" if k': "k' \<in> catalog_sequences" "sequence_value (advanced c k n) k' u" for k' u
      proof -
        obtain u' where u': "sequence_value c k' u'" using catalog_sequence_exists [OF cat(2) k'(1)] by blast
        have "\<And>row. row \<in> set (c ?s) \<Longrightarrow> \<exists>i k v. row = seq_row i k v" using catalog_wfD(11) [OF cat(2)] by blast
        from sequence_advance [OF this u', of k n] have "u = (if k' = k then n else u')"
          using sequence_value_unique [OF _ k'(2)] unfolding advanced_def by metis
        moreover have "i32_val u' + int (Suc b) < 2 ^ 31" using b k'(1) u' by (auto simp: budget_def)
        moreover have "k' = k \<Longrightarrow> u' = v" using sequence_value_unique [OF seq] u' by blast
        ultimately show ?thesis using n(2) by (auto split: if_splits)
      qed
      ultimately show ?thesis by (simp add: budget_def)
    qed
    moreover have "only_stores catalog_storages w0 w'"
      using working.trans [OF cat(4) only_catalog [OF n(4)]] by simp
    ultimately show ?thesis using True n(1,2) by (simp add: catalog_inv_def)
  qed
qed

section \<open>Inserting a row\<close>

lemma sequence_value_insert:
  assumes "catalog_row c nt nc t row" and "inserted_row row (c t) rows" and "k \<in> catalog_sequences"
  shows "sequence_value (c(t := rows)) k v = sequence_value c k v"
proof -
  have "t = seq_table_instance \<Longrightarrow> cells row ! 1 \<noteq> CellInt k"
    using assms(1,3) by (auto simp: catalog_row_def catalog_sequences_def)
  then show ?thesis
    using rows_with_inserted [OF assms(2)] by (auto simp: sequence_value_def)
qed

lemma stored_unique: "stored l t rows w \<Longrightarrow> stored l t rows' w \<Longrightarrow> rows' = rows"
  by (auto simp: stored_def)

lemma catalog_insert_step:
  assumes inv: "catalog_inv w0 d c nt nc (Suc m) w" and row: "catalog_row c nt nc t row" and str: "row_strings_ok row"
    and t: "t \<in> catalog_tables" and run: "ta_insert file_store E (ta_new t (db_layout d)) row w = (r, w')"
  shows "(case r of Inl e \<Rightarrow> catalog_inv w0 d c nt nc m w'
      | Inr _ \<Rightarrow> \<exists>rows. inserted_row row (c t) rows \<and> catalog_inv w0 d (c(t := rows)) nt nc m w') \<and>
    (\<forall>b. budget d c b w \<and> row_fits row (schema t) \<and> length (row_serialize row) + 7 \<le> b \<longrightarrow>
      r = Inr () \<and> catalog_inv w0 d (c(t := c t @ [row])) nt nc m w' \<and>
      budget d (c(t := c t @ [row])) (b - (length (row_serialize row) + 7)) w')"
proof -
  let ?l = "db_layout d"
  note cat = catalog_invD [OF inv]
  note ins = catalog_insert [OF cat(1) t cat(3) str run]
  have others: "only_stores catalog_storages w0 w'"
    using working.trans [OF cat(4) only_catalog [OF changesD [OF insert_only run] t]] .
  have kept: "case r of Inl e \<Rightarrow> catalog_inv w0 d c nt nc m w'
      | Inr _ \<Rightarrow> \<exists>rows. inserted_row row (c t) rows \<and> catalog_inv w0 d (c(t := rows)) nt nc m w'"
  proof (cases r)
    case (Inl e)
    then show ?thesis using ins(1,2) cat(2) others by (simp add: catalog_inv_def)
  next
    case (Inr x)
    then obtain rows where "inserted_row row (c t) rows" "catalog_at ?l (c(t := rows)) w'" using ins(3) by auto
    then show ?thesis using Inr ins(1) wf_insert [OF cat(2) row] others by (auto simp: catalog_inv_def)
  qed
  have "r = Inr () \<and> catalog_inv w0 d (c(t := c t @ [row])) nt nc m w' \<and>
      budget d (c(t := c t @ [row])) (b - (length (row_serialize row) + 7)) w'"
    if b: "budget d c b w" "row_fits row (schema t)" "length (row_serialize row) + 7 \<le> b" for b
  proof -
    let ?res = "2 * (page_size ?l div 256)" and ?len = "length (row_serialize row) + 7"
    have "length (row_serialize row) + 2 * (page_size ?l div 256) + 7 \<le> b + ?res" using b(3) by simp
    from stored_append [OF catalog_atD [OF cat(1) t] _ b(2) str this, of E] b(1) t obtain u where
      u: "ta_insert file_store E (ta_new t ?l) row w = (Inr (), u)" "stored ?l t (c t @ [row]) u"
        "appendable ?l t (b + ?res - ?len) u"
      unfolding budget_def by blast
    have r: "r = Inr ()" "w' = u" using u(1) run by simp_all
    have res: "b + ?res - ?len = b - ?len + ?res" using b(3) by simp
    from r kept obtain rows where rows: "inserted_row row (c t) rows" "catalog_inv w0 d (c(t := rows)) nt nc m u" by auto
    have "stored ?l t rows u" using catalog_atD [OF catalog_invD(1) [OF rows(2)] t] by simp
    then have eq: "rows = c t @ [row]" by (rule stored_unique [OF u(2)])
    have only: "only_table t w u" by (rule changesD [OF insert_only u(1)])
    have "appendable ?l t' (b - ?len + ?res) u" if t': "t' \<in> catalog_tables" for t'
    proof (cases "t' = t")
      case True
      then show ?thesis using u(3) res by simp
    next
      case False
      then have "table_id t \<noteq> table_id t'" using catalog_id_inj [OF t t'] by metis
      moreover have "appendable ?l t' (b - ?len + ?res) w"
        using b(1) t' by (auto simp: budget_def intro: appendable_less)
      ultimately show ?thesis using appendable_frame [OF _ only] by simp
    qed
    moreover have "i32_val v + int (b - ?len) < 2 ^ 31"
      if "k \<in> catalog_sequences" "sequence_value (c(t := c t @ [row])) k v" for k v
    proof -
      have "sequence_value c k v" using that sequence_value_insert [OF row rows(1) that(1)] eq by simp
      then have "i32_val v + int b < 2 ^ 31" using b(1) that(1) by (auto simp: budget_def)
      then show ?thesis by linarith
    qed
    ultimately show ?thesis using r rows(2) eq by (simp add: budget_def)
  qed
  then show ?thesis using kept by blast
qed

end
