(* ===== verification/Create_Table.thy ===== *)
theory Create_Table
  imports Catalog_Ops
begin

text \<open>
  Creating a table as a step on catalogs: the effect of \<open>create_sequence\<close>, \<open>create_index\<close>,
  \<open>create_column\<close> and \<open>create_table\<close> on the rows of the four catalog tables, for every
  outcome, and the outcome itself when there is room.
\<close>

section \<open>Decimal texts\<close>

lemma ascii_valid: "(\<And>b. b \<in> set bs \<Longrightarrow> b < 0x80) \<Longrightarrow> utf8_valid bs"
  by (induction bs) auto

lemma dec_nat_length: "0 < k \<Longrightarrow> n < 10 ^ k \<Longrightarrow> length (dec_nat n) \<le> k"
proof (induction n arbitrary: k rule: dec_nat.induct)
  case (1 n)
  show ?case
  proof (cases "n < 10")
    case True
    then show ?thesis using 1(2) by (subst dec_nat.simps) simp
  next
    case False
    then obtain j where k: "k = Suc j" "0 < j" using 1(2,3) by (cases k; cases "k - 1") auto
    then have "length (dec_nat (n div 10)) \<le> j" using False 1 by (intro 1(1)) auto
    then show ?thesis using False k by (subst dec_nat.simps) simp
  qed
qed

lemma i32_text_length: "length (str_bytes (dec_int (i32_val i))) \<le> 11"
proof -
  have "nat (i32_val i) < 10 ^ 10" "nat (- i32_val i) < 10 ^ 10"
    using i32_val_range [of i] by simp_all
  then have "length (dec_nat (nat (i32_val i))) \<le> 10" "length (dec_nat (nat (- i32_val i))) \<le> 10"
    by (simp_all add: dec_nat_length)
  then show ?thesis by (simp add: str_bytes_def dec_int_def)
qed

lemma i32_text_ascii: "b \<in> set (str_bytes (dec_int i)) \<Longrightarrow> b < 0x80 \<and> b \<noteq> 32"
proof -
  assume "b \<in> set (str_bytes (dec_int i))"
  then obtain c where c: "c \<in> set (dec_int i)" "b = of_char c"
    by (auto simp: str_bytes_def)
  have "c = CHR ''-'' \<or> 48 \<le> (of_char c :: nat) \<and> (of_char c :: nat) \<le> 57"
    using c(1) dec_nat_digits by (auto simp: dec_int_def split: if_splits)
  then have c': "(of_char c :: nat) = 45 \<or> 48 \<le> (of_char c :: nat) \<and> (of_char c :: nat) \<le> 57" by auto
  have b: "b = of_nat (of_char c)" by (simp add: c(2) of_nat_of_char)
  have "unat b = of_char c" unfolding b unat_of_nat using c' by auto
  with c' show ?thesis by (auto simp: word_less_nat_alt)
qed

lemma i32_text_valid: "utf8_valid (str_bytes (dec_int i))"
  using i32_text_ascii by (blast intro: ascii_valid)

section \<open>The rows that are inserted\<close>

lemma catalog_rows_ok:
  "row_strings_ok (table_row i n) = utf8_valid n" "row_strings_ok (column_row tid col) = utf8_valid (col_name col)"
  "row_strings_ok (seq_row i k v)" "row_strings_ok (index_row i tid (str_bytes (dec_int j)))"
  by (simp_all add: row_strings_ok_def table_row_def column_row_def seq_row_def index_row_def i32_text_valid)

lemma catalog_rows_fit:
  "row_fits (table_row i n) (schema table_instance) \<longleftrightarrow> length n \<le> 512"
  "row_fits (column_row tid col) (schema col_table_instance) \<longleftrightarrow> length (col_name col) \<le> 512"
  "row_fits (seq_row i k v) (schema seq_table_instance)"
  "row_fits (index_row i tid (str_bytes (dec_int (i32_val j)))) (schema idx_table_instance)"
  using i32_text_length [of j]
  by (simp_all add: row_fits_def table_row_def column_row_def seq_row_def index_row_def table_instance_def
      col_table_instance_def seq_table_instance_def idx_table_instance_def column_new_def)

lemma catalog_rows_length:
  "length (row_serialize (table_row i n)) = 6 + length n"
  "length (row_serialize (column_row tid col)) = 15 + length (col_name col)"
  "length (row_serialize (seq_row i k v)) = 12"
  "length (row_serialize (index_row i tid (str_bytes (dec_int (i32_val j))))) \<le> 21"
  using i32_text_length [of j]
  by (simp_all add: row_serialize_def table_row_def column_row_def seq_row_def index_row_def)

section \<open>Drawing an id for a row\<close>

text \<open>The four places where the code draws an id and inserts a row that carries it.\<close>

definition numbered_insert ::
  "env \<Rightarrow> database \<Rightarrow> table \<Rightarrow> table \<Rightarrow> (i32 \<Rightarrow> row) \<Rightarrow> (files world, i32, create_table_error) io" where
  "numbered_insert E d tab t row =
     io_bind (from_seq (next_val file_store E (seq_new (ta_new seq_table_instance (db_layout d)) tab) (str_bytes ''id''))) (\<lambda>n.
     io_bind (from_access (ta_insert file_store E (ta_new t (db_layout d)) (row n))) (\<lambda>_. io_ret n))"

lemma bind_assoc: "io_bind (io_bind m f) g = io_bind m (\<lambda>x. io_bind (f x) g)"
  by (rule ext) (simp add: io_bind_def split: prod.split sum.split)

lemma bind_ret: "io_bind (io_ret x) f = f x"
  by (rule ext) (simp add: io_bind_def)

lemma numbered_insert_bind:
  "io_bind (from_seq (next_val file_store E (seq_new (ta_new seq_table_instance (db_layout d)) tab) (str_bytes ''id''))) (\<lambda>n.
     io_bind (from_access (ta_insert file_store E (ta_new t (db_layout d)) (row n))) (\<lambda>_. g n)) =
   io_bind (numbered_insert E d tab t row) g"
  unfolding numbered_insert_def bind_assoc bind_ret ..

lemma numbered_insert_unit:
  "io_bind (from_seq (next_val file_store E (seq_new (ta_new seq_table_instance (db_layout d)) tab) (str_bytes ''id''))) (\<lambda>n.
     from_access (ta_insert file_store E (ta_new t (db_layout d)) (row n))) =
   io_bind (numbered_insert E d tab t row) (\<lambda>_. io_ret ())"
proof -
  have "m = io_bind m (\<lambda>_. io_ret ())" for m :: "(files world, unit, create_table_error) io"
    by (rule ext) (simp add: io_bind_def split: prod.split sum.split)
  then show ?thesis unfolding numbered_insert_bind [symmetric] by presburger
qed

definition numbered :: "catalog \<Rightarrow> i32 \<Rightarrow> i32 \<Rightarrow> table \<Rightarrow> row \<Rightarrow> catalog \<Rightarrow> bool" where
  "numbered c k n t row c' \<longleftrightarrow>
     (\<exists>v. sequence_value c k v \<and> i32_val n = i32_val v + 1) \<and>
     (\<exists>rows. inserted_row row (advanced c k n t) rows \<and> c' = (advanced c k n)(t := rows))"

definition drawn :: "catalog \<Rightarrow> i32 \<Rightarrow> catalog \<Rightarrow> bool" where
  "drawn c k c' \<longleftrightarrow> c' = c \<or> (\<exists>n. c' = advanced c k n)"

lemma numbered_insert_effect:
  assumes inv: "catalog_inv w0 d c nt nc (Suc m) w" and k: "sequence_column tab (str_bytes ''id'') = Inr k" "k \<in> catalog_sequences"
    and ord: "\<forall>n. hash_order_ok (env_order E n)" and t: "t \<in> catalog_tables"
    and row: "\<And>v n. sequence_value c k v \<Longrightarrow> i32_val n = i32_val v + 1 \<Longrightarrow>
      catalog_row (advanced c k n) (if k = i32_of_int 10 then n else nt) (if k = i32_of_int 30 then n else nc) t (row n)"
      "\<And>n. row_strings_ok (row n)"
    and run: "numbered_insert E d tab t row w = (r, w')"
  shows "\<exists>c' nt' nc'. catalog_inv w0 d c' nt' nc' m w' \<and> nt \<le> nt' \<and> nc \<le> nc' \<and>
      (k \<noteq> i32_of_int 10 \<longrightarrow> nt' = nt) \<and> (k \<noteq> i32_of_int 30 \<longrightarrow> nc' = nc) \<and>
      (case r of Inl e \<Rightarrow> drawn c k c'
       | Inr n \<Rightarrow> numbered c k n t (row n) c' \<and> (k = i32_of_int 10 \<longrightarrow> nt' = n) \<and> (k = i32_of_int 30 \<longrightarrow> nc' = n)) \<and>
      (\<forall>b size. budget d c b w \<and> size \<le> b \<and> (\<forall>n. row_fits (row n) (schema t) \<and> length (row_serialize (row n)) + 8 \<le> size) \<longrightarrow>
         (\<exists>n. r = Inr n \<and> c' = (advanced c k n)(t := advanced c k n t @ [row n]) \<and> budget d c' (b - size) w'))"
proof -
  obtain v where v: "sequence_value c k v"
    using catalog_sequence_exists [OF catalog_invD(2) [OF inv] k(2)] by blast
  obtain r1 w1 where nv: "next_val file_store E (seq_new (ta_new seq_table_instance (db_layout d)) tab) (str_bytes ''id'') w = (r1, w1)"
    by force
  note draw = catalog_draw [OF inv k(1) v ord nv]
  show ?thesis
  proof (cases "i32_val v + 1 < 2 ^ 31")
    case False
    then have "r = Inl Panic" "w' = w"
      using draw run nv by (simp_all add: numbered_insert_def from_seq_def io_bind_def io_map_err_def)
    moreover have "\<not> (budget d c b w \<and> size \<le> b \<and> (\<forall>n. row_fits (row n) (schema t) \<and> length (row_serialize (row n)) + 8 \<le> size))" for b size
      using False k(2) v by (fastforce simp: budget_def)
    moreover have "catalog_inv w0 d c nt nc m w" using catalog_inv_mono [OF inv] by simp
    ultimately show ?thesis
      by (intro exI [of _ c] exI [of _ nt] exI [of _ nc]) (simp add: drawn_def)
  next
    case True
    let ?nt = "\<lambda>n. if k = i32_of_int 10 then n else nt" and ?nc = "\<lambda>n. if k = i32_of_int 30 then n else nc"
    from True draw obtain n where n: "r1 = Inr n" "i32_val n = i32_val v + 1"
      "catalog_inv w0 d (advanced c k n) (?nt n) (?nc n) (Suc m) w1"
      "\<And>b. budget d c (Suc b) w \<Longrightarrow> budget d (advanced c k n) b w1"
      by auto
    have le: "nt \<le> ?nt n" "nc \<le> ?nc n"
      using n(2) sequence_value_unique [OF v] catalog_wfD(3,4) [OF catalog_invD(2) [OF inv]] by (auto simp: i32_le_iff)
    obtain r2 where ins: "ta_insert file_store E (ta_new t (db_layout d)) (row n) w1 = (r2, w')"
      and r: "r = and_then (map_err (UnknownError \<circ> FromTableAccess) r2) (\<lambda>_. Inr n)"
      using run nv n(1)
      by (auto simp: numbered_insert_def from_seq_def from_access_def io_bind_def io_map_err_def split: prod.splits sum.splits)
    note step = catalog_insert_step [OF n(3) row(1) [OF v n(2)] row(2) t ins]
    have ok: "r2 = Inr () \<Longrightarrow> r = Inr n" by (simp add: r)
    show ?thesis
    proof (cases r2)
      case (Inl e)
      then have "catalog_inv w0 d (advanced c k n) (?nt n) (?nc n) m w'" "drawn c k (advanced c k n)"
        using step by (auto simp: drawn_def)
      moreover have "\<exists>e. r = Inl e" by (cases e) (simp_all add: r Inl)
      moreover have "\<not> (budget d c b w \<and> size \<le> b \<and> (\<forall>n. row_fits (row n) (schema t) \<and> length (row_serialize (row n)) + 8 \<le> size))" for b size
      proof
        assume a: "budget d c b w \<and> size \<le> b \<and> (\<forall>n. row_fits (row n) (schema t) \<and> length (row_serialize (row n)) + 8 \<le> size)"
        then have "length (row_serialize (row n)) + 8 \<le> b" using le_trans by blast
        then have "budget d (advanced c k n) (b - 1) w1" "length (row_serialize (row n)) + 7 \<le> b - 1"
          using a n(4) [of "b - 1"] by (simp_all add: Suc_diff_Suc)
        then show False using step a Inl by blast
      qed
      ultimately show ?thesis
        using le by (intro exI [of _ "advanced c k n"] exI [of _ "?nt n"] exI [of _ "?nc n"]) auto
    next
      case (Inr x)
      with step obtain rows where rows: "inserted_row (row n) (advanced c k n t) rows"
        "catalog_inv w0 d ((advanced c k n)(t := rows)) (?nt n) (?nc n) m w'" by auto
      have num: "numbered c k n t (row n) ((advanced c k n)(t := rows))"
        unfolding numbered_def using v n(2) rows(1) by blast
      have "r = Inr n \<and> rows = advanced c k n t @ [row n] \<and> budget d ((advanced c k n)(t := rows)) (b - size) w'"
        if a: "budget d c b w" "size \<le> b" "\<forall>n. row_fits (row n) (schema t) \<and> length (row_serialize (row n)) + 8 \<le> size" for b size
      proof -
        have len: "length (row_serialize (row n)) + 8 \<le> size" "length (row_serialize (row n)) + 8 \<le> b" using a(2,3) le_trans by blast+
        have "budget d (advanced c k n) (b - 1) w1" "length (row_serialize (row n)) + 7 \<le> b - 1"
          using a(1) len(2) n(4) [of "b - 1"] by (simp_all add: Suc_diff_Suc)
        with step a(3) have s: "catalog_inv w0 d ((advanced c k n)(t := advanced c k n t @ [row n])) (?nt n) (?nc n) m w'"
          "budget d ((advanced c k n)(t := advanced c k n t @ [row n])) (b - 1 - (length (row_serialize (row n)) + 7)) w'" by blast+
        have "rows = advanced c k n t @ [row n]"
          using stored_unique [OF catalog_atD [OF catalog_invD(1) [OF s(1)] t] catalog_atD [OF catalog_invD(1) [OF rows(2)] t]] by simp
        moreover have "b - size \<le> b - 1 - (length (row_serialize (row n)) + 7)" using len by simp
        ultimately show ?thesis using s(2) budget_less ok Inr by simp
      qed
      then show ?thesis
        using le rows(2) num ok Inr
        by (intro exI [of _ "(advanced c k n)(t := rows)"] exI [of _ "?nt n"] exI [of _ "?nc n"]) auto
    qed
  qed
qed

text \<open>What drawing and inserting leave as it was.\<close>

lemma drawn_rows:
  assumes "catalog_wf c nt nc" and "drawn c k c'"
  shows "t \<noteq> seq_table_instance \<Longrightarrow> c' t = c t"
    and "k' \<noteq> k \<Longrightarrow> rows_with (CellInt k') (c' seq_table_instance) = rows_with (CellInt k') (c seq_table_instance)"
  using assms(2) advanced_rows [OF assms(1)] by (auto simp: drawn_def)

lemma numbered_rows:
  assumes "catalog_wf c nt nc" and "numbered c k n t row c'"
  shows "t' \<noteq> t \<Longrightarrow> t' \<noteq> seq_table_instance \<Longrightarrow> c' t' = c t'"
    and "k' \<noteq> k \<Longrightarrow> t = seq_table_instance \<longrightarrow> cells row ! 1 \<noteq> CellInt k' \<Longrightarrow>
      rows_with (CellInt k') (c' seq_table_instance) = rows_with (CellInt k') (c seq_table_instance)"
    and "t \<noteq> seq_table_instance \<Longrightarrow> inserted_row row (c t) (c' t)"
    and "k \<noteq> k' \<Longrightarrow> t = seq_table_instance \<Longrightarrow> cells row ! 1 = CellInt k' \<Longrightarrow>
      inserted_row row (rows_with (CellInt k') (c t)) (rows_with (CellInt k') (c' t))"
proof -
  from assms(2) obtain rows where rows: "inserted_row row (advanced c k n t) rows" "c' = (advanced c k n)(t := rows)"
    by (auto simp: numbered_def)
  note adv = advanced_rows [OF assms(1)]
  show "t' \<noteq> t \<Longrightarrow> t' \<noteq> seq_table_instance \<Longrightarrow> c' t' = c t'" by (simp add: rows(2))
  show "k' \<noteq> k \<Longrightarrow> t = seq_table_instance \<longrightarrow> cells row ! 1 \<noteq> CellInt k' \<Longrightarrow>
      rows_with (CellInt k') (c' seq_table_instance) = rows_with (CellInt k') (c seq_table_instance)"
    using rows_with_inserted [OF rows(1)] adv [of k' k n] by (auto simp: rows(2))
  show "t \<noteq> seq_table_instance \<Longrightarrow> inserted_row row (c t) (c' t)" using rows by simp
  show "k \<noteq> k' \<Longrightarrow> t = seq_table_instance \<Longrightarrow> cells row ! 1 = CellInt k' \<Longrightarrow>
      inserted_row row (rows_with (CellInt k') (c t)) (rows_with (CellInt k') (c' t))"
  proof -
    assume a: "k \<noteq> k'" "t = seq_table_instance" "cells row ! 1 = CellInt k'"
    obtain xs ys where "advanced c k n t = xs @ ys" "rows = xs @ row # ys" using rows(1) by (auto simp: inserted_row_def)
    then have "inserted_row row (rows_with (CellInt k') (advanced c k n t)) (rows_with (CellInt k') rows)"
      using a(3) by (auto simp: inserted_row_def rows_with_def)
    then show ?thesis using adv [of k' k n] a(1,2) by (simp add: rows(2))
  qed
qed

lemma inserted_empty [simp]: "inserted_row row [] rows \<longleftrightarrow> rows = [row]"
  by (auto simp: inserted_row_def)

section \<open>Sequences and indexes of a new column\<close>

lemma catalog_sequence_ids [simp]:
  "i32_of_int 10 \<in> catalog_sequences" "i32_of_int 30 \<in> catalog_sequences"
  "i32_of_int 80 \<in> catalog_sequences" "i32_of_int 100 \<in> catalog_sequences"
  by (simp_all add: catalog_sequences_def)

lemma create_sequence_effect:
  assumes inv: "catalog_inv w0 d c nt nc (Suc m) w" and ord: "\<forall>n. hash_order_ok (env_order E n)" and fuel: "2 \<le> env_fuel E"
    and cid: "120 < i32_val cid" "cid \<le> nc" and run: "create_sequence file_store E d cid w = (r, w')"
  shows "\<exists>c'. catalog_inv w0 d c' nt nc m w' \<and> (\<forall>t. t \<noteq> seq_table_instance \<longrightarrow> c' t = c t) \<and>
      (\<forall>k. k \<noteq> i32_of_int 80 \<and> k \<noteq> cid \<longrightarrow>
         rows_with (CellInt k) (c' seq_table_instance) = rows_with (CellInt k) (c seq_table_instance)) \<and>
      (r = Inr () \<and> rows_with (CellInt cid) (c seq_table_instance) = [] \<longrightarrow> sequence_value c' cid (i32_of_int 0)) \<and>
      (\<forall>b. budget d c b w \<and> 20 \<le> b \<longrightarrow> r = Inr () \<and> budget d c' (b - 20) w')"
proof -
  let ?row = "\<lambda>n. seq_row n cid (i32_of_int 0)" and ?k = "i32_of_int 80"
  note cat = catalog_invD [OF inv]
  obtain r1 where num: "numbered_insert E d seq_table_instance seq_table_instance ?row w = (r1, w')"
    and r: "r = and_then r1 (\<lambda>_. Inr ())"
  proof -
    have row: "Row [CellInt i, CellInt cid, int_lit 0] = ?row i" for i by (simp add: seq_row_def int_lit_def)
    have "create_sequence file_store E d cid w = io_bind (numbered_insert E d seq_table_instance seq_table_instance ?row) (\<lambda>_. io_ret ()) w"
      unfolding create_sequence_def row
      by (simp add: catalog_reads [OF cat(1,2)] catalog_seq_access [OF cat(1,2)] catalog_access [OF cat(1,2) _ fuel] numbered_insert_unit)
    then show thesis
      using run that by (auto simp: io_bind_def split: prod.splits sum.splits)
  qed
  have ne: "cid \<noteq> ?k" using cid(1) by auto
  have "catalog_row (advanced c ?k n) (if ?k = i32_of_int 10 then n else nt) (if ?k = i32_of_int 30 then n else nc) seq_table_instance (?row n)" for n
    using cid by (auto simp: catalog_row_def i32_lit_eq)
  from numbered_insert_effect [OF inv sequence_columns(3) _ ord _ this _ num] obtain c' nt' nc' where
    e: "catalog_inv w0 d c' nt' nc' m w'" "?k \<noteq> i32_of_int 10 \<longrightarrow> nt' = nt" "?k \<noteq> i32_of_int 30 \<longrightarrow> nc' = nc"
      "case r1 of Inl e \<Rightarrow> drawn c ?k c'
       | Inr n \<Rightarrow> numbered c ?k n seq_table_instance (?row n) c' \<and> (?k = i32_of_int 10 \<longrightarrow> nt' = n) \<and> (?k = i32_of_int 30 \<longrightarrow> nc' = n)"
      "\<forall>b size. budget d c b w \<and> size \<le> b \<and> (\<forall>n. row_fits (?row n) (schema seq_table_instance) \<and> length (row_serialize (?row n)) + 8 \<le> size) \<longrightarrow>
         (\<exists>n. r1 = Inr n \<and> c' = (advanced c ?k n)(seq_table_instance := advanced c ?k n seq_table_instance @ [?row n]) \<and> budget d c' (b - size) w')"
    using catalog_sequence_ids(3) catalog_member(3) catalog_rows_ok(3) by blast
  have eff: "catalog_inv w0 d c' nt nc m w'"
      "case r1 of Inl e \<Rightarrow> drawn c ?k c' | Inr n \<Rightarrow> numbered c ?k n seq_table_instance (?row n) c'"
    using e(1-4) by (simp_all add: i32_lit_eq split: sum.splits)
  have same: "t \<noteq> seq_table_instance \<Longrightarrow> c' t = c t"
    "k \<noteq> ?k \<Longrightarrow> k \<noteq> cid \<Longrightarrow> rows_with (CellInt k) (c' seq_table_instance) = rows_with (CellInt k) (c seq_table_instance)" for t k
    using eff(2) drawn_rows [OF cat(2)] numbered_rows(1,2) [OF cat(2)] by (auto split: sum.splits)
  have "sequence_value c' cid (i32_of_int 0)" if ok: "r = Inr ()" and none: "rows_with (CellInt cid) (c seq_table_instance) = []"
  proof -
    obtain n where "r1 = Inr n" using ok by (auto simp: r and_then_Inr_iff)
    then have "numbered c ?k n seq_table_instance (?row n) c'" using eff(2) by simp
    from numbered_rows(4) [OF cat(2) this, of cid] show ?thesis
      using ne none by (auto simp: sequence_value_def)
  qed
  moreover have "r = Inr () \<and> budget d c' (b - 20) w'" if "budget d c b w" "20 \<le> b" for b
    using spec [OF spec [OF e(5), of b], of 20] that by (auto simp: r catalog_rows_fit catalog_rows_length)
  ultimately show ?thesis
    using eff(1) same by blast
qed

lemma create_index_effect:
  assumes inv: "catalog_inv w0 d c nt nc (Suc m) w" and ord: "\<forall>n. hash_order_ok (env_order E n)" and fuel: "2 \<le> env_fuel E"
    and tid: "i32_of_int 4 < tid" "tid \<le> nt" and run: "create_index file_store E d tid cid w = (r, w')"
  shows "\<exists>c'. catalog_inv w0 d c' nt nc m w' \<and>
      (\<forall>t. t \<noteq> seq_table_instance \<and> t \<noteq> idx_table_instance \<longrightarrow> c' t = c t) \<and>
      (\<forall>k. k \<noteq> i32_of_int 100 \<longrightarrow>
         rows_with (CellInt k) (c' seq_table_instance) = rows_with (CellInt k) (c seq_table_instance)) \<and>
      (if r = Inr () then \<exists>n. inserted_row (index_row n tid (str_bytes (dec_int (i32_val cid)))) (c idx_table_instance) (c' idx_table_instance)
       else c' idx_table_instance = c idx_table_instance) \<and>
      (\<forall>b. budget d c b w \<and> 30 \<le> b \<longrightarrow> r = Inr () \<and> budget d c' (b - 30) w')"
proof -
  let ?row = "\<lambda>n. index_row n tid (str_bytes (dec_int (i32_val cid)))" and ?k = "i32_of_int 100"
  note cat = catalog_invD [OF inv]
  obtain r1 where num: "numbered_insert E d idx_table_instance idx_table_instance ?row w = (r1, w')"
    and r: "r = and_then r1 (\<lambda>_. Inr ())"
  proof -
    have row: "Row [CellInt i, CellInt tid, CellVarchar s] = index_row i tid s" for i s by (simp add: index_row_def)
    have "create_index file_store E d tid cid w = io_bind (numbered_insert E d idx_table_instance idx_table_instance ?row) (\<lambda>_. io_ret ()) w"
      unfolding create_index_def row
      by (simp add: catalog_reads [OF cat(1,2)] catalog_seq_access [OF cat(1,2)] catalog_access [OF cat(1,2) _ fuel] numbered_insert_unit)
    then show thesis
      using run that by (auto simp: io_bind_def split: prod.splits sum.splits)
  qed
  have "catalog_row (advanced c ?k n) (if ?k = i32_of_int 10 then n else nt) (if ?k = i32_of_int 30 then n else nc) idx_table_instance (?row n)" for n
    using tid by (auto simp: catalog_row_def i32_lit_eq)
  from numbered_insert_effect [OF inv sequence_columns(4) _ ord _ this _ num] obtain c' nt' nc' where
    e: "catalog_inv w0 d c' nt' nc' m w'" "?k \<noteq> i32_of_int 10 \<longrightarrow> nt' = nt" "?k \<noteq> i32_of_int 30 \<longrightarrow> nc' = nc"
      "case r1 of Inl e \<Rightarrow> drawn c ?k c'
       | Inr n \<Rightarrow> numbered c ?k n idx_table_instance (?row n) c' \<and> (?k = i32_of_int 10 \<longrightarrow> nt' = n) \<and> (?k = i32_of_int 30 \<longrightarrow> nc' = n)"
      "\<forall>b size. budget d c b w \<and> size \<le> b \<and> (\<forall>n. row_fits (?row n) (schema idx_table_instance) \<and> length (row_serialize (?row n)) + 8 \<le> size) \<longrightarrow>
         (\<exists>n. r1 = Inr n \<and> c' = (advanced c ?k n)(idx_table_instance := advanced c ?k n idx_table_instance @ [?row n]) \<and> budget d c' (b - size) w')"
    using catalog_sequence_ids(4) catalog_member(4) catalog_rows_ok(4) by blast
  have eff: "catalog_inv w0 d c' nt nc m w'"
      "case r1 of Inl e \<Rightarrow> drawn c ?k c' | Inr n \<Rightarrow> numbered c ?k n idx_table_instance (?row n) c'"
    using e(1-4) by (simp_all add: i32_lit_eq split: sum.splits)
  have same: "t \<noteq> seq_table_instance \<Longrightarrow> t \<noteq> idx_table_instance \<Longrightarrow> c' t = c t"
    "k \<noteq> ?k \<Longrightarrow> rows_with (CellInt k) (c' seq_table_instance) = rows_with (CellInt k) (c seq_table_instance)" for t k
    using eff(2) drawn_rows [OF cat(2)] numbered_rows(1,2) [OF cat(2)] by (auto split: sum.splits)
  have idx: "if r = Inr () then \<exists>n. inserted_row (?row n) (c idx_table_instance) (c' idx_table_instance)
       else c' idx_table_instance = c idx_table_instance"
  proof (cases r1)
    case (Inl e)
    then have "r \<noteq> Inr ()" by (auto simp: r and_then_Inr_iff)
    then show ?thesis using eff(2) Inl drawn_rows(1) [OF cat(2)] by simp
  next
    case (Inr n)
    then have "r = Inr ()" by (simp add: r)
    then show ?thesis using eff(2) Inr numbered_rows(3) [OF cat(2)] by fastforce
  qed
  have "r = Inr () \<and> budget d c' (b - 30) w'" if "budget d c b w" "30 \<le> b" for b
  proof -
    have "length (row_serialize (?row n)) + 8 \<le> 30" for n
      using catalog_rows_length(4) [of n tid cid] by simp
    then show ?thesis
      using spec [OF spec [OF e(5), of b], of 30] that by (auto simp: r catalog_rows_fit)
  qed
  then show ?thesis
    using eff(1) same idx by blast
qed

section \<open>One column\<close>

definition invalid_command :: "create_column_command \<Rightarrow> bool" where
  "invalid_command cc \<longleftrightarrow> (is_unique cc \<or> has_sequence cc) \<and> cc_type cc \<noteq> TInt"

text \<open>What stays when columns of the table \<open>tid\<close> are created: all that the catalog says of other tables.\<close>

definition untouched :: "i32 \<Rightarrow> i32 \<Rightarrow> catalog \<Rightarrow> catalog \<Rightarrow> bool" where
  "untouched tid nc c c' \<longleftrightarrow> c' table_instance = c table_instance \<and>
     (\<forall>k. k \<noteq> tid \<longrightarrow> rows_with (CellInt k) (c' col_table_instance) = rows_with (CellInt k) (c col_table_instance)) \<and>
     (\<forall>k. k \<noteq> tid \<longrightarrow> rows_with (CellInt k) (c' idx_table_instance) = rows_with (CellInt k) (c idx_table_instance)) \<and>
     (\<forall>k. 120 < i32_val k \<and> k \<le> nc \<longrightarrow>
        rows_with (CellInt k) (c' seq_table_instance) = rows_with (CellInt k) (c seq_table_instance))"

lemma untouched_refl: "untouched tid nc c c"
  by (simp add: untouched_def)

lemma untouched_trans: "untouched tid nc c c' \<Longrightarrow> untouched tid nc' c' c'' \<Longrightarrow> nc \<le> nc' \<Longrightarrow> untouched tid nc c c''"
  unfolding untouched_def by auto

definition column_made :: "i32 \<Rightarrow> i32 \<Rightarrow> create_column_command \<Rightarrow> column \<Rightarrow> catalog \<Rightarrow> catalog \<Rightarrow> bool" where
  "column_made tid nc cc col c c' \<longleftrightarrow> nc < col_id col \<and> col_name col = cc_name cc \<and> col_type col = cc_type cc \<and>
     inserted_row (column_row tid col) (rows_with (CellInt tid) (c col_table_instance)) (rows_with (CellInt tid) (c' col_table_instance)) \<and>
     (if has_sequence cc then sequence_value c' (col_id col) (i32_of_int 0)
      else rows_with (CellInt (col_id col)) (c' seq_table_instance) = []) \<and>
     (if is_unique cc
      then \<exists>n. inserted_row (index_row n tid (str_bytes (dec_int (i32_val (col_id col))))) (c idx_table_instance) (c' idx_table_instance)
      else c' idx_table_instance = c idx_table_instance)"

lemma rows_with_inserted_same:
  "inserted_row row rows rows' \<Longrightarrow> cells row ! 1 = x \<Longrightarrow> inserted_row row (rows_with x rows) (rows_with x rows')"
  unfolding inserted_row_def rows_with_def by (elim exE conjE) (simp, blast)

text \<open>The two optional parts.\<close>

lemma sequence_part:
  assumes inv: "catalog_inv w0 d c nt nc (Suc m) w" and ord: "\<forall>n. hash_order_ok (env_order E n)" and fuel: "2 \<le> env_fuel E"
    and cid: "120 < i32_val cid" "cid \<le> nc" and run: "(if s then create_sequence file_store E d cid else io_ret ()) w = (r, w')"
    and none: "rows_with (CellInt cid) (c seq_table_instance) = []"
  shows "\<exists>c'. catalog_inv w0 d c' nt nc m w' \<and> (\<forall>t. t \<noteq> seq_table_instance \<longrightarrow> c' t = c t) \<and>
      (\<forall>k. k \<noteq> i32_of_int 80 \<and> k \<noteq> cid \<longrightarrow>
         rows_with (CellInt k) (c' seq_table_instance) = rows_with (CellInt k) (c seq_table_instance)) \<and>
      (r = Inr () \<longrightarrow> (if s then sequence_value c' cid (i32_of_int 0) else rows_with (CellInt cid) (c' seq_table_instance) = [])) \<and>
      (\<forall>b. budget d c b w \<and> 20 \<le> b \<longrightarrow> r = Inr () \<and> budget d c' (b - 20) w')"
proof (cases s)
  case True
  then have "create_sequence file_store E d cid w = (r, w')" using run by simp
  from create_sequence_effect [OF inv ord fuel cid this] none True show ?thesis by simp
next
  case False
  then have "r = Inr ()" "w' = w" using run by simp_all
  moreover have "catalog_inv w0 d c nt nc m w" using catalog_inv_mono [OF inv] by simp
  ultimately show ?thesis using none False budget_rest by (intro exI [of _ c]) simp
qed

lemma index_part:
  assumes inv: "catalog_inv w0 d c nt nc (Suc m) w" and ord: "\<forall>n. hash_order_ok (env_order E n)" and fuel: "2 \<le> env_fuel E"
    and tid: "i32_of_int 4 < tid" "tid \<le> nt" and run: "(if s then create_index file_store E d tid cid else io_ret ()) w = (r, w')"
  shows "\<exists>c'. catalog_inv w0 d c' nt nc m w' \<and>
      (\<forall>t. t \<noteq> seq_table_instance \<and> t \<noteq> idx_table_instance \<longrightarrow> c' t = c t) \<and>
      (\<forall>k. k \<noteq> i32_of_int 100 \<longrightarrow>
         rows_with (CellInt k) (c' seq_table_instance) = rows_with (CellInt k) (c seq_table_instance)) \<and>
      (\<forall>k. k \<noteq> tid \<longrightarrow> rows_with (CellInt k) (c' idx_table_instance) = rows_with (CellInt k) (c idx_table_instance)) \<and>
      (r = Inr () \<longrightarrow>
        (if s then \<exists>n. inserted_row (index_row n tid (str_bytes (dec_int (i32_val cid)))) (c idx_table_instance) (c' idx_table_instance)
         else c' idx_table_instance = c idx_table_instance)) \<and>
      (\<forall>b. budget d c b w \<and> 30 \<le> b \<longrightarrow> r = Inr () \<and> budget d c' (b - 30) w')"
proof (cases s)
  case True
  then have "create_index file_store E d tid cid w = (r, w')" using run by simp
  from create_index_effect [OF inv ord fuel tid this] obtain c' where c': "catalog_inv w0 d c' nt nc m w'"
    "\<forall>t. t \<noteq> seq_table_instance \<and> t \<noteq> idx_table_instance \<longrightarrow> c' t = c t"
    "\<forall>k. k \<noteq> i32_of_int 100 \<longrightarrow> rows_with (CellInt k) (c' seq_table_instance) = rows_with (CellInt k) (c seq_table_instance)"
    "if r = Inr () then \<exists>n. inserted_row (index_row n tid (str_bytes (dec_int (i32_val cid)))) (c idx_table_instance) (c' idx_table_instance)
       else c' idx_table_instance = c idx_table_instance"
    "\<forall>b. budget d c b w \<and> 30 \<le> b \<longrightarrow> r = Inr () \<and> budget d c' (b - 30) w'"
    by blast
  have "rows_with (CellInt k) (c' idx_table_instance) = rows_with (CellInt k) (c idx_table_instance)" if "k \<noteq> tid" for k
  proof (cases "r = Inr ()")
    case True
    then obtain n where "inserted_row (index_row n tid (str_bytes (dec_int (i32_val cid)))) (c idx_table_instance) (c' idx_table_instance)"
      using c'(4) by auto
    then show ?thesis using \<open>k \<noteq> tid\<close> by (auto intro: rows_with_inserted)
  qed (use c'(4) in simp)
  then show ?thesis using c' True by (intro exI [of _ c']) simp
next
  case False
  then have "r = Inr ()" "w' = w" using run by simp_all
  moreover have "catalog_inv w0 d c nt nc m w" using catalog_inv_mono [OF inv] by simp
  ultimately show ?thesis using False budget_rest by (intro exI [of _ c]) simp
qed

lemma user_column:
  assumes "120 < i32_val k"
  shows "k \<noteq> i32_of_int 10" "k \<noteq> i32_of_int 30" "k \<noteq> i32_of_int 80" "k \<noteq> i32_of_int 100"
  using assms by auto

lemma new_column_unused:
  assumes "catalog_wf c nt nc" and "nc < k"
  shows "rows_with (CellInt k) (c seq_table_instance) = []"
proof -
  have "cells row ! 1 \<noteq> CellInt k" if "row \<in> set (c seq_table_instance)" for row
    using catalog_wfD(11) [OF assms(1) that] assms(2) by auto
  then show ?thesis by (simp add: rows_with_def)
qed

lemma create_column_effect:
  assumes inv: "catalog_inv w0 d c nt nc (m + 3) w" and ord: "\<forall>n. hash_order_ok (env_order E n)" and fuel: "2 \<le> env_fuel E"
    and tid: "i32_of_int 4 < tid" "tid \<le> nt" and str: "utf8_valid (cc_name cc)"
    and run: "create_column file_store E d tid (seq_new (ta_new seq_table_instance (db_layout d)) col_table_instance)
      (ta_new col_table_instance (db_layout d)) cc w = (r, w')"
  shows "\<exists>c' nc'. catalog_inv w0 d c' nt nc' m w' \<and> nc \<le> nc' \<and> untouched tid nc c c' \<and>
      (if invalid_command cc then r = Inl (Err InvalidSchemaDefinition) \<and> c' = c \<and> w' = w
       else case r of Inl e \<Rightarrow> True | Inr col \<Rightarrow> column_made tid nc cc col c c' \<and> col_id col \<le> nc') \<and>
      (\<forall>b. budget d c b w \<and> 80 + length (cc_name cc) \<le> b \<and> length (cc_name cc) \<le> 512 \<and> \<not> invalid_command cc \<longrightarrow>
         (\<exists>col. r = Inr col \<and> c' col_table_instance = c col_table_instance @ [column_row tid col]) \<and>
         budget d c' (b - (80 + length (cc_name cc))) w')"
proof (cases "invalid_command cc")
  case True
  then have "r = Inl (Err InvalidSchemaDefinition)" "w' = w"
    using run by (auto simp: create_column_def invalid_command_def split: if_splits)
  then show ?thesis
    using True untouched_refl catalog_inv_mono [OF inv, of m] by (intro exI [of _ c] exI [of _ nc]) simp
next
  case valid: False
  let ?col = "\<lambda>n. \<lparr>col_id = n, col_name = cc_name cc, col_type = cc_type cc\<rparr>" and ?k = "i32_of_int 30"
  let ?row = "\<lambda>n. column_row tid (?col n)"
  note cat = catalog_invD [OF inv]
  obtain r1 w1 where num: "numbered_insert E d col_table_instance col_table_instance ?row w = (r1, w1)" by force
  have rest: "(case r1 of Inl e \<Rightarrow> (Inl e, w1)
      | Inr n \<Rightarrow> io_bind (if has_sequence cc then create_sequence file_store E d n else io_ret ()) (\<lambda>_.
          io_bind (if is_unique cc then create_index file_store E d tid n else io_ret ()) (\<lambda>_. io_ret (?col n))) w1) = (r, w')"
    using run valid unfolding create_column_def Let_def numbered_insert_bind
    by (simp add: io_bind_def [of "numbered_insert E d t t' row" for t t' row] num invalid_command_def split: if_splits)
  have inv3: "catalog_inv w0 d c nt nc (Suc (m + 2)) w" using inv by (simp add: numeral_3_eq_3)
  have "catalog_row (advanced c ?k n) (if ?k = i32_of_int 10 then n else nt) (if ?k = i32_of_int 30 then n else nc) col_table_instance (?row n)" for n
    using tid by (auto simp: catalog_row_def i32_lit_eq)
  moreover have "row_strings_ok (?row n)" for n using str by (simp add: catalog_rows_ok)
  ultimately
  obtain c1 nt1 nc1 where
    e: "catalog_inv w0 d c1 nt1 nc1 (m + 2) w1" "nc \<le> nc1" "?k \<noteq> i32_of_int 10 \<longrightarrow> nt1 = nt"
      "case r1 of Inl e \<Rightarrow> drawn c ?k c1
       | Inr n \<Rightarrow> numbered c ?k n col_table_instance (?row n) c1 \<and> (?k = i32_of_int 10 \<longrightarrow> nt1 = n) \<and> (?k = i32_of_int 30 \<longrightarrow> nc1 = n)"
      "\<forall>b size. budget d c b w \<and> size \<le> b \<and> (\<forall>n. row_fits (?row n) (schema col_table_instance) \<and> length (row_serialize (?row n)) + 8 \<le> size) \<longrightarrow>
         (\<exists>n. r1 = Inr n \<and> c1 = (advanced c ?k n)(col_table_instance := advanced c ?k n col_table_instance @ [?row n]) \<and> budget d c1 (b - size) w1)"
    using numbered_insert_effect [OF inv3 sequence_columns(2) catalog_sequence_ids(2) ord catalog_member(2) _ _ num] by blast
  have inv1: "catalog_inv w0 d c1 nt nc1 (m + 2) w1" using e(1,3) by (simp add: i32_lit_eq)
  note cat1 = catalog_invD [OF inv1]
  have spent: "\<exists>n. r1 = Inr n \<and> c1 col_table_instance = c col_table_instance @ [?row n] \<and> budget d c1 (b - (25 + length (cc_name cc))) w1"
    if "budget d c b w" "25 + length (cc_name cc) \<le> b" "length (cc_name cc) \<le> 512" for b
    using spec [OF spec [OF e(5), of b], of "25 + length (cc_name cc)"] that by (fastforce simp: catalog_rows_fit catalog_rows_length)
  show ?thesis
  proof (cases r1)
    case (Inl x)
    then have d: "drawn c ?k c1" and r: "r = Inl x" "w' = w1" using e(4) rest by simp_all
    have "untouched tid nc c c1"
      unfolding untouched_def using drawn_rows [OF cat(2) d] user_column by simp
    moreover have "\<not> (budget d c b w \<and> 80 + length (cc_name cc) \<le> b \<and> length (cc_name cc) \<le> 512)" for b
      using spent [of b] Inl by auto
    ultimately show ?thesis
      using valid e(2) r catalog_inv_mono [OF inv1, of m] by (intro exI [of _ c1] exI [of _ nc1]) auto
  next
    case (Inr n)
    then have made: "numbered c ?k n col_table_instance (?row n) c1" and n: "nc1 = n" using e(4) by simp_all
    have "nc < n"
      using made sequence_value_unique [OF catalog_wfD(4) [OF cat(2)]] by (auto simp: numbered_def i32_less_iff)
    then have cid: "120 < i32_val n" "n \<le> nc1"
      using catalog_wfD(8) [OF cat(2)] n by (simp_all add: i32_less_iff)
    note one = numbered_rows(1-3) [OF cat(2) made]
    have unused: "rows_with (CellInt n) (c1 seq_table_instance) = []"
      using new_column_unused [OF cat(2) \<open>nc < n\<close>] one(2) [of n] user_column [OF cid(1)] by simp
    obtain r2 w2 where run2: "(if has_sequence cc then create_sequence file_store E d n else io_ret ()) w1 = (r2, w2)" by force
    have inv2: "catalog_inv w0 d c1 nt nc1 (Suc (m + 1)) w1" using inv1 by simp
    from sequence_part [OF inv2 ord fuel cid run2 unused] obtain c2 where
      c2: "catalog_inv w0 d c2 nt nc1 (m + 1) w2" "\<And>t. t \<noteq> seq_table_instance \<Longrightarrow> c2 t = c1 t"
        "\<And>k. k \<noteq> i32_of_int 80 \<Longrightarrow> k \<noteq> n \<Longrightarrow> rows_with (CellInt k) (c2 seq_table_instance) = rows_with (CellInt k) (c1 seq_table_instance)"
        "r2 = Inr () \<Longrightarrow> if has_sequence cc then sequence_value c2 n (i32_of_int 0) else rows_with (CellInt n) (c2 seq_table_instance) = []"
        "\<And>b. budget d c1 b w1 \<Longrightarrow> 20 \<le> b \<Longrightarrow> r2 = Inr () \<and> budget d c2 (b - 20) w2"
      by blast
    have two: "untouched tid nc c c2"
      unfolding untouched_def
    proof (intro conjI allI impI)
      show "c2 table_instance = c table_instance" using c2(2) one(1) by simp
      show "rows_with (CellInt k) (c2 col_table_instance) = rows_with (CellInt k) (c col_table_instance)" if "k \<noteq> tid" for k
        using that c2(2) rows_with_inserted [OF one(3), of "CellInt k"] by simp
      show "rows_with (CellInt k) (c2 idx_table_instance) = rows_with (CellInt k) (c idx_table_instance)" for k
        using c2(2) one(1) by simp
      show "rows_with (CellInt k) (c2 seq_table_instance) = rows_with (CellInt k) (c seq_table_instance)"
        if "120 < i32_val k \<and> k \<le> nc" for k
      proof -
        have "k \<noteq> n" using that \<open>nc < n\<close> by auto
        then show ?thesis using c2(3) one(2) user_column that by simp
      qed
    qed
    have spent2: "r2 = Inr () \<and> budget d c2 (b - (25 + length (cc_name cc)) - 20) w2"
      if "budget d c b w" "80 + length (cc_name cc) \<le> b" "length (cc_name cc) \<le> 512" for b
    proof -
      have "25 + length (cc_name cc) \<le> b" "20 \<le> b - (25 + length (cc_name cc))" using that(2) by simp_all
      then show ?thesis using spent [OF that(1) _ that(3)] c2(5) by blast
    qed
    have last: "c2 col_table_instance = c col_table_instance @ [?row n]"
      if "budget d c b w" "80 + length (cc_name cc) \<le> b" "length (cc_name cc) \<le> 512" for b
      using spent [OF that(1) _ that(3)] that(2) c2(2) Inr by auto
    show ?thesis
    proof (cases r2)
      case (Inl x)
      then have "r = Inl x" "w' = w2" using rest run2 \<open>r1 = Inr n\<close> by (simp_all add: io_bind_def)
      moreover have "\<not> (budget d c b w \<and> 80 + length (cc_name cc) \<le> b \<and> length (cc_name cc) \<le> 512)" for b
        using spent2 [of b] Inl by auto
      ultimately show ?thesis
        using valid two \<open>nc < n\<close> n catalog_inv_mono [OF c2(1), of m] by (intro exI [of _ c2] exI [of _ nc1]) auto
    next
      case (Inr u)
      obtain r3 where run3: "(if is_unique cc then create_index file_store E d tid n else io_ret ()) w2 = (r3, w')"
        and r: "r = and_then r3 (\<lambda>_. Inr (?col n))"
        using rest run2 Inr \<open>r1 = Inr n\<close> by (auto simp: io_bind_def [where s = w1] io_bind_def [where s = w2] split: prod.splits sum.splits)
      from index_part [of w0 d c2 nt nc1 m w2, OF _ ord fuel tid run3] c2(1) obtain c3 where
        c3: "catalog_inv w0 d c3 nt nc1 m w'" "\<And>t. t \<noteq> seq_table_instance \<Longrightarrow> t \<noteq> idx_table_instance \<Longrightarrow> c3 t = c2 t"
          "\<And>k. k \<noteq> i32_of_int 100 \<Longrightarrow> rows_with (CellInt k) (c3 seq_table_instance) = rows_with (CellInt k) (c2 seq_table_instance)"
          "\<And>k. k \<noteq> tid \<Longrightarrow> rows_with (CellInt k) (c3 idx_table_instance) = rows_with (CellInt k) (c2 idx_table_instance)"
          "r3 = Inr () \<Longrightarrow> if is_unique cc
             then \<exists>i. inserted_row (index_row i tid (str_bytes (dec_int (i32_val n)))) (c2 idx_table_instance) (c3 idx_table_instance)
             else c3 idx_table_instance = c2 idx_table_instance"
          "\<And>b. budget d c2 b w2 \<Longrightarrow> 30 \<le> b \<Longrightarrow> r3 = Inr () \<and> budget d c3 (b - 30) w'"
        unfolding Suc_eq_plus1 by blast
      have "untouched tid nc c2 c3"
        unfolding untouched_def using c3(2-4) user_column by simp
      then have three: "untouched tid nc c c3" using untouched_trans [OF two] by simp
      have "column_made tid nc cc (?col n) c c3" if "r3 = Inr ()"
      proof -
        have "inserted_row (?row n) (rows_with (CellInt tid) (c col_table_instance)) (rows_with (CellInt tid) (c3 col_table_instance))"
          using rows_with_inserted_same [OF one(3)] c2(2) c3(2) by simp
        moreover have "rows_with (CellInt n) (c3 seq_table_instance) = rows_with (CellInt n) (c2 seq_table_instance)"
          using cid(1) by (intro c3(3)) auto
        ultimately show ?thesis
          using c2(4) c3(5) c2(2) one(1) \<open>nc < n\<close> Inr that
          by (auto simp: column_made_def sequence_value_def)
      qed
      moreover have "r3 = Inr () \<and> budget d c3 (b - (80 + length (cc_name cc))) w'"
        if "budget d c b w" "80 + length (cc_name cc) \<le> b" "length (cc_name cc) \<le> 512" for b
      proof -
        have "30 \<le> b - (25 + length (cc_name cc)) - 20" using that(2) by simp
        then have "r3 = Inr () \<and> budget d c3 (b - (25 + length (cc_name cc)) - 20 - 30) w'" using spent2 [OF that] c3(6) by blast
        then show ?thesis using budget_less [of d c3 _ w'] by auto
      qed
      moreover have "c3 col_table_instance = c2 col_table_instance" using c3(2) by simp
      ultimately show ?thesis
        using valid three \<open>nc < n\<close> n c3(1) cid(2) last
        by (intro exI [of _ c3] exI [of _ nc1]) (auto simp: r and_then_Inr_iff split: sum.splits)
    qed
  qed
qed

section \<open>All columns\<close>

definition index_text :: "column \<Rightarrow> cell" where
  "index_text col = CellVarchar (str_bytes (dec_int (i32_val (col_id col))))"

text \<open>The cell that names the columns of an index, of every index of a table.\<close>

definition index_cells :: "catalog \<Rightarrow> i32 \<Rightarrow> cell multiset" where
  "index_cells c tid = mset (map (\<lambda>row. cells row ! 2) (rows_with (CellInt tid) (c idx_table_instance)))"

definition sequence_state :: "catalog \<Rightarrow> create_column_command \<Rightarrow> column \<Rightarrow> bool" where
  "sequence_state c cc col \<longleftrightarrow>
     (if has_sequence cc then sequence_value c (col_id col) (i32_of_int 0)
      else rows_with (CellInt (col_id col)) (c seq_table_instance) = [])"

definition columns_made :: "i32 \<Rightarrow> i32 \<Rightarrow> create_column_command list \<Rightarrow> column list \<Rightarrow> catalog \<Rightarrow> catalog \<Rightarrow> bool" where
  "columns_made tid nc ccs cols c c' \<longleftrightarrow>
     list_all2 (\<lambda>cc col. col_name col = cc_name cc \<and> col_type col = cc_type cc) ccs cols \<and>
     sorted_wrt (<) (nc # map col_id cols) \<and>
     mset (rows_with (CellInt tid) (c' col_table_instance)) =
       mset (rows_with (CellInt tid) (c col_table_instance)) + mset (map (column_row tid) cols) \<and>
     (\<forall>(cc, col) \<in> set (zip ccs cols). sequence_state c' cc col) \<and>
     index_cells c' tid = index_cells c tid + mset (map (index_text \<circ> snd) (filter (is_unique \<circ> fst) (zip ccs cols)))"

lemma columns_made_Nil: "columns_made tid nc [] [] c c"
  by (simp add: columns_made_def)

lemma columns_made_Cons:
  assumes one: "column_made tid nc cc col c c1" and le: "col_id col \<le> nc1" "120 \<le> i32_val nc"
    and rest: "columns_made tid nc1 ccs cols c1 c'" and same: "untouched tid nc1 c1 c'"
  shows "columns_made tid nc (cc # ccs) (col # cols) c c'"
proof -
  have new: "nc < col_id col" "col_name col = cc_name cc" "col_type col = cc_type cc"
    "inserted_row (column_row tid col) (rows_with (CellInt tid) (c col_table_instance)) (rows_with (CellInt tid) (c1 col_table_instance))"
    using one by (simp_all add: column_made_def)
  have incr: "sorted_wrt (<) (nc1 # map col_id cols)" using rest by (simp add: columns_made_def)
  have "sorted_wrt (<) (nc # map col_id (col # cols))"
    using incr new(1) le(1) by force
  moreover have "mset (rows_with (CellInt tid) (c' col_table_instance)) =
      mset (rows_with (CellInt tid) (c col_table_instance)) + mset (map (column_row tid) (col # cols))"
    using rest inserted_row_mset [OF new(4)] by (simp add: columns_made_def)
  moreover have "sequence_state c' cc col"
  proof -
    have "120 < i32_val (col_id col)" using le(2) new(1) by (simp add: i32_less_iff)
    then have "rows_with (CellInt (col_id col)) (c' seq_table_instance) = rows_with (CellInt (col_id col)) (c1 seq_table_instance)"
      using same le(1) by (simp add: untouched_def)
    then show ?thesis using one by (simp add: column_made_def sequence_state_def sequence_value_def split: if_splits)
  qed
  moreover have "index_cells c1 tid = index_cells c tid + (if is_unique cc then {#index_text col#} else {#})"
  proof (cases "is_unique cc")
    case True
    then obtain n where "inserted_row (index_row n tid (str_bytes (dec_int (i32_val (col_id col))))) (c idx_table_instance) (c1 idx_table_instance)"
      using one by (auto simp: column_made_def)
    then have "inserted_row (index_row n tid (str_bytes (dec_int (i32_val (col_id col)))))
        (rows_with (CellInt tid) (c idx_table_instance)) (rows_with (CellInt tid) (c1 idx_table_instance))"
      by (rule rows_with_inserted_same) simp
    from inserted_row_mset [OF this] show ?thesis
      using True by (simp add: index_cells_def index_row_def index_text_def numeral_2_eq_2)
  next
    case False
    then show ?thesis using one by (simp add: column_made_def index_cells_def)
  qed
  ultimately show ?thesis
    using rest new(2,3) unfolding columns_made_def by auto
qed

definition commands_cost :: "create_column_command list \<Rightarrow> nat" where
  "commands_cost ccs = sum_list (map (\<lambda>cc. 80 + length (cc_name cc)) ccs)"

lemma create_columns_effect:
  assumes "catalog_inv w0 d c nt nc (m + 3 * length ccs) w" and ord: "\<forall>n. hash_order_ok (env_order E n)" and fuel: "2 \<le> env_fuel E"
    and tid: "i32_of_int 4 < tid" "tid \<le> nt" and "\<forall>cc \<in> set ccs. utf8_valid (cc_name cc)"
    and "create_columns file_store E d tid (seq_new (ta_new seq_table_instance (db_layout d)) col_table_instance)
      (ta_new col_table_instance (db_layout d)) ccs acc w = (r, w')"
  shows "\<exists>c' nc'. catalog_inv w0 d c' nt nc' m w' \<and> nc \<le> nc' \<and> untouched tid nc c c' \<and>
      (case r of Inl e \<Rightarrow> True | Inr cols \<Rightarrow> \<exists>new. cols = acc @ new \<and> columns_made tid nc ccs new c c') \<and>
      ((\<exists>cc \<in> set ccs. invalid_command cc) \<longrightarrow> (\<exists>e. r = Inl e)) \<and>
      (\<forall>b. budget d c b w \<and> commands_cost ccs \<le> b \<and> (\<forall>cc \<in> set ccs. length (cc_name cc) \<le> 512) \<longrightarrow>
         (if \<exists>cc \<in> set ccs. invalid_command cc then r = Inl (Err InvalidSchemaDefinition)
          else \<exists>new. r = Inr (acc @ new) \<and> c' col_table_instance = c col_table_instance @ map (column_row tid) new))"
  using assms(1,6,7)
proof (induction ccs arbitrary: c nc w acc)
  case Nil
  then show ?case using columns_made_Nil untouched_refl by (intro exI [of _ c] exI [of _ nc]) auto
next
  case (Cons cc ccs)
  let ?acc = "seq_new (ta_new seq_table_instance (db_layout d)) col_table_instance" and ?ta = "ta_new col_table_instance (db_layout d)"
  have inv: "catalog_inv w0 d c nt nc ((m + 3 * length ccs) + 3) w" using Cons.prems(1) by (simp add: ac_simps)
  have str: "utf8_valid (cc_name cc)" "\<forall>cc \<in> set ccs. utf8_valid (cc_name cc)" using Cons.prems(2) by simp_all
  obtain r1 w1 where run: "create_column file_store E d tid ?acc ?ta cc w = (r1, w1)" by force
  from create_column_effect [OF inv ord fuel tid str(1) run] obtain c1 nc1 where
    c1: "catalog_inv w0 d c1 nt nc1 (m + 3 * length ccs) w1" "nc \<le> nc1" "untouched tid nc c c1"
      "if invalid_command cc then r1 = Inl (Err InvalidSchemaDefinition) \<and> c1 = c \<and> w1 = w
       else case r1 of Inl e \<Rightarrow> True | Inr col \<Rightarrow> column_made tid nc cc col c c1 \<and> col_id col \<le> nc1"
      "\<And>b. budget d c b w \<Longrightarrow> 80 + length (cc_name cc) \<le> b \<Longrightarrow> length (cc_name cc) \<le> 512 \<Longrightarrow> \<not> invalid_command cc \<Longrightarrow>
         (\<exists>col. r1 = Inr col \<and> c1 col_table_instance = c col_table_instance @ [column_row tid col]) \<and>
         budget d c1 (b - (80 + length (cc_name cc))) w1"
    by blast
  have big: "120 \<le> i32_val nc" using catalog_wfD(8) [OF catalog_invD(2) [OF inv]] .
  show ?case
  proof (cases r1)
    case (Inl e)
    then have r: "r = Inl e" "w' = w1" using Cons.prems(3) run by (simp_all add: io_bind_def)
    have "catalog_inv w0 d c1 nt nc1 m w1" using catalog_inv_mono [OF c1(1)] by simp
    moreover have "invalid_command cc \<and> e = Err InvalidSchemaDefinition"
      if "budget d c b w" "commands_cost (cc # ccs) \<le> b" "length (cc_name cc) \<le> 512" for b
    proof -
      have "80 + length (cc_name cc) \<le> b" using that(2) by (simp add: commands_cost_def)
      then have "invalid_command cc" using c1(5) that(1,3) Inl by fastforce
      then show ?thesis using c1(4) Inl by simp
    qed
    ultimately show ?thesis using c1(2,3) r by (intro exI [of _ c1] exI [of _ nc1]) fastforce
  next
    case (Inr col)
    then have valid: "\<not> invalid_command cc" and col: "column_made tid nc cc col c c1" "col_id col \<le> nc1"
      using c1(4) by (auto split: if_splits)
    have rest: "create_columns file_store E d tid ?acc ?ta ccs (acc @ [col]) w1 = (r, w')"
      using Cons.prems(3) run Inr by (simp add: io_bind_def)
    from Cons.IH [OF c1(1) str(2) rest] obtain c' nc' where
      c': "catalog_inv w0 d c' nt nc' m w'" "nc1 \<le> nc'" "untouched tid nc1 c1 c'"
        "case r of Inl e \<Rightarrow> True | Inr cols \<Rightarrow> \<exists>new. cols = (acc @ [col]) @ new \<and> columns_made tid nc1 ccs new c1 c'"
        "(\<exists>cc \<in> set ccs. invalid_command cc) \<longrightarrow> (\<exists>e. r = Inl e)"
        "\<And>b. budget d c1 b w1 \<Longrightarrow> commands_cost ccs \<le> b \<Longrightarrow> \<forall>cc \<in> set ccs. length (cc_name cc) \<le> 512 \<Longrightarrow>
           if \<exists>cc \<in> set ccs. invalid_command cc then r = Inl (Err InvalidSchemaDefinition)
           else \<exists>new. r = Inr ((acc @ [col]) @ new) \<and> c' col_table_instance = c1 col_table_instance @ map (column_row tid) new"
      by blast
    have "\<exists>new. cols = acc @ new \<and> columns_made tid nc (cc # ccs) new c c'" if cols: "r = Inr cols" for cols
    proof -
      obtain new where new: "cols = (acc @ [col]) @ new" "columns_made tid nc1 ccs new c1 c'" using c'(4) cols by auto
      then show ?thesis using columns_made_Cons [OF col big new(2) c'(3)] by (intro exI [of _ "col # new"]) simp
    qed
    then have made: "case r of Inl e \<Rightarrow> True | Inr cols \<Rightarrow> \<exists>new. cols = acc @ new \<and> columns_made tid nc (cc # ccs) new c c'"
      by (simp split: sum.split)
    have room: "if \<exists>cc \<in> set (cc # ccs). invalid_command cc then r = Inl (Err InvalidSchemaDefinition)
        else \<exists>new. r = Inr (acc @ new) \<and> c' col_table_instance = c col_table_instance @ map (column_row tid) new"
      if b: "budget d c b w" "commands_cost (cc # ccs) \<le> b" "\<forall>cc \<in> set (cc # ccs). length (cc_name cc) \<le> 512" for b
    proof -
      have cost: "80 + length (cc_name cc) \<le> b" "commands_cost ccs \<le> b - (80 + length (cc_name cc))"
        using b(2) by (simp_all add: commands_cost_def)
      have "c1 col_table_instance = c col_table_instance @ [column_row tid col]" "budget d c1 (b - (80 + length (cc_name cc))) w1"
        using c1(5) [OF b(1) cost(1) _ valid] b(3) Inr by simp_all
      then show ?thesis using c'(6) [OF _ cost(2)] b(3) valid by auto
    qed
    have "untouched tid nc c c'" using untouched_trans [OF c1(3) c'(3) c1(2)] .
    moreover have "nc \<le> nc'" using c1(2) c'(2) by simp
    moreover have "(\<exists>cc \<in> set (cc # ccs). invalid_command cc) \<longrightarrow> (\<exists>e. r = Inl e)" using c'(5) valid by simp
    ultimately show ?thesis
      using c'(1) made room by blast
  qed
qed

end
