(* ===== verification/Create_Table_Props.thy ===== *)
theory Create_Table_Props
  imports Create_Table
begin

text \<open>
  What \<open>create_table\<close> does to a database: the new table is found under its name, every other table
  is found as before, and the catalog stays well-formed whatever the outcome.
\<close>

section \<open>The files of a new table\<close>

definition new_files :: "database \<Rightarrow> table \<Rightarrow> (files world, table, create_table_error) io" where
  "new_files d t =
     io_bind (at_store (UnknownError \<circ> FromStore) (st_create file_store (db_layout d) (TableStorage (table_id t)))) (\<lambda>_.
     io_bind (create_fsm file_store d t) (\<lambda>_. io_ret t))"

lemma new_files_only: "changes (only_table t) (new_files d t)"
  unfolding new_files_def create_fsm_def by (intro changes_intros) simp_all

lemma map_err_ok: "map_err g r = Inr x \<longleftrightarrow> r = Inr x"
  by (cases r) auto

lemma new_files_effect:
  assumes fsm: "fsm_of (db_layout d) t f" and cols: "columns (schema t) \<noteq> []" and run: "new_files d t w = (r, w')"
  shows "r = Inr u \<Longrightarrow> u = t \<and> table_history (db_layout d) t f {#} w'"
    and "w_store w (storage_file_path (TableStorage (table_id t))) = None \<Longrightarrow>
      w_store w (storage_file_path (fsm_access t)) = None \<Longrightarrow> r = Inr t"
proof -
  let ?l = "db_layout d" and ?tab = "TableStorage (table_id t)" and ?a = "fsm_access t"
  note lay = fsm_ofD(1) [OF fsm]
  have new: "schema_new (columns (schema t)) = (Inr (schema t) :: (table_schema, unit) result)"
    using cols by (simp add: schema_new_def)
  obtain r1 fs1 r2 fs2 where c: "file_create ?l ?tab (w_store w) = (r1, fs1)" "file_create ?l ?a fs1 = (r2, fs2)" by force
  show "r = Inr u \<Longrightarrow> u = t \<and> table_history ?l t f {#} w'"
  proof -
    assume ok: "r = Inr u"
    then have "r1 = Inr ()" "r2 = Inr ()" "u = t" "w' = w\<lparr>w_store := fs2\<rparr>"
      using run c by (auto simp: new_files_def create_fsm_def io_bind_def at_store_def file_store_def map_err_ok split: sum.splits)
    then show ?thesis using opened [OF fsm new, of "w_store w" fs1 w'] c by simp
  qed
  show "r = Inr t" if "w_store w (storage_file_path ?tab) = None" "w_store w (storage_file_path ?a) = None"
  proof -
    have "r1 = Inr ()" and fs1: "\<And>u. u \<noteq> ?tab \<Longrightarrow> fs1 (storage_file_path u) = w_store w (storage_file_path u)"
      using file_create_ok [of ?l "w_store w" ?tab, OF lay that(1)] c(1) by auto
    moreover have "r2 = Inr ()"
      using file_create_ok [OF lay, of fs1 ?a] fs1 [OF tab_not_map(2)] that(2) c(2) by auto
    ultimately show ?thesis
      using run c by (simp add: new_files_def create_fsm_def io_bind_def at_store_def file_store_def)
  qed
qed

lemma fsm_for_table: "fsm_of l t f \<Longrightarrow> \<exists>f'. fsm_of l t' f'"
  by (auto simp: fsm_of_def fsm_new_def Let_def and_then_Inr_iff split: if_splits)

lemma catalog_fsm: "catalog_at l c w \<Longrightarrow> \<exists>f. fsm_of l t f"
  using storedD [OF catalog_atD [OF _ catalog_member(1)]] table_inv_fsm fsm_for_table by metis

section \<open>Lookups in a changed catalog\<close>

lemma table_in_catalog_frame:
  assumes "catalog_wf c nt nc" and "rows_with (CellVarchar other) (c' table_instance) = rows_with (CellVarchar other) (c table_instance)"
    and "\<And>k. table_row k other \<in> set (c table_instance) \<Longrightarrow> rows_with (CellInt k) (c' col_table_instance) = rows_with (CellInt k) (c col_table_instance)"
  shows "table_in_catalog c' other = table_in_catalog c other"
proof (cases "rows_with (CellVarchar other) (c table_instance)")
  case Nil
  then show ?thesis using assms(2) by (simp add: table_in_catalog_def)
next
  case (Cons row rows)
  then have "row \<in> set (rows_with (CellVarchar other) (c table_instance))" by simp
  then have mem: "row \<in> set (c table_instance)" "cells row ! 1 = CellVarchar other" by (simp_all add: rows_with_def)
  then obtain i n where row: "row = table_row i n" using catalog_wfD(9) [OF assms(1)] by blast
  moreover from this have "n = other" using mem(2) by simp
  ultimately have "table_row i other \<in> set (c table_instance)" using mem(1) by simp
  then have "schema_in_catalog c' i = schema_in_catalog c i"
    unfolding schema_in_catalog_def by (simp only: assms(3))
  then show ?thesis
    using assms(2) Cons row
    by (simp add: table_in_catalog_def table_row_def int_cell_def index_get_def split: list.split)
qed

lemma table_in_catalog_same:
  assumes "catalog_wf c nt nc" and "rows_with (CellVarchar other) (c' table_instance) = rows_with (CellVarchar other) (c table_instance)"
    and "\<And>k. k \<le> nt \<Longrightarrow> rows_with (CellInt k) (c' col_table_instance) = rows_with (CellInt k) (c col_table_instance)"
  shows "table_in_catalog c' other = table_in_catalog c other"
proof (rule table_in_catalog_frame [of c nt nc other c', OF assms(1,2)])
  fix k assume "table_row k other \<in> set (c table_instance)"
  then have "k \<le> nt" using catalog_wfD(9) [OF assms(1)] by (auto simp: table_row_def)
  then show "rows_with (CellInt k) (c' col_table_instance) = rows_with (CellInt k) (c col_table_instance)" by (rule assms(3))
qed

lemma column_rows_back:
  assumes "mset rows = mset (map (column_row tid) cols)"
  shows "\<exists>cols'. rows = map (column_row tid) cols' \<and> mset cols' = mset cols"
proof -
  define g where "g row = projr (column_of_row 0 2 3 4 row)" for row
  have left: "g (column_row tid col) = col" for col by (simp add: g_def)
  have "set rows = column_row tid ` set cols" using mset_eq_setD [OF assms] by simp
  then have "map (column_row tid) (map g rows) = rows"
    unfolding map_map by (intro map_idI) (auto simp: left)
  moreover have "mset (map g rows) = mset cols"
    unfolding mset_map assms by (simp add: left multiset.map_comp comp_def)
  ultimately show ?thesis by metis
qed

lemma new_table_unused:
  assumes "catalog_wf c nt nc" and "nt < k"
  shows "rows_with (CellInt k) (c col_table_instance) = []" and "rows_with (CellInt k) (c idx_table_instance) = []"
proof -
  have "cells row ! 1 \<noteq> CellInt k" if "row \<in> set (c col_table_instance)" for row
    using catalog_wfD(10) [OF assms(1) that] assms(2) by auto
  moreover have "cells row ! 1 \<noteq> CellInt k" if "row \<in> set (c idx_table_instance)" for row
    using catalog_wfD(12) [OF assms(1) that] assms(2) by auto
  ultimately show "rows_with (CellInt k) (c col_table_instance) = []" "rows_with (CellInt k) (c idx_table_instance) = []"
    by (simp_all add: rows_with_def)
qed

lemma described_table:
  assumes "rows_with (CellVarchar name) (c table_instance) = [table_row tid name]" and "cols \<noteq> []"
    and "rows_with (CellInt tid) (c col_table_instance) = map (column_row tid) cols"
  shows "table_in_catalog c name = Inr \<lparr>table_id = tid, table_name = name, schema = \<lparr>columns = cols\<rparr>\<rparr>"
  using assms
  by (simp add: table_in_catalog_def schema_in_catalog_def table_row_def int_cell_def index_get_def comp_def schema_new_def
      collect_results_Inr)

text \<open>Steps on a table of the user leave the catalog alone.\<close>

lemma catalog_frame:
  assumes "catalog_at l c w" and "only_table t w w'" and "i32_of_int 4 < table_id t"
  shows "catalog_at l c w'" and "catalog_room l m w \<Longrightarrow> catalog_room l m w'"
proof -
  have ne: "table_id t \<noteq> table_id u" if "u \<in> catalog_tables" for u
    using catalog_id_val [OF that] assms(3) by (auto simp: i32_less_iff)
  note frame = stored_frame [OF catalog_atD [OF assms(1)] assms(2) ne]
  show "catalog_at l c w'" unfolding catalog_at_def using frame(1) by blast
  show "catalog_room l m w \<Longrightarrow> catalog_room l m w'" unfolding catalog_room_def using frame(2) by simp
qed

section \<open>The whole operation\<close>

text \<open>The files that creating a table may change: those of the catalog and those of tables above the last id.\<close>

definition creation_storages :: "i32 \<Rightarrow> page_storage set" where
  "creation_storages nt = catalog_storages \<union> TableStorage ` {i. nt < i} \<union> FsmStorage ` {i. nt < i}"

lemma only_stores_mono: "only_stores A w w' \<Longrightarrow> A \<subseteq> B \<Longrightarrow> only_stores B w w'"
  by (auto simp: only_stores_def only_files_def)

text \<open>The part of \<open>create_table\<close> behind the check of the name.\<close>

lemma create_table_run:
  assumes cat: "catalog_at (db_layout d) c w" "catalog_wf c nt nc" and fuel: "2 \<le> env_fuel E"
  shows "create_table file_store E d name ccs w =
    (if rows_with (CellVarchar name) (c table_instance) \<noteq> [] then (Inl (Err TableAlreadyExists), w)
     else io_bind (numbered_insert E d table_instance table_instance (\<lambda>i. table_row i name)) (\<lambda>tid.
       io_bind (from_db (read_table file_store E d (str_bytes ''columns''))) (\<lambda>col_table.
       io_bind (from_db (seq_access_for_table file_store E d col_table)) (\<lambda>col_seq_acc.
       io_bind (from_db (db_table_access file_store E d col_table)) (\<lambda>col_acc.
       io_bind (create_columns file_store E d tid col_seq_acc col_acc ccs []) (\<lambda>cols.
       io_bind (io_lift (schema_new cols)) (\<lambda>s.
       new_files d \<lparr>table_id = tid, table_name = name, schema = s\<rparr>)))))) w)"
proof -
  obtain q rs where q: "ta_find file_store E (ta_new table_instance (db_layout d)) (str_bytes ''name'') (CellVarchar name) w = (Inr q, w)"
    "query_rows q (w_store w) = Inr rs" "map snd rs = rows_with (CellVarchar name) (c table_instance)"
    using stored_find [OF catalog_atD [OF cat(1) catalog_member(1)] catalog_columns(1), of E name] unfolding rows_with_def by blast
  have row: "Row [CellInt i, CellVarchar name] = table_row i name" for i by (simp add: table_row_def)
  have "rs = [] \<longleftrightarrow> rows_with (CellVarchar name) (c table_instance) = []"
    unfolding q(3) [symmetric] by simp
  then show ?thesis
    unfolding create_table_def row new_files_def Let_def
    by (simp add: catalog_reads [OF cat] catalog_seq_access [OF cat] catalog_access [OF cat _ fuel] q(1,2) numbered_insert_bind)
qed

definition creation_cost :: "rstring \<Rightarrow> create_column_command list \<Rightarrow> nat" where
  "creation_cost name ccs = 14 + length name + commands_cost ccs"

definition short_names :: "rstring \<Rightarrow> create_column_command list \<Rightarrow> bool" where
  "short_names name ccs \<longleftrightarrow> length name \<le> 512 \<and> (\<forall>cc \<in> set ccs. length (cc_name cc) \<le> 512)"

text \<open>What holds of a table that was created.\<close>

definition table_made ::
  "database \<Rightarrow> rstring \<Rightarrow> create_column_command list \<Rightarrow> catalog \<Rightarrow> i32 \<Rightarrow> i32 \<Rightarrow> catalog \<Rightarrow> table \<Rightarrow> files world \<Rightarrow> bool" where
  "table_made d name ccs c nt nc c' t w' \<longleftrightarrow>
     table_name t = name \<and> i32_val (table_id t) = i32_val nt + 1 \<and>
     columns_made (table_id t) nc ccs (columns (schema t)) c c' \<and>
     (\<exists>cols. mset cols = mset (columns (schema t)) \<and> table_in_catalog c' name = Inr (t\<lparr>schema := \<lparr>columns = cols\<rparr>\<rparr>)) \<and>
     (\<exists>f. table_history (db_layout d) t f {#} w')"

lemma create_table_effect:
  assumes inv: "catalog_inv w d c nt nc (Suc (m + 3 * length ccs)) w" and ord: "\<forall>n. hash_order_ok (env_order E n)" and fuel: "2 \<le> env_fuel E"
    and str: "utf8_valid name" "\<forall>cc \<in> set ccs. utf8_valid (cc_name cc)"
    and fresh: "rows_with (CellVarchar name) (c table_instance) = []"
    and run: "create_table file_store E d name ccs w = (r, w')"
  shows "\<exists>c' nt' nc'. catalog_at (db_layout d) c' w' \<and> catalog_wf c' nt' nc' \<and> catalog_room (db_layout d) m w' \<and> nt \<le> nt' \<and> nc \<le> nc' \<and>
      only_stores (creation_storages nt) w w' \<and>
      (\<forall>other. other \<noteq> name \<longrightarrow> table_in_catalog c' other = table_in_catalog c other) \<and>
      (case r of Inl e \<Rightarrow> True
       | Inr t \<Rightarrow> table_made d name ccs c nt nc c' t w') \<and>
      ((\<exists>cc \<in> set ccs. invalid_command cc) \<or> ccs = [] \<longrightarrow> (\<exists>e. r = Inl e)) \<and>
      (\<forall>b. budget d c b w \<and> creation_cost name ccs \<le> b \<and> short_names name ccs \<and>
          w_store w (storage_file_path (TableStorage (i32_of_int (i32_val nt + 1)))) = None \<and>
          w_store w (storage_file_path (FsmStorage (i32_of_int (i32_val nt + 1)))) = None \<longrightarrow>
         rows_with (CellVarchar name) (c' table_instance) \<noteq> [] \<and>
         (if \<exists>cc \<in> set ccs. invalid_command cc then r = Inl (Err InvalidSchemaDefinition)
          else if ccs = [] then r = Inl Panic
          else \<exists>t. r = Inr t \<and> table_in_catalog c' name = Inr t))"
proof -
  let ?row = "\<lambda>i. table_row i name" and ?k = "i32_of_int 10" and ?l = "db_layout d"
  let ?acc = "seq_new (ta_new seq_table_instance ?l) col_table_instance" and ?ta = "ta_new col_table_instance ?l"
  note cat = catalog_invD [OF inv]
  obtain r1 w1 where num: "numbered_insert E d table_instance table_instance ?row w = (r1, w1)" by force
  have "catalog_row (advanced c ?k n) (if ?k = i32_of_int 10 then n else nt) (if ?k = i32_of_int 30 then n else nc) table_instance (?row n)"
    if "sequence_value c ?k v" "i32_val n = i32_val v + 1" for v n
  proof -
    have "v = nt" using sequence_value_unique [OF catalog_wfD(3) [OF cat(2)] that(1)] .
    then have "cells row ! 0 \<noteq> CellInt n" if "row \<in> set (c table_instance)" for row
      using catalog_wfD(9) [OF cat(2) that] \<open>i32_val n = i32_val v + 1\<close> by (auto simp: i32_le_iff)
    then show ?thesis using fresh by (auto simp: catalog_row_def)
  qed
  moreover have "row_strings_ok (?row n)" for n using str(1) by (simp add: catalog_rows_ok)
  ultimately obtain c1 nt1 nc1 where
    e: "catalog_inv w d c1 nt1 nc1 (m + 3 * length ccs) w1" "nt \<le> nt1" "?k \<noteq> i32_of_int 30 \<longrightarrow> nc1 = nc"
      "case r1 of Inl e \<Rightarrow> drawn c ?k c1
       | Inr n \<Rightarrow> numbered c ?k n table_instance (?row n) c1 \<and> (?k = i32_of_int 10 \<longrightarrow> nt1 = n) \<and> (?k = i32_of_int 30 \<longrightarrow> nc1 = n)"
      "\<forall>b size. budget d c b w \<and> size \<le> b \<and> (\<forall>n. row_fits (?row n) (schema table_instance) \<and> length (row_serialize (?row n)) + 8 \<le> size) \<longrightarrow>
         (\<exists>n. r1 = Inr n \<and> c1 = (advanced c ?k n)(table_instance := advanced c ?k n table_instance @ [?row n]) \<and> budget d c1 (b - size) w1)"
    using numbered_insert_effect [OF inv sequence_columns(1) catalog_sequence_ids(1) ord catalog_member(1) _ _ num] by blast
  have inv1: "catalog_inv w d c1 nt1 nc (m + 3 * length ccs) w1" using e(1,3) by (simp add: i32_lit_eq)
  note cat1 = catalog_invD [OF inv1]
  have spent: "\<exists>n. r1 = Inr n \<and> budget d c1 (b - (14 + length name)) w1"
    if "budget d c b w" "14 + length name \<le> b" "length name \<le> 512" for b
    using spec [OF spec [OF e(5), of b], of "14 + length name"] that by (fastforce simp: catalog_rows_fit catalog_rows_length)
  have storages: "catalog_storages \<subseteq> creation_storages nt" unfolding creation_storages_def by blast
  show ?thesis
  proof (cases r1)
    case (Inl e)
    then have r: "r = Inl e" "w' = w1"
      using run fresh by (simp_all add: create_table_run [OF cat(1,2) fuel] io_bind_def num)
    have "drawn c ?k c1" using e(4) Inl by simp
    note rows = drawn_rows [OF cat(2) this]
    have "table_in_catalog c1 other = table_in_catalog c other" for other
      by (rule table_in_catalog_same [OF cat(2)]) (simp_all add: rows)
    moreover have "\<not> (budget d c b w \<and> creation_cost name ccs \<le> b \<and> short_names name ccs)" for b
      using spent [of b] Inl by (auto simp: creation_cost_def short_names_def)
    moreover have "catalog_room ?l m w1" using catalog_room_mono [OF cat1(3)] by simp
    ultimately show ?thesis
      using cat1(1,2) e(2) only_stores_mono [OF cat1(4) storages] r
      by (intro exI [of _ c1] exI [of _ nt1] exI [of _ nc] conjI) auto
  next
    case (Inr tid)
    then have made: "numbered c ?k tid table_instance (?row tid) c1" and nt1: "nt1 = tid" using e(4) by simp_all
    have tid: "i32_val tid = i32_val nt + 1"
      using made sequence_value_unique [OF catalog_wfD(3) [OF cat(2)]] by (auto simp: numbered_def)
    then have lt: "nt < tid" "i32_of_int 4 < tid" using catalog_wfD(7) [OF cat(2)] by (simp_all add: i32_less_iff)
    have next_id: "i32_of_int (i32_val nt + 1) = tid" unfolding tid [symmetric] by simp
    note one = numbered_rows(1-3) [OF cat(2) made]
    obtain r2 w2 where cols: "create_columns file_store E d tid ?acc ?ta ccs [] w1 = (r2, w2)" by force
    have rest: "(case r2 of Inl e \<Rightarrow> (Inl e, w2)
        | Inr cols \<Rightarrow> io_bind (io_lift (schema_new cols)) (\<lambda>s. new_files d \<lparr>table_id = tid, table_name = name, schema = s\<rparr>) w2) = (r, w')"
      using run fresh Inr cols
      by (simp add: create_table_run [OF cat(1,2) fuel] num catalog_reads [OF cat1(1,2)] catalog_seq_access [OF cat1(1,2)]
          catalog_access [OF cat1(1,2) _ fuel] io_bind_def [of "numbered_insert E d t t' row" for t t' row]
          io_bind_def [of "create_columns S E d i a b cs acc" for S i a b cs acc])
    have "tid \<le> nt1" using nt1 by simp
    from create_columns_effect [OF inv1 ord fuel lt(2) this str(2) cols] obtain c2 nc2 where
      c2: "catalog_inv w d c2 nt1 nc2 m w2" "nc \<le> nc2" "untouched tid nc c1 c2"
        "case r2 of Inl e \<Rightarrow> True | Inr cols \<Rightarrow> \<exists>new. cols = [] @ new \<and> columns_made tid nc ccs new c1 c2"
        "(\<exists>cc \<in> set ccs. invalid_command cc) \<longrightarrow> (\<exists>e. r2 = Inl e)"
        "\<And>b. budget d c1 b w1 \<Longrightarrow> commands_cost ccs \<le> b \<Longrightarrow> \<forall>cc \<in> set ccs. length (cc_name cc) \<le> 512 \<Longrightarrow>
           if \<exists>cc \<in> set ccs. invalid_command cc then r2 = Inl (Err InvalidSchemaDefinition)
           else \<exists>new. r2 = Inr ([] @ new) \<and> c2 col_table_instance = c1 col_table_instance @ map (column_row tid) new"
      by blast
    have others: "table_in_catalog c2 other = table_in_catalog c other" if "other \<noteq> name" for other
    proof (rule table_in_catalog_same [OF cat(2)])
      show "rows_with (CellVarchar other) (c2 table_instance) = rows_with (CellVarchar other) (c table_instance)"
        using c2(3) rows_with_inserted [OF one(3), of "CellVarchar other"] that by (simp add: untouched_def)
      show "rows_with (CellInt k) (c2 col_table_instance) = rows_with (CellInt k) (c col_table_instance)" if "k \<le> nt" for k
        using c2(3) that lt(1) one(1) by (auto simp: untouched_def)
    qed
    note none = new_table_unused [OF cat(2) lt(1)]
    have named: "rows_with (CellVarchar name) (c2 table_instance) = [table_row tid name]"
      using rows_with_inserted_same [OF one(3), of "CellVarchar name"] fresh c2(3) by (simp add: untouched_def)
    have made2: "columns_made tid nc ccs new c c2" if "r2 = Inr new" for new
      using c2(4) that one(1) by (simp add: columns_made_def index_cells_def)
    have found: "\<exists>cols. mset cols = mset new \<and>
        table_in_catalog c2 name = Inr \<lparr>table_id = tid, table_name = name, schema = \<lparr>columns = cols\<rparr>\<rparr>"
      if new: "r2 = Inr new" "new \<noteq> []" for new
    proof -
      have "mset (rows_with (CellInt tid) (c2 col_table_instance)) = mset (map (column_row tid) new)"
        using made2 [OF new(1)] none(1) by (simp add: columns_made_def)
      from column_rows_back [OF this] obtain cols where
        "rows_with (CellInt tid) (c2 col_table_instance) = map (column_row tid) cols" "mset cols = mset new" by blast
      moreover from this(2) new(2) have "cols \<noteq> []" by auto
      ultimately show ?thesis using described_table [of name c2 tid, OF named] by metis
    qed
    have exact: "table_in_catalog c2 name = Inr \<lparr>table_id = tid, table_name = name, schema = \<lparr>columns = new\<rparr>\<rparr>"
      if new: "c2 col_table_instance = c1 col_table_instance @ map (column_row tid) new" "new \<noteq> []" for new
    proof -
      have "rows_with (CellInt tid) (map (column_row tid) new) = map (column_row tid) new"
        by (simp add: rows_with_def filter_map comp_def)
      then have "rows_with (CellInt tid) (c2 col_table_instance) = map (column_row tid) new"
        using new(1) none(1) one(1) by (simp add: rows_with_def)
      then show ?thesis using described_table [of name c2 tid, OF named new(2)] by simp
    qed
    have room: "if \<exists>cc \<in> set ccs. invalid_command cc then r2 = Inl (Err InvalidSchemaDefinition)
        else \<exists>new. r2 = Inr new \<and> c2 col_table_instance = c1 col_table_instance @ map (column_row tid) new"
      if b: "budget d c b w" "creation_cost name ccs \<le> b" "short_names name ccs" for b
    proof -
      have "budget d c1 (b - (14 + length name)) w1"
        using spent [OF b(1)] b(2,3) by (auto simp: creation_cost_def short_names_def)
      moreover have "commands_cost ccs \<le> b - (14 + length name)" using b(2) by (simp add: creation_cost_def)
      ultimately show ?thesis using c2(6) b(3) unfolding short_names_def append_Nil by blast
    qed
    note cat2 = catalog_invD [OF c2(1)]
    note stores = only_stores_mono [OF cat2(4) storages]
    have names: "list_all2 (\<lambda>cc col. col_name col = cc_name cc \<and> col_type col = cc_type cc) ccs new" if "r2 = Inr new" for new
      using made2 [OF that] by (simp add: columns_made_def)
    show ?thesis
    proof (cases "\<exists>new. r2 = Inr new \<and> new \<noteq> []")
      case False
      then have r: "r = Inl (case r2 of Inl e \<Rightarrow> e | Inr _ \<Rightarrow> Panic)" "w' = w2"
        using rest by (auto simp: schema_new_def io_bind_def split: sum.splits)
      have bad: "if \<exists>cc \<in> set ccs. invalid_command cc then r = Inl (Err InvalidSchemaDefinition)
          else if ccs = [] then r = Inl Panic else False"
        if b: "budget d c b w" "creation_cost name ccs \<le> b" "short_names name ccs" for b
      proof (cases "\<exists>cc \<in> set ccs. invalid_command cc")
        case True
        then show ?thesis using room [OF b] r(1) by simp
      next
        case valid: False
        with room [OF b] obtain new where "r2 = Inr new" by auto
        moreover from this have "ccs = []" using False names [of new] by auto
        ultimately show ?thesis using r(1) by simp
      qed
      have cond: "if \<exists>cc \<in> set ccs. invalid_command cc then r = Inl (Err InvalidSchemaDefinition)
          else if ccs = [] then r = Inl Panic else (\<exists>t. r = Inr t \<and> table_in_catalog c2 name = Inr t)"
        if "budget d c b w" "creation_cost name ccs \<le> b" "short_names name ccs" for b
        using bad [OF that] by (simp split: if_splits)
      have "rows_with (CellVarchar name) (c2 table_instance) \<noteq> []" using named by simp
      moreover have "case r of Inl e \<Rightarrow> True | Inr t \<Rightarrow> table_made d name ccs c nt nc c2 t w'" "\<exists>e. r = Inl e" by (simp_all add: r)
      moreover have "catalog_at ?l c2 w'" "catalog_room ?l m w'" "only_stores (creation_storages nt) w w'"
        using cat2(1,3) stores by (simp_all add: r)
      ultimately show ?thesis
        using cat2(2) e(2) c2(2) others cond by blast
    next
      case True
      then obtain new where new: "r2 = Inr new" "new \<noteq> []" by blast
      let ?t = "\<lparr>table_id = tid, table_name = name, schema = \<lparr>columns = new\<rparr>\<rparr>"
      have files: "new_files d ?t w2 = (r, w')"
        using rest new by (simp add: schema_new_def)
      obtain f where f: "fsm_of ?l ?t f" using catalog_fsm [OF cat2(1)] by blast
      have cols_ne: "columns (schema ?t) \<noteq> []" using new(2) by simp
      note created = new_files_effect [OF f cols_ne files]
      have only: "only_table ?t w2 w'" by (rule changesD [OF new_files_only files])
      have at: "catalog_at ?l c2 w'" "catalog_room ?l m w'"
        using catalog_frame [OF cat2(1) only] cat2(3) lt(2) by simp_all
      have "only_stores (creation_storages nt) w2 w'"
        by (rule only_stores_mono [OF only]) (simp add: creation_storages_def lt(1) fsm_access_def)
      with stores have all: "only_stores (creation_storages nt) w w'" by (rule working.trans)
      have nonempty: "ccs \<noteq> []" using names [OF new(1)] new(2) by auto
      have valid: "\<not> (\<exists>cc \<in> set ccs. invalid_command cc)" using c2(5) new(1) by auto
      have out: "case r of Inl e \<Rightarrow> True | Inr t \<Rightarrow> table_made d name ccs c nt nc c2 t w'"
      proof (cases r)
        case (Inr u)
        then have "u = ?t" "table_history ?l ?t f {#} w'" using created(1) by simp_all
        then show ?thesis using made2 [OF new(1)] found [OF new] tid Inr by (auto simp: table_made_def)
      qed simp
      have ok: "\<exists>t. r = Inr t \<and> table_in_catalog c2 name = Inr t"
        if b: "budget d c b w" "creation_cost name ccs \<le> b" "short_names name ccs"
          and free: "w_store w (storage_file_path (TableStorage tid)) = None" "w_store w (storage_file_path (FsmStorage tid)) = None" for b
      proof -
        have "TableStorage tid \<notin> catalog_storages" "FsmStorage tid \<notin> catalog_storages"
          using lt(2) catalog_id_val by (fastforce simp: catalog_storages_def fsm_access_def i32_less_iff)+
        then have "r = Inr ?t"
          using created(2) free only_storesD [OF cat2(4)] by (simp add: fsm_access_def del: storage_file_path.simps)
        moreover have "table_in_catalog c2 name = Inr ?t" using room [OF b] valid new exact by auto
        ultimately show ?thesis by blast
      qed
      have "(\<exists>cc \<in> set ccs. invalid_command cc) \<or> ccs = [] \<longrightarrow> (\<exists>e. r = Inl e)" using nonempty valid by simp
      moreover have "rows_with (CellVarchar name) (c2 table_instance) \<noteq> []" using named by simp
      moreover have "if \<exists>cc \<in> set ccs. invalid_command cc then r = Inl (Err InvalidSchemaDefinition)
          else if ccs = [] then r = Inl Panic else (\<exists>t. r = Inr t \<and> table_in_catalog c2 name = Inr t)"
        if "budget d c b w" "creation_cost name ccs \<le> b" "short_names name ccs"
          "w_store w (storage_file_path (TableStorage tid)) = None" "w_store w (storage_file_path (FsmStorage tid)) = None" for b
        using ok [OF that] nonempty valid by simp
      ultimately show ?thesis
        unfolding next_id using at cat2(2) e(2) c2(2) all others out by blast
    qed
  qed
qed

end
