(* ===== verification/Database_Run.thy ===== *)
theory Database_Run
  imports Create_Table_Props
begin

text \<open>
  The states of a database: a new one, and what creating tables, drawing from sequences and working on
  other files makes of it. In all of them the catalog is well-formed, which gives the
  specification of \<open>create_table\<close> in terms of what a client can observe.
\<close>

section \<open>States of a database\<close>

inductive db_run :: "database \<Rightarrow> files world \<Rightarrow> bool" for d where
  new: "is_safe_dir_name name \<Longrightarrow> wd name = None \<Longrightarrow> database_new E name wd = (Inr d, wd') \<Longrightarrow>
    wd' name = Some (Directory (w_store w)) \<Longrightarrow> db_run d w"
| table_created: "db_run d w \<Longrightarrow> utf8_valid name \<Longrightarrow> \<forall>cc \<in> set ccs. utf8_valid (cc_name cc) \<Longrightarrow>
    catalog_room (db_layout d) (3 * length ccs + 1) w \<Longrightarrow> \<forall>n. hash_order_ok (env_order E n) \<Longrightarrow> 2 \<le> env_fuel E \<Longrightarrow>
    create_table file_store E d name ccs w = (r, w') \<Longrightarrow> db_run d w'"
| value_drawn: "db_run d w \<Longrightarrow> catalog_room (db_layout d) 0 w \<Longrightarrow> sequence_column tab column = Inr k \<Longrightarrow> \<forall>n. hash_order_ok (env_order E n) \<Longrightarrow>
    next_val file_store E (seq_new (ta_new seq_table_instance (db_layout d)) tab) column w = (v, w') \<Longrightarrow> db_run d w'"
| other_files: "db_run d w \<Longrightarrow>
    \<forall>st \<in> catalog_storages. w_store w' (storage_file_path st) = w_store w (storage_file_path st) \<Longrightarrow> db_run d w'"

lemma catalog_at_same:
  assumes "catalog_at l c w"
    and "\<forall>st \<in> catalog_storages. w_store w' (storage_file_path st) = w_store w (storage_file_path st)"
  shows "catalog_at l c w'"
  unfolding catalog_at_def
proof
  fix t assume t: "t \<in> catalog_tables"
  then have "same_files t w w'"
    using assms(2) by (auto simp: same_files_def catalog_storages_def simp del: storage_file_path.simps)
  then show "stored l t (c t) w'" by (rule stored_same_files(1) [OF catalog_atD [OF assms(1) t]])
qed

text \<open>A sequence that is not there, or there twice.\<close>

lemma next_val_unchanged:
  assumes at: "catalog_at (db_layout d) c w" and "sequence_column tab column = Inr k"
    and "length (rows_with (CellInt k) (c seq_table_instance)) \<noteq> 1"
    and "next_val file_store E (seq_new (ta_new seq_table_instance (db_layout d)) tab) column w = (r, w')"
  shows "w' = w" and "rows_with (CellInt k) (c seq_table_instance) = [] \<Longrightarrow> r = Inl (Err SequenceNotFound)"
proof -
  obtain q rs where q: "ta_find file_store E (ta_new seq_table_instance (db_layout d)) (str_bytes ''col_id'') (CellInt k) w = (Inr q, w)"
    "qr_schema q = schema seq_table_instance" "query_rows q (w_store w) = Inr rs"
    "map snd rs = rows_with (CellInt k) (c seq_table_instance)"
    using stored_find [OF catalog_atD [OF at catalog_member(3)] seq_column_cells(1), of E k] unfolding rows_with_def by blast
  note run = next_val_run [OF assms(2) q(1-3)]
  have len: "length rs = length (rows_with (CellInt k) (c seq_table_instance))" using arg_cong [OF q(4), of length] by simp
  then have "rs = [] \<or> 1 < length rs" using assms(3) by (cases rs; cases "tl rs") auto
  then have "\<exists>e. current_value rs 2 = Inl e" by (auto simp: current_value_def)
  then show "w' = w" using run assms(4) by auto
  show "r = Inl (Err SequenceNotFound)" if "rows_with (CellInt k) (c seq_table_instance) = []"
    using that len run assms(4) by (simp add: current_value_def)
qed

lemma sequence_rows_form:
  assumes "catalog_wf c nt nc" and "length (rows_with (CellInt k) (c seq_table_instance)) = 1"
  shows "\<exists>v. sequence_value c k v"
proof -
  obtain row where row: "rows_with (CellInt k) (c seq_table_instance) = [row]"
    using assms(2) by (auto simp: length_Suc_conv)
  then have "row \<in> set (rows_with (CellInt k) (c seq_table_instance))" by simp
  then have "row \<in> set (c seq_table_instance)" "cells row ! 1 = CellInt k" by (auto simp: rows_with_def)
  then obtain i v where "row = seq_row i k v" using catalog_wfD(11) [OF assms(1)] by fastforce
  then show ?thesis using row by (auto simp: sequence_value_def)
qed

lemma catalog_invI: "catalog_at (db_layout d) c w \<Longrightarrow> catalog_wf c nt nc \<Longrightarrow> catalog_room (db_layout d) m w \<Longrightarrow> catalog_inv w d c nt nc m w"
  by (simp add: catalog_inv_def working.refl)

lemma db_run_catalog: "db_run d w \<Longrightarrow> \<exists>c nt nc. catalog_at (db_layout d) c w \<and> catalog_wf c nt nc"
proof (induction rule: db_run.induct)
  case (new name wd E wd' w)
  obtain d' w0 where "database_new E name wd = (Inr d', wd(name \<mapsto> Directory (w_store w0)))"
    "catalog_at (db_layout d') initial_catalog w0"
    using new_database [of name wd E, OF new(1,2)] by blast
  then have "catalog_at (db_layout d) initial_catalog w"
    using new(3,4) catalog_at_same_store [of w w0] by auto
  then show ?case using initial_wf by blast
next
  case (table_created w name ccs E r w')
  then obtain c nt nc where c: "catalog_at (db_layout d) c w" "catalog_wf c nt nc" by blast
  show ?case
  proof (cases "rows_with (CellVarchar name) (c table_instance) = []")
    case True
    have "catalog_inv w d c nt nc (Suc (0 + 3 * length ccs)) w" using catalog_invI [OF c] table_created.hyps(4) by simp
    from create_table_effect [OF this table_created.hyps(5,6,2,3) True table_created.hyps(7)] show ?thesis by blast
  next
    case False
    then have "w' = w" using table_created.hyps(7) create_table_run [OF c table_created.hyps(6)] by simp
    then show ?thesis using c by blast
  qed
next
  case (value_drawn w tab column k E v w')
  then obtain c nt nc where c: "catalog_at (db_layout d) c w" "catalog_wf c nt nc" by blast
  show ?case
  proof (cases "length (rows_with (CellInt k) (c seq_table_instance)) = 1")
    case True
    then obtain u where "sequence_value c k u" using sequence_rows_form [OF c(2)] by blast
    from catalog_draw [OF catalog_invI [OF c value_drawn.hyps(2)] value_drawn.hyps(3) this value_drawn.hyps(4,5)] c
    show ?thesis unfolding catalog_inv_def by (metis (no_types))
  next
    case False
    then show ?thesis using next_val_unchanged(1) [OF c(1) value_drawn.hyps(3) _ value_drawn.hyps(5)] c by blast
  qed
next
  case (other_files w w')
  then show ?case using catalog_at_same by blast
qed

section \<open>What a client observes\<close>

lemma wf_schema:
  assumes "catalog_wf c nt nc"
  shows "\<exists>cols. schema_in_catalog c tid = schema_new cols"
proof -
  have "\<exists>col. row = column_row tid col" if "row \<in> set (rows_with (CellInt tid) (c col_table_instance))" for row
  proof -
    have "row \<in> set (c col_table_instance)" "cells row ! 1 = CellInt tid" using that by (auto simp: rows_with_def)
    then show ?thesis using catalog_wfD(10) [OF assms] by fastforce
  qed
  then obtain f where "\<forall>row \<in> set (rows_with (CellInt tid) (c col_table_instance)). row = column_row tid (f row)" by metis
  then have "rows_with (CellInt tid) (c col_table_instance) = map (column_row tid) (map f (rows_with (CellInt tid) (c col_table_instance)))"
    unfolding map_map by (intro map_idI [symmetric]) simp
  then obtain cols where "rows_with (CellInt tid) (c col_table_instance) = map (column_row tid) cols" by blast
  then have "schema_in_catalog c tid = schema_new cols"
    by (simp add: schema_in_catalog_def comp_def collect_results_Inr)
  then show ?thesis by blast
qed

lemma table_in_catalog_missing:
  assumes "catalog_wf c nt nc"
  shows "table_in_catalog c name = Inl (Err (TableNotFound name)) \<longleftrightarrow> rows_with (CellVarchar name) (c table_instance) = []"
proof (cases "rows_with (CellVarchar name) (c table_instance)")
  case (Cons row rows)
  then have "row \<in> set (c table_instance)" by (auto simp: rows_with_def filter_eq_Cons_iff)
  then obtain i n where row: "row = table_row i n" using catalog_wfD(9) [OF assms] by blast
  obtain cols where "schema_in_catalog c i = schema_new cols" using wf_schema [OF assms] by blast
  then show ?thesis
    using Cons row by (simp add: table_in_catalog_def int_cell_def index_get_def table_row_def schema_new_def split: list.split)
qed (simp add: table_in_catalog_def)

lemma table_in_catalog_id:
  assumes "catalog_wf c nt nc" and "table_in_catalog c name = Inr t"
  shows "table_id t \<le> nt"
proof -
  obtain row where one: "rows_with (CellVarchar name) (c table_instance) = [row]"
    using assms(2) by (auto simp: table_in_catalog_def split: list.splits)
  then have "row \<in> set (rows_with (CellVarchar name) (c table_instance))" by simp
  then have "row \<in> set (c table_instance)" by (simp add: rows_with_def)
  then obtain i n where "row = table_row i n" "i \<le> nt" using catalog_wfD(9) [OF assms(1)] by blast
  then show ?thesis
    using assms(2) one by (auto simp: table_in_catalog_def int_cell_def index_get_def table_row_def and_then_Inr_iff)
qed

lemma history_stored: "table_history l t f {#} w \<Longrightarrow> stored l t [] w"
  using scan_mset [OF history_ok] storedI [OF history_ok] by fastforce

text \<open>The first value of a new sequence.\<close>

lemma new_sequence:
  assumes at: "catalog_at (db_layout d) c w" and state: "sequence_state c cc col"
    and col: "sequence_column t column = Inr (col_id col)" and ord: "\<forall>n. hash_order_ok (env_order E n)"
  shows "fst (next_val file_store E (seq_new (ta_new seq_table_instance (db_layout d)) t) column w) =
    (if has_sequence cc then Inr (i32_of_int 1) else Inl (Err SequenceNotFound))"
proof -
  obtain r w' where run: "next_val file_store E (seq_new (ta_new seq_table_instance (db_layout d)) t) column w = (r, w')" by force
  show ?thesis
  proof (cases "has_sequence cc")
    case True
    then obtain i where "rows_with (CellInt (col_id col)) (c seq_table_instance) = [seq_row i (col_id col) (i32_of_int 0)]"
      using state by (auto simp: sequence_state_def sequence_value_def)
    from stored_next_val [OF catalog_atD [OF at catalog_member(3)] refl col ord this run] obtain n where
      "r = Inr n" "i32_val n = 1" by auto
    moreover from this(2) have "n = i32_of_int 1" by (simp add: i32_eq_iff)
    ultimately show ?thesis using run True by simp
  next
    case False
    then have "rows_with (CellInt (col_id col)) (c seq_table_instance) = []" using state by (simp add: sequence_state_def)
    then show ?thesis using next_val_unchanged(2) [OF at col _ run] run False by simp
  qed
qed

end
