(* ===== verification/Database_Props.thy ===== *)
theory Database_Props
  imports Database_Run
begin

text \<open>
  The specification of \<open>create_table\<close> over the states of a database, and what it does on a new one.
\<close>

section \<open>A table that was created\<close>

lemma made_columns:
  assumes "table_made d name ccs c nt nc c' t w'"
  shows "list_all2 (\<lambda>cc col. col_name col = cc_name cc \<and> col_type col = cc_type cc) ccs (columns (schema t))"
    and "distinct (map col_id (columns (schema t)))"
    and "(cc, col) \<in> set (zip ccs (columns (schema t))) \<Longrightarrow> sequence_state c' cc col"
proof -
  have made: "columns_made (table_id t) nc ccs (columns (schema t)) c c'" using assms by (simp add: table_made_def)
  then show "list_all2 (\<lambda>cc col. col_name col = cc_name cc \<and> col_type col = cc_type cc) ccs (columns (schema t))"
    by (simp add: columns_made_def)
  show "(cc, col) \<in> set (zip ccs (columns (schema t))) \<Longrightarrow> sequence_state c' cc col"
    using made by (auto simp: columns_made_def)
  have "sorted_wrt (<) (map col_id (columns (schema t)))" using made by (simp add: columns_made_def)
  then show "distinct (map col_id (columns (schema t)))" by (simp add: strict_sorted_iff)
qed

lemma made_plain:
  assumes "catalog_wf c nt nc" and "table_made d name ccs c nt nc c' t w'" and "\<forall>cc \<in> set ccs. \<not> is_unique cc"
  shows "rows_with (CellInt (table_id t)) (c' idx_table_instance) = []"
proof -
  have "nt < table_id t" using assms(2) by (simp add: table_made_def i32_less_iff)
  then have "index_cells c (table_id t) = {#}" using new_table_unused(2) [OF assms(1)] by (simp add: index_cells_def)
  moreover have "filter (is_unique \<circ> fst) (zip ccs (columns (schema t))) = []"
    using assms(3) by (auto simp: filter_empty_conv dest: set_zip_leftD)
  ultimately have "index_cells c' (table_id t) = {#}"
    using assms(2) by (simp add: table_made_def columns_made_def)
  then show ?thesis by (simp add: index_cells_def)
qed

section \<open>A new database\<close>

lemma appendable_room: "(\<forall>t \<in> catalog_tables. appendable l t n w) \<Longrightarrow> m + 3 < 2 ^ 31 \<Longrightarrow> catalog_room l m w"
  unfolding catalog_room_def by (fastforce simp: appendable_def)

lemma commands_cost_length: "80 * length ccs \<le> commands_cost ccs"
  by (induction ccs) (simp_all add: commands_cost_def)

lemma new_budget:
  assumes "db_layout d = layout_4096" and "\<forall>t \<in> catalog_tables. appendable (db_layout d) t 3500 w"
  shows "budget d initial_catalog 3400 w"
  using assms initial_sequences
  by (fastforce simp: budget_def layout_4096 intro: appendable_less)

text \<open>The first table of a new database.\<close>

lemma first_table_outcome:
  assumes d: "catalog_at (db_layout d) initial_catalog w" "db_layout d = layout_4096"
      "\<forall>t \<in> catalog_tables. appendable (db_layout d) t 3500 w"
      "\<forall>st. st \<notin> catalog_storages \<longrightarrow> w_store w (storage_file_path st) = None"
    and str: "utf8_valid name" "\<forall>cc \<in> set ccs. utf8_valid (cc_name cc)"
    and small: "short_names name ccs" "creation_cost name ccs \<le> 3400"
    and ord: "\<forall>n. hash_order_ok (env_order E n)" and fuel: "2 \<le> env_fuel E"
  shows "\<exists>r w'. create_table file_store E d name ccs w = (r, w') \<and>
    (if name \<in> table_name ` catalog_tables then r = Inl (Err TableAlreadyExists)
     else if \<exists>cc \<in> set ccs. invalid_command cc then r = Inl (Err InvalidSchemaDefinition)
     else if ccs = [] then r = Inl Panic
     else \<exists>t. r = Inr t \<and> read_table file_store E d name w' = (Inr t, w')) \<and>
    (\<forall>ccs'. create_table file_store E d name ccs' w' = (Inl (Err TableAlreadyExists), w'))"
proof -
  let ?c = initial_catalog
  obtain r w' where run: "create_table file_store E d name ccs w = (r, w')" by force
  have names: "rows_with (CellVarchar name) (?c table_instance) = [] \<longleftrightarrow> name \<notin> table_name ` catalog_tables"
    by (auto simp: rows_with_def table_rows_def str_lit_def catalog_tables_def)
  show ?thesis
  proof (cases "name \<in> table_name ` catalog_tables")
    case True
    then have "create_table file_store E d name ccs' w = (Inl (Err TableAlreadyExists), w)" for ccs'
      using names by (simp add: create_table_run [OF d(1) initial_wf fuel])
    then show ?thesis using True by simp
  next
    case False
    have len: "3 * length ccs + 4 < 2 ^ 31"
      using small(2) commands_cost_length [of ccs] by (simp add: creation_cost_def)
    have inv: "catalog_inv w d ?c (i32_of_int 4) (i32_of_int 120) (Suc (0 + 3 * length ccs)) w"
      using len by (intro catalog_invI [OF d(1) initial_wf] appendable_room [OF d(3)]) simp
    have fresh: "rows_with (CellVarchar name) (?c table_instance) = []" using False names by blast
    obtain c' nt' nc' where c': "catalog_at (db_layout d) c' w'" "catalog_wf c' nt' nc'"
      "\<forall>b. budget d ?c b w \<and> creation_cost name ccs \<le> b \<and> short_names name ccs \<and>
          w_store w (storage_file_path (TableStorage (i32_of_int (i32_val (i32_of_int 4) + 1)))) = None \<and>
          w_store w (storage_file_path (FsmStorage (i32_of_int (i32_val (i32_of_int 4) + 1)))) = None \<longrightarrow>
         rows_with (CellVarchar name) (c' table_instance) \<noteq> [] \<and>
         (if \<exists>cc \<in> set ccs. invalid_command cc then r = Inl (Err InvalidSchemaDefinition)
          else if ccs = [] then r = Inl Panic
          else \<exists>t. r = Inr t \<and> table_in_catalog c' name = Inr t)"
      using create_table_effect [OF inv ord fuel str fresh run] by blast
    have "TableStorage (i32_of_int 5) \<notin> catalog_storages" "FsmStorage (i32_of_int 5) \<notin> catalog_storages"
      by (auto simp: catalog_storages_def catalog_tables_def fsm_access_def i32_lit_eq)
    then have out: "rows_with (CellVarchar name) (c' table_instance) \<noteq> []"
      "if \<exists>cc \<in> set ccs. invalid_command cc then r = Inl (Err InvalidSchemaDefinition)
       else if ccs = [] then r = Inl Panic
       else \<exists>t. r = Inr t \<and> table_in_catalog c' name = Inr t"
      using spec [OF c'(3), of 3400] new_budget [OF d(2,3)] small(2,1) d(4) by (simp_all del: storage_file_path.simps)
    have "create_table file_store E d name ccs' w' = (Inl (Err TableAlreadyExists), w')" for ccs'
      using out(1) by (simp add: create_table_run [OF c'(1,2) fuel])
    moreover have "read_table file_store E d name w' = (table_in_catalog c' name, w')" by (rule read_table_eq [OF c'(1)])
    ultimately show ?thesis using run False out(2) by auto
  qed
qed

section \<open>Properties\<close>

text \<open>
  C8. In every state of a database, \<open>create_table\<close> refuses a name that is not reported as missing, and
  then changes nothing. Otherwise, whether it succeeds or fails, every other name is looked up as
  before and every other table of a user keeps its rows. When it succeeds, the new table has an id of its own,
  the commanded columns under distinct ids, and no rows; it is found under its name, with its columns in
  some order; a column has a sequence that starts at 1 exactly when it was asked for; and without an
  unique column the table is opened without an index.
\<close>

theorem create_table_spec:
  assumes run: "db_run d w" and str: "utf8_valid name" "\<forall>cc \<in> set ccs. utf8_valid (cc_name cc)"
    and room: "catalog_room (db_layout d) (3 * length ccs + 1) w" and ord: "\<forall>n. hash_order_ok (env_order E n)"
    and fuel: "2 \<le> env_fuel E" and create: "create_table file_store E d name ccs w = (r, w')"
  shows "if fst (read_table file_store E d name w) \<noteq> Inl (Err (TableNotFound name))
    then r = Inl (Err TableAlreadyExists) \<and> w' = w
    else
      (\<forall>other. other \<noteq> name \<longrightarrow>
         fst (read_table file_store E d other w') = fst (read_table file_store E d other w) \<and>
         (\<forall>u. fst (read_table file_store E d other w) = Inr u \<and> i32_of_int 4 < table_id u \<longrightarrow>
            (\<forall>rows. stored (db_layout d) u rows w \<longrightarrow> stored (db_layout d) u rows w'))) \<and>
      (\<forall>t. r = Inr t \<longrightarrow>
         table_name t = name \<and>
         (\<forall>other u. fst (read_table file_store E d other w) = Inr u \<longrightarrow> table_id u \<noteq> table_id t) \<and>
         list_all2 (\<lambda>cc col. col_name col = cc_name cc \<and> col_type col = cc_type cc) ccs (columns (schema t)) \<and>
         distinct (map col_id (columns (schema t))) \<and>
         stored (db_layout d) t [] w' \<and>
         (\<exists>cols. mset cols = mset (columns (schema t)) \<and>
            read_table file_store E d name w' = (Inr (t\<lparr>schema := \<lparr>columns = cols\<rparr>\<rparr>), w')) \<and>
         (\<forall>(cc, col) \<in> set (zip ccs (columns (schema t))). sequence_column t (col_name col) = Inr (col_id col) \<longrightarrow>
            (\<exists>a. seq_access_for_table file_store E d t w' = (Inr a, w') \<and>
               fst (next_val file_store E a (col_name col) w') =
                 (if has_sequence cc then Inr (i32_of_int 1) else Inl (Err SequenceNotFound)))) \<and>
         ((\<forall>cc \<in> set ccs. \<not> is_unique cc) \<longrightarrow>
            db_table_access file_store E d t w' = (Inr (ta_new t (db_layout d)), w')))"
proof -
  let ?l = "db_layout d"
  obtain c nt nc where c: "catalog_at ?l c w" "catalog_wf c nt nc" using db_run_catalog [OF run] by blast
  note read = read_table_eq [OF c(1), of E]
  show ?thesis
  proof (cases "rows_with (CellVarchar name) (c table_instance) = []")
    case False
    then have "fst (read_table file_store E d name w) \<noteq> Inl (Err (TableNotFound name))"
      by (simp add: read table_in_catalog_missing [OF c(2)])
    then show ?thesis using False create create_table_run [OF c fuel] by simp
  next
    case True
    have "catalog_inv w d c nt nc (Suc (0 + 3 * length ccs)) w" using catalog_invI [OF c] room by simp
    from create_table_effect [OF this ord fuel str True create] obtain c' nt' nc' where
      c': "catalog_at ?l c' w'" "catalog_wf c' nt' nc'" "only_stores (creation_storages nt) w w'"
        "\<And>other. other \<noteq> name \<Longrightarrow> table_in_catalog c' other = table_in_catalog c other"
        "case r of Inl e \<Rightarrow> True | Inr t \<Rightarrow> table_made d name ccs c nt nc c' t w'"
      by blast
    note read' = read_table_eq [OF c'(1), of E]
    have others: "fst (read_table file_store E d other w') = fst (read_table file_store E d other w)" if "other \<noteq> name" for other
      using c'(4) [OF that] by (simp add: read read')
    have kept: "stored ?l u rows w'"
      if u: "fst (read_table file_store E d other w) = Inr u" "i32_of_int 4 < table_id u" and rows: "stored ?l u rows w" for other u rows
    proof (rule stored_same_files(1) [OF rows])
      have "table_id u \<le> nt" using table_in_catalog_id [OF c(2)] u(1) by (simp add: read)
      then have "st \<notin> creation_storages nt" if "st \<in> {TableStorage (table_id u), fsm_access u}" for st
        using that u(2) catalog_id_val by (fastforce simp: creation_storages_def catalog_storages_def fsm_access_def i32_less_iff i32_le_iff)
      then show "same_files u w w'" unfolding same_files_def using only_storesD [OF c'(3)] by blast
    qed
    have "fst (read_table file_store E d name w) = Inl (Err (TableNotFound name))"
      using True by (simp add: read table_in_catalog_missing [OF c(2)])
    moreover have "table_name t = name \<and>
         (\<forall>other u. fst (read_table file_store E d other w) = Inr u \<longrightarrow> table_id u \<noteq> table_id t) \<and>
         list_all2 (\<lambda>cc col. col_name col = cc_name cc \<and> col_type col = cc_type cc) ccs (columns (schema t)) \<and>
         distinct (map col_id (columns (schema t))) \<and> stored ?l t [] w' \<and>
         (\<exists>cols. mset cols = mset (columns (schema t)) \<and>
            read_table file_store E d name w' = (Inr (t\<lparr>schema := \<lparr>columns = cols\<rparr>\<rparr>), w')) \<and>
         (\<forall>(cc, col) \<in> set (zip ccs (columns (schema t))). sequence_column t (col_name col) = Inr (col_id col) \<longrightarrow>
            (\<exists>a. seq_access_for_table file_store E d t w' = (Inr a, w') \<and>
               fst (next_val file_store E a (col_name col) w') =
                 (if has_sequence cc then Inr (i32_of_int 1) else Inl (Err SequenceNotFound)))) \<and>
         ((\<forall>cc \<in> set ccs. \<not> is_unique cc) \<longrightarrow>
            db_table_access file_store E d t w' = (Inr (ta_new t (db_layout d)), w'))"
      if t: "r = Inr t" for t
    proof (intro conjI)
      have made: "table_made d name ccs c nt nc c' t w'" using c'(5) t by simp
      then show "table_name t = name" "stored ?l t [] w'"
        using history_stored by (auto simp: table_made_def)
      have "nt < table_id t" using made by (simp add: table_made_def i32_less_iff)
      then show "\<forall>other u. fst (read_table file_store E d other w) = Inr u \<longrightarrow> table_id u \<noteq> table_id t"
        using table_in_catalog_id [OF c(2)] by (fastforce simp: read)
      show "\<exists>cols. mset cols = mset (columns (schema t)) \<and>
          read_table file_store E d name w' = (Inr (t\<lparr>schema := \<lparr>columns = cols\<rparr>\<rparr>), w')"
        using made by (auto simp: table_made_def read')
      show "\<forall>(cc, col) \<in> set (zip ccs (columns (schema t))). sequence_column t (col_name col) = Inr (col_id col) \<longrightarrow>
          (\<exists>a. seq_access_for_table file_store E d t w' = (Inr a, w') \<and>
             fst (next_val file_store E a (col_name col) w') =
               (if has_sequence cc then Inr (i32_of_int 1) else Inl (Err SequenceNotFound)))"
        using catalog_seq_access [OF c'(1,2)] new_sequence [OF c'(1) made_columns(3) [OF made] _ ord] by fastforce
      show "(\<forall>cc \<in> set ccs. \<not> is_unique cc) \<longrightarrow> db_table_access file_store E d t w' = (Inr (ta_new t ?l), w')"
        unfolding db_table_access_def using open_plain_table [OF c'(1,2) fuel made_plain [OF c(2) made]] by simp
    qed (use made_columns [of d name ccs c nt nc c' t w'] c'(5) t in simp_all)
    moreover have "\<forall>other. other \<noteq> name \<longrightarrow>
         fst (read_table file_store E d other w') = fst (read_table file_store E d other w) \<and>
         (\<forall>u. fst (read_table file_store E d other w) = Inr u \<and> i32_of_int 4 < table_id u \<longrightarrow>
            (\<forall>rows. stored (db_layout d) u rows w \<longrightarrow> stored (db_layout d) u rows w'))"
      using others kept by blast
    ultimately show ?thesis by simp
  qed
qed

text \<open>A new database and a table with two columns, one of them with a sequence.\<close>

definition shop_commands :: "create_column_command list" where
  "shop_commands = map command_of_triple [(str_bytes ''id'', TInt, True), (str_bytes ''name'', TVarchar 8, False)]"

lemma shop_ok:
  "is_safe_dir_name (str_bytes ''shop'')" "utf8_valid (str_bytes ''users'')" "\<forall>cc \<in> set shop_commands. utf8_valid (cc_name cc)"
  "short_names (str_bytes ''users'') shop_commands" "creation_cost (str_bytes ''users'') shop_commands \<le> 3400"
  "\<forall>cc \<in> set shop_commands. \<not> is_unique cc" "\<not> (\<exists>cc \<in> set shop_commands. invalid_command cc)" "shop_commands \<noteq> []"
  "str_bytes ''users'' \<notin> table_name ` catalog_tables" "\<forall>n. hash_order_ok (env_order plain_env n)" "2 \<le> env_fuel plain_env"
proof -
  have a: "is_safe_dir_name (str_bytes ''shop'')" "utf8_valid (str_bytes ''users'')"
    "list_all (\<lambda>cc. utf8_valid (cc_name cc) \<and> length (cc_name cc) \<le> 512 \<and> \<not> is_unique cc \<and> \<not> invalid_command cc) shop_commands"
    "creation_cost (str_bytes ''users'') shop_commands \<le> 3400" "length (str_bytes ''users'') \<le> 512" "shop_commands \<noteq> []"
    by code_simp+
  show "is_safe_dir_name (str_bytes ''shop'')" "utf8_valid (str_bytes ''users'')" "\<forall>cc \<in> set shop_commands. utf8_valid (cc_name cc)"
    "short_names (str_bytes ''users'') shop_commands" "creation_cost (str_bytes ''users'') shop_commands \<le> 3400"
    "\<forall>cc \<in> set shop_commands. \<not> is_unique cc" "\<not> (\<exists>cc \<in> set shop_commands. invalid_command cc)" "shop_commands \<noteq> []"
    using a by (simp_all add: list_all_iff short_names_def)
  show "str_bytes ''users'' \<notin> table_name ` catalog_tables" by (auto simp: catalog_tables_def str_bytes_def)
  show "\<forall>n. hash_order_ok (env_order plain_env n)" "2 \<le> env_fuel plain_env" by (simp_all add: plain_env_def hash_order_ok_def)
qed

lemma shop:
  obtains d w where "database_new plain_env (str_bytes ''shop'') Map.empty = (Inr d, [str_bytes ''shop'' \<mapsto> Directory (w_store w)])"
    and "db_run d w" and "catalog_room (db_layout d) (3 * length shop_commands + 1) w"
    and "catalog_at (db_layout d) initial_catalog w" and "db_layout d = layout_4096"
    and "\<forall>t \<in> catalog_tables. appendable (db_layout d) t 3500 w"
    and "\<forall>st. st \<notin> catalog_storages \<longrightarrow> w_store w (storage_file_path st) = None"
proof -
  obtain d w where d: "database_new plain_env (str_bytes ''shop'') Map.empty = (Inr d, [str_bytes ''shop'' \<mapsto> Directory (w_store w)])"
    "catalog_at (db_layout d) initial_catalog w" "db_layout d = layout_4096"
    "\<forall>t \<in> catalog_tables. appendable (db_layout d) t 3500 w"
    "\<forall>st. st \<notin> catalog_storages \<longrightarrow> w_store w (storage_file_path st) = None"
    using new_database [of "str_bytes ''shop''" Map.empty plain_env, OF shop_ok(1)] by auto
  moreover have "db_run d w" by (rule db_run.new [OF shop_ok(1) _ d(1)]) simp_all
  moreover have "catalog_room (db_layout d) (3 * length shop_commands + 1) w"
    by (rule appendable_room [OF d(4)]) (simp add: shop_commands_def)
  ultimately show thesis using that by blast
qed

theorem create_table_spec_witness:
  "\<exists>d w t w'. database_new plain_env (str_bytes ''shop'') Map.empty = (Inr d, [str_bytes ''shop'' \<mapsto> Directory (w_store w)]) \<and>
     create_table file_store plain_env d (str_bytes ''users'') shop_commands w = (Inr t, w') \<and>
     stored (db_layout d) t [] w' \<and> db_table_access file_store plain_env d t w' = (Inr (ta_new t (db_layout d)), w') \<and>
     fst (read_table file_store plain_env d (str_bytes ''indexes'') w') = Inr idx_table_instance"
proof -
  obtain d w where d: "database_new plain_env (str_bytes ''shop'') Map.empty = (Inr d, [str_bytes ''shop'' \<mapsto> Directory (w_store w)])"
    "db_run d w" "catalog_room (db_layout d) (3 * length shop_commands + 1) w"
    "catalog_at (db_layout d) initial_catalog w" "db_layout d = layout_4096"
    "\<forall>t \<in> catalog_tables. appendable (db_layout d) t 3500 w"
    "\<forall>st. st \<notin> catalog_storages \<longrightarrow> w_store w (storage_file_path st) = None"
    by (rule shop)
  obtain t w' where run: "create_table file_store plain_env d (str_bytes ''users'') shop_commands w = (Inr t, w')"
    using first_table_outcome [OF d(4-7) shop_ok(2-5,10,11)] shop_ok(7-9) by auto
  have "rows_with (CellVarchar (str_bytes ''users'')) (initial_catalog table_instance) = []" by code_simp
  then have "fst (read_table file_store plain_env d (str_bytes ''users'') w) = Inl (Err (TableNotFound (str_bytes ''users'')))"
    by (simp add: read_table_eq [OF d(4)] table_in_catalog_missing [OF initial_wf])
  moreover have "str_bytes ''indexes'' \<noteq> str_bytes ''users''" by (simp add: str_bytes_def)
  moreover have "fst (read_table file_store plain_env d (str_bytes ''indexes'') w) = Inr idx_table_instance"
    using catalog_reads(4) [OF d(4) initial_wf] by simp
  ultimately show ?thesis
    using create_table_spec [OF d(2) shop_ok(2,3) d(3) shop_ok(10,11) run] d(1) run shop_ok(6)
    by (intro exI [of _ d] exI [of _ w] exI [of _ t] exI [of _ w']) simp
qed

text \<open>
  C10. What \<open>create_table\<close> returns on a new database for names of at most 512 bytes that fit its first
  pages: it refuses the names of the catalog tables, reports a sequence or an unique index on a column
  that is not of type Int, panics on an empty list of columns, and else succeeds, and the table is then read
  as it was returned. In every case, failures included, the name is taken afterwards.
\<close>

theorem first_table_created:
  assumes db: "is_safe_dir_name dbname" "wd dbname = None"
    and str: "utf8_valid name" "\<forall>cc \<in> set ccs. utf8_valid (cc_name cc)"
    and small: "length name \<le> 512 \<and> (\<forall>cc \<in> set ccs. length (cc_name cc) \<le> 512)"
      "14 + length name + sum_list (map (\<lambda>cc. 80 + length (cc_name cc)) ccs) \<le> 3400"
    and ord: "\<forall>n. hash_order_ok (env_order E n)" and fuel: "2 \<le> env_fuel E"
  shows "\<exists>d fs. database_new E dbname wd = (Inr d, wd(dbname \<mapsto> Directory fs)) \<and>
    (\<forall>w. w_store w = fs \<longrightarrow>
      (\<exists>r w'. create_table file_store E d name ccs w = (r, w') \<and>
        (if name \<in> table_name ` catalog_tables then r = Inl (Err TableAlreadyExists)
         else if \<exists>cc \<in> set ccs. (is_unique cc \<or> has_sequence cc) \<and> cc_type cc \<noteq> TInt then r = Inl (Err InvalidSchemaDefinition)
         else if ccs = [] then r = Inl Panic
         else \<exists>t. r = Inr t \<and> read_table file_store E d name w' = (Inr t, w')) \<and>
        (\<forall>ccs'. create_table file_store E d name ccs' w' = (Inl (Err TableAlreadyExists), w'))))"
proof -
  obtain d w0 where d: "database_new E dbname wd = (Inr d, wd(dbname \<mapsto> Directory (w_store w0)))"
    "catalog_at (db_layout d) initial_catalog w0" "db_layout d = layout_4096"
    "\<forall>t \<in> catalog_tables. appendable (db_layout d) t 3500 w0"
    "\<forall>st. st \<notin> catalog_storages \<longrightarrow> w_store w0 (storage_file_path st) = None"
    using new_database [of dbname wd E, OF db] by auto
  have small': "short_names name ccs" "creation_cost name ccs \<le> 3400"
    using small by (simp_all add: short_names_def creation_cost_def commands_cost_def)
  have "\<exists>r w'. create_table file_store E d name ccs w = (r, w') \<and>
      (if name \<in> table_name ` catalog_tables then r = Inl (Err TableAlreadyExists)
       else if \<exists>cc \<in> set ccs. invalid_command cc then r = Inl (Err InvalidSchemaDefinition)
       else if ccs = [] then r = Inl Panic
       else \<exists>t. r = Inr t \<and> read_table file_store E d name w' = (Inr t, w')) \<and>
      (\<forall>ccs'. create_table file_store E d name ccs' w' = (Inl (Err TableAlreadyExists), w'))"
    if w: "w_store w = w_store w0" for w
  proof (rule first_table_outcome [OF _ d(3) _ _ str small' ord fuel])
    show "catalog_at (db_layout d) initial_catalog w" using d(2) catalog_at_same_store [OF w] by simp
    have "same_files t w0 w" for t using w by (simp add: same_files_def del: storage_file_path.simps)
    then show "\<forall>t \<in> catalog_tables. appendable (db_layout d) t 3500 w" using d(4) appendable_same_files by blast
    show "\<forall>st. st \<notin> catalog_storages \<longrightarrow> w_store w (storage_file_path st) = None" using d(5) w by simp
  qed
  then show ?thesis unfolding invalid_command_def using d(1) by blast
qed

theorem first_table_created_witness:
  "\<exists>d fs r w'. database_new plain_env (str_bytes ''shop'') Map.empty = (Inr d, [str_bytes ''shop'' \<mapsto> Directory fs]) \<and>
     create_table file_store plain_env d (str_bytes ''users'')
       [\<lparr>cc_name = str_bytes ''name'', cc_type = TByte, has_sequence = True, is_unique = False\<rparr>]
       \<lparr>w_store = fs, w_handles = [], w_ticks = 0\<rparr> = (Inl (Err InvalidSchemaDefinition), w') \<and>
     create_table file_store plain_env d (str_bytes ''users'') shop_commands w' = (Inl (Err TableAlreadyExists), w')"
proof -
  let ?ccs = "[\<lparr>cc_name = str_bytes ''name'', cc_type = TByte, has_sequence = True, is_unique = False\<rparr>]"
  have ok: "\<forall>cc \<in> set ?ccs. utf8_valid (cc_name cc)"
    "length (str_bytes ''users'') \<le> 512 \<and> (\<forall>cc \<in> set ?ccs. length (cc_name cc) \<le> 512)"
    "14 + length (str_bytes ''users'') + sum_list (map (\<lambda>cc. 80 + length (cc_name cc)) ?ccs) \<le> 3400"
    by (simp_all add: str_bytes_def)
  have none: "Map.empty (str_bytes ''shop'') = None" by simp
  obtain d fs where d: "database_new plain_env (str_bytes ''shop'') Map.empty = (Inr d, [str_bytes ''shop'' \<mapsto> Directory fs])"
    "\<forall>w. w_store w = fs \<longrightarrow>
      (\<exists>r w'. create_table file_store plain_env d (str_bytes ''users'') ?ccs w = (r, w') \<and>
        (if str_bytes ''users'' \<in> table_name ` catalog_tables then r = Inl (Err TableAlreadyExists)
         else if \<exists>cc \<in> set ?ccs. (is_unique cc \<or> has_sequence cc) \<and> cc_type cc \<noteq> TInt then r = Inl (Err InvalidSchemaDefinition)
         else if ?ccs = [] then r = Inl Panic
         else \<exists>t. r = Inr t \<and> read_table file_store plain_env d (str_bytes ''users'') w' = (Inr t, w')) \<and>
        (\<forall>ccs'. create_table file_store plain_env d (str_bytes ''users'') ccs' w' = (Inl (Err TableAlreadyExists), w')))"
    using first_table_created [OF shop_ok(1) none shop_ok(2) ok shop_ok(10,11)] by blast
  let ?w = "\<lparr>w_store = fs, w_handles = [], w_ticks = 0\<rparr>"
  obtain r w' where "create_table file_store plain_env d (str_bytes ''users'') ?ccs ?w = (r, w')"
    "r = Inl (Err InvalidSchemaDefinition)"
    "\<forall>ccs'. create_table file_store plain_env d (str_bytes ''users'') ccs' w' = (Inl (Err TableAlreadyExists), w')"
    using spec [OF d(2), of ?w] shop_ok(9) by auto
  then show ?thesis using d(1) by blast
qed

end
