(* ===== verification/Drop_Table.thy ===== *)
theory Drop_Table
  imports Database_Props
begin

text \<open>
  Dropping a table: the rows that describe it are gone from \<open>tables\<close> and \<open>columns\<close> and its
  page file is gone, while every other table is found as before. Afterwards the catalog can be read; its
  deleted slots have different lengths, so nothing is said of later insertions into it.
\<close>

section \<open>Steps on a catalog that can be read\<close>

lemma catalog_seen_step:
  assumes "catalog_seen l c w" and "t \<in> catalog_tables" and "only_table t w w'" and "legible l t rows w'"
  shows "catalog_seen l (c(t := rows)) w'"
  unfolding catalog_seen_def
proof
  fix t' assume t': "t' \<in> catalog_tables"
  show "legible l t' ((c(t := rows)) t') w'"
  proof (cases "t' = t")
    case False
    then have "table_id t \<noteq> table_id t'" using catalog_id_inj [OF assms(2) t'] by blast
    then show ?thesis
      using False legible_frame [OF catalog_seenD [OF assms(1) t'] assms(3)] by simp
  qed (simp add: assms(4))
qed

lemma catalog_seen_same:
  assumes "catalog_seen l c w"
    and "\<forall>st \<in> catalog_storages. w_store w' (storage_file_path st) = w_store w (storage_file_path st)"
  shows "catalog_seen l c w'"
  unfolding catalog_seen_def
proof
  fix t assume t: "t \<in> catalog_tables"
  then have "same_files t w w'"
    using assms(2) by (auto simp: same_files_def catalog_storages_def simp del: storage_file_path.simps)
  then show "legible l t (c t) w'" by (rule legible_same_files [OF catalog_seenD [OF assms(1) t]])
qed

definition without :: "cell \<Rightarrow> row list \<Rightarrow> row list" where
  "without x rows = filter (\<lambda>row. cells row ! 1 \<noteq> x) rows"

lemma rows_with_without [simp]: "rows_with y (without x rows) = (if x = y then [] else rows_with y rows)"
  by (auto simp: rows_with_def without_def intro!: filter_cong)

lemma without_subset: "row \<in> set (without x rows) \<Longrightarrow> row \<in> set rows"
  by (simp add: without_def)

text \<open>Deleting the rows that a query of the second column finds.\<close>

lemma delete_catalog_rows:
  assumes "catalog_seen (db_layout d) c w" and t: "t \<in> catalog_tables" and ord: "\<forall>n. hash_order_ok (env_order E n)"
    and col: "find_column_for_query_by_cell (schema t) column x = Inr 1"
  shows "\<exists>q w'. ta_find file_store E (ta_new t (db_layout d)) column x w = (Inr q, w) \<and>
    ta_delete file_store E (ta_new t (db_layout d)) q w = (Inr (), w') \<and>
    catalog_seen (db_layout d) (c(t := without x (c t))) w' \<and> only_stores catalog_storages w w'"
proof -
  note leg = catalog_seenD [OF assms(1) t]
  obtain q where q: "ta_find file_store E (ta_new t (db_layout d)) column x w = (Inr q, w)"
    using legible_find [OF leg col, of E] by blast
  obtain w' where w': "ta_delete file_store E (ta_new t (db_layout d)) q w = (Inr (), w')"
    "legible (db_layout d) t (without x (c t)) w'"
    using legible_delete [OF leg ord col q] unfolding without_def by blast
  have only: "only_table t w w'" by (rule changesD [OF delete_only w'(1)])
  show ?thesis
    using q w'(1) catalog_seen_step [OF assms(1) t only w'(2)] only_catalog [OF only t] by blast
qed

section \<open>Ids are not shared\<close>

lemma table_row_unique:
  assumes "catalog_wf c nt nc" and "row \<in> set (c table_instance)" and "row' \<in> set (c table_instance)"
    and "cells row ! 0 = cells row' ! 0"
  shows "row = row'"
  using catalog_wfD(13) [OF assms(1)] assms(2-4) by (auto simp: distinct_map dest: inj_onD)

lemma table_in_catalog_row:
  assumes "catalog_wf c nt nc" and "table_in_catalog c name = Inr t"
  shows "rows_with (CellVarchar name) (c table_instance) = [table_row (table_id t) name]"
    and "table_row (table_id t) name \<in> set (c table_instance)" and "table_name t = name"
proof -
  obtain row where one: "rows_with (CellVarchar name) (c table_instance) = [row]"
    using assms(2) by (auto simp: table_in_catalog_def split: list.splits)
  then have "row \<in> set (rows_with (CellVarchar name) (c table_instance))" by simp
  then have row: "row \<in> set (c table_instance)" "cells row ! 1 = CellVarchar name" by (simp_all add: rows_with_def)
  obtain i n where "row = table_row i n" using catalog_wfD(9) [OF assms(1) row(1)] by blast
  moreover from this have "n = name" using row(2) by simp
  moreover have "table_id t = i" "table_name t = name"
    using assms(2) one calculation by (auto simp: table_in_catalog_def int_cell_def index_get_def table_row_def and_then_Inr_iff)
  ultimately show "rows_with (CellVarchar name) (c table_instance) = [table_row (table_id t) name]"
    "table_row (table_id t) name \<in> set (c table_instance)" "table_name t = name"
    using one row(1) by simp_all
qed

lemma same_table_id:
  assumes "catalog_wf c nt nc" and "table_in_catalog c name = Inr t" and "table_row (table_id t) other \<in> set (c table_instance)"
  shows "other = name"
proof -
  have "table_row (table_id t) other = table_row (table_id t) name"
    by (rule table_row_unique [OF assms(1,3) table_in_catalog_row(2) [OF assms(1,2)]]) simp
  then show ?thesis by (simp add: table_row_def)
qed

lemma user_table_id:
  assumes "catalog_wf c nt nc" and "table_in_catalog c name = Inr t" and "name \<notin> table_name ` catalog_tables" and "u \<in> catalog_tables"
  shows "table_id u \<noteq> table_id t"
proof
  assume id: "table_id u = table_id t"
  have "table_row (table_id u) (table_name u) \<in> set (rows_with (CellVarchar (table_name u)) (c table_instance))"
    using catalog_wfD(1) [OF assms(1,4)] by simp
  then have "table_row (table_id t) (table_name u) \<in> set (c table_instance)" by (simp add: id rows_with_def)
  then show False using same_table_id [OF assms(1,2)] assms(3,4) by blast
qed

section \<open>The catalog after a drop\<close>

definition dropped :: "catalog \<Rightarrow> rstring \<Rightarrow> i32 \<Rightarrow> catalog" where
  "dropped c name tid =
     c(table_instance := without (CellVarchar name) (c table_instance),
       col_table_instance := without (CellInt tid) (c col_table_instance))"

lemma distinct_without: "distinct (map f rows) \<Longrightarrow> distinct (map f (without x rows))"
  unfolding without_def by (rule distinct_map_filter)

lemma wf_without_name:
  assumes wf: "catalog_wf c nt nc" and "name \<notin> table_name ` catalog_tables"
  shows "catalog_wf (c(table_instance := without (CellVarchar name) (c table_instance))) nt nc"
proof (rule catalog_wf_change [OF wf order_refl order_refl])
  let ?c = "c(table_instance := without (CellVarchar name) (c table_instance))"
  show "rows_with (CellVarchar (table_name t)) (?c table_instance) = rows_with (CellVarchar (table_name t)) (c table_instance)"
    if "t \<in> catalog_tables" for t
    using that assms(2) by auto
  show "distinct (map (\<lambda>row. cells row ! 0) (?c table_instance))"
    using distinct_without [OF catalog_wfD(13) [OF wf]] by simp
  show "\<And>row. row \<in> set (?c table_instance) \<Longrightarrow> row \<in> set (c table_instance) \<or> (\<exists>i n. row = table_row i n \<and> i \<le> nt)"
    using without_subset by auto
qed (use catalog_wfD(3-6) [OF wf] in \<open>simp_all add: sequence_value_def\<close>)

lemma wf_without_columns:
  assumes wf: "catalog_wf c nt nc" and "\<And>t. t \<in> catalog_tables \<Longrightarrow> table_id t \<noteq> tid"
  shows "catalog_wf (c(col_table_instance := without (CellInt tid) (c col_table_instance))) nt nc"
proof (rule catalog_wf_change [OF wf order_refl order_refl])
  let ?c = "c(col_table_instance := without (CellInt tid) (c col_table_instance))"
  show "rows_with (CellInt (table_id t)) (?c col_table_instance) = rows_with (CellInt (table_id t)) (c col_table_instance)"
    if "t \<in> catalog_tables" for t
    using assms(2) [OF that] by auto
  show "\<And>row. row \<in> set (?c col_table_instance) \<Longrightarrow>
      row \<in> set (c col_table_instance) \<or> (\<exists>tid col. row = column_row tid col \<and> tid \<le> nt)"
    using without_subset by auto
qed (use catalog_wfD(3-6,13) [OF wf] in \<open>simp_all add: sequence_value_def\<close>)

lemma file_delete_effect:
  assumes "at_store g (st_delete file_store st) w = (r, w')"
  shows "only_stores {st} w w'" and "r = Inr () \<longleftrightarrow> w_store w (storage_file_path st) \<noteq> None"
    and "w_store w' (storage_file_path st) = None"
  using assms
  by (auto simp: at_store_def file_store_def file_delete_def remove_file_def only_stores_def only_files_def
      split: sum.splits option.splits if_splits simp del: storage_file_path.simps)

lemma drop_table_effect:
  assumes at: "catalog_at (db_layout d) c w" and wf: "catalog_wf c nt nc" and ord: "\<forall>n. hash_order_ok (env_order E n)"
    and fuel: "2 \<le> env_fuel E" and name: "name \<notin> table_name ` catalog_tables" and t: "table_in_catalog c name = Inr t"
    and run: "drop_table file_store E d name w = (r, w')"
  shows "catalog_seen (db_layout d) (dropped c name (table_id t)) w'" and "catalog_wf (dropped c name (table_id t)) nt nc"
    and "only_stores (insert (TableStorage (table_id t)) catalog_storages) w w'"
    and "r = Inr () \<longleftrightarrow> w_store w (storage_file_path (TableStorage (table_id t))) \<noteq> None"
    and "w_store w' (storage_file_path (TableStorage (table_id t))) = None"
proof -
  let ?l = "db_layout d" and ?tab = "TableStorage (table_id t)"
  let ?c1 = "c(table_instance := without (CellVarchar name) (c table_instance))"
  note seen = catalog_at_seen [OF at]
  have other: "table_id u \<noteq> table_id t" if "u \<in> catalog_tables" for u by (rule user_table_id [OF wf t name that])
  obtain q w1 where w1: "ta_find file_store E (ta_new table_instance ?l) (str_bytes ''name'') (CellVarchar name) w = (Inr q, w)"
    "ta_delete file_store E (ta_new table_instance ?l) q w = (Inr (), w1)" "catalog_seen ?l ?c1 w1" "only_stores catalog_storages w w1"
    using delete_catalog_rows [OF seen catalog_member(1) ord catalog_columns(1)] by blast
  have wf1: "catalog_wf ?c1 nt nc" by (rule wf_without_name [OF wf name])
  obtain q2 w2 where w2: "ta_find file_store E (ta_new col_table_instance ?l) (str_bytes ''t_id'') (CellInt (table_id t)) w1 = (Inr q2, w1)"
    "ta_delete file_store E (ta_new col_table_instance ?l) q2 w1 = (Inr (), w2)"
    "catalog_seen ?l (?c1(col_table_instance := without (CellInt (table_id t)) (?c1 col_table_instance))) w2"
    "only_stores catalog_storages w1 w2"
    using delete_catalog_rows [OF w1(3) catalog_member(2) ord catalog_columns(2)] by blast
  have c2: "?c1(col_table_instance := without (CellInt (table_id t)) (?c1 col_table_instance)) = dropped c name (table_id t)"
    by (simp add: dropped_def)
  show "catalog_wf (dropped c name (table_id t)) nt nc"
    using wf_without_columns [OF wf1 other] unfolding c2 .
  have "read_table file_store E d name w = (Inr t, w)" using read_table_eq [OF at] t by simp
  then have run2: "at_store DbStore (st_delete file_store ?tab) w2 = (r, w')"
    using run w1(1,2) w2(1,2)
    by (simp add: drop_table_def io_bind_def io_map_err_def catalog_reads_seen [OF seen wf] catalog_access_seen [OF seen wf _ fuel]
        catalog_reads_seen [OF w1(3) wf1] catalog_access_seen [OF w1(3) wf1 _ fuel])
  note del = file_delete_effect [OF run2]
  have apart: "?tab \<notin> catalog_storages"
    by (auto simp: catalog_storages_def fsm_access_def) (metis other)
  have "w_store w' (storage_file_path st) = w_store w2 (storage_file_path st)" if "st \<in> catalog_storages" for st
  proof (rule only_storesD [OF del(1)])
    show "st \<notin> {?tab}" using that apart by auto
  qed
  then show "catalog_seen ?l (dropped c name (table_id t)) w'"
    using catalog_seen_same [OF w2(3)] unfolding c2 by blast
  have both: "only_stores catalog_storages w w2" by (rule working.trans [OF w1(4) w2(4)])
  have "only_stores (insert ?tab catalog_storages) w w2" "only_stores (insert ?tab catalog_storages) w2 w'"
    using only_stores_mono [OF both] only_stores_mono [OF del(1)] by blast+
  then show "only_stores (insert ?tab catalog_storages) w w'" by (rule working.trans)
  show "r = Inr () \<longleftrightarrow> w_store w (storage_file_path ?tab) \<noteq> None"
    using del(2) only_storesD [OF both apart] by simp
  show "w_store w' (storage_file_path ?tab) = None" by (rule del(3))
qed

lemma dropped_lookup:
  assumes wf: "catalog_wf c nt nc" and t: "table_in_catalog c name = Inr t"
  shows "other \<noteq> name \<Longrightarrow> table_in_catalog (dropped c name (table_id t)) other = table_in_catalog c other"
    and "table_in_catalog (dropped c name (table_id t)) name = Inl (Err (TableNotFound name))"
proof -
  let ?c = "dropped c name (table_id t)"
  show "table_in_catalog ?c name = Inl (Err (TableNotFound name))"
    by (simp add: table_in_catalog_def dropped_def)
  show "other \<noteq> name \<Longrightarrow> table_in_catalog ?c other = table_in_catalog c other"
  proof (rule table_in_catalog_frame [OF wf])
    assume "other \<noteq> name"
    then show "rows_with (CellVarchar other) (?c table_instance) = rows_with (CellVarchar other) (c table_instance)"
      by (simp add: dropped_def)
    show "rows_with (CellInt k) (?c col_table_instance) = rows_with (CellInt k) (c col_table_instance)"
      if "table_row k other \<in> set (c table_instance)" for k
    proof -
      have "k \<noteq> table_id t" using same_table_id [OF wf t] that \<open>other \<noteq> name\<close> by blast
      then show ?thesis by (simp add: dropped_def)
    qed
  qed
qed

lemma created_stored:
  assumes run: "db_run d w" and str: "utf8_valid name" "\<forall>cc \<in> set ccs. utf8_valid (cc_name cc)"
    and room: "catalog_room (db_layout d) (3 * length ccs + 1) w" and ord: "\<forall>n. hash_order_ok (env_order E n)"
    and fuel: "2 \<le> env_fuel E" and create: "create_table file_store E d name ccs w = (Inr t, w')"
  shows "stored (db_layout d) t [] w'"
proof -
  obtain c nt nc where c: "catalog_at (db_layout d) c w" "catalog_wf c nt nc" using db_run_catalog [OF run] by blast
  have fresh: "rows_with (CellVarchar name) (c table_instance) = []"
    using create by (auto simp: create_table_run [OF c fuel] split: if_splits)
  have inv: "catalog_inv w d c nt nc (Suc (0 + 3 * length ccs)) w" using catalog_invI [OF c] room by simp
  obtain c' where "table_made d name ccs c nt nc c' t w'"
    using create_table_effect [OF inv ord fuel str fresh create] by auto
  then show ?thesis using history_stored by (auto simp: table_made_def)
qed

lemma stored_file: "stored l t rows w \<Longrightarrow> w_store w (storage_file_path (TableStorage (table_id t))) \<noteq> None"
  by (auto simp: stored_def history_inv_def table_inv_def rows_inv_def table_ok_def file_ok_def split: option.splits)

section \<open>Properties\<close>

text \<open>
  C11. Dropping a table of the user, in every state of a database: if its name cannot be looked up, the
  error is returned and nothing changes. Otherwise the name is missing afterwards, \<open>columns\<close> has no row
  of the table, its page file does not exist, every other name is looked up as before and every other
  table of a user keeps its rows; the call succeeds exactly when the page file was there.
\<close>

theorem drop_table_spec:
  assumes state: "db_run d w" and name: "name \<notin> table_name ` catalog_tables"
    and ord: "\<forall>n. hash_order_ok (env_order E n)" and fuel: "2 \<le> env_fuel E"
    and run: "drop_table file_store E d name w = (r, w')"
  shows "case fst (read_table file_store E d name w) of
      Inl e \<Rightarrow> r = Inl e \<and> w' = w
    | Inr t \<Rightarrow>
        fst (read_table file_store E d name w') = Inl (Err (TableNotFound name)) \<and>
        (\<exists>q. ta_find file_store E (ta_new col_table_instance (db_layout d)) (str_bytes ''t_id'') (CellInt (table_id t)) w' = (Inr q, w') \<and>
           query_rows q (w_store w') = Inr []) \<and>
        w_store w' (storage_file_path (TableStorage (table_id t))) = None \<and>
        (r = Inr () \<longleftrightarrow> w_store w (storage_file_path (TableStorage (table_id t))) \<noteq> None) \<and>
        (\<forall>other. other \<noteq> name \<longrightarrow>
           fst (read_table file_store E d other w') = fst (read_table file_store E d other w) \<and>
           (\<forall>u. fst (read_table file_store E d other w) = Inr u \<and> other \<notin> table_name ` catalog_tables \<longrightarrow>
              (\<forall>rows. stored (db_layout d) u rows w \<longrightarrow> stored (db_layout d) u rows w')))"
proof -
  let ?l = "db_layout d"
  obtain c nt nc where at: "catalog_at ?l c w" and wf: "catalog_wf c nt nc" using db_run_catalog [OF state] by blast
  note read = read_table_eq [OF at, of E]
  show ?thesis
  proof (cases "table_in_catalog c name")
    case (Inl e)
    then have "r = Inl e" "w' = w" using run by (simp_all add: drop_table_def io_bind_def read)
    then show ?thesis using Inl by (simp add: read)
  next
    case (Inr t)
    note eff = drop_table_effect [OF at wf ord fuel name Inr run] and look = dropped_lookup [OF wf Inr]
    note read' = read_table_seen [OF eff(1), of E]
    obtain q rs where q: "ta_find file_store E (ta_new col_table_instance ?l) (str_bytes ''t_id'') (CellInt (table_id t)) w' = (Inr q, w')"
      "query_rows q (w_store w') = Inr rs"
      "map snd rs = rows_with (CellInt (table_id t)) (dropped c name (table_id t) col_table_instance)"
      using legible_find [OF catalog_seenD [OF eff(1) catalog_member(2)] catalog_columns(2), of E "table_id t"]
      unfolding rows_with_def by blast
    have "rs = []" using q(3) by (simp add: dropped_def)
    have kept: "stored ?l u rows w'"
      if u: "table_in_catalog c other = Inr u" "other \<noteq> name" "other \<notin> table_name ` catalog_tables" and rows: "stored ?l u rows w"
      for other u rows
    proof (rule stored_same_files(1) [OF rows])
      have "table_id u \<noteq> table_id t"
        using same_table_id [OF wf Inr] table_in_catalog_row(2) [OF wf u(1)] u(2) by metis
      then have "st \<notin> insert (TableStorage (table_id t)) catalog_storages" if "st \<in> {TableStorage (table_id u), fsm_access u}" for st
        using that user_table_id [OF wf u(1,3)] by (fastforce simp: catalog_storages_def fsm_access_def)
      then show "same_files u w w'" unfolding same_files_def using only_storesD [OF eff(3)] by blast
    qed
    show ?thesis
      using q(1,2) \<open>rs = []\<close> eff(4,5) look kept Inr by (simp add: read read' del: storage_file_path.simps) blast
  qed
qed

text \<open>The table of the example above is dropped again.\<close>

theorem drop_table_spec_witness:
  "\<exists>d w t w1 w2. database_new plain_env (str_bytes ''shop'') Map.empty = (Inr d, [str_bytes ''shop'' \<mapsto> Directory (w_store w)]) \<and>
     create_table file_store plain_env d (str_bytes ''users'') shop_commands w = (Inr t, w1) \<and>
     drop_table file_store plain_env d (str_bytes ''users'') w1 = (Inr (), w2) \<and>
     fst (read_table file_store plain_env d (str_bytes ''users'') w2) = Inl (Err (TableNotFound (str_bytes ''users'')))"
proof -
  obtain d w where d: "database_new plain_env (str_bytes ''shop'') Map.empty = (Inr d, [str_bytes ''shop'' \<mapsto> Directory (w_store w)])"
    "db_run d w" "catalog_room (db_layout d) (3 * length shop_commands + 1) w"
    "catalog_at (db_layout d) initial_catalog w" "db_layout d = layout_4096"
    "\<forall>t \<in> catalog_tables. appendable (db_layout d) t 3500 w"
    "\<forall>st. st \<notin> catalog_storages \<longrightarrow> w_store w (storage_file_path st) = None"
    by (rule shop)
  obtain t w1 where create: "create_table file_store plain_env d (str_bytes ''users'') shop_commands w = (Inr t, w1)"
    "read_table file_store plain_env d (str_bytes ''users'') w1 = (Inr t, w1)"
    using first_table_outcome [OF d(4-7) shop_ok(2-5,10,11)] shop_ok(7-9) by auto
  have state: "db_run d w1" by (rule db_run.table_created [OF d(2) shop_ok(2,3) d(3) shop_ok(10,11) create(1)])
  obtain r w2 where drop: "drop_table file_store plain_env d (str_bytes ''users'') w1 = (r, w2)" by force
  have "\<exists>rows. stored (db_layout d) t rows w1"
    using created_stored [OF d(2) shop_ok(2,3) d(3) shop_ok(10,11) create(1)] by blast
  then have "w_store w1 (storage_file_path (TableStorage (table_id t))) \<noteq> None"
    using stored_file by blast
  then have "r = Inr ()" "fst (read_table file_store plain_env d (str_bytes ''users'') w2) = Inl (Err (TableNotFound (str_bytes ''users'')))"
    using drop_table_spec [OF state shop_ok(9-11) drop] create(2) by (simp_all del: storage_file_path.simps)
  then show ?thesis using d(1) create(1) drop by blast
qed

end
