(* ===== verification/Spec2Isabelle.thy ===== *)
theory Spec2Isabelle
  imports Page_Ops Page_Codec Page_Iter Schema Freespace_Tree Indexed_Delete Indexed_Duplicate
    File_Store Fsm_Find Drop_Table
begin

text \<open>
  A verification development for fiddlers-db, a small relational database in Rust.

  The program. A table is a file of pages of equal size. A page (\<open>src/src/data/page.rs\<close>)
  holds rows from its end downwards and a directory of slots from its start upwards; a row
  (\<open>src/src/schema\<close>) is a sequence of cells of three types. A store (\<open>src/src/store\<close>)
  reads, writes and appends pages; the one implementation keeps each structure in a file of a
  directory. The free space map of a table (\<open>src/src/freespace\<close>) is a second file of
  pages, each with one max tree over the categories of the pages below, and tells an insertion which
  page to use. A unique index (\<open>src/src/tree\<close>) is a B+ tree in a file of its own with a
  pager and a cache. The table access and the catalog (\<open>src/src/database\<close>) put these together.

  Theories and sources.
  \<^item> \<open>Prelude\<close>: results with panics, state passing, slices, machine integers, big-endian
    encodings, and the order in which a hash map is iterated, which is a parameter.
  \<^item> \<open>Page\<close>, \<open>Page_Ops\<close>, \<open>Page_Codec\<close>, \<open>Page_Iter\<close>: \<open>data/page.rs\<close>. The
    invariant \<open>page_wf\<close> says that slots lie in the data area, do not overlap, and do not reach
    into the directory; \<open>page_rows\<close> is the abstraction, a map from slot ids to rows.
  \<^item> \<open>Schema\<close>: \<open>schema/mod.rs\<close> and \<open>schema/table.rs\<close>.
  \<^item> \<open>Freespace_Tree\<close>: \<open>freespace/binary_tree.rs\<close>, with the locale \<open>category_index\<close>.
  \<^item> \<open>Files\<close>: the operations of the standard library on files that the program uses.
  \<^item> \<open>BTree_Pager\<close>, \<open>BTree_Codec\<close>: the byte format and the pager of \<open>tree/store.rs\<close>;
    \<open>BTree_Node\<close>, \<open>BTree_Search\<close>: \<open>tree/node.rs\<close>; \<open>BTree_Store\<close>: \<open>BTreeStore\<close>.
  \<^item> \<open>BTree_Tree\<close>, \<open>BTree_Invariant\<close>, \<open>BTree_Insertion\<close>, \<open>BTree_Deletion\<close>: the specification that
    \<open>node.rs\<close> is held against: B+ trees as a datatype, their invariant (order, balance, occupancy of
    pages), insertion with splits and deletion with borrows and merges, and what these do to the sorted
    list of entries.
  \<^item> \<open>BTree_Stored\<close>, \<open>BTree_Insert_Refine\<close>, \<open>BTree_Delete_Refine\<close>, \<open>BTree_Lookup\<close>: when the pages of a
    file hold a tree, and that the recursive operations of \<open>node.rs\<close> refine those on the tree.
  \<^item> \<open>BTree_Index\<close>, \<open>BTree_Index_Deletion\<close>, \<open>BTree_Reopen\<close>, \<open>BTree_Range\<close>: the operations of
    \<open>tree/store.rs\<close> on the sorted list of entries, the root and the metadata included;
    \<open>BTree_Props\<close>, \<open>BTree_Duplicate\<close>: their properties.
  \<^item> \<open>Store\<close>: the trait of \<open>store/mod.rs\<close> as a record of operations, its laws as the locale
    \<open>page_store\<close>, and the row iterators; \<open>File_Store\<close>: \<open>store/file_store.rs\<close>, which
    interprets the locale.
  \<^item> \<open>Fsm\<close>, \<open>Fsm_Address\<close>, \<open>Fsm_Update\<close>, \<open>Fsm_Find\<close>: \<open>freespace/fsm.rs\<close>, generic
    in the store; its lemmas are proved in \<open>page_store\<close> and drawn for the store on files.
  \<^item> \<open>Query\<close>, \<open>Table_Access\<close>: \<open>database/table_access.rs\<close>, queries and joins, and the
    operations of a table with its free space map and its indexes; \<open>Query_Props\<close>: joins and types.
  \<^item> \<open>Table_Rows\<close>, \<open>Table_Changes\<close>, \<open>Table_Delete\<close>, \<open>Table_Update\<close>, \<open>Table_History\<close>: a table
    without indexes as a finite map from places to rows, what each operation does to it, and all its histories.
  \<^item> \<open>Seq_Access\<close>, \<open>Seq_Props\<close>: \<open>database/seq_access.rs\<close>.
  \<^item> \<open>Catalog\<close>, \<open>Database\<close>: \<open>database/mod.rs\<close>, its reading and its writing side.
  \<^item> \<open>Frames\<close>: what an operation leaves alone, with the locale \<open>state_relation\<close>; \<open>Table_Scan\<close>,
    \<open>Table_Append\<close>, \<open>Table_Legible\<close>: a table as the list of its rows in the order of a scan, the
    case of one page with room, and the weaker view that deletions leave.
  \<^item> \<open>Indexed_Table\<close>, \<open>Indexed_History\<close>, \<open>Indexed_Delete\<close>, \<open>Indexed_Duplicate\<close>: a table with one
    unique index, where table, free space map and B+ tree meet: the index holds the place of every row under its key (\<open>indexed_inv\<close>).
  \<^item> \<open>Catalog_State\<close>, \<open>Catalog_Steps\<close>, \<open>Database_Created\<close>, \<open>Catalog_Props\<close>, \<open>Catalog_Ops\<close>,
    \<open>Create_Table\<close>, \<open>Create_Table_Props\<close>, \<open>Database_Run\<close>, \<open>Database_Props\<close>, \<open>Drop_Table\<close>: the
    catalog as the rows of its four tables, the tables these rows describe, and what opening a database,
    creating and dropping a table do to them.

  Conventions. A function that can fail returns a \<open>result\<close>: \<open>Inl (Err e)\<close> is an error of
  the code, \<open>Inl Panic\<close> a panic (an index out of range, an overflow of a checked operation, an
  assertion), \<open>Inr x\<close> a value. Overflow is that of a build with checks: arithmetic on
  \<open>i32\<close>, \<open>u16\<close> and \<open>u32\<close> panics, casts wrap or truncate. A \<open>usize\<close> is a
  natural number; where a product of it could leave 64 bits the bound is written out
  (\<open>page_position\<close>). Code with effects maps a state to a result and a state. Strings are lists
  of bytes, with UTF-8 validity checked where the code does.

  What is shown. For pages: insertion, deletion and update act on the map of rows as they should,
  insertion succeeds exactly when there is room, and pages survive being written and read. One
  insertion breaks the invariant: a row that goes into a larger deleted slot of a page whose
  directory has no room for one more slot; the theorems say exactly when, and that data is lost.
  For rows: round trip, soundness of reading, and the specification of validation. For the free
  space tree and map: the heap invariant, first fit, the addressing of pages, the effect of
  \<open>update\<close>, and an invariant of all reachable states from which the search never fails; and
  that \<open>update\<close> forgets free space. For the store on files: the contract of the store. For the
  B+ tree: the byte format, the pager with its cache, and that an index is a sorted list of entries:
  insertion adds an entry, deletion removes one, lookups and the four range searches answer from the list,
  closing and opening the file keeps it, and a new index goes through any number of insertions and
  then deletions without an error or a panic. Three defects bound this: after a deletion a key equal
  to a separator that is left over would be inserted where no lookup finds it, so a key to insert is to be
  on no page; a page that an insertion takes from the list of deleted pages is not written, so the list is
  to be empty; and with degree four a deletion can leave a page without keys, so deletions ask for
  degree six. A key that is present, with no full page on
  the path to its leaf, is reported only in a tree of one page. For tables without indexes: scans and
  queries yield the multiset of rows that the insertions, deletions and updates in place describe
  (\<open>table_reached\<close>). Rows of varying length are deleted too; because of the broken invariant above an
  insertion is then covered as long as no deleted slot of the table is longer than its row, which rows of a
  fixed length always meet. An insertion fails exactly when the row does not validate or the page that
  the free space map gives out refuses it (\<open>refused_row\<close>). The histories with an index, and the catalog,
  rest on the narrower \<open>table_history\<close>, which deletes only rows of a fixed length. A table with
  a unique index refines a multiset of rows under insertions of rows with new keys and lookups:
  queries through the index and scans agree. Deletions of rows that a scan found keep that; a row found
  through the index is not deleted unless it lies in slot 0 of its page, and loses its entry. A row with a
  present key, with no full page on the path to its leaf, is refused by the index only while the index has
  one page; later it is stored, and no lookup by the key finds it. For queries: the hash join is the nested loop join,
  and all rows are typed. For sequences: \<open>next_val\<close> advances one row. For the catalog: a new database
  describes its own four tables; \<open>create_table\<close> refines adding a table to a directory of names and
  leaves every other table as it was, whatever its outcome; \<open>drop_table\<close> removes one. The states covered
  are those of \<open>db_run\<close>: a new database and what creating tables, drawing from sequences and work on
  other files make of it. After a drop, reading is covered and insertion into the catalog is not.

  Bounds and fuel. The free space map has at most four levels and its loops run that many times.
  The operations of the B+ tree follow child pointers from a file; they take a fuel that bounds
  the depth, and running out of it is \<open>Panic\<close>. A fuel above the height of the tree is enough for
  lookups and deletions, one more for insertions, and the number of pages plus two for the
  walks along the leaves. The degree is even, at least 4, and at most 8192, beyond which the length of a
  list does not fit its field; page numbers stay below \<open>2 ^ 31\<close> because an insertion asks that the
  pages and the height leave room for the splits. \<open>btree_history\<close> bounds the number of keys
  by 46000 since it counts pages coarsely. \<open>table_access\<close> calls itself for the table
  \<open>indexes\<close> and stops at id 4; its fuel is the depth of that recursion, and two are enough whenever
  it ends (\<open>open_table_terminates\<close>). The budgets of \<open>first_table_created\<close> are bytes: a page has 4096,
  of which a new catalog table leaves 3500 and 32 are kept back by the rounding of categories.

  Not shown: insertion into an index after a merge has given back a page; updates of a table with an index,
  and tables with several, whose operations are modelled in \<open>Table_Access\<close>.

  Not modelled: the directory a store lives in (a file system is a map from names to contents, so
  the errors of the operating system other than a missing file and the end of a file do not
  occur), the texts of errors, the listing that \<open>delete_all\<close> prints, the command line program
  \<open>main.rs\<close> (a demonstration with random data and timings), and the assertions of test builds.
\<close>

end
